(* ===== verification/Zfp_Prelude.thy ===== *)
theory Zfp_Prelude
  imports Main "HOL-Library.Word"
begin

text \<open>
  Shared vocabulary of the development: the names of the C integer types the sources use, the
  rounding helper of \<^verbatim>\<open>src/template/utils.c\<close>, and the generic facts on words, bits and lists that the component
  theories use. The collection \<open>word_bits\<close> holds the rewrite rules that turn a word operation
  into a statement on single bits. The macros \<open>MIN\<close> and \<open>MAX\<close> of the sources are HOL's
  \<open>min\<close> and \<open>max\<close>.
\<close>

unbundle bit_operations_syntax

named_theorems word_bits \<open>rules that read single bits of word expressions\<close>

type_synonym uint16 = "16 word"
type_synonym uint32 = "32 word"
type_synonym uint64 = "64 word"

section \<open>Rounding helpers\<close>

text \<open>Smallest multiple of \<open>unit\<close> not below \<open>sz\<close> (\<open>round_up_\<close> of utils.c), for sizes that do
  not wrap around.\<close>

definition round_up :: "nat \<Rightarrow> nat \<Rightarrow> nat" where
  "round_up sz unit = (let m = sz + (unit - 1) in m - m mod unit)"

lemma round_up_dvd: "unit dvd round_up sz unit"
  by (simp add: round_up_def Let_def minus_mod_eq_mult_div)

lemma round_up_ge: "0 < unit \<Longrightarrow> sz \<le> round_up sz unit"
proof -
  assume u: "0 < unit"
  have "(sz + (unit - 1)) mod unit \<le> unit - 1"
    using u mod_less_divisor [OF u, of "sz + (unit - 1)"] by linarith
  then show ?thesis by (simp add: round_up_def Let_def)
qed

lemma round_up_less: "0 < unit \<Longrightarrow> round_up sz unit < sz + unit"
  by (simp add: round_up_def Let_def)

section \<open>Word and bit positions\<close>

text \<open>A position is a word number \<open>q\<close> and an offset \<open>r\<close> below the word size; positions compare
  lexicographically.\<close>

lemma split_less_iff:
  "(r::nat) < w \<Longrightarrow> r' < w \<Longrightarrow> q * w + r < q' * w + r' \<longleftrightarrow> q < q' \<or> q = q' \<and> r < r'"
proof (cases q q' rule: linorder_cases)
  case less
  assume "r < w"
  from less have "Suc q * w \<le> q' * w" by (intro mult_le_mono1) simp
  with \<open>r < w\<close> less show ?thesis by simp
next
  case greater
  assume "r' < w"
  from greater have "Suc q' * w \<le> q * w" by (intro mult_le_mono1) simp
  with \<open>r' < w\<close> greater show ?thesis by simp
qed simp

lemma div_word: "(r::nat) < w \<Longrightarrow> (q * w + r) div w = q"
  and mod_word: "(r::nat) < w \<Longrightarrow> (q * w + r) mod w = r"
  by simp_all

section \<open>Bits of words\<close>

text \<open>A loop that moves by whole words makes progress, since words are not empty.\<close>

lemma len_step_down [simp]: "LENGTH('w::len) \<le> n \<Longrightarrow> n - LENGTH('w) < n"
  using len_gt_0 [where 'a = 'w] by linarith

lemma len_step_up [simp]: "c + LENGTH('w::len) < n \<Longrightarrow> n - (c + LENGTH('w)) < n - c"
  using len_gt_0 [where 'a = 'w] by linarith

lemma len_step_down2 [simp]: "LENGTH('w::len) \<le> n - LENGTH('w) \<Longrightarrow> n - LENGTH('w) < n"
  using len_gt_0 [where 'a = 'w] by linarith

lemma bit_word_eq_iff:
  "a = b \<longleftrightarrow> (\<forall>i < LENGTH('w). bit a i = bit b i)" for a b :: "'w::len word"
  by (auto intro: bit_word_eqI)

lemma bit_ucast_iff [word_bits]:
  "bit (ucast (w :: 'b::len word) :: 'a::len word) i \<longleftrightarrow> i < LENGTH('a) \<and> bit w i"
  by (simp add: bit_unsigned_iff possible_bit_def)

lemma bit_push_iff [word_bits]:
  "bit (push_bit m (w :: 'a::len word)) i \<longleftrightarrow> m \<le> i \<and> i < LENGTH('a) \<and> bit w (i - m)"
  by (auto simp: bit_push_bit_iff possible_bit_def)

lemma bit_lt_len: "bit (w :: 'a::len word) i \<Longrightarrow> i < LENGTH('a)"
  by (rule bit_imp_le_length)

lemma exp_decr_mask: "2 ^ n - (1 :: 'a::len word) = mask n"
  by (simp add: mask_eq_decr_exp)

lemma mask_word_shift: "push_bit n (1 :: 'a::len word) - 1 = mask n"
  by (simp add: mask_eq_decr_exp push_bit_eq_mult)

lemma mask_word_shift2: "0 < n \<Longrightarrow> push_bit (n - Suc 0) (2 :: 'a::len word) - 1 = mask n"
  by (cases n) (simp_all add: mask_eq_decr_exp push_bit_eq_mult ac_simps)

text \<open>Adding words that have no common one-bit is their disjunction.\<close>

lemma disjoint_add_or:
  "(\<And>i. bit a i \<Longrightarrow> bit b i \<Longrightarrow> False) \<Longrightarrow> a + b = a OR b" for a b :: "'a::len word"
  by (rule disjunctive_add) auto

lemmas [word_bits] = bit_or_iff bit_and_iff bit_drop_bit_eq bit_take_bit_iff bit_mask_iff

section \<open>Counting loops\<close>

text \<open>\<open>for (x = 0; x < n; x++)\<close> with a state.\<close>

definition for_loop :: "nat \<Rightarrow> (nat \<Rightarrow> 's \<Rightarrow> 's) \<Rightarrow> 's \<Rightarrow> 's" where
  "for_loop n body s = fold body [0..<n] s"

lemma for_loop_simps [simp]:
  "for_loop 0 f s = s"
  "for_loop (Suc n) f s = f n (for_loop n f s)"
  by (simp_all add: for_loop_def)

lemma for_loop_4: "for_loop 4 f s = f 3 (f 2 (f 1 (f 0 s)))"
  by (simp add: for_loop_def upt_rec numeral_3_eq_3 numeral_2_eq_2)

lemma for_loop_invariant:
  assumes "P 0 s" "\<And>i t. i < n \<Longrightarrow> P i t \<Longrightarrow> P (Suc i) (f i t)"
  shows "P n (for_loop n f s)"
  using assms by (induction n) (simp_all add: less_Suc_eq)

end
