(* ===== verification/Transform.thy ===== *)
theory Transform
  imports Zfp_Prelude
begin

text \<open>
  The block transforms of \<^verbatim>\<open>src/template/encode{1,2,3,4}.c\<close>, \<^verbatim>\<open>decode{1,2,3,4}.c\<close> and their reversible
  variants \<^verbatim>\<open>revencode*.c\<close>, \<^verbatim>\<open>revdecode*.c\<close>: a block of \<open>4 ^ d\<close> two's complement integers is a list of words,
  a lifting step reads and writes four of them at a stride, and a transform sweeps the lifting step
  over the lanes of each axis. The lossy transform is related to integer arithmetic: on values in
  range it does not overflow, keeps the range, and its inverse restores the block up to a small
  error; the reversible transform is inverted exactly.
\<close>

section \<open>Lifting steps on four values\<close>

type_synonym 'a vec4 = "'a \<times> 'a \<times> 'a \<times> 'a"

definition fwd_lift4 :: "('i::len) word vec4 \<Rightarrow> 'i word vec4" where
  "fwd_lift4 = (\<lambda>(x, y, z, w).
    let x = x + w; x = signed_drop_bit 1 x; w = w - x;
        z = z + y; z = signed_drop_bit 1 z; y = y - z;
        x = x + z; x = signed_drop_bit 1 x; z = z - x;
        w = w + y; w = signed_drop_bit 1 w; y = y - w;
        w = w + signed_drop_bit 1 y; y = y - signed_drop_bit 1 w
    in (x, y, z, w))"

definition inv_lift4 :: "('i::len) word vec4 \<Rightarrow> 'i word vec4" where
  "inv_lift4 = (\<lambda>(x, y, z, w).
    let y = y + signed_drop_bit 1 w; w = w - signed_drop_bit 1 y;
        y = y + w; w = w - (y - w);
        z = z + x; x = x - (z - x);
        y = y + z; z = z - (y - z);
        w = w + x; x = x - (w - x)
    in (x, y, z, w))"

definition rev_fwd_lift4 :: "('i::len) word vec4 \<Rightarrow> 'i word vec4" where
  "rev_fwd_lift4 = (\<lambda>(x, y, z, w).
    let w = w - z; z = z - y; y = y - x;
        w = w - z; z = z - y;
        w = w - z
    in (x, y, z, w))"

definition rev_inv_lift4 :: "('i::len) word vec4 \<Rightarrow> 'i word vec4" where
  "rev_inv_lift4 = (\<lambda>(x, y, z, w).
    let w = w + z;
        z = z + y; w = w + z;
        y = y + x; z = z + y; w = w + z
    in (x, y, z, w))"

text \<open>Load the four values at offset \<open>i\<close> and stride \<open>s\<close>, transform them, store them back.\<close>

definition lane :: "('a vec4 \<Rightarrow> 'a vec4) \<Rightarrow> 'a list \<Rightarrow> nat \<Rightarrow> nat \<Rightarrow> 'a list" where
  "lane f p i s =
    (case f (p ! i, p ! (i + s), p ! (i + 2 * s), p ! (i + 3 * s)) of
      (x, y, z, w) \<Rightarrow> p[i + 3 * s := w, i + 2 * s := z, i + s := y, i := x])"

definition fwd_lift :: "('i::len) word list \<Rightarrow> nat \<Rightarrow> nat \<Rightarrow> 'i word list" where
  "fwd_lift = lane fwd_lift4"

definition inv_lift :: "('i::len) word list \<Rightarrow> nat \<Rightarrow> nat \<Rightarrow> 'i word list" where
  "inv_lift = lane inv_lift4"

definition rev_fwd_lift :: "('i::len) word list \<Rightarrow> nat \<Rightarrow> nat \<Rightarrow> 'i word list" where
  "rev_fwd_lift = lane rev_fwd_lift4"

definition rev_inv_lift :: "('i::len) word list \<Rightarrow> nat \<Rightarrow> nat \<Rightarrow> 'i word list" where
  "rev_inv_lift = lane rev_inv_lift4"

text \<open>A loop nest that lifts one lane after another, all with the same stride.\<close>

definition sweep :: "('a list \<Rightarrow> nat \<Rightarrow> nat \<Rightarrow> 'a list) \<Rightarrow> nat list \<Rightarrow> nat \<Rightarrow> 'a list \<Rightarrow> 'a list" where
  "sweep lift offs s p = fold (\<lambda>i p. lift p i s) offs p"

section \<open>Block transforms\<close>

text \<open>The offsets \<open>p + ...\<close> that the loop nests of \<^verbatim>\<open>encode2.c\<close>, \<^verbatim>\<open>encode3.c\<close> and
  \<^verbatim>\<open>encode4.c\<close> visit, in loop order (the outermost loop variable first), per axis and
  dimensionality. The decoders visit the same offsets in the same order.\<close>

definition lanes_x_2 :: "nat list" where
  "lanes_x_2 = [4 * y. y \<leftarrow> [0..<4]]"

definition lanes_y_2 :: "nat list" where
  "lanes_y_2 = [1 * x. x \<leftarrow> [0..<4]]"

definition lanes_x_3 :: "nat list" where
  "lanes_x_3 = [4 * y + 16 * z. z \<leftarrow> [0..<4], y \<leftarrow> [0..<4]]"

definition lanes_y_3 :: "nat list" where
  "lanes_y_3 = [16 * z + 1 * x. x \<leftarrow> [0..<4], z \<leftarrow> [0..<4]]"

definition lanes_z_3 :: "nat list" where
  "lanes_z_3 = [1 * x + 4 * y. y \<leftarrow> [0..<4], x \<leftarrow> [0..<4]]"

definition lanes_x_4 :: "nat list" where
  "lanes_x_4 = [4 * y + 16 * z + 64 * w. w \<leftarrow> [0..<4], z \<leftarrow> [0..<4], y \<leftarrow> [0..<4]]"

definition lanes_y_4 :: "nat list" where
  "lanes_y_4 = [16 * z + 64 * w + 1 * x. x \<leftarrow> [0..<4], w \<leftarrow> [0..<4], z \<leftarrow> [0..<4]]"

definition lanes_z_4 :: "nat list" where
  "lanes_z_4 = [64 * w + 1 * x + 4 * y. y \<leftarrow> [0..<4], x \<leftarrow> [0..<4], w \<leftarrow> [0..<4]]"

definition lanes_w_4 :: "nat list" where
  "lanes_w_4 = [1 * x + 4 * y + 16 * z. z \<leftarrow> [0..<4], y \<leftarrow> [0..<4], x \<leftarrow> [0..<4]]"

definition fwd_xform_1 :: "('i::len) word list \<Rightarrow> 'i word list" where
  "fwd_xform_1 p = fwd_lift p 0 1"

definition fwd_xform_2 :: "('i::len) word list \<Rightarrow> 'i word list" where
  "fwd_xform_2 p =
    (let p = sweep fwd_lift lanes_x_2 1 p
     in sweep fwd_lift lanes_y_2 4 p)"

definition fwd_xform_3 :: "('i::len) word list \<Rightarrow> 'i word list" where
  "fwd_xform_3 p =
    (let p = sweep fwd_lift lanes_x_3 1 p;
         p = sweep fwd_lift lanes_y_3 4 p
     in sweep fwd_lift lanes_z_3 16 p)"

definition fwd_xform_4 :: "('i::len) word list \<Rightarrow> 'i word list" where
  "fwd_xform_4 p =
    (let p = sweep fwd_lift lanes_x_4 1 p;
         p = sweep fwd_lift lanes_y_4 4 p;
         p = sweep fwd_lift lanes_z_4 16 p
     in sweep fwd_lift lanes_w_4 64 p)"

definition inv_xform_1 :: "('i::len) word list \<Rightarrow> 'i word list" where
  "inv_xform_1 p = inv_lift p 0 1"

definition inv_xform_2 :: "('i::len) word list \<Rightarrow> 'i word list" where
  "inv_xform_2 p =
    (let p = sweep inv_lift lanes_y_2 4 p
     in sweep inv_lift lanes_x_2 1 p)"

definition inv_xform_3 :: "('i::len) word list \<Rightarrow> 'i word list" where
  "inv_xform_3 p =
    (let p = sweep inv_lift lanes_z_3 16 p;
         p = sweep inv_lift lanes_y_3 4 p
     in sweep inv_lift lanes_x_3 1 p)"

definition inv_xform_4 :: "('i::len) word list \<Rightarrow> 'i word list" where
  "inv_xform_4 p =
    (let p = sweep inv_lift lanes_w_4 64 p;
         p = sweep inv_lift lanes_z_4 16 p;
         p = sweep inv_lift lanes_y_4 4 p
     in sweep inv_lift lanes_x_4 1 p)"

definition rev_fwd_xform_1 :: "('i::len) word list \<Rightarrow> 'i word list" where
  "rev_fwd_xform_1 p = rev_fwd_lift p 0 1"

definition rev_fwd_xform_2 :: "('i::len) word list \<Rightarrow> 'i word list" where
  "rev_fwd_xform_2 p =
    (let p = sweep rev_fwd_lift lanes_x_2 1 p
     in sweep rev_fwd_lift lanes_y_2 4 p)"

definition rev_fwd_xform_3 :: "('i::len) word list \<Rightarrow> 'i word list" where
  "rev_fwd_xform_3 p =
    (let p = sweep rev_fwd_lift lanes_x_3 1 p;
         p = sweep rev_fwd_lift lanes_y_3 4 p
     in sweep rev_fwd_lift lanes_z_3 16 p)"

definition rev_fwd_xform_4 :: "('i::len) word list \<Rightarrow> 'i word list" where
  "rev_fwd_xform_4 p =
    (let p = sweep rev_fwd_lift lanes_x_4 1 p;
         p = sweep rev_fwd_lift lanes_y_4 4 p;
         p = sweep rev_fwd_lift lanes_z_4 16 p
     in sweep rev_fwd_lift lanes_w_4 64 p)"

definition rev_inv_xform_1 :: "('i::len) word list \<Rightarrow> 'i word list" where
  "rev_inv_xform_1 p = rev_inv_lift p 0 1"

definition rev_inv_xform_2 :: "('i::len) word list \<Rightarrow> 'i word list" where
  "rev_inv_xform_2 p =
    (let p = sweep rev_inv_lift lanes_y_2 4 p
     in sweep rev_inv_lift lanes_x_2 1 p)"

definition rev_inv_xform_3 :: "('i::len) word list \<Rightarrow> 'i word list" where
  "rev_inv_xform_3 p =
    (let p = sweep rev_inv_lift lanes_z_3 16 p;
         p = sweep rev_inv_lift lanes_y_3 4 p
     in sweep rev_inv_lift lanes_x_3 1 p)"

definition rev_inv_xform_4 :: "('i::len) word list \<Rightarrow> 'i word list" where
  "rev_inv_xform_4 p =
    (let p = sweep rev_inv_lift lanes_w_4 64 p;
         p = sweep rev_inv_lift lanes_z_4 16 p;
         p = sweep rev_inv_lift lanes_y_4 4 p
     in sweep rev_inv_lift lanes_x_4 1 p)"

text \<open>The transform for a dimensionality (the sources select it by the \<open>DIMS\<close> template
  parameter).\<close>

definition fwd_xform :: "nat \<Rightarrow> ('i::len) word list \<Rightarrow> 'i word list" where
  "fwd_xform d p = (if d = 1 then fwd_xform_1 p else if d = 2 then fwd_xform_2 p
    else if d = 3 then fwd_xform_3 p else fwd_xform_4 p)"

definition inv_xform :: "nat \<Rightarrow> ('i::len) word list \<Rightarrow> 'i word list" where
  "inv_xform d p = (if d = 1 then inv_xform_1 p else if d = 2 then inv_xform_2 p
    else if d = 3 then inv_xform_3 p else inv_xform_4 p)"

definition rev_fwd_xform :: "nat \<Rightarrow> ('i::len) word list \<Rightarrow> 'i word list" where
  "rev_fwd_xform d p = (if d = 1 then rev_fwd_xform_1 p else if d = 2 then rev_fwd_xform_2 p
    else if d = 3 then rev_fwd_xform_3 p else rev_fwd_xform_4 p)"

definition rev_inv_xform :: "nat \<Rightarrow> ('i::len) word list \<Rightarrow> 'i word list" where
  "rev_inv_xform d p = (if d = 1 then rev_inv_xform_1 p else if d = 2 then rev_inv_xform_2 p
    else if d = 3 then rev_inv_xform_3 p else rev_inv_xform_4 p)"

section \<open>Lanes that do not overlap\<close>

text \<open>The lanes of one axis: with stride \<open>s\<close> an offset is the start of a lane if its digit at
  \<open>s\<close> (in base 4) is zero. Two such lanes never meet.\<close>

definition axis_ok :: "nat list \<Rightarrow> nat \<Rightarrow> nat \<Rightarrow> bool" where
  "axis_ok offs s n \<longleftrightarrow>
    0 < s \<and> distinct offs \<and> (\<forall>i \<in> set offs. i div s mod 4 = 0 \<and> i + 3 * s < n)"

lemma lane_member: "(i::nat) div s mod 4 = 0 \<Longrightarrow> 0 < s \<Longrightarrow> t < 4 \<Longrightarrow> (i + t * s) div s mod 4 = t"
proof -
  assume a: "i div s mod 4 = 0" "0 < s" "t < 4"
  then have "(i + t * s) div s = t + i div s" by simp
  moreover have "(t + q) mod 4 = t" if "q mod 4 = 0" "t < 4" for q t :: nat
    using that by presburger
  ultimately show ?thesis using a by simp
qed

lemma lanes_disjoint:
  assumes "0 < s" "i div s mod 4 = 0" "j div s mod 4 = 0" "t < 4" "u < 4"
    and "i + t * s = j + u * s"
  shows "i = (j::nat)"
proof -
  have "t = u" using lane_member [of i s t] lane_member [of j s u] assms by simp
  then show ?thesis using assms(6) by simp
qed

lemma length_lane [simp]: "length (lane f p i s) = length p"
  by (simp add: lane_def split: prod.split)

lemma length_sweep_lane [simp]: "length (sweep (lane f) offs s p) = length p"
  unfolding sweep_def by (induction offs arbitrary: p) simp_all

lemma nth_lane_other:
  assumes "\<And>t. t < 4 \<Longrightarrow> j \<noteq> i + t * s"
  shows "lane f p i s ! j = p ! j"
proof -
  have "j \<noteq> i" "j \<noteq> i + s" "j \<noteq> i + 2 * s" "j \<noteq> i + 3 * s"
    using assms [of 0] assms [of 1] assms [of 2] assms [of 3] by simp_all
  then show ?thesis by (simp add: lane_def split: prod.split)
qed

text \<open>The four values of a lane, and a lane transform as a function of them alone.\<close>

definition lane_vec :: "'a list \<Rightarrow> nat \<Rightarrow> nat \<Rightarrow> 'a vec4" where
  "lane_vec p i s = (p ! i, p ! (i + s), p ! (i + 2 * s), p ! (i + 3 * s))"

lemma lane_vec_lane: "0 < s \<Longrightarrow> i + 3 * s < length p \<Longrightarrow> lane_vec (lane f p i s) i s = f (lane_vec p i s)"
  by (simp add: lane_def lane_vec_def split: prod.split)

lemma lane_eqI:
  assumes "length p = length q" "\<And>j. (\<forall>t < 4. j \<noteq> i + t * s) \<Longrightarrow> p ! j = q ! j"
    and "lane_vec p i s = lane_vec q i s"
  shows "p = q"
proof (rule nth_equalityI)
  fix j assume "j < length p"
  show "p ! j = q ! j"
  proof (cases "\<exists>t < 4. j = i + t * s")
    case True
    then obtain t where t: "t < 4" "j = i + t * s" by blast
    then have "t = 0 \<or> t = 1 \<or> t = 2 \<or> t = 3" by auto
    then show ?thesis using assms(3) t by (auto simp: lane_vec_def)
  qed (use assms(2) in auto)
qed (fact assms(1))

lemma lane_lane: "0 < s \<Longrightarrow> i + 3 * s < length p \<Longrightarrow> lane g (lane f p i s) i s = lane (g \<circ> f) p i s"
  by (rule lane_eqI [of _ _ i s]) (simp_all add: lane_vec_lane nth_lane_other)

lemma lane_id: "lane (\<lambda>v. v) p i s = p"
  by (simp add: lane_def)

lemma lane_vec_other:
  assumes "0 < s" "i div s mod 4 = 0" "j div s mod 4 = 0" "i \<noteq> j"
  shows "lane_vec (lane f p i s) j s = lane_vec p j s"
proof -
  have "lane f p i s ! (j + u * s) = p ! (j + u * s)" if "u < 4" for u
    using lanes_disjoint [OF assms(1-3)] that assms(4) by (intro nth_lane_other) metis
  from this [of 0] this [of 1] this [of 2] this [of 3] show ?thesis by (simp add: lane_vec_def)
qed

lemma lane_commute:
  assumes s: "0 < s" and i: "i div s mod 4 = 0" "i + 3 * s < length p"
    and j: "j div s mod 4 = 0" "j + 3 * s < length p" and ne: "i \<noteq> j"
  shows "lane g (lane f p i s) j s = lane f (lane g p j s) i s"
proof (rule lane_eqI [of _ _ i s])
  have vi: "lane_vec (lane g q j s) i s = lane_vec q i s" for q
    using lane_vec_other [OF s j(1) i(1)] ne by blast
  show "lane_vec (lane g (lane f p i s) j s) i s = lane_vec (lane f (lane g p j s) i s) i s"
    using s i by (simp add: vi lane_vec_lane)
  fix k assume k: "\<forall>t < 4. k \<noteq> i + t * s"
  have fi: "lane f q i s ! k = q ! k" for q using k by (intro nth_lane_other) blast
  have "lane g (lane f p i s) j s ! k = lane g p j s ! k"
  proof (cases "\<exists>u < 4. k = j + u * s")
    case True
    then obtain u where u: "u < 4" "k = j + u * s" by blast
    have "lane_vec (lane g (lane f p i s) j s) j s = lane_vec (lane g p j s) j s"
      using s j lane_vec_other [OF s i(1) j(1) ne, of f p] by (simp add: lane_vec_lane)
    moreover have "u = 0 \<or> u = 1 \<or> u = 2 \<or> u = 3" using u by auto
    ultimately show ?thesis using u by (auto simp: lane_vec_def)
  next
    case False
    then show ?thesis using fi [of p] by (simp add: nth_lane_other)
  qed
  then show "lane g (lane f p i s) j s ! k = lane f (lane g p j s) i s ! k" by (simp add: fi)
qed simp

text \<open>
  A lifting step and its inverse. Whoever provides such a pair gets, for every axis, that sweeping
  forward over all lanes and then inversely over all lanes, in the same order, restores the block.
\<close>

locale invertible_lift =
  fixes fwd :: "'a vec4 \<Rightarrow> 'a vec4" and bwd :: "'a vec4 \<Rightarrow> 'a vec4"
  assumes bwd_fwd: "bwd (fwd v) = v"
begin

lemma bwd_lane_fwd_sweep:
  assumes "axis_ok (i # offs) s (length p)"
  shows "lane bwd (sweep (lane fwd) offs s p) i s = sweep (lane fwd) offs s (lane bwd p i s)"
  using assms
proof (induction offs arbitrary: p)
  case (Cons j offs)
  have ok: "axis_ok (i # offs) s (length (lane fwd p j s))" using Cons.prems by (auto simp: axis_ok_def)
  have c: "lane bwd (lane fwd p j s) i s = lane fwd (lane bwd p i s) j s"
    using Cons.prems by (intro lane_commute) (auto simp: axis_ok_def)
  have e: "sweep (lane fwd) (j # offs) s q = sweep (lane fwd) offs s (lane fwd q j s)" for q
    by (simp add: sweep_def)
  show ?case unfolding e Cons.IH [OF ok] c ..
qed (simp add: sweep_def)

lemma sweep_inverse:
  assumes "axis_ok offs s (length p)"
  shows "sweep (lane bwd) offs s (sweep (lane fwd) offs s p) = p"
  using assms
proof (induction offs arbitrary: p)
  case (Cons i offs)
  have "lane bwd (lane fwd p i s) i s = p"
    using Cons.prems by (simp add: axis_ok_def lane_lane comp_def bwd_fwd lane_id)
  moreover have "lane bwd (sweep (lane fwd) offs s (lane fwd p i s)) i s =
      sweep (lane fwd) offs s (lane bwd (lane fwd p i s) i s)"
    using Cons.prems by (intro bwd_lane_fwd_sweep) simp
  moreover have "axis_ok offs s (length p)" using Cons.prems by (simp add: axis_ok_def)
  ultimately show ?case using Cons.IH by (simp add: sweep_def)
qed (simp add: sweep_def)

end

lemma rev_lift4_inverse: "rev_inv_lift4 (rev_fwd_lift4 v) = v"
  by (cases v) (simp add: rev_inv_lift4_def rev_fwd_lift4_def Let_def)

interpretation rev_lift: invertible_lift
  "rev_fwd_lift4 :: ('i::len) word vec4 \<Rightarrow> 'i word vec4" rev_inv_lift4
  by unfold_locales (rule rev_lift4_inverse)

lemma axis_ok_lanes:
  "axis_ok lanes_x_2 1 16" "axis_ok lanes_y_2 4 16"
  "axis_ok lanes_x_3 1 64" "axis_ok lanes_y_3 4 64" "axis_ok lanes_z_3 16 64"
  "axis_ok lanes_x_4 1 256" "axis_ok lanes_y_4 4 256" "axis_ok lanes_z_4 16 256"
  "axis_ok lanes_w_4 64 256"
  by (simp_all add: axis_ok_def lanes_x_2_def lanes_y_2_def lanes_x_3_def lanes_y_3_def
      lanes_z_3_def lanes_x_4_def lanes_y_4_def lanes_z_4_def lanes_w_4_def upt_rec)

section \<open>The lossy transform as integer arithmetic\<close>

definition fwd_lift_int :: "int vec4 \<Rightarrow> int vec4" where
  "fwd_lift_int = (\<lambda>(x, y, z, w).
    let x = (x + w) div 2; w = w - x;
        z = (z + y) div 2; y = y - z;
        x = (x + z) div 2; z = z - x;
        w = (w + y) div 2; y = y - w;
        w = w + y div 2; y = y - w div 2
    in (x, y, z, w))"

definition inv_lift_int :: "int vec4 \<Rightarrow> int vec4" where
  "inv_lift_int = (\<lambda>(x, y, z, w).
    let y = y + w div 2; w = w - y div 2;
        y = y + w; w = 2 * w - y;
        z = z + x; x = 2 * x - z;
        y = y + z; z = 2 * z - y;
        w = w + x; x = 2 * x - w
    in (x, y, z, w))"

definition bounded4 :: "int \<Rightarrow> int vec4 \<Rightarrow> bool" where
  "bounded4 M = (\<lambda>(x, y, z, w). \<bar>x\<bar> \<le> M \<and> \<bar>y\<bar> \<le> M \<and> \<bar>z\<bar> \<le> M \<and> \<bar>w\<bar> \<le> M)"

definition sint4 :: "('i::len) word vec4 \<Rightarrow> int vec4" where
  "sint4 = (\<lambda>(x, y, z, w). (sint x, sint y, sint z, sint w))"

lemma sint_shift: "sint (signed_drop_bit 1 x) = sint x div 2" for x :: "'i::len word"
  by (simp add: sint_signed_drop_bit_eq drop_bit_eq_div)

lemmas sint_shift_Suc = sint_shift [unfolded One_nat_def]

lemma sint_fit:
  "\<bar>k\<bar> < 2 ^ (LENGTH('i) - 1) \<Longrightarrow> sint (word_of_int k :: 'i::len word) = k"
  by (auto simp: sint_sbintrunc' intro!: signed_take_bit_int_eq_self)

lemma sint_add_fit:
  "\<bar>sint a + sint b\<bar> < 2 ^ (LENGTH('i) - 1) \<Longrightarrow> sint (a + b) = sint a + sint b" for a b :: "'i::len word"
  using sint_fit [of "sint a + sint b", where 'i = 'i] by simp

lemma sint_diff_fit:
  "\<bar>sint a - sint b\<bar> < 2 ^ (LENGTH('i) - 1) \<Longrightarrow> sint (a - b) = sint a - sint b" for a b :: "'i::len word"
  using sint_fit [of "sint a - sint b", where 'i = 'i] by simp

lemma half_bounds: "2 * (a div 2) \<le> (a::int)" "a \<le> 2 * (a div 2) + 1"
  by linarith+


text \<open>One averaging step keeps the bound on both results.\<close>

lemma average_step:
  assumes "\<bar>a\<bar> \<le> (M::int)" "\<bar>b\<bar> \<le> M"
  shows "\<bar>(a + b) div 2\<bar> \<le> M" "\<bar>b - (a + b) div 2\<bar> \<le> M"
  using assms half_bounds [of "a + b"] by linarith+

lemma final_step:
  assumes "\<bar>y\<bar> \<le> (M::int)" "\<bar>w\<bar> \<le> M" "2 \<le> M"
    and "w2 = (w + y) div 2" "y2 = y - w2" "w3 = w2 + y2 div 2"
  shows "\<bar>w3\<bar> \<le> M" "\<bar>y2 - w3 div 2\<bar> \<le> M"
  using assms half_bounds [of "w + y"] half_bounds [of y2] half_bounds [of w3] by linarith+

lemma fwd_lift_int_bounded:
  assumes "2 \<le> M" "bounded4 M v"
  shows "bounded4 M (fwd_lift_int v)"
proof -
  obtain x y z w where v: "v = (x, y, z, w)" by (cases v)
  define x1 w1 z1 y1 where "x1 = (x + w) div 2" "w1 = w - x1" "z1 = (z + y) div 2" "y1 = y - z1"
  define w2 y2 w3 where "w2 = (w1 + y1) div 2" "y2 = y1 - w2" "w3 = w2 + y2 div 2"
  note d = x1_w1_z1_y1_def w2_y2_w3_def
  have b: "\<bar>x\<bar> \<le> M" "\<bar>y\<bar> \<le> M" "\<bar>z\<bar> \<le> M" "\<bar>w\<bar> \<le> M" using assms(2) by (simp_all add: v bounded4_def)
  have b1: "\<bar>x1\<bar> \<le> M" "\<bar>w1\<bar> \<le> M" "\<bar>z1\<bar> \<le> M" "\<bar>y1\<bar> \<le> M"
    using average_step [OF b(1,4)] average_step [OF b(3,2)] by (simp_all add: d)
  have "\<bar>w3\<bar> \<le> M" "\<bar>y2 - w3 div 2\<bar> \<le> M"
    using final_step [OF b1(4,2) assms(1) w2_y2_w3_def] by simp_all
  moreover have "\<bar>(x1 + z1) div 2\<bar> \<le> M" "\<bar>z1 - (x1 + z1) div 2\<bar> \<le> M" using average_step [OF b1(1,3)] .
  moreover have "fwd_lift_int v = ((x1 + z1) div 2, y2 - w3 div 2, z1 - (x1 + z1) div 2, w3)"
    by (simp add: v fwd_lift_int_def Let_def d)
  ultimately show ?thesis by (simp only: bounded4_def prod.case conj_absorb simp_thms)
qed

lemma inv_fwd_lift_int:
  assumes "inv_lift_int (fwd_lift_int (x, y, z, w)) = (x', y', z', w')"
  shows "x' - x \<in> {-2..1}" "y' - y \<in> {0}" "z' - z \<in> {-1..0}" "w' - w \<in> {-2..0}"
proof -
  define x1 w1 z1 y1 where "x1 = (x + w) div 2" "w1 = w - x1" "z1 = (z + y) div 2" "y1 = y - z1"
  define x2 z2 where "x2 = (x1 + z1) div 2" "z2 = z1 - x2"
  define w2 y2 w3 y3 where "w2 = (w1 + y1) div 2" "y2 = y1 - w2" "w3 = w2 + y2 div 2" "y3 = y2 - w3 div 2"
  note d = x1_w1_z1_y1_def x2_z2_def w2_y2_w3_y3_def
  have f: "fwd_lift_int (x, y, z, w) = (x2, y3, z2, w3)" by (simp add: fwd_lift_int_def Let_def d)
  have "y3 + w3 div 2 = y2" "w3 - y2 div 2 = w2" by (simp_all add: d)
  then have i: "inv_lift_int (x2, y3, z2, w3) =
    (let yy = y2 + w2; ww = 2 * w2 - yy; zz = z2 + x2; xx = 2 * x2 - zz; yq = yy + zz; zq = 2 * zz - yq;
      wq = ww + xx; xq = 2 * xx - wq in (xq, yq, zq, wq))"
    by (simp add: inv_lift_int_def Let_def)
  have e: "x' = 2 * (2 * x2 - z1) - (2 * w2 - y1 + (2 * x2 - z1))" "y' = y1 + z1" "z' = 2 * z1 - (y1 + z1)" 
      "w' = 2 * w2 - y1 + (2 * x2 - z1)"
    using assms unfolding f i by (auto simp: Let_def d)
  have h: "2 * x1 \<le> x + w" "x + w \<le> 2 * x1 + 1" "2 * z1 \<le> z + y" "z + y \<le> 2 * z1 + 1"
    "2 * x2 \<le> x1 + z1" "x1 + z1 \<le> 2 * x2 + 1" "2 * w2 \<le> w1 + y1" "w1 + y1 \<le> 2 * w2 + 1"
    by (simp_all add: d)
  have l: "w1 = w - x1" "y1 = y - z1" by (simp_all add: d)
  show "x' - x \<in> {-2..1}" "y' - y \<in> {0}" "z' - z \<in> {-1..0}" "w' - w \<in> {-2..0}"
    using h l by (simp_all add: e; linarith)+
qed

lemma lane_vec_sweep_other:
  assumes "0 < s" "\<forall>i \<in> set offs. i div s mod 4 = 0" "j div s mod 4 = 0" "j \<notin> set offs"
  shows "lane_vec (sweep (lane f) offs s p) j s = lane_vec p j s"
  using assms
proof (induction offs arbitrary: p)
  case (Cons i offs)
  have "lane_vec (sweep (lane f) (i # offs) s p) j s = lane_vec (lane f p i s) j s"
    using Cons by (simp add: sweep_def)
  also have "\<dots> = lane_vec p j s" using Cons.prems by (intro lane_vec_other) auto
  finally show ?case .
qed (simp add: sweep_def)

lemma lane_vec_sweep:
  assumes "axis_ok offs s (length p)" "j \<in> set offs"
  shows "lane_vec (sweep (lane f) offs s p) j s = f (lane_vec p j s)"
  using assms
proof (induction offs arbitrary: p)
  case (Cons i offs)
  have ok: "axis_ok offs s (length (lane f p i s))" using Cons.prems by (simp add: axis_ok_def)
  have e: "sweep (lane f) (i # offs) s p = sweep (lane f) offs s (lane f p i s)" by (simp add: sweep_def)
  show ?case
  proof (cases "j = i")
    case True
    have "lane_vec (sweep (lane f) offs s (lane f p i s)) j s = lane_vec (lane f p i s) j s"
      using Cons.prems True by (intro lane_vec_sweep_other) (auto simp: axis_ok_def)
    then show ?thesis using Cons.prems True e by (simp add: lane_vec_lane axis_ok_def)
  next
    case False
    then have "lane_vec (sweep (lane f) offs s (lane f p i s)) j s = f (lane_vec (lane f p i s) j s)"
      using Cons.prems ok by (intro Cons.IH) auto
    moreover have "lane_vec (lane f p i s) j s = lane_vec p j s"
      using Cons.prems False by (intro lane_vec_other) (auto simp: axis_ok_def)
    ultimately show ?thesis using e by simp
  qed
qed simp

text \<open>Outside the lanes a sweep changes nothing.\<close>

lemma nth_sweep_other:
  assumes "\<forall>i \<in> set offs. \<forall>t < 4. k \<noteq> i + t * s"
  shows "sweep (lane f) offs s p ! k = p ! k"
  using assms
proof (induction offs arbitrary: p)
  case (Cons i offs)
  have "sweep (lane f) (i # offs) s p ! k = lane f p i s ! k"
    using Cons by (simp add: sweep_def)
  also have "\<dots> = p ! k" using Cons.prems by (intro nth_lane_other) auto
  finally show ?case .
qed (simp add: sweep_def)

text \<open>Element-wise relations on the four values of a lane.\<close>

definition rel4 :: "('a \<Rightarrow> 'b \<Rightarrow> bool) \<Rightarrow> 'a vec4 \<Rightarrow> 'b vec4 \<Rightarrow> bool" where
  "rel4 R = (\<lambda>(x, y, z, w) (x', y', z', w'). R x x' \<and> R y y' \<and> R z z' \<and> R w w')"

lemma rel4_lane_vec:
  assumes "rel4 R (lane_vec p i s) (lane_vec q i s)" "t < 4"
  shows "R (p ! (i + t * s)) (q ! (i + t * s))"
proof -
  have "t = 0 \<or> t = 1 \<or> t = 2 \<or> t = 3" using assms(2) by auto
  then show ?thesis using assms(1) by (auto simp: rel4_def lane_vec_def)
qed

lemma lane_vec_rel4:
  assumes "list_all2 R p q" "i + 3 * s < length p"
  shows "rel4 R (lane_vec p i s) (lane_vec q i s)"
  using assms by (auto simp: rel4_def lane_vec_def list_all2_conv_all_nth)

lemma sweep_relI:
  assumes ok: "axis_ok offs s (length p)" and l: "length q = length p"
    and lanes: "\<And>i. i \<in> set offs \<Longrightarrow> rel4 R (f (lane_vec p i s)) (lane_vec q i s)"
    and other: "\<And>k. k < length p \<Longrightarrow> \<forall>i \<in> set offs. \<forall>t < 4. k \<noteq> i + t * s \<Longrightarrow> R (p ! k) (q ! k)"
  shows "list_all2 R (sweep (lane f) offs s p) q"
proof (rule list_all2_all_nthI)
  fix k assume k: "k < length (sweep (lane f) offs s p)"
  show "R (sweep (lane f) offs s p ! k) (q ! k)"
  proof (cases "\<exists>i \<in> set offs. \<exists>t < 4. k = i + t * s")
    case True
    then obtain i t where "i \<in> set offs" "t < 4" "k = i + t * s" by blast
    moreover from this have "rel4 R (lane_vec (sweep (lane f) offs s p) i s) (lane_vec q i s)"
      using lanes lane_vec_sweep [OF ok] by simp
    ultimately show ?thesis using rel4_lane_vec by blast
  next
    case False
    then show ?thesis using other [of k] k nth_sweep_other [of offs k s f p] by auto
  qed
qed (simp add: l)

section \<open>Words that stay in range\<close>

definition in_range :: "('i::len) word \<Rightarrow> bool" where
  "in_range a \<longleftrightarrow> \<bar>sint a\<bar> < 2 ^ (LENGTH('i) - 2)"

definition close_to :: "int \<Rightarrow> ('i::len) word \<Rightarrow> 'i word \<Rightarrow> bool" where
  "close_to E a b \<longleftrightarrow> \<bar>sint a - sint b\<bar> \<le> E"

lemma two_power_split: "2 \<le> n \<Longrightarrow> (2::int) ^ (n - 1) = 2 * 2 ^ (n - 2)"
  using power_Suc [of "2::int" "n - 2"] by (simp add: numeral_2_eq_2 Suc_diff_Suc)

lemma sint4_fwd:
  fixes v :: "('i::len) word vec4"
  assumes n: "4 \<le> LENGTH('i)" and b: "bounded4 (2 ^ (LENGTH('i) - 2) - 1) (sint4 v)"
  shows "sint4 (fwd_lift4 v) = fwd_lift_int (sint4 v)"
proof -
  obtain x y z w where v: "v = (x, y, z, w)" by (cases v)
  define M :: int where "M = 2 ^ (LENGTH('i) - 2) - 1"
  have M: "2 * M < 2 ^ (LENGTH('i) - 1)" "2 \<le> M"
  proof -
    show "2 * M < 2 ^ (LENGTH('i) - 1)" using n two_power_split [of "LENGTH('i)"] by (simp add: M_def)
    have "(2::int) ^ 2 \<le> 2 ^ (LENGTH('i) - 2)" using n by (intro power_increasing) auto
    then show "2 \<le> M" by (simp add: M_def)
  qed
  have add: "sint (a + b) = sint a + sint b" and sub: "sint (a - b) = sint a - sint b"
    if "\<bar>sint a\<bar> \<le> M" "\<bar>sint b\<bar> \<le> M" for a b :: "'i word"
    using that M sint_add_fit [of a b] sint_diff_fit [of a b] by auto
  have bv: "\<bar>sint x\<bar> \<le> M" "\<bar>sint y\<bar> \<le> M" "\<bar>sint z\<bar> \<le> M" "\<bar>sint w\<bar> \<le> M"
    using b by (simp_all add: v sint4_def bounded4_def M_def)
  define x1 w1 where "x1 = signed_drop_bit 1 (x + w)" and "w1 = w - x1"
  define z1 y1 where "z1 = signed_drop_bit 1 (z + y)" and "y1 = y - z1"
  have 1: "sint x1 = (sint x + sint w) div 2" "sint z1 = (sint z + sint y) div 2"
    using bv by (simp_all add: x1_def z1_def sint_shift_Suc add)
  have 2: "\<bar>sint x1\<bar> \<le> M" "\<bar>sint z1\<bar> \<le> M" "\<bar>sint w - sint x1\<bar> \<le> M" "\<bar>sint y - sint z1\<bar> \<le> M"
    unfolding 1 by (rule average_step [OF bv(1,4)] average_step [OF bv(3,2)])+
  have 3: "sint w1 = sint w - sint x1" "sint y1 = sint y - sint z1"
    unfolding w1_def y1_def using sub bv 2 by blast+
  define x2 z2 where "x2 = signed_drop_bit 1 (x1 + z1)" and "z2 = z1 - x2"
  define w2 y2 where "w2 = signed_drop_bit 1 (w1 + y1)" and "y2 = y1 - w2"
  have 4: "\<bar>sint w1\<bar> \<le> M" "\<bar>sint y1\<bar> \<le> M" using 2 3 by simp_all
  have 5: "sint x2 = (sint x1 + sint z1) div 2" "sint w2 = (sint w1 + sint y1) div 2"
    using 2 4 by (simp_all add: x2_def w2_def sint_shift_Suc add)
  have 6: "\<bar>sint x2\<bar> \<le> M" "\<bar>sint w2\<bar> \<le> M" "\<bar>sint y1 - sint w2\<bar> \<le> M"
    unfolding 5 by (rule average_step [OF 2(1,2)] average_step [OF 4])+
  have 7: "sint z2 = sint z1 - sint x2" "sint y2 = sint y1 - sint w2"
    unfolding z2_def y2_def using sub 2 4 6 by blast+
  define w3 where "w3 = w2 + signed_drop_bit 1 y2"
  have h: "\<bar>sint (signed_drop_bit 1 a)\<bar> \<le> M" if "\<bar>sint a\<bar> \<le> M" for a :: "'i word"
    using that half_bounds [of "sint a"] by (simp add: sint_shift_Suc)
  have 8: "sint w3 = sint w2 + sint y2 div 2"
    using add [OF 6(2) h [of y2]] 6 7 by (simp add: w3_def sint_shift_Suc)
  have 9: "\<bar>sint w3\<bar> \<le> M" using final_step(1) [OF 4(2,1) M(2) 5(2) 7(2) 8] .
  have "sint (y2 - signed_drop_bit 1 w3) = sint y2 - sint w3 div 2"
    using sub [OF _ h [OF 9], of y2] 6 7 by (simp add: sint_shift_Suc)
  moreover have "fwd_lift4 v = (x2, y2 - signed_drop_bit 1 w3, z2, w3)"
    by (simp add: v fwd_lift4_def Let_def x1_def w1_def z1_def y1_def x2_def z2_def w2_def y2_def w3_def)
  ultimately show ?thesis
    by (simp only: v sint4_def fwd_lift_int_def Let_def prod.case 8 7 5 3 1)
qed

lemma inv_lift_int_eq:
  "inv_lift_int (x, y, z, w) =
    (let y = y + w div 2; w = w - y div 2 in (x - z - w + y, y + w + z + x, z + x - y - w, w - y + x - z))"
  by (simp add: inv_lift_int_def Let_def)

lemma inv_lift4_eq:
  "inv_lift4 (x, y, z, w) =
    (let y = y + signed_drop_bit 1 w; w = w - signed_drop_bit 1 y
     in (x - z - w + y, y + w + z + x, z + x - y - w, w - y + x - z))"
  by (simp add: inv_lift4_def Let_def algebra_simps)

lemma inv_start:
  assumes "y1 = y + w div 2" "w1 = w - y1 div 2"
  shows "2 * y1 \<le> 2 * y + w" "2 * y + w \<le> 2 * y1 + (1::int)" "2 * w1 \<le> 2 * w - y1 + 1" "2 * w - y1 \<le> 2 * w1"
  using assms by linarith+

lemma sint4_inv:
  fixes v :: "('i::len) word vec4"
  assumes n: "4 \<le> LENGTH('i)" and b: "bounded4 M (sint4 v)" "3 * M + 2 < 2 * 2 ^ (LENGTH('i) - 1)"
    and r: "bounded4 (2 ^ (LENGTH('i) - 1) - 1) (inv_lift_int (sint4 v))"
  shows "sint4 (inv_lift4 v) = inv_lift_int (sint4 v)"
proof -
  obtain x y z w where v: "v = (x, y, z, w)" by (cases v)
  define y1 where "y1 = y + signed_drop_bit 1 w"
  define w1 where "w1 = w - signed_drop_bit 1 y1"
  have bv: "\<bar>sint y\<bar> \<le> M" "\<bar>sint w\<bar> \<le> M" using b by (simp_all add: v sint4_def bounded4_def)
  have 1: "sint y1 = sint y + sint w div 2"
    using b(2) bv half_bounds [of "sint w"] sint_add_fit [of y "signed_drop_bit 1 w"]
    by (simp add: y1_def sint_shift_Suc)
  have 2: "sint w1 = sint w - sint y1 div 2"
  proof -
    have "\<bar>sint w - sint y1 div 2\<bar> < 2 ^ (LENGTH('i) - 1)"
      using b(2) bv inv_start [OF 1 refl] by linarith
    then show ?thesis using sint_diff_fit [of w "signed_drop_bit 1 y1"] by (simp only: w1_def sint_shift)
  qed
  define ix iy iz iw where "ix = sint x - sint z - sint w1 + sint y1" and "iy = sint y1 + sint w1 + sint z + sint x"
    and "iz = sint z + sint x - sint y1 - sint w1" and "iw = sint w1 - sint y1 + sint x - sint z"
  note d = ix_def iy_def iz_def iw_def
  have i: "inv_lift_int (sint4 v) = (ix, iy, iz, iw)"
    by (simp only: v sint4_def inv_lift_int_eq Let_def prod.case d 1 2)
  have "inv_lift4 v = (word_of_int ix, word_of_int iy, word_of_int iz, word_of_int iw)"
    by (simp add: v inv_lift4_eq Let_def d y1_def [symmetric] w1_def [symmetric] del: One_nat_def)
  moreover have "\<bar>ix\<bar> < 2 ^ (LENGTH('i) - 1)" "\<bar>iy\<bar> < 2 ^ (LENGTH('i) - 1)"
      "\<bar>iz\<bar> < 2 ^ (LENGTH('i) - 1)" "\<bar>iw\<bar> < 2 ^ (LENGTH('i) - 1)"
    using r by (simp_all add: i bounded4_def)
  ultimately show ?thesis unfolding i by (simp add: sint4_def sint_fit)
qed

text \<open>The rows of the inverse transform matrix have absolute sum 15/4, the roundings add 5/4.\<close>

lemma inv_rows:
  assumes "\<bar>x\<bar> \<le> E" "\<bar>y\<bar> \<le> E" "\<bar>z\<bar> \<le> E" "\<bar>w\<bar> \<le> (E::int)"
    and "2 * y1 \<le> 2 * y + w + 1" "2 * y + w \<le> 2 * y1 + 1" "2 * w1 \<le> 2 * w - y1 + 1" "2 * w - y1 \<le> 2 * w1 + 1"
    and t: "t = x - z - w1 + y1 \<or> t = y1 + w1 + z + x \<or> t = z + x - y1 - w1 \<or> t = w1 - y1 + x - z"
  shows "4 * \<bar>t\<bar> \<le> 15 * E + 5"
proof -
  have "4 * t \<le> 15 * E + 5 \<and> - (4 * t) \<le> 15 * E + 5"
    using t assms(1-8) by (elim disjE; linarith)
  then show ?thesis by linarith
qed

lemma inv_lift_int_close:
  assumes "rel4 (\<lambda>a b. \<bar>a - b\<bar> \<le> (E::int)) v u"
  shows "rel4 (\<lambda>a b. 4 * \<bar>a - b\<bar> \<le> 15 * E + 5) (inv_lift_int v) (inv_lift_int u)"
proof -
  obtain x y z w where v: "v = (x, y, z, w)" by (cases v)
  obtain x' y' z' w' where u: "u = (x', y', z', w')" by (cases u)
  define y1 w1 y1' w1' where "y1 = y + w div 2" and "w1 = w - y1 div 2"
    and "y1' = y' + w' div 2" and "w1' = w' - y1' div 2"
  have c: "\<bar>x - x'\<bar> \<le> E" "\<bar>y - y'\<bar> \<le> E" "\<bar>z - z'\<bar> \<le> E" "\<bar>w - w'\<bar> \<le> E"
    using assms by (simp_all add: v u rel4_def)
  have h: "2 * (y1 - y1') \<le> 2 * (y - y') + (w - w') + 1" "2 * (y - y') + (w - w') \<le> 2 * (y1 - y1') + 1"
    "2 * (w1 - w1') \<le> 2 * (w - w') - (y1 - y1') + 1" "2 * (w - w') - (y1 - y1') \<le> 2 * (w1 - w1') + 1"
    using inv_start [OF y1_def w1_def] inv_start [OF y1'_def w1'_def] by simp_all
  have "inv_lift_int v = (x - z - w1 + y1, y1 + w1 + z + x, z + x - y1 - w1, w1 - y1 + x - z)"
    "inv_lift_int u = (x' - z' - w1' + y1', y1' + w1' + z' + x', z' + x' - y1' - w1', w1' - y1' + x' - z')"
    by (simp_all only: v u inv_lift_int_eq Let_def y1_def w1_def y1'_def w1'_def)
  then show ?thesis unfolding rel4_def
    by (simp only: prod.case) (intro conjI inv_rows [OF c h]; simp)
qed

section \<open>Lossy round trip of one lane\<close>

text \<open>Error of the inverse when its input is off by \<open>E\<close> from a forward transform.\<close>

definition lift_error :: "int \<Rightarrow> int" where
  "lift_error E = (if E = 0 then 2 else (15 * E + 5) div 4 + 2)"

lemma rel4_iff:
  "rel4 R (x, y, z, w) (x', y', z', w') \<longleftrightarrow> R x x' \<and> R y y' \<and> R z z' \<and> R w w'"
  by (simp add: rel4_def)

lemma inv_lift_int_error:
  assumes "rel4 (\<lambda>a b. \<bar>a - b\<bar> \<le> E) v (fwd_lift_int u)" "0 \<le> E"
  shows "rel4 (\<lambda>a b. \<bar>a - b\<bar> \<le> lift_error E) (inv_lift_int v) u"
proof -
  obtain x y z w where u: "u = (x, y, z, w)" by (cases u)
  obtain x' y' z' w' where i: "inv_lift_int (fwd_lift_int u) = (x', y', z', w')" 
    by (cases "inv_lift_int (fwd_lift_int u)")
  obtain a b c d where v: "inv_lift_int v = (a, b, c, d)" by (cases "inv_lift_int v")
  have e: "\<bar>x' - x\<bar> \<le> 2" "\<bar>y' - y\<bar> \<le> 2" "\<bar>z' - z\<bar> \<le> 2" "\<bar>w' - w\<bar> \<le> 2"
    using inv_fwd_lift_int [OF i [unfolded u]] by auto
  show ?thesis
  proof (cases "E = 0")
    case True
    then have "v = fwd_lift_int u" using assms by (cases v; cases "fwd_lift_int u") (simp add: rel4_iff)
    then show ?thesis using e i v True by (simp add: u rel4_iff lift_error_def)
  next
    case False
    have f: "4 * \<bar>a - x'\<bar> \<le> 15 * E + 5" "4 * \<bar>b - y'\<bar> \<le> 15 * E + 5" "4 * \<bar>c - z'\<bar> \<le> 15 * E + 5" "4 * \<bar>d - w'\<bar> \<le> 15 * E + 5"
      using inv_lift_int_close [OF assms(1)] unfolding i v by (simp_all add: rel4_iff)
    have k: "\<bar>p - r\<bar> \<le> (15 * E + 5) div 4 + 2" if "4 * \<bar>p - q\<bar> \<le> 15 * E + 5" "\<bar>q - r\<bar> \<le> 2" for p q r
    proof -
      have "\<bar>p - q\<bar> \<le> (15 * E + 5) div 4"
        using zdiv_mono1 [OF that(1), of 4] by simp
      then show ?thesis using that(2) by linarith
    qed
    show ?thesis using k [OF f(1) e(1)] k [OF f(2) e(2)] k [OF f(3) e(3)] k [OF f(4) e(4)] False
      unfolding u v rel4_iff lift_error_def by simp
  qed
qed

lemma bounded4_iff: "bounded4 M (x, y, z, w) \<longleftrightarrow> \<bar>x\<bar> \<le> M \<and> \<bar>y\<bar> \<le> M \<and> \<bar>z\<bar> \<le> M \<and> \<bar>w\<bar> \<le> M"
  by (simp add: bounded4_def)

lemma close4_iff: "rel4 (close_to E) v u \<longleftrightarrow> rel4 (\<lambda>a b. \<bar>a - b\<bar> \<le> E) (sint4 v) (sint4 u)"
  by (cases v; cases u) (simp add: rel4_iff close_to_def sint4_def)

lemma bounded4_close:
  assumes "bounded4 M u" "rel4 (\<lambda>a b. \<bar>a - b\<bar> \<le> E) v u"
  shows "bounded4 (M + E) v"
proof -
  obtain x y z w where u: "u = (x, y, z, w)" by (cases u)
  obtain a b c d where v: "v = (a, b, c, d)" by (cases v)
  have "\<bar>p\<bar> \<le> M + E" if "\<bar>q\<bar> \<le> M" "\<bar>p - q\<bar> \<le> E" for p q :: int using that by linarith
  then show ?thesis using assms unfolding u v bounded4_iff rel4_iff by blast
qed

lemma bounded4_mono: "bounded4 M v \<Longrightarrow> M \<le> N \<Longrightarrow> bounded4 N v"
  by (cases v) (auto simp: bounded4_iff)

lemma inv_lift4_both:
  fixes u v :: "('i::len) word vec4"
  assumes n: "16 \<le> LENGTH('i)" and u: "bounded4 (2 ^ (LENGTH('i) - 2) - 1) (sint4 u)"
    and v: "rel4 (close_to E) v (fwd_lift4 u)" and E: "0 \<le> E" "4 * E + 16 \<le> 2 ^ (LENGTH('i) - 2)"
  shows "rel4 (close_to (lift_error E)) (inv_lift4 v) u \<and> sint4 (inv_lift4 v) = inv_lift_int (sint4 v)"
proof -
  define M :: int where "M = 2 ^ (LENGTH('i) - 2) - 1"
  have M: "4 * E + 15 \<le> M" "2 * M + 2 = 2 ^ (LENGTH('i) - 1)"
    using n E two_power_split [of "LENGTH('i)"] by (simp_all add: M_def)
  have f: "sint4 (fwd_lift4 u) = fwd_lift_int (sint4 u)"
    using n u by (intro sint4_fwd) simp_all
  have r: "rel4 (\<lambda>a b. \<bar>a - b\<bar> \<le> E) (sint4 v) (fwd_lift_int (sint4 u))"
    using v by (simp add: close4_iff f)
  have e: "rel4 (\<lambda>a b. \<bar>a - b\<bar> \<le> lift_error E) (inv_lift_int (sint4 v)) (sint4 u)"
    using inv_lift_int_error [OF r E(1)] .
  have le: "lift_error E \<le> M" using E unfolding lift_error_def M_def by (simp; linarith)
  have bf: "bounded4 M (fwd_lift_int (sint4 u))"
    using u M E by (intro fwd_lift_int_bounded) (simp_all add: M_def)
  have N: "bounded4 (M + E) (sint4 v)" "3 * (M + E) + 2 < 2 * 2 ^ (LENGTH('i) - 1)"
    using bounded4_close [OF bf r] M E by simp_all
  have "bounded4 (2 ^ (LENGTH('i) - 1) - 1) (inv_lift_int (sint4 v))"
    using bounded4_close [OF u [folded M_def] e] by (rule bounded4_mono) (use M le in linarith)
  then have "sint4 (inv_lift4 v) = inv_lift_int (sint4 v)"
    using n by (intro sint4_inv [OF _ N]) simp_all
  then show ?thesis using e by (simp add: close4_iff)
qed

lemmas inv_lift4_error = inv_lift4_both [THEN conjunct1] and inv_lift4_exact = inv_lift4_both [THEN conjunct2]

lemma in_range_lane_vec:
  assumes "\<forall>a \<in> set p. in_range (a :: 'i::len word)" "i + 3 * s < length p"
  shows "bounded4 (2 ^ (LENGTH('i) - 2) - 1) (sint4 (lane_vec p i s))"
  using assms by (auto simp: in_range_def lane_vec_def sint4_def bounded4_iff)

lemma axis_ok_bound: "axis_ok offs s n \<Longrightarrow> i \<in> set offs \<Longrightarrow> i + 3 * s < n"
  by (simp add: axis_ok_def)

lemma fwd_sweep_in_range:
  fixes p :: "('i::len) word list"
  assumes n: "4 \<le> LENGTH('i)" and ok: "axis_ok offs s (length p)" and r: "\<forall>a \<in> set p. in_range a"
  shows "\<forall>a \<in> set (sweep fwd_lift offs s p). in_range a"
proof -
  have "list_all2 (\<lambda>a b. in_range a) (sweep (lane fwd_lift4) offs s p) p"
  proof (rule sweep_relI [OF ok])
    fix i assume "i \<in> set offs"
    then have b: "bounded4 (2 ^ (LENGTH('i) - 2) - 1) (sint4 (lane_vec p i s))"
      using in_range_lane_vec [OF r] axis_ok_bound [OF ok] by blast
    have "(2::int) ^ 2 \<le> 2 ^ (LENGTH('i) - 2)" using n by (intro power_increasing) auto
    then have "bounded4 (2 ^ (LENGTH('i) - 2) - 1) (sint4 (fwd_lift4 (lane_vec p i s)))"
      using b by (simp add: sint4_fwd [OF n b] fwd_lift_int_bounded)
    then show "rel4 (\<lambda>a b. in_range a) (fwd_lift4 (lane_vec p i s)) (lane_vec p i s)"
      by (cases "fwd_lift4 (lane_vec p i s)"; cases "lane_vec p i s")
        (simp add: rel4_iff in_range_def sint4_def bounded4_iff)
  qed (use r in simp_all)
  then show ?thesis by (auto simp: fwd_lift_def list_all2_conv_all_nth in_set_conv_nth)
qed

lemma inv_sweep_error:
  fixes p q :: "('i::len) word list"
  assumes n: "16 \<le> LENGTH('i)" and ok: "axis_ok offs s (length p)" and r: "\<forall>a \<in> set p. in_range a"
    and q: "list_all2 (close_to E) q (sweep fwd_lift offs s p)" and E: "0 \<le> E" "4 * E + 16 \<le> 2 ^ (LENGTH('i) - 2)"
  shows "list_all2 (close_to (lift_error E)) (sweep inv_lift offs s q) p"
proof -
  have l: "length q = length p" using q by (auto dest: list_all2_lengthD simp: fwd_lift_def)
  have "list_all2 (close_to (lift_error E)) (sweep (lane inv_lift4) offs s q) p"
  proof (rule sweep_relI)
    fix i assume i: "i \<in> set offs"
    have "rel4 (close_to E) (lane_vec q i s) (lane_vec (sweep (lane fwd_lift4) offs s p) i s)"
      using q [unfolded fwd_lift_def] axis_ok_bound [OF ok i] l by (intro lane_vec_rel4) simp_all
    then show "rel4 (close_to (lift_error E)) (inv_lift4 (lane_vec q i s)) (lane_vec p i s)"
      using lane_vec_sweep [OF ok i] in_range_lane_vec [OF r axis_ok_bound [OF ok i]] E
      by (intro inv_lift4_error [OF n]) simp_all
  next
    fix k assume k: "k < length q" "\<forall>i \<in> set offs. \<forall>t < 4. k \<noteq> i + t * s"
    then have "close_to E (q ! k) (p ! k)"
      using q nth_sweep_other [OF k(2), of fwd_lift4 p] by (auto simp: fwd_lift_def list_all2_conv_all_nth)
    moreover have "E \<le> lift_error E" using E unfolding lift_error_def by (simp; linarith)
    ultimately show "close_to (lift_error E) (q ! k) (p ! k)" by (simp add: close_to_def)
  qed (use ok l in simp_all)
  then show ?thesis by (simp add: inv_lift_def)
qed

lemma close_to_refl: "list_all2 (close_to 0) p p"
  by (simp add: list_all2_conv_all_nth close_to_def)

section \<open>Round trips of whole blocks\<close>

lemma dims_cases: "1 \<le> d \<Longrightarrow> d \<le> 4 \<Longrightarrow> d = 1 \<or> d = 2 \<or> d = 3 \<or> d = (4::nat)"
  by auto

lemma axis_ok_1: "axis_ok [0] 1 4"
  by (simp add: axis_ok_def)

lemma lift_as_sweep: "lift p i s = sweep lift [i] s p"
  by (simp add: sweep_def)

lemmas xform_defs = fwd_xform_def inv_xform_def fwd_xform_1_def fwd_xform_2_def fwd_xform_3_def
  fwd_xform_4_def inv_xform_1_def inv_xform_2_def inv_xform_3_def inv_xform_4_def

lemmas rev_xform_defs = rev_fwd_xform_def rev_inv_xform_def rev_fwd_xform_1_def rev_fwd_xform_2_def
  rev_fwd_xform_3_def rev_fwd_xform_4_def rev_inv_xform_1_def rev_inv_xform_2_def
  rev_inv_xform_3_def rev_inv_xform_4_def

lemmas lift_defs = fwd_lift_def inv_lift_def rev_fwd_lift_def rev_inv_lift_def

lemma length_xform [simp]:
  "length (fwd_xform d p) = length p" "length (inv_xform d p) = length p"
  "length (rev_fwd_xform d p) = length p" "length (rev_inv_xform d p) = length p"
  by (simp_all add: xform_defs rev_xform_defs lift_defs Let_def)

lemma rev_xform_restore:
  fixes p :: "('i::len) word list"
  assumes "1 \<le> d" "d \<le> 4" "length p = 4 ^ d"
  shows "rev_inv_xform d (rev_fwd_xform d p) = p"
proof -
  have s: "sweep rev_inv_lift offs s (sweep rev_fwd_lift offs s q) = q"
    if "axis_ok offs s (length q)" for offs s and q :: "'i word list"
    using rev_lift.sweep_inverse [OF that] by (simp add: lift_defs)
  have l: "length (sweep rev_fwd_lift offs s q) = length q" for offs s and q :: "'i word list"
    by (simp add: lift_defs)
  consider "d = 1" | "d = 2" | "d = 3" | "d = 4" using assms(1,2) dims_cases by blast
  then show ?thesis
  proof cases
    case 1
    then have "sweep rev_inv_lift [0] 1 (sweep rev_fwd_lift [0] 1 p) = p"
      using assms(3) by (intro s) (simp add: axis_ok_1 [unfolded One_nat_def])
    then show ?thesis using 1 by (simp add: rev_xform_defs sweep_def)
  qed (use assms(3) in \<open>simp_all add: rev_xform_defs Let_def s l axis_ok_lanes [unfolded One_nat_def]\<close>)
qed

text \<open>C30: the reversible block transform is undone exactly by its inverse, for every block of every
  dimensionality and every integer width: no bit is lost, whatever the values (wrap-around included).\<close>

theorem rev_xform_inverse:
  fixes p :: "('i::len) word list"
  assumes "1 \<le> d" "d \<le> 4" "length p = 4 ^ d"
  shows "rev_inv_xform d (rev_fwd_xform d p) = p"
  by (rule rev_xform_restore [OF assms])

theorem rev_xform_inverse_witness:
  "rev_inv_xform 2 (rev_fwd_xform 2 (map word_of_nat [0..<16] :: 32 word list)) = map word_of_nat [0..<16]"
  by (rule rev_xform_inverse) simp_all

lemma fwd_xform_in_range:
  fixes p :: "('i::len) word list"
  assumes "4 \<le> LENGTH('i)" "1 \<le> d" "d \<le> 4" "length p = 4 ^ d" "\<forall>a \<in> set p. in_range a"
  shows "\<forall>a \<in> set (fwd_xform d p). in_range a"
proof -
  define ok where "ok n q \<longleftrightarrow> length q = n \<and> (\<forall>a \<in> set q. in_range a)" for n and q :: "'i word list"
  have st: "ok n (sweep fwd_lift offs s q)" if "axis_ok offs s n" "ok n q" for n offs s q
    using that fwd_sweep_in_range [OF assms(1), of offs s q] by (simp add: ok_def lift_defs)
  have p: "ok (4 ^ d) p" using assms(4,5) by (simp add: ok_def)
  have l: "fwd_lift p 0 1 = sweep fwd_lift [0] 1 p" by (simp add: sweep_def)
  consider "d = 1" | "d = 2" | "d = 3" | "d = 4" using dims_cases [OF assms(2,3)] by blast
  then have "ok (4 ^ d) (fwd_xform d p)"
  proof cases
    case 1
    then show ?thesis using st [OF axis_ok_1, of p] p by (simp add: fwd_xform_def fwd_xform_1_def l [simplified])
  next
    case 2
    then show ?thesis using st [OF axis_ok_lanes(2) st [OF axis_ok_lanes(1), of p]] p
      by (simp add: fwd_xform_def fwd_xform_2_def Let_def)
  next
    case 3
    then show ?thesis using st [OF axis_ok_lanes(5) st [OF axis_ok_lanes(4) st [OF axis_ok_lanes(3), of p]]] p
      by (simp add: fwd_xform_def fwd_xform_3_def Let_def)
  next
    case 4
    then show ?thesis
      using st [OF axis_ok_lanes(9) st [OF axis_ok_lanes(8) st [OF axis_ok_lanes(7) st [OF axis_ok_lanes(6), of p]]]] p
      by (simp add: fwd_xform_def fwd_xform_4_def Let_def)
  qed
  then show ?thesis by (simp add: ok_def)
qed

lemma close_to_diff:
  fixes a b :: "('i::len) word"
  assumes "in_range b" "\<bar>sint (a - b)\<bar> \<le> E" "E \<le> 2 ^ (LENGTH('i) - 2)" "4 \<le> LENGTH('i)"
  shows "close_to E a b"
proof -
  have "\<bar>sint (a - b) + sint b\<bar> < 2 ^ (LENGTH('i) - 1)"
    using assms two_power_split [of "LENGTH('i)"] by (simp add: in_range_def)
  then have "sint ((a - b) + b) = sint (a - b) + sint b" by (rule sint_add_fit)
  then show ?thesis using assms(2) by (simp add: close_to_def)
qed

definition xform_error :: "nat \<Rightarrow> int" where
  "xform_error d = [0, 2, 10, 40, 153] ! d"

lemma length_sweep_fwd: "length (sweep fwd_lift offs s p) = length p"
  by (simp add: lift_defs)

lemma inv_sweep_step:
  fixes p q :: "('i::len) word list"
  assumes "list_all2 (close_to E) q (sweep fwd_lift offs s p)" "16 \<le> LENGTH('i)"
    "axis_ok offs s (length p)" "\<forall>a \<in> set p. in_range a" "0 \<le> E" "4 * E + 16 \<le> 2 ^ (LENGTH('i) - 2)"
  shows "list_all2 (close_to (lift_error E)) (sweep inv_lift offs s q) p"
  by (rule inv_sweep_error [OF assms(2-4,1,5,6)])

lemmas xform_error_simps = length_sweep_fwd xform_defs Let_def axis_ok_lanes [unfolded One_nat_def]

lemma lift_error_ge: "0 \<le> E \<Longrightarrow> E \<le> lift_error E" "0 \<le> E \<Longrightarrow> 0 \<le> lift_error E"
  unfolding lift_error_def by (simp; linarith)+

lemma lift_error_funpow_ge: "0 \<le> E \<Longrightarrow> E \<le> (lift_error ^^ n) E"
proof (induction n)
  case (Suc n)
  then show ?case using lift_error_ge(1) [of "(lift_error ^^ n) E"] by simp
qed simp

lemma inv_xform_close_1:
  fixes p q :: "('i::len) word list"
  assumes "16 \<le> LENGTH('i)" "length p = 4" "\<forall>a \<in> set p. in_range a"
    "list_all2 (close_to E) q (fwd_xform 1 p)" "0 \<le> E" "4 * E + 16 \<le> 2 ^ (LENGTH('i) - 2)"
  shows "list_all2 (close_to (lift_error E)) (inv_xform 1 q) p"
  using inv_sweep_step [of E q "[0]" 1 p] assms axis_ok_1 by (simp add: xform_defs sweep_def)

lemma inv_xform_close_2:
  fixes p q :: "('i::len) word list"
  assumes "16 \<le> LENGTH('i)" "length p = 16" "\<forall>a \<in> set p. in_range a"
    "list_all2 (close_to E) q (fwd_xform 2 p)" "0 \<le> E" "4 * lift_error E + 16 \<le> 2 ^ (LENGTH('i) - 2)"
  shows "list_all2 (close_to (lift_error (lift_error E))) (inv_xform 2 q) p"
proof -
  let ?p1 = "sweep fwd_lift lanes_x_2 1 p"
  have "\<forall>a \<in> set ?p1. in_range a"
    using fwd_sweep_in_range [of lanes_x_2 1 p] assms by (simp add: xform_error_simps)
  then show ?thesis
    using inv_sweep_step [OF inv_sweep_step [of E q lanes_y_2 4 ?p1]] assms lift_error_ge [of E]
    by (simp add: xform_error_simps)
qed

lemma inv_xform_close_3:
  fixes p q :: "('i::len) word list"
  assumes "16 \<le> LENGTH('i)" "length p = 64" "\<forall>a \<in> set p. in_range a"
    "list_all2 (close_to E) q (fwd_xform 3 p)" "0 \<le> E" "4 * lift_error (lift_error E) + 16 \<le> 2 ^ (LENGTH('i) - 2)"
  shows "list_all2 (close_to (lift_error (lift_error (lift_error E)))) (inv_xform 3 q) p"
proof -
  let ?p1 = "sweep fwd_lift lanes_x_3 1 p" and ?p2 = "\<lambda>p. sweep fwd_lift lanes_y_3 4 p"
  have r1: "\<forall>a \<in> set ?p1. in_range a"
    using fwd_sweep_in_range [of lanes_x_3 1 p] assms by (simp add: xform_error_simps)
  moreover have "\<forall>a \<in> set (?p2 ?p1). in_range a"
    using fwd_sweep_in_range [of lanes_y_3 4 ?p1] r1 assms by (simp add: xform_error_simps)
  ultimately show ?thesis
    using inv_sweep_step [OF inv_sweep_step [OF inv_sweep_step [of E q lanes_z_3 16 "?p2 ?p1"]]] assms
      lift_error_ge [of E] lift_error_ge [of "lift_error E"]
    by (simp add: xform_error_simps)
qed

lemma inv_xform_close_4:
  fixes p q :: "('i::len) word list"
  assumes "16 \<le> LENGTH('i)" "length p = 256" "\<forall>a \<in> set p. in_range a"
    "list_all2 (close_to E) q (fwd_xform 4 p)" "0 \<le> E"
    "4 * lift_error (lift_error (lift_error E)) + 16 \<le> 2 ^ (LENGTH('i) - 2)"
  shows "list_all2 (close_to (lift_error (lift_error (lift_error (lift_error E))))) (inv_xform 4 q) p"
proof -
  let ?p1 = "sweep fwd_lift lanes_x_4 1 p" and ?p2 = "\<lambda>p. sweep fwd_lift lanes_y_4 4 p"
    and ?p3 = "\<lambda>p. sweep fwd_lift lanes_z_4 16 p"
  have r1: "\<forall>a \<in> set ?p1. in_range a"
    using fwd_sweep_in_range [of lanes_x_4 1 p] assms by (simp add: xform_error_simps)
  moreover have r2: "\<forall>a \<in> set (?p2 ?p1). in_range a"
    using fwd_sweep_in_range [of lanes_y_4 4 ?p1] r1 assms by (simp add: xform_error_simps)
  moreover have "\<forall>a \<in> set (?p3 (?p2 ?p1)). in_range a"
    using fwd_sweep_in_range [of lanes_z_4 16 "?p2 ?p1"] r2 assms by (simp add: xform_error_simps)
  ultimately show ?thesis
    using inv_sweep_step [OF inv_sweep_step [OF inv_sweep_step [OF
          inv_sweep_step [of E q lanes_w_4 64 "?p3 (?p2 ?p1)"]]]] assms
      lift_error_ge [of E] lift_error_ge [of "lift_error E"] lift_error_ge [of "lift_error (lift_error E)"]
    by (simp add: xform_error_simps)
qed

text \<open>The inverse transform of coefficients that are off by at most \<open>E\<close>: each axis lets the error grow.\<close>

lemma inv_xform_close:
  fixes p q :: "('i::len) word list"
  assumes "16 \<le> LENGTH('i)" "1 \<le> d" "d \<le> 4" "length p = 4 ^ d" "\<forall>a \<in> set p. in_range a"
    "list_all2 (close_to E) q (fwd_xform d p)" "0 \<le> E"
    "4 * (lift_error ^^ (d - 1)) E + 16 \<le> 2 ^ (LENGTH('i) - 2)"
  shows "list_all2 (close_to ((lift_error ^^ d) E)) (inv_xform d q) p"
  using dims_cases [OF assms(2,3)] assms(4-)
    inv_xform_close_1 [OF assms(1), of p E q] inv_xform_close_2 [OF assms(1), of p E q]
    inv_xform_close_3 [OF assms(1), of p E q] inv_xform_close_4 [OF assms(1), of p E q]
  by (elim disjE) (simp_all add: numeral_eq_Suc)

section \<open>Exactness\<close>

text \<open>The transforms in unbounded integers, for comparison with the words of the code.\<close>

definition fwd_xform_int :: "nat \<Rightarrow> int list \<Rightarrow> int list" where
  "fwd_xform_int d p =
    (let L = sweep (lane fwd_lift_int)
     in if d = 1 then L [0] 1 p else if d = 2 then L lanes_y_2 4 (L lanes_x_2 1 p)
        else if d = 3 then L lanes_z_3 16 (L lanes_y_3 4 (L lanes_x_3 1 p))
        else L lanes_w_4 64 (L lanes_z_4 16 (L lanes_y_4 4 (L lanes_x_4 1 p))))"

definition inv_xform_int :: "nat \<Rightarrow> int list \<Rightarrow> int list" where
  "inv_xform_int d p =
    (let L = sweep (lane inv_lift_int)
     in if d = 1 then L [0] 1 p else if d = 2 then L lanes_x_2 1 (L lanes_y_2 4 p)
        else if d = 3 then L lanes_x_3 1 (L lanes_y_3 4 (L lanes_z_3 16 p))
        else L lanes_x_4 1 (L lanes_y_4 4 (L lanes_z_4 16 (L lanes_w_4 64 p))))"

lemma lane_vec_sint: "i + 3 * s < length p \<Longrightarrow> lane_vec (map sint p) i s = sint4 (lane_vec p i s)"
  by (simp add: lane_vec_def sint4_def)

lemma sweep_exact:
  assumes ok: "axis_ok offs s (length p)" and f: "\<And>i. i \<in> set offs \<Longrightarrow> sint4 (f (lane_vec p i s)) = g (sint4 (lane_vec p i s))"
  shows "map sint (sweep (lane f) offs s p) = sweep (lane g) offs s (map sint p)"
proof -
  have ok': "axis_ok offs s (length (map sint p))" using ok by simp
  have "list_all2 (\<lambda>a b. sint a = b) (sweep (lane f) offs s p) (sweep (lane g) offs s (map sint p))"
  proof (rule sweep_relI [OF ok])
    fix i assume i: "i \<in> set offs"
    have "lane_vec (sweep (lane g) offs s (map sint p)) i s = sint4 (f (lane_vec p i s))"
      using lane_vec_sweep [OF ok' i, of g] lane_vec_sint [OF axis_ok_bound [OF ok i]] f [OF i] by simp
    then show "rel4 (\<lambda>a b. sint a = b) (f (lane_vec p i s)) (lane_vec (sweep (lane g) offs s (map sint p)) i s)"
      by (cases "f (lane_vec p i s)") (simp add: rel4_def sint4_def)
  next
    fix k assume "k < length p" "\<forall>i \<in> set offs. \<forall>t < 4. k \<noteq> i + t * s"
    then show "sint (p ! k) = sweep (lane g) offs s (map sint p) ! k" using nth_sweep_other [of offs k s g "map sint p"] by simp
  qed simp
  then show ?thesis by (simp add: list_all2_conv_all_nth list_eq_iff_nth_eq)
qed

lemma fwd_sweep_exact:
  fixes p :: "('i::len) word list"
  assumes "4 \<le> LENGTH('i)" "axis_ok offs s (length p)" "\<forall>a \<in> set p. in_range a"
  shows "map sint (sweep fwd_lift offs s p) = sweep (lane fwd_lift_int) offs s (map sint p)"
  unfolding fwd_lift_def
  by (rule sweep_exact [OF assms(2)]) (use sint4_fwd [OF assms(1)] in_range_lane_vec [OF assms(3)] axis_ok_bound [OF assms(2)] in blast)

lemma inv_sweep_exact:
  fixes p q :: "('i::len) word list"
  assumes q: "list_all2 (close_to E) q (sweep fwd_lift offs s p)" and n: "16 \<le> LENGTH('i)"
    and ok: "axis_ok offs s (length p)" and r: "\<forall>a \<in> set p. in_range a" and E: "0 \<le> E" "4 * E + 16 \<le> 2 ^ (LENGTH('i) - 2)"
  shows "map sint (sweep inv_lift offs s q) = sweep (lane inv_lift_int) offs s (map sint q)"
proof -
  have l: "length q = length p" using q by (auto dest: list_all2_lengthD simp: fwd_lift_def)
  show ?thesis
    unfolding inv_lift_def
  proof (rule sweep_exact)
    fix i assume i: "i \<in> set offs"
    have "rel4 (close_to E) (lane_vec q i s) (lane_vec (sweep (lane fwd_lift4) offs s p) i s)"
      using q [unfolded fwd_lift_def] axis_ok_bound [OF ok i] l by (intro lane_vec_rel4) simp_all
    then show "sint4 (inv_lift4 (lane_vec q i s)) = inv_lift_int (sint4 (lane_vec q i s))"
      using lane_vec_sweep [OF ok i] in_range_lane_vec [OF r axis_ok_bound [OF ok i]] E
      by (intro inv_lift4_exact [OF n]) simp_all
  qed (use ok l in simp)
qed


lemma fwd_xform_exact:
  fixes p :: "('i::len) word list"
  assumes "4 \<le> LENGTH('i)" "1 \<le> d" "d \<le> 4" "length p = 4 ^ d" "\<forall>a \<in> set p. in_range a"
  shows "map sint (fwd_xform d p) = fwd_xform_int d (map sint p)"
proof -
  define ok where "ok n q \<longleftrightarrow> length q = n \<and> (\<forall>a \<in> set q. in_range a)" for n and q :: "'i word list"
  have st: "ok n (sweep fwd_lift offs s q)" if "axis_ok offs s n" "ok n q" for n offs s q
    using that fwd_sweep_in_range [OF assms(1), of offs s q] by (simp add: ok_def lift_defs)
  have ex: "map sint (sweep fwd_lift offs s q) = sweep (lane fwd_lift_int) offs s (map sint q)" if "axis_ok offs s n" "ok n q" for n offs s q
    using that fwd_sweep_exact [OF assms(1), of offs s q] by (simp add: ok_def)
  have p: "ok (4 ^ d) p" using assms(4,5) by (simp add: ok_def)
  have l: "fwd_lift p 0 1 = sweep fwd_lift [0] 1 p" by (simp add: sweep_def)
  consider "d = 1" | "d = 2" | "d = 3" | "d = 4" using dims_cases [OF assms(2,3)] by blast
  then show ?thesis
  proof cases
    case 1
    then show ?thesis using ex [OF axis_ok_1, of p] p by (simp add: fwd_xform_def fwd_xform_1_def fwd_xform_int_def l [simplified])
  next
    case 2
    then have "ok 16 p" using p by simp
    note o = this st [OF axis_ok_lanes(1) this]
    show ?thesis unfolding 2
      by (simp add: fwd_xform_def fwd_xform_2_def fwd_xform_int_def Let_def ex [OF axis_ok_lanes(1) o(1)] ex [OF axis_ok_lanes(2) o(2)] del: One_nat_def)
  next
    case 3
    then have "ok 64 p" using p by simp
    note o = this st [OF axis_ok_lanes(3) this] st [OF axis_ok_lanes(4) st [OF axis_ok_lanes(3) this]]
    show ?thesis unfolding 3
      by (simp add: fwd_xform_def fwd_xform_3_def fwd_xform_int_def Let_def ex [OF axis_ok_lanes(3) o(1)] ex [OF axis_ok_lanes(4) o(2)]
        ex [OF axis_ok_lanes(5) o(3)] del: One_nat_def)
  next
    case 4
    then have "ok 256 p" using p by simp
    note o1 = this and o2 = st [OF axis_ok_lanes(6) this]
    note o3 = st [OF axis_ok_lanes(7) o2] note o4 = st [OF axis_ok_lanes(8) o3]
    show ?thesis unfolding 4
      by (simp add: fwd_xform_def fwd_xform_4_def fwd_xform_int_def Let_def ex [OF axis_ok_lanes(6) o1] ex [OF axis_ok_lanes(7) o2]
        ex [OF axis_ok_lanes(8) o3] ex [OF axis_ok_lanes(9) o4] del: One_nat_def)
  qed
qed

text \<open>The inverse, from the coefficients or from ones that are off by at most \<open>E\<close>.\<close>

lemma inv_sweep_both:
  fixes p q :: "('i::len) word list"
  assumes "list_all2 (close_to E) q (sweep fwd_lift offs s p)" "16 \<le> LENGTH('i)" "axis_ok offs s (length p)" "\<forall>a \<in> set p. in_range a"
    "0 \<le> E" "4 * E + 16 \<le> 2 ^ (LENGTH('i) - 2)"
  shows "list_all2 (close_to (lift_error E)) (sweep inv_lift offs s q) p"
    "map sint (sweep inv_lift offs s q) = sweep (lane inv_lift_int) offs s (map sint q)"
  by (rule inv_sweep_step [OF assms], rule inv_sweep_exact [OF assms])

lemma inv_xform_exact:
  fixes p q :: "('i::len) word list"
  assumes n: "16 \<le> LENGTH('i)" and d: "1 \<le> d" "d \<le> 4" and p: "length p = 4 ^ d" "\<forall>a \<in> set p. in_range a"
    and q: "list_all2 (close_to E) q (fwd_xform d p)" and E: "0 \<le> E" "4 * (lift_error ^^ (d - 1)) E + 16 \<le> 2 ^ (LENGTH('i) - 2)"
  shows "map sint (inv_xform d q) = inv_xform_int d (map sint q)"
proof -
  note both = inv_sweep_both [OF _ n]
  have R: "\<forall>a \<in> set (sweep fwd_lift offs s p'). in_range a" if "axis_ok offs s (length p')" "\<forall>a \<in> set p'. in_range a" for offs s and p' :: "'i word list"
    using fwd_sweep_in_range [OF _ that] n by simp
  have E1: "0 \<le> lift_error E" "0 \<le> lift_error (lift_error E)" "E \<le> lift_error E" "lift_error E \<le> lift_error (lift_error E)"
    "lift_error (lift_error E) \<le> lift_error (lift_error (lift_error E))" "0 \<le> lift_error (lift_error (lift_error E))"
    using E(1) lift_error_ge [of E] lift_error_ge [of "lift_error E"] lift_error_ge [of "lift_error (lift_error E)"] by simp_all
  let ?L = "sweep fwd_lift"
  consider "d = 1" | "d = 2" | "d = 3" | "d = 4" using dims_cases [OF d] by blast
  then show ?thesis
  proof cases
    case 1
    then show ?thesis using both(2) [of E q "[0]" 1 p] p q E axis_ok_1 by (simp add: xform_defs inv_xform_int_def sweep_def)
  next
    case 2
    let ?p1 = "?L lanes_x_2 1 p"
    have l: "axis_ok lanes_x_2 1 (length p)" "axis_ok lanes_y_2 4 (length ?p1)" using p 2 by (simp_all add: xform_error_simps)
    have e: "4 * E + 16 \<le> 2 ^ (LENGTH('i) - 2)" "4 * lift_error E + 16 \<le> 2 ^ (LENGTH('i) - 2)" using E E1 2 by simp_all
    have c: "list_all2 (close_to E) q (?L lanes_y_2 4 ?p1)" using q 2 by (simp add: xform_defs Let_def)
    note b1 = both [OF c l(2) R [OF l(1) p(2)] E(1) e(1)]
    note b2 = both [OF b1(1) l(1) p(2) E1(1) e(2)]
    show ?thesis unfolding 2 by (simp add: inv_xform_def inv_xform_2_def inv_xform_int_def Let_def b1(2) b2(2) del: One_nat_def)
  next
    case 3
    let ?p1 = "?L lanes_x_3 1 p" let ?p2 = "?L lanes_y_3 4 ?p1"
    have l: "axis_ok lanes_x_3 1 (length p)" "axis_ok lanes_y_3 4 (length ?p1)" "axis_ok lanes_z_3 16 (length ?p2)" using p 3 by (simp_all add: xform_error_simps)
    have e: "4 * E + 16 \<le> 2 ^ (LENGTH('i) - 2)" "4 * lift_error E + 16 \<le> 2 ^ (LENGTH('i) - 2)" "4 * lift_error (lift_error E) + 16 \<le> 2 ^ (LENGTH('i) - 2)"
      using E E1 3 by (simp_all add: numeral_eq_Suc)
    note r1 = R [OF l(1) p(2)] note r2 = R [OF l(2) r1]
    have c: "list_all2 (close_to E) q (?L lanes_z_3 16 ?p2)" using q 3 by (simp add: xform_defs Let_def)
    note b1 = both [OF c l(3) r2 E(1) e(1)]
    note b2 = both [OF b1(1) l(2) r1 E1(1) e(2)]
    note b3 = both [OF b2(1) l(1) p(2) E1(2) e(3)]
    show ?thesis unfolding 3 by (simp add: inv_xform_def inv_xform_3_def inv_xform_int_def Let_def b1(2) b2(2) b3(2) del: One_nat_def)
  next
    case 4
    let ?p1 = "?L lanes_x_4 1 p" let ?p2 = "?L lanes_y_4 4 ?p1" let ?p3 = "?L lanes_z_4 16 ?p2"
    have l: "axis_ok lanes_x_4 1 (length p)" "axis_ok lanes_y_4 4 (length ?p1)" "axis_ok lanes_z_4 16 (length ?p2)" "axis_ok lanes_w_4 64 (length ?p3)"
      using p 4 by (simp_all add: xform_error_simps)
    have e: "4 * E + 16 \<le> 2 ^ (LENGTH('i) - 2)" "4 * lift_error E + 16 \<le> 2 ^ (LENGTH('i) - 2)" "4 * lift_error (lift_error E) + 16 \<le> 2 ^ (LENGTH('i) - 2)"
      "4 * lift_error (lift_error (lift_error E)) + 16 \<le> 2 ^ (LENGTH('i) - 2)"
      using E E1 4 by (simp_all add: numeral_eq_Suc)
    note r1 = R [OF l(1) p(2)] note r2 = R [OF l(2) r1] note r3 = R [OF l(3) r2]
    have c: "list_all2 (close_to E) q (?L lanes_w_4 64 ?p3)" using q 4 by (simp add: xform_defs Let_def)
    note b1 = both [OF c l(4) r3 E(1) e(1)]
    note b2 = both [OF b1(1) l(3) r2 E1(1) e(2)]
    note b3 = both [OF b2(1) l(2) r1 E1(2) e(3)]
    note b4 = both [OF b3(1) l(1) p(2) E1(6) e(4)]
    show ?thesis unfolding 4 by (simp add: inv_xform_def inv_xform_4_def inv_xform_int_def Let_def b1(2) b2(2) b3(2) b4(2) del: One_nat_def)
  qed
qed

text \<open>C31: the lossy block transform is undone by its inverse up to a small error that depends on the
  dimensionality only: 2, 10, 40 and 153 units in the last place of the block's integers for one to
  four dimensions, for every block of integers of magnitude below \<open>2\<close> to the \<open>LENGTH('i) - 2\<close>, the
  range that the block-floating-point conversion produces and that the documentation asks of integer
  data. No overflow changes a result: the words that the forward transform computes, and those that
  the inverse computes from them, are the ones that unbounded integers give.\<close>

theorem xform_roundtrip_error:
  fixes p :: "('i::len) word list"
  assumes "16 \<le> LENGTH('i)" "1 \<le> d" "d \<le> 4" "length p = 4 ^ d" "\<forall>a \<in> set p. in_range a"
  shows "list_all2 (close_to (xform_error d)) (inv_xform d (fwd_xform d p)) p \<and>
    map sint (fwd_xform d p) = fwd_xform_int d (map sint p) \<and>
    map sint (inv_xform d (fwd_xform d p)) = inv_xform_int d (map sint (fwd_xform d p))"
proof -
  have e: "(lift_error ^^ d) 0 = xform_error d" "(lift_error ^^ (d - 1)) 0 \<le> 40"
    using dims_cases [OF assms(2,3)] by (elim disjE; simp add: numeral_eq_Suc lift_error_def xform_error_def)+
  have "(2::int) ^ 14 \<le> 2 ^ (LENGTH('i) - 2)" using assms(1) by (intro power_increasing) auto
  then have b: "4 * (lift_error ^^ (d - 1)) 0 + 16 \<le> 2 ^ (LENGTH('i) - 2)" using e(2) by simp
  show ?thesis
    using inv_xform_close [OF assms close_to_refl order_refl b] inv_xform_exact [OF assms close_to_refl order_refl b] fwd_xform_exact [OF _ assms(2-5)] assms(1) e(1)
    by simp
qed

theorem xform_roundtrip_error_witness:
  "list_all2 (close_to 2) (inv_xform 1 (fwd_xform 1 ([7, 3, -1000, 2] :: 32 word list))) [7, 3, -1000, 2]
    \<and> inv_xform 1 (fwd_xform 1 ([7, 3, -1000, 2] :: 32 word list)) \<noteq> [7, 3, -1000, 2]"
proof -
  have "\<forall>a \<in> set ([7, 3, -1000, 2] :: 32 word list). in_range a" by (simp add: in_range_def)
  then have "list_all2 (close_to (xform_error 1)) (inv_xform 1 (fwd_xform 1 ([7, 3, -1000, 2] :: 32 word list))) [7, 3, -1000, 2]"
    using xform_roundtrip_error [of 1 "[7, 3, -1000, 2] :: 32 word list"] by simp
  moreover have "inv_xform 1 (fwd_xform 1 ([7, 3, -1000, 2] :: 32 word list)) \<noteq> [7, 3, -1000, 2]"
    by code_simp
  ultimately show ?thesis by (simp add: xform_error_def)
qed

end
