(* ===== verification/Bitstream.thy ===== *)
theory Bitstream
  imports Zfp_Prelude
begin

text \<open>
  The in-memory bit stream of \<^verbatim>\<open>include/zfp/bitstream.inl\<close>, in its default (unstrided) build and
  for every word type: the type variable \<open>'w\<close> stands for the stream word, so that \<open>wsize\<close> is
  \<open>LENGTH('w)\<close> (8, 16, 32 or 64 in the sources). Pointers into the buffer are word offsets
  from \<open>begin\<close>; the buffer is the function \<open>mem\<close> from such offsets to words, as the source does
  not enforce the end of the stream. Bit offsets and counts are natural numbers: a stream is
  shorter than \<open>2 ^ 64\<close> bits.

  After the operations come two abstract views. A stream in write state denotes the list
  \<open>written\<close> of all bits written so far, and every write operation appends to it. A stream in read
  state is a position on the tape of bits held in memory, and every read operation returns the
  next bits and advances the position.
\<close>

section \<open>State and operations\<close>

record (overloaded) 'w bitstream =
  bits :: nat
  buffer :: "'w word"
  ptr :: nat
  end_ptr :: nat
  mem :: "nat \<Rightarrow> 'w word"

definition stream_read_word :: "('w::len) bitstream \<Rightarrow> 'w word \<times> 'w bitstream" where
  "stream_read_word s = (mem s (ptr s), s\<lparr>ptr := ptr s + 1\<rparr>)"

definition stream_write_word :: "('w::len) bitstream \<Rightarrow> 'w word \<Rightarrow> 'w bitstream" where
  "stream_write_word s value = s\<lparr>mem := (mem s)(ptr s := value), ptr := ptr s + 1\<rparr>"

definition stream_alignment :: "('w::len) itself \<Rightarrow> nat" where
  "stream_alignment w = LENGTH('w)"

text \<open>Current byte size (if flushed) and byte capacity.\<close>

definition stream_size :: "('w::len) bitstream \<Rightarrow> nat" where
  "stream_size s = ptr s * (LENGTH('w) div 8)"

definition stream_capacity :: "('w::len) bitstream \<Rightarrow> nat" where
  "stream_capacity s = end_ptr s * (LENGTH('w) div 8)"

definition stream_read_bit :: "('w::len) bitstream \<Rightarrow> bool \<times> 'w bitstream" where
  "stream_read_bit s =
    (let s1 = (if bits s = 0
               then let (w, s') = stream_read_word s in s'\<lparr>buffer := w, bits := LENGTH('w)\<rparr>
               else s);
         s2 = s1\<lparr>bits := bits s1 - 1\<rparr>;
         b = odd (buffer s2)
     in (b, s2\<lparr>buffer := drop_bit 1 (buffer s2)\<rparr>))"

text \<open>The argument must be 0 or 1; the source returns it unchanged.\<close>

definition stream_write_bit :: "('w::len) bitstream \<Rightarrow> bool \<Rightarrow> 'w bitstream" where
  "stream_write_bit s b =
    (let s1 = s\<lparr>buffer := buffer s + push_bit (bits s) (of_bool b), bits := bits s + 1\<rparr>
     in if bits s1 = LENGTH('w)
        then (stream_write_word s1 (buffer s1))\<lparr>buffer := 0, bits := 0\<rparr>
        else s1)"

text \<open>The \<open>do ... while\<close> loop that fetches words until \<open>n\<close> bits are buffered.\<close>

function stream_read_bits_loop ::
  "nat \<Rightarrow> uint64 \<Rightarrow> ('w::len) bitstream \<Rightarrow> uint64 \<times> 'w bitstream" where
  "stream_read_bits_loop n value s =
    (let (w, s1) = stream_read_word s;
         value' = value + push_bit (bits s) (ucast w);
         s2 = s1\<lparr>buffer := w, bits := bits s + LENGTH('w)\<rparr>
     in if LENGTH('w) < 64 \<and> bits s2 < n then stream_read_bits_loop n value' s2 else (value', s2))"
  by pat_completeness auto
termination
  by (relation "measure (\<lambda>(n, v, s). n - bits s)") (auto simp: stream_read_word_def)

definition stream_read_bits :: "('w::len) bitstream \<Rightarrow> nat \<Rightarrow> uint64 \<times> 'w bitstream" where
  "stream_read_bits s n =
    (let value = ucast (buffer s) :: uint64
     in if bits s < n then
          let (value, s) = stream_read_bits_loop n value s;
              s = s\<lparr>bits := bits s - n\<rparr>
          in if bits s = 0 then (value, s\<lparr>buffer := 0\<rparr>)
             else (value AND (push_bit (n - 1) 2 - 1),
                   s\<lparr>buffer := drop_bit (LENGTH('w) - bits s) (buffer s)\<rparr>)
        else (value AND (push_bit n 1 - 1),
              s\<lparr>bits := bits s - n, buffer := drop_bit n (buffer s)\<rparr>))"

text \<open>The \<open>do ... while\<close> loop that stores words while the buffer is full.\<close>

function stream_write_bits_loop ::
  "uint64 \<Rightarrow> nat \<Rightarrow> ('w::len) bitstream \<Rightarrow> 'w bitstream" where
  "stream_write_bits_loop value n s =
    (let s1 = s\<lparr>bits := bits s - LENGTH('w)\<rparr>;
         s2 = stream_write_word s1 (buffer s1);
         s3 = s2\<lparr>buffer := ucast (drop_bit (n - bits s2) value)\<rparr>
     in if LENGTH('w) < 64 \<and> LENGTH('w) \<le> bits s3 then stream_write_bits_loop value n s3 else s3)"
  by pat_completeness auto
termination
  by (relation "measure (\<lambda>(v, n, s). bits s)") (auto simp: stream_write_word_def)

definition stream_write_bits ::
  "('w::len) bitstream \<Rightarrow> uint64 \<Rightarrow> nat \<Rightarrow> uint64 \<times> 'w bitstream" where
  "stream_write_bits s value n =
    (let s1 = s\<lparr>buffer := buffer s + ucast (push_bit (bits s) value), bits := bits s + n\<rparr>;
         (value, n, s2) =
           (if LENGTH('w) \<le> bits s1
            then let value = drop_bit 1 value; n = n - 1
                 in (value, n, stream_write_bits_loop value n s1)
            else (value, n, s1));
         s3 = s2\<lparr>buffer := buffer s2 AND (push_bit (bits s2) 1 - 1)\<rparr>
     in (drop_bit n value, s3))"

definition stream_rtell :: "('w::len) bitstream \<Rightarrow> nat" where
  "stream_rtell s = ptr s * LENGTH('w) - bits s"

definition stream_wtell :: "('w::len) bitstream \<Rightarrow> nat" where
  "stream_wtell s = ptr s * LENGTH('w) + bits s"

definition stream_rewind :: "('w::len) bitstream \<Rightarrow> 'w bitstream" where
  "stream_rewind s = s\<lparr>ptr := 0, buffer := 0, bits := 0\<rparr>"

definition stream_rseek :: "('w::len) bitstream \<Rightarrow> nat \<Rightarrow> 'w bitstream" where
  "stream_rseek s offset =
    (let n = offset mod LENGTH('w);
         s = s\<lparr>ptr := offset div LENGTH('w)\<rparr>
     in if n \<noteq> 0
        then let (w, s) = stream_read_word s
             in s\<lparr>buffer := drop_bit n w, bits := LENGTH('w) - n\<rparr>
        else s\<lparr>buffer := 0, bits := 0\<rparr>)"

definition stream_wseek :: "('w::len) bitstream \<Rightarrow> nat \<Rightarrow> 'w bitstream" where
  "stream_wseek s offset =
    (let n = offset mod LENGTH('w);
         s = s\<lparr>ptr := offset div LENGTH('w)\<rparr>
     in if n \<noteq> 0
        then s\<lparr>buffer := mem s (ptr s) AND (push_bit n 1 - 1), bits := n\<rparr>
        else s\<lparr>buffer := 0, bits := 0\<rparr>)"

definition stream_skip :: "('w::len) bitstream \<Rightarrow> nat \<Rightarrow> 'w bitstream" where
  "stream_skip s n = stream_rseek s (stream_rtell s + n)"

text \<open>The \<open>for\<close> loop of \<open>stream_pad\<close>; \<open>nb\<close> is the loop variable \<open>bits\<close>.\<close>

function stream_pad_loop :: "nat \<Rightarrow> ('w::len) bitstream \<Rightarrow> nat \<times> 'w bitstream" where
  "stream_pad_loop nb s =
    (if LENGTH('w) \<le> nb
     then stream_pad_loop (nb - LENGTH('w)) ((stream_write_word s (buffer s))\<lparr>buffer := 0\<rparr>)
     else (nb, s))"
  by pat_completeness auto
termination
  by (relation "measure fst") auto

definition stream_pad :: "('w::len) bitstream \<Rightarrow> nat \<Rightarrow> 'w bitstream" where
  "stream_pad s n = (let (nb, s) = stream_pad_loop (bits s + n) s in s\<lparr>bits := nb\<rparr>)"

definition stream_align :: "('w::len) bitstream \<Rightarrow> nat \<times> 'w bitstream" where
  "stream_align s = (let n = bits s in (n, if n \<noteq> 0 then stream_skip s n else s))"

definition stream_flush :: "('w::len) bitstream \<Rightarrow> nat \<times> 'w bitstream" where
  "stream_flush s =
    (let n = (LENGTH('w) - bits s) mod LENGTH('w)
     in (n, if n \<noteq> 0 then stream_pad s n else s))"

text \<open>Copy \<open>n\<close> bits from \<open>src\<close> to \<open>dst\<close>; the streams have separate buffers. The result is the
  pair of both streams.\<close>

function stream_copy ::
  "('w::len) bitstream \<Rightarrow> 'w bitstream \<Rightarrow> nat \<Rightarrow> 'w bitstream \<times> 'w bitstream" where
  "stream_copy dst src n =
    (if LENGTH('w) < n then
       let (v, src) = stream_read_bits src (LENGTH('w));
           w = (ucast v :: 'w word);
           (_, dst) = stream_write_bits dst (ucast w) (LENGTH('w))
       in stream_copy dst src (n - LENGTH('w))
     else if n \<noteq> 0 then
       let (v, src) = stream_read_bits src n;
           w = (ucast v :: 'w word);
           (_, dst) = stream_write_bits dst (ucast w) n
       in (dst, src)
     else (dst, src))"
  by pat_completeness auto
termination
  by (relation "measure (\<lambda>(d, s, n). n)") auto

definition stream_open :: "(nat \<Rightarrow> 'w::len word) \<Rightarrow> nat \<Rightarrow> 'w bitstream" where
  "stream_open buf bytes =
    stream_rewind \<lparr>bits = 0, buffer = 0, ptr = 0, end_ptr = bytes div (LENGTH('w) div 8), mem = buf\<rparr>"

definition stream_clone :: "('w::len) bitstream \<Rightarrow> 'w bitstream" where
  "stream_clone s = s"

declare stream_read_bits_loop.simps [simp del] stream_write_bits_loop.simps [simp del]
  stream_pad_loop.simps [simp del] stream_copy.simps [simp del]

section \<open>The write state: a list of bits\<close>

text \<open>In write state fewer than \<open>wsize\<close> bits are buffered and the unused bits of the buffer are
  zero. \<open>wbit s i\<close> is the \<open>i\<close>th bit written, in memory or in the buffer.\<close>

definition winv :: "('w::len) bitstream \<Rightarrow> bool" where
  "winv s \<longleftrightarrow> bits s < LENGTH('w) \<and> take_bit (bits s) (buffer s) = buffer s"

definition wbit :: "('w::len) bitstream \<Rightarrow> nat \<Rightarrow> bool" where
  "wbit s i = bit (((mem s)(ptr s := buffer s)) (i div LENGTH('w))) (i mod LENGTH('w))"

definition written :: "('w::len) bitstream \<Rightarrow> bool list" where
  "written s = map (wbit s) [0..<stream_wtell s]"

definition wappend :: "('w::len) bitstream \<Rightarrow> bool list \<Rightarrow> 'w bitstream" where
  "wappend s bs = foldl stream_write_bit s bs"

lemma winv_buffer: "winv s \<Longrightarrow> bit (buffer s) i \<Longrightarrow> i < bits s"
  by (metis winv_def bit_take_bit_iff)

lemma less_wtell_iff:
  fixes s :: "('w::len) bitstream"
  assumes "bits s < LENGTH('w)"
  shows "i < stream_wtell s \<longleftrightarrow>
    i div LENGTH('w) < ptr s \<or> i div LENGTH('w) = ptr s \<and> i mod LENGTH('w) < bits s"
proof -
  let ?W = "LENGTH('w)"
  have i: "i = i div ?W * ?W + i mod ?W" by simp
  have "(i div ?W) * ?W + i mod ?W < ptr s * ?W + bits s \<longleftrightarrow>
    i div ?W < ptr s \<or> i div ?W = ptr s \<and> i mod ?W < bits s"
    using assms by (intro split_less_iff) simp_all
  then show ?thesis using i by (simp add: stream_wtell_def)
qed

lemma wstate_eqI:
  fixes a b :: "('w::len) bitstream"
  assumes a: "winv a" and b: "winv b" and e: "end_ptr a = end_ptr b"
    and t: "stream_wtell a = stream_wtell b"
    and c: "\<And>i. i < stream_wtell a \<Longrightarrow> wbit a i = wbit b i"
    and m: "\<And>j. ptr a \<le> j \<Longrightarrow> mem a j = mem b j"
  shows "a = b"
proof -
  let ?W = "LENGTH('w)"
  have ba: "bits a < ?W" and bb: "bits b < ?W" using a b by (auto simp: winv_def)
  have "ptr a = stream_wtell a div ?W" "ptr b = stream_wtell b div ?W"
    "bits a = stream_wtell a mod ?W" "bits b = stream_wtell b mod ?W"
    using ba bb by (simp_all add: stream_wtell_def)
  with t have p: "ptr a = ptr b" and n: "bits a = bits b" by simp_all
  have w: "bit (((mem a)(ptr a := buffer a)) j) i = bit (((mem b)(ptr a := buffer b)) j) i"
    if "j < ptr a \<or> j = ptr a \<and> i < bits a" "i < ?W" for i j
    using c [of "j * ?W + i"] that p by (auto simp: less_wtell_iff [OF ba] wbit_def)
  have "buffer a = buffer b"
  proof (rule bit_word_eqI)
    fix i assume "i < ?W"
    then show "bit (buffer a) i = bit (buffer b) i"
      using w [of "ptr a" i] winv_buffer [OF a, of i] winv_buffer [OF b, of i] n by auto
  qed
  moreover have "mem a = mem b"
  proof
    fix j show "mem a j = mem b j"
    proof (cases "j < ptr a")
      case True
      then show ?thesis using w [of j] by (intro bit_word_eqI) auto
    qed (use m in auto)
  qed
  ultimately show ?thesis using p n e by (cases a; cases b) simp
qed

lemma write_bit_step:
  fixes s :: "('w::len) bitstream" and b :: bool
  assumes w: "winv s"
  defines "s' \<equiv> stream_write_bit s b"
  shows "winv s'" "stream_wtell s' = stream_wtell s + 1" "end_ptr s' = end_ptr s"
    and "\<And>i. i < stream_wtell s \<Longrightarrow> wbit s' i = wbit s i"
    and "wbit s' (stream_wtell s) = b"
    and "\<And>j. ptr s' \<le> j \<Longrightarrow> mem s' j = mem s j"
    and "\<And>j. j < ptr s \<Longrightarrow> mem s' j = mem s j"
    and "ptr s \<le> ptr s'"
proof -
  let ?W = "LENGTH('w)"
  let ?v = "buffer s + push_bit (bits s) (of_bool b) :: 'w word"
  have b: "bits s < ?W" using w by (simp add: winv_def)
  have v: "?v = buffer s OR push_bit (bits s) (of_bool b)"
    by (rule disjoint_add_or) (auto simp: word_bits dest: winv_buffer [OF w])
  have vb: "bit ?v i = (if i < bits s then bit (buffer s) i else i = bits s \<and> b)" for i
    using b by (auto simp: v word_bits bit_of_bool_iff dest: winv_buffer [OF w])
  note defs = s'_def stream_write_bit_def Let_def stream_write_word_def
  show "winv s'"
    using b by (auto simp: winv_def defs vb bit_take_bit_iff bit_word_eq_iff)
  show "stream_wtell s' = stream_wtell s + 1" "end_ptr s' = end_ptr s" "ptr s \<le> ptr s'"
    using b by (auto simp: defs stream_wtell_def)
  show "ptr s' \<le> j \<Longrightarrow> mem s' j = mem s j" "j < ptr s \<Longrightarrow> mem s' j = mem s j" for j
    by (auto simp: defs split: if_splits)
  show "i < stream_wtell s \<Longrightarrow> wbit s' i = wbit s i" for i
    by (auto simp: defs less_wtell_iff [OF b] wbit_def vb)
  show "wbit s' (stream_wtell s) = b"
    using b by (auto simp: defs stream_wtell_def wbit_def vb)
qed

lemma wappend_Nil [simp]: "wappend s [] = s"
  and wappend_Cons [simp]: "wappend s (b # bs) = wappend (stream_write_bit s b) bs"
  and wappend_append: "wappend s (bs @ cs) = wappend (wappend s bs) cs"
  by (simp_all add: wappend_def)

lemma wappend_step:
  assumes "winv s"
  shows "winv (wappend s bs) \<and> stream_wtell (wappend s bs) = stream_wtell s + length bs \<and>
    end_ptr (wappend s bs) = end_ptr s \<and> ptr s \<le> ptr (wappend s bs) \<and>
    (\<forall>i < stream_wtell s. wbit (wappend s bs) i = wbit s i) \<and>
    (\<forall>i < length bs. wbit (wappend s bs) (stream_wtell s + i) = bs ! i) \<and>
    (\<forall>j. ptr (wappend s bs) \<le> j \<or> j < ptr s \<longrightarrow> mem (wappend s bs) j = mem s j)"
  using assms
proof (induction bs arbitrary: s)
  case (Cons b bs)
  note st = write_bit_step [OF Cons.prems, where b = b]
  have "wbit (wappend s (b # bs)) (stream_wtell s + i) = (b # bs) ! i" if "i < length (b # bs)" for i
    using Cons.IH [OF st(1)] st that by (cases i) auto
  then show ?case
    using Cons.IH [OF st(1)] st by auto
qed simp

lemma winv_wappend [simp]: "winv s \<Longrightarrow> winv (wappend s bs)"
  and wtell_wappend [simp]: "winv s \<Longrightarrow> stream_wtell (wappend s bs) = stream_wtell s + length bs"
  and end_ptr_wappend [simp]: "winv s \<Longrightarrow> end_ptr (wappend s bs) = end_ptr s"
  and ptr_wappend: "winv s \<Longrightarrow> ptr s \<le> ptr (wappend s bs)"
  and wbit_wappend_old: "winv s \<Longrightarrow> i < stream_wtell s \<Longrightarrow> wbit (wappend s bs) i = wbit s i"
  and wbit_wappend_new:
    "winv s \<Longrightarrow> i < length bs \<Longrightarrow> wbit (wappend s bs) (stream_wtell s + i) = bs ! i"
  and mem_wappend_after: "winv s \<Longrightarrow> ptr (wappend s bs) \<le> j \<Longrightarrow> mem (wappend s bs) j = mem s j"
  and mem_wappend_before: "winv s \<Longrightarrow> j < ptr s \<Longrightarrow> mem (wappend s bs) j = mem s j"
  using wappend_step [of s bs] by auto

lemma written_wappend [simp]: "winv s \<Longrightarrow> written (wappend s bs) = written s @ bs"
proof -
  assume w: "winv s"
  have "map (wbit (wappend s bs)) [stream_wtell s..<stream_wtell s + length bs] = bs"
    by (rule nth_equalityI) (simp_all add: wbit_wappend_new [OF w])
  then show ?thesis
    by (simp add: written_def w upt_add_eq_append [of 0] wbit_wappend_old [OF w])
qed

text \<open>Characterisation of a stream that extends another.\<close>

lemma wappend_eqI:
  assumes w: "winv s" "winv s'" and e: "end_ptr s' = end_ptr s"
    and t: "stream_wtell s' = stream_wtell s + length bs"
    and old: "\<And>i. i < stream_wtell s \<Longrightarrow> wbit s' i = wbit s i"
    and new: "\<And>i. i < length bs \<Longrightarrow> wbit s' (stream_wtell s + i) = bs ! i"
    and m: "\<And>j. ptr s' \<le> j \<Longrightarrow> mem s' j = mem s j"
  shows "s' = wappend s bs"
proof (rule wstate_eqI)
  have tt: "stream_wtell s' = stream_wtell (wappend s bs)" using w t by simp
  show "wbit s' i = wbit (wappend s bs) i" if i: "i < stream_wtell s'" for i
  proof (cases "i < stream_wtell s")
    case False
    then obtain k where k: "i = stream_wtell s + k" by (metis le_Suc_ex not_less)
    with i t have "k < length bs" by simp
    then show ?thesis by (simp add: k new wbit_wappend_new [OF w(1)])
  qed (simp add: old wbit_wappend_old [OF w(1)])
  have "ptr s' = stream_wtell s' div LENGTH('a)"
    "ptr (wappend s bs) = stream_wtell (wappend s bs) div LENGTH('a)"
    using w(2) winv_wappend [OF w(1), of bs] by (simp_all add: stream_wtell_def winv_def)
  then have "ptr s' = ptr (wappend s bs)" using tt by simp
  then show "mem s' j = mem (wappend s bs) j" if "ptr s' \<le> j" for j
    using that m mem_wappend_after [OF w(1)] by auto
qed (use assms in auto)

lemma write_bits_loop_result:
  fixes s :: "('w::len) bitstream" and v :: uint64 and n :: nat
  assumes "LENGTH('w) \<le> bits s" "bits s \<le> LENGTH('w) + n" "n < 64" "LENGTH('w) \<le> 64"
  defines "s' \<equiv> stream_write_bits_loop v n s" and "q \<equiv> bits s div LENGTH('w)"
  shows "bits s' = bits s mod LENGTH('w) \<and> ptr s' = ptr s + q \<and> end_ptr s' = end_ptr s \<and>
    buffer s' = ucast (drop_bit (n - bits s') v) \<and>
    mem s' (ptr s) = buffer s \<and>
    (\<forall>t. 1 \<le> t \<and> t < q \<longrightarrow>
      mem s' (ptr s + t) = ucast (drop_bit (n - (bits s - t * LENGTH('w))) v)) \<and>
    (\<forall>j. j < ptr s \<or> ptr s + q \<le> j \<longrightarrow> mem s' j = mem s j)"
  using assms(1-4) unfolding s'_def q_def
proof (induction "bits s" arbitrary: s rule: less_induct)
  case (less s)
  let ?W = "LENGTH('w)"
  define s3 where "s3 = (stream_write_word (s\<lparr>bits := bits s - ?W\<rparr>) (buffer s))
    \<lparr>buffer := ucast (drop_bit (n - (bits s - ?W)) v)\<rparr>"
  have s3: "bits s3 = bits s - ?W" "ptr s3 = ptr s + 1" "end_ptr s3 = end_ptr s"
    "buffer s3 = ucast (drop_bit (n - (bits s - ?W)) v)" "mem s3 = (mem s)(ptr s := buffer s)"
    by (simp_all add: s3_def stream_write_word_def)
  have eq: "stream_write_bits_loop v n s =
    (if ?W < 64 \<and> ?W \<le> bits s3 then stream_write_bits_loop v n s3 else s3)"
    by (subst stream_write_bits_loop.simps) (simp add: s3_def stream_write_word_def Let_def)
  have dm: "bits s div ?W = Suc (bits s3 div ?W)" "bits s mod ?W = bits s3 mod ?W"
    using less.prems(1) by (simp_all add: s3 le_div_geq le_mod_geq)
  have pos: "bits s3 < bits s" "bits s3 \<le> ?W + n"
    using less.prems by (auto simp: s3)
  show ?case
  proof (cases "?W < 64 \<and> ?W \<le> bits s3")
    case True
    note IH = less.hyps [OF pos(1) conjunct2 [OF True] pos(2) less.prems(3,4)]
    have "mem (stream_write_bits_loop v n s) (ptr s + t) =
        ucast (drop_bit (n - (bits s - t * ?W)) v)" if "1 \<le> t" "t < bits s div ?W" for t
    proof (cases "t = 1")
      case True
      then show ?thesis using IH \<open>?W < 64 \<and> ?W \<le> bits s3\<close> by (simp add: eq s3)
    next
      case False
      then have "1 \<le> t - 1 \<and> t - 1 < bits s3 div ?W" using that dm by auto
      then show ?thesis
        using IH True that by (auto simp: eq s3 diff_mult_distrib dest!: spec [of _ "t - 1"])
    qed
    then show ?thesis using IH True dm by (auto simp: eq s3)
  next
    case False
    have "bits s3 < ?W"
      using False less.prems by (cases "?W < 64") (auto simp: s3)
    then have "bits s3 div ?W = 0" "bits s3 mod ?W = bits s3" by simp_all
    moreover have "stream_write_bits_loop v n s = s3" unfolding eq using False by (rule if_not_P)
    ultimately show ?thesis using dm by (simp add: s3)
  qed
qed

lemma write_buffer_bits:
  fixes s :: "('w::len) bitstream"
  assumes w: "winv s" and len: "LENGTH('w) \<le> 64"
  shows "bit (buffer s + ucast (push_bit (bits s) (v :: uint64))) i \<longleftrightarrow>
    i < LENGTH('w) \<and> (if i < bits s then bit (buffer s) i else bit v (i - bits s))"
proof -
  have "buffer s + ucast (push_bit (bits s) v) = buffer s OR ucast (push_bit (bits s) v)"
    by (rule disjoint_add_or) (auto simp: word_bits dest: winv_buffer [OF w])
  then show ?thesis
    using len by (auto simp: word_bits dest: winv_buffer [OF w] bit_lt_len)
qed

lemma write_bits_fit:
  fixes s :: "('w::len) bitstream" and v :: uint64
  assumes w: "winv s" and n: "bits s + n < LENGTH('w)" and len: "LENGTH('w) \<le> 64"
  shows "stream_write_bits s v n = (drop_bit n v, wappend s (map (bit v) [0..<n]))"
proof -
  let ?W = "LENGTH('w)" and ?b = "bits s"
  define s' where "s' = s\<lparr>bits := ?b + n,
    buffer := (buffer s + ucast (push_bit ?b v)) AND mask (?b + n)\<rparr>"
  have b: "?b < ?W" using n by simp
  have vb: "bit (buffer s') i \<longleftrightarrow>
      i < ?b + n \<and> (if i < ?b then bit (buffer s) i else bit v (i - ?b))" for i
    using n write_buffer_bits [OF w len, of v i]
    by (auto simp: s'_def word_bits possible_bit_def)
  have st: "bits s' = ?b + n" "ptr s' = ptr s" "mem s' = mem s" "end_ptr s' = end_ptr s"
    by (simp_all add: s'_def)
  have "s' = wappend s (map (bit v) [0..<n])"
  proof (rule wappend_eqI [OF w])
    show "winv s'" using n by (auto simp: winv_def st vb bit_take_bit_iff bit_word_eq_iff)
    show "wbit s' i = wbit s i" if "i < stream_wtell s" for i
      using that by (auto simp: less_wtell_iff [OF b] wbit_def st vb)
    show "wbit s' (stream_wtell s + i) = map (bit v) [0..<n] ! i"
      if "i < length (map (bit v) [0..<n])" for i
    proof -
      have "(stream_wtell s + i) div ?W = ptr s" "(stream_wtell s + i) mod ?W = ?b + i"
        using that n by (simp_all add: stream_wtell_def add.assoc)
      then show ?thesis using that by (simp add: wbit_def st vb)
    qed
  qed (simp_all add: st stream_wtell_def)
  then show ?thesis
    using n by (simp add: stream_write_bits_def s'_def Let_def exp_decr_mask)
qed

text \<open>The words a spilling write stores: word \<open>t\<close> after the first holds the bits of \<open>v\<close> from
  \<open>t * wsize - bits\<close> on.\<close>

definition spill_word :: "('w::len) bitstream \<Rightarrow> uint64 \<Rightarrow> nat \<Rightarrow> nat \<Rightarrow> 'w word" where
  "spill_word s v n t =
    ucast (drop_bit (n - 1 - (bits s + n - t * LENGTH('w))) (drop_bit 1 v))"

lemma bit_spill_word:
  fixes s :: "('w::len) bitstream"
  assumes "winv s" "1 \<le> n" "1 \<le> t" "i < LENGTH('w)" "t * LENGTH('w) \<le> bits s + n"
  shows "bit (spill_word s v n t) i \<longleftrightarrow> bit v (t * LENGTH('w) + i - bits s)"
proof -
  let ?W = "LENGTH('w)"
  have "?W \<le> t * ?W" "bits s < ?W" using assms by (simp_all add: winv_def)
  then have "1 + (n - 1 - (bits s + n - t * ?W) + i) = t * ?W + i - bits s"
    using assms by linarith
  moreover have "bit (spill_word s v n t) i =
      bit v (1 + (n - 1 - (bits s + n - t * ?W) + i))"
    using assms(4) unfolding spill_word_def by (simp only: word_bits o_apply simp_thms)
  ultimately show ?thesis by (simp only:)
qed

lemma write_bits_spill_state:
  fixes s :: "('w::len) bitstream" and v :: uint64
  assumes w: "winv s" and spill: "LENGTH('w) \<le> bits s + n" and n: "n \<le> 64"
    and len: "LENGTH('w) \<le> 64"
  defines "q \<equiv> (bits s + n) div LENGTH('w)" and "r \<equiv> (bits s + n) mod LENGTH('w)"
  obtains s' where "stream_write_bits s v n = (drop_bit n v, s')"
    and "bits s' = r" "ptr s' = ptr s + q" "end_ptr s' = end_ptr s"
    and "buffer s' = spill_word s v n q AND mask r"
    and "mem s' (ptr s) = buffer s + ucast (push_bit (bits s) v)"
    and "\<And>t. 1 \<le> t \<Longrightarrow> t < q \<Longrightarrow> mem s' (ptr s + t) = spill_word s v n t"
    and "\<And>j. j < ptr s \<or> ptr s + q \<le> j \<Longrightarrow> mem s' j = mem s j"
proof -
  let ?W = "LENGTH('w)"
  define s1 where "s1 = s\<lparr>buffer := buffer s + ucast (push_bit (bits s) v), bits := bits s + n\<rparr>"
  define s2 where "s2 = stream_write_bits_loop (drop_bit 1 v) (n - 1) s1"
  define s' where "s' = s2\<lparr>buffer := buffer s2 AND (push_bit (bits s2) 1 - 1)\<rparr>"
  have b: "bits s < ?W" and n1: "1 \<le> n" using w spill by (auto simp: winv_def)
  have "bits s2 = r \<and> ptr s2 = ptr s1 + q \<and> end_ptr s2 = end_ptr s1 \<and>
      buffer s2 = ucast (drop_bit (n - 1 - bits s2) (drop_bit 1 v)) \<and>
      mem s2 (ptr s1) = buffer s1 \<and>
      (\<forall>t. 1 \<le> t \<and> t < q \<longrightarrow> mem s2 (ptr s1 + t) =
         ucast (drop_bit (n - 1 - (bits s1 - t * ?W)) (drop_bit 1 v))) \<and>
      (\<forall>j. j < ptr s1 \<or> ptr s1 + q \<le> j \<longrightarrow> mem s2 j = mem s1 j)"
    using write_bits_loop_result [of s1 "n - 1" "drop_bit 1 v"] spill b n n1 len
    by (simp add: s2_def s1_def q_def r_def)
  moreover have "bits s + n - q * ?W = r"
    by (simp add: q_def r_def minus_div_mult_eq_mod)
  moreover have "stream_write_bits s v n = (drop_bit n v, s')"
    using spill n1 by (simp add: stream_write_bits_def s'_def s2_def s1_def Let_def)
  ultimately show ?thesis
    by (intro that [of s']) (auto simp: s'_def s1_def spill_word_def exp_decr_mask)
qed

lemma write_bits_spill:
  fixes s :: "('w::len) bitstream" and v :: uint64
  assumes w: "winv s" and spill: "LENGTH('w) \<le> bits s + n" and n: "n \<le> 64"
    and len: "LENGTH('w) \<le> 64"
  shows "stream_write_bits s v n = (drop_bit n v, wappend s (map (bit v) [0..<n]))"
proof -
  let ?W = "LENGTH('w)"
  define q where "q = (bits s + n) div ?W"
  define r where "r = (bits s + n) mod ?W"
  obtain s' where eq: "stream_write_bits s v n = (drop_bit n v, s')"
    and st: "bits s' = r" "ptr s' = ptr s + q" "end_ptr s' = end_ptr s"
      "buffer s' = spill_word s v n q AND mask r"
    and m0: "mem s' (ptr s) = buffer s + ucast (push_bit (bits s) v)"
    and mt: "\<And>t. 1 \<le> t \<Longrightarrow> t < q \<Longrightarrow> mem s' (ptr s + t) = spill_word s v n t"
    and mj: "\<And>j. j < ptr s \<or> ptr s + q \<le> j \<Longrightarrow> mem s' j = mem s j"
    using write_bits_spill_state [OF assms] unfolding q_def r_def by blast
  have b: "bits s < ?W" and n1: "1 \<le> n" using w spill by (auto simp: winv_def)
  have q1: "1 \<le> q" using spill by (simp add: q_def div_greater_zero_iff Suc_le_eq)
  have qr: "bits s + n = q * ?W + r" "r < ?W" by (simp_all add: q_def r_def)
  note b0 = write_buffer_bits [OF w len, of v]
  have vb: "bit (buffer s') i \<longleftrightarrow> i < r \<and> bit v (q * ?W + i - bits s)" for i
    using qr q1 bit_spill_word [OF w n1, of q i v]
    by (auto simp: st(4) word_bits possible_bit_def)
  have "s' = wappend s (map (bit v) [0..<n])"
  proof (rule wappend_eqI [OF w])
    show "winv s'" using qr by (auto simp: winv_def st(1) vb bit_take_bit_iff bit_word_eq_iff)
    show "stream_wtell s' = stream_wtell s + length (map (bit v) [0..<n])"
      using qr by (simp add: stream_wtell_def st(1,2) algebra_simps)
    show "wbit s' i = wbit s i" if "i < stream_wtell s" for i
      using that q1 b by (auto simp: less_wtell_iff wbit_def st(1,2) m0 mj b0)
    show "mem s' j = mem s j" if "ptr s' \<le> j" for j using that by (simp add: st mj)
    fix i assume "i < length (map (bit v) [0..<n])"
    then have i: "i < n" by simp
    define t where "t = (bits s + i) div ?W"
    define p where "p = (bits s + i) mod ?W"
    have tp: "bits s + i = t * ?W + p" "p < ?W" by (simp_all add: t_def p_def)
    have tq: "t < q \<or> t = q \<and> p < r"
      using i tp qr split_less_iff [OF tp(2) qr(2), of t q] by simp
    have idx: "(stream_wtell s + i) div ?W = ptr s + t" "(stream_wtell s + i) mod ?W = p"
      using tp by (simp_all add: stream_wtell_def add.assoc)
    have tW: "t * ?W \<le> bits s + n" "t * ?W + p - bits s = i" using tp i by linarith+
    show "wbit s' (stream_wtell s + i) = map (bit v) [0..<n] ! i"
    proof (cases "t = 0")
      case True
      then show ?thesis using q1 i tp by (auto simp: wbit_def idx st(2) m0 b0)
    next
      case False
      then show ?thesis
        using tq i tp tW vb [of p] bit_spill_word [OF w n1, of t p v] mt [of t]
        by (auto simp: wbit_def idx st(2))
    qed
  qed (simp_all add: st)
  with eq show ?thesis by simp
qed

text \<open>Writing \<open>n\<close> bits at once is writing them one at a time, least significant bit first, and
  the bits of the value that were not written are returned.\<close>

lemma stream_write_bits_eq:
  fixes s :: "('w::len) bitstream"
  assumes "winv s" "n \<le> 64" "LENGTH('w) \<le> 64"
  shows "stream_write_bits s v n = (drop_bit n v, wappend s (map (bit v) [0..<n]))"
  using write_bits_fit [of s n v] write_bits_spill [of s n v] assms
  by (cases "bits s + n < LENGTH('w)") auto

text \<open>Padding.\<close>

lemma wappend_zeros_fit:
  fixes s :: "('w::len) bitstream"
  assumes "winv s" "bits s + n < LENGTH('w)"
  shows "wappend s (replicate n False) = s\<lparr>bits := bits s + n\<rparr>"
  using assms
proof (induction n arbitrary: s)
  case (Suc n)
  have "stream_write_bit s False = s\<lparr>bits := bits s + 1\<rparr>"
    using Suc.prems by (simp add: stream_write_bit_def Let_def)
  moreover have "winv (s\<lparr>bits := bits s + 1\<rparr>)"
    using Suc.prems write_bit_step(1) [of s False] by (simp add: calculation)
  ultimately show ?case using Suc by simp
qed simp

lemma wappend_zeros_fill:
  fixes s :: "('w::len) bitstream"
  assumes w: "winv s"
  shows "wappend s (replicate (LENGTH('w) - bits s) False) =
    (stream_write_word s (buffer s))\<lparr>buffer := 0, bits := 0\<rparr>"
proof -
  let ?W = "LENGTH('w)"
  have b: "bits s < ?W" using w by (simp add: winv_def)
  define m where "m = ?W - bits s - 1"
  have m: "?W - bits s = Suc m" "bits s + m < ?W" "Suc (bits s + m) = ?W" using b by (auto simp: m_def)
  have "wappend s (replicate (Suc m) False) = stream_write_bit (wappend s (replicate m False)) False"
    by (simp add: wappend_def replicate_append_same [symmetric])
  then show ?thesis
    using wappend_zeros_fit [OF w m(2)] m by (simp add: stream_write_bit_def Let_def stream_write_word_def)
qed

lemma stream_pad_loop_bits:
  "stream_pad_loop nb (s\<lparr>bits := x\<rparr>) = (case stream_pad_loop nb s of (nb', s') \<Rightarrow> (nb', s'\<lparr>bits := x\<rparr>))"
proof (induction nb s rule: stream_pad_loop.induct)
  case (1 nb s)
  have "(stream_write_word (s\<lparr>bits := x\<rparr>) (buffer (s\<lparr>bits := x\<rparr>)))\<lparr>buffer := 0\<rparr> =
    ((stream_write_word s (buffer s))\<lparr>buffer := 0\<rparr>)\<lparr>bits := x\<rparr>"
    by (simp add: stream_write_word_def)
  with 1 show ?case
    by (subst (1 2) stream_pad_loop.simps) simp
qed

lemma stream_pad_loop_eq:
  fixes s :: "('w::len) bitstream"
  assumes "winv s"
  shows "(case stream_pad_loop (bits s + n) s of (nb, s') \<Rightarrow> s'\<lparr>bits := nb\<rparr>) =
    wappend s (replicate n False)"
  using assms
proof (induction n arbitrary: s rule: less_induct)
  case (less n)
  let ?W = "LENGTH('w)"
  have b: "bits s < ?W" using less.prems by (simp add: winv_def)
  show ?case
  proof (cases "?W \<le> bits s + n")
    case False
    then show ?thesis using less.prems
      by (subst stream_pad_loop.simps) (simp add: wappend_zeros_fit)
  next
    case True
    define k where "k = ?W - bits s"
    define s1 where "s1 = (stream_write_word s (buffer s))\<lparr>buffer := 0, bits := 0\<rparr>"
    have k: "0 < k" "n = k + (n - k)" "bits s + n - ?W = n - k" "n - k < n"
      using True b by (auto simp: k_def)
    have w1: "winv s1" using b by (simp add: s1_def winv_def stream_write_word_def)
    have fill: "wappend s (replicate k False) = s1"
      using wappend_zeros_fill [OF less.prems] by (simp add: k_def s1_def)
    have "wappend s (replicate n False) = wappend s1 (replicate (n - k) False)"
      by (subst k(2)) (simp add: replicate_add wappend_append fill)
    moreover have "(case stream_pad_loop (bits s1 + (n - k)) s1 of (nb, s') \<Rightarrow> s'\<lparr>bits := nb\<rparr>) =
        wappend s1 (replicate (n - k) False)"
      by (rule less.IH [OF k(4) w1])
    moreover have "(case stream_pad_loop (n - k) ((stream_write_word s (buffer s))\<lparr>buffer := 0\<rparr>)
        of (nb, s') \<Rightarrow> s'\<lparr>bits := nb\<rparr>) = (case stream_pad_loop (n - k) s1 of (nb, s') \<Rightarrow> s'\<lparr>bits := nb\<rparr>)"
      by (simp add: s1_def stream_pad_loop_bits case_prod_unfold)
    ultimately show ?thesis
      using True by (subst stream_pad_loop.simps) (simp add: k(3) s1_def)
  qed
qed

lemma stream_pad_eq: "winv s \<Longrightarrow> stream_pad s n = wappend s (replicate n False)"
  using stream_pad_loop_eq [of s n] by (simp add: stream_pad_def case_prod_unfold)

lemma stream_flush_eq:
  fixes s :: "('w::len) bitstream"
  assumes "winv s"
  shows "snd (stream_flush s) = wappend s (replicate ((LENGTH('w) - bits s) mod LENGTH('w)) False)"
  using assms by (simp add: stream_flush_def Let_def stream_pad_eq)

lemma stream_flush_bits:
  fixes s :: "('w::len) bitstream"
  assumes w: "winv s"
  shows "bits (snd (stream_flush s)) = 0"
proof -
  let ?W = "LENGTH('w)" and ?f = "snd (stream_flush s)"
  have b: "bits s < ?W" using w by (simp add: winv_def)
  have "stream_wtell ?f = ptr s * ?W + (bits s + (?W - bits s) mod ?W)"
    using w by (simp add: stream_flush_eq) (simp add: stream_wtell_def)
  moreover have "(bits s + (?W - bits s) mod ?W) mod ?W = 0"
    using b by (simp add: mod_simps)
  ultimately have "stream_wtell ?f mod ?W = 0" by simp
  moreover have "bits ?f < ?W" using w by (simp add: stream_flush_eq winv_def [symmetric] winv_wappend [unfolded winv_def, THEN conjunct1])
  ultimately show ?thesis by (simp add: stream_wtell_def)
qed

section \<open>The read state: a position on a tape\<close>

text \<open>A stream in read state is determined by its memory and its position: it is what
  \<open>stream_rseek\<close> makes of that position.\<close>

definition tape :: "('w::len) bitstream \<Rightarrow> nat \<Rightarrow> bool" where
  "tape s i = bit (mem s (i div LENGTH('w))) (i mod LENGTH('w))"

definition rinv :: "('w::len) bitstream \<Rightarrow> bool" where
  "rinv s \<longleftrightarrow> stream_rseek s (stream_rtell s) = s"

lemma rseek_back:
  fixes s :: "('w::len) bitstream"
  assumes "c < LENGTH('w)" "c \<le> q * LENGTH('w)"
  shows "stream_rseek s (q * LENGTH('w) - c) = s\<lparr>ptr := q, bits := c,
    buffer := (if c = 0 then 0 else drop_bit (LENGTH('w) - c) (mem s (q - 1)))\<rparr>"
proof (cases "c = 0")
  case False
  then obtain q' where q: "q = Suc q'" using assms by (cases q) auto
  let ?W = "LENGTH('w)"
  have e: "q * ?W - c = q' * ?W + (?W - c)" using assms q by simp
  have "(q * ?W - c) mod ?W = ?W - c" "(q * ?W - c) div ?W = q'"
    using assms False unfolding e by (intro mod_word div_word; simp)+
  then show ?thesis
    using assms False q by (simp add: stream_rseek_def stream_read_word_def Let_def)
qed (simp add: stream_rseek_def)

lemma rtell_rseek [simp]: "stream_rtell (stream_rseek s p) = p"
proof -
  have "Suc (p div LENGTH('a)) * LENGTH('a) - (LENGTH('a) - p mod LENGTH('a)) = p"
    using mod_less_divisor [OF len_gt_0 [where 'a = 'a], of p] div_mult_mod_eq [of p "LENGTH('a)"]
    by simp
  then show ?thesis
    by (auto simp: stream_rseek_def stream_read_word_def stream_rtell_def Let_def)
qed

lemma rseek_rseek [simp]: "stream_rseek (stream_rseek s a) b = stream_rseek s b"
  and mem_rseek [simp]: "mem (stream_rseek s a) = mem s"
  and end_ptr_rseek [simp]: "end_ptr (stream_rseek s a) = end_ptr s"
  by (simp_all add: stream_rseek_def stream_read_word_def Let_def)

lemma tape_rseek [simp]: "tape (stream_rseek s a) = tape s"
  by (simp add: tape_def fun_eq_iff)

lemma rinv_rseek [simp]: "rinv (stream_rseek s p)"
  by (simp add: rinv_def)

lemma rinvE:
  fixes s :: "('w::len) bitstream"
  assumes "rinv s"
  shows "bits s < LENGTH('w)" "bits s \<le> ptr s * LENGTH('w)"
    "buffer s = (if bits s = 0 then 0 else drop_bit (LENGTH('w) - bits s) (mem s (ptr s - 1)))"
proof -
  let ?W = "LENGTH('w)" and ?p = "stream_rtell s"
  have s: "stream_rseek s ?p = s" using assms by (simp add: rinv_def)
  have "bits (stream_rseek s ?p) < ?W \<and>
    bits (stream_rseek s ?p) \<le> ptr (stream_rseek s ?p) * ?W \<and>
    buffer (stream_rseek s ?p) = (if bits (stream_rseek s ?p) = 0 then 0
      else drop_bit (?W - bits (stream_rseek s ?p)) (mem s (ptr (stream_rseek s ?p) - 1)))"
    using mod_less_divisor [OF len_gt_0 [where 'a = 'w], of ?p]
    by (auto simp: stream_rseek_def stream_read_word_def Let_def)
  then show "bits s < ?W" "bits s \<le> ptr s * ?W"
    "buffer s = (if bits s = 0 then 0 else drop_bit (?W - bits s) (mem s (ptr s - 1)))"
    unfolding s by blast+
qed

lemma rinv_buffer_tape:
  fixes s :: "('a::len) bitstream"
  assumes r: "rinv s" and i: "i < bits s"
  shows "bit (buffer s) i = tape s (stream_rtell s + i)"
proof -
  let ?W = "LENGTH('a)"
  note e = rinvE [OF r]
  obtain q where q: "ptr s = Suc q" using e(2) i by (cases "ptr s") auto
  have "stream_rtell s + i = q * ?W + (?W - bits s + i)"
    using e(1) q i by (simp add: stream_rtell_def)
  then have "(stream_rtell s + i) div ?W = q" "(stream_rtell s + i) mod ?W = ?W - bits s + i"
    using e(1) i mod_word [of "?W - bits s + i" ?W q] div_word [of "?W - bits s + i" ?W q]
    by (simp_all only: split: nat_diff_split)
  then show ?thesis using e i q by (simp add: tape_def bit_drop_bit_eq)
qed

lemma rtell_word_tape:
  fixes s :: "('a::len) bitstream"
  assumes r: "rinv s" and i: "bits s \<le> i"
  shows "tape s (stream_rtell s + i) =
    bit (mem s (ptr s + (i - bits s) div LENGTH('a))) ((i - bits s) mod LENGTH('a))"
proof -
  have "stream_rtell s + i = ptr s * LENGTH('a) + (i - bits s)"
    using rinvE(2) [OF r] i by (simp add: stream_rtell_def)
  then show ?thesis by (simp add: tape_def)
qed

lemma rinv_buffer_len: "rinv s \<Longrightarrow> bit (buffer s) i \<Longrightarrow> i < bits s"
  using rinvE [of s] by (auto simp: bit_drop_bit_eq dest!: bit_lt_len split: if_splits)

lemma rseek_within:
  fixes s :: "('w::len) bitstream"
  assumes r: "rinv s" and n: "n \<le> bits s"
  shows "stream_rseek s (stream_rtell s + n) =
    s\<lparr>bits := bits s - n, buffer := drop_bit n (buffer s)\<rparr>"
proof -
  let ?W = "LENGTH('w)"
  note e = rinvE [OF r]
  have t: "stream_rtell s + n = ptr s * ?W - (bits s - n)"
    using n e by (simp add: stream_rtell_def)
  have "drop_bit n (buffer s) = 0" if "bits s = n"
    using that by (auto intro!: bit_word_eqI simp: bit_drop_bit_eq dest: rinv_buffer_len [OF r])
  moreover have "drop_bit (?W - (bits s - n)) (mem s (ptr s - 1)) = drop_bit n (buffer s)" if "n < bits s"
  proof -
    have "?W - (bits s - n) = n + (?W - bits s)" using that e(1) by linarith
    then show ?thesis using that e(3) by simp
  qed
  ultimately show ?thesis
    unfolding t using e(1,2) n by (subst rseek_back) auto
qed

lemma stream_read_bit_eq:
  fixes s :: "('w::len) bitstream"
  assumes r: "rinv s"
  shows "stream_read_bit s = (tape s (stream_rtell s), stream_rseek s (stream_rtell s + 1))"
proof (cases "bits s = 0")
  case True
  let ?W = "LENGTH('w)"
  have t: "stream_rtell s + 1 = Suc (ptr s) * ?W - (?W - 1)"
    using True len_gt_0 [where 'a = 'w] by (simp add: stream_rtell_def del: len_gt_0)
  have "stream_rseek s (stream_rtell s + 1) = s\<lparr>ptr := Suc (ptr s), bits := ?W - 1,
    buffer := (if ?W - 1 = 0 then 0 else drop_bit (?W - (?W - 1)) (mem s (ptr s)))\<rparr>"
    unfolding t by (subst rseek_back) simp_all
  moreover have "?W - (?W - 1) = 1" using len_gt_0 [where 'a = 'w] by linarith
  moreover have "drop_bit 1 (mem s (ptr s)) = 0" if "?W = 1"
    using that by (auto intro!: bit_word_eqI simp: bit_drop_bit_eq dest: bit_lt_len)
  ultimately show ?thesis
    using True rtell_word_tape [OF r, of 0]
    by (auto simp: stream_read_bit_def stream_read_word_def Let_def bit_0)
next
  case False
  then show ?thesis
    using rinv_buffer_tape [OF r, of 0] rseek_within [OF r, of 1]
    by (simp add: stream_read_bit_def Let_def bit_0)
qed

lemma read_bits_loop_result:
  fixes s :: "('w::len) bitstream" and v :: uint64
  assumes "bits s < n" "n \<le> 64" "LENGTH('w) \<le> 64" "\<And>i. bit v i \<Longrightarrow> i < bits s"
  shows "\<exists>k v' s'. stream_read_bits_loop n v s = (v', s') \<and> 1 \<le> k \<and>
    bits s' = bits s + k * LENGTH('w) \<and> n \<le> bits s' \<and> bits s' < n + LENGTH('w) \<and>
    s' = s\<lparr>bits := bits s', ptr := ptr s + k, buffer := mem s (ptr s + (k - 1))\<rparr> \<and>
    (\<forall>i < 64. bit v' i = (if i < bits s then bit v i else i < bits s' \<and>
       bit (mem s (ptr s + (i - bits s) div LENGTH('w))) ((i - bits s) mod LENGTH('w))))"
  using assms
proof (induction "n - bits s" arbitrary: s v rule: less_induct)
  case less
  let ?W = "LENGTH('w)"
  define s2 where "s2 = s\<lparr>ptr := ptr s + 1, buffer := mem s (ptr s), bits := bits s + ?W\<rparr>"
  define v2 where "v2 = v + push_bit (bits s) (ucast (mem s (ptr s)))"
  have "v2 = v OR push_bit (bits s) (ucast (mem s (ptr s)))" unfolding v2_def
    by (rule disjoint_add_or) (auto simp: word_bits dest: less.prems(4))
  then have v2: "bit v2 i = (if i < bits s then bit v i
      else i < bits s + ?W \<and> bit (mem s (ptr s)) (i - bits s))" if "i < 64" for i
    using that less.prems(3) by (auto simp: word_bits dest: less.prems(4) bit_lt_len)
  have eq: "stream_read_bits_loop n v s =
    (if ?W < 64 \<and> bits s + ?W < n then stream_read_bits_loop n v2 s2 else (v2, s2))"
    by (subst stream_read_bits_loop.simps)
       (simp add: stream_read_word_def Let_def s2_def v2_def)
  show ?case
  proof (cases "?W < 64 \<and> bits s + ?W < n")
    case False
    then have "n \<le> bits s2" "bits s2 < n + ?W" using less.prems by (auto simp: s2_def)
    moreover have "bit v2 i = (if i < bits s then bit v i else i < bits s2 \<and>
       bit (mem s (ptr s + (i - bits s) div ?W)) ((i - bits s) mod ?W))" if "i < 64" for i
      using v2 [OF that] by (auto simp: s2_def)
    moreover have "stream_read_bits_loop n v s = (v2, s2)" using False eq by (simp only: if_False)
    ultimately show ?thesis
      by (intro exI [of _ 1] exI [of _ v2] exI [of _ s2]) (auto simp: s2_def)
  next
    case True
    have "n - bits s2 < n - bits s" "bits s2 < n" using True by (auto simp: s2_def)
    moreover have "i < bits s2" if "bit v2 i" for i
      using that v2 [of i] less.prems(4) [of i] by (auto simp: s2_def dest: bit_lt_len split: if_splits)
    ultimately obtain k v' s' where IH: "stream_read_bits_loop n v2 s2 = (v', s')" "1 \<le> k"
      "bits s' = bits s2 + k * ?W" "n \<le> bits s'" "bits s' < n + ?W"
      "s' = s2\<lparr>bits := bits s', ptr := ptr s2 + k, buffer := mem s2 (ptr s2 + (k - 1))\<rparr>"
      "\<forall>i < 64. bit v' i = (if i < bits s2 then bit v2 i else i < bits s' \<and>
       bit (mem s2 (ptr s2 + (i - bits s2) div ?W)) ((i - bits s2) mod ?W))"
      using less.hyps [of s2 v2] less.prems(2,3) by blast
    have "bit v' i = (if i < bits s then bit v i else i < bits s' \<and>
       bit (mem s (ptr s + (i - bits s) div ?W)) ((i - bits s) mod ?W))" if i: "i < 64" for i
    proof (cases "i < bits s2")
      case True
      then have "i < bits s'" "i \<ge> bits s \<Longrightarrow> i - bits s < ?W"
        using IH(3) by (auto simp: s2_def)
      then show ?thesis using True IH(7) i v2 [OF i] by (auto simp: s2_def)
    next
      case False
      then have "i - bits s = ?W + (i - bits s2)" by (simp add: s2_def)
      then have "(i - bits s) div ?W = Suc ((i - bits s2) div ?W)"
        "(i - bits s) mod ?W = (i - bits s2) mod ?W"
        by (simp_all only: div_add_self1 [OF len_not_eq_0] mod_add_self1 Suc_eq_plus1)
      moreover have "\<not> i < bits s" using False by (simp add: s2_def)
      moreover have "mem s2 = mem s" "ptr s2 = Suc (ptr s)" by (simp_all add: s2_def)
      ultimately show ?thesis using False IH(7) i by simp
    qed
    moreover have "stream_read_bits_loop n v s = (v', s')" using True eq IH(1) by simp
    moreover have "bits s' = bits s + Suc k * ?W" using IH(3) by (simp add: s2_def)
    moreover have "s' = s\<lparr>bits := bits s', ptr := ptr s + Suc k, buffer := mem s (ptr s + (Suc k - 1))\<rparr>"
      using IH(2) by (subst IH(6)) (simp add: s2_def)
    ultimately show ?thesis using IH(2,4,5)
      by (intro exI [of _ "Suc k"] exI [of _ v'] exI [of _ s']) auto
  qed
qed

lemma stream_read_bits_eq:
  fixes s :: "('w::len) bitstream"
  assumes r: "rinv s" and n: "n \<le> 64" and len: "LENGTH('w) \<le> 64"
  shows "snd (stream_read_bits s n) = stream_rseek s (stream_rtell s + n)"
    and "bit (fst (stream_read_bits s n)) i \<longleftrightarrow> i < n \<and> tape s (stream_rtell s + i)"
proof -
  let ?W = "LENGTH('w)"
  note e = rinvE [OF r]
  have vb: "bit (ucast (buffer s) :: uint64) i \<longleftrightarrow> i < bits s \<and> tape s (stream_rtell s + i)" for i
    using len rinv_buffer_tape [OF r, of i] e(1)
    by (auto simp: word_bits dest: rinv_buffer_len [OF r])
  have "snd (stream_read_bits s n) = stream_rseek s (stream_rtell s + n) \<and>
    (\<forall>i. bit (fst (stream_read_bits s n)) i \<longleftrightarrow> i < n \<and> tape s (stream_rtell s + i))"
  proof (cases "bits s < n")
    case False
    then have "stream_rseek s (stream_rtell s + n) =
        s\<lparr>bits := bits s - n, buffer := drop_bit n (buffer s)\<rparr>"
      by (simp add: rseek_within [OF r])
    moreover have "bit ((ucast (buffer s) :: uint64) AND mask n) i \<longleftrightarrow>
        i < n \<and> tape s (stream_rtell s + i)" for i
      using False vb [of i] n by (auto simp: bit_and_iff bit_mask_iff possible_bit_def)
    ultimately show ?thesis
      using False by (simp add: stream_read_bits_def exp_decr_mask)
  next
    case True
    obtain k v' s' where L: "stream_read_bits_loop n (ucast (buffer s)) s = (v', s')" "1 \<le> k"
      "bits s' = bits s + k * ?W" "n \<le> bits s'" "bits s' < n + ?W"
      "s' = s\<lparr>bits := bits s', ptr := ptr s + k, buffer := mem s (ptr s + (k - 1))\<rparr>"
      "\<forall>i < 64. bit v' i = (if i < bits s then bit (ucast (buffer s) :: uint64) i else i < bits s' \<and>
       bit (mem s (ptr s + (i - bits s) div ?W)) ((i - bits s) mod ?W))"
      using read_bits_loop_result [OF True n len, of "ucast (buffer s)"] vb by blast
    have v': "bit v' i \<longleftrightarrow> i < 64 \<and> i < bits s' \<and> tape s (stream_rtell s + i)" for i
      using L(3) L(7) vb [of i] rtell_word_tape [OF r, of i] bit_lt_len [of v' i]
      by (cases "i < 64") auto
    define c where "c = bits s' - n"
    have t: "stream_rtell s + n = (ptr s + k) * ?W - c"
      using e(2) L(3,4) by (simp add: stream_rtell_def c_def algebra_simps)
    have c: "c < ?W" "c \<le> (ptr s + k) * ?W"
      using L(2-5) e by (auto simp: c_def algebra_simps)
    have "stream_rseek s (stream_rtell s + n) = s'\<lparr>bits := c,
      buffer := (if c = 0 then 0 else drop_bit (?W - c) (buffer s'))\<rparr>"
    proof -
      have "ptr s' = ptr s + k" "buffer s' = mem s (ptr s + (k - 1))" "mem s' = mem s"
        "end_ptr s' = end_ptr s" by (subst L(6); simp)+
      then show ?thesis
        unfolding t rseek_back [OF c] using L(2) by (intro bitstream.equality) simp_all
    qed
    moreover have "bit v' i \<longleftrightarrow> i < n \<and> tape s (stream_rtell s + i)" if "c = 0" for i
      using v' [of i] that L(4) n by (auto simp: c_def)
    moreover have "bit (v' AND (push_bit (n - 1) 2 - 1)) i \<longleftrightarrow> i < n \<and> tape s (stream_rtell s + i)" for i
      using v' [of i] L(4) n True
      by (auto simp: mask_word_shift2 word_bits possible_bit_def)
    ultimately show ?thesis
      using True L(1) by (auto simp: stream_read_bits_def Let_def c_def)
  qed
  then show "snd (stream_read_bits s n) = stream_rseek s (stream_rtell s + n)"
    "bit (fst (stream_read_bits s n)) i \<longleftrightarrow> i < n \<and> tape s (stream_rtell s + i)" by blast+
qed

section \<open>The interfaces the coders rely on\<close>

text \<open>
  A bit sink promises that bits come out in the order they went in, whether they are put one at a
  time, up to 64 at once, or as zero padding. The coders only rely on these laws.
\<close>

locale bit_sink =
  fixes ok :: "'s \<Rightarrow> bool"
    and content :: "'s \<Rightarrow> bool list"
    and put :: "'s \<Rightarrow> bool \<Rightarrow> 's"
    and puts :: "'s \<Rightarrow> uint64 \<Rightarrow> nat \<Rightarrow> uint64 \<times> 's"
    and pad :: "'s \<Rightarrow> nat \<Rightarrow> 's"
  assumes ok_put: "ok s \<Longrightarrow> ok (put s b)"
    and content_put: "ok s \<Longrightarrow> content (put s b) = content s @ [b]"
    and puts_put: "ok s \<Longrightarrow> n \<le> 64 \<Longrightarrow>
      puts s v n = (drop_bit n v, foldl put s (map (bit v) [0..<n]))"
    and pad_put: "ok s \<Longrightarrow> pad s n = foldl put s (replicate n False)"
begin

lemma ok_puts_list: "ok s \<Longrightarrow> ok (foldl put s bs)"
  by (induction bs arbitrary: s) (simp_all add: ok_put)

lemma content_puts_list: "ok s \<Longrightarrow> content (foldl put s bs) = content s @ bs"
  by (induction bs arbitrary: s) (simp_all add: ok_put content_put)

lemma content_puts:
  "ok s \<Longrightarrow> n \<le> 64 \<Longrightarrow> content (snd (puts s v n)) = content s @ map (bit v) [0..<n]"
  by (simp add: puts_put content_puts_list)

lemma content_pad: "ok s \<Longrightarrow> content (pad s n) = content s @ replicate n False"
  by (simp add: pad_put content_puts_list)

lemma ok_pad: "ok s \<Longrightarrow> ok (pad s n)"
  by (simp add: pad_put ok_puts_list)

text \<open>A value written in two pieces, the second starting from the remaining bits, is the value
  written at once.\<close>

lemma puts_split:
  assumes "ok s" "m + n \<le> 64"
  shows "(case puts s v m of (r, s') \<Rightarrow> puts s' r n) = puts s v (m + n)"
proof -
  have "map (bit (drop_bit m v)) [0..<n] = map (bit v) [m..<m + n]"
    by (rule nth_equalityI) (simp_all add: bit_drop_bit_eq)
  moreover have "map (bit v) [0..<m + n] = map (bit v) [0..<m] @ map (bit v) [m..<m + n]"
    by (simp add: upt_add_eq_append [of 0 m n])
  ultimately show ?thesis
    using assms by (simp add: puts_put ok_puts_list drop_bit_drop_bit add.commute)
qed

end

text \<open>
  A bit source is a position before an infinite sequence of bits \<open>peek s 0, peek s 1, ...\<close>;
  getting bits returns the next ones and skips over them.
\<close>

locale bit_source =
  fixes ok :: "'s \<Rightarrow> bool"
    and peek :: "'s \<Rightarrow> nat \<Rightarrow> bool"
    and get :: "'s \<Rightarrow> bool \<times> 's"
    and gets :: "'s \<Rightarrow> nat \<Rightarrow> uint64 \<times> 's"
    and skip :: "'s \<Rightarrow> nat \<Rightarrow> 's"
  assumes ok_skip: "ok s \<Longrightarrow> ok (skip s n)"
    and peek_skip: "ok s \<Longrightarrow> peek (skip s n) i = peek s (n + i)"
    and skip_skip: "ok s \<Longrightarrow> skip (skip s m) n = skip s (m + n)"
    and skip_0: "ok s \<Longrightarrow> skip s 0 = s"
    and get_peek: "ok s \<Longrightarrow> get s = (peek s 0, skip s 1)"
    and gets_skip: "ok s \<Longrightarrow> n \<le> 64 \<Longrightarrow> snd (gets s n) = skip s n"
    and bit_gets: "ok s \<Longrightarrow> n \<le> 64 \<Longrightarrow> bit (fst (gets s n)) i \<longleftrightarrow> i < n \<and> peek s i"
begin

text \<open>Reading \<open>n\<close> bits one at a time.\<close>

lemma get_iterate: "ok s \<Longrightarrow> ((snd \<circ> get) ^^ n) s = skip s n"
proof (induction n arbitrary: s)
  case (Suc n)
  then show ?case by (simp only: funpow_Suc_right o_apply) (simp add: get_peek ok_skip skip_skip)
qed (simp add: skip_0)

lemma gets_get:
  assumes "ok s" "n \<le> 64"
  shows "gets s n = (horner_sum of_bool 2 (map (\<lambda>i. fst (get (((snd \<circ> get) ^^ i) s))) [0..<n]),
    ((snd \<circ> get) ^^ n) s)"
proof (rule prod_eqI)
  have "map (\<lambda>i. fst (get (((snd \<circ> get) ^^ i) s))) [0..<n] = map (peek s) [0..<n]"
    using assms by (simp add: get_iterate get_peek ok_skip peek_skip)
  then show "fst (gets s n) = fst (horner_sum of_bool 2
      (map (\<lambda>i. fst (get (((snd \<circ> get) ^^ i) s))) [0..<n]), ((snd \<circ> get) ^^ n) s)"
    using assms
    by (auto intro!: bit_word_eqI simp: bit_gets bit_horner_sum_bit_word_iff)
qed (use assms in \<open>simp add: gets_skip get_iterate\<close>)

end

text \<open>The bit stream provides both, for word types of at most 64 bits.\<close>

definition sink_ok :: "('w::len) bitstream \<Rightarrow> bool" where
  "sink_ok s \<longleftrightarrow> LENGTH('w) \<le> 64 \<and> winv s"

definition source_ok :: "('w::len) bitstream \<Rightarrow> bool" where
  "source_ok s \<longleftrightarrow> LENGTH('w) \<le> 64 \<and> rinv s"

definition stream_peek :: "('w::len) bitstream \<Rightarrow> nat \<Rightarrow> bool" where
  "stream_peek s i = tape s (stream_rtell s + i)"

interpretation sink: bit_sink sink_ok written stream_write_bit stream_write_bits stream_pad
proof unfold_locales
  fix s :: "'a::len bitstream" and b n v
  assume s: "sink_ok s"
  then have w: "winv s" and len: "LENGTH('a) \<le> 64" by (auto simp: sink_ok_def)
  show "sink_ok (stream_write_bit s b)"
    using write_bit_step(1) [OF w] len by (simp add: sink_ok_def)
  show "written (stream_write_bit s b) = written s @ [b]"
    using written_wappend [OF w, of "[b]"] by simp
  show "stream_pad s n = foldl stream_write_bit s (replicate n False)"
    using stream_pad_eq [OF w] by (simp add: wappend_def)
  show "stream_write_bits s v n =
      (drop_bit n v, foldl stream_write_bit s (map (bit v) [0..<n]))" if "n \<le> 64"
    using stream_write_bits_eq [OF w that len] by (simp add: wappend_def)
qed

lemma rseek_self: "rinv s \<Longrightarrow> stream_rseek s (stream_rtell s) = s"
  by (simp add: rinv_def)

interpretation source: bit_source source_ok stream_peek stream_read_bit stream_read_bits stream_skip
  by unfold_locales
     (auto simp: source_ok_def stream_peek_def stream_skip_def stream_read_bit_eq
        stream_read_bits_eq rseek_self add.assoc)

section \<open>From written bits to bits about to be read\<close>

definition upcoming :: "('w::len) bitstream \<Rightarrow> bool list \<Rightarrow> bool" where
  "upcoming s bs \<longleftrightarrow> (\<forall>i < length bs. stream_peek s i = bs ! i)"

lemma source_ok_skip [simp]: "source_ok s \<Longrightarrow> source_ok (stream_skip s n)"
  by (rule source.ok_skip)

lemma skip_skip [simp]: "source_ok s \<Longrightarrow> stream_skip (stream_skip s m) n = stream_skip s (m + n)"
  by (rule source.skip_skip)

lemma upcoming_Nil [simp]: "upcoming s []"
  by (simp add: upcoming_def)

lemma upcoming_append:
  assumes "source_ok s"
  shows "upcoming s (xs @ ys) \<longleftrightarrow> upcoming s xs \<and> upcoming (stream_skip s (length xs)) ys"
proof -
  have "(\<forall>i < length (xs @ ys). stream_peek s i = (xs @ ys) ! i) \<longleftrightarrow>
    (\<forall>i < length xs. stream_peek s i = xs ! i) \<and>
    (\<forall>i < length ys. stream_peek s (length xs + i) = ys ! i)"
    (is "?L \<longleftrightarrow> ?R")
  proof
    assume L: ?L
    then show ?R by (auto simp: nth_append dest: spec [of _ "length xs + _"])
  next
    assume R: ?R
    show ?L
    proof (intro allI impI)
      fix i assume "i < length (xs @ ys)"
      then show "stream_peek s i = (xs @ ys) ! i"
        using R by (cases "i < length xs") (auto simp: nth_append dest: spec [of _ "i - length xs"])
    qed
  qed
  then show ?thesis by (simp add: upcoming_def source.peek_skip [OF assms])
qed

lemma upcoming_Cons:
  "source_ok s \<Longrightarrow> upcoming s (b # bs) \<longleftrightarrow> stream_peek s 0 = b \<and> upcoming (stream_skip s 1) bs"
  using upcoming_append [of s "[b]" bs] by (simp add: upcoming_def)

text \<open>Reading a bit, or up to 64 bits, that are known to come next.\<close>

lemma upcoming_read_bit:
  "source_ok s \<Longrightarrow> upcoming s (b # bs) \<Longrightarrow> stream_read_bit s = (b, stream_skip s 1)"
  by (simp add: source.get_peek upcoming_Cons)

lemma upcoming_read_bits:
  assumes "source_ok s" "upcoming s bs" "length bs \<le> 64"
  shows "stream_read_bits s (length bs) = (horner_sum of_bool 2 bs, stream_skip s (length bs))"
proof (rule prod_eqI)
  show "fst (stream_read_bits s (length bs)) =
      fst (horner_sum of_bool 2 bs, stream_skip s (length bs))"
    using assms
    by (auto intro!: bit_word_eqI simp: source.bit_gets bit_horner_sum_bit_word_iff upcoming_def)
qed (use assms in \<open>simp add: source.gets_skip\<close>)

lemma of_bits_take_bit: "n \<le> 64 \<Longrightarrow> horner_sum of_bool 2 (map (bit v) [0..<n]) = take_bit n v"
  for v :: uint64
  by (simp add: horner_sum_bit_eq_take_bit)

text \<open>After a flush everything written is in memory, and seeking to an earlier offset for reading
  finds it there.\<close>

lemma wtell_length: "length (written s) = stream_wtell s"
  by (simp add: written_def)

lemma flush_tape:
  fixes s :: "('w::len) bitstream"
  assumes s: "sink_ok s" and i: "i < stream_wtell s"
  shows "tape (snd (stream_flush s)) i = written s ! i"
proof -
  let ?f = "snd (stream_flush s)" and ?W = "LENGTH('w)"
  have w: "winv s" using s by (simp add: sink_ok_def)
  have f: "?f = wappend s (replicate ((?W - bits s) mod ?W) False)"
    by (rule stream_flush_eq [OF w])
  have "i < stream_wtell ?f" using i w by (simp add: f)
  then have "i < ptr ?f * ?W" using stream_flush_bits [OF w] by (simp add: stream_wtell_def)
  then have "i div ?W < ptr ?f" by (simp add: div_less_iff_less_mult)
  then have "tape ?f i = wbit ?f i" by (simp add: tape_def wbit_def)
  also have "\<dots> = wbit s i" using wbit_wappend_old [OF w i] by (simp add: f)
  finally show ?thesis using i by (simp add: written_def)
qed

lemma flush_rseek_upcoming:
  assumes s: "sink_ok s" and p: "p \<le> stream_wtell s"
  shows "source_ok (stream_rseek (snd (stream_flush s)) p)"
    and "upcoming (stream_rseek (snd (stream_flush s)) p) (drop p (written s))"
  using assms flush_tape [OF s]
  by (auto simp: source_ok_def sink_ok_def upcoming_def stream_peek_def wtell_length)

lemma flush_rewind:
  "stream_rewind (snd (stream_flush s)) = stream_rseek (snd (stream_flush s)) 0"
  by (simp add: stream_rewind_def stream_rseek_def)

text \<open>Seeking for writing keeps every bit before the offset.\<close>

lemma stream_wseek_props:
  fixes s :: "('w::len) bitstream"
  shows "winv (stream_wseek s p)" "stream_wtell (stream_wseek s p) = p"
    "mem (stream_wseek s p) = mem s" "end_ptr (stream_wseek s p) = end_ptr s"
    "i < p \<Longrightarrow> wbit (stream_wseek s p) i = tape s i"
proof -
  let ?W = "LENGTH('w)"
  have r: "p mod ?W < ?W" by simp
  show w: "winv (stream_wseek s p)"
    by (auto simp: stream_wseek_def winv_def Let_def exp_decr_mask bit_word_eq_iff word_bits
        possible_bit_def bit_take_bit_iff)
  show t: "stream_wtell (stream_wseek s p) = p" and m: "mem (stream_wseek s p) = mem s"
    and "end_ptr (stream_wseek s p) = end_ptr s"
    by (auto simp: stream_wseek_def stream_wtell_def Let_def)
  show "wbit (stream_wseek s p) i = tape s i" if "i < p"
  proof -
    have "i div ?W < p div ?W \<or> i div ?W = p div ?W \<and> i mod ?W < p mod ?W"
      using that split_less_iff [of "i mod ?W" ?W "p mod ?W" "i div ?W" "p div ?W"] by simp
    then show ?thesis
      by (auto simp: stream_wseek_def wbit_def tape_def Let_def exp_decr_mask word_bits possible_bit_def)
  qed
qed

lemma written_wseek: "written (stream_wseek s p) = map (tape s) [0..<p]"
  by (simp add: written_def stream_wseek_props)

lemma sink_ok_wseek: "LENGTH('w) \<le> 64 \<Longrightarrow> sink_ok (stream_wseek (s :: 'w::len bitstream) p)"
  by (simp add: sink_ok_def stream_wseek_props)

lemma ptr_ceil:
  fixes s :: "('w::len) bitstream"
  assumes "winv s"
  shows "ptr (snd (stream_flush s)) = (stream_wtell s + (LENGTH('w) - 1)) div LENGTH('w)"
proof -
  let ?W = "LENGTH('w)" and ?f = "snd (stream_flush s)"
  have b: "bits s < ?W" using assms by (simp add: winv_def)
  have "stream_wtell ?f = stream_wtell s + (?W - bits s) mod ?W"
    using assms by (simp add: stream_flush_eq)
  then have "ptr ?f * ?W = ptr s * ?W + bits s + (?W - bits s) mod ?W"
    using stream_flush_bits [OF assms] by (simp add: stream_wtell_def)
  also have "\<dots> = (if bits s = 0 then ptr s else Suc (ptr s)) * ?W" using b by auto
  finally have "ptr ?f = (if bits s = 0 then ptr s else Suc (ptr s))" by simp
  moreover have "(ptr s * ?W + bits s + (?W - 1)) div ?W = (if bits s = 0 then ptr s else Suc (ptr s))"
  proof (cases "bits s = 0")
    case True
    then show ?thesis by (simp add: div_word)
  next
    case False
    then have "ptr s * ?W + bits s + (?W - 1) = Suc (ptr s) * ?W + (bits s - 1)" using b by simp
    then show ?thesis using False b div_word [of "bits s - 1" ?W "Suc (ptr s)"] by simp
  qed
  ultimately show ?thesis by (simp add: stream_wtell_def)
qed

lemma stream_copy_eq:
  fixes dst src :: "('w::len) bitstream"
  assumes "sink_ok dst" "source_ok src"
  shows "stream_copy dst src n = (wappend dst (map (stream_peek src) [0..<n]), stream_skip src n)"
  using assms
proof (induction dst src n rule: stream_copy.induct)
  case (1 dst src n)
  let ?W = "LENGTH('w)"
  have len: "?W \<le> 64" and w: "winv dst" using "1.prems" by (auto simp: sink_ok_def)
  have step: "stream_read_bits src m = (v, s') \<Longrightarrow> m \<le> ?W \<Longrightarrow>
     s' = stream_skip src m \<and>
     stream_write_bits dst (ucast (ucast v :: 'w word)) m =
       (drop_bit m (ucast (ucast v :: 'w word)), wappend dst (map (stream_peek src) [0..<m]))" for m v s'
  proof -
    assume rd: "stream_read_bits src m = (v, s')" and m: "m \<le> ?W"
    have "bit (ucast (ucast v :: 'w word) :: uint64) i = stream_peek src i" if "i < m" for i
      using source.bit_gets [OF "1.prems"(2), of m i] rd m len that by (simp add: word_bits)
    then have "map (bit (ucast (ucast v :: 'w word) :: uint64)) [0..<m] = map (stream_peek src) [0..<m]"
      by simp
    then have "stream_write_bits dst (ucast (ucast v :: 'w word)) m =
        (drop_bit m (ucast (ucast v :: 'w word)), wappend dst (map (stream_peek src) [0..<m]))"
      using stream_write_bits_eq [OF w _ len, of m "ucast (ucast v :: 'w word)"] m len
      by (simp only: order_trans)
    then show ?thesis
      using source.gets_skip [OF "1.prems"(2), of m] rd m len by simp
  qed
  show ?case
  proof (cases "?W < n")
    case True
    obtain v s' where rd: "stream_read_bits src ?W = (v, s')" by fastforce
    note st = step [OF rd order_refl]
    have "[0..<n] = [0..<?W] @ [?W..<n]" using True upt_add_eq_append [of 0 ?W "n - ?W"] by simp
    moreover have "map (stream_peek (stream_skip src ?W)) [0..<n - ?W] = map (stream_peek src) [?W..<n]"
      using "1.prems"(2) by (intro nth_equalityI) (simp_all add: source.peek_skip)
    moreover have "stream_copy (wappend dst (map (stream_peek src) [0..<?W])) s' (n - ?W) =
      (wappend (wappend dst (map (stream_peek src) [0..<?W])) (map (stream_peek s') [0..<n - ?W]),
       stream_skip s' (n - ?W))"
      using "1.IH" [OF True rd [symmetric] refl] st w len "1.prems" by (auto simp: sink_ok_def)
    ultimately show ?thesis
      using True st rd "1.prems"(2) by (subst stream_copy.simps) (simp add: wappend_append)
  next
    case False
    obtain v s' where rd: "stream_read_bits src n = (v, s')" by fastforce
    show ?thesis
      using False step [OF rd] rd source.skip_0 [OF "1.prems"(2)]
      by (subst stream_copy.simps) auto
  qed
qed

section \<open>Properties\<close>

text \<open>A sequence of writes, and the sequence of reads that mirrors it.\<close>

fun write_all :: "('w::len) bitstream \<Rightarrow> (uint64 \<times> nat) list \<Rightarrow> 'w bitstream" where
  "write_all s [] = s"
| "write_all s ((v, n) # vs) = write_all (snd (stream_write_bits s v n)) vs"

fun read_all :: "('w::len) bitstream \<Rightarrow> nat list \<Rightarrow> uint64 list" where
  "read_all s [] = []"
| "read_all s (n # ns) = (case stream_read_bits s n of (v, s') \<Rightarrow> v # read_all s' ns)"

definition all_bits :: "(uint64 \<times> nat) list \<Rightarrow> bool list" where
  "all_bits vs = concat (map (\<lambda>(v, n). map (bit v) [0..<n]) vs)"

lemma all_bits_simps [simp]:
  "all_bits [] = []"
  "all_bits ((v, n) # vs) = map (bit v) [0..<n] @ all_bits vs"
  by (simp_all add: all_bits_def)

lemma sink_ok_open: "LENGTH('w) \<le> 64 \<Longrightarrow> sink_ok (stream_open m b :: 'w::len bitstream)"
  and source_ok_open: "LENGTH('w) \<le> 64 \<Longrightarrow> source_ok (stream_open m b :: 'w::len bitstream)"
  by (simp_all add: sink_ok_def source_ok_def winv_def rinv_def stream_open_def stream_rewind_def
      stream_rseek_def stream_rtell_def)

lemma sink_ok_wappend [simp]: "sink_ok s \<Longrightarrow> sink_ok (wappend s bs)"
  by (simp add: sink_ok_def)

lemma write_all_eq:
  "sink_ok s \<Longrightarrow> \<forall>(v, n) \<in> set vs. n \<le> 64 \<Longrightarrow> write_all s vs = wappend s (all_bits vs)"
  by (induction s vs rule: write_all.induct)
     (auto simp: sink.puts_put wappend_def [symmetric] wappend_append sink_ok_def)

lemma read_all_eq:
  "source_ok s \<Longrightarrow> \<forall>(v, n) \<in> set vs. n \<le> 64 \<Longrightarrow> upcoming s (all_bits vs) \<Longrightarrow>
    read_all s (map snd vs) = map (\<lambda>(v, n). take_bit n v) vs"
proof (induction vs arbitrary: s)
  case (Cons x vs)
  obtain v n where x: "x = (v, n)" by fastforce
  have u: "upcoming s (map (bit v) [0..<n])" "upcoming (stream_skip s n) (all_bits vs)"
    using Cons.prems by (simp_all add: x upcoming_append)
  have "stream_read_bits s n = (take_bit n v, stream_skip s n)"
    using upcoming_read_bits [OF Cons.prems(1) u(1)] Cons.prems(2) by (simp add: x of_bits_take_bit)
  then show ?case using Cons.IH [OF _ _ u(2)] Cons.prems by (simp add: x)
qed simp

text \<open>C25: writing up to 64 bits with one call of \<open>stream_write_bits\<close> has exactly the effect of
  writing them one at a time with \<open>stream_write_bit\<close>, least significant bit first, and returns
  the value shifted right by the number of bits written; for every stream word size.\<close>

theorem write_bits_is_bitwise:
  assumes "sink_ok s" and "n \<le> 64"
  shows "stream_write_bits s v n = (drop_bit n v, foldl stream_write_bit s (map (bit v) [0..<n]))"
  using assms by (rule sink.puts_put)

theorem write_bits_is_bitwise_witness:
  "sink_ok (stream_open (\<lambda>_. 0) 16 :: 8 bitstream) \<and>
   stream_write_bits (stream_open (\<lambda>_. 0) 16 :: 8 bitstream) 0xABC 12 =
     (drop_bit 12 0xABC,
      foldl stream_write_bit (stream_open (\<lambda>_. 0) 16) (map (bit (0xABC :: uint64)) [0..<12]))"
proof -
  have ok: "sink_ok (stream_open (\<lambda>_. 0) 16 :: 8 bitstream)" by (rule sink_ok_open) simp
  have n: "12 \<le> (64 :: nat)" by simp
  show ?thesis using ok write_bits_is_bitwise [OF ok n, of "0xABC"] by blast
qed

text \<open>Reading up to 64 bits with one call of \<open>stream_read_bits\<close> returns the number whose
  \<open>i\<close>th bit is the \<open>i\<close>th of \<open>n\<close> successive calls of \<open>stream_read_bit\<close>, and leaves the stream in
  the state those calls leave it in; for every stream word size.\<close>

theorem read_bits_is_bitwise:
  assumes "source_ok s" and "n \<le> 64"
  shows "stream_read_bits s n =
    (horner_sum of_bool 2
       (map (\<lambda>i. fst (stream_read_bit (((snd \<circ> stream_read_bit) ^^ i) s))) [0..<n]),
     ((snd \<circ> stream_read_bit) ^^ n) s)"
  using assms by (rule source.gets_get)

theorem read_bits_is_bitwise_witness:
  "source_ok (stream_open (\<lambda>i. of_nat (7 * i + 165)) 16 :: 8 bitstream) \<and>
   stream_read_bits (stream_open (\<lambda>i. of_nat (7 * i + 165)) 16 :: 8 bitstream) 20 =
    (horner_sum of_bool 2
       (map (\<lambda>i. fst (stream_read_bit (((snd \<circ> stream_read_bit) ^^ i)
         (stream_open (\<lambda>i. of_nat (7 * i + 165)) 16 :: 8 bitstream)))) [0..<20]),
     ((snd \<circ> stream_read_bit) ^^ 20) (stream_open (\<lambda>i. of_nat (7 * i + 165)) 16))"
proof -
  have ok: "source_ok (stream_open (\<lambda>i. of_nat (7 * i + 165)) 16 :: 8 bitstream)"
    by (rule source_ok_open) simp
  have n: "20 \<le> (64 :: nat)" by simp
  show ?thesis using ok read_bits_is_bitwise [OF ok n] by blast
qed

text \<open>C26: whatever sequence of values is written, each with its own number of bits, flushing the
  stream, seeking back to where the sequence began and reading with the same bit counts returns
  each value truncated to its bit count; whatever was in the stream before.\<close>

theorem write_flush_seek_read:
  assumes "sink_ok s" and "\<forall>(v, n) \<in> set vs. n \<le> 64"
  shows "read_all (stream_rseek (snd (stream_flush (write_all s vs))) (stream_wtell s)) (map snd vs) =
    map (\<lambda>(v, n). take_bit n v) vs"
proof -
  let ?s = "write_all s vs"
  have w: "winv s" using assms(1) by (simp add: sink_ok_def)
  have e: "?s = wappend s (all_bits vs)" using write_all_eq assms by blast
  have ok: "sink_ok ?s" and t: "stream_wtell s \<le> stream_wtell ?s"
    using assms(1) w by (simp_all add: e)
  have "drop (stream_wtell s) (written ?s) = all_bits vs"
    using w by (simp add: e wtell_length)
  then show ?thesis
    using read_all_eq [OF flush_rseek_upcoming(1) [OF ok t] assms(2)] flush_rseek_upcoming(2) [OF ok t]
    by simp
qed

theorem write_flush_seek_read_witness:
  "read_all (stream_rseek (snd (stream_flush
      (write_all (stream_open (\<lambda>_. 0) 16 :: 16 bitstream) [(0x12345, 20), (7, 2)]))) 0) [20, 2] =
    [0x12345, 3]"
proof -
  have ok: "sink_ok (stream_open (\<lambda>_. 0) 16 :: 16 bitstream)" by (rule sink_ok_open) simp
  have "stream_wtell (stream_open (\<lambda>_. 0) 16 :: 16 bitstream) = 0"
    by (simp add: stream_open_def stream_rewind_def stream_wtell_def)
  then show ?thesis
    using write_flush_seek_read [OF ok, of "[(0x12345, 20), (7, 2)]"] by simp
qed

text \<open>Copying: \<open>stream_copy\<close> appends exactly the next \<open>n\<close> bits of the source stream to the destination
  and leaves the source \<open>n\<close> bits further on, whatever the two alignments.\<close>

theorem stream_copy_appends:
  assumes "sink_ok dst" and "source_ok src"
  shows "written (fst (stream_copy dst src n)) = written dst @ map (stream_peek src) [0..<n] \<and>
    snd (stream_copy dst src n) = stream_skip src n"
  using assms by (simp add: stream_copy_eq sink_ok_def)

theorem stream_copy_appends_witness:
  "written (fst (stream_copy (stream_open (\<lambda>_. 0) 16 :: 8 bitstream)
       (stream_rseek (stream_open (\<lambda>_. 0xB6) 16) 3) 11)) =
     [False, True, True, False, True, False, True, True, False, True, True]"
proof -
  have ok: "sink_ok (stream_open (\<lambda>_. 0) 16 :: 8 bitstream)" by (rule sink_ok_open) simp
  have src: "source_ok (stream_rseek (stream_open (\<lambda>_. 0xB6) 16 :: 8 bitstream) 3)"
    by (simp add: source_ok_def)
  show ?thesis
    using stream_copy_appends [OF ok src, of 11]
    by (simp add: stream_peek_def tape_def written_def stream_open_def stream_rewind_def
        stream_wtell_def upt_rec)
qed

text \<open>C27: no write reaches beyond the words that hold its bits. If the bits already in the stream
  and those of a sequence of writes fit its capacity, then after the writes and the final flush
  the word pointer is inside the buffer and no word at or after the end, and no word before the
  one being filled, has changed.\<close>

theorem write_within_capacity:
  fixes s :: "('w::len) bitstream"
  assumes "sink_ok s" and "\<forall>(v, n) \<in> set vs. n \<le> 64"
    and "stream_wtell s + sum_list (map snd vs) \<le> end_ptr s * LENGTH('w)"
  shows "ptr (snd (stream_flush (write_all s vs))) \<le> end_ptr s \<and>
    (\<forall>j. end_ptr s \<le> j \<or> j < ptr s \<longrightarrow>
      mem (snd (stream_flush (write_all s vs))) j = mem s j)"
proof -
  let ?W = "LENGTH('w)" and ?s = "write_all s vs"
  have w: "winv s" using assms(1) by (simp add: sink_ok_def)
  have e: "?s = wappend s (all_bits vs)" using write_all_eq assms by blast
  have "length (all_bits vs) = sum_list (map snd vs)"
    by (simp add: all_bits_def length_concat comp_def case_prod_unfold)
  then have "stream_wtell ?s \<le> end_ptr s * ?W" using assms(3) w by (simp add: e)
  then have "stream_wtell ?s + (?W - 1) < end_ptr s * ?W + ?W"
    using len_gt_0 [where 'a = 'w] by linarith
  then have "(stream_wtell ?s + (?W - 1)) div ?W < Suc (end_ptr s)"
    by (simp add: div_less_iff_less_mult add.commute)
  then have p: "ptr (snd (stream_flush ?s)) \<le> end_ptr s"
    using ptr_ceil w e by (metis less_Suc_eq_le winv_wappend)
  obtain bs where f: "snd (stream_flush ?s) = wappend s bs"
    using stream_flush_eq w e by (metis winv_wappend wappend_append)
  show ?thesis
    using p mem_wappend_after [OF w, of bs] mem_wappend_before [OF w, of _ bs] by (auto simp: f)
qed

theorem write_within_capacity_witness:
  "ptr (snd (stream_flush (write_all (stream_open (\<lambda>_. 0) 4 :: 8 bitstream) [(0xFFFFF, 20)]))) \<le> 4"
proof -
  have ok: "sink_ok (stream_open (\<lambda>_. 0) 4 :: 8 bitstream)" by (rule sink_ok_open) simp
  show ?thesis
    using write_within_capacity [OF ok, of "[(0xFFFFF, 20)]"]
    by (simp add: stream_open_def stream_rewind_def stream_wtell_def)
qed

text \<open>Positioning a flushed stream for writing at any bit offset loses nothing before the
  offset: the stream then holds exactly the earlier bits, and a following write appends to
  them.\<close>

theorem wseek_keeps_prefix:
  assumes "sink_ok s" and "p \<le> stream_wtell s"
  shows "written (stream_write_bit (stream_wseek (snd (stream_flush s)) p) b) =
    take p (written s) @ [b]"
proof -
  have ok: "sink_ok (stream_wseek (snd (stream_flush s)) p)"
    using assms(1) by (simp add: sink_ok_def stream_wseek_props)
  have "map (tape (snd (stream_flush s))) [0..<p] = take p (written s)"
    using assms flush_tape [OF assms(1)] by (intro nth_equalityI) (auto simp: wtell_length)
  then show ?thesis by (simp add: sink.content_put [OF ok] written_wseek)
qed

theorem wseek_keeps_prefix_witness:
  "written (stream_write_bit (stream_wseek (snd (stream_flush
      (stream_write_bit (stream_write_bit (stream_open (\<lambda>_. 0) 4 :: 8 bitstream) True) False))) 1) True) =
    [True, True]"
proof -
  let ?s = "stream_write_bit (stream_write_bit (stream_open (\<lambda>_. 0) 4 :: 8 bitstream) True) False"
  have o0: "sink_ok (stream_open (\<lambda>_. 0) 4 :: 8 bitstream)" by (rule sink_ok_open) simp
  have "written (stream_open (\<lambda>_. 0) 4 :: 8 bitstream) = []"
    by (simp add: written_def stream_open_def stream_rewind_def stream_wtell_def)
  then have c: "written ?s = [True, False]"
    by (simp add: sink.content_put sink.ok_put o0)
  have ok: "sink_ok ?s" using o0 by (simp add: sink.ok_put)
  have p: "1 \<le> stream_wtell ?s" using wtell_length [of ?s] by (simp add: c)
  show ?thesis using wseek_keeps_prefix [OF ok p, of True] by (simp add: c)
qed

end
