(* ===== verification/Coder.thy ===== *)
theory Coder
  imports Bitstream
begin

text \<open>
  The embedded coder of \<^verbatim>\<open>src/template/encode.c\<close> and \<^verbatim>\<open>src/template/decode.c\<close>: blocks of unsigned
  integers are coded one bit plane at a time, from the most significant plane down. The first \<open>n\<close> bits of
  a plane, those of the integers already known to be significant, are coded verbatim; the others by group
  tests and runs of zeros. There are four encoders and four decoders: for at most 64 integers, where a
  plane is held in a 64-bit word, and for more; with a budget of \<open>maxbits\<close> bits, and without. Each C loop
  is a recursive function. The type \<open>'u\<close> is the integer type (\<open>uint32\<close> or \<open>uint64\<close>), so that
  \<open>intprec\<close> is \<open>LENGTH('u)\<close>. The variable \<open>m\<close> of the decoders is modelled only where the default rounding
  mode (\<open>ZFP_ROUND_NEVER\<close>) uses it. The counts are natural numbers: \<open>maxbits\<close>, \<open>maxprec\<close> and the sizes are so small that
  the C expressions do not wrap around.

  \<open>ints_code\<close> is the specification: the complete code of a block as a list of bits. The locales
  \<open>plane_encoder\<close> and \<open>plane_decoder\<close> (and their variants without a budget) state what coding of one plane
  promises, and derive the result of the loop over the planes; each of the eight coders interprets one of them.
\<close>

section \<open>Encoders\<close>

text \<open>True if the largest possible encoding exceeds \<open>maxbits\<close> (\<open>with_maxbits\<close> of codec.c).\<close>

definition with_maxbits :: "nat \<Rightarrow> nat \<Rightarrow> nat \<Rightarrow> bool" where
  "with_maxbits maxbits maxprec sz \<longleftrightarrow> maxbits < (maxprec + 1) * sz - 1"

definition kmin_of :: "('u::len) itself \<Rightarrow> nat \<Rightarrow> nat" where
  "kmin_of u maxprec = (let intprec = LENGTH('u) in if maxprec < intprec then intprec - maxprec else 0)"

text \<open>Step 1 of the encoders for few integers: bit plane \<open>k\<close> as one 64-bit word.\<close>

definition extract_plane :: "('u::len) word list \<Rightarrow> nat \<Rightarrow> nat \<Rightarrow> uint64" where
  "extract_plane data sz k =
    foldl (\<lambda>x i. x + push_bit i (ucast (drop_bit k (data ! i) AND 1))) 0 [0..<sz]"

function encode_few_scan ::
  "nat \<Rightarrow> nat \<Rightarrow> nat \<Rightarrow> uint64 \<Rightarrow> ('w::len) bitstream \<Rightarrow> nat \<times> nat \<times> uint64 \<times> 'w bitstream" where
  "encode_few_scan sz nb n x s =
    (if nb \<noteq> 0 \<and> n < sz - 1 then
       let nb = nb - 1; b = (x AND 1 \<noteq> 0); s = stream_write_bit s b
       in if b then (nb, n, x, s) else encode_few_scan sz nb (n + 1) (drop_bit 1 x) s
     else (nb, n, x, s))"
  by pat_completeness auto
termination by (relation "measure (\<lambda>(sz, nb, n, x, s). nb)") auto

declare encode_few_scan.simps [simp del]

lemma encode_few_scan_le: "fst (encode_few_scan sz nb n x s) \<le> nb"
proof (induction nb arbitrary: n x s)
  case (Suc nb)
  then show ?case by (subst encode_few_scan.simps) (auto simp: Let_def intro: le_SucI)
qed (simp add: encode_few_scan.simps)

function encode_few_groups ::
  "nat \<Rightarrow> nat \<Rightarrow> nat \<Rightarrow> uint64 \<Rightarrow> ('w::len) bitstream \<Rightarrow> nat \<times> nat \<times> uint64 \<times> 'w bitstream" where
  "encode_few_groups sz nb n x s =
    (if nb \<noteq> 0 \<and> n < sz then
       let nb = nb - 1; s = stream_write_bit s (x \<noteq> 0)
       in if x \<noteq> 0 then
            let (nb, n, x, s) = encode_few_scan sz nb n x s
            in encode_few_groups sz nb (n + 1) (drop_bit 1 x) s
          else (nb, n, x, s)
     else (nb, n, x, s))"
  by pat_completeness auto
termination
  by (relation "measure (\<lambda>(sz, nb, n, x, s). nb)")
     (auto, metis encode_few_scan_le fst_conv diff_less le_less_trans less_numeral_extra(1) One_nat_def)

declare encode_few_groups.simps [simp del]

text \<open>One bit plane, and the loop over the bit planes.\<close>

definition encode_few_plane ::
  "('u::len) word list \<Rightarrow> nat \<Rightarrow> nat \<Rightarrow> nat \<Rightarrow> nat \<Rightarrow> ('w::len) bitstream \<Rightarrow> nat \<times> nat \<times> 'w bitstream" where
  "encode_few_plane data sz k n nb s =
    (let x = extract_plane data sz k;
         m = min n nb;
         nb = nb - m;
         (x, s) = stream_write_bits s x m;
         (nb, n, x, s) = encode_few_groups sz nb n x s
     in (nb, n, s))"

fun encode_few_planes ::
  "('u::len) word list \<Rightarrow> nat \<Rightarrow> nat \<Rightarrow> nat \<Rightarrow> nat \<Rightarrow> nat \<Rightarrow> ('w::len) bitstream \<Rightarrow> nat \<times> 'w bitstream" where
  "encode_few_planes data sz kmin 0 n nb s = (nb, s)"
| "encode_few_planes data sz kmin (Suc k) n nb s =
    (if nb \<noteq> 0 \<and> kmin < Suc k then
       let (nb, n, s) = encode_few_plane data sz k n nb s
       in encode_few_planes data sz kmin k n nb s
     else (nb, s))"

definition encode_few_ints ::
  "('w::len) bitstream \<Rightarrow> nat \<Rightarrow> nat \<Rightarrow> ('u::len) word list \<Rightarrow> nat \<Rightarrow> nat \<times> 'w bitstream" where
  "encode_few_ints s maxbits maxprec data sz =
    (let (nb, s) = encode_few_planes data sz (kmin_of TYPE('u) maxprec) (LENGTH('u)) 0 maxbits s
     in (maxbits - nb, s))"

text \<open>More than 64 integers: the plane is not gathered in a word; \<open>c\<close> counts its remaining ones.\<close>

function encode_many_scan ::
  "('u::len) word list \<Rightarrow> nat \<Rightarrow> nat \<Rightarrow> nat \<Rightarrow> nat \<Rightarrow> ('w::len) bitstream \<Rightarrow> nat \<times> nat \<times> 'w bitstream" where
  "encode_many_scan data k sz nb n s =
    (if nb \<noteq> 0 \<and> n < sz - 1 then
       let nb = nb - 1; b = (drop_bit k (data ! n) AND 1 \<noteq> 0); s = stream_write_bit s b
       in if b then (nb, n, s) else encode_many_scan data k sz nb (n + 1) s
     else (nb, n, s))"
  by pat_completeness auto
termination by (relation "measure (\<lambda>(data, k, sz, nb, n, s). nb)") auto

declare encode_many_scan.simps [simp del]

lemma encode_many_scan_le: "fst (encode_many_scan data k sz nb n s) \<le> nb"
proof (induction nb arbitrary: n s)
  case (Suc nb)
  then show ?case by (subst encode_many_scan.simps) (auto simp: Let_def intro: le_SucI)
qed (simp add: encode_many_scan.simps)

function encode_many_groups ::
  "('u::len) word list \<Rightarrow> nat \<Rightarrow> nat \<Rightarrow> nat \<Rightarrow> nat \<Rightarrow> nat \<Rightarrow> ('w::len) bitstream \<Rightarrow> nat \<times> nat \<times> 'w bitstream" where
  "encode_many_groups data k sz nb n c s =
    (if nb \<noteq> 0 \<and> n < sz then
       let nb = nb - 1; s = stream_write_bit s (c \<noteq> 0)
       in if c \<noteq> 0 then
            let c = c - 1; (nb, n, s) = encode_many_scan data k sz nb n s
            in encode_many_groups data k sz nb (n + 1) c s
          else (nb, n, s)
     else (nb, n, s))"
  by pat_completeness auto
termination
  by (relation "measure (\<lambda>(data, k, sz, nb, n, c, s). nb)")
     (auto, metis encode_many_scan_le fst_conv diff_less le_less_trans less_numeral_extra(1) One_nat_def)

declare encode_many_groups.simps [simp del]

text \<open>The loop that writes bit \<open>k\<close> of the first \<open>m\<close> integers, and the one that counts the ones from
  \<open>i\<close> on.\<close>

definition write_plane_bits :: "('u::len) word list \<Rightarrow> nat \<Rightarrow> nat \<Rightarrow> ('w::len) bitstream \<Rightarrow> 'w bitstream" where
  "write_plane_bits data k m s =
    foldl (\<lambda>s i. stream_write_bit s (drop_bit k (data ! i) AND 1 \<noteq> 0)) s [0..<m]"

definition count_ones :: "('u::len) word list \<Rightarrow> nat \<Rightarrow> nat \<Rightarrow> nat \<Rightarrow> nat" where
  "count_ones data k i sz = foldl (\<lambda>c i. c + unat (drop_bit k (data ! i) AND 1)) 0 [i..<sz]"

definition encode_many_plane ::
  "('u::len) word list \<Rightarrow> nat \<Rightarrow> nat \<Rightarrow> nat \<Rightarrow> nat \<Rightarrow> ('w::len) bitstream \<Rightarrow> nat \<times> nat \<times> 'w bitstream" where
  "encode_many_plane data sz k n nb s =
    (let m = min n nb;
         nb = nb - m;
         s = write_plane_bits data k m s;
         c = count_ones data k m sz
     in encode_many_groups data k sz nb n c s)"

fun encode_many_planes ::
  "('u::len) word list \<Rightarrow> nat \<Rightarrow> nat \<Rightarrow> nat \<Rightarrow> nat \<Rightarrow> nat \<Rightarrow> ('w::len) bitstream \<Rightarrow> nat \<times> 'w bitstream" where
  "encode_many_planes data sz kmin 0 n nb s = (nb, s)"
| "encode_many_planes data sz kmin (Suc k) n nb s =
    (if nb \<noteq> 0 \<and> kmin < Suc k then
       let (nb, n, s) = encode_many_plane data sz k n nb s
       in encode_many_planes data sz kmin k n nb s
     else (nb, s))"

definition encode_many_ints ::
  "('w::len) bitstream \<Rightarrow> nat \<Rightarrow> nat \<Rightarrow> ('u::len) word list \<Rightarrow> nat \<Rightarrow> nat \<times> 'w bitstream" where
  "encode_many_ints s maxbits maxprec data sz =
    (let (nb, s) = encode_many_planes data sz (kmin_of TYPE('u) maxprec) (LENGTH('u)) 0 maxbits s
     in (maxbits - nb, s))"

text \<open>The variants without a rate constraint.\<close>

function encode_few_prec_scan ::
  "nat \<Rightarrow> nat \<Rightarrow> uint64 \<Rightarrow> ('w::len) bitstream \<Rightarrow> nat \<times> uint64 \<times> 'w bitstream" where
  "encode_few_prec_scan sz n x s =
    (if n < sz - 1 then
       let b = (x AND 1 \<noteq> 0); s = stream_write_bit s b
       in if \<not> b then encode_few_prec_scan sz (n + 1) (drop_bit 1 x) s else (n, x, s)
     else (n, x, s))"
  by pat_completeness auto
termination by (relation "measure (\<lambda>(sz, n, x, s). sz - n)") auto

declare encode_few_prec_scan.simps [simp del]

lemma encode_few_prec_scan_ge:
  fixes s :: "('w::len) bitstream"
  shows "n \<le> fst (encode_few_prec_scan sz n x s)"
proof (induction "sz - n" arbitrary: n x s)
  case (Suc t)
  then have "Suc n \<le> fst (encode_few_prec_scan sz (Suc n) x s)" for x and s :: "'w bitstream" by simp
  then show ?case by (subst encode_few_prec_scan.simps) (auto simp: Let_def dest: Suc_leD)
qed (subst encode_few_prec_scan.simps, auto)

function encode_few_prec_groups ::
  "nat \<Rightarrow> nat \<Rightarrow> uint64 \<Rightarrow> ('w::len) bitstream \<Rightarrow> nat \<times> uint64 \<times> 'w bitstream" where
  "encode_few_prec_groups sz n x s =
    (if n < sz then
       let s = stream_write_bit s (x \<noteq> 0)
       in if x \<noteq> 0 then
            let (n, x, s) = encode_few_prec_scan sz n x s
            in encode_few_prec_groups sz (n + 1) (drop_bit 1 x) s
          else (n, x, s)
     else (n, x, s))"
  by pat_completeness auto
termination
proof (relation "measure (\<lambda>(sz, n, x, s). sz - n)", goal_cases)
  case (2 sz n x s s1 r n' y x' s')
  then have "n \<le> n'" using encode_few_prec_scan_ge [of n sz x s1] by (metis fst_conv)
  then show ?case using 2 by auto
qed simp

declare encode_few_prec_groups.simps [simp del]

definition encode_few_prec_plane ::
  "('u::len) word list \<Rightarrow> nat \<Rightarrow> nat \<Rightarrow> nat \<Rightarrow> ('w::len) bitstream \<Rightarrow> nat \<times> 'w bitstream" where
  "encode_few_prec_plane data sz k n s =
    (let x = extract_plane data sz k;
         (x, s) = stream_write_bits s x n;
         (n, x, s) = encode_few_prec_groups sz n x s
     in (n, s))"

fun encode_few_prec_planes ::
  "('u::len) word list \<Rightarrow> nat \<Rightarrow> nat \<Rightarrow> nat \<Rightarrow> nat \<Rightarrow> ('w::len) bitstream \<Rightarrow> 'w bitstream" where
  "encode_few_prec_planes data sz kmin 0 n s = s"
| "encode_few_prec_planes data sz kmin (Suc k) n s =
    (if kmin < Suc k then
       let (n, s) = encode_few_prec_plane data sz k n s
       in encode_few_prec_planes data sz kmin k n s
     else s)"

definition encode_few_ints_prec ::
  "('w::len) bitstream \<Rightarrow> nat \<Rightarrow> ('u::len) word list \<Rightarrow> nat \<Rightarrow> nat \<times> 'w bitstream" where
  "encode_few_ints_prec s maxprec data sz =
    (let offset = stream_wtell s;
         s = encode_few_prec_planes data sz (kmin_of TYPE('u) maxprec) (LENGTH('u)) 0 s
     in (stream_wtell s - offset, s))"

function encode_many_prec_scan ::
  "('u::len) word list \<Rightarrow> nat \<Rightarrow> nat \<Rightarrow> nat \<Rightarrow> ('w::len) bitstream \<Rightarrow> nat \<times> 'w bitstream" where
  "encode_many_prec_scan data k sz n s =
    (if n < sz - 1 then
       let b = (drop_bit k (data ! n) AND 1 \<noteq> 0); s = stream_write_bit s b
       in if \<not> b then encode_many_prec_scan data k sz (n + 1) s else (n, s)
     else (n, s))"
  by pat_completeness auto
termination by (relation "measure (\<lambda>(data, k, sz, n, s). sz - n)") auto

declare encode_many_prec_scan.simps [simp del]

lemma encode_many_prec_scan_ge:
  fixes s :: "('w::len) bitstream"
  shows "n \<le> fst (encode_many_prec_scan data k sz n s)"
proof (induction "sz - n" arbitrary: n s)
  case (Suc t)
  then have "Suc n \<le> fst (encode_many_prec_scan data k sz (Suc n) s)" for s :: "'w bitstream" by simp
  then show ?case by (subst encode_many_prec_scan.simps) (auto simp: Let_def dest: Suc_leD)
qed (subst encode_many_prec_scan.simps, auto)

function encode_many_prec_groups ::
  "('u::len) word list \<Rightarrow> nat \<Rightarrow> nat \<Rightarrow> nat \<Rightarrow> nat \<Rightarrow> ('w::len) bitstream \<Rightarrow> nat \<times> 'w bitstream" where
  "encode_many_prec_groups data k sz n c s =
    (if n < sz then
       let s = stream_write_bit s (c \<noteq> 0)
       in if c \<noteq> 0 then
            let c = c - 1; (n, s) = encode_many_prec_scan data k sz n s
            in encode_many_prec_groups data k sz (n + 1) c s
          else (n, s)
     else (n, s))"
  by pat_completeness auto
termination
proof (relation "measure (\<lambda>(data, k, sz, n, c, s). sz - n)", goal_cases)
  case (2 data k sz n c s s1 c1 r n' s')
  then have "n \<le> n'" using encode_many_prec_scan_ge [of n data k sz s1] by (metis fst_conv)
  then show ?case using 2 by auto
qed simp

declare encode_many_prec_groups.simps [simp del]

definition encode_many_prec_plane ::
  "('u::len) word list \<Rightarrow> nat \<Rightarrow> nat \<Rightarrow> nat \<Rightarrow> ('w::len) bitstream \<Rightarrow> nat \<times> 'w bitstream" where
  "encode_many_prec_plane data sz k n s =
    (let s = write_plane_bits data k n s;
         c = count_ones data k n sz
     in encode_many_prec_groups data k sz n c s)"

fun encode_many_prec_planes ::
  "('u::len) word list \<Rightarrow> nat \<Rightarrow> nat \<Rightarrow> nat \<Rightarrow> nat \<Rightarrow> ('w::len) bitstream \<Rightarrow> 'w bitstream" where
  "encode_many_prec_planes data sz kmin 0 n s = s"
| "encode_many_prec_planes data sz kmin (Suc k) n s =
    (if kmin < Suc k then
       let (n, s) = encode_many_prec_plane data sz k n s
       in encode_many_prec_planes data sz kmin k n s
     else s)"

definition encode_many_ints_prec ::
  "('w::len) bitstream \<Rightarrow> nat \<Rightarrow> ('u::len) word list \<Rightarrow> nat \<Rightarrow> nat \<times> 'w bitstream" where
  "encode_many_ints_prec s maxprec data sz =
    (let offset = stream_wtell s;
         s = encode_many_prec_planes data sz (kmin_of TYPE('u) maxprec) (LENGTH('u)) 0 s
     in (stream_wtell s - offset, s))"

definition encode_ints ::
  "('w::len) bitstream \<Rightarrow> nat \<Rightarrow> nat \<Rightarrow> ('u::len) word list \<Rightarrow> nat \<Rightarrow> nat \<times> 'w bitstream" where
  "encode_ints s maxbits maxprec data sz =
    (if with_maxbits maxbits maxprec sz then
       (if sz \<le> 64 then encode_few_ints s maxbits maxprec data sz
        else encode_many_ints s maxbits maxprec data sz)
     else
       (if sz \<le> 64 then encode_few_ints_prec s maxprec data sz
        else encode_many_ints_prec s maxprec data sz))"

section \<open>Decoders\<close>

function decode_scan :: "nat \<Rightarrow> nat \<Rightarrow> nat \<Rightarrow> ('w::len) bitstream \<Rightarrow> nat \<times> nat \<times> 'w bitstream" where
  "decode_scan sz nb n s =
    (if nb \<noteq> 0 \<and> n < sz - 1 then
       let nb = nb - 1; (b, s) = stream_read_bit s
       in if b then (nb, n, s) else decode_scan sz nb (n + 1) s
     else (nb, n, s))"
  by pat_completeness auto
termination by (relation "measure (\<lambda>(sz, nb, n, s). nb)") auto

declare decode_scan.simps [simp del]

lemma decode_scan_le: "fst (decode_scan sz nb n s) \<le> nb"
proof (induction nb arbitrary: n s)
  case (Suc nb)
  then show ?case by (subst decode_scan.simps) (auto simp: Let_def split: prod.split intro: le_SucI)
qed (simp add: decode_scan.simps)

function decode_few_groups ::
  "nat \<Rightarrow> nat \<Rightarrow> nat \<Rightarrow> uint64 \<Rightarrow> ('w::len) bitstream \<Rightarrow> nat \<times> nat \<times> uint64 \<times> 'w bitstream" where
  "decode_few_groups sz nb n x s =
    (if nb \<noteq> 0 \<and> n < sz then
       let nb = nb - 1; (b, s) = stream_read_bit s
       in if b then
            let (nb, n, s) = decode_scan sz nb n s; x = x + push_bit n 1
            in decode_few_groups sz nb (n + 1) x s
          else (nb, n, x, s)
     else (nb, n, x, s))"
  by pat_completeness auto
termination
  by (relation "measure (\<lambda>(sz, nb, n, x, s). nb)")
     (auto, metis decode_scan_le fst_conv diff_less le_less_trans less_numeral_extra(1) One_nat_def)

declare decode_few_groups.simps [simp del]

text \<open>Step 3: the bits of \<open>x\<close> are added to the integers, from index \<open>i\<close> on, while \<open>x\<close> is not zero.
  A write outside the array would be undefined behaviour in C; \<open>data[i := v]\<close> then changes nothing.\<close>

function deposit_plane :: "('u::len) word list \<Rightarrow> nat \<Rightarrow> uint64 \<Rightarrow> nat \<Rightarrow> 'u word list" where
  "deposit_plane data i x k =
    (if x \<noteq> 0 then deposit_plane (data[i := data ! i + push_bit k (ucast (x AND 1))]) (i + 1) (drop_bit 1 x) k
     else data)"
  by pat_completeness auto
termination
proof (relation "measure (\<lambda>(data, i, x, k). unat x)", goal_cases)
  case (2 data i x k)
  then have "unat x div 2 < unat x" by (simp add: unat_gt_0)
  then show ?case by (simp add: drop_bit_eq_div unat_div)
qed simp

declare deposit_plane.simps [simp del]

definition decode_few_plane ::
  "nat \<Rightarrow> nat \<Rightarrow> nat \<Rightarrow> nat \<Rightarrow> ('u::len) word list \<Rightarrow> ('w::len) bitstream \<Rightarrow> nat \<times> nat \<times> 'u word list \<times> 'w bitstream" where
  "decode_few_plane sz k n nb data s =
    (let m = min n nb;
         nb = nb - m;
         (x, s) = stream_read_bits s m;
         (nb, n, x, s) = decode_few_groups sz nb n x s;
         data = deposit_plane data 0 x k
     in (nb, n, data, s))"

fun decode_few_planes ::
  "nat \<Rightarrow> nat \<Rightarrow> nat \<Rightarrow> nat \<Rightarrow> nat \<Rightarrow> ('u::len) word list \<Rightarrow> ('w::len) bitstream \<Rightarrow> nat \<times> 'u word list \<times> 'w bitstream" where
  "decode_few_planes sz kmin 0 n nb data s = (nb, data, s)"
| "decode_few_planes sz kmin (Suc k) n nb data s =
    (if nb \<noteq> 0 \<and> kmin < Suc k then
       let (nb, n, data, s) = decode_few_plane sz k n nb data s
       in decode_few_planes sz kmin k n nb data s
     else (nb, data, s))"

definition decode_few_ints ::
  "('w::len) bitstream \<Rightarrow> nat \<Rightarrow> nat \<Rightarrow> nat \<Rightarrow> nat \<times> ('u::len) word list \<times> 'w bitstream" where
  "decode_few_ints s maxbits maxprec sz =
    (let data = replicate sz 0;
         (nb, data, s) = decode_few_planes sz (kmin_of TYPE('u) maxprec) (LENGTH('u)) 0 maxbits data s
     in (maxbits - nb, data, s))"

text \<open>The loop that reads bit \<open>k\<close> of the integers \<open>i\<close> to \<open>m - 1\<close>.\<close>

definition read_plane_bits ::
  "nat \<Rightarrow> nat \<Rightarrow> ('u::len) word list \<times> ('w::len) bitstream \<Rightarrow> 'u word list \<times> 'w bitstream" where
  "read_plane_bits k m st =
    foldl (\<lambda>(data, s) i. let (b, s) = stream_read_bit s
      in (if b then data[i := data ! i + push_bit k 1] else data, s)) st [0..<m]"

function decode_many_groups ::
  "nat \<Rightarrow> nat \<Rightarrow> nat \<Rightarrow> nat \<Rightarrow> ('u::len) word list \<Rightarrow> ('w::len) bitstream \<Rightarrow>
    nat \<times> nat \<times> 'u word list \<times> 'w bitstream" where
  "decode_many_groups k sz nb n data s =
    (if nb \<noteq> 0 \<and> n < sz then
       let nb = nb - 1; (b, s) = stream_read_bit s
       in if b then
            let (nb, n, s) = decode_scan sz nb n s; data = data[n := data ! n + push_bit k 1]
            in decode_many_groups k sz nb (n + 1) data s
          else (nb, n, data, s)
     else (nb, n, data, s))"
  by pat_completeness auto
termination
  by (relation "measure (\<lambda>(k, sz, nb, n, data, s). nb)")
     (auto, metis decode_scan_le fst_conv diff_less le_less_trans less_numeral_extra(1) One_nat_def)

declare decode_many_groups.simps [simp del]

definition decode_many_plane ::
  "nat \<Rightarrow> nat \<Rightarrow> nat \<Rightarrow> nat \<Rightarrow> ('u::len) word list \<Rightarrow> ('w::len) bitstream \<Rightarrow> nat \<times> nat \<times> 'u word list \<times> 'w bitstream" where
  "decode_many_plane sz k n nb data s =
    (let m = min n nb;
         nb = nb - m;
         (data, s) = read_plane_bits k m (data, s)
     in decode_many_groups k sz nb n data s)"

fun decode_many_planes ::
  "nat \<Rightarrow> nat \<Rightarrow> nat \<Rightarrow> nat \<Rightarrow> nat \<Rightarrow> ('u::len) word list \<Rightarrow> ('w::len) bitstream \<Rightarrow> nat \<times> 'u word list \<times> 'w bitstream" where
  "decode_many_planes sz kmin 0 n nb data s = (nb, data, s)"
| "decode_many_planes sz kmin (Suc k) n nb data s =
    (if nb \<noteq> 0 \<and> kmin < Suc k then
       let (nb, n, data, s) = decode_many_plane sz k n nb data s
       in decode_many_planes sz kmin k n nb data s
     else (nb, data, s))"

definition decode_many_ints ::
  "('w::len) bitstream \<Rightarrow> nat \<Rightarrow> nat \<Rightarrow> nat \<Rightarrow> nat \<times> ('u::len) word list \<times> 'w bitstream" where
  "decode_many_ints s maxbits maxprec sz =
    (let data = replicate sz 0;
         (nb, data, s) = decode_many_planes sz (kmin_of TYPE('u) maxprec) (LENGTH('u)) 0 maxbits data s
     in (maxbits - nb, data, s))"

text \<open>The variants without a rate constraint.\<close>

function decode_prec_scan :: "nat \<Rightarrow> nat \<Rightarrow> ('w::len) bitstream \<Rightarrow> nat \<times> 'w bitstream" where
  "decode_prec_scan sz n s =
    (if n < sz - 1 then
       let (b, s) = stream_read_bit s
       in if \<not> b then decode_prec_scan sz (n + 1) s else (n, s)
     else (n, s))"
  by pat_completeness auto
termination by (relation "measure (\<lambda>(sz, n, s). sz - n)") auto

declare decode_prec_scan.simps [simp del]

lemma decode_prec_scan_ge:
  fixes s :: "('w::len) bitstream"
  shows "n \<le> fst (decode_prec_scan sz n s)"
proof (induction "sz - n" arbitrary: n s)
  case (Suc t)
  then have "Suc n \<le> fst (decode_prec_scan sz (Suc n) s)" for s :: "'w bitstream" by simp
  then show ?case by (subst decode_prec_scan.simps) (auto split: prod.split dest: Suc_leD)
qed (subst decode_prec_scan.simps, auto)

function decode_few_prec_groups ::
  "nat \<Rightarrow> nat \<Rightarrow> uint64 \<Rightarrow> ('w::len) bitstream \<Rightarrow> nat \<times> uint64 \<times> 'w bitstream" where
  "decode_few_prec_groups sz n x s =
    (if n < sz then
       let (b, s) = stream_read_bit s
       in if b then
            let (n, s) = decode_prec_scan sz n s; x = x + push_bit n 1
            in decode_few_prec_groups sz (n + 1) x s
          else (n, x, s)
     else (n, x, s))"
  by pat_completeness auto
termination
proof (relation "measure (\<lambda>(sz, n, x, s). sz - n)", goal_cases)
  case (2 sz n x s p b s1 q n' s' x')
  then have "n \<le> n'" using decode_prec_scan_ge [of n sz s1] by (metis fst_conv)
  then show ?case using 2 by auto
qed simp

declare decode_few_prec_groups.simps [simp del]

definition decode_few_prec_plane ::
  "nat \<Rightarrow> nat \<Rightarrow> nat \<Rightarrow> ('u::len) word list \<Rightarrow> ('w::len) bitstream \<Rightarrow> nat \<times> 'u word list \<times> 'w bitstream" where
  "decode_few_prec_plane sz k n data s =
    (let (x, s) = stream_read_bits s n;
         (n, x, s) = decode_few_prec_groups sz n x s;
         data = deposit_plane data 0 x k
     in (n, data, s))"

fun decode_few_prec_planes ::
  "nat \<Rightarrow> nat \<Rightarrow> nat \<Rightarrow> nat \<Rightarrow> ('u::len) word list \<Rightarrow> ('w::len) bitstream \<Rightarrow> 'u word list \<times> 'w bitstream" where
  "decode_few_prec_planes sz kmin 0 n data s = (data, s)"
| "decode_few_prec_planes sz kmin (Suc k) n data s =
    (if kmin < Suc k then
       let (n, data, s) = decode_few_prec_plane sz k n data s
       in decode_few_prec_planes sz kmin k n data s
     else (data, s))"

definition decode_few_ints_prec ::
  "('w::len) bitstream \<Rightarrow> nat \<Rightarrow> nat \<Rightarrow> nat \<times> ('u::len) word list \<times> 'w bitstream" where
  "decode_few_ints_prec s maxprec sz =
    (let offset = stream_rtell s;
         data = replicate sz 0;
         (data, s) = decode_few_prec_planes sz (kmin_of TYPE('u) maxprec) (LENGTH('u)) 0 data s
     in (stream_rtell s - offset, data, s))"

function decode_many_prec_groups ::
  "nat \<Rightarrow> nat \<Rightarrow> nat \<Rightarrow> ('u::len) word list \<Rightarrow> ('w::len) bitstream \<Rightarrow> nat \<times> 'u word list \<times> 'w bitstream" where
  "decode_many_prec_groups k sz n data s =
    (if n < sz then
       let (b, s) = stream_read_bit s
       in if b then
            let (n, s) = decode_prec_scan sz n s; data = data[n := data ! n + push_bit k 1]
            in decode_many_prec_groups k sz (n + 1) data s
          else (n, data, s)
     else (n, data, s))"
  by pat_completeness auto
termination
proof (relation "measure (\<lambda>(k, sz, n, data, s). sz - n)", goal_cases)
  case (2 k sz n data s p b s1 q n' s' data')
  then have "n \<le> n'" using decode_prec_scan_ge [of n sz s1] by (metis fst_conv)
  then show ?case using 2 by auto
qed simp

declare decode_many_prec_groups.simps [simp del]

definition decode_many_prec_plane ::
  "nat \<Rightarrow> nat \<Rightarrow> nat \<Rightarrow> ('u::len) word list \<Rightarrow> ('w::len) bitstream \<Rightarrow> nat \<times> 'u word list \<times> 'w bitstream" where
  "decode_many_prec_plane sz k n data s =
    (let (data, s) = read_plane_bits k n (data, s)
     in decode_many_prec_groups k sz n data s)"

fun decode_many_prec_planes ::
  "nat \<Rightarrow> nat \<Rightarrow> nat \<Rightarrow> nat \<Rightarrow> ('u::len) word list \<Rightarrow> ('w::len) bitstream \<Rightarrow> 'u word list \<times> 'w bitstream" where
  "decode_many_prec_planes sz kmin 0 n data s = (data, s)"
| "decode_many_prec_planes sz kmin (Suc k) n data s =
    (if kmin < Suc k then
       let (n, data, s) = decode_many_prec_plane sz k n data s
       in decode_many_prec_planes sz kmin k n data s
     else (data, s))"

definition decode_many_ints_prec ::
  "('w::len) bitstream \<Rightarrow> nat \<Rightarrow> nat \<Rightarrow> nat \<times> ('u::len) word list \<times> 'w bitstream" where
  "decode_many_ints_prec s maxprec sz =
    (let offset = stream_rtell s;
         data = replicate sz 0;
         (data, s) = decode_many_prec_planes sz (kmin_of TYPE('u) maxprec) (LENGTH('u)) 0 data s
     in (stream_rtell s - offset, data, s))"

definition decode_ints ::
  "('w::len) bitstream \<Rightarrow> nat \<Rightarrow> nat \<Rightarrow> nat \<Rightarrow> nat \<times> ('u::len) word list \<times> 'w bitstream" where
  "decode_ints s maxbits maxprec sz =
    (if with_maxbits maxbits maxprec sz then
       (if sz \<le> 64 then decode_few_ints s maxbits maxprec sz
        else decode_many_ints s maxbits maxprec sz)
     else
       (if sz \<le> 64 then decode_few_ints_prec s maxprec sz
        else decode_many_ints_prec s maxprec sz))"

section \<open>The code of a bit plane\<close>

text \<open>Length of the run of zeros that a positive group test is followed by; a one in the last place
  needs no bit.\<close>

definition run :: "bool list \<Rightarrow> nat" where
  "run xs = length (takeWhile Not (butlast xs))"

definition run_code :: "bool list \<Rightarrow> bool list" where
  "run_code xs = replicate (run xs) False @ (if run xs < length xs - 1 then [True] else [])"

function group_code :: "bool list \<Rightarrow> bool list" where
  "group_code xs =
    (if xs = [] then [] else if True \<notin> set xs then [False]
     else True # run_code xs @ group_code (drop (run xs + 1) xs))"
  by pat_completeness auto
termination by (relation "measure length") auto

declare group_code.simps [simp del]

text \<open>How far the group tests advance: just behind the last one.\<close>

definition reach :: "bool list \<Rightarrow> nat" where
  "reach xs = length xs - length (takeWhile Not (rev xs))"

fun planes_code :: "nat \<Rightarrow> bool list list \<Rightarrow> bool list" where
  "planes_code n [] = []"
| "planes_code n (p # ps) =
    take n p @ group_code (drop n p) @ planes_code (n + reach (drop n p)) ps"

definition plane :: "('u::len) word list \<Rightarrow> nat \<Rightarrow> bool list" where
  "plane data k = map (\<lambda>w. bit w k) data"

definition planes :: "('u::len) word list \<Rightarrow> nat \<Rightarrow> nat \<Rightarrow> bool list list" where
  "planes data kmin k = map (plane data) (rev [kmin..<k])"

definition ints_code :: "nat \<Rightarrow> ('u::len) word list \<Rightarrow> bool list" where
  "ints_code maxprec data = planes_code 0 (planes data (kmin_of TYPE('u) maxprec) (LENGTH('u)))"

lemma run_less: "xs \<noteq> [] \<Longrightarrow> run xs < length xs"
  unfolding run_def using length_takeWhile_le [of Not "butlast xs"] by (simp add: le_less_trans)

lemma run_zero: "i < run xs \<Longrightarrow> \<not> xs ! i"
proof -
  assume i: "i < run xs"
  then have "i < length (butlast xs)"
    unfolding run_def using length_takeWhile_le [of Not "butlast xs"] by linarith
  then show ?thesis
    using i nth_mem [of i "takeWhile Not (butlast xs)"] set_takeWhileD [of _ Not "butlast xs"]
    by (auto simp: run_def takeWhile_nth nth_butlast)
qed

lemma run_one: "True \<in> set xs \<Longrightarrow> xs ! run xs"
proof -
  assume t: "True \<in> set xs"
  then have ne: "xs \<noteq> []" by auto
  show ?thesis
  proof (cases "run xs < length (butlast xs)")
    case True
    then have "butlast xs ! run xs" using nth_length_takeWhile [of Not "butlast xs"] by (simp add: run_def)
    then show ?thesis using True by (simp add: nth_butlast)
  next
    case False
    then have "run xs = length xs - 1" using run_less [OF ne] by simp
    moreover obtain i where "i < length xs" "xs ! i" using t by (auto simp: in_set_conv_nth)
    ultimately show ?thesis using run_zero [of i xs] by (cases "i = run xs") auto
  qed
qed

lemma run_Cons:
  "xs \<noteq> [] \<Longrightarrow> run (b # xs) = (if b then 0 else Suc (run xs))" "run [b] = 0"
  by (simp_all add: run_def)

lemma run_code_Cons: "xs \<noteq> [] \<Longrightarrow> run_code (b # xs) = (if b then [True] else False # run_code xs)" "run_code [b] = []"
  by (auto simp: run_code_def run_Cons)

lemma reach_Nil [simp]: "reach [] = 0"
  and reach_le: "reach xs \<le> length xs"
  by (simp_all add: reach_def)

lemma takeWhile_Not_rev: "True \<notin> set xs \<Longrightarrow> takeWhile Not (rev xs) = rev xs"
  by (subst takeWhile_eq_all_conv) auto

lemma reach_zero: "True \<notin> set xs \<Longrightarrow> reach xs = 0"
proof -
  assume "True \<notin> set xs"
  note e = takeWhile_Not_rev [OF this]
  show ?thesis unfolding reach_def e by simp
qed

lemma reach_run:
  assumes "True \<in> set xs"
  shows "reach xs = run xs + 1 + reach (drop (run xs + 1) xs)"
proof -
  define r b where "r = run xs" and "b = drop (r + 1) xs"
  have ne: "xs \<noteq> []" using assms by auto
  have xs: "xs = take r xs @ True # b"
    using run_one [OF assms] run_less [OF ne] unfolding r_def b_def
    by (metis Suc_eq_plus1 id_take_nth_drop)
  have "takeWhile Not (rev xs) = (if True \<in> set b then takeWhile Not (rev b) else rev b)"
    by (subst xs) (auto simp: takeWhile_append2 takeWhile_tail takeWhile_append)
  then have "length (takeWhile Not (rev xs)) = length (takeWhile Not (rev b))"
    using takeWhile_Not_rev [of b] by (metis (full_types))
  moreover have "length xs = r + 1 + length b" using run_less [OF ne] by (simp add: r_def b_def)
  moreover have "length (takeWhile Not (rev b)) \<le> length b"
    using length_takeWhile_le [of Not "rev b"] by simp
  ultimately have "reach xs = r + 1 + reach b" unfolding reach_def by linarith
  then show ?thesis by (simp only: r_def b_def)
qed

text \<open>Size of the code of a plane: the group tests and the scanned bits, at most two per place
  advanced, one less if the end is reached, and a final negative test otherwise.\<close>

lemma length_run_code: "xs \<noteq> [] \<Longrightarrow> length (run_code xs) = (if run xs < length xs - 1 then run xs + 1 else run xs)"
  by (simp add: run_code_def)

lemma length_group_code:
  "xs \<noteq> [] \<Longrightarrow> length (group_code xs) + of_bool (reach xs = length xs) \<le> 2 * reach xs + of_bool (reach xs < length xs)"
proof (induction xs rule: group_code.induct)
  case (1 xs)
  show ?case
  proof (cases "True \<in> set xs")
    case False
    then show ?thesis using "1.prems" by (simp add: group_code.simps reach_zero)
  next
    case True
    define b where "b = drop (run xs + 1) xs"
    have g: "length (group_code xs) = 1 + length (run_code xs) + length (group_code b)"
      using True "1.prems" by (subst group_code.simps) (simp add: b_def)
    have r: "reach xs = run xs + 1 + reach b" and l: "length xs = run xs + 1 + length b"
      using reach_run [OF True] run_less [OF "1.prems"] by (auto simp: b_def)
    have IH: "b \<noteq> [] \<Longrightarrow> length (group_code b) + of_bool (reach b = length b) \<le>
        2 * reach b + of_bool (reach b < length b)"
      using "1.IH" [OF "1.prems"] True by (simp add: b_def)
    show ?thesis
    proof (cases b)
      case Nil
      then have "length (run_code xs) = run xs" using l "1.prems" by (simp add: length_run_code)
      then show ?thesis using g r l Nil by (simp add: group_code.simps [of "[]"])
    next
      case (Cons y ys)
      then have "length (run_code xs) = run xs + 1" using l "1.prems" by (simp add: length_run_code)
      then show ?thesis using g r l IH Cons by (cases "reach b < length b"; cases "reach b = length b") simp_all
    qed
  qed
qed

lemma length_planes_code:
  assumes "\<forall>p \<in> set ps. length p = sz" "n \<le> sz"
  shows "length (planes_code n ps) + of_bool (n < sz) \<le> length ps * sz + (sz - n)"
  using assms
proof (induction ps arbitrary: n)
  case (Cons p ps)
  let ?d = "drop n p"
  have l: "length ?d = sz - n" "length p = sz" using Cons.prems by simp_all
  have n': "n + reach ?d \<le> sz" using reach_le [of ?d] l Cons.prems by simp
  have IH: "length (planes_code (n + reach ?d) ps) + of_bool (n + reach ?d < sz) \<le>
      length ps * sz + (sz - (n + reach ?d))"
    using Cons n' by simp
  show ?case
  proof (cases "n = sz")
    case True
    then show ?thesis using IH l by (simp add: group_code.simps [of "[]"])
  next
    case False
    then have "?d \<noteq> []" using l Cons.prems by auto
    then show ?thesis using length_group_code [of ?d] IH l n' Cons.prems False
      by (auto simp: of_bool_def algebra_simps split: if_splits)
  qed
qed (auto simp: of_bool_def)

lemma length_plane [simp]: "length (plane data k) = length data"
  by (simp add: plane_def)

lemma length_planes [simp]: "length (planes data kmin k) = k - kmin"
  by (simp add: planes_def)

lemma kmin_of_diff: "LENGTH('u::len) - kmin_of TYPE('u) maxprec \<le> maxprec"
  by (simp add: kmin_of_def Let_def)

lemma length_ints_code:
  "data \<noteq> [] \<Longrightarrow> length (ints_code maxprec data) \<le> (maxprec + 1) * length data - 1" for data :: "('u::len) word list"
proof -
  assume "data \<noteq> []"
  have "length (ints_code maxprec data) + 1 \<le> (LENGTH('u) - kmin_of TYPE('u) maxprec) * length data + length data"
    using length_planes_code [of "planes data (kmin_of TYPE('u) maxprec) (LENGTH('u))" "length data" 0] \<open>data \<noteq> []\<close>
    by (auto simp: ints_code_def planes_def)
  also have "\<dots> \<le> maxprec * length data + length data"
    using kmin_of_diff [where 'u = 'u] by (simp add: mult_le_mono1)
  finally show ?thesis by simp
qed

section \<open>Encoders write the code\<close>

text \<open>The word \<open>x\<close> holds the bits \<open>xs\<close>.\<close>

definition holds :: "uint64 \<Rightarrow> bool list \<Rightarrow> bool" where
  "holds x xs \<longleftrightarrow> (\<forall>i. bit x i \<longleftrightarrow> i < length xs \<and> xs ! i)"

lemma holds_drop: "holds x xs \<Longrightarrow> holds (drop_bit n x) (drop n xs)"
  unfolding holds_def
proof
  fix i assume h: "\<forall>i. bit x i = (i < length xs \<and> xs ! i)"
  have "i < length (drop n xs) \<longleftrightarrow> n + i < length xs" by auto
  then show "bit (drop_bit n x) i = (i < length (drop n xs) \<and> drop n xs ! i)"
    using spec [OF h, of "n + i"] by (cases "n \<le> length xs") (simp_all add: bit_drop_bit_eq)
qed

lemma and_1_bit: "w AND 1 \<noteq> 0 \<longleftrightarrow> bit w 0" for w :: "'a::len word"
  by (simp add: and_one_eq bit_0 odd_iff_mod_2_eq_one)

lemma holds_Cons: "holds x (b # xs) \<Longrightarrow> (x AND 1 \<noteq> 0) = b" "holds x (b # xs) \<Longrightarrow> holds (drop_bit 1 x) xs"
proof -
  assume h: "holds x (b # xs)"
  then have "bit x 0 = b" unfolding holds_def by (metis length_greater_0_conv list.distinct(1) nth_Cons_0)
  then show "(x AND 1 \<noteq> 0) = b" by (simp only: and_1_bit)
  show "holds (drop_bit 1 x) xs" using holds_drop [OF h, of 1] by simp
qed

lemma holds_nonzero: "holds x xs \<Longrightarrow> x \<noteq> 0 \<longleftrightarrow> True \<in> set xs"
proof -
  assume h: "holds x xs"
  have "x = 0 \<longleftrightarrow> (\<forall>i. \<not> bit x i)" by (auto intro: bit_eqI)
  then show ?thesis using h by (auto simp: holds_def in_set_conv_nth)
qed

lemma write_bit_wappend: "stream_write_bit s b = wappend s [b]"
  by simp

lemma encode_few_scan_eq:
  assumes "n + length xs = sz" "xs \<noteq> []" "holds x xs"
  shows "\<exists>n' x'. encode_few_scan sz nb n x s = (nb - length (run_code xs), n', x', wappend s (take nb (run_code xs)))
    \<and> (length (run_code xs) \<le> nb \<longrightarrow> n' = n + run xs \<and> x' = drop_bit (run xs) x)"
  using assms
proof (induction xs arbitrary: n nb x s)
  case (Cons b xs)
  show ?case
  proof (cases "xs = [] \<or> nb = 0")
    case True
    then show ?thesis using Cons.prems
      by (subst encode_few_scan.simps) (cases "xs = []"; auto simp: run_code_Cons run_Cons)
  next
    case False
    then obtain m where nb: "nb = Suc m" by (cases nb) auto
    have lt: "n < sz - 1" using Cons.prems False by (cases xs) auto
    show ?thesis
    proof (cases b)
      case True
      then show ?thesis using lt nb False holds_Cons(1) [OF Cons.prems(3)]
        by (subst encode_few_scan.simps) (simp add: run_code_Cons run_Cons)
    next
      case nb': False
      have "\<exists>n' x'. encode_few_scan sz m (Suc n) (drop_bit 1 x) (stream_write_bit s False) =
          (m - length (run_code xs), n', x', wappend (stream_write_bit s False) (take m (run_code xs)))
        \<and> (length (run_code xs) \<le> m \<longrightarrow> n' = Suc n + run xs \<and> x' = drop_bit (run xs) (drop_bit 1 x))"
        using Cons.prems False holds_Cons(2) [OF Cons.prems(3)] by (intro Cons.IH) auto
      then show ?thesis using lt nb False nb' holds_Cons(1) [OF Cons.prems(3)]
        by (subst encode_few_scan.simps) (auto simp: run_code_Cons run_Cons drop_bit_drop_bit)
    qed
  qed
qed simp

lemma group_code_Nil [simp]: "group_code [] = []"
  by (simp add: group_code.simps)

lemma group_code_zero: "xs \<noteq> [] \<Longrightarrow> True \<notin> set xs \<Longrightarrow> group_code xs = [False]"
  by (subst group_code.simps) simp

lemma group_code_one:
  "True \<in> set xs \<Longrightarrow> group_code xs = True # run_code xs @ group_code (drop (run xs + 1) xs)"
  by (subst group_code.simps) auto

lemma group_induct [case_names Nil zero one]:
  assumes "P []" "\<And>xs. xs \<noteq> [] \<Longrightarrow> True \<notin> set xs \<Longrightarrow> P xs"
    and "\<And>xs. True \<in> set xs \<Longrightarrow> P (drop (run xs + 1) xs) \<Longrightarrow> P xs"
  shows "P xs"
proof (induction xs rule: length_induct)
  case (1 xs)
  show ?case
  proof (cases "True \<in> set xs")
    case True
    then have "length (drop (run xs + 1) xs) < length xs" by (cases xs) auto
    then show ?thesis using 1 assms(3) [OF True] by blast
  next
    case False
    then show ?thesis using assms(1) assms(2) [of xs] by (cases xs) simp_all
  qed
qed

lemma encode_few_groups_eq:
  assumes "n + length xs = sz" "holds x xs"
  shows "\<exists>n' x'. encode_few_groups sz nb n x s =
      (nb - length (group_code xs), n', x', wappend s (take nb (group_code xs)))
    \<and> (length (group_code xs) \<le> nb \<longrightarrow> n' = n + reach xs)"
  using assms
proof (induction xs arbitrary: n nb x s rule: group_induct)
  case Nil
  then show ?case by (subst encode_few_groups.simps) simp
next
  case (zero xs)
  then have "n < sz" "x = 0" using holds_nonzero [of x xs] by (cases xs; auto)+
  then show ?case using zero
    by (cases nb) (subst encode_few_groups.simps, simp add: group_code_zero reach_zero)+
next
  case (one xs)
  let ?d = "drop (run xs + 1) xs"
  have ne: "xs \<noteq> []" using one.hyps by auto
  have x: "x \<noteq> 0" and lt: "n < sz" using one ne holds_nonzero [of x xs] by (cases xs; auto)+
  show ?case
  proof (cases nb)
    case 0
    then show ?thesis by (subst encode_few_groups.simps) (simp add: group_code_one [OF one.hyps])
  next
    case (Suc m)
    obtain n1 x1 where sc: "encode_few_scan sz m n x (stream_write_bit s True) =
        (m - length (run_code xs), n1, x1, wappend (stream_write_bit s True) (take m (run_code xs)))"
      and sc': "length (run_code xs) \<le> m \<Longrightarrow> n1 = n + run xs \<and> x1 = drop_bit (run xs) x"
      using encode_few_scan_eq [OF one.prems(1) ne one.prems(2)] by blast
    have e: "encode_few_groups sz nb n x s = encode_few_groups sz (m - length (run_code xs)) (n1 + 1) (drop_bit 1 x1)
        (wappend (stream_write_bit s True) (take m (run_code xs)))"
      using x lt sc Suc by (subst encode_few_groups.simps) simp
    show ?thesis
    proof (cases "length (run_code xs) \<le> m")
      case True
      have "n1 + 1 + length ?d = sz" using sc' [OF True] one.prems(1) run_less [OF ne] by simp
      moreover have "holds (drop_bit 1 x1) ?d"
        using sc' [OF True] holds_drop [OF one.prems(2), of "run xs + 1"] by (simp add: drop_bit_drop_bit)
      ultimately show ?thesis
        using one.IH [of "n1 + 1" "drop_bit 1 x1" "m - length (run_code xs)" "wappend (stream_write_bit s True) (take m (run_code xs))"]
          True sc' [OF True] Suc
        unfolding e by (auto simp: group_code_one [OF one.hyps] reach_run [OF one.hyps] wappend_append)
    next
      case False
      then show ?thesis unfolding e using Suc
        by (subst encode_few_groups.simps) (simp add: group_code_one [OF one.hyps])
    qed
  qed
qed

lemma extract_plane_bit:
  assumes "m \<le> 64" "m \<le> length data"
  shows "bit (extract_plane data m k) i \<longleftrightarrow> i < m \<and> bit (data ! i) k"
  using assms
proof (induction m arbitrary: i)
  case (Suc m)
  have b: "bit (push_bit m (ucast (drop_bit k (data ! m) AND 1)) :: uint64) i \<longleftrightarrow> i = m \<and> bit (data ! m) k" for i
    using Suc.prems by (auto simp: word_bits bit_1_iff bit_drop_bit_eq)
  have "extract_plane data (Suc m) k = extract_plane data m k + push_bit m (ucast (drop_bit k (data ! m) AND 1))"
    by (simp add: extract_plane_def)
  also have "\<dots> = extract_plane data m k OR push_bit m (ucast (drop_bit k (data ! m) AND 1))"
    using Suc b by (intro disjoint_add_or) auto
  finally show ?case using Suc b by (auto simp: bit_or_iff less_Suc_eq)
qed (simp add: extract_plane_def)

lemma extract_plane_holds: "length data \<le> 64 \<Longrightarrow> holds (extract_plane data (length data) k) (plane data k)"
  by (auto simp: holds_def extract_plane_bit plane_def)

lemma planes_Suc: "kmin < Suc k \<Longrightarrow> planes data kmin (Suc k) = plane data k # planes data kmin k"
  by (simp add: planes_def)

lemma planes_empty: "k \<le> kmin \<Longrightarrow> planes data kmin k = []"
  by (simp add: planes_def)

lemma holds_take: "holds x xs \<Longrightarrow> m \<le> length xs \<Longrightarrow> map (bit x) [0..<m] = take m xs"
  by (rule nth_equalityI) (auto simp: holds_def)

lemma write_bits_holds:
  assumes "sink_ok s" "m \<le> length xs" "length xs \<le> 64" "holds x xs"
  shows "stream_write_bits s x m = (drop_bit m x, wappend s (take m xs))"
  using sink.puts_put [OF assms(1), of m x] assms holds_take [OF assms(4,2)] by (simp add: wappend_def)

lemma plane_test: "n < length data \<Longrightarrow> (drop_bit k (data ! n) AND 1 \<noteq> 0) = plane data k ! n" for data :: "('u::len) word list"
  unfolding and_1_bit by (simp add: plane_def bit_drop_bit_eq)

lemma drop_plane_Cons:
  assumes "b # xs = drop n (plane data k)"
  shows "n < length data" "(drop_bit k (data ! n) AND 1 \<noteq> 0) = b" "xs = drop (Suc n) (plane data k)"
proof -
  have "drop n (plane data k) \<noteq> []" using assms by (metis list.distinct(1))
  then show l: "n < length data" by simp
  have "drop n (plane data k) = plane data k ! n # drop (Suc n) (plane data k)"
    using l by (intro Cons_nth_drop_Suc [symmetric]) simp
  then have e: "b = plane data k ! n" "xs = drop (Suc n) (plane data k)" using assms by simp_all
  then show "(drop_bit k (data ! n) AND 1 \<noteq> 0) = b" "xs = drop (Suc n) (plane data k)"
    using plane_test [OF l] by simp_all
qed

lemma encode_many_scan_eq:
  assumes "xs = drop n (plane data k)" "length data = sz" "xs \<noteq> []"
  shows "\<exists>n'. encode_many_scan data k sz nb n s = (nb - length (run_code xs), n', wappend s (take nb (run_code xs)))
    \<and> (length (run_code xs) \<le> nb \<longrightarrow> n' = n + run xs)"
  using assms
proof (induction xs arbitrary: n nb s)
  case (Cons b xs)
  note d = drop_plane_Cons [OF Cons.prems(1)]
  have len: "sz = n + Suc (length xs)" using Cons.prems(1,2) by (metis length_Cons length_drop length_plane d(1) le_add_diff_inverse less_imp_le)
  show ?case
  proof (cases "xs = [] \<or> nb = 0")
    case True
    then show ?thesis using len
      by (subst encode_many_scan.simps) (cases "xs = []"; auto simp: run_code_Cons run_Cons)
  next
    case False
    then obtain m where nb: "nb = Suc m" by (cases nb) auto
    have lt: "n < sz - 1" using len False by (cases xs) auto
    show ?thesis
    proof (cases b)
      case True
      then show ?thesis using lt nb False d(2)
        by (subst encode_many_scan.simps) (simp add: run_code_Cons run_Cons)
    next
      case nb': False
      have "\<exists>n'. encode_many_scan data k sz m (Suc n) (stream_write_bit s False) =
          (m - length (run_code xs), n', wappend (stream_write_bit s False) (take m (run_code xs)))
        \<and> (length (run_code xs) \<le> m \<longrightarrow> n' = Suc n + run xs)"
        using Cons.prems False d(3) by (intro Cons.IH) auto
      then show ?thesis using lt nb False nb' d(2)
        by (subst encode_many_scan.simps) (auto simp: run_code_Cons run_Cons)
    qed
  qed
qed simp

definition ones :: "bool list \<Rightarrow> nat" where
  "ones xs = length (filter (\<lambda>b. b) xs)"

lemma ones_nonzero: "ones xs \<noteq> 0 \<longleftrightarrow> True \<in> set xs"
  by (auto simp: ones_def filter_empty_conv)

lemma ones_run: "True \<in> set xs \<Longrightarrow> ones (drop (run xs + 1) xs) = ones xs - 1"
proof -
  assume t: "True \<in> set xs"
  then have ne: "xs \<noteq> []" by auto
  define b where "b = drop (run xs + 1) xs"
  have xs: "xs = take (run xs) xs @ True # b"
    using run_one [OF t] run_less [OF ne] unfolding b_def by (metis Suc_eq_plus1 id_take_nth_drop)
  have z: "filter (\<lambda>b. b) (take (run xs) xs) = []"
    using run_zero [of _ xs] by (auto simp: filter_empty_conv in_set_conv_nth)
  have "ones xs = Suc (ones b)"
    unfolding ones_def by (subst xs) (simp add: z)
  then show ?thesis by (simp add: b_def)
qed

lemma encode_many_groups_eq:
  assumes "xs = drop n (plane data k)" "length data = sz" "n \<le> sz"
  shows "\<exists>n'. encode_many_groups data k sz nb n (ones xs) s =
      (nb - length (group_code xs), n', wappend s (take nb (group_code xs)))
    \<and> (length (group_code xs) \<le> nb \<longrightarrow> n' = n + reach xs)"
  using assms
proof (induction xs arbitrary: n nb s rule: group_induct)
  case Nil
  then show ?case by (subst encode_many_groups.simps) simp
next
  case (zero xs)
  then have "n < sz" "ones xs = 0" using ones_nonzero [of xs] by auto
  then show ?case using zero
    by (cases nb) (subst encode_many_groups.simps, simp add: group_code_zero reach_zero)+
next
  case (one xs)
  let ?d = "drop (run xs + 1) xs"
  have ne: "xs \<noteq> []" using one.hyps by auto
  have x: "ones xs \<noteq> 0" using one.hyps ones_nonzero by blast
  have lt: "n < sz" using one.prems ne by auto
  show ?case
  proof (cases nb)
    case 0
    then show ?thesis by (subst encode_many_groups.simps) (simp add: group_code_one [OF one.hyps])
  next
    case (Suc m)
    obtain n1 where sc: "encode_many_scan data k sz m n (stream_write_bit s True) =
        (m - length (run_code xs), n1, wappend (stream_write_bit s True) (take m (run_code xs)))"
      and sc': "length (run_code xs) \<le> m \<Longrightarrow> n1 = n + run xs"
      using encode_many_scan_eq [OF one.prems(1,2) ne] by blast
    have e: "encode_many_groups data k sz nb n (ones xs) s =
        encode_many_groups data k sz (m - length (run_code xs)) (n1 + 1) (ones ?d)
          (wappend (stream_write_bit s True) (take m (run_code xs)))"
      unfolding ones_run [OF one.hyps] using x lt sc Suc by (subst encode_many_groups.simps) simp
    show ?thesis
    proof (cases "length (run_code xs) \<le> m")
      case True
      have "n1 + 1 \<le> sz" "?d = drop (n1 + 1) (plane data k)"
        using sc' [OF True] one.prems run_less [OF ne] by (simp_all add: ac_simps)
      then show ?thesis
        using one.IH [of "n1 + 1" "m - length (run_code xs)" "wappend (stream_write_bit s True) (take m (run_code xs))"]
          True sc' [OF True] Suc one.prems(2)
        unfolding e by (auto simp: group_code_one [OF one.hyps] reach_run [OF one.hyps] wappend_append)
    next
      case False
      then show ?thesis unfolding e using Suc
        by (subst encode_many_groups.simps) (simp add: group_code_one [OF one.hyps])
    qed
  qed
qed

lemma write_plane_bits_eq: "m \<le> length data \<Longrightarrow> write_plane_bits data k m s = wappend s (take m (plane data k))"
proof (induction m)
  case (Suc m)
  have "take (Suc m) (plane data k) = take m (plane data k) @ [plane data k ! m]"
    using Suc.prems by (simp add: take_Suc_conv_app_nth)
  moreover have "write_plane_bits data k (Suc m) s = stream_write_bit (write_plane_bits data k m s) (drop_bit k (data ! m) AND 1 \<noteq> 0)"
    by (simp add: write_plane_bits_def)
  ultimately show ?case using Suc plane_test [of m data k] by (simp add: wappend_append)
qed (simp add: write_plane_bits_def)

lemma unat_and_1: "unat (w AND 1) = of_bool (w AND 1 \<noteq> 0)" for w :: "'a::len word"
  by (simp add: and_one_eq mod_2_eq_odd)

lemma count_ones_eq: "i \<le> length data \<Longrightarrow> count_ones data k i (length data) = ones (drop i (plane data k))"
proof -
  have f: "foldl (\<lambda>c i. c + unat (drop_bit k (data ! i) AND 1)) c [i..<length data] = c + ones (drop i (plane data k))"
    if "i \<le> length data" for c using that
  proof (induction "length data - i" arbitrary: i c)
    case 0
    then show ?case by (simp add: ones_def)
  next
    case (Suc t)
    then have "i < length data" by simp
    moreover have "drop i (plane data k) = plane data k ! i # drop (Suc i) (plane data k)"
      using \<open>i < length data\<close> by (intro Cons_nth_drop_Suc [symmetric]) simp
    ultimately show ?case using Suc plane_test [of i data k]
      by (simp add: upt_conv_Cons ones_def unat_and_1)
  qed
  assume "i \<le> length data"
  from f [OF this] show ?thesis by (simp add: count_ones_def)
qed

definition plane_code :: "nat \<Rightarrow> bool list \<Rightarrow> bool list" where
  "plane_code n p = take n p @ group_code (drop n p)"

lemma planes_code_Cons: "planes_code n (p # ps) = plane_code n p @ planes_code (n + reach (drop n p)) ps"
  by (simp add: plane_code_def)

lemma reach_bound: "n \<le> length p \<Longrightarrow> n + reach (drop n p) \<le> length p"
  using reach_le [of "drop n p"] by simp

text \<open>
  A rate-constrained encoder of bit planes: one plane appends the code of the plane up to the budget
  \<open>nb\<close> and returns what is left of the budget. The loop over the planes then appends the code of all
  planes up to the budget.
\<close>

locale plane_encoder =
  fixes valid :: "('u::len) word list \<Rightarrow> bool"
    and enc_plane :: "'u word list \<Rightarrow> nat \<Rightarrow> nat \<Rightarrow> nat \<Rightarrow> nat \<Rightarrow> ('w::len) bitstream \<Rightarrow> nat \<times> nat \<times> 'w bitstream"
    and enc_planes :: "'u word list \<Rightarrow> nat \<Rightarrow> nat \<Rightarrow> nat \<Rightarrow> nat \<Rightarrow> nat \<Rightarrow> 'w bitstream \<Rightarrow> nat \<times> 'w bitstream"
  assumes enc_planes_0: "enc_planes data sz kmin 0 n nb s = (nb, s)"
    and enc_planes_Suc: "enc_planes data sz kmin (Suc k) n nb s =
      (if nb \<noteq> 0 \<and> kmin < Suc k
       then let (nb, n, s) = enc_plane data sz k n nb s in enc_planes data sz kmin k n nb s
       else (nb, s))"
    and enc_plane_law: "valid data \<Longrightarrow> sink_ok s \<Longrightarrow> n \<le> length data \<Longrightarrow>
      \<exists>n'. enc_plane data (length data) k n nb s =
          (nb - length (plane_code n (plane data k)), n', wappend s (take nb (plane_code n (plane data k))))
        \<and> (length (plane_code n (plane data k)) \<le> nb \<longrightarrow> n' = n + reach (drop n (plane data k)))"
begin

lemma enc_planes_stop: "enc_planes data sz kmin k n 0 s = (0, s)"
  by (cases k) (simp_all add: enc_planes_0 enc_planes_Suc)

lemma enc_planes_eq:
  assumes "valid data" "sink_ok s" "n \<le> length data"
  shows "enc_planes data (length data) kmin k n nb s =
    (nb - length (planes_code n (planes data kmin k)), wappend s (take nb (planes_code n (planes data kmin k))))"
  using assms(2,3)
proof (induction k arbitrary: n nb s)
  case 0
  then show ?case by (simp add: planes_empty enc_planes_0)
next
  case (Suc k)
  show ?case
  proof (cases "nb \<noteq> 0 \<and> kmin < Suc k")
    case False
    then show ?thesis by (auto simp: planes_empty enc_planes_Suc)
  next
    case True
    define c where "c = plane_code n (plane data k)"
    define r where "r = n + reach (drop n (plane data k))"
    obtain n' where p: "enc_plane data (length data) k n nb s = (nb - length c, n', wappend s (take nb c))"
      and n': "length c \<le> nb \<Longrightarrow> n' = r"
      using enc_plane_law [OF assms(1) Suc.prems] unfolding c_def r_def by blast
    have e: "enc_planes data (length data) kmin (Suc k) n nb s =
        enc_planes data (length data) kmin k n' (nb - length c) (wappend s (take nb c))"
      using True p by (simp add: enc_planes_Suc)
    have pc: "planes_code n (planes data kmin (Suc k)) = c @ planes_code r (planes data kmin k)"
      using True by (simp add: planes_Suc planes_code_Cons c_def r_def del: planes_code.simps)
    show ?thesis
    proof (cases "length c \<le> nb")
      case ok: True
      have "r \<le> length data" using reach_bound [of n "plane data k"] Suc.prems by (simp add: r_def)
      then show ?thesis unfolding e pc using Suc.IH [of "wappend s c" r] Suc.prems n' [OF ok] ok
        by (simp add: wappend_append)
    next
      case False
      then show ?thesis unfolding e pc by (simp add: enc_planes_stop)
    qed
  qed
qed

end

locale plane_encoder_prec =
  fixes valid :: "('u::len) word list \<Rightarrow> bool"
    and enc_plane :: "'u word list \<Rightarrow> nat \<Rightarrow> nat \<Rightarrow> nat \<Rightarrow> ('w::len) bitstream \<Rightarrow> nat \<times> 'w bitstream"
    and enc_planes :: "'u word list \<Rightarrow> nat \<Rightarrow> nat \<Rightarrow> nat \<Rightarrow> nat \<Rightarrow> 'w bitstream \<Rightarrow> 'w bitstream"
  assumes enc_planes_0: "enc_planes data sz kmin 0 n s = s"
    and enc_planes_Suc: "enc_planes data sz kmin (Suc k) n s =
      (if kmin < Suc k then let (n, s) = enc_plane data sz k n s in enc_planes data sz kmin k n s else s)"
    and enc_plane_law: "valid data \<Longrightarrow> sink_ok s \<Longrightarrow> n \<le> length data \<Longrightarrow>
      enc_plane data (length data) k n s =
        (n + reach (drop n (plane data k)), wappend s (plane_code n (plane data k)))"
begin

lemma enc_planes_eq:
  assumes "valid data" "sink_ok s" "n \<le> length data"
  shows "enc_planes data (length data) kmin k n s = wappend s (planes_code n (planes data kmin k))"
  using assms(2,3)
proof (induction k arbitrary: n s)
  case 0
  then show ?case by (simp add: planes_empty enc_planes_0)
next
  case (Suc k)
  show ?case
  proof (cases "kmin < Suc k")
    case False
    then show ?thesis by (auto simp: planes_empty enc_planes_Suc)
  next
    case True
    then show ?thesis
      using Suc.IH [of "wappend s (plane_code n (plane data k))" "n + reach (drop n (plane data k))"]
        enc_plane_law [OF assms(1) Suc.prems] reach_bound [of n "plane data k"] Suc.prems
      by (simp add: enc_planes_Suc planes_Suc planes_code_Cons wappend_append del: planes_code.simps)
  qed
qed

end

lemma encode_few_plane_law:
  assumes "length data \<le> 64" "sink_ok s" "n \<le> length data"
  shows "\<exists>n'. encode_few_plane data (length data) k n nb s =
      (nb - length (plane_code n (plane data k)), n', wappend s (take nb (plane_code n (plane data k))))
    \<and> (length (plane_code n (plane data k)) \<le> nb \<longrightarrow> n' = n + reach (drop n (plane data k)))"
proof -
  define p d x where "p = plane data k" and "d = drop n p" and "x = extract_plane data (length data) k"
  have lp: "length p = length data" by (simp add: p_def)
  have h: "holds x p" using extract_plane_holds [OF assms(1)] by (simp add: p_def x_def)
  have w: "stream_write_bits s x (min n nb) = (drop_bit (min n nb) x, wappend s (take (min n nb) p))"
    using assms lp h by (intro write_bits_holds) auto
  show ?thesis
  proof (cases "n \<le> nb")
    case True
    have "n + length d = length data" using assms lp by (simp add: d_def)
    then have "\<exists>n' x'. encode_few_groups (length data) (nb - n) n (drop_bit n x) (wappend s (take n p)) =
        (nb - n - length (group_code d), n', x', wappend (wappend s (take n p)) (take (nb - n) (group_code d)))
      \<and> (length (group_code d) \<le> nb - n \<longrightarrow> n' = n + reach d)"
      using holds_drop [OF h, of n] by (intro encode_few_groups_eq) (simp_all add: d_def)
    then show ?thesis using w True assms(3) lp
      by (auto simp: encode_few_plane_def plane_code_def wappend_append min_def
          x_def [symmetric] p_def [symmetric] d_def [symmetric])
  next
    case False
    have "encode_few_groups sz 0 n y s' = (0, n, y, s')" for sz y and s' :: "'b bitstream"
      by (subst encode_few_groups.simps) simp
    then show ?thesis using w False assms(3) lp
      by (simp add: encode_few_plane_def plane_code_def min_def x_def [symmetric] p_def [symmetric])
  qed
qed

interpretation few_encoder: plane_encoder "\<lambda>data. length data \<le> 64" encode_few_plane encode_few_planes
  by unfold_locales (simp_all add: encode_few_plane_law)

lemma encode_many_plane_law:
  assumes "sink_ok s" "n \<le> length data"
  shows "\<exists>n'. encode_many_plane data (length data) k n nb s =
      (nb - length (plane_code n (plane data k)), n', wappend s (take nb (plane_code n (plane data k))))
    \<and> (length (plane_code n (plane data k)) \<le> nb \<longrightarrow> n' = n + reach (drop n (plane data k)))"
proof (cases "n \<le> nb")
  case True
  let ?d = "drop n (plane data k)" and ?s = "wappend s (take n (plane data k))"
  have "\<exists>n'. encode_many_groups data k (length data) (nb - n) n (ones ?d) ?s =
      (nb - n - length (group_code ?d), n', wappend ?s (take (nb - n) (group_code ?d)))
    \<and> (length (group_code ?d) \<le> nb - n \<longrightarrow> n' = n + reach ?d)"
    using assms(2) by (intro encode_many_groups_eq) simp_all
  then show ?thesis using True assms
    by (auto simp: encode_many_plane_def plane_code_def min_def count_ones_eq write_plane_bits_eq wappend_append)
next
  case False
  have "encode_many_groups data k sz 0 n c s' = (0, n, s')" for sz c and s' :: "'a bitstream"
    by (subst encode_many_groups.simps) simp
  then show ?thesis using False assms
    by (simp add: encode_many_plane_def plane_code_def min_def write_plane_bits_eq)
qed

interpretation many_encoder: plane_encoder "\<lambda>data. True" encode_many_plane encode_many_planes
  by unfold_locales (simp_all add: encode_many_plane_law)

lemma encode_few_prec_scan_eq:
  assumes "n + length xs = sz" "xs \<noteq> []" "holds x xs"
  shows "encode_few_prec_scan sz n x s = (n + run xs, drop_bit (run xs) x, wappend s (run_code xs))"
  using assms
proof (induction xs arbitrary: n x s)
  case (Cons b xs)
  note h = holds_Cons [OF Cons.prems(3)]
  show ?case
  proof (cases "xs = []")
    case True
    then show ?thesis using Cons.prems
      by (subst encode_few_prec_scan.simps) (auto simp: run_code_Cons run_Cons)
  next
    case False
    then have lt: "n < sz - 1" using Cons.prems by (cases xs) auto
    have "encode_few_prec_scan sz (Suc n) (drop_bit 1 x) (stream_write_bit s False) =
        (Suc n + run xs, drop_bit (run xs) (drop_bit 1 x), wappend (stream_write_bit s False) (run_code xs))"
      using Cons.prems False h(2) by (intro Cons.IH) auto
    then show ?thesis using lt False h(1)
      by (subst encode_few_prec_scan.simps) (auto simp: run_code_Cons run_Cons drop_bit_drop_bit)
  qed
qed simp

lemma encode_few_prec_groups_eq:
  fixes s :: "('w::len) bitstream"
  assumes "n + length xs = sz" "holds x xs"
  shows "\<exists>x'. encode_few_prec_groups sz n x s = (n + reach xs, x', wappend s (group_code xs))"
  using assms
proof (induction xs arbitrary: n x s rule: group_induct)
  case Nil
  then show ?case by (subst encode_few_prec_groups.simps) simp
next
  case (zero xs)
  then have "n < sz" "x = 0" using holds_nonzero [of x xs] by (cases xs; auto)+
  then show ?case using zero by (subst encode_few_prec_groups.simps) (simp add: group_code_zero reach_zero)
next
  case (one xs)
  have ne: "xs \<noteq> []" using one.hyps by auto
  have x: "x \<noteq> 0" and lt: "n < sz" using one ne holds_nonzero [of x xs] by (cases xs; auto)+
  have "\<exists>x'. encode_few_prec_groups sz (n + run xs + 1) (drop_bit (run xs + 1) x) s' =
      (n + run xs + 1 + reach (drop (run xs + 1) xs), x', wappend s' (group_code (drop (run xs + 1) xs)))" for s' :: "'w bitstream"
    using one.prems run_less [OF ne] holds_drop [OF one.prems(2)] by (intro one.IH) simp_all
  then show ?case using x lt encode_few_prec_scan_eq [OF one.prems(1) ne one.prems(2), of "stream_write_bit s True"]
    by (subst encode_few_prec_groups.simps)
      (simp add: group_code_one [OF one.hyps] reach_run [OF one.hyps] wappend_append drop_bit_drop_bit add.assoc)
qed

lemma encode_few_prec_plane_law:
  assumes "length data \<le> 64" "sink_ok s" "n \<le> length data"
  shows "encode_few_prec_plane data (length data) k n s =
    (n + reach (drop n (plane data k)), wappend s (plane_code n (plane data k)))"
proof -
  define p x where "p = plane data k" and "x = extract_plane data (length data) k"
  have lp: "length p = length data" by (simp add: p_def)
  have h: "holds x p" using extract_plane_holds [OF assms(1)] by (simp add: p_def x_def)
  have w: "stream_write_bits s x n = (drop_bit n x, wappend s (take n p))"
    using assms lp h by (intro write_bits_holds) auto
  have "\<exists>x'. encode_few_prec_groups (length data) n (drop_bit n x) (wappend s (take n p)) =
      (n + reach (drop n p), x', wappend (wappend s (take n p)) (group_code (drop n p)))"
    using holds_drop [OF h, of n] assms lp by (intro encode_few_prec_groups_eq) simp_all
  then show ?thesis using w
    by (auto simp: encode_few_prec_plane_def plane_code_def wappend_append x_def [symmetric] p_def [symmetric])
qed

interpretation few_encoder_prec: plane_encoder_prec "\<lambda>data. length data \<le> 64" encode_few_prec_plane encode_few_prec_planes
  by unfold_locales (simp_all add: encode_few_prec_plane_law)

lemma encode_many_prec_scan_eq:
  assumes "xs = drop n (plane data k)" "length data = sz" "xs \<noteq> []"
  shows "encode_many_prec_scan data k sz n s = (n + run xs, wappend s (run_code xs))"
  using assms
proof (induction xs arbitrary: n s)
  case (Cons b xs)
  note d = drop_plane_Cons [OF Cons.prems(1)]
  have len: "sz = n + Suc (length xs)"
    using Cons.prems(1,2) by (metis length_Cons length_drop length_plane d(1) le_add_diff_inverse less_imp_le)
  show ?case
  proof (cases "xs = []")
    case True
    then show ?thesis using len by (subst encode_many_prec_scan.simps) (simp add: run_code_Cons run_Cons)
  next
    case False
    then have lt: "n < sz - 1" using len by (cases xs) auto
    have "encode_many_prec_scan data k sz (Suc n) (stream_write_bit s False) =
        (Suc n + run xs, wappend (stream_write_bit s False) (run_code xs))"
      using Cons.prems False d(3) by (intro Cons.IH) auto
    then show ?thesis using lt False d(2)
      by (subst encode_many_prec_scan.simps) (auto simp: run_code_Cons run_Cons)
  qed
qed simp

lemma encode_many_prec_groups_eq:
  fixes s :: "('w::len) bitstream"
  assumes "xs = drop n (plane data k)" "length data = sz" "n \<le> sz"
  shows "encode_many_prec_groups data k sz n (ones xs) s = (n + reach xs, wappend s (group_code xs))"
  using assms
proof (induction xs arbitrary: n s rule: group_induct)
  case Nil
  then show ?case by (subst encode_many_prec_groups.simps) simp
next
  case (zero xs)
  then have "n < sz" "ones xs = 0" using ones_nonzero [of xs] by auto
  then show ?case using zero by (subst encode_many_prec_groups.simps) (simp add: group_code_zero reach_zero)
next
  case (one xs)
  let ?d = "drop (run xs + 1) xs"
  have ne: "xs \<noteq> []" using one.hyps by auto
  have x: "ones xs \<noteq> 0" using one.hyps ones_nonzero by blast
  have lt: "n < sz" using one.prems ne by auto
  have IH: "encode_many_prec_groups data k sz (n + run xs + 1) (ones ?d) s' =
      (n + run xs + 1 + reach ?d, wappend s' (group_code ?d))" for s' :: "'w bitstream"
    using one.prems run_less [OF ne] by (intro one.IH) (simp_all add: ac_simps)
  show ?case using x lt IH [unfolded ones_run [OF one.hyps]] encode_many_prec_scan_eq [OF one.prems(1,2) ne, of "stream_write_bit s True"]
    by (subst encode_many_prec_groups.simps)
      (simp add: group_code_one [OF one.hyps] reach_run [OF one.hyps]
        wappend_append add.assoc)
qed

lemma encode_many_prec_plane_law:
  "n \<le> length data \<Longrightarrow> encode_many_prec_plane data (length data) k n s =
    (n + reach (drop n (plane data k)), wappend s (plane_code n (plane data k)))"
  by (simp add: encode_many_prec_plane_def write_plane_bits_eq count_ones_eq encode_many_prec_groups_eq
      plane_code_def wappend_append)

interpretation many_encoder_prec: plane_encoder_prec "\<lambda>data. True" encode_many_prec_plane encode_many_prec_planes
  by unfold_locales (simp_all add: encode_many_prec_plane_law)

text \<open>All four encoders write the same code, and \<open>encode_ints\<close> cuts it at \<open>maxbits\<close>.\<close>

lemma encode_ints_eq:
  fixes data :: "('u::len) word list"
  assumes "sink_ok s" "data \<noteq> []"
  shows "encode_ints s maxbits maxprec data (length data) =
    (min maxbits (length (ints_code maxprec data)), wappend s (take maxbits (ints_code maxprec data)))"
proof -
  have w: "winv s" using assms(1) by (simp add: sink_ok_def)
  have "length (ints_code maxprec data) \<le> maxbits" if "\<not> with_maxbits maxbits maxprec (length data)"
    using that length_ints_code [OF assms(2), of maxprec] by (simp add: with_maxbits_def)
  then show ?thesis
    using assms w few_encoder.enc_planes_eq [OF _ assms(1), of data 0]
      few_encoder_prec.enc_planes_eq [OF _ assms(1), of data 0]
    by (auto simp: encode_ints_def encode_few_ints_def encode_many_ints_def encode_few_ints_prec_def
        encode_many_ints_prec_def many_encoder.enc_planes_eq [OF _ assms(1)]
        many_encoder_prec.enc_planes_eq [OF _ assms(1)] ints_code_def [symmetric] min_def)
qed

section \<open>Decoders read the code\<close>

lemma upcoming_take_Suc:
  "source_ok s \<Longrightarrow> upcoming s (take (Suc m) (b # bs)) \<longleftrightarrow> stream_peek s 0 = b \<and> upcoming (stream_skip s 1) (take m bs)"
  by (simp add: upcoming_Cons)

lemma read_peek: "source_ok s \<Longrightarrow> stream_read_bit s = (stream_peek s 0, stream_skip s 1)"
  by (rule source.get_peek)

lemma skip_0 [simp]: "source_ok s \<Longrightarrow> stream_skip s 0 = s"
  by (rule source.skip_0)

lemma decode_scan_eq:
  assumes "n + length xs = sz" "xs \<noteq> []" "source_ok s" "upcoming s (take nb (run_code xs))"
  shows "\<exists>n'. decode_scan sz nb n s = (nb - length (run_code xs), n', stream_skip s (min nb (length (run_code xs))))
    \<and> n \<le> n' \<and> n' < sz \<and> (length (run_code xs) \<le> nb \<longrightarrow> n' = n + run xs)"
  using assms
proof (induction xs arbitrary: n nb s)
  case (Cons b xs)
  show ?case
  proof (cases "xs = [] \<or> nb = 0")
    case True
    then show ?thesis using Cons.prems
      by (subst decode_scan.simps) (cases "xs = []"; auto simp: run_code_Cons run_Cons)
  next
    case False
    then obtain m where nb: "nb = Suc m" by (cases nb) auto
    have lt: "n < sz - 1" using Cons.prems False by (cases xs) auto
    have b: "stream_peek s 0 = b" using Cons.prems nb False
      by (cases b) (simp_all add: run_code_Cons upcoming_Cons)
    show ?thesis
    proof (cases b)
      case True
      then show ?thesis using lt nb False b Cons.prems(3)
        by (subst decode_scan.simps) (auto simp: run_code_Cons run_Cons read_peek)
    next
      case nb': False
      have "\<exists>n'. decode_scan sz m (Suc n) (stream_skip s 1) =
          (m - length (run_code xs), n', stream_skip (stream_skip s 1) (min m (length (run_code xs))))
        \<and> Suc n \<le> n' \<and> n' < sz \<and> (length (run_code xs) \<le> m \<longrightarrow> n' = Suc n + run xs)"
        using Cons.prems False nb nb' by (intro Cons.IH) (auto simp: run_code_Cons upcoming_Cons)
      then show ?thesis using lt nb False nb' b Cons.prems(3)
        by (subst decode_scan.simps) (auto simp: run_code_Cons run_Cons read_peek)
    qed
  qed
qed simp

lemma holds_bit_less: "holds x ys \<Longrightarrow> bit x i \<Longrightarrow> i < length ys"
  by (simp add: holds_def)

lemma holds_add:
  assumes "holds x ys" "length ys \<le> n" "n < 64"
  shows "holds (x + push_bit n 1) (ys @ replicate (n - length ys) False @ [True])"
proof -
  have b: "bit (push_bit n 1 :: uint64) i \<longleftrightarrow> i = n" for i using assms(3) by (auto simp: push_bit_of_1 bit_exp_iff possible_bit_def)
  have "x + push_bit n 1 = x OR push_bit n 1"
  proof (rule disjoint_add_or)
    fix i assume "bit x i" "bit (push_bit n 1 :: uint64) i"
    then show False using holds_bit_less [OF assms(1), of i] b [of i] assms(2) by linarith
  qed
  then have "bit (x + push_bit n 1) i \<longleftrightarrow> bit x i \<or> i = n" for i by (simp only: bit_or_iff b)
  moreover have "i < Suc n \<and> (ys @ replicate (n - length ys) False @ [True]) ! i \<longleftrightarrow> bit x i \<or> i = n" for i
  proof (cases "i < length ys")
    case True
    then show ?thesis using assms by (simp add: nth_append holds_def)
  next
    case False
    then have "\<not> bit x i" using assms(1) by (simp add: holds_def)
    then show ?thesis using False assms(2) by (cases "i = n") (auto simp: nth_append nth_Cons')
  qed
  ultimately show ?thesis using assms(2) unfolding holds_def by simp
qed

lemma holds_zeros: "holds x ys \<Longrightarrow> holds x (ys @ replicate m False)"
  unfolding holds_def by (auto simp: nth_append)

lemma take_run: "take (run xs) xs = replicate (run xs) False"
proof (rule nth_equalityI)
  show "length (take (run xs) xs) = length (replicate (run xs) False)"
    using run_less [of xs] by (cases "xs = []") (simp_all add: run_def)
qed (use run_zero [of _ xs] in simp)

lemma split_run: "True \<in> set xs \<Longrightarrow> xs = replicate (run xs) False @ True # drop (run xs + 1) xs"
  using run_one [of xs] run_less [of xs] take_run [of xs]
  by (metis Suc_eq_plus1 id_take_nth_drop list.set_cases list.distinct(1))

lemma all_False: "True \<notin> set xs \<Longrightarrow> xs = replicate (length xs) False"
  by (rule replicate_length_same [symmetric]) auto

lemma decode_few_groups_eq:
  assumes "length ys = n" "n + length xs = sz" "sz \<le> 64" "holds x ys"
    "source_ok s" "upcoming s (take nb (group_code xs))"
  shows "\<exists>n' x'. decode_few_groups sz nb n x s =
      (nb - length (group_code xs), n', x', stream_skip s (min nb (length (group_code xs))))
    \<and> (\<forall>i. bit x' i \<longrightarrow> i < sz)
    \<and> (length (group_code xs) \<le> nb \<longrightarrow> n' = n + reach xs \<and> holds x' (ys @ xs))"
  using assms
proof (induction xs arbitrary: n nb x ys s rule: group_induct)
  case Nil
  then show ?case using holds_bit_less [OF Nil.prems(4)] by (subst decode_few_groups.simps) simp
next
  case (zero xs)
  have bl: "bit x i \<Longrightarrow> i < sz" for i using holds_bit_less [OF zero.prems(4), of i] zero.prems(1,2) by simp
  have lt: "n < sz" using zero by (cases xs) auto
  have h: "holds x (ys @ xs)" using holds_zeros [OF zero.prems(4), of "length xs"] all_False [OF zero.hyps(2)] by simp
  show ?case
  proof (cases nb)
    case 0
    then show ?thesis using bl zero
      by (subst decode_few_groups.simps) (auto simp: group_code_zero)
  next
    case (Suc m)
    then show ?thesis using bl h lt zero
      by (subst decode_few_groups.simps) (auto simp: group_code_zero reach_zero read_peek upcoming_Cons)
  qed
next
  case (one xs)
  let ?d = "drop (run xs + 1) xs"
  have ne: "xs \<noteq> []" using one.hyps by auto
  have lt: "n < sz" using one.prems ne by (cases xs) auto
  have bl: "bit x i \<Longrightarrow> i < sz" for i using holds_bit_less [OF one.prems(4), of i] one.prems(1,2) by simp
  show ?case
  proof (cases nb)
    case 0
    then show ?thesis using bl one by (subst decode_few_groups.simps) (auto simp: group_code_one)
  next
    case (Suc m)
    have t: "stream_peek s 0" and up: "upcoming (stream_skip s 1) (take m (run_code xs @ group_code ?d))"
      using one.prems Suc by (simp_all add: group_code_one [OF one.hyps] upcoming_Cons)
    have "upcoming (stream_skip s 1) (take m (run_code xs))"
      using up one.prems(5) by (simp add: upcoming_append)
    then obtain n1 where sc: "decode_scan sz m n (stream_skip s 1) =
        (m - length (run_code xs), n1, stream_skip (stream_skip s 1) (min m (length (run_code xs))))"
      and n1: "n \<le> n1" "n1 < sz" "length (run_code xs) \<le> m \<Longrightarrow> n1 = n + run xs"
      using decode_scan_eq [OF one.prems(2) ne, of "stream_skip s 1" m] one.prems(5) by auto
    have h1: "holds (x + push_bit n1 1) (ys @ replicate (n1 - n) False @ [True])"
      using holds_add [OF one.prems(4), of n1] one.prems n1 by simp
    have e: "decode_few_groups sz nb n x s = decode_few_groups sz (m - length (run_code xs)) (n1 + 1) (x + push_bit n1 1)
        (stream_skip s (1 + min m (length (run_code xs))))"
      using lt sc Suc t one.prems(5) by (subst decode_few_groups.simps) (simp add: read_peek)
    show ?thesis
    proof (cases "length (run_code xs) \<le> m")
      case True
      note n1' = n1(3) [OF True]
      let ?ys = "ys @ replicate (run xs) False @ [True]" and ?s = "stream_skip s (1 + length (run_code xs))"
      have "\<exists>n' x'. decode_few_groups sz (m - length (run_code xs)) (n1 + 1) (x + push_bit n1 1) ?s =
        (m - length (run_code xs) - length (group_code ?d), n', x',
          stream_skip ?s (min (m - length (run_code xs)) (length (group_code ?d))))
        \<and> (\<forall>i. bit x' i \<longrightarrow> i < sz)
        \<and> (length (group_code ?d) \<le> m - length (run_code xs) \<longrightarrow> n' = n1 + 1 + reach ?d \<and> holds x' (?ys @ ?d))"
        using one.prems run_less [OF ne] h1 n1' up True
        by (intro one.IH) (simp_all add: upcoming_append)
      moreover have "?ys @ ?d = ys @ xs" using split_run [OF one.hyps] by simp
      ultimately show ?thesis unfolding e using True n1' Suc one.prems(5)
        by (auto simp: group_code_one [OF one.hyps] reach_run [OF one.hyps] min_def split: if_splits)
    next
      case False
      have "bit (x + push_bit n1 1) i \<Longrightarrow> i < sz" for i
        using holds_bit_less [OF h1, of i] n1 one.prems(1) by simp
      then show ?thesis unfolding e using Suc False
        by (subst decode_few_groups.simps) (simp add: group_code_one [OF one.hyps])
    qed
  qed
qed

lemma deposit_plane_nth:
  fixes data :: "('u::len) word list"
  assumes "\<forall>j. bit x j \<longrightarrow> i + j < length data"
  shows "length (deposit_plane data i x k) = length data \<and>
    (\<forall>j < length data. deposit_plane data i x k ! j =
      (if i \<le> j \<and> bit x (j - i) then data ! j + push_bit k 1 else data ! j))"
  using assms
proof (induction data i x k rule: deposit_plane.induct)
  case (1 data i x k)
  define data' where "data' = data[i := data ! i + push_bit k (ucast (x AND 1))]"
  have ld: "length data' = length data" by (simp add: data'_def)
  have e: "deposit_plane data i x k = (if x \<noteq> 0 then deposit_plane data' (i + 1) (drop_bit 1 x) k else data)"
    by (subst deposit_plane.simps) (simp add: data'_def)
  have b: "\<forall>j. bit (drop_bit 1 x) j \<longrightarrow> i + 1 + j < length data'"
    using "1.prems" by (auto simp: bit_drop_bit_eq ld dest: spec [of _ "Suc _"])
  have a: "ucast (x AND 1) = (of_bool (bit x 0) :: 'u word)"
    by (cases "bit x 0") (simp_all add: and_one_eq bit_0 mod_2_eq_odd)
  show ?case
  proof (cases "x = 0")
    case False
    note IH = "1.IH" [OF False, folded data'_def, OF b]
    have "deposit_plane data i x k ! j = (if i \<le> j \<and> bit x (j - i) then data ! j + push_bit k 1 else data ! j)"
      if j: "j < length data" for j
    proof (cases "i < j")
      case True
      then have "bit (drop_bit 1 x) (j - (i + 1)) = bit x (j - i)" by (simp add: bit_drop_bit_eq Suc_diff_Suc)
      then show ?thesis using IH True j ld False by (simp add: e data'_def)
    next
      case ge: False
      then show ?thesis using IH j ld False by (auto simp: e data'_def a)
    qed
    then show ?thesis using IH False by (simp add: e ld)
  next
    case True
    then have "deposit_plane data i x k = data" by (subst deposit_plane.simps) simp
    then show ?thesis using True by simp
  qed
qed

text \<open>Adding \<open>2 ^ k\<close> to a word whose bit \<open>k\<close> is clear sets that bit.\<close>

lemma bit_add_exp:
  fixes w :: "'u::len word"
  assumes "\<not> bit w k" "k < LENGTH('u)"
  shows "bit (w + push_bit k 1) q \<longleftrightarrow> q = k \<or> bit w q"
proof -
  have b: "bit (push_bit k 1 :: 'u word) i \<longleftrightarrow> i = k" for i
    using assms(2) by (auto simp: push_bit_of_1 bit_exp_iff possible_bit_def)
  have "w + push_bit k 1 = w OR push_bit k 1"
    using assms(1) b by (intro disjoint_add_or) auto
  then show ?thesis by (simp only: bit_or_iff b disj_commute)
qed

text \<open>What decoding of plane \<open>k\<close> does to the integers: no other plane changes; \<open>p\<close> is the decoded
  plane.\<close>

definition plane_set :: "nat \<Rightarrow> bool list \<Rightarrow> ('u::len) word list \<Rightarrow> 'u word list \<Rightarrow> bool" where
  "plane_set k p data data' \<longleftrightarrow> length data' = length data \<and>
    (\<forall>i < length data. \<forall>q. bit (data' ! i) q \<longleftrightarrow>
      (if q = k then i < length p \<and> p ! i else bit (data ! i) q))"

definition clear :: "nat \<Rightarrow> ('u::len) word list \<Rightarrow> bool" where
  "clear k data \<longleftrightarrow> k < LENGTH('u) \<and> (\<forall>w \<in> set data. \<not> bit w k)"

lemma plane_set_length: "plane_set k p data data' \<Longrightarrow> length data' = length data"
  by (simp add: plane_set_def)

lemma deposit_plane_set:
  assumes "clear k data" "holds x p" "length p \<le> length data"
  shows "plane_set k p data (deposit_plane data 0 x k)"
proof -
  have b: "\<forall>j. bit x j \<longrightarrow> 0 + j < length data" using assms by (auto simp: holds_def)
  have "bit (deposit_plane data 0 x k ! i) q = (if q = k then i < length p \<and> p ! i else bit (data ! i) q)"
    if "i < length data" for i q
    using deposit_plane_nth [OF b, of k] that assms bit_add_exp [of "data ! i" k q]
    by (auto simp: clear_def holds_def simp del: push_bit_of_1)
  then show ?thesis using deposit_plane_nth [OF b] by (simp add: plane_set_def)
qed

lemma word_holds: "\<forall>i. bit x i \<longrightarrow> i < n \<Longrightarrow> holds x (map (bit x) [0..<n])"
  by (auto simp: holds_def)

text \<open>
  A rate-constrained decoder of bit planes, and what it does before the code of a plane (cut at the
  budget): it consumes the code, sets plane \<open>k\<close> only, and sets it right if the code was complete.
\<close>

locale plane_decoder =
  fixes valid :: "nat \<Rightarrow> bool"
    and dec_plane :: "nat \<Rightarrow> nat \<Rightarrow> nat \<Rightarrow> nat \<Rightarrow> ('u::len) word list \<Rightarrow> ('w::len) bitstream \<Rightarrow>
      nat \<times> nat \<times> 'u word list \<times> 'w bitstream"
    and dec_planes :: "nat \<Rightarrow> nat \<Rightarrow> nat \<Rightarrow> nat \<Rightarrow> nat \<Rightarrow> 'u word list \<Rightarrow> 'w bitstream \<Rightarrow>
      nat \<times> 'u word list \<times> 'w bitstream"
  assumes dec_planes_0: "dec_planes sz kmin 0 n nb data s = (nb, data, s)"
    and dec_planes_Suc: "dec_planes sz kmin (Suc k) n nb data s =
      (if nb \<noteq> 0 \<and> kmin < Suc k
       then let (nb, n, data, s) = dec_plane sz k n nb data s in dec_planes sz kmin k n nb data s
       else (nb, data, s))"
    and dec_plane_law: "valid sz \<Longrightarrow> source_ok s \<Longrightarrow> n \<le> sz \<Longrightarrow> length p = sz \<Longrightarrow> length data = sz \<Longrightarrow>
      clear k data \<Longrightarrow> upcoming s (take nb (plane_code n p)) \<Longrightarrow>
      \<exists>n' data' p'. dec_plane sz k n nb data s =
          (nb - length (plane_code n p), n', data', stream_skip s (min nb (length (plane_code n p))))
        \<and> plane_set k p' data data'
        \<and> (length (plane_code n p) \<le> nb \<longrightarrow> n' = n + reach (drop n p) \<and> p' = p)"
begin

lemma dec_planes_stop: "dec_planes sz kmin k n 0 data s = (0, data, s)"
  by (cases k) (simp_all add: dec_planes_0 dec_planes_Suc)

end

text \<open>The result of decoding the planes \<open>k - 1\<close> down to \<open>kmin\<close> of the integers \<open>orig\<close> with budget \<open>nb\<close>:
  planes above are kept, planes below stay clear, and a plane is right if its code and the code of
  the planes before it fit the budget.\<close>

definition planes_set :: "nat \<Rightarrow> nat \<Rightarrow> nat \<Rightarrow> nat \<Rightarrow> ('u::len) word list \<Rightarrow> 'u word list \<Rightarrow> 'u word list \<Rightarrow> bool" where
  "planes_set kmin k n nb orig data data' \<longleftrightarrow> length data' = length data \<and>
    (\<forall>i < length data. \<forall>q.
      (k \<le> q \<or> q < kmin \<longrightarrow> bit (data' ! i) q = bit (data ! i) q) \<and>
      (kmin \<le> q \<and> q < k \<and> length (planes_code n (planes orig q k)) \<le> nb \<longrightarrow> bit (data' ! i) q = bit (orig ! i) q))"

lemma planes_set_refl: "k \<le> kmin \<Longrightarrow> planes_set kmin k n nb orig data data"
  by (auto simp: planes_set_def)

lemma length_plane_code_pos: "n \<le> length p \<Longrightarrow> p \<noteq> [] \<Longrightarrow> 0 < length (plane_code n p)"
  by (cases "n = 0") (auto simp: plane_code_def group_code.simps [of p])

context plane_decoder
begin

lemma dec_planes_eq:
  assumes "valid (length orig)" "source_ok s" "n \<le> length orig" "length data = length orig" "orig \<noteq> []"
    "\<forall>q < k. clear q data" "upcoming s (take nb (planes_code n (planes orig kmin k)))"
  shows "\<exists>data'. dec_planes (length orig) kmin k n nb data s =
      (nb - length (planes_code n (planes orig kmin k)), data', stream_skip s (min nb (length (planes_code n (planes orig kmin k)))))
    \<and> planes_set kmin k n nb orig data data'"
  using assms(2-7)
proof (induction k arbitrary: n nb data s)
  case 0
  then show ?case by (simp add: dec_planes_0 planes_empty planes_set_refl)
next
  case (Suc k)
  show ?case
  proof (cases "nb \<noteq> 0 \<and> kmin < Suc k")
    case False
    have "planes_set kmin (Suc k) n nb orig data data"
    proof (cases "kmin < Suc k")
      case True
      then have "nb = 0" using False by simp
      moreover have "planes_code n (planes orig q (Suc k)) \<noteq> []" if "q < Suc k" for q
        using that Suc.prems length_plane_code_pos [of n "plane orig k"]
        by (auto simp: planes_Suc planes_code_Cons plane_def simp del: planes_code.simps)
      ultimately show ?thesis by (auto simp: planes_set_def)
    qed (simp add: planes_set_refl)
    then show ?thesis using False Suc.prems by (auto simp: dec_planes_Suc planes_empty)
  next
    case True
    define p c r where "p = plane orig k" and "c = plane_code n p" and "r = n + reach (drop n p)"
    have pc: "planes_code n (planes orig q (Suc k)) = c @ planes_code r (planes orig q k)" if "q < Suc k" for q
      using that by (simp add: planes_Suc planes_code_Cons c_def r_def p_def del: planes_code.simps)
    have up: "upcoming s (take nb c)"
      and up2: "length c \<le> nb \<Longrightarrow> upcoming (stream_skip s (length c)) (take (nb - length c) (planes_code r (planes orig kmin k)))"
      using Suc.prems(1,6) True by (simp_all add: pc upcoming_append)
    obtain n' data1 p' where pl: "dec_plane (length orig) k n nb data s =
        (nb - length c, n', data1, stream_skip s (min nb (length c)))"
      and ps: "plane_set k p' data data1" and ok: "length c \<le> nb \<Longrightarrow> n' = r \<and> p' = p"
      using dec_plane_law [OF assms(1) Suc.prems(1,2), of p data k nb] Suc.prems up
      unfolding c_def r_def p_def by (auto simp: less_Suc_eq)
    have l1: "length data1 = length data" using plane_set_length [OF ps] .
    have e: "dec_planes (length orig) kmin (Suc k) n nb data s =
        dec_planes (length orig) kmin k n' (nb - length c) data1 (stream_skip s (min nb (length c)))"
      using True pl by (simp add: dec_planes_Suc)
    have cl: "\<forall>q < k. clear q data1"
    proof (intro allI impI)
      fix q assume "q < k"
      then have c: "clear q data" using Suc.prems(5) by simp
      have "bit (data1 ! i) q = bit (data ! i) q" if "i < length data" for i
        using ps that \<open>q < k\<close> by (simp add: plane_set_def)
      then show "clear q data1" using c l1 unfolding clear_def by (metis in_set_conv_nth nth_mem)
    qed
    show ?thesis
    proof (cases "length c \<le> nb")
      case le: True
      have "r \<le> length orig" using reach_bound [of n p] Suc.prems by (simp add: r_def p_def)
      then obtain data' where d: "dec_planes (length orig) kmin k r (nb - length c) data1 (stream_skip s (length c)) =
          (nb - length c - length (planes_code r (planes orig kmin k)), data',
            stream_skip (stream_skip s (length c)) (min (nb - length c) (length (planes_code r (planes orig kmin k)))))"
        and s: "planes_set kmin k r (nb - length c) orig data1 data'"
        using Suc.IH [of "stream_skip s (length c)" r data1 "nb - length c"] Suc.prems l1 cl up2 [OF le] by auto
      have "planes_set kmin (Suc k) n nb orig data data'"
        unfolding planes_set_def
      proof (intro conjI allI impI)
        show "length data' = length data" using s l1 by (simp add: planes_set_def)
      next
        fix i q assume i: "i < length data" and "Suc k \<le> q \<or> q < kmin"
        then show "bit (data' ! i) q = bit (data ! i) q"
          using s ps l1 True by (auto simp: planes_set_def plane_set_def)
      next
        fix i q assume i: "i < length data" and q: "kmin \<le> q \<and> q < Suc k \<and> length (planes_code n (planes orig q (Suc k))) \<le> nb"
        have p: "length p = length orig" "i < length orig \<Longrightarrow> p ! i = bit (orig ! i) k"
          using Suc.prems i by (auto simp: p_def plane_def)
        show "bit (data' ! i) q = bit (orig ! i) q"
        proof (cases "q = k")
          case True
          then show ?thesis using s ps l1 i ok [OF le] p Suc.prems(3) by (simp add: planes_set_def plane_set_def)
        next
          case False
          then show ?thesis using s l1 i q pc [of q] by (auto simp: planes_set_def)
        qed
      qed
      then show ?thesis using d e ok [OF le] le pc True Suc.prems(1) by (auto simp: min_def)
    next
      case False
      have "planes_set kmin (Suc k) n nb orig data data1"
        using ps False True pc by (auto simp: planes_set_def plane_set_def)
      then show ?thesis unfolding e using False pc True by (simp add: dec_planes_stop)
    qed
  qed
qed

end

lemma decode_few_plane_law:
  fixes s :: "('w::len) bitstream"
  assumes "sz \<le> 64" "source_ok s" "n \<le> sz" "length p = sz" "length data = sz" "clear k data"
    "upcoming s (take nb (plane_code n p))"
  shows "\<exists>n' data' p'. decode_few_plane sz k n nb data s =
      (nb - length (plane_code n p), n', data', stream_skip s (min nb (length (plane_code n p))))
    \<and> plane_set k p' data data'
    \<and> (length (plane_code n p) \<le> nb \<longrightarrow> n' = n + reach (drop n p) \<and> p' = p)"
proof (cases "n \<le> nb")
  case True
  let ?d = "drop n p"
  have u: "upcoming s (take n p)" "upcoming (stream_skip s n) (take (nb - n) (group_code ?d))"
    using assms True by (simp_all add: plane_code_def upcoming_append)
  have h: "holds (horner_sum of_bool 2 (take n p)) (take n p)"
    using assms by (auto simp: holds_def bit_horner_sum_bit_word_iff)
  have rd: "stream_read_bits s n = (horner_sum of_bool 2 (take n p), stream_skip s n)"
    using upcoming_read_bits [OF assms(2) u(1)] assms by simp
  obtain n' x' where g: "decode_few_groups sz (nb - n) n (horner_sum of_bool 2 (take n p)) (stream_skip s n) =
      (nb - n - length (group_code ?d), n', x', stream_skip (stream_skip s n) (min (nb - n) (length (group_code ?d))))"
    and x': "\<forall>i. bit x' i \<longrightarrow> i < sz"
    and ok: "length (group_code ?d) \<le> nb - n \<Longrightarrow> n' = n + reach ?d \<and> holds x' (take n p @ ?d)"
    using decode_few_groups_eq [OF _ _ assms(1) h, of n ?d "stream_skip s n" "nb - n"] assms u(2) by fastforce
  define p' where "p' = (if length (group_code ?d) \<le> nb - n then p else map (bit x') [0..<sz])"
  have "holds x' p'" using ok word_holds [OF x'] by (auto simp: p'_def)
  then have "plane_set k p' data (deposit_plane data 0 x' k)"
    using assms by (intro deposit_plane_set) (simp_all add: p'_def)
  then show ?thesis using g rd ok True assms(2-4)
    by (auto simp: decode_few_plane_def plane_code_def p'_def min_def intro!: exI [of _ p'])
next
  case False
  have u: "upcoming s (take nb p)" using assms False by (simp add: plane_code_def min_def)
  have rd: "stream_read_bits s nb = (horner_sum of_bool 2 (take nb p), stream_skip s nb)"
    using upcoming_read_bits [OF assms(2) u] assms False by simp
  have "holds (horner_sum of_bool 2 (take nb p)) (take nb p)"
    using assms by (auto simp: holds_def bit_horner_sum_bit_word_iff)
  then have "plane_set k (take nb p) data (deposit_plane data 0 (horner_sum of_bool 2 (take nb p)) k)"
    using assms by (intro deposit_plane_set) simp_all
  moreover have "decode_few_groups sz 0 n x s' = (0, n, x, s')" for x and s' :: "'w bitstream"
    by (subst decode_few_groups.simps) simp
  ultimately show ?thesis using rd False assms
    by (auto simp: decode_few_plane_def plane_code_def min_def)
qed

interpretation few_decoder: plane_decoder "\<lambda>sz. sz \<le> 64" decode_few_plane decode_few_planes
  by unfold_locales (simp, simp, rule decode_few_plane_law)

lemma min_split: "a \<le> m \<Longrightarrow> min m (a + b) = a + min (m - a) (b::nat)"
  by linarith

lemma plane_set_zeros: "plane_set k ys data data' \<Longrightarrow> plane_set k (ys @ replicate m False) data data'"
  unfolding plane_set_def by (auto simp: nth_append)

lemma plane_set_add:
  fixes data :: "('u::len) word list"
  assumes "plane_set k ys data data'" "length ys \<le> n" "n < length data" "k < LENGTH('u)"
  shows "plane_set k (ys @ replicate (n - length ys) False @ [True]) data (data'[n := data' ! n + push_bit k 1])"
proof -
  have "\<not> bit (data' ! n) k" using assms by (simp add: plane_set_def)
  note b = bit_add_exp [OF this assms(4)]
  show ?thesis unfolding plane_set_def
  proof (intro conjI allI impI)
    fix i q assume i: "i < length data"
    show "bit (data'[n := data' ! n + push_bit k 1] ! i) q =
      (if q = k then i < length (ys @ replicate (n - length ys) False @ [True]) \<and>
         (ys @ replicate (n - length ys) False @ [True]) ! i else bit (data ! i) q)"
    proof (cases "i = n")
      case True
      then show ?thesis using assms i b by (auto simp: plane_set_def nth_append simp del: push_bit_of_1)
    next
      case False
      then show ?thesis using assms i by (auto simp: plane_set_def nth_append nth_Cons')
    qed
  qed (use assms in \<open>simp add: plane_set_def\<close>)
qed

lemma decode_many_groups_eq:
  fixes data0 :: "('u::len) word list" and s :: "('w::len) bitstream"
  assumes "length ys = n" "n + length xs = sz" "length data0 = sz" "plane_set k ys data0 data" "k < LENGTH('u)"
    "source_ok s" "upcoming s (take nb (group_code xs))"
  shows "\<exists>n' data' p'. decode_many_groups k sz nb n data s =
      (nb - length (group_code xs), n', data', stream_skip s (min nb (length (group_code xs))))
    \<and> plane_set k p' data0 data'
    \<and> (length (group_code xs) \<le> nb \<longrightarrow> n' = n + reach xs \<and> p' = ys @ xs)"
  using assms
proof (induction xs arbitrary: n nb data ys s rule: group_induct)
  case Nil
  then show ?case by (subst decode_many_groups.simps) auto
next
  case (zero xs)
  have lt: "n < sz" using zero by (cases xs) auto
  have h: "plane_set k (ys @ xs) data0 data"
    using plane_set_zeros [OF zero.prems(4), of "length xs"] all_False [OF zero.hyps(2)] by simp
  show ?case
  proof (cases nb)
    case 0
    then show ?thesis using zero by (subst decode_many_groups.simps) (auto simp: group_code_zero)
  next
    case (Suc m)
    then show ?thesis using h lt zero
      by (subst decode_many_groups.simps) (auto simp: group_code_zero reach_zero read_peek upcoming_Cons)
  qed
next
  case (one xs)
  let ?d = "drop (run xs + 1) xs"
  have ne: "xs \<noteq> []" using one.hyps by auto
  have lt: "n < sz" using one.prems ne by (cases xs) auto
  show ?case
  proof (cases nb)
    case 0
    then show ?thesis using one by (subst decode_many_groups.simps) (auto simp: group_code_one)
  next
    case (Suc m)
    have t: "stream_peek s 0" and up: "upcoming (stream_skip s 1) (take m (run_code xs @ group_code ?d))"
      using one.prems Suc by (simp_all add: group_code_one [OF one.hyps] upcoming_Cons)
    have "upcoming (stream_skip s 1) (take m (run_code xs))"
      using up one.prems(6) by (simp add: upcoming_append)
    then obtain n1 where sc: "decode_scan sz m n (stream_skip s 1) =
        (m - length (run_code xs), n1, stream_skip (stream_skip s 1) (min m (length (run_code xs))))"
      and n1: "n \<le> n1" "n1 < sz" "length (run_code xs) \<le> m \<Longrightarrow> n1 = n + run xs"
      using decode_scan_eq [OF one.prems(2) ne, of "stream_skip s 1" m] one.prems(6) by auto
    define data1 where "data1 = data[n1 := data ! n1 + push_bit k 1]"
    have h1: "plane_set k (ys @ replicate (n1 - n) False @ [True]) data0 data1"
      using plane_set_add [OF one.prems(4), of n1] one.prems n1 by (simp add: data1_def)
    have e: "decode_many_groups k sz nb n data s = decode_many_groups k sz (m - length (run_code xs)) (n1 + 1) data1
        (stream_skip s (1 + min m (length (run_code xs))))"
      using lt sc Suc t one.prems(6) by (subst decode_many_groups.simps) (simp add: read_peek data1_def)
    show ?thesis
    proof (cases "length (run_code xs) \<le> m")
      case True
      note n1' = n1(3) [OF True]
      let ?ys = "ys @ replicate (run xs) False @ [True]" and ?s = "stream_skip s (1 + length (run_code xs))"
      have "\<exists>n' data' p'. decode_many_groups k sz (m - length (run_code xs)) (n1 + 1) data1 ?s =
        (m - length (run_code xs) - length (group_code ?d), n', data',
          stream_skip ?s (min (m - length (run_code xs)) (length (group_code ?d))))
        \<and> plane_set k p' data0 data'
        \<and> (length (group_code ?d) \<le> m - length (run_code xs) \<longrightarrow> n' = n1 + 1 + reach ?d \<and> p' = ?ys @ ?d)"
        using one.prems run_less [OF ne] h1 n1' up True
        by (intro one.IH) (simp_all add: upcoming_append)
      then obtain n' data' p' where
        "decode_many_groups k sz (m - length (run_code xs)) (n1 + 1) data1 ?s =
          (m - length (run_code xs) - length (group_code ?d), n', data',
            stream_skip ?s (min (m - length (run_code xs)) (length (group_code ?d))))"
        "plane_set k p' data0 data'"
        "length (group_code ?d) \<le> m - length (run_code xs) \<longrightarrow> n' = n1 + 1 + reach ?d \<and> p' = ?ys @ ?d" by blast
      moreover have "?ys @ ?d = ys @ xs" using split_run [OF one.hyps] by simp
      ultimately show ?thesis unfolding e using True n1' Suc one.prems(6)
        by (intro exI [of _ n'] exI [of _ data'] exI [of _ p'])
          (simp add: group_code_one [OF one.hyps] reach_run [OF one.hyps] min_split le_diff_conv2 ac_simps)
    next
      case False
      then show ?thesis unfolding e using Suc h1
        by (subst decode_many_groups.simps) (auto simp: group_code_one [OF one.hyps])
    qed
  qed
qed

lemma read_plane_bits_eq:
  fixes data :: "('u::len) word list" and s :: "('w::len) bitstream"
  assumes "clear k data" "source_ok s" "upcoming s ys" "length ys \<le> length data"
  shows "\<exists>data'. read_plane_bits k (length ys) (data, s) = (data', stream_skip s (length ys)) \<and> plane_set k ys data data'"
  using assms(3,4)
proof (induction ys rule: rev_induct)
  case Nil
  then show ?case using assms(1,2) by (auto simp: read_plane_bits_def plane_set_def clear_def)
next
  case (snoc y ys)
  have u: "upcoming s ys" "stream_peek (stream_skip s (length ys)) 0 = y"
    using snoc.prems assms(2) by (simp_all add: upcoming_append upcoming_Cons)
  obtain data1 where d: "read_plane_bits k (length ys) (data, s) = (data1, stream_skip s (length ys))"
    and ps: "plane_set k ys data data1" using snoc u by auto
  have "read_plane_bits k (length (ys @ [y])) (data, s) =
      (if y then data1[length ys := data1 ! length ys + push_bit k 1] else data1, stream_skip s (length (ys @ [y])))"
    using d u(2) assms(2) by (simp add: read_plane_bits_def read_peek del: push_bit_of_1)
  moreover have "plane_set k (ys @ [y]) data (if y then data1[length ys := data1 ! length ys + push_bit k 1] else data1)"
    using plane_set_add [OF ps, of "length ys"] plane_set_zeros [OF ps, of 1] snoc.prems assms(1)
    by (cases y) (simp_all add: clear_def del: push_bit_of_1)
  ultimately show ?case by blast
qed

lemma clear_len: "clear k (data :: ('u::len) word list) \<Longrightarrow> k < LENGTH('u)"
  by (simp add: clear_def)

lemma decode_many_plane_law:
  fixes data :: "('u::len) word list" and s :: "('w::len) bitstream"
  assumes "source_ok s" "n \<le> sz" "length p = sz" "length data = sz" "clear k data"
    "upcoming s (take nb (plane_code n p))"
  shows "\<exists>n' data' p'. decode_many_plane sz k n nb data s =
      (nb - length (plane_code n p), n', data', stream_skip s (min nb (length (plane_code n p))))
    \<and> plane_set k p' data data'
    \<and> (length (plane_code n p) \<le> nb \<longrightarrow> n' = n + reach (drop n p) \<and> p' = p)"
proof (cases "n \<le> nb")
  case True
  let ?d = "drop n p"
  have u: "upcoming s (take n p)" "upcoming (stream_skip s n) (take (nb - n) (group_code ?d))"
    using assms True by (simp_all add: plane_code_def upcoming_append)
  obtain data1 where d: "read_plane_bits k n (data, s) = (data1, stream_skip s n)"
    and ps: "plane_set k (take n p) data data1"
    using read_plane_bits_eq [OF assms(5,1) u(1)] assms by auto
  have "\<exists>n' data' p'. decode_many_groups k sz (nb - n) n data1 (stream_skip s n) =
      (nb - n - length (group_code ?d), n', data', stream_skip (stream_skip s n) (min (nb - n) (length (group_code ?d))))
    \<and> plane_set k p' data data'
    \<and> (length (group_code ?d) \<le> nb - n \<longrightarrow> n' = n + reach ?d \<and> p' = take n p @ ?d)"
    using assms ps u(2) by (intro decode_many_groups_eq) (simp_all add: clear_len)
  then obtain n' data' p' where
    "decode_many_groups k sz (nb - n) n data1 (stream_skip s n) =
      (nb - n - length (group_code ?d), n', data', stream_skip (stream_skip s n) (min (nb - n) (length (group_code ?d))))"
    "plane_set k p' data data'" "length (group_code ?d) \<le> nb - n \<longrightarrow> n' = n + reach ?d \<and> p' = take n p @ ?d" by blast
  then show ?thesis using d True assms(1-3)
    by (intro exI [of _ n'] exI [of _ data'] exI [of _ p'])
      (simp add: decode_many_plane_def plane_code_def min_split min_absorb1 le_diff_conv2 ac_simps)
next
  case False
  have u: "upcoming s (take nb p)" using assms False by (simp add: plane_code_def min_def)
  obtain data1 where d: "read_plane_bits k nb (data, s) = (data1, stream_skip s nb)"
    and ps: "plane_set k (take nb p) data data1"
    using read_plane_bits_eq [OF assms(5,1) u] assms False by auto
  have "decode_many_groups k sz 0 n data' s' = (0, n, data', s')" for data' :: "'u word list" and s' :: "'w bitstream"
    by (subst decode_many_groups.simps) simp
  then show ?thesis using d ps False assms
    by (auto simp: decode_many_plane_def plane_code_def min_def)
qed

interpretation many_decoder: plane_decoder "\<lambda>sz. True" decode_many_plane decode_many_planes
  by unfold_locales (simp, simp, rule decode_many_plane_law)

lemma decode_prec_scan_eq:
  assumes "n + length xs = sz" "xs \<noteq> []" "source_ok s" "upcoming s (run_code xs)"
  shows "decode_prec_scan sz n s = (n + run xs, stream_skip s (length (run_code xs)))"
  using assms
proof (induction xs arbitrary: n s)
  case (Cons b xs)
  show ?case
  proof (cases "xs = []")
    case True
    then show ?thesis using Cons.prems
      by (subst decode_prec_scan.simps) (auto simp: run_code_Cons run_Cons)
  next
    case False
    then have lt: "n < sz - 1" using Cons.prems by (cases xs) auto
    have b: "stream_peek s 0 = b" using Cons.prems False
      by (cases b) (simp_all add: run_code_Cons upcoming_Cons)
    have "\<not> b \<Longrightarrow> decode_prec_scan sz (Suc n) (stream_skip s 1) =
        (Suc n + run xs, stream_skip (stream_skip s 1) (length (run_code xs)))"
      using Cons.prems False by (intro Cons.IH) (auto simp: run_code_Cons upcoming_Cons)
    then show ?thesis using lt False b Cons.prems(3)
      by (subst decode_prec_scan.simps) (auto simp: run_code_Cons run_Cons read_peek)
  qed
qed simp

lemma decode_few_prec_groups_eq:
  fixes s :: "('w::len) bitstream"
  assumes "length ys = n" "n + length xs = sz" "sz \<le> 64" "holds x ys" "source_ok s" "upcoming s (group_code xs)"
  shows "\<exists>x'. decode_few_prec_groups sz n x s = (n + reach xs, x', stream_skip s (length (group_code xs)))
    \<and> holds x' (ys @ xs)"
  using assms
proof (induction xs arbitrary: n x ys s rule: group_induct)
  case Nil
  then show ?case by (subst decode_few_prec_groups.simps) simp
next
  case (zero xs)
  have lt: "n < sz" using zero by (cases xs) auto
  have h: "holds x (ys @ xs)" using holds_zeros [OF zero.prems(4), of "length xs"] all_False [OF zero.hyps(2)] by simp
  then show ?case using lt zero
    by (subst decode_few_prec_groups.simps) (auto simp: group_code_zero reach_zero read_peek upcoming_Cons)
next
  case (one xs)
  let ?d = "drop (run xs + 1) xs"
  have ne: "xs \<noteq> []" using one.hyps by auto
  have lt: "n < sz" using one.prems ne by (cases xs) auto
  have t: "stream_peek s 0" and up: "upcoming (stream_skip s 1) (run_code xs)"
    "upcoming (stream_skip s (1 + length (run_code xs))) (group_code ?d)"
    using one.prems by (simp_all add: group_code_one [OF one.hyps] upcoming_Cons upcoming_append)
  note sc = decode_prec_scan_eq [OF one.prems(2) ne source_ok_skip [OF one.prems(5)] up(1)]
  let ?ys = "ys @ replicate (run xs) False @ [True]" and ?n = "n + run xs"
  have h1: "holds (x + push_bit ?n 1) ?ys"
    using holds_add [OF one.prems(4), of ?n] one.prems run_less [OF ne] by simp
  have "\<exists>x'. decode_few_prec_groups sz (?n + 1) (x + push_bit ?n 1) (stream_skip s (1 + length (run_code xs))) =
      (?n + 1 + reach ?d, x', stream_skip (stream_skip s (1 + length (run_code xs))) (length (group_code ?d)))
    \<and> holds x' (?ys @ ?d)"
    using one.prems run_less [OF ne] h1 up by (intro one.IH) simp_all
  moreover have "?ys @ ?d = ys @ xs" using split_run [OF one.hyps] by simp
  ultimately show ?case using lt sc t one.prems(5)
    by (subst decode_few_prec_groups.simps)
      (simp add: read_peek group_code_one [OF one.hyps] reach_run [OF one.hyps] add.assoc del: push_bit_of_1)
qed

lemma decode_many_prec_groups_eq:
  fixes data0 :: "('u::len) word list" and s :: "('w::len) bitstream"
  assumes "length ys = n" "n + length xs = sz" "length data0 = sz" "plane_set k ys data0 data" "k < LENGTH('u)"
    "source_ok s" "upcoming s (group_code xs)"
  shows "\<exists>data'. decode_many_prec_groups k sz n data s = (n + reach xs, data', stream_skip s (length (group_code xs)))
    \<and> plane_set k (ys @ xs) data0 data'"
  using assms
proof (induction xs arbitrary: n data ys s rule: group_induct)
  case Nil
  then show ?case by (subst decode_many_prec_groups.simps) simp
next
  case (zero xs)
  have lt: "n < sz" using zero by (cases xs) auto
  have "plane_set k (ys @ xs) data0 data"
    using plane_set_zeros [OF zero.prems(4), of "length xs"] all_False [OF zero.hyps(2)] by simp
  then show ?case using lt zero
    by (subst decode_many_prec_groups.simps) (auto simp: group_code_zero reach_zero read_peek upcoming_Cons)
next
  case (one xs)
  let ?d = "drop (run xs + 1) xs"
  have ne: "xs \<noteq> []" using one.hyps by auto
  have lt: "n < sz" using one.prems ne by (cases xs) auto
  have t: "stream_peek s 0" and up: "upcoming (stream_skip s 1) (run_code xs)"
    "upcoming (stream_skip s (1 + length (run_code xs))) (group_code ?d)"
    using one.prems by (simp_all add: group_code_one [OF one.hyps] upcoming_Cons upcoming_append)
  note sc = decode_prec_scan_eq [OF one.prems(2) ne source_ok_skip [OF one.prems(6)] up(1)]
  let ?ys = "ys @ replicate (run xs) False @ [True]" and ?n = "n + run xs"
  let ?data = "data[?n := data ! ?n + push_bit k 1]"
  have h1: "plane_set k ?ys data0 ?data"
    using plane_set_add [OF one.prems(4), of ?n] one.prems run_less [OF ne] by simp
  have "\<exists>data'. decode_many_prec_groups k sz (?n + 1) ?data (stream_skip s (1 + length (run_code xs))) =
      (?n + 1 + reach ?d, data', stream_skip (stream_skip s (1 + length (run_code xs))) (length (group_code ?d)))
    \<and> plane_set k (?ys @ ?d) data0 data'"
    using one.prems run_less [OF ne] h1 up by (intro one.IH) simp_all
  moreover have "?ys @ ?d = ys @ xs" using split_run [OF one.hyps] by simp
  ultimately show ?case using lt sc t one.prems(6)
    by (subst decode_many_prec_groups.simps)
      (simp add: read_peek group_code_one [OF one.hyps] reach_run [OF one.hyps] add.assoc del: push_bit_of_1)
qed

locale plane_decoder_prec =
  fixes valid :: "nat \<Rightarrow> bool"
    and dec_plane :: "nat \<Rightarrow> nat \<Rightarrow> nat \<Rightarrow> ('u::len) word list \<Rightarrow> ('w::len) bitstream \<Rightarrow> nat \<times> 'u word list \<times> 'w bitstream"
    and dec_planes :: "nat \<Rightarrow> nat \<Rightarrow> nat \<Rightarrow> nat \<Rightarrow> 'u word list \<Rightarrow> 'w bitstream \<Rightarrow> 'u word list \<times> 'w bitstream"
  assumes dec_planes_0: "dec_planes sz kmin 0 n data s = (data, s)"
    and dec_planes_Suc: "dec_planes sz kmin (Suc k) n data s =
      (if kmin < Suc k then let (n, data, s) = dec_plane sz k n data s in dec_planes sz kmin k n data s
       else (data, s))"
    and dec_plane_law: "valid sz \<Longrightarrow> source_ok s \<Longrightarrow> n \<le> sz \<Longrightarrow> length p = sz \<Longrightarrow> length data = sz \<Longrightarrow>
      clear k data \<Longrightarrow> upcoming s (plane_code n p) \<Longrightarrow>
      \<exists>data'. dec_plane sz k n data s = (n + reach (drop n p), data', stream_skip s (length (plane_code n p)))
        \<and> plane_set k p data data'"
begin

lemma dec_planes_eq:
  assumes "valid (length orig)" "source_ok s" "n \<le> length orig" "length data = length orig"
    "\<forall>q < k. clear q data" "upcoming s (planes_code n (planes orig kmin k))"
  shows "\<exists>data'. dec_planes (length orig) kmin k n data s =
      (data', stream_skip s (length (planes_code n (planes orig kmin k)))) \<and> length data' = length data
    \<and> (\<forall>i < length data. \<forall>q. bit (data' ! i) q = bit ((if kmin \<le> q \<and> q < k then orig else data) ! i) q)"
  using assms(2-6)
proof (induction k arbitrary: n data s)
  case 0
  then show ?case by (simp add: dec_planes_0 planes_empty)
next
  case (Suc k)
  show ?case
  proof (cases "kmin < Suc k")
    case False
    then show ?thesis using Suc.prems(1) by (auto simp: dec_planes_Suc planes_empty)
  next
    case True
    define p c r where "p = plane orig k" and "c = plane_code n p" and "r = n + reach (drop n p)"
    have pc: "planes_code n (planes orig kmin (Suc k)) = c @ planes_code r (planes orig kmin k)"
      using True by (simp add: planes_Suc planes_code_Cons c_def r_def p_def del: planes_code.simps)
    have up: "upcoming s c" "upcoming (stream_skip s (length c)) (planes_code r (planes orig kmin k))"
      using Suc.prems(1,5) by (simp_all add: pc upcoming_append)
    obtain data1 where pl: "dec_plane (length orig) k n data s = (r, data1, stream_skip s (length c))"
      and ps: "plane_set k p data data1"
      using dec_plane_law [OF assms(1) Suc.prems(1,2), of p data k] Suc.prems up(1)
      unfolding c_def r_def p_def by (auto simp: less_Suc_eq)
    have l1: "length data1 = length data" using plane_set_length [OF ps] .
    have b1: "bit (data1 ! i) q = bit ((if q = k then orig else data) ! i) q" if "i < length data" for i q
      using ps that Suc.prems(3) by (auto simp: plane_set_def p_def plane_def)
    have cl: "\<forall>q < k. clear q data1"
    proof (intro allI impI)
      fix q assume "q < k"
      then have c: "clear q data" using Suc.prems(4) by simp
      have "bit (data1 ! i) q = bit (data ! i) q" if "i < length data" for i
        using b1 [OF that, of q] \<open>q < k\<close> by simp
      then show "clear q data1" using c l1 unfolding clear_def by (metis in_set_conv_nth nth_mem)
    qed
    have "r \<le> length orig" using reach_bound [of n p] Suc.prems by (simp add: r_def p_def)
    then obtain data' where d: "dec_planes (length orig) kmin k r data1 (stream_skip s (length c)) =
        (data', stream_skip (stream_skip s (length c)) (length (planes_code r (planes orig kmin k))))"
      "length data' = length data1"
      and b: "\<forall>i < length data1. \<forall>q. bit (data' ! i) q = bit ((if kmin \<le> q \<and> q < k then orig else data1) ! i) q"
      using Suc.IH [of "stream_skip s (length c)" r data1] Suc.prems l1 cl up(2) by auto
    have "bit (data' ! i) q = bit ((if kmin \<le> q \<and> q < Suc k then orig else data) ! i) q" if "i < length data" for i q
      using b l1 b1 [OF that, of q] that True by (auto simp: less_Suc_eq)
    then show ?thesis using d pl True Suc.prems(1) l1 by (simp add: dec_planes_Suc pc)
  qed
qed

end

lemma decode_few_prec_plane_law:
  fixes s :: "('w::len) bitstream"
  assumes "sz \<le> 64" "source_ok s" "n \<le> sz" "length p = sz" "length data = sz" "clear k data"
    "upcoming s (plane_code n p)"
  shows "\<exists>data'. decode_few_prec_plane sz k n data s = (n + reach (drop n p), data', stream_skip s (length (plane_code n p)))
    \<and> plane_set k p data data'"
proof -
  let ?d = "drop n p"
  have u: "upcoming s (take n p)" "upcoming (stream_skip s n) (group_code ?d)"
    using assms by (simp_all add: plane_code_def upcoming_append)
  have h: "holds (horner_sum of_bool 2 (take n p)) (take n p)"
    using assms by (auto simp: holds_def bit_horner_sum_bit_word_iff)
  have rd: "stream_read_bits s n = (horner_sum of_bool 2 (take n p), stream_skip s n)"
    using upcoming_read_bits [OF assms(2) u(1)] assms by simp
  obtain x' where g: "decode_few_prec_groups sz n (horner_sum of_bool 2 (take n p)) (stream_skip s n) =
      (n + reach ?d, x', stream_skip (stream_skip s n) (length (group_code ?d)))" "holds x' (take n p @ ?d)"
    using decode_few_prec_groups_eq [OF _ _ assms(1) h, of n ?d "stream_skip s n"] assms u(2) by fastforce
  have "plane_set k p data (deposit_plane data 0 x' k)"
    using assms g(2) by (intro deposit_plane_set) simp_all
  then show ?thesis using g rd assms(2-4) by (simp add: decode_few_prec_plane_def plane_code_def)
qed

interpretation few_decoder_prec: plane_decoder_prec "\<lambda>sz. sz \<le> 64" decode_few_prec_plane decode_few_prec_planes
  by unfold_locales (simp, simp, rule decode_few_prec_plane_law)

lemma decode_many_prec_plane_law:
  fixes data :: "('u::len) word list" and s :: "('w::len) bitstream"
  assumes "source_ok s" "n \<le> sz" "length p = sz" "length data = sz" "clear k data" "upcoming s (plane_code n p)"
  shows "\<exists>data'. decode_many_prec_plane sz k n data s = (n + reach (drop n p), data', stream_skip s (length (plane_code n p)))
    \<and> plane_set k p data data'"
proof -
  let ?d = "drop n p"
  have u: "upcoming s (take n p)" "upcoming (stream_skip s n) (group_code ?d)"
    using assms by (simp_all add: plane_code_def upcoming_append)
  obtain data1 where d: "read_plane_bits k n (data, s) = (data1, stream_skip s n)"
    and ps: "plane_set k (take n p) data data1"
    using read_plane_bits_eq [OF assms(5,1) u(1)] assms by auto
  have "\<exists>data'. decode_many_prec_groups k sz n data1 (stream_skip s n) =
      (n + reach ?d, data', stream_skip (stream_skip s n) (length (group_code ?d)))
    \<and> plane_set k (take n p @ ?d) data data'"
    using assms ps u(2) by (intro decode_many_prec_groups_eq) (simp_all add: clear_len)
  then show ?thesis using d assms(1-3) by (auto simp: decode_many_prec_plane_def plane_code_def)
qed

interpretation many_decoder_prec: plane_decoder_prec "\<lambda>sz. True" decode_many_prec_plane decode_many_prec_planes
  by unfold_locales (simp, simp, rule decode_many_prec_plane_law)

lemma rtell_skip: "stream_rtell (stream_skip s n) = stream_rtell s + n"
  by (simp add: stream_skip_def)

lemma clear_zeros: "\<forall>q < LENGTH('u). clear q (replicate m (0 :: 'u::len word))"
  by (simp add: clear_def)

lemma planes_setI:
  assumes "length data' = length data"
    "\<forall>i < length data. \<forall>q. bit (data' ! i) q = bit ((if kmin \<le> q \<and> q < k then orig else data) ! i) q"
  shows "planes_set kmin k n nb orig data data'"
  using assms by (auto simp: planes_set_def)

text \<open>What \<open>decode_ints\<close> returns when the code of \<open>orig\<close>, cut at \<open>maxbits\<close>, is about to be read.\<close>

lemma decode_ints_eq:
  fixes orig :: "('u::len) word list"
  assumes "source_ok s" "orig \<noteq> []" "upcoming s (take maxbits (ints_code maxprec orig))"
  shows "\<exists>data. decode_ints s maxbits maxprec (length orig) =
      (min maxbits (length (ints_code maxprec orig)), data, stream_skip s (min maxbits (length (ints_code maxprec orig))))
    \<and> planes_set (kmin_of TYPE('u) maxprec) (LENGTH('u)) 0 maxbits orig (replicate (length orig) 0) data"
proof -
  define K Z where "K = kmin_of TYPE('u) maxprec" and "Z = replicate (length orig) (0 :: 'u word)"
  have z: "\<forall>q < LENGTH('u). clear q Z" "length Z = length orig" by (simp_all add: Z_def clear_zeros)
  have code: "planes_code 0 (planes orig K (LENGTH('u))) = ints_code maxprec orig" by (simp add: ints_code_def K_def)
  show ?thesis
  proof (cases "with_maxbits maxbits maxprec (length orig)")
    case True
    have "\<exists>data. (if length orig \<le> 64 then decode_few_planes (length orig) K (LENGTH('u)) 0 maxbits Z s
          else decode_many_planes (length orig) K (LENGTH('u)) 0 maxbits Z s) =
        (maxbits - length (ints_code maxprec orig), data, stream_skip s (min maxbits (length (ints_code maxprec orig))))
      \<and> planes_set K (LENGTH('u)) 0 maxbits orig Z data"
      using few_decoder.dec_planes_eq [OF _ assms(1) _ z(2) assms(2) z(1), of 0 maxbits K] 
        many_decoder.dec_planes_eq [OF _ assms(1) _ z(2) assms(2) z(1), of 0 maxbits K] assms(3)
      by (cases "length orig \<le> 64") (simp_all add: code)
    then show ?thesis using True
      by (auto simp: decode_ints_def decode_few_ints_def decode_many_ints_def K_def Z_def min_def split: if_splits)
  next
    case False
    have le: "length (ints_code maxprec orig) \<le> maxbits"
      using False length_ints_code [OF assms(2), of maxprec] by (simp add: with_maxbits_def)
    then have up: "upcoming s (planes_code 0 (planes orig K (LENGTH('u))))" using assms(3) by (simp add: code)
    have "\<exists>data. (if length orig \<le> 64 then decode_few_prec_planes (length orig) K (LENGTH('u)) 0 Z s
          else decode_many_prec_planes (length orig) K (LENGTH('u)) 0 Z s) =
        (data, stream_skip s (length (ints_code maxprec orig))) \<and> length data = length Z
      \<and> (\<forall>i < length Z. \<forall>q. bit (data ! i) q = bit ((if K \<le> q \<and> q < LENGTH('u) then orig else Z) ! i) q)"
      using few_decoder_prec.dec_planes_eq [OF _ assms(1) _ z(2) z(1) up]
        many_decoder_prec.dec_planes_eq [OF _ assms(1) _ z(2) z(1) up]
      by (cases "length orig \<le> 64") (simp_all add: code)
    then obtain data where "(if length orig \<le> 64 then decode_few_prec_planes (length orig) K (LENGTH('u)) 0 Z s
          else decode_many_prec_planes (length orig) K (LENGTH('u)) 0 Z s) =
        (data, stream_skip s (length (ints_code maxprec orig)))"
      and "planes_set K (LENGTH('u)) 0 maxbits orig Z data" using planes_setI by blast
    then show ?thesis using False le
      by (auto simp: decode_ints_def decode_few_ints_prec_def decode_many_ints_prec_def K_def Z_def
          rtell_skip min_absorb2 split: if_splits)
  qed
qed

section \<open>Every bit sequence is a code\<close>

lemma ex_group_code:
  fixes s :: "('w::len) bitstream"
  assumes "source_ok s"
  shows "\<exists>xs. length xs = m \<and> upcoming s (group_code xs)"
  using assms
proof (induction m arbitrary: s rule: less_induct)
  case (less m)
  consider "m = 0" | "0 < m" "\<not> stream_peek s 0" | "0 < m" "stream_peek s 0" by blast
  then show ?case
  proof cases
    case 1
    then show ?thesis by (intro exI [of _ "[]"]) simp
  next
    case 2
    then have "group_code (replicate m False) = [False]" by (intro group_code_zero) auto
    then show ?thesis using 2 less.prems by (intro exI [of _ "replicate m False"]) (simp add: upcoming_Cons)
  next
    case 3
    define bs where "bs = map (stream_peek (stream_skip s 1)) [0..<m - 1]"
    define r where "r = length (takeWhile Not bs)"
    define t where "t = stream_skip s (1 + (if r < m - 1 then r + 1 else r))"
    have lb: "length bs = m - 1" by (simp add: bs_def)
    have rm: "r \<le> m - 1" using length_takeWhile_le [of Not bs] lb by (simp add: r_def)
    obtain ys where ys: "length ys = m - 1 - r" "upcoming t (group_code ys)"
      using less.IH [of "m - 1 - r" t] less.prems 3 by (auto simp: t_def)
    let ?xs = "replicate r False @ True # ys"
    have run: "run ?xs = r" using rm ys(1) by (cases "ys = []") (simp_all add: run_def butlast_append takeWhile_append)
    have z: "\<not> stream_peek (stream_skip s 1) i" if "i < r" for i
    proof -
      have "takeWhile Not bs ! i \<in> set (takeWhile Not bs)" using that by (intro nth_mem) (simp add: r_def)
      then have "\<not> takeWhile Not bs ! i" using set_takeWhileD [of "takeWhile Not bs ! i" Not bs] by simp
      moreover have "takeWhile Not bs ! i = bs ! i" using that by (intro takeWhile_nth) (simp add: r_def)
      ultimately show ?thesis using that rm by (simp add: bs_def)
    qed
    have o: "stream_peek (stream_skip s 1) r" if "r < m - 1"
      using nth_length_takeWhile [of Not bs] that lb by (simp add: r_def bs_def)
    have rc: "run_code ?xs = replicate r False @ (if r < m - 1 then [True] else [])"
      unfolding run_code_def run using ys(1) rm 3 by auto
    have "upcoming (stream_skip s 1) (run_code ?xs)"
      unfolding upcoming_def rc using z o by (auto simp: nth_append less_Suc_eq)
    moreover have "stream_skip (stream_skip s 1) (length (run_code ?xs)) = t"
      using less.prems rm by (auto simp: rc t_def)
    moreover have "group_code ?xs = True # run_code ?xs @ group_code ys"
      using group_code_one [of ?xs] by (simp add: run)
    ultimately have "upcoming s (group_code ?xs)"
      using 3 ys(2) less.prems by (simp add: upcoming_Cons upcoming_append)
    then show ?thesis using ys(1) rm 3 by (intro exI [of _ ?xs]) simp
  qed
qed

lemma ex_plane_code:
  assumes "source_ok s" "n \<le> sz"
  shows "\<exists>p. length p = sz \<and> upcoming s (plane_code n p)"
proof -
  define ys where "ys = map (stream_peek s) [0..<n]"
  have u: "upcoming s ys" by (simp add: upcoming_def ys_def)
  obtain xs where "length xs = sz - n" "upcoming (stream_skip s n) (group_code xs)"
    using ex_group_code assms(1) by (metis source_ok_skip)
  then show ?thesis using u assms
    by (intro exI [of _ "ys @ xs"]) (simp add: plane_code_def upcoming_append ys_def)
qed

lemma ex_planes_code:
  assumes "source_ok s" "n \<le> sz"
  shows "\<exists>ps. length ps = m \<and> (\<forall>p \<in> set ps. length p = sz) \<and> upcoming s (planes_code n ps)"
  using assms
proof (induction m arbitrary: n s)
  case (Suc m)
  obtain p where p: "length p = sz" "upcoming s (plane_code n p)" using ex_plane_code [OF Suc.prems] by blast
  obtain ps where "length ps = m" "\<forall>p \<in> set ps. length p = sz"
    "upcoming (stream_skip s (length (plane_code n p))) (planes_code (n + reach (drop n p)) ps)"
    using Suc.IH [of "stream_skip s (length (plane_code n p))" "n + reach (drop n p)"] Suc.prems p reach_bound [of n p] by auto
  then show ?case using p Suc.prems(1)
    by (intro exI [of _ "p # ps"]) (simp add: planes_code_Cons upcoming_append del: planes_code.simps)
qed simp

lemma ex_ints_code:
  assumes "source_ok s"
  shows "\<exists>data :: ('u::len) word list. length data = sz \<and> upcoming s (ints_code maxprec data)"
proof -
  let ?L = "LENGTH('u)" and ?K = "kmin_of TYPE('u) maxprec"
  obtain ps where ps: "length ps = ?L - ?K" "\<forall>p \<in> set ps. length p = sz" "upcoming s (planes_code 0 ps)"
    using ex_planes_code [OF assms, of 0 sz "?L - ?K"] by auto
  define data :: "'u word list" where
    "data = map (\<lambda>i. horner_sum of_bool 2 (map (\<lambda>q. ?K \<le> q \<and> ps ! (?L - 1 - q) ! i) [0..<?L])) [0..<sz]"
  have b: "bit (data ! i) q = ps ! (?L - 1 - q) ! i" if "i < sz" "?K \<le> q" "q < ?L" for i q
    using that by (simp add: data_def bit_horner_sum_bit_word_iff)
  have l: "length data = sz" by (simp add: data_def)
  have "planes data ?K ?L = ps"
  proof (rule nth_equalityI)
    fix j assume "j < length (planes data ?K ?L)"
    then have j: "j < ?L - ?K" by simp
    then have "planes data ?K ?L ! j = plane data (?L - 1 - j)" by (simp add: planes_def rev_nth)
    also have "\<dots> = ps ! j"
    proof (rule nth_equalityI)
      show "length (plane data (?L - 1 - j)) = length (ps ! j)" using ps(1,2) j l by (simp add: nth_mem)
      fix i assume "i < length (plane data (?L - 1 - j))"
      then show "plane data (?L - 1 - j) ! i = ps ! j ! i"
        using b [of i "?L - 1 - j"] j l by (simp add: plane_def)
    qed
    finally show "planes data ?K ?L ! j = ps ! j" .
  qed (simp add: ps(1))
  then show ?thesis using ps(3) l by (auto simp: ints_code_def)
qed

section \<open>Properties\<close>

definition truncate_low :: "nat \<Rightarrow> ('u::len) word \<Rightarrow> 'u word" where
  "truncate_low k w = push_bit k (drop_bit k w)"

lemma bit_truncate_low: "bit (truncate_low k w) q \<longleftrightarrow> k \<le> q \<and> bit w q" for w :: "'u::len word"
  by (auto simp: truncate_low_def word_bits bit_drop_bit_eq dest: bit_lt_len)

lemma planes_set_complete:
  fixes orig :: "('u::len) word list"
  assumes "planes_set (kmin_of TYPE('u) maxprec) (LENGTH('u)) 0 maxbits orig (replicate (length orig) 0) data"
    "length (ints_code maxprec orig) \<le> maxbits"
  shows "data = map (truncate_low (kmin_of TYPE('u) maxprec)) orig"
proof (rule nth_equalityI)
  show l: "length data = length (map (truncate_low (kmin_of TYPE('u) maxprec)) orig)"
    using assms(1) by (simp add: planes_set_def)
  let ?L = "LENGTH('u)" and ?K = "kmin_of TYPE('u) maxprec"
  have mono: "length (planes_code 0 (planes orig q ?L)) \<le> maxbits" if "?K \<le> q" "q < ?L" for q
  proof -
    have "planes orig ?K ?L = planes orig q ?L @ planes orig ?K q"
    proof -
      have "[?K..<?L] = [?K..<q] @ [q..<?L]" using that upt_add_eq_append [of ?K q "?L - q"] by simp
      then show ?thesis by (simp add: planes_def)
    qed
    moreover have "length (planes_code n ps) \<le> length (planes_code n (ps @ qs))" for n ps qs
      by (induction ps arbitrary: n) auto
    ultimately show ?thesis using assms(2) by (metis ints_code_def le_trans)
  qed
  fix i assume "i < length data"
  then have i: "i < length orig" using l by simp
  show "data ! i = map (truncate_low ?K) orig ! i"
  proof (rule bit_word_eqI)
    fix q assume q: "q < ?L"
    show "bit (data ! i) q = bit (map (truncate_low ?K) orig ! i) q"
      using assms(1) i q mono [of q] by (cases "?K \<le> q") (auto simp: planes_set_def bit_truncate_low)
  qed
qed

lemma encoded_upcoming:
  fixes data :: "('u::len) word list"
  assumes "sink_ok s" "data \<noteq> []"
    and "encode_ints s maxbits maxprec data (length data) = (c, s1)"
    and "r = stream_rseek (snd (stream_flush s1)) (stream_wtell s)"
  shows "source_ok r" "upcoming r (take maxbits (ints_code maxprec data))" "stream_rtell r = stream_wtell s"
proof -
  have s1: "s1 = wappend s (take maxbits (ints_code maxprec data))" and w: "winv s"
    using assms encode_ints_eq [OF assms(1,2), of maxbits maxprec] by (auto simp: sink_ok_def)
  then have k: "sink_ok s1" "stream_wtell s \<le> stream_wtell s1" using assms(1) by simp_all
  show "source_ok r" "stream_rtell r = stream_wtell s" using flush_rseek_upcoming(1) [OF k] assms(4) by simp_all
  have "drop (stream_wtell s) (written s1) = take maxbits (ints_code maxprec data)"
    using w by (simp add: s1 wtell_length [symmetric])
  then show "upcoming r (take maxbits (ints_code maxprec data))"
    using flush_rseek_upcoming(2) [OF k] assms(4) by simp
qed


lemma length_four: "length [a, b, c, d] = 4"
  by simp

lemma written_open: "written (stream_open m b) = []" "stream_wtell (stream_open m b) = 0"
  by (simp_all add: written_def stream_open_def stream_rewind_def stream_wtell_def)

text \<open>C19: whichever of the four encoders is selected, \<open>encode_ints\<close> appends to the stream the first
  \<open>maxbits\<close> bits of one and the same code of the integers' \<open>maxprec\<close> most significant bit planes, and
  returns how many bits it wrote.\<close>

theorem encode_ints_writes_code:
  fixes data :: "('u::len) word list"
  assumes "sink_ok s" "data \<noteq> []"
  shows "written (snd (encode_ints s maxbits maxprec data (length data))) =
      written s @ take maxbits (ints_code maxprec data)
    \<and> fst (encode_ints s maxbits maxprec data (length data)) = min maxbits (length (ints_code maxprec data))"
  using encode_ints_eq [OF assms, of maxbits maxprec] assms(1) by (simp add: sink_ok_def)

theorem encode_ints_writes_code_witness:
  "written (snd (encode_ints (stream_open (\<lambda>_. 0) 64 :: 64 bitstream) 9 32 [5, 0, 2, 1 :: uint32] 4)) =
    take 9 (ints_code 32 [5, 0, 2, 1 :: uint32])"
proof -
  have "sink_ok (stream_open (\<lambda>_. 0) 64 :: 64 bitstream)" by (simp add: sink_ok_open)
  from encode_ints_writes_code [OF this, of "[5, 0, 2, 1 :: uint32]" 9 32, unfolded length_four written_open]
  show ?thesis by simp
qed

text \<open>The code of a block of \<open>n\<close> integers never exceeds \<open>(maxprec + 1) * n - 1\<close> bits nor the budget
  \<open>maxbits\<close>; the bound by which \<open>with_maxbits\<close> selects the encoder is therefore right.\<close>

theorem encode_ints_size:
  fixes data :: "('u::len) word list"
  assumes "sink_ok s" "data \<noteq> []"
  shows "fst (encode_ints s maxbits maxprec data (length data)) \<le> min maxbits ((maxprec + 1) * length data - 1)"
  using encode_ints_eq [OF assms, of maxbits maxprec] length_ints_code [OF assms(2), of maxprec]
  by (simp add: min_le_iff_disj)

theorem encode_ints_size_witness:
  "fst (encode_ints (stream_open (\<lambda>_. 0) 64 :: 64 bitstream) 100 2 [-1, -1, -1, -1 :: uint32] 4) \<le> 11"
proof -
  have "sink_ok (stream_open (\<lambda>_. 0) 64 :: 64 bitstream)" by (simp add: sink_ok_open)
  from encode_ints_size [OF this, of "[-1, -1, -1, -1 :: uint32]" 100 2, unfolded length_four] show ?thesis by simp
qed

text \<open>C20: what \<open>encode_ints\<close> wrote, \<open>decode_ints\<close> reads back with the same parameters: it consumes exactly
  the bits written, also when the budget cut the code, and if the budget did not cut the code it
  returns the integers with the bit planes below the \<open>maxprec\<close> most significant ones cleared.\<close>

theorem decode_ints_roundtrip:
  fixes data :: "('u::len) word list"
  assumes "sink_ok s" "data \<noteq> []"
    and enc: "encode_ints s maxbits maxprec data (length data) = (c, s1)"
    and dec: "decode_ints (stream_rseek (snd (stream_flush s1)) (stream_wtell s)) maxbits maxprec (length data) = (c', data', r')"
  shows "c' = c \<and> stream_rtell r' = stream_wtell s1
    \<and> (length (ints_code maxprec data) \<le> maxbits \<longrightarrow> data' = map (truncate_low (kmin_of TYPE('u) maxprec)) data)"
proof -
  define r where "r = stream_rseek (snd (stream_flush s1)) (stream_wtell s)"
  note u = encoded_upcoming [OF assms(1,2) enc r_def]
  obtain data1 where "decode_ints r maxbits maxprec (length data) =
      (min maxbits (length (ints_code maxprec data)), data1, stream_skip r (min maxbits (length (ints_code maxprec data))))"
    and ps: "planes_set (kmin_of TYPE('u) maxprec) (LENGTH('u)) 0 maxbits data (replicate (length data) 0) data1"
    using decode_ints_eq [OF u(1) assms(2) u(2)] by blast
  then have d: "c' = min maxbits (length (ints_code maxprec data))" "data' = data1"
      "r' = stream_skip r (min maxbits (length (ints_code maxprec data)))"
    using dec by (simp_all add: r_def)
  have e: "c = min maxbits (length (ints_code maxprec data))" "s1 = wappend s (take maxbits (ints_code maxprec data))"
    using enc encode_ints_eq [OF assms(1,2), of maxbits maxprec] by simp_all
  have "stream_rtell r' = stream_wtell s1" using d e u(3) assms(1) by (simp add: rtell_skip sink_ok_def min.commute)
  then show ?thesis using planes_set_complete [OF ps] d e by simp
qed

theorem decode_ints_roundtrip_witness:
  "\<exists>c s1 c' r'. encode_ints (stream_open (\<lambda>_. 0) 64 :: 64 bitstream) 1000 32 [5, 0, 2, 1 :: uint32] 4 = (c, s1)
    \<and> decode_ints (stream_rseek (snd (stream_flush s1)) 0) 1000 32 4 = (c', [5, 0, 2, 1 :: uint32], r')
    \<and> c' = c \<and> stream_rtell r' = stream_wtell s1"
proof -
  let ?s = "stream_open (\<lambda>_. 0) 64 :: 64 bitstream" and ?d = "[5, 0, 2, 1 :: uint32]"
  obtain c s1 where e: "encode_ints ?s 1000 32 ?d (length ?d) = (c, s1)" by (metis surj_pair)
  obtain c' d' r' where d: "decode_ints (stream_rseek (snd (stream_flush s1)) (stream_wtell ?s)) 1000 32 (length ?d) = (c', d' :: uint32 list, r')"
    by (metis prod_cases3)
  have k: "sink_ok ?s" by (simp add: sink_ok_open)
  have "length (ints_code 32 ?d) \<le> 1000" using length_ints_code [of ?d 32] by simp
  then have "d' = map (truncate_low (kmin_of TYPE(32) 32)) ?d" "c' = c" "stream_rtell r' = stream_wtell s1"
    using decode_ints_roundtrip [OF k _ e d] by simp_all
  moreover have "map (truncate_low (kmin_of TYPE(32) 32)) ?d = ?d" by (simp add: kmin_of_def truncate_low_def)
  ultimately show ?thesis using e [unfolded length_four] d [unfolded length_four written_open] by metis
qed

text \<open>C28: the code is embedded: if the budget has room for the code of the \<open>p\<close> most significant bit
  planes, then the integers decoded from the cut code agree with the original ones on these planes, and
  the decoder consumes exactly the bits that the encoder wrote.\<close>

theorem decode_ints_progressive:
  fixes data :: "('u::len) word list"
  assumes "sink_ok s" "data \<noteq> []"
    and enc: "encode_ints s maxbits maxprec data (length data) = (c, s1)"
    and dec: "decode_ints (stream_rseek (snd (stream_flush s1)) (stream_wtell s)) maxbits maxprec (length data) = (c', data', r')"
    and p: "p \<le> maxprec" "p \<le> LENGTH('u)" "length (ints_code p data) \<le> maxbits"
  shows "map (drop_bit (LENGTH('u) - p)) data' = map (drop_bit (LENGTH('u) - p)) data \<and> c' = c \<and> stream_rtell r' = stream_wtell s1"
proof -
  let ?L = "LENGTH('u)"
  define r where "r = stream_rseek (snd (stream_flush s1)) (stream_wtell s)"
  note u = encoded_upcoming [OF assms(1,2) enc r_def]
  obtain data1 where "decode_ints r maxbits maxprec (length data) =
      (min maxbits (length (ints_code maxprec data)), data1, stream_skip r (min maxbits (length (ints_code maxprec data))))"
    and ps: "planes_set (kmin_of TYPE('u) maxprec) ?L 0 maxbits data (replicate (length data) 0) data1"
    using decode_ints_eq [OF u(1) assms(2) u(2)] by blast
  then have d: "data' = data1" "c' = min maxbits (length (ints_code maxprec data))"
      "r' = stream_skip r (min maxbits (length (ints_code maxprec data)))"
    using dec by (simp_all add: r_def)
  have e: "c = min maxbits (length (ints_code maxprec data))" "s1 = wappend s (take maxbits (ints_code maxprec data))"
    using enc encode_ints_eq [OF assms(1,2), of maxbits maxprec] by simp_all
  have t: "stream_rtell r' = stream_wtell s1" using d e u(3) assms(1) by (simp add: rtell_skip sink_ok_def min.commute)
  have kp: "kmin_of TYPE('u) p = ?L - p" "kmin_of TYPE('u) maxprec \<le> ?L - p"
    using p by (auto simp: kmin_of_def Let_def)
  have ps': "planes_set (kmin_of TYPE('u) p) ?L 0 maxbits data (replicate (length data) 0) (map (truncate_low (?L - p)) data1)"
    using ps kp by (auto simp: planes_set_def bit_truncate_low)
  have "map (truncate_low (?L - p)) data1 = map (truncate_low (?L - p)) data"
    using planes_set_complete [OF ps' p(3)] by (simp add: kp)
  then have "map (drop_bit (?L - p) \<circ> truncate_low (?L - p)) data1 = map (drop_bit (?L - p) \<circ> truncate_low (?L - p)) data"
    by (metis map_map)
  moreover have "drop_bit k (truncate_low k w) = drop_bit k w" for k and w :: "'u word"
    by (rule bit_word_eqI) (simp add: bit_drop_bit_eq bit_truncate_low)
  ultimately show ?thesis using d e(1) t by (simp add: comp_def)
qed

theorem decode_ints_progressive_witness:
  "\<exists>s1 data' c r'. snd (encode_ints (stream_open (\<lambda>_. 0) 64 :: 64 bitstream) 127 32 [5, 0, 2, 1 :: uint32] 4) = s1
    \<and> decode_ints (stream_rseek (snd (stream_flush s1)) 0) 127 32 4 = (c, data', r')
    \<and> map (drop_bit 2) data' = [1, 0, 0, 0 :: uint32]"
proof -
  let ?s = "stream_open (\<lambda>_. 0) 64 :: 64 bitstream" and ?d = "[5, 0, 2, 1 :: uint32]"
  obtain c s1 where e: "encode_ints ?s 127 32 ?d (length ?d) = (c, s1)" by (metis surj_pair)
  obtain c' d' r' where d: "decode_ints (stream_rseek (snd (stream_flush s1)) (stream_wtell ?s)) 127 32 (length ?d) = (c', d' :: uint32 list, r')"
    by (metis prod_cases3)
  have k: "sink_ok ?s" by (simp add: sink_ok_open)
  have "length (ints_code 30 ?d) \<le> 127" using length_ints_code [of ?d 30] by simp
  then have "map (drop_bit 2) d' = [1, 0, 0, 0]"
    using decode_ints_progressive [OF k _ e d, of 30] by (simp add: drop_bit_eq_div)
  then show ?thesis using e [unfolded length_four] d [unfolded length_four written_open] by (metis snd_conv)
qed

text \<open>C29: on an arbitrary stream, also one that no encoder wrote, \<open>decode_ints\<close> returns: it reads at most
  \<open>maxbits\<close> bits and at most \<open>(maxprec + 1) * n - 1\<close> bits, leaves the stream right behind the bits it
  reports, and yields \<open>n\<close> integers without bits below the \<open>maxprec\<close> most significant ones.\<close>

theorem decode_ints_safe:
  assumes "source_ok s" "0 < n"
  shows "\<exists>c (data :: ('u::len) word list). decode_ints s maxbits maxprec n = (c, data, stream_skip s c)
    \<and> c \<le> maxbits \<and> c \<le> (maxprec + 1) * n - 1 \<and> length data = n
    \<and> (\<forall>w \<in> set data. truncate_low (kmin_of TYPE('u) maxprec) w = w)"
proof -
  obtain orig :: "'u word list" where o: "length orig = n" "upcoming s (ints_code maxprec orig)"
    using ex_ints_code [OF assms(1), of n maxprec] by blast
  then have ne: "orig \<noteq> []" using assms(2) by auto
  have "upcoming s (take maxbits (ints_code maxprec orig))" using o(2) by (simp add: upcoming_def)
  then obtain data where d: "decode_ints s maxbits maxprec n =
      (min maxbits (length (ints_code maxprec orig)), data, stream_skip s (min maxbits (length (ints_code maxprec orig))))"
    and ps: "planes_set (kmin_of TYPE('u) maxprec) (LENGTH('u)) 0 maxbits orig (replicate (length orig) 0) data"
    using decode_ints_eq [OF assms(1) ne] o(1) by blast
  have "truncate_low (kmin_of TYPE('u) maxprec) w = w" if w: "w \<in> set data" for w
  proof (rule bit_word_eqI)
    obtain i where i: "i < length data" "w = data ! i" using w by (auto simp: in_set_conv_nth)
    fix q show "bit (truncate_low (kmin_of TYPE('u) maxprec) w) q = bit w q"
      using ps i by (cases "kmin_of TYPE('u) maxprec \<le> q") (auto simp: planes_set_def bit_truncate_low)
  qed
  moreover have "length data = n" using ps o(1) by (simp add: planes_set_def)
  moreover have "length (ints_code maxprec orig) \<le> (maxprec + 1) * n - 1" using length_ints_code [OF ne] o(1) by simp
  ultimately show ?thesis using d by (simp add: min_le_iff_disj)
qed

theorem decode_ints_safe_witness:
  "\<exists>c (data :: uint64 list). decode_ints (stream_rseek (stream_open (\<lambda>i. of_nat (i * 77)) 64 :: 8 bitstream) 3) 20 10 4 =
      (c, data, stream_skip (stream_rseek (stream_open (\<lambda>i. of_nat (i * 77)) 64 :: 8 bitstream) 3) c) \<and> c \<le> 20 \<and> length data = 4"
proof -
  have "source_ok (stream_rseek (stream_open (\<lambda>i. of_nat (i * 77)) 64 :: 8 bitstream) 3)" by (simp add: source_ok_def)
  from decode_ints_safe [OF this, of 4 20 10, where 'u = 64] show ?thesis by auto
qed

end
