(* ===== verification/Reorder.thy ===== *)
theory Reorder
  imports Transform Coder
begin

text \<open>
  Between transform and coder: the conversion of signed coefficients to negabinary (\<open>int2uint\<close> of
  \<^verbatim>\<open>src/template/encode.c\<close>, \<open>uint2int\<close> of \<^verbatim>\<open>decode.c\<close>) and the tables \<open>perm_1\<close> to \<open>perm_4\<close> of
  \<^verbatim>\<open>src/template/codec*.c\<close> by which the coefficients are reordered. The conversion is a bijection
  whose digits have the weights \<open>(-2) ^ i\<close>, so that dropping low digits changes a value by less than two
  thirds of the last kept digit; the tables are permutations, sorted by polynomial degree.
\<close>

section \<open>Negabinary\<close>

text \<open>The mask \<open>0xaa...a\<close> of the negabinary conversions, for every integer width.\<close>

definition nbmask :: "('i::len) word" where
  "nbmask = horner_sum of_bool 2 (map odd [0..<LENGTH('i)])"

lemma nbmask_32_64: "nbmask = (0xaaaaaaaa :: uint32)" "nbmask = (0xaaaaaaaaaaaaaaaa :: uint64)"
  by (simp_all add: nbmask_def upt_rec)

definition int2uint :: "('i::len) word \<Rightarrow> 'i word" where
  "int2uint x = (x + nbmask) XOR nbmask"

definition uint2int :: "('i::len) word \<Rightarrow> 'i word" where
  "uint2int x = (x XOR nbmask) - nbmask"

section \<open>Coefficient order\<close>

definition index_2 :: "nat \<times> nat \<Rightarrow> nat" where
  "index_2 = (\<lambda>(i, j). i + 4 * j)"

definition index_3 :: "nat \<times> nat \<times> nat \<Rightarrow> nat" where
  "index_3 = (\<lambda>(i, j, k). i + 4 * (j + 4 * k))"

definition index_4 :: "nat \<times> nat \<times> nat \<times> nat \<Rightarrow> nat" where
  "index_4 = (\<lambda>(i, j, k, l). i + 4 * (j + 4 * (k + 4 * l)))"

definition perm_1 :: "nat list" where
  "perm_1 = [0, 1, 2, 3]"

definition perm_2 :: "nat list" where
  "perm_2 = map index_2 [
    (0, 0), (1, 0), (0, 1), (1, 1), (2, 0), (0, 2), (2, 1), (1, 2),
    (3, 0), (0, 3), (2, 2), (3, 1), (1, 3), (3, 2), (2, 3), (3, 3)]"

definition perm_3 :: "nat list" where
  "perm_3 = map index_3 [
    (0, 0, 0), (1, 0, 0), (0, 1, 0), (0, 0, 1), (0, 1, 1), (1, 0, 1), (1, 1, 0),
    (2, 0, 0), (0, 2, 0), (0, 0, 2), (1, 1, 1), (2, 1, 0), (2, 0, 1), (0, 2, 1),
    (1, 2, 0), (1, 0, 2), (0, 1, 2), (3, 0, 0), (0, 3, 0), (0, 0, 3), (2, 1, 1),
    (1, 2, 1), (1, 1, 2), (0, 2, 2), (2, 0, 2), (2, 2, 0), (3, 1, 0), (3, 0, 1),
    (0, 3, 1), (1, 3, 0), (1, 0, 3), (0, 1, 3), (1, 2, 2), (2, 1, 2), (2, 2, 1),
    (3, 1, 1), (1, 3, 1), (1, 1, 3), (3, 2, 0), (3, 0, 2), (0, 3, 2), (2, 3, 0),
    (2, 0, 3), (0, 2, 3), (2, 2, 2), (3, 2, 1), (3, 1, 2), (1, 3, 2), (2, 3, 1),
    (2, 1, 3), (1, 2, 3), (0, 3, 3), (3, 0, 3), (3, 3, 0), (3, 2, 2), (2, 3, 2),
    (2, 2, 3), (1, 3, 3), (3, 1, 3), (3, 3, 1), (2, 3, 3), (3, 2, 3), (3, 3, 2),
    (3, 3, 3)]"

definition perm_4 :: "nat list" where
  "perm_4 = map index_4 [
    (0, 0, 0, 0), (1, 0, 0, 0), (0, 1, 0, 0), (0, 0, 1, 0), (0, 0, 0, 1), (1, 1, 0, 0),
    (0, 0, 1, 1), (1, 0, 1, 0), (0, 1, 0, 1), (1, 0, 0, 1), (0, 1, 1, 0), (2, 0, 0, 0),
    (0, 2, 0, 0), (0, 0, 2, 0), (0, 0, 0, 2), (0, 1, 1, 1), (1, 0, 1, 1), (1, 1, 0, 1),
    (1, 1, 1, 0), (2, 1, 0, 0), (2, 0, 1, 0), (2, 0, 0, 1), (0, 2, 1, 0), (0, 2, 0, 1),
    (1, 2, 0, 0), (0, 0, 2, 1), (1, 0, 2, 0), (0, 1, 2, 0), (1, 0, 0, 2), (0, 1, 0, 2),
    (0, 0, 1, 2), (3, 0, 0, 0), (0, 3, 0, 0), (0, 0, 3, 0), (0, 0, 0, 3), (1, 1, 1, 1),
    (2, 0, 1, 1), (2, 1, 0, 1), (2, 1, 1, 0), (1, 2, 0, 1), (1, 2, 1, 0), (0, 2, 1, 1),
    (1, 1, 2, 0), (0, 1, 2, 1), (1, 0, 2, 1), (0, 1, 1, 2), (1, 0, 1, 2), (1, 1, 0, 2),
    (2, 2, 0, 0), (0, 0, 2, 2), (2, 0, 2, 0), (0, 2, 0, 2), (2, 0, 0, 2), (0, 2, 2, 0),
    (3, 1, 0, 0), (3, 0, 1, 0), (3, 0, 0, 1), (0, 3, 1, 0), (0, 3, 0, 1), (1, 3, 0, 0),
    (0, 0, 3, 1), (1, 0, 3, 0), (0, 1, 3, 0), (1, 0, 0, 3), (0, 1, 0, 3), (0, 0, 1, 3),
    (2, 1, 1, 1), (1, 2, 1, 1), (1, 1, 2, 1), (1, 1, 1, 2), (1, 0, 2, 2), (1, 2, 0, 2),
    (1, 2, 2, 0), (2, 1, 0, 2), (2, 1, 2, 0), (0, 1, 2, 2), (2, 2, 1, 0), (0, 2, 1, 2),
    (2, 0, 1, 2), (0, 2, 2, 1), (2, 0, 2, 1), (2, 2, 0, 1), (3, 0, 1, 1), (3, 1, 0, 1),
    (3, 1, 1, 0), (1, 3, 0, 1), (1, 3, 1, 0), (0, 3, 1, 1), (1, 1, 3, 0), (0, 1, 3, 1),
    (1, 0, 3, 1), (0, 1, 1, 3), (1, 0, 1, 3), (1, 1, 0, 3), (3, 2, 0, 0), (3, 0, 2, 0),
    (3, 0, 0, 2), (0, 3, 2, 0), (0, 3, 0, 2), (2, 3, 0, 0), (0, 0, 3, 2), (2, 0, 3, 0),
    (0, 2, 3, 0), (2, 0, 0, 3), (0, 2, 0, 3), (0, 0, 2, 3), (2, 2, 1, 1), (1, 1, 2, 2),
    (2, 1, 2, 1), (1, 2, 1, 2), (2, 1, 1, 2), (1, 2, 2, 1), (0, 2, 2, 2), (2, 0, 2, 2),
    (2, 2, 0, 2), (2, 2, 2, 0), (3, 1, 1, 1), (1, 3, 1, 1), (1, 1, 3, 1), (1, 1, 1, 3),
    (3, 2, 1, 0), (3, 2, 0, 1), (3, 0, 2, 1), (3, 1, 2, 0), (3, 1, 0, 2), (3, 0, 1, 2),
    (0, 3, 2, 1), (1, 3, 2, 0), (1, 3, 0, 2), (0, 3, 1, 2), (2, 3, 1, 0), (2, 3, 0, 1),
    (1, 0, 3, 2), (0, 1, 3, 2), (2, 1, 3, 0), (2, 0, 3, 1), (0, 2, 3, 1), (1, 2, 3, 0),
    (2, 1, 0, 3), (2, 0, 1, 3), (0, 2, 1, 3), (1, 2, 0, 3), (1, 0, 2, 3), (0, 1, 2, 3),
    (3, 3, 0, 0), (0, 0, 3, 3), (3, 0, 3, 0), (0, 3, 0, 3), (3, 0, 0, 3), (0, 3, 3, 0),
    (1, 2, 2, 2), (2, 1, 2, 2), (2, 2, 1, 2), (2, 2, 2, 1), (3, 2, 1, 1), (3, 1, 2, 1),
    (3, 1, 1, 2), (1, 3, 2, 1), (1, 3, 1, 2), (2, 3, 1, 1), (1, 1, 3, 2), (2, 1, 3, 1),
    (1, 2, 3, 1), (2, 1, 1, 3), (1, 2, 1, 3), (1, 1, 2, 3), (3, 0, 2, 2), (3, 2, 0, 2),
    (3, 2, 2, 0), (2, 3, 0, 2), (2, 3, 2, 0), (0, 3, 2, 2), (2, 2, 3, 0), (0, 2, 3, 2),
    (2, 0, 3, 2), (0, 2, 2, 3), (2, 0, 2, 3), (2, 2, 0, 3), (1, 0, 3, 3), (1, 3, 0, 3),
    (1, 3, 3, 0), (3, 1, 0, 3), (3, 1, 3, 0), (0, 1, 3, 3), (3, 3, 1, 0), (0, 3, 1, 3),
    (3, 0, 1, 3), (0, 3, 3, 1), (3, 0, 3, 1), (3, 3, 0, 1), (2, 2, 2, 2), (3, 1, 2, 2),
    (3, 2, 1, 2), (3, 2, 2, 1), (2, 3, 1, 2), (2, 3, 2, 1), (1, 3, 2, 2), (2, 2, 3, 1),
    (1, 2, 3, 2), (2, 1, 3, 2), (1, 2, 2, 3), (2, 1, 2, 3), (2, 2, 1, 3), (3, 3, 1, 1),
    (1, 1, 3, 3), (3, 1, 3, 1), (1, 3, 1, 3), (3, 1, 1, 3), (1, 3, 3, 1), (2, 0, 3, 3),
    (2, 3, 0, 3), (2, 3, 3, 0), (3, 2, 0, 3), (3, 2, 3, 0), (0, 2, 3, 3), (3, 3, 2, 0),
    (0, 3, 2, 3), (3, 0, 2, 3), (0, 3, 3, 2), (3, 0, 3, 2), (3, 3, 0, 2), (3, 2, 2, 2),
    (2, 3, 2, 2), (2, 2, 3, 2), (2, 2, 2, 3), (2, 1, 3, 3), (2, 3, 1, 3), (2, 3, 3, 1),
    (3, 2, 1, 3), (3, 2, 3, 1), (1, 2, 3, 3), (3, 3, 2, 1), (1, 3, 2, 3), (3, 1, 2, 3),
    (1, 3, 3, 2), (3, 1, 3, 2), (3, 3, 1, 2), (0, 3, 3, 3), (3, 0, 3, 3), (3, 3, 0, 3),
    (3, 3, 3, 0), (3, 3, 2, 2), (2, 2, 3, 3), (3, 2, 3, 2), (2, 3, 2, 3), (3, 2, 2, 3),
    (2, 3, 3, 2), (1, 3, 3, 3), (3, 1, 3, 3), (3, 3, 1, 3), (3, 3, 3, 1), (2, 3, 3, 3),
    (3, 2, 3, 3), (3, 3, 2, 3), (3, 3, 3, 2), (3, 3, 3, 3)]"

definition PERM :: "nat \<Rightarrow> nat list" where
  "PERM d = (if d = 1 then perm_1 else if d = 2 then perm_2 else if d = 3 then perm_3 else perm_4)"

text \<open>Reorder the coefficients and convert them to negabinary, and back.\<close>

definition fwd_order :: "('i::len) word list \<Rightarrow> nat list \<Rightarrow> nat \<Rightarrow> 'i word list" where
  "fwd_order iblock perm n = map (\<lambda>j. int2uint (iblock ! (perm ! j))) [0..<n]"

definition inv_order :: "('i::len) word list \<Rightarrow> 'i word list \<Rightarrow> nat list \<Rightarrow> nat \<Rightarrow> 'i word list" where
  "inv_order ublock iblock perm n =
    foldl (\<lambda>iblock j. iblock[perm ! j := uint2int (ublock ! j)]) iblock [0..<n]"

section \<open>Properties of the conversion\<close>

lemma bit_nbmask: "bit (nbmask :: 'i::len word) i \<longleftrightarrow> i < LENGTH('i) \<and> odd i"
  by (auto simp: nbmask_def bit_horner_sum_bit_word_iff)

lemma xor_twice: "(a XOR b) XOR b = a" for a b :: "'i::len word"
  by (rule bit_word_eqI) (auto simp: bit_xor_iff)

lemma uint2int_int2uint [simp]: "uint2int (int2uint x) = x"
  by (simp add: uint2int_def int2uint_def xor_twice)

lemma int2uint_uint2int [simp]: "int2uint (uint2int x) = x"
  by (simp add: uint2int_def int2uint_def xor_twice)

lemma word_bits_sum: "w = (\<Sum>i < LENGTH('i). of_bool (bit w i) * 2 ^ i)" for w :: "'i::len word"
proof -
  have "w = horner_sum of_bool 2 (map (bit w) [0..<LENGTH('i)])"
    by (rule bit_word_eqI) (simp add: bit_horner_sum_bit_word_iff)
  then show ?thesis by (simp add: horner_sum_eq_sum lessThan_atLeast0)
qed

text \<open>The negabinary value of a word: bit \<open>i\<close> has weight \<open>(-2) ^ i\<close>.\<close>

definition negabinary :: "('i::len) word \<Rightarrow> int" where
  "negabinary u = (\<Sum>i < LENGTH('i). of_bool (bit u i) * (- 2) ^ i)"

lemma uint2int_negabinary: "uint2int u = word_of_int (negabinary u)" for u :: "'i::len word"
proof -
  have m: "nbmask = (\<Sum>i < LENGTH('i). of_bool (odd i) * 2 ^ i :: 'i word)"
    using word_bits_sum [of "nbmask :: 'i word"] by (simp add: bit_nbmask)
  have x: "u XOR nbmask = (\<Sum>i < LENGTH('i). of_bool (bit u i \<noteq> odd i) * 2 ^ i)"
    using word_bits_sum [of "u XOR nbmask"] by (simp add: bit_xor_iff bit_nbmask)
  have "uint2int u = (\<Sum>i < LENGTH('i). (of_bool (bit u i \<noteq> odd i) - of_bool (odd i)) * 2 ^ i)"
    unfolding uint2int_def x by (simp only: m sum_subtractf left_diff_distrib)
  also have "\<dots> = (\<Sum>i < LENGTH('i). word_of_int (of_bool (bit u i) * (- 2) ^ i))"
    by (rule sum.cong) (auto simp: power_minus_odd)
  finally show ?thesis by (simp add: negabinary_def of_int_sum)
qed


text \<open>The weight of the digits below \<open>k\<close>.\<close>

fun low_digits :: "(nat \<Rightarrow> bool) \<Rightarrow> nat \<Rightarrow> int" where
  "low_digits f 0 = 0"
| "low_digits f (Suc k) = low_digits f k + (if f k then (- 2) ^ k else 0)"

lemma low_digits_sum: "low_digits f k = (\<Sum>i < k. of_bool (f i) * (- 2) ^ i)"
  by (induction k) simp_all

lemma low_digits_range:
  "(even k \<longrightarrow> - (2 * 2 ^ k - 2) \<le> 3 * low_digits f k \<and> 3 * low_digits f k \<le> 2 ^ k - 1) \<and>
   (odd k \<longrightarrow> - (2 ^ k - 2) \<le> 3 * low_digits f k \<and> 3 * low_digits f k \<le> 2 * 2 ^ k - 1)"
proof (induction k)
  case (Suc k)
  then show ?case by (cases "even k"; cases "f k") (auto simp: power_minus_odd)
qed simp

lemma low_digits_bound: "3 * \<bar>low_digits f k\<bar> < 2 ^ (k + 1)"
  using low_digits_range [of k f] by (cases "even k") auto

text \<open>Clearing the digits below \<open>k\<close> changes the value by the sum of their weights.\<close>

lemma negabinary_truncate:
  fixes u :: "'i::len word"
  assumes "k \<le> LENGTH('i)"
  shows "negabinary u - negabinary (truncate_low k u) = low_digits (bit u) k"
proof -
  let ?L = "LENGTH('i)"
  have "negabinary u - negabinary (truncate_low k u) =
      (\<Sum>i < ?L. of_bool (bit u i) * (- 2) ^ i - of_bool (k \<le> i \<and> bit u i) * (- 2) ^ i)"
    by (simp only: negabinary_def bit_truncate_low sum_subtractf)
  also have "\<dots> = (\<Sum>i < ?L. if i < k then of_bool (bit u i) * (- 2) ^ i else 0)"
    by (rule sum.cong) auto
  also have "\<dots> = (\<Sum>i \<in> {i. i < ?L \<and> i < k}. of_bool (bit u i) * (- 2) ^ i)"
    by (simp only: sum.inter_filter [symmetric] finite_lessThan) (simp add: lessThan_def)
  also have "{i. i < ?L \<and> i < k} = {..<k}" using assms by auto
  finally show ?thesis by (simp only: low_digits_sum)
qed

lemma truncate_error:
  fixes u :: "'i::len word"
  assumes "k < LENGTH('i)"
  shows "3 * \<bar>sint (uint2int (truncate_low k u) - uint2int u)\<bar> < 2 ^ (k + 1)"
proof -
  define t where "t = low_digits (bit u) k"
  have e: "uint2int (truncate_low k u) - uint2int u = word_of_int (- t)"
    using negabinary_truncate [of k u] assms
    by (simp add: uint2int_negabinary t_def flip: of_int_diff of_int_minus) (simp add: algebra_simps flip: of_int_diff)
  have b: "3 * \<bar>t\<bar> < 2 ^ (k + 1)" unfolding t_def by (rule low_digits_bound)
  have "(2::int) ^ (k + 1) \<le> 2 ^ LENGTH('i)" using assms by (intro power_increasing) auto
  also have "\<dots> = 2 * 2 ^ (LENGTH('i) - 1)" using len_gt_0 [where 'a = 'i] by (metis power_eq_if less_numeral_extra(3))
  finally have "\<bar>- t\<bar> < 2 ^ (LENGTH('i) - 1)" using b by linarith
  then have "sint (uint2int (truncate_low k u) - uint2int u) = - t" unfolding e by (rule sint_fit)
  then show ?thesis using b by simp
qed

text \<open>Each table is a permutation of the block's positions.\<close>

lemma permI:
  assumes "sort (map int p) = [0..m]" "m + 1 = int n"
  shows "distinct p \<and> set p = {..<n}"
proof -
  have "distinct (sort (map int p))" "set (sort (map int p)) = {0..m}" unfolding assms(1) by simp_all
  then have d: "distinct (map int p)" and i: "int ` set p = {0..m}" by simp_all
  have "set p = {..<n}"
  proof (rule set_eqI)
    fix k
    have "k \<in> set p \<longleftrightarrow> int k \<in> int ` set p" by auto
    then show "k \<in> set p \<longleftrightarrow> k \<in> {..<n}" using assms(2) by (auto simp: i)
  qed
  then show ?thesis using d by (simp add: distinct_map)
qed

lemma sort_perm:
  "sort (map int perm_1) = [0..3]" "sort (map int perm_2) = [0..15]"
  "sort (map int perm_3) = [0..63]" "sort (map int perm_4) = [0..255]"
  unfolding perm_1_def perm_2_def perm_3_def perm_4_def index_2_def index_3_def index_4_def
  by (simp_all del: sort_key_simps insort_key.simps) code_simp+

lemma perm_tables:
  "distinct perm_1 \<and> set perm_1 = {..<4}" "distinct perm_2 \<and> set perm_2 = {..<16}"
  "distinct perm_3 \<and> set perm_3 = {..<64}" "distinct perm_4 \<and> set perm_4 = {..<256}"
  by (rule permI, rule sort_perm, simp)+

lemma PERM_permutation:
  assumes "1 \<le> d" "d \<le> 4"
  shows "distinct (PERM d)" "set (PERM d) = {..<4 ^ d}" "length (PERM d) = 4 ^ d"
proof -
  show d: "distinct (PERM d)" and s: "set (PERM d) = {..<4 ^ d}"
    using dims_cases [OF assms] by (elim disjE; simp add: PERM_def perm_tables)+
  show "length (PERM d) = 4 ^ d" using distinct_card [OF d] s by simp
qed

lemma length_fwd_order [simp]: "length (fwd_order b p n) = n"
  by (simp add: fwd_order_def)

lemma length_inv_order [simp]: "length (inv_order u b p n) = length b"
proof -
  have "length (foldl (\<lambda>b j. b[p ! j := uint2int (u ! j)]) b js) = length b" for js
    by (induction js rule: rev_induct) simp_all
  then show ?thesis by (simp add: inv_order_def)
qed

lemma nth_inv_order:
  assumes "distinct p" "n \<le> length p" "\<forall>j < n. p ! j < length b" "k < n"
  shows "inv_order u b p n ! (p ! k) = uint2int (u ! k)"
  using assms
proof (induction n)
  case (Suc n)
  have e: "inv_order u b p (Suc n) = (inv_order u b p n)[p ! n := uint2int (u ! n)]" by (simp add: inv_order_def)
  have l: "p ! n < length b" using Suc.prems by simp
  show ?case
  proof (cases "k = n")
    case False
    then have "p ! k \<noteq> p ! n" using Suc.prems by (simp add: nth_eq_iff_index_eq)
    then show ?thesis using False Suc by (simp add: e)
  qed (simp add: e l)
qed simp

text \<open>If the decoder's coefficients are related to the encoder's one by one, so are the blocks they are
  scattered to.\<close>

lemma inv_order_rel:
  assumes p: "distinct p" "set p = {..<n}" "length p = n" and l: "length q = n" "length b = n"
    and r: "\<And>j. j < n \<Longrightarrow> R (uint2int (u ! j)) (q ! (p ! j))"
  shows "list_all2 R (inv_order u b p n) q"
proof (rule list_all2_all_nthI)
  fix k assume "k < length (inv_order u b p n)"
  then have "k \<in> set p" using p l by simp
  then obtain j where j: "j < n" "k = p ! j" unfolding in_set_conv_nth p(3) by blast
  have "\<forall>j < n. p ! j < length b" using p l by (metis lessThan_iff nth_mem)
  then have "inv_order u b p n ! k = uint2int (u ! j)" using nth_inv_order [of p n b j u] p j by simp
  then show "R (inv_order u b p n ! k) (q ! k)" using r [OF j(1)] j by simp
qed (use l in simp)

lemma inv_order_fwd_order:
  assumes "distinct p" "set p = {..<n}" "length p = n" "length q = n" "length b = n"
  shows "inv_order (fwd_order q p n) b p n = q"
proof -
  have "list_all2 (=) (inv_order (fwd_order q p n) b p n) q"
    using assms by (intro inv_order_rel) (simp_all add: fwd_order_def)
  then show ?thesis by (simp add: list_all2_eq)
qed


section \<open>Properties\<close>

text \<open>the conversion to negabinary is a bijection, and the word it yields has the value of the signed
  integer when its bits are read with the weights \<open>(-2) ^ i\<close>.\<close>

theorem negabinary_conversion:
  fixes x u :: "'i::len word"
  shows "uint2int (int2uint x) = x \<and> int2uint (uint2int u) = u \<and> x = word_of_int (negabinary (int2uint x))"
  using uint2int_negabinary [of "int2uint x"] by simp

text \<open>Clearing the \<open>k\<close> low negabinary digits of a coefficient changes its value by less than
  \<open>2/3\<close> of \<open>2 ^ k\<close>.\<close>

theorem negabinary_truncation_error:
  fixes x :: "'i::len word"
  assumes "k < LENGTH('i)"
  shows "3 * \<bar>sint (uint2int (truncate_low k (int2uint x)) - x)\<bar> < 2 * 2 ^ k"
  using truncate_error [OF assms, of "int2uint x"] by simp

theorem negabinary_truncation_error_witness:
  "3 * \<bar>sint (uint2int (truncate_low 3 (int2uint (-5 :: uint32))) - (-5))\<bar> < 16"
  using negabinary_truncation_error [of 3 "-5 :: uint32"] by simp

text \<open>Total degree of a coefficient, then the sum of the squares of its degrees along the axes.\<close>

definition degrees :: "nat \<Rightarrow> nat \<Rightarrow> nat list" where
  "degrees d q = map (\<lambda>a. q div 4 ^ a mod 4) [0..<d]"

definition degree_key :: "nat \<Rightarrow> nat \<Rightarrow> nat" where
  "degree_key d q = 64 * sum_list (degrees d q) + sum_list (map (\<lambda>i. i * i) (degrees d q))"

lemma sorted_tables:
  "sorted (map (degree_key 1) perm_1)" "sorted (map (degree_key 2) perm_2)"
  "sorted (map (degree_key 3) perm_3)" "sorted (map (degree_key 4) perm_4)"
  unfolding perm_1_def perm_2_def perm_3_def perm_4_def index_2_def index_3_def index_4_def
  by (simp_all add: degree_key_def degrees_def upt_rec sorted2_simps del: sorted_simps)

text \<open>the coefficient order of every dimensionality lists each position of the block exactly once, by
  total degree \<open>i + j + k + l\<close> and then by the sum of squares.\<close>

theorem PERM_order:
  assumes "1 \<le> d" "d \<le> 4"
  shows "distinct (PERM d) \<and> set (PERM d) = {..<4 ^ d} \<and> sorted (map (degree_key d) (PERM d))"
  using PERM_permutation [OF assms] dims_cases [OF assms] sorted_tables
  by (elim disjE) (simp_all add: PERM_def)

theorem PERM_order_witness: "distinct (PERM 2) \<and> set (PERM 2) = {..<16}"
  using PERM_order [of 2] by simp

end
