(* ===== verification/Block.thy ===== *)
theory Block
  imports Reorder
begin

text \<open>
  The integer block codec: \<open>encode_block\<close> and \<open>decode_block\<close> of \<^verbatim>\<open>src/template/encode.c\<close> and \<^verbatim>\<open>decode.c\<close>, and the
  lossless \<open>rev_encode_block\<close> and \<open>rev_decode_block\<close> of \<^verbatim>\<open>revencode.c\<close> and \<^verbatim>\<open>revdecode.c\<close>, which compose the block transform,
  the reordering and the embedded coder. The dimensionality is the parameter \<open>d\<close> (\<open>DIMS\<close> in the
  templates, 1 to 4), a block a list of \<open>4 ^ d\<close> words. A decoder gets the buffer that it fills as an
  argument, as in the source. \<open>int_block_code\<close> and \<open>rev_block_code\<close> specify the bits of a block; the encoders
  append them and the decoders consume them.
\<close>

section \<open>Operations\<close>

text \<open>Difference of two values of the 32-bit type \<open>uint\<close>, which wraps around.\<close>

definition usub :: "nat \<Rightarrow> nat \<Rightarrow> nat" where
  "usub a b = unat (of_nat a - of_nat b :: uint32)"

text \<open>Number of bits that encode the precision of a block (\<open>PBITS\<close> of the traits headers).\<close>

definition pbits :: "('i::len) itself \<Rightarrow> nat" where
  "pbits i = (if LENGTH('i) = 32 then 5 else 6)"

definition encode_block ::
  "nat \<Rightarrow> ('w::len) bitstream \<Rightarrow> nat \<Rightarrow> nat \<Rightarrow> nat \<Rightarrow> ('i::len) word list \<Rightarrow> nat \<times> 'w bitstream" where
  "encode_block d s minbits maxbits maxprec iblock =
    (let iblock = fwd_xform d iblock;
         ublock = fwd_order iblock (PERM d) (4 ^ d);
         (nb, s) = encode_ints s maxbits maxprec ublock (4 ^ d)
     in if nb < minbits then (minbits, stream_pad s (minbits - nb)) else (nb, s))"

definition decode_block ::
  "nat \<Rightarrow> ('w::len) bitstream \<Rightarrow> nat \<Rightarrow> nat \<Rightarrow> nat \<Rightarrow> ('i::len) word list \<Rightarrow> nat \<times> 'i word list \<times> 'w bitstream" where
  "decode_block d s minbits maxbits maxprec iblock =
    (let (nb, ublock, s) = decode_ints s maxbits maxprec (4 ^ d);
         (nb, s) = (if nb < minbits then (minbits, stream_skip s (minbits - nb)) else (nb, s));
         iblock = inv_order ublock iblock (PERM d) (4 ^ d)
     in (nb, inv_xform d iblock, s))"

text \<open>
  The loop of \<open>rev_precision\<close>, which counts the significant bits of \<open>m\<close> by binary search. The source
  tests \<open>m\<close> only; the additional test of \<open>s\<close> makes the recursion well-founded and does not stop the loop
  early: it always ends with \<open>m = 0\<close> (\<open>rev_precision_loop_result\<close> below).
\<close>

function rev_precision_loop :: "nat \<Rightarrow> ('i::len) word \<Rightarrow> nat \<Rightarrow> 'i word \<times> nat" where
  "rev_precision_loop s m p =
    (if m \<noteq> 0 \<and> 0 < s then
       if push_bit (s - 1) m \<noteq> 0
       then rev_precision_loop (s div 2) (push_bit 1 (push_bit (s - 1) m)) (p + s)
       else rev_precision_loop (s div 2) m p
     else (m, p))"
  by pat_completeness auto
termination by (relation "measure (\<lambda>(s, m, p). s)") auto

declare rev_precision_loop.simps [simp del]

definition rev_precision :: "('i::len) word list \<Rightarrow> nat \<Rightarrow> nat" where
  "rev_precision block n =
    (let m = foldl (\<lambda>m i. m OR block ! i) 0 [0..<n]
     in snd (rev_precision_loop (LENGTH('i)) m 0))"

definition rev_encode_block ::
  "nat \<Rightarrow> ('w::len) bitstream \<Rightarrow> nat \<Rightarrow> nat \<Rightarrow> nat \<Rightarrow> ('i::len) word list \<Rightarrow> nat \<times> 'w bitstream" where
  "rev_encode_block d s minbits maxbits maxprec iblock =
    (let nb = pbits TYPE('i);
         iblock = rev_fwd_xform d iblock;
         ublock = fwd_order iblock (PERM d) (4 ^ d);
         prec = rev_precision ublock (4 ^ d);
         prec = min prec maxprec;
         prec = max prec 1;
         (_, s) = stream_write_bits s (of_nat (prec - 1)) (pbits TYPE('i));
         (n, s) = encode_ints s (usub maxbits nb) prec ublock (4 ^ d);
         nb = nb + n
     in if nb < minbits then (minbits, stream_pad s (minbits - nb)) else (nb, s))"

definition rev_decode_block ::
  "nat \<Rightarrow> ('w::len) bitstream \<Rightarrow> nat \<Rightarrow> nat \<Rightarrow> ('i::len) word list \<Rightarrow> nat \<times> 'i word list \<times> 'w bitstream" where
  "rev_decode_block d s minbits maxbits iblock =
    (let nb = pbits TYPE('i);
         (v, s) = stream_read_bits s (pbits TYPE('i));
         prec = unat v + 1;
         (n, ublock, s) = decode_ints s (usub maxbits nb) prec (4 ^ d);
         nb = nb + n;
         (nb, s) = (if nb < minbits then (minbits, stream_skip s (minbits - nb)) else (nb, s));
         iblock = inv_order ublock iblock (PERM d) (4 ^ d)
     in (nb, rev_inv_xform d iblock, s))"

section \<open>The number of significant bits\<close>

text \<open>The least shift that clears a word.\<close>

definition significant :: "('i::len) word \<Rightarrow> nat" where
  "significant m = (LEAST p. push_bit p m = 0)"

lemma push_len [simp]: "push_bit (LENGTH('i)) m = 0" for m :: "'i::len word"
  by (rule bit_word_eqI) (simp add: bit_push_iff)

lemma push_mono: "push_bit p m = 0 \<Longrightarrow> p \<le> q \<Longrightarrow> push_bit q m = 0" for m :: "'i::len word"
  by (metis le_add_diff_inverse2 push_bit_push_bit push_bit_of_0)

lemma significant_le: "push_bit p m = 0 \<longleftrightarrow> significant m \<le> p" for m :: "'i::len word"
proof
  assume "significant m \<le> p"
  moreover have "push_bit (significant m) m = 0"
    unfolding significant_def by (rule LeastI [of _ "LENGTH('i)"]) simp
  ultimately show "push_bit p m = 0" by (rule push_mono [rotated])
qed (simp add: significant_def Least_le)

lemma significant_push: "significant (push_bit s m) = significant m - s" for m :: "'i::len word"
proof -
  have "significant (push_bit s m) \<le> p \<longleftrightarrow> significant m - s \<le> p" for p
    using significant_le [of p "push_bit s m"] significant_le [of "p + s" m] by (simp add: push_bit_push_bit le_diff_conv)
  then show ?thesis by (meson order_antisym order_refl)
qed

lemma significant_0: "m = 0 \<longleftrightarrow> significant m = 0" for m :: "'i::len word"
  using significant_le [of 0 m] by simp

lemma rev_precision_loop_result:
  fixes m :: "'i::len word"
  assumes "s = 2 ^ e" "significant m < 2 * s"
  shows "rev_precision_loop s m p = (0, p + significant m)"
  using assms
proof (induction e arbitrary: s m p)
  case 0
  then have s: "s = 1" "significant m < 2" by simp_all
  have z: "rev_precision_loop 0 (0 :: 'i word) q = (0, q)" for q by (subst rev_precision_loop.simps) simp
  show ?case
  proof (cases "m = 0")
    case False
    then have "significant m = 1" using s significant_0 [of m] by simp
    then have "push_bit 1 m = 0" by (simp only: significant_le)
    then show ?thesis using False s z \<open>significant m = 1\<close> by (subst rev_precision_loop.simps) simp
  qed (use significant_0 [of m] in \<open>subst rev_precision_loop.simps, simp\<close>)
next
  case (Suc e)
  have half: "s div 2 = 2 ^ e" "0 < s" using Suc.prems(1) by simp_all
  show ?case
  proof (cases "m = 0")
    case True
    then show ?thesis using significant_0 [of m] by (subst rev_precision_loop.simps) simp
  next
    case False
    have t: "push_bit (s - 1) m \<noteq> 0 \<longleftrightarrow> s \<le> significant m"
      using significant_le [of "s - 1" m] half(2) by linarith
    have p: "push_bit 1 (push_bit (s - 1) m) = push_bit s m" using half(2) by (simp add: push_bit_push_bit)
    show ?thesis
    proof (cases "s \<le> significant m")
      case True
      have "rev_precision_loop (s div 2) (push_bit s m) (p + s) = (0, p + s + significant (push_bit s m))"
        using Suc.prems True half by (intro Suc.IH) (simp_all add: significant_push)
      then show ?thesis using False True t p half(2)
        by (subst rev_precision_loop.simps) (simp add: significant_push del: One_nat_def)
    next
      case nle: False
      have "rev_precision_loop (s div 2) m p = (0, p + significant m)"
        using Suc.prems nle half by (intro Suc.IH) simp_all
      then show ?thesis using False nle t half(2) by (subst rev_precision_loop.simps) simp
    qed
  qed
qed

lemma bit_fold_or: "bit (foldl (\<lambda>m i. m OR block ! i) (0 :: 'i::len word) [0..<n]) q \<longleftrightarrow> (\<exists>i < n. bit (block ! i) q)"
  by (induction n) (auto simp: bit_or_iff less_Suc_eq)

lemma rev_precision_eq:
  fixes block :: "('i::len) word list"
  assumes "LENGTH('i) = 32 \<or> LENGTH('i) = 64"
  shows "rev_precision block n = significant (foldl (\<lambda>m i. m OR block ! i) 0 [0..<n])"
proof -
  let ?m = "foldl (\<lambda>m i. m OR block ! i) 0 [0..<n]"
  have "LENGTH('i) = 2 ^ (5::nat) \<or> LENGTH('i) = 2 ^ (6::nat)" using assms by simp
  moreover have "significant ?m < 2 * LENGTH('i)"
    using significant_le [of "LENGTH('i)" ?m] len_gt_0 [where 'a = 'i] by (simp; linarith)
  ultimately show ?thesis
    using rev_precision_loop_result [of "LENGTH('i)" 5 ?m 0] rev_precision_loop_result [of "LENGTH('i)" 6 ?m 0]
    by (auto simp: rev_precision_def)
qed

lemma rev_precision_le:
  fixes block :: "('i::len) word list"
  assumes "LENGTH('i) = 32 \<or> LENGTH('i) = 64"
  shows "rev_precision block n \<le> LENGTH('i)"
  using significant_le [of "LENGTH('i)" "foldl (\<lambda>m i. m OR block ! i) 0 [0..<n]"]
  by (simp add: rev_precision_eq [OF assms])

text \<open>No value of the block has a one-bit below its \<open>rev_precision\<close> most significant bits.\<close>

lemma rev_precision_exact:
  fixes block :: "('i::len) word list"
  assumes "LENGTH('i) = 32 \<or> LENGTH('i) = 64" "i < n" "rev_precision block n \<le> p"
  shows "truncate_low (kmin_of TYPE('i) p) (block ! i) = block ! i"
proof (rule bit_word_eqI)
  let ?m = "foldl (\<lambda>m i. m OR block ! i) 0 [0..<n]"
  fix q assume q: "q < LENGTH('i)"
  have "push_bit p ?m = 0" using assms(3) by (simp add: rev_precision_eq [OF assms(1)] significant_le)
  then have z: "\<not> bit ?m q" if "q + p < LENGTH('i)" for q
    using that bit_push_iff [of p ?m "q + p"] by simp
  have "kmin_of TYPE('i) p \<le> q" if "bit (block ! i) q"
  proof -
    have "bit ?m q" using that assms(2) bit_fold_or [of block n q] by blast
    then have "\<not> q + p < LENGTH('i)" using z by blast
    then show ?thesis by (auto simp: kmin_of_def Let_def)
  qed
  then show "bit (truncate_low (kmin_of TYPE('i) p) (block ! i)) q = bit (block ! i) q"
    by (auto simp: bit_truncate_low)
qed


section \<open>The code of a block\<close>

definition pad_to :: "nat \<Rightarrow> bool list \<Rightarrow> bool list" where
  "pad_to n bs = bs @ replicate (n - length bs) False"

lemma length_pad_to [simp]: "length (pad_to n bs) = max n (length bs)"
  by (simp add: pad_to_def max_def)

text \<open>The common end of the encoders and of the decoders: at least \<open>minbits\<close> bits per block.\<close>

lemma pad_step:
  assumes "sink_ok s"
  shows "(if length bs < n then (n, stream_pad (wappend s bs) (n - length bs)) else (length bs, wappend s bs)) =
    (length (pad_to n bs), wappend s (pad_to n bs))"
  using assms by (simp add: stream_pad_eq sink_ok_def pad_to_def wappend_append)

lemma skip_step:
  assumes "source_ok s"
  shows "(if length bs < n then (n, stream_skip (stream_skip s (length bs)) (n - length bs))
      else (length bs, stream_skip s (length bs))) =
    (length (pad_to n bs), stream_skip s (length (pad_to n bs)))"
  using assms by (simp add: pad_to_def)

lemma encode_ints_take:
  "sink_ok s \<Longrightarrow> encode_ints s maxbits maxprec (fwd_order b p (4 ^ d)) (4 ^ d) =
    (length (take maxbits (ints_code maxprec (fwd_order b p (4 ^ d)))),
     wappend s (take maxbits (ints_code maxprec (fwd_order b p (4 ^ d)))))"
  using encode_ints_eq [of s "fwd_order b p (4 ^ d)" maxbits maxprec] by (simp add: fwd_order_def min.commute)

lemma decode_ints_take:
  fixes b :: "('i::len) word list"
  assumes "source_ok s" "upcoming s (take maxbits (ints_code maxprec (fwd_order b p (4 ^ d))))"
  shows "\<exists>u. decode_ints s maxbits maxprec (4 ^ d) =
      (length (take maxbits (ints_code maxprec (fwd_order b p (4 ^ d)))), u,
        stream_skip s (length (take maxbits (ints_code maxprec (fwd_order b p (4 ^ d))))))
    \<and> planes_set (kmin_of TYPE('i) maxprec) (LENGTH('i)) 0 maxbits (fwd_order b p (4 ^ d)) (replicate (4 ^ d) 0) u"
  using decode_ints_eq [OF assms(1) _ assms(2)] by (simp add: fwd_order_def min.commute)

definition int_block_code :: "nat \<Rightarrow> nat \<Rightarrow> nat \<Rightarrow> nat \<Rightarrow> ('i::len) word list \<Rightarrow> bool list" where
  "int_block_code d minbits maxbits maxprec iblock =
    pad_to minbits (take maxbits (ints_code maxprec (fwd_order (fwd_xform d iblock) (PERM d) (4 ^ d))))"

lemma encode_block_eq:
  assumes "sink_ok s"
  shows "encode_block d s minbits maxbits maxprec iblock =
    (length (int_block_code d minbits maxbits maxprec iblock), wappend s (int_block_code d minbits maxbits maxprec iblock))"
  unfolding encode_block_def int_block_code_def Let_def encode_ints_take [OF assms] prod.case by (rule pad_step [OF assms])

lemma decode_block_eq:
  fixes iblock buf :: "('i::len) word list"
  assumes "source_ok s" "upcoming s (int_block_code d minbits maxbits maxprec iblock)"
  shows "\<exists>u. decode_block d s minbits maxbits maxprec buf =
      (length (int_block_code d minbits maxbits maxprec iblock),
       inv_xform d (inv_order u buf (PERM d) (4 ^ d)),
       stream_skip s (length (int_block_code d minbits maxbits maxprec iblock)))
    \<and> planes_set (kmin_of TYPE('i) maxprec) (LENGTH('i)) 0 maxbits
        (fwd_order (fwd_xform d iblock) (PERM d) (4 ^ d)) (replicate (4 ^ d) 0) u"
proof -
  let ?u = "fwd_order (fwd_xform d iblock) (PERM d) (4 ^ d)" and ?k = "kmin_of TYPE('i) maxprec"
  let ?c = "take maxbits (ints_code maxprec ?u)"
  have "upcoming s ?c" using assms by (simp add: int_block_code_def pad_to_def upcoming_append)
  then obtain u where u: "decode_ints s maxbits maxprec (4 ^ d) = (length ?c, u, stream_skip s (length ?c))"
    and ps: "planes_set ?k (LENGTH('i)) 0 maxbits ?u (replicate (4 ^ d) 0) u"
    using decode_ints_take [OF assms(1)] by blast
  show ?thesis
    unfolding decode_block_def u Let_def prod.case skip_step [OF assms(1), of ?c minbits]
    using ps by (auto simp: int_block_code_def)
qed

lemma usub_eq: "b \<le> a \<Longrightarrow> a < 2 ^ 32 \<Longrightarrow> usub a b = a - b"
  by (simp add: usub_def unat_sub word_le_nat_alt unat_of_nat)

definition rev_prec :: "nat \<Rightarrow> nat \<Rightarrow> ('i::len) word list \<Rightarrow> nat" where
  "rev_prec d maxprec iblock =
    max (min (rev_precision (fwd_order (rev_fwd_xform d iblock) (PERM d) (4 ^ d)) (4 ^ d)) maxprec) 1"

definition rev_block_code :: "nat \<Rightarrow> nat \<Rightarrow> nat \<Rightarrow> nat \<Rightarrow> ('i::len) word list \<Rightarrow> bool list" where
  "rev_block_code d minbits maxbits maxprec iblock =
    (let prec = rev_prec d maxprec iblock
     in pad_to minbits (map (bit (of_nat (prec - 1) :: uint64)) [0..<pbits TYPE('i)] @
          take (usub maxbits (pbits TYPE('i))) (ints_code prec (fwd_order (rev_fwd_xform d iblock) (PERM d) (4 ^ d)))))"

lemma pbits_le: "pbits TYPE('i::len) \<le> 6"
  by (simp add: pbits_def)

lemma rev_encode_block_eq:
  fixes iblock :: "('i::len) word list"
  assumes "sink_ok s"
  shows "rev_encode_block d s minbits maxbits maxprec iblock =
    (length (rev_block_code d minbits maxbits maxprec iblock), wappend s (rev_block_code d minbits maxbits maxprec iblock))"
proof -
  let ?u = "fwd_order (rev_fwd_xform d iblock) (PERM d) (4 ^ d)" and ?p = "rev_prec d maxprec iblock"
  let ?h = "map (bit (of_nat (?p - 1) :: uint64)) [0..<pbits TYPE('i)]"
  let ?c = "take (usub maxbits (pbits TYPE('i))) (ints_code ?p ?u)"
  have w: "stream_write_bits s (of_nat (?p - 1)) (pbits TYPE('i)) = (drop_bit (pbits TYPE('i)) (of_nat (?p - 1)), wappend s ?h)"
    using sink.puts_put [OF assms, of "pbits TYPE('i)"] pbits_le [where 'i = 'i] by (simp add: wappend_def)
  have e: "pbits TYPE('i) + length ?c = length (?h @ ?c)" "wappend (wappend s ?h) ?c = wappend s (?h @ ?c)"
    by (simp_all add: wappend_append)
  have s: "sink_ok (wappend s ?h)" using assms by simp
  show ?thesis
    unfolding rev_encode_block_def rev_block_code_def Let_def rev_prec_def [symmetric] w prod.case
      encode_ints_take [OF s] e
    by (rule pad_step [OF assms])
qed

lemma rev_prec_range:
  fixes iblock :: "('i::len) word list"
  assumes "LENGTH('i) = 32 \<or> LENGTH('i) = 64"
  shows "1 \<le> rev_prec d maxprec iblock" "rev_prec d maxprec iblock \<le> LENGTH('i)"
  using rev_precision_le [OF assms] assms by (auto simp: rev_prec_def min_le_iff_disj)

lemma rev_decode_block_eq:
  fixes iblock buf :: "('i::len) word list"
  assumes "source_ok s" "upcoming s (rev_block_code d minbits maxbits maxprec iblock)"
    "LENGTH('i) = 32 \<or> LENGTH('i) = 64"
  shows "\<exists>u. rev_decode_block d s minbits maxbits buf =
      (length (rev_block_code d minbits maxbits maxprec iblock),
       rev_inv_xform d (inv_order u buf (PERM d) (4 ^ d)),
       stream_skip s (length (rev_block_code d minbits maxbits maxprec iblock)))
    \<and> planes_set (kmin_of TYPE('i) (rev_prec d maxprec iblock)) (LENGTH('i)) 0 (usub maxbits (pbits TYPE('i)))
        (fwd_order (rev_fwd_xform d iblock) (PERM d) (4 ^ d)) (replicate (4 ^ d) 0) u"
proof -
  let ?u = "fwd_order (rev_fwd_xform d iblock) (PERM d) (4 ^ d)" and ?p = "rev_prec d maxprec iblock"
  let ?B = "pbits TYPE('i)" and ?m = "usub maxbits (pbits TYPE('i))"
  let ?s = "stream_skip s ?B"
  have up: "upcoming s (map (bit (of_nat (?p - 1) :: uint64)) [0..<?B])" "upcoming ?s (take ?m (ints_code ?p ?u))"
    using assms(1,2) by (simp_all add: rev_block_code_def pad_to_def upcoming_append Let_def)
  have small: "?p - 1 < 2 ^ ?B" using rev_prec_range [OF assms(3), of d maxprec iblock] assms(3) by (auto simp: pbits_def)
  have "take_bit ?B (of_nat (?p - 1) :: uint64) = of_nat (?p - 1)"
    using small by (simp add: take_bit_nat_eq_self flip: of_nat_take_bit)
  then have rd: "stream_read_bits s ?B = (of_nat (?p - 1), ?s)"
    using upcoming_read_bits [OF assms(1) up(1)] pbits_le [where 'i = 'i] by (simp add: of_bits_take_bit)
  have "(2::nat) ^ ?B \<le> 2 ^ 6" using pbits_le by (intro power_increasing) auto
  then have "unat (of_nat (?p - 1) :: uint64) = ?p - 1" using small by (simp add: unat_of_nat)
  then have pr: "unat (of_nat (?p - 1) :: uint64) + 1 = ?p" using rev_prec_range(1) [OF assms(3), of d maxprec iblock] by simp
  let ?c = "take ?m (ints_code ?p ?u)" and ?h = "map (bit (of_nat (?p - 1) :: uint64)) [0..<?B]"
  obtain u where u: "decode_ints ?s ?m ?p (4 ^ d) = (length ?c, u, stream_skip ?s (length ?c))"
    and ps: "planes_set (kmin_of TYPE('i) ?p) (LENGTH('i)) 0 ?m ?u (replicate (4 ^ d) 0) u"
    using decode_ints_take [OF source_ok_skip [OF assms(1)] up(2)] by blast
  have e: "?B + length ?c = length (?h @ ?c)" "stream_skip ?s (length ?c) = stream_skip s (length (?h @ ?c))"
    using assms(1) by simp_all
  show ?thesis
    unfolding rev_decode_block_def rd Let_def prod.case pr u e skip_step [OF assms(1), of "?h @ ?c" minbits]
    using ps by (auto simp: rev_block_code_def Let_def)
qed


text \<open>A stream that was flushed and repositioned to where it was before some bits were appended.\<close>

lemma reread:
  assumes "sink_ok s" "s1 = wappend s bs" "r = stream_rseek (snd (stream_flush s1)) (stream_wtell s)"
  shows "source_ok r" "upcoming r bs" "stream_rtell r = stream_wtell s"
proof -
  have w: "winv s" using assms(1) by (simp add: sink_ok_def)
  then have k: "sink_ok s1" "stream_wtell s \<le> stream_wtell s1" using assms(1,2) by simp_all
  show "source_ok r" "stream_rtell r = stream_wtell s" using flush_rseek_upcoming(1) [OF k] assms(3) by simp_all
  have "drop (stream_wtell s) (written s1) = bs" using w by (simp add: assms(2) wtell_length [symmetric])
  then show "upcoming r bs" using flush_rseek_upcoming(2) [OF k] assms(3) by simp
qed

lemma rev_block_exact:
  fixes iblock :: "('i::len) word list"
  assumes L: "LENGTH('i) = 32 \<or> LENGTH('i) = 64" and d: "1 \<le> d" "d \<le> 4" and l: "length iblock = 4 ^ d" "length buf = 4 ^ d"
    and p: "LENGTH('i) \<le> maxprec" and m: "(LENGTH('i) + 1) * 4 ^ d - 1 \<le> m"
    and ps: "planes_set (kmin_of TYPE('i) (rev_prec d maxprec iblock)) (LENGTH('i)) 0 m
        (fwd_order (rev_fwd_xform d iblock) (PERM d) (4 ^ d)) (replicate (4 ^ d) 0) u"
  shows "rev_inv_xform d (inv_order u buf (PERM d) (4 ^ d)) = iblock"
proof -
  let ?u = "fwd_order (rev_fwd_xform d iblock) (PERM d) (4 ^ d)" and ?p = "rev_prec d maxprec iblock"
  have ne: "?u \<noteq> []" by (simp add: fwd_order_def)
  have "length (ints_code ?p ?u) \<le> (?p + 1) * 4 ^ d - 1" using length_ints_code [OF ne, of ?p] by simp
  also have "\<dots> \<le> (LENGTH('i) + 1) * 4 ^ d - 1"
    using rev_prec_range(2) [OF L, of d maxprec iblock] by (intro diff_le_mono mult_le_mono1) simp
  finally have "length (ints_code ?p ?u) \<le> m" using m by simp
  then have "u = map (truncate_low (kmin_of TYPE('i) ?p)) ?u"
    using planes_set_complete [of ?p m ?u u] ps by simp
  also have "\<dots> = ?u"
  proof (rule nth_equalityI)
    fix i assume i: "i < length (map (truncate_low (kmin_of TYPE('i) ?p)) ?u)"
    have "rev_precision ?u (4 ^ d) \<le> ?p" using rev_precision_le [OF L, of ?u "4 ^ d"] p by (simp add: rev_prec_def)
    then show "map (truncate_low (kmin_of TYPE('i) ?p)) ?u ! i = ?u ! i"
      using i rev_precision_exact [OF L, of i "4 ^ d" ?u ?p] by simp
  qed simp
  finally have "inv_order u buf (PERM d) (4 ^ d) = rev_fwd_xform d iblock"
    using inv_order_fwd_order [OF PERM_permutation [OF d], of "rev_fwd_xform d iblock" buf] l by simp
  then show ?thesis using rev_xform_restore [OF d l(1)] by simp
qed

section \<open>Properties\<close>

text \<open>C22: reversible mode is lossless for integers. For every block of 32- or 64-bit integers of one to four
  dimensions, whatever its values, decoding what \<open>rev_encode_block\<close> wrote restores the block bit for bit and
  consumes exactly the bits written, provided the precision and the bit budget are at least those of
  reversible mode.\<close>

theorem rev_block_roundtrip:
  fixes iblock :: "('i::len) word list"
  assumes "LENGTH('i) = 32 \<or> LENGTH('i) = 64" "1 \<le> d" "d \<le> 4" "length iblock = 4 ^ d" "length buf = 4 ^ d"
    and "LENGTH('i) \<le> maxprec" "pbits TYPE('i) + (LENGTH('i) + 1) * 4 ^ d - 1 \<le> maxbits" "maxbits < 2 ^ 32"
    and s: "sink_ok s" and enc: "rev_encode_block d s minbits maxbits maxprec iblock = (nb, s1)"
  shows "\<exists>r'. rev_decode_block d (stream_rseek (snd (stream_flush s1)) (stream_wtell s)) minbits maxbits buf = (nb, iblock, r')
    \<and> stream_rtell r' = stream_wtell s1"
proof -
  define r where "r = stream_rseek (snd (stream_flush s1)) (stream_wtell s)"
  let ?c = "rev_block_code d minbits maxbits maxprec iblock"
  have e: "nb = length ?c" "s1 = wappend s ?c" using enc rev_encode_block_eq [OF s, of d minbits maxbits maxprec iblock] by simp_all
  note rr = reread [OF s e(2) r_def]
  obtain u where u: "rev_decode_block d r minbits maxbits buf =
      (length ?c, rev_inv_xform d (inv_order u buf (PERM d) (4 ^ d)), stream_skip r (length ?c))"
    and ps: "planes_set (kmin_of TYPE('i) (rev_prec d maxprec iblock)) (LENGTH('i)) 0 (usub maxbits (pbits TYPE('i)))
        (fwd_order (rev_fwd_xform d iblock) (PERM d) (4 ^ d)) (replicate (4 ^ d) 0) u"
    using rev_decode_block_eq [OF rr(1,2) assms(1)] by blast
  have "(LENGTH('i) + 1) * 4 ^ d - 1 \<le> usub maxbits (pbits TYPE('i))"
  proof -
    have "(1::nat) \<le> 4 ^ d" by simp
    then have "pbits TYPE('i) \<le> maxbits" using assms(7) unfolding distrib_right by linarith
    then show ?thesis using assms(7,8) by (simp add: usub_eq)
  qed
  note b = rev_block_exact [OF assms(1-6) this ps]
  have "stream_rtell (stream_skip r (length ?c)) = stream_wtell s1" using rr(3) e s by (simp add: rtell_skip sink_ok_def)
  then show ?thesis using u b e(1) by (auto simp: r_def)
qed

theorem rev_block_roundtrip_witness:
  "\<exists>nb s1 r'. rev_encode_block 1 (stream_open (\<lambda>_. 0) 4096 :: 64 bitstream) 1 16658 64 [7, -1, 2147483647, 0 :: uint32] = (nb, s1)
    \<and> rev_decode_block 1 (stream_rseek (snd (stream_flush s1)) 0) 1 16658 [0, 0, 0, 0] = (nb, [7, -1, 2147483647, 0 :: uint32], r')
    \<and> stream_rtell r' = stream_wtell s1"
proof -
  let ?s = "stream_open (\<lambda>_. 0) 4096 :: 64 bitstream" and ?b = "[7, -1, 2147483647, 0 :: uint32]"
  obtain nb s1 where e: "rev_encode_block 1 ?s 1 16658 64 ?b = (nb, s1)" by (metis surj_pair)
  have k: "sink_ok ?s" by (simp add: sink_ok_open)
  have "\<exists>r'. rev_decode_block 1 (stream_rseek (snd (stream_flush s1)) (stream_wtell ?s)) 1 16658 [0, 0, 0, 0] = (nb, ?b, r')
    \<and> stream_rtell r' = stream_wtell s1"
    by (rule rev_block_roundtrip [OF _ _ _ _ _ _ _ _ k e]) (simp_all add: pbits_def)
  then show ?thesis using e by (auto simp: written_open)
qed

text \<open>In every mode and for every setting of the parameters, \<open>decode_block\<close> consumes exactly the bits that
  \<open>encode_block\<close> wrote for the block, so that the next block is found; and the block takes at least
  \<open>minbits\<close> and at most \<open>max minbits maxbits\<close> bits. With \<open>minbits = maxbits\<close>, the setting of fixed-rate mode,
  it takes exactly \<open>maxbits\<close> bits.\<close>

theorem block_in_sync:
  fixes iblock :: "('i::len) word list"
  assumes s: "sink_ok s" and enc: "encode_block d s minbits maxbits maxprec iblock = (nb, s1)"
    and dec: "decode_block d (stream_rseek (snd (stream_flush s1)) (stream_wtell s)) minbits maxbits maxprec (buf :: 'i word list) = (nb', oblock, r')"
  shows "nb' = nb \<and> stream_wtell s1 = stream_wtell s + nb \<and> stream_rtell r' = stream_wtell s1
    \<and> minbits \<le> nb \<and> nb \<le> max minbits maxbits"
proof -
  define r where "r = stream_rseek (snd (stream_flush s1)) (stream_wtell s)"
  let ?c = "int_block_code d minbits maxbits maxprec iblock"
  have e: "nb = length ?c" "s1 = wappend s ?c" using enc encode_block_eq [OF s, of d minbits maxbits maxprec iblock] by simp_all
  note rr = reread [OF s e(2) r_def]
  have d: "nb' = length ?c" "r' = stream_skip r (length ?c)"
    using decode_block_eq [OF rr(1,2), of buf] dec by (auto simp: r_def)
  have "minbits \<le> length ?c" "length ?c \<le> max minbits maxbits" by (auto simp: int_block_code_def)
  then show ?thesis using d e rr(3) s by (simp add: rtell_skip sink_ok_def)
qed

theorem block_in_sync_witness:
  "\<exists>nb s1 oblock r'. encode_block 2 (stream_open (\<lambda>_. 0) 64 :: 64 bitstream) 100 100 32 (map of_nat [0..<16] :: uint32 list) = (nb, s1)
    \<and> decode_block 2 (stream_rseek (snd (stream_flush s1)) 0) 100 100 32 (replicate 16 0 :: uint32 list) = (nb, oblock, r')
    \<and> nb = 100 \<and> stream_rtell r' = 100"
proof -
  let ?s = "stream_open (\<lambda>_. 0) 64 :: 64 bitstream" and ?b = "map of_nat [0..<16] :: uint32 list"
  obtain nb s1 where e: "encode_block 2 ?s 100 100 32 ?b = (nb, s1)" by (metis surj_pair)
  obtain nb' ob r' where d: "decode_block 2 (stream_rseek (snd (stream_flush s1)) (stream_wtell ?s)) 100 100 32 (replicate 16 0 :: uint32 list) = (nb', ob, r')"
    by (metis prod_cases3)
  have k: "sink_ok ?s" by (simp add: sink_ok_open)
  have "nb' = nb \<and> stream_wtell s1 = stream_wtell ?s + nb \<and> stream_rtell r' = stream_wtell s1 \<and> 100 \<le> nb \<and> nb \<le> max 100 100"
    by (rule block_in_sync [OF k e d])
  then have "nb' = nb" "stream_rtell r' = nb" "nb = 100" by (simp_all add: written_open)
  then show ?thesis using e d by (auto simp: written_open)
qed




end
