(* ===== verification/Zfp_Stream.thy ===== *)
theory Zfp_Stream
  imports Block
begin

text \<open>
  The compressed stream of \<^verbatim>\<open>include/zfp.h\<close>: the record \<open>zfp_stream\<close> with the four compression parameters and
  its bit stream, and the contiguous integer block functions of \<^verbatim>\<open>src/template/encodei.c\<close> and
  \<^verbatim>\<open>src/template/decodei.c\<close>, which pick the reversible or the lossy block codec.
\<close>

section \<open>The stream and its execution parameters\<close>

datatype zfp_exec_policy = zfp_exec_serial | zfp_exec_omp | zfp_exec_cuda

record zfp_exec_params_omp =
  threads :: nat
  chunk_size :: nat

text \<open>\<open>params\<close> is the pointer to the OpenMP parameters, null unless they are in use.\<close>

record zfp_execution =
  policy :: zfp_exec_policy
  params :: "zfp_exec_params_omp option"

record (overloaded) 'w zfp_stream =
  minbits :: nat
  maxbits :: nat
  maxprec :: nat
  minexp :: int
  stream :: "'w bitstream"
  exec :: zfp_execution

definition ZFP_MIN_BITS :: nat where "ZFP_MIN_BITS = 1"
definition ZFP_MAX_BITS :: nat where "ZFP_MAX_BITS = 16658"
definition ZFP_MAX_PREC :: nat where "ZFP_MAX_PREC = 64"
definition ZFP_MIN_EXP :: int where "ZFP_MIN_EXP = -1074"

definition REVERSIBLE :: "('w::len) zfp_stream \<Rightarrow> bool" where
  "REVERSIBLE zfp \<longleftrightarrow> minexp zfp < ZFP_MIN_EXP"

section \<open>Contiguous integer blocks\<close>

definition zfp_encode_block_int ::
  "nat \<Rightarrow> ('w::len) zfp_stream \<Rightarrow> ('i::len) word list \<Rightarrow> nat \<times> 'w zfp_stream" where
  "zfp_encode_block_int d zfp iblock =
    (let (nb, s) = (if REVERSIBLE zfp
        then rev_encode_block d (stream zfp) (minbits zfp) (maxbits zfp) (maxprec zfp) iblock
        else encode_block d (stream zfp) (minbits zfp) (maxbits zfp) (maxprec zfp) iblock)
     in (nb, zfp\<lparr>stream := s\<rparr>))"

definition zfp_decode_block_int ::
  "nat \<Rightarrow> ('w::len) zfp_stream \<Rightarrow> ('i::len) word list \<Rightarrow> nat \<times> 'i word list \<times> 'w zfp_stream" where
  "zfp_decode_block_int d zfp iblock =
    (let (nb, iblock, s) = (if REVERSIBLE zfp
        then rev_decode_block d (stream zfp) (minbits zfp) (maxbits zfp) iblock
        else decode_block d (stream zfp) (minbits zfp) (maxbits zfp) (maxprec zfp) iblock)
     in (nb, iblock, zfp\<lparr>stream := s\<rparr>))"

end
