(* ===== verification/Floats.thy ===== *)
theory Floats
  imports Zfp_Stream
begin

text \<open>
  Floating-point scalars and block floating point (\<^verbatim>\<open>src/template/encodef.c\<close>, \<^verbatim>\<open>src/template/codecf.c\<close> and the
  traits headers). A \<open>float\<close> or \<open>double\<close> is its bit pattern, a word of 32 or 64 bits, and \<open>float_val\<close> reads the
  number it stands for. The operations of the language the code uses (comparison, \<open>fabs\<close>, \<open>frexp\<close>, \<open>ldexp\<close>,
  multiplication and the conversions from and to integers) are those of IEEE 754 in the default
  environment: exact results rounded to nearest even by \<open>float_round\<close>. What the C standard leaves
  open, the exponent \<open>frexp\<close> stores for infinities and NaNs and the result of converting a number outside the range of
  the integer type, is an argument of the model, the record \<open>unspecified\<close>.
\<close>

section \<open>Floating-point numbers\<close>

definition ebits :: "('i::len) itself \<Rightarrow> nat" where
  "ebits i = (if LENGTH('i) = 32 then 8 else 11)"

definition EBIAS :: "('i::len) itself \<Rightarrow> int" where
  "EBIAS i = 2 ^ (ebits i - 1) - 1"

definition fbits :: "('i::len) itself \<Rightarrow> nat" where
  "fbits i = LENGTH('i) - 1 - ebits i"

definition float_emin :: "('i::len) itself \<Rightarrow> int" where
  "float_emin i = 1 - EBIAS i - int (fbits i)"

datatype fval = NaN | Infinite bool | Finite bool int int

definition float_val :: "('i::len) word \<Rightarrow> fval" where
  "float_val x =
    (let s = bit x (LENGTH('i) - 1);
         e = uint (take_bit (ebits TYPE('i)) (drop_bit (fbits TYPE('i)) x));
         f = uint (take_bit (fbits TYPE('i)) x)
     in if e = 2 ^ ebits TYPE('i) - 1 then (if f = 0 then Infinite s else NaN)
        else if e = 0 then Finite s f (float_emin TYPE('i))
        else Finite s (2 ^ fbits TYPE('i) + f) (float_emin TYPE('i) + e - 1))"

definition with_sign :: "bool \<Rightarrow> int \<Rightarrow> ('i::len) word" where
  "with_sign s p = word_of_int p OR (if s then push_bit (LENGTH('i) - 1) 1 else 0)"

definition float_inf :: "bool \<Rightarrow> ('i::len) word" where
  "float_inf s = with_sign s ((2 ^ ebits TYPE('i) - 1) * 2 ^ fbits TYPE('i))"

definition float_nan :: "('i::len) word" where
  "float_nan = with_sign False ((2 ^ ebits TYPE('i) - 1) * 2 ^ fbits TYPE('i) + 2 ^ (fbits TYPE('i) - 1))"

definition rne :: "int \<Rightarrow> nat \<Rightarrow> int" where
  "rne m n = (let q = m div 2 ^ n; r = m mod 2 ^ n in
     if 2 * r > 2 ^ n \<or> 2 * r = 2 ^ n \<and> odd q then q + 1 else q)"

function bitlen :: "int \<Rightarrow> int" where
  "bitlen m = (if m \<le> 0 then 0 else 1 + bitlen (m div 2))"
  by pat_completeness auto
termination by (relation "measure nat") auto
declare bitlen.simps [simp del]

definition float_round :: "bool \<Rightarrow> int \<Rightarrow> int \<Rightarrow> ('i::len) word" where
  "float_round s m q =
    (let e = max (q + bitlen m - (int (fbits TYPE('i)) + 1)) (float_emin TYPE('i));
         m' = (if e \<le> q then m * 2 ^ nat (q - e) else rne m (nat (e - q)));
         p = (e - float_emin TYPE('i)) * 2 ^ fbits TYPE('i) + m'
     in if m = 0 then with_sign s 0
        else if (2 ^ ebits TYPE('i) - 1) * 2 ^ fbits TYPE('i) \<le> p then float_inf s
        else with_sign s p)"


section \<open>Floating-point operations of the language\<close>

record 'a unspecified =
  frexp_special :: "'a \<Rightarrow> int"
  cast_special :: "'a \<Rightarrow> 'a"

definition float_fabs :: "('i::len) word \<Rightarrow> 'i word" where
  "float_fabs x = take_bit (LENGTH('i) - 1) x"

definition signed_by :: "bool \<Rightarrow> int \<Rightarrow> int" where
  "signed_by s m = (if s then - m else m)"

definition float_less :: "('i::len) word \<Rightarrow> 'i word \<Rightarrow> bool" where
  "float_less a b =
    (case float_val a of
       NaN \<Rightarrow> False
     | Infinite s \<Rightarrow> (case float_val b of NaN \<Rightarrow> False | Infinite t \<Rightarrow> s \<and> \<not> t | Finite t n r \<Rightarrow> s)
     | Finite s m q \<Rightarrow>
        (case float_val b of NaN \<Rightarrow> False | Infinite t \<Rightarrow> \<not> t
         | Finite t n r \<Rightarrow> signed_by s m * 2 ^ nat (q - min q r) < signed_by t n * 2 ^ nat (r - min q r)))"

definition float_frexp :: "('i::len) word unspecified \<Rightarrow> 'i word \<Rightarrow> int" where
  "float_frexp u x = (case float_val x of Finite s m q \<Rightarrow> q + bitlen m | _ \<Rightarrow> frexp_special u x)"

definition float_ldexp :: "('i::len) word \<Rightarrow> int \<Rightarrow> 'i word" where
  "float_ldexp x k = (case float_val x of Finite s m q \<Rightarrow> float_round s m (q + k) | _ \<Rightarrow> x)"

definition float_mul :: "('i::len) word \<Rightarrow> 'i word \<Rightarrow> 'i word" where
  "float_mul a b =
    (case float_val a of
       NaN \<Rightarrow> float_nan
     | Infinite s \<Rightarrow> (case float_val b of NaN \<Rightarrow> float_nan | Infinite t \<Rightarrow> float_inf (s \<noteq> t)
         | Finite t n r \<Rightarrow> if n = 0 then float_nan else float_inf (s \<noteq> t))
     | Finite s m q \<Rightarrow> (case float_val b of NaN \<Rightarrow> float_nan
         | Infinite t \<Rightarrow> if m = 0 then float_nan else float_inf (s \<noteq> t)
         | Finite t n r \<Rightarrow> float_round (s \<noteq> t) (m * n) (q + r)))"

definition float_of_int :: "('i::len) word \<Rightarrow> 'i word" where
  "float_of_int x = float_round (sint x < 0) \<bar>sint x\<bar> 0"

definition int_of_float :: "('i::len) word unspecified \<Rightarrow> 'i word \<Rightarrow> 'i word" where
  "int_of_float u x =
    (case float_val x of
       Finite s m q \<Rightarrow>
         let t = signed_by s (if 0 \<le> q then m * 2 ^ nat q else m div 2 ^ nat (- q))
         in if - (2 ^ (LENGTH('i) - 1)) \<le> t \<and> t < 2 ^ (LENGTH('i) - 1) then word_of_int t else cast_special u x
     | _ \<Rightarrow> cast_special u x)"

section \<open>Block floating point\<close>

definition exponent :: "('i::len) word unspecified \<Rightarrow> 'i word \<Rightarrow> int" where
  "exponent u x =
    (if float_less 0 x then max (float_frexp u x) (1 - EBIAS TYPE('i)) else - EBIAS TYPE('i))"

definition exponent_block :: "('i::len) word unspecified \<Rightarrow> 'i word list \<Rightarrow> nat \<Rightarrow> int" where
  "exponent_block u p n =
    exponent u (foldl (\<lambda>max i. let f = float_fabs (p ! i) in if float_less max f then f else max) 0 [0..<n])"

definition quantize :: "('i::len) word \<Rightarrow> int \<Rightarrow> 'i word" where
  "quantize x e = float_ldexp x (int (LENGTH('i)) - 2 - e)"

definition fwd_cast :: "('i::len) word unspecified \<Rightarrow> 'i word list \<Rightarrow> nat \<Rightarrow> int \<Rightarrow> 'i word list" where
  "fwd_cast u fblock n emax =
    (let s = quantize (float_of_int 1) emax
     in map (\<lambda>i. int_of_float u (float_mul s (fblock ! i))) [0..<n])"

definition precision :: "int \<Rightarrow> nat \<Rightarrow> int \<Rightarrow> nat \<Rightarrow> nat" where
  "precision maxexp mp me dims = min mp (nat (max 0 (maxexp - me + 2 * int dims + 2)))"

definition dequantize :: "('i::len) word \<Rightarrow> int \<Rightarrow> 'i word" where
  "dequantize x e = float_ldexp (float_of_int x) (e - (int (LENGTH('i)) - 2))"

definition inv_cast :: "('i::len) word list \<Rightarrow> nat \<Rightarrow> int \<Rightarrow> 'i word list" where
  "inv_cast iblock n emax =
    (let s = dequantize 1 emax in map (\<lambda>i. float_mul s (float_of_int (iblock ! i))) [0..<n])"

end
