(* ===== verification/Float_Block.thy ===== *)
theory Float_Block
  imports Floats
begin

text \<open>
  The codecs of floating-point blocks: the lossy one of \<^verbatim>\<open>src/template/encodef.c\<close> and \<^verbatim>\<open>src/template/decodef.c\<close>
  and the reversible one of \<^verbatim>\<open>src/template/revencodef.c\<close>, \<^verbatim>\<open>src/template/revdecodef.c\<close> and \<^verbatim>\<open>src/template/revcodecf.c\<close>.
  A local array that the source declares without initialising it is a list of zeros here; all of its elements are
  written before they are read. \<open>float_block_code\<close> and \<open>rev_float_block_code\<close> specify the bits of a block.
\<close>

section \<open>The lossy codec\<close>

definition encode_block_float ::
  "nat \<Rightarrow> ('i::len) word unspecified \<Rightarrow> ('w::len) zfp_stream \<Rightarrow> 'i word list \<Rightarrow> nat \<times> 'w zfp_stream" where
  "encode_block_float d u zfp fblock =
    (let nb = 1;
         emax = exponent_block u fblock (4 ^ d);
         mp = precision emax (maxprec zfp) (minexp zfp) d;
         e = (if mp \<noteq> 0 then word_of_int (emax + EBIAS TYPE('i)) else 0 :: uint32)
     in if e \<noteq> 0 then
          let nb = nb + ebits TYPE('i);
              (_, s) = stream_write_bits (stream zfp) (ucast (2 * e + 1)) nb;
              iblock = fwd_cast u fblock (4 ^ d) emax;
              (n, s) = encode_block d s (minbits zfp - min nb (minbits zfp)) (usub (maxbits zfp) nb) mp iblock
          in (nb + n, zfp\<lparr>stream := s\<rparr>)
        else
          let s = stream_write_bit (stream zfp) False
          in if minbits zfp > nb
             then (minbits zfp, zfp\<lparr>stream := stream_pad s (minbits zfp - nb)\<rparr>)
             else (nb, zfp\<lparr>stream := s\<rparr>))"

definition decode_block_float ::
  "nat \<Rightarrow> ('w::len) zfp_stream \<Rightarrow> nat \<times> ('i::len) word list \<times> 'w zfp_stream" where
  "decode_block_float d zfp =
    (let nb = 1;
         (b, s) = stream_read_bit (stream zfp)
     in if b then
          let nb = nb + ebits TYPE('i);
              (v, s) = stream_read_bits s (ebits TYPE('i));
              emax = uint v - EBIAS TYPE('i);
              mp = precision emax (maxprec zfp) (minexp zfp) d;
              (n, iblock, s) = decode_block d s (minbits zfp - min nb (minbits zfp)) (usub (maxbits zfp) nb) mp (replicate (4 ^ d) 0)
          in (nb + n, inv_cast iblock (4 ^ d) emax, zfp\<lparr>stream := s\<rparr>)
        else
          let fblock = replicate (4 ^ d) 0
          in if minbits zfp > nb
             then (minbits zfp, fblock, zfp\<lparr>stream := stream_skip s (minbits zfp - nb)\<rparr>)
             else (nb, fblock, zfp\<lparr>stream := s\<rparr>))"

section \<open>The reversible codec\<close>

definition rev_inv_cast :: "('i::len) word list \<Rightarrow> nat \<Rightarrow> int \<Rightarrow> 'i word list" where
  "rev_inv_cast iblock n emax = (if emax \<noteq> - EBIAS TYPE('i) then inv_cast iblock n emax else replicate n 0)"

definition rev_fwd_reversible :: "('i::len) word list \<Rightarrow> 'i word list \<Rightarrow> nat \<Rightarrow> int \<Rightarrow> bool" where
  "rev_fwd_reversible iblock fblock n emax \<longleftrightarrow> take n fblock = rev_inv_cast iblock n emax"

definition rev_fwd_cast :: "('i::len) word unspecified \<Rightarrow> 'i word list \<Rightarrow> nat \<Rightarrow> int \<Rightarrow> 'i word list" where
  "rev_fwd_cast u fblock n emax = (if emax \<noteq> - EBIAS TYPE('i) then fwd_cast u fblock n emax else replicate n 0)"

definition TCMASK :: "('i::len) word" where
  "TCMASK = mask (LENGTH('i) - 1)"

definition rev_fwd_reinterpret :: "('i::len) word list \<Rightarrow> nat \<Rightarrow> 'i word list" where
  "rev_fwd_reinterpret fblock n =
    map (\<lambda>i. let x = fblock ! i in if sint x < 0 then x XOR TCMASK else x) [0..<n]"

definition rev_inv_reinterpret :: "('i::len) word list \<Rightarrow> nat \<Rightarrow> 'i word list" where
  "rev_inv_reinterpret iblock n =
    map (\<lambda>i. let x = iblock ! i in if sint x < 0 then x XOR TCMASK else x) [0..<n]"

definition rev_encode_block_float ::
  "nat \<Rightarrow> ('i::len) word unspecified \<Rightarrow> ('w::len) zfp_stream \<Rightarrow> 'i word list \<Rightarrow> nat \<times> 'w zfp_stream" where
  "rev_encode_block_float d u zfp fblock =
    (let finish = (\<lambda>nb s iblock.
           let (n, s) = rev_encode_block d s (minbits zfp - min nb (minbits zfp)) (usub (maxbits zfp) nb) (maxprec zfp) iblock
           in (nb + n, zfp\<lparr>stream := s\<rparr>));
         emax = exponent_block u fblock (4 ^ d);
         iblock = rev_fwd_cast u fblock (4 ^ d) emax
     in if rev_fwd_reversible iblock fblock (4 ^ d) emax then
          let e = (word_of_int (emax + EBIAS TYPE('i)) :: uint32)
          in if e \<noteq> 0 then
               let (_, s) = stream_write_bits (stream zfp) 1 2;
                   (_, s) = stream_write_bits s (ucast e) (ebits TYPE('i))
               in finish (2 + ebits TYPE('i)) s iblock
             else (1, zfp\<lparr>stream := stream_write_bit (stream zfp) False\<rparr>)
        else
          let iblock = rev_fwd_reinterpret fblock (4 ^ d);
              (_, s) = stream_write_bits (stream zfp) 3 2
          in finish 2 s iblock)"

definition rev_decode_block_float ::
  "nat \<Rightarrow> ('w::len) zfp_stream \<Rightarrow> nat \<times> ('i::len) word list \<times> 'w zfp_stream" where
  "rev_decode_block_float d zfp =
    (let nb = 1;
         (b, s) = stream_read_bit (stream zfp)
     in if b then
          let nb = nb + 1;
              (b, s) = stream_read_bit s
          in if b then
               let (n, iblock, s) = rev_decode_block d s (minbits zfp - min nb (minbits zfp)) (usub (maxbits zfp) nb) (replicate (4 ^ d) 0)
               in (nb + n, rev_inv_reinterpret iblock (4 ^ d), zfp\<lparr>stream := s\<rparr>)
             else
               let nb = nb + ebits TYPE('i);
                   (v, s) = stream_read_bits s (ebits TYPE('i));
                   emax = uint v - EBIAS TYPE('i);
                   (n, iblock, s) = rev_decode_block d s (minbits zfp - min nb (minbits zfp)) (usub (maxbits zfp) nb) (replicate (4 ^ d) 0)
               in (nb + n, rev_inv_cast iblock (4 ^ d) emax, zfp\<lparr>stream := s\<rparr>)
        else
          let fblock = replicate (4 ^ d) 0
          in if minbits zfp > nb
             then (minbits zfp, fblock, zfp\<lparr>stream := stream_skip s (minbits zfp - nb)\<rparr>)
             else (nb, fblock, zfp\<lparr>stream := s\<rparr>))"

definition zfp_encode_block_float ::
  "nat \<Rightarrow> ('i::len) word unspecified \<Rightarrow> ('w::len) zfp_stream \<Rightarrow> 'i word list \<Rightarrow> nat \<times> 'w zfp_stream" where
  "zfp_encode_block_float d u zfp fblock =
    (if REVERSIBLE zfp then rev_encode_block_float d u zfp fblock else encode_block_float d u zfp fblock)"

definition zfp_decode_block_float ::
  "nat \<Rightarrow> ('w::len) zfp_stream \<Rightarrow> nat \<times> ('i::len) word list \<times> 'w zfp_stream" where
  "zfp_decode_block_float d zfp =
    (if REVERSIBLE zfp then rev_decode_block_float d zfp else decode_block_float d zfp)"

section \<open>The range of block exponents\<close>

definition frexp_ok :: "('i::len) word unspecified \<Rightarrow> bool" where
  "frexp_ok u \<longleftrightarrow> (\<forall>x. frexp_special u x \<le> EBIAS TYPE('i) + 1)"

lemma bitlen_le: "m < 2 ^ n \<Longrightarrow> bitlen m \<le> int n"
proof (induction n arbitrary: m)
  case 0 then show ?case by (subst bitlen.simps) simp
next
  case (Suc n)
  have "m div 2 < 2 ^ n" using Suc.prems by simp
  then have "bitlen (m div 2) \<le> int n" by (rule Suc.IH)
  then show ?case by (subst bitlen.simps) simp
qed

lemma bitlen_less: "m < 2 ^ nat (bitlen m)"
proof (induction m rule: bitlen.induct)
  case (1 m)
  show ?case
  proof (cases "m \<le> 0")
    case False
    have nn: "0 \<le> bitlen k" for k
      by (induction k rule: bitlen.induct) (subst bitlen.simps, simp)
    have b: "bitlen m = 1 + bitlen (m div 2)" using False by (subst bitlen.simps) simp
    have "m div 2 < 2 ^ nat (bitlen (m div 2))" using 1 False by simp
    then have "m < 2 * 2 ^ nat (bitlen (m div 2))" by linarith
    then show ?thesis using nn [of "m div 2"] by (simp add: b nat_add_distrib)
  qed (subst bitlen.simps, simp)
qed

lemma bias: "LENGTH('i::len) = 32 \<or> LENGTH('i) = 64 \<Longrightarrow> 2 ^ ebits TYPE('i) = 2 * EBIAS TYPE('i) + 2 \<and> 0 < EBIAS TYPE('i)
   \<and> ebits TYPE('i) \<le> 11 \<and> fbits TYPE('i) + ebits TYPE('i) + 1 = LENGTH('i)"
  by (auto simp: EBIAS_def ebits_def fbits_def)

lemma float_frexp_le:
  fixes x :: "('i::len) word"
  assumes L: "LENGTH('i) = 32 \<or> LENGTH('i) = 64" and u: "frexp_ok u"
  shows "float_frexp u x \<le> EBIAS TYPE('i) + 1"
proof (cases "float_val x")
  case (Finite s m q)
  let ?e = "uint (take_bit (ebits TYPE('i)) (drop_bit (fbits TYPE('i)) x))" and ?f = "uint (take_bit (fbits TYPE('i)) x)"
  have e: "?e < 2 ^ ebits TYPE('i)" "?f < 2 ^ fbits TYPE('i)" "0 \<le> ?e"
    by (simp_all add: unsigned_take_bit_eq)
  have d: "?e \<noteq> 2 ^ ebits TYPE('i) - 1" "q = (if ?e = 0 then float_emin TYPE('i) else float_emin TYPE('i) + ?e - 1)"
     "m = (if ?e = 0 then ?f else 2 ^ fbits TYPE('i) + ?f)"
    using Finite unfolding float_val_def Let_def by (auto split: if_splits)
  have "?f < 2 * 2 ^ fbits TYPE('i)" using e(2) by (rule less_le_trans) simp
  then have "m < 2 ^ (fbits TYPE('i) + 1)" using e(2) d(3) by (simp split: if_splits)
  then have "bitlen m \<le> int (fbits TYPE('i)) + 1" using bitlen_le by fastforce
  moreover have "q \<le> float_emin TYPE('i) + 2 * EBIAS TYPE('i) - 1"
    using d(1,2) e(1) bias [OF L] by (auto split: if_splits)
  ultimately show ?thesis using Finite by (simp add: float_frexp_def float_emin_def)
qed (use u in \<open>auto simp: float_frexp_def frexp_ok_def\<close>)

lemma exponent_range:
  fixes x :: "('i::len) word"
  assumes L: "LENGTH('i) = 32 \<or> LENGTH('i) = 64" and u: "frexp_ok u"
  shows "- EBIAS TYPE('i) \<le> exponent u x" "exponent u x \<le> EBIAS TYPE('i) + 1"
  using float_frexp_le [OF assms, of x] bias [OF L] by (auto simp: exponent_def)

lemmas exponent_block_range = exponent_range [where x = "foldl f 0 [0..<n]" for f n, folded exponent_block_def]

lemma uint_small_int: "0 \<le> k \<Longrightarrow> k < 2 ^ 32 \<Longrightarrow> uint (word_of_int k :: uint32) = k"
  by (simp add: uint_word_of_int_eq take_bit_int_eq_self)

text \<open>The biased exponent of a block fits its field.\<close>

lemma biased_exponent:
  fixes fblock :: "('i::len) word list"
  assumes L: "LENGTH('i) = 32 \<or> LENGTH('i) = 64" and u: "frexp_ok u"
  shows "uint (word_of_int (exponent_block u fblock n + EBIAS TYPE('i)) :: uint32) = exponent_block u fblock n + EBIAS TYPE('i)"
    "exponent_block u fblock n + EBIAS TYPE('i) < 2 ^ ebits TYPE('i)"
proof -
  have r: "- EBIAS TYPE('i) \<le> exponent_block u fblock n" "exponent_block u fblock n \<le> EBIAS TYPE('i) + 1"
    unfolding exponent_block_def using exponent_range [OF assms] by auto
  then show "exponent_block u fblock n + EBIAS TYPE('i) < 2 ^ ebits TYPE('i)" using bias [OF L] by linarith
  have "(2::int) ^ ebits TYPE('i) \<le> 2 ^ 32" using bias [OF L] by (intro power_increasing) auto
  then have "exponent_block u fblock n + EBIAS TYPE('i) < 2 ^ 32" using r bias [OF L] by linarith
  then show "uint (word_of_int (exponent_block u fblock n + EBIAS TYPE('i)) :: uint32) = exponent_block u fblock n + EBIAS TYPE('i)"
    using r uint_small_int by (metis add_left_mono add.commute add.right_inverse)
qed


section \<open>The code of a block\<close>

definition float_maxprec :: "nat \<Rightarrow> ('i::len) word unspecified \<Rightarrow> ('w::len) zfp_stream \<Rightarrow> 'i word list \<Rightarrow> nat" where
  "float_maxprec d u z fblock = precision (exponent_block u fblock (4 ^ d)) (maxprec z) (minexp z) d"

definition float_nonzero :: "nat \<Rightarrow> ('i::len) word unspecified \<Rightarrow> ('w::len) zfp_stream \<Rightarrow> 'i word list \<Rightarrow> bool" where
  "float_nonzero d u z fblock \<longleftrightarrow> float_maxprec d u z fblock \<noteq> 0 \<and> exponent_block u fblock (4 ^ d) \<noteq> - EBIAS TYPE('i)"

definition exponent_bits :: "('i::len) word unspecified \<Rightarrow> 'i word list \<Rightarrow> nat \<Rightarrow> bool list" where
  "exponent_bits u fblock n = map (bit (exponent_block u fblock n + EBIAS TYPE('i))) [0..<ebits TYPE('i)]"

definition float_block_code ::
  "nat \<Rightarrow> ('i::len) word unspecified \<Rightarrow> ('w::len) zfp_stream \<Rightarrow> 'i word list \<Rightarrow> bool list" where
  "float_block_code d u z fblock =
    (let nb = 1 + ebits TYPE('i); n = 4 ^ d
     in if float_nonzero d u z fblock
        then True # exponent_bits u fblock n @
          int_block_code d (minbits z - min nb (minbits z)) (usub (maxbits z) nb)
            (float_maxprec d u z fblock) (fwd_cast u fblock n (exponent_block u fblock n))
        else pad_to (minbits z) [False])"

lemma map_bit_odd: "map (bit (2 * e + 1 :: uint32)) [0..<Suc n] = True # map (bit e) [0..<n]" if "n \<le> 31"
proof (rule nth_equalityI)
  fix i assume "i < length (map (bit (2 * e + 1)) [0..<Suc n])"
  then show "map (bit (2 * e + 1)) [0..<Suc n] ! i = (True # map (bit e) [0..<n]) ! i"
    using that by (cases i) (auto simp: add.commute [of _ 1] even_bit_succ_iff bit_double_iff possible_bit_def simp del: upt_Suc)
qed simp

lemma bits_of_int: "n \<le> LENGTH('a) \<Longrightarrow> map (bit (word_of_int k :: 'a::len word)) [0..<n] = map (bit k) [0..<n]"
  by (auto simp: bit_word_of_int_iff)

lemma bits_of_ucast: "n \<le> 32 \<Longrightarrow> map (bit (ucast (v :: uint32) :: uint64)) [0..<n] = map (bit v) [0..<n]"
  by (auto simp: bit_ucast_iff)

lemma sink_write_bits:
  "sink_ok s \<Longrightarrow> n \<le> 64 \<Longrightarrow> snd (stream_write_bits s v n) = wappend s (map (bit v) [0..<n])"
  using sink.puts_put [of s n] by (simp add: wappend_def)

lemma encode_block_float_eq:
  fixes fblock :: "('i::len) word list"
  assumes L: "LENGTH('i) = 32 \<or> LENGTH('i) = 64" and u: "frexp_ok u" and s: "sink_ok (stream z)"
  shows "encode_block_float d u z fblock =
    (length (float_block_code d u z fblock), z\<lparr>stream := wappend (stream z) (float_block_code d u z fblock)\<rparr>)"
proof -
  let ?n = "4 ^ d" and ?nb = "1 + ebits TYPE('i)"
  let ?k = "exponent_block u fblock ?n + EBIAS TYPE('i)"
  let ?e = "word_of_int ?k :: uint32"
  note b = bias [OF L] and ue = biased_exponent [OF L u, of fblock ?n]
  have e0: "?e = 0 \<longleftrightarrow> exponent_block u fblock ?n = - EBIAS TYPE('i)" unfolding uint_0_iff [symmetric] ue(1) by linarith
  define h where "h = True # exponent_bits u fblock ?n"
  have "snd (stream_write_bits (stream z) (ucast (2 * ?e + 1)) ?nb) = wappend (stream z) h"
    unfolding h_def using b s by (simp add: sink_write_bits bits_of_ucast map_bit_odd exponent_bits_def bits_of_int del: upt_Suc of_int_add)
  then obtain v where w: "stream_write_bits (stream z) (ucast (2 * ?e + 1)) ?nb = (v, wappend (stream z) h)"
    by (metis prod.collapse)
  have s': "sink_ok (wappend (stream z) h)" using s by simp
  have z: "stream_write_bit (stream z) False = wappend (stream z) [False]" by simp
  have l: "length h = ?nb" by (simp add: h_def exponent_bits_def)
  show ?thesis
  proof (cases "float_nonzero d u z fblock")
    case True
    then have c: "float_block_code d u z fblock = h @ int_block_code d (minbits z - min ?nb (minbits z)) (usub (maxbits z) ?nb)
            (float_maxprec d u z fblock) (fwd_cast u fblock ?n (exponent_block u fblock ?n))"
      by (simp add: float_block_code_def h_def Let_def)
    have nz: "(if precision (exponent_block u fblock ?n) (maxprec z) (minexp z) d \<noteq> 0 then ?e else 0) = ?e" "?e \<noteq> 0"
      using True e0 by (simp_all add: float_nonzero_def float_maxprec_def del: of_int_add)
    show ?thesis
      unfolding encode_block_float_def Let_def nz if_P [OF nz(2)] w prod.case encode_block_eq [OF s'] c wappend_append
      by (simp add: float_maxprec_def l)
  next
    case False
    then have nz: "(if precision (exponent_block u fblock ?n) (maxprec z) (minexp z) d \<noteq> 0 then ?e else 0) = 0"
      using e0 by (auto simp: float_nonzero_def float_maxprec_def simp del: of_int_add)
    have c: "float_block_code d u z fblock = pad_to (minbits z) [False]" using False by (simp add: float_block_code_def)
    show ?thesis
      unfolding encode_block_float_def Let_def nz c z using pad_step [OF s, of "[False]" "minbits z"] by (auto split: if_splits)
  qed
qed

lemma read_field:
  assumes s: "source_ok s" and up: "upcoming s (map (bit k) [0..<n])" and k: "0 \<le> k" "k < 2 ^ n" "n \<le> 64"
  shows "stream_read_bits s n = (word_of_int k, stream_skip s n)" "uint (word_of_int k :: uint64) = k"
proof -
  have "k < 2 ^ 64" using k power_increasing [OF k(3), of "2::int"] by linarith
  then show u: "uint (word_of_int k :: uint64) = k" using k by (simp add: uint_word_of_int_eq take_bit_int_eq_self)
  have "map (bit k) [0..<n] = map (bit (word_of_int k :: uint64)) [0..<n]" using k by (simp add: bits_of_int)
  then have "horner_sum of_bool 2 (map (bit k) [0..<n]) = take_bit n (word_of_int k :: uint64)"
    using k by (simp only: of_bits_take_bit)
  also have "\<dots> = word_of_int k" using k by (intro word_uint_eqI) (simp add: unsigned_take_bit_eq u take_bit_int_eq_self)
  finally show "stream_read_bits s n = (word_of_int k, stream_skip s n)"
    using upcoming_read_bits [OF s up] k by simp
qed

lemma read_exponent:
  fixes fblock :: "('i::len) word list"
  assumes L: "LENGTH('i) = 32 \<or> LENGTH('i) = 64" and u: "frexp_ok u" and s: "source_ok s"
    and up: "upcoming s (exponent_bits u fblock n)"
  shows "\<exists>v. stream_read_bits s (ebits TYPE('i)) = (v, stream_skip s (ebits TYPE('i)))
    \<and> uint v - EBIAS TYPE('i) = exponent_block u fblock n"
proof -
  let ?k = "exponent_block u fblock n + EBIAS TYPE('i)"
  have k: "0 \<le> ?k" "?k < 2 ^ ebits TYPE('i)" using biased_exponent [OF L u] by (metis uint_ge_0, metis)
  then show ?thesis using read_field [OF s up [unfolded exponent_bits_def] k] bias [OF L] by simp
qed

text \<open>The result of decoding a block, in terms of the values that were encoded.\<close>

text \<open>The code depends on the parameters of the stream only.\<close>

lemma float_block_code_stream [simp]: "float_block_code d u (z\<lparr>stream := r\<rparr>) = float_block_code d u z"
  by (simp add: fun_eq_iff float_block_code_def float_nonzero_def float_maxprec_def Let_def)

lemma decode_block_float_eq:
  fixes fblock :: "('i::len) word list"
  assumes L: "LENGTH('i) = 32 \<or> LENGTH('i) = 64" and u: "frexp_ok u" and s: "source_ok (stream z)"
    and up: "upcoming (stream z) (float_block_code d u z fblock)"
  shows "\<exists>oblock. decode_block_float d z = (length (float_block_code d u z fblock), oblock,
      z\<lparr>stream := stream_skip (stream z) (length (float_block_code d u z fblock))\<rparr>)
    \<and> (if float_nonzero d u z fblock
       then \<exists>w. oblock = inv_cast (inv_xform d (inv_order w (replicate (4 ^ d) 0) (PERM d) (4 ^ d))) (4 ^ d) (exponent_block u fblock (4 ^ d))
         \<and> planes_set (kmin_of TYPE('i) (float_maxprec d u z fblock)) (LENGTH('i)) 0 (usub (maxbits z) (1 + ebits TYPE('i)))
             (fwd_order (fwd_xform d (fwd_cast u fblock (4 ^ d) (exponent_block u fblock (4 ^ d)))) (PERM d) (4 ^ d)) (replicate (4 ^ d) 0) w
       else oblock = replicate (4 ^ d) 0)"
proof (cases "float_nonzero d u z fblock")
  case True
  let ?n = "4 ^ d" and ?nb = "1 + ebits TYPE('i)" and ?s = "stream_skip (stream z) (1 + ebits TYPE('i))"
  let ?i = "fwd_cast u fblock ?n (exponent_block u fblock ?n)" and ?mp = "float_maxprec d u z fblock"
  let ?c = "int_block_code d (minbits z - min ?nb (minbits z)) (usub (maxbits z) ?nb) ?mp ?i"
  have c: "float_block_code d u z fblock = True # exponent_bits u fblock ?n @ ?c"
    using True by (simp add: float_block_code_def Let_def)
  have l: "length (exponent_bits u fblock ?n) = ebits TYPE('i)" by (simp add: exponent_bits_def)
  have b: "stream_read_bit (stream z) = (True, stream_skip (stream z) 1)" using upcoming_read_bit [OF s up [unfolded c]] .
  have up1: "upcoming (stream_skip (stream z) 1) (exponent_bits u fblock ?n)" "upcoming ?s ?c"
    using up s l by (simp_all add: c upcoming_Cons upcoming_append)
  obtain v where v: "stream_read_bits (stream_skip (stream z) 1) (ebits TYPE('i)) = (v, ?s)"
    "uint v - EBIAS TYPE('i) = exponent_block u fblock ?n"
    using read_exponent [OF L u _ up1(1)] s by auto
  have s': "source_ok ?s" using s by simp
  obtain w where w: "decode_block d ?s (minbits z - min ?nb (minbits z)) (usub (maxbits z) ?nb) ?mp (replicate ?n 0) =
      (length ?c, inv_xform d (inv_order w (replicate ?n 0) (PERM d) ?n), stream_skip ?s (length ?c))"
    "planes_set (kmin_of TYPE('i) ?mp) (LENGTH('i)) 0 (usub (maxbits z) ?nb) (fwd_order (fwd_xform d ?i) (PERM d) ?n) (replicate ?n 0) w"
    using decode_block_eq [OF s' up1(2), of "replicate ?n 0"] by blast
  have mp: "precision (uint v - EBIAS TYPE('i)) (maxprec z) (minexp z) d = ?mp" by (simp add: v float_maxprec_def)
  show ?thesis
    unfolding decode_block_float_def Let_def b prod.case v(1) mp w(1) c
    using True w(2) v(2) l s by auto
next
  case False
  then have c: "float_block_code d u z fblock = pad_to (minbits z) [False]" by (simp add: float_block_code_def)
  have b: "stream_read_bit (stream z) = (False, stream_skip (stream z) 1)"
    using upcoming_read_bit [OF s] up by (simp add: c pad_to_def)
  show ?thesis
    unfolding decode_block_float_def Let_def b prod.case c
    using False skip_step [OF s, of "[False]" "minbits z"] by (auto split: if_splits)
qed


section \<open>The code of a reversible block\<close>

definition rev_float_header ::
  "nat \<Rightarrow> ('i::len) word unspecified \<Rightarrow> 'i word list \<Rightarrow> bool list" where
  "rev_float_header d u fblock =
    (let n = 4 ^ d; emax = exponent_block u fblock n
     in if rev_fwd_reversible (rev_fwd_cast u fblock n emax) fblock n emax
        then if emax = - EBIAS TYPE('i) then [False] else [True, False] @ exponent_bits u fblock n
        else [True, True])"

definition rev_float_ints :: "nat \<Rightarrow> ('i::len) word unspecified \<Rightarrow> 'i word list \<Rightarrow> 'i word list" where
  "rev_float_ints d u fblock =
    (let n = 4 ^ d; emax = exponent_block u fblock n; iblock = rev_fwd_cast u fblock n emax
     in if rev_fwd_reversible iblock fblock n emax then iblock else rev_fwd_reinterpret fblock n)"

definition rev_float_block_code ::
  "nat \<Rightarrow> ('i::len) word unspecified \<Rightarrow> ('w::len) zfp_stream \<Rightarrow> 'i word list \<Rightarrow> bool list" where
  "rev_float_block_code d u z fblock =
    (let h = rev_float_header d u fblock; nb = length h
     in if h = [False] then h
        else h @ rev_block_code d (minbits z - min nb (minbits z)) (usub (maxbits z) nb) (maxprec z) (rev_float_ints d u fblock))"

lemma rev_float_block_code_stream [simp]: "rev_float_block_code d u (z\<lparr>stream := r\<rparr>) = rev_float_block_code d u z"
  by (simp add: fun_eq_iff rev_float_block_code_def Let_def)

lemma bits_1_3: "map (bit (1 :: uint64)) [0..<2] = [True, False]" "map (bit (3 :: uint64)) [0..<2] = [True, True]"
  by (simp_all add: upt_rec)

lemma rev_encode_block_float_eq:
  fixes fblock :: "('i::len) word list" and z :: "('w::len) zfp_stream"
  assumes L: "LENGTH('i) = 32 \<or> LENGTH('i) = 64" and u: "frexp_ok u" and s: "sink_ok (stream z)"
  shows "rev_encode_block_float d u z fblock =
    (length (rev_float_block_code d u z fblock), z\<lparr>stream := wappend (stream z) (rev_float_block_code d u z fblock)\<rparr>)"
proof -
  let ?n = "4 ^ d" and ?emax = "exponent_block u fblock (4 ^ d)"
  let ?i = "rev_fwd_cast u fblock ?n ?emax"
  let ?e = "word_of_int (?emax + EBIAS TYPE('i)) :: uint32"
  define h where "h = rev_float_header d u fblock"
  note b = bias [OF L] and ue = biased_exponent [OF L u, of fblock ?n]
  have e0: "?e = 0 \<longleftrightarrow> ?emax = - EBIAS TYPE('i)" unfolding uint_0_iff [symmetric] ue(1) by linarith
  have wb: "\<exists>v. stream_write_bits t x k = (v, wappend t (map (bit x) [0..<k]))" if "sink_ok t" "k \<le> 64" for t :: "'w bitstream" and x k
    using sink_write_bits [OF that, of x] by (metis prod.collapse)
  have s': "sink_ok (wappend (stream z) h)" using s by simp
  have fin: "rev_encode_block d (wappend (stream z) h) (minbits z - min (length h) (minbits z)) (usub (maxbits z) (length h)) (maxprec z) (rev_float_ints d u fblock) =
    (length (rev_float_block_code d u z fblock) - length h, wappend (stream z) (rev_float_block_code d u z fblock))" if "h \<noteq> [False]"
    using that unfolding rev_encode_block_eq [OF s'] by (simp add: rev_float_block_code_def Let_def h_def wappend_append)
  have le: "length h \<le> length (rev_float_block_code d u z fblock)"
    by (simp add: rev_float_block_code_def Let_def h_def)
  consider (zero) "rev_fwd_reversible ?i fblock ?n ?emax" "?emax = - EBIAS TYPE('i)"
    | (cast) "rev_fwd_reversible ?i fblock ?n ?emax" "?emax \<noteq> - EBIAS TYPE('i)"
    | (bits) "\<not> rev_fwd_reversible ?i fblock ?n ?emax" by blast
  then show ?thesis
  proof cases
    case zero
    then have "rev_float_block_code d u z fblock = [False]" by (simp add: rev_float_block_code_def rev_float_header_def Let_def)
    then show ?thesis using zero e0 by (simp add: rev_encode_block_float_def Let_def del: of_int_add)
  next
    case cast
    then have h: "h = [True, False] @ exponent_bits u fblock ?n" "rev_float_ints d u fblock = ?i"
      by (simp_all add: h_def rev_float_header_def rev_float_ints_def Let_def)
    obtain v where v: "stream_write_bits (stream z) 1 2 = (v, wappend (stream z) [True, False])"
      using wb [OF s, of 2 1] by (auto simp: bits_1_3)
    have "map (bit (ucast ?e :: uint64)) [0..<ebits TYPE('i)] = exponent_bits u fblock ?n"
      using b by (simp add: bits_of_ucast bits_of_int exponent_bits_def del: of_int_add)
    then obtain v' where v': "stream_write_bits (wappend (stream z) [True, False]) (ucast ?e) (ebits TYPE('i)) = (v', wappend (stream z) h)"
      using wb [OF sink_ok_wappend [OF s], of "ebits TYPE('i)" "[True, False]" "ucast ?e"] b by (auto simp: h wappend_append)
    have l: "length h = 2 + ebits TYPE('i)" by (simp add: h exponent_bits_def)
    have nz: "?e \<noteq> 0" using cast e0 by blast
    have hn: "h \<noteq> [False]" by (simp add: h)
    show ?thesis
      unfolding rev_encode_block_float_def Let_def if_P [OF cast(1)] if_P [OF nz] v prod.case v'
      using fin [OF hn] le by (simp add: l h(2))
  next
    case bits
    then have h: "h = [True, True]" "rev_float_ints d u fblock = rev_fwd_reinterpret fblock ?n"
      by (simp_all add: h_def rev_float_header_def rev_float_ints_def Let_def)
    obtain v where v: "stream_write_bits (stream z) 3 2 = (v, wappend (stream z) h)"
      using wb [OF s, of 2 3] by (auto simp: bits_1_3 h)
    have hn: "h \<noteq> [False]" and l: "length h = 2" by (simp_all add: h)
    show ?thesis
      unfolding rev_encode_block_float_def Let_def if_not_P [OF bits] v prod.case
      using fin [OF hn] le by (simp add: l h(2))
  qed
qed


lemma reinterpret_inverse:
  "length fblock = n \<Longrightarrow> rev_inv_reinterpret (rev_fwd_reinterpret fblock n) n = fblock" for fblock :: "('i::len) word list"
proof -
  assume n: "length fblock = n"
  have s: "sint (x XOR TCMASK) < 0 \<longleftrightarrow> sint x < 0" for x :: "'i word"
  proof -
    have "bit (x XOR TCMASK) (LENGTH('i) - 1) \<longleftrightarrow> bit x (LENGTH('i) - 1)" by (simp add: TCMASK_def bit_xor_iff bit_mask_iff)
    then show ?thesis by (simp add: bit_last_iff)
  qed
  have x: "(x XOR TCMASK) XOR TCMASK = x" for x :: "'i word" by (simp add: xor.assoc)
  show ?thesis by (rule nth_equalityI) (use n s x in \<open>auto simp: rev_inv_reinterpret_def rev_fwd_reinterpret_def Let_def\<close>)
qed

text \<open>A reversible block is decoded exactly, whatever its bit patterns, if the budget of bits is that of
  reversible mode.\<close>

lemma rev_decode_block_float_eq:
  fixes fblock :: "('i::len) word list" and z :: "('w::len) zfp_stream"
  assumes L: "LENGTH('i) = 32 \<or> LENGTH('i) = 64" and d: "1 \<le> d" "d \<le> 4" and l: "length fblock = 4 ^ d"
    and u: "frexp_ok u" and s: "source_ok (stream z)"
    and mp: "LENGTH('i) \<le> maxprec z" and mb: "2 + ebits TYPE('i) + pbits TYPE('i) + (LENGTH('i) + 1) * 4 ^ d - 1 \<le> maxbits z" "maxbits z < 2 ^ 32"
    and minb: "minbits z \<le> 1"
    and up: "upcoming (stream z) (rev_float_block_code d u z fblock)"
  shows "rev_decode_block_float d z = (length (rev_float_block_code d u z fblock), fblock,
      z\<lparr>stream := stream_skip (stream z) (length (rev_float_block_code d u z fblock))\<rparr>)"
proof -
  let ?n = "4 ^ d" and ?emax = "exponent_block u fblock (4 ^ d)"
  let ?i = "rev_fwd_cast u fblock ?n ?emax"
  define h where "h = rev_float_header d u fblock"
  let ?c = "rev_block_code d (minbits z - min (length h) (minbits z)) (usub (maxbits z) (length h)) (maxprec z) (rev_float_ints d u fblock)"
  have code: "rev_float_block_code d u z fblock = h @ ?c" if "h \<noteq> [False]" using that by (simp add: rev_float_block_code_def Let_def h_def)
  have li: "length (rev_float_ints d u fblock) = ?n"
    by (simp add: rev_float_ints_def Let_def rev_fwd_cast_def fwd_cast_def rev_fwd_reinterpret_def)
  have ints: "rev_decode_block d (stream_skip (stream z) (length h)) (minbits z - min (length h) (minbits z)) (usub (maxbits z) (length h)) (replicate ?n 0) =
      (length ?c, rev_float_ints d u fblock, stream_skip (stream z) (length h + length ?c))"
    if hn: "h \<noteq> [False]" and hl: "length h \<le> 2 + ebits TYPE('i)"
  proof -
    have s': "source_ok (stream_skip (stream z) (length h))" using s by simp
    have up': "upcoming (stream_skip (stream z) (length h)) ?c" using up s by (simp add: code [OF hn] upcoming_append)
    obtain w where w: "rev_decode_block d (stream_skip (stream z) (length h)) (minbits z - min (length h) (minbits z)) (usub (maxbits z) (length h)) (replicate ?n 0) =
        (length ?c, rev_inv_xform d (inv_order w (replicate ?n 0) (PERM d) ?n), stream_skip (stream_skip (stream z) (length h)) (length ?c))"
      and ps: "planes_set (kmin_of TYPE('i) (rev_prec d (maxprec z) (rev_float_ints d u fblock))) (LENGTH('i)) 0
          (usub (usub (maxbits z) (length h)) (pbits TYPE('i)))
          (fwd_order (rev_fwd_xform d (rev_float_ints d u fblock)) (PERM d) ?n) (replicate ?n 0) w"
      using rev_decode_block_eq [OF s' up' L] by blast
    have "0 < (LENGTH('i) + 1) * 4 ^ d" by simp
    then have a: "length h \<le> maxbits z" "pbits TYPE('i) \<le> maxbits z - length h" using mb hl by linarith+
    then have "usub (usub (maxbits z) (length h)) (pbits TYPE('i)) = maxbits z - length h - pbits TYPE('i)"
      using mb(2) by (simp add: usub_eq)
    then have "(LENGTH('i) + 1) * 4 ^ d - 1 \<le> usub (usub (maxbits z) (length h)) (pbits TYPE('i))" using mb hl by linarith
    from rev_block_exact [OF L d li _ mp this ps] w show ?thesis using s by simp
  qed
  consider (zero) "rev_fwd_reversible ?i fblock ?n ?emax" "?emax = - EBIAS TYPE('i)"
    | (cast) "rev_fwd_reversible ?i fblock ?n ?emax" "?emax \<noteq> - EBIAS TYPE('i)"
    | (bits) "\<not> rev_fwd_reversible ?i fblock ?n ?emax" by blast
  then show ?thesis
  proof cases
    case zero
    then have c: "rev_float_block_code d u z fblock = [False]" by (simp add: rev_float_block_code_def rev_float_header_def Let_def)
    have "fblock = replicate ?n 0" using zero l by (simp add: rev_fwd_reversible_def rev_inv_cast_def)
    then show ?thesis using upcoming_read_bit [OF s] up c minb by (simp add: rev_decode_block_float_def Let_def)
  next
    case cast
    then have h: "h = [True, False] @ exponent_bits u fblock ?n" "rev_float_ints d u fblock = ?i"
      by (simp_all add: h_def rev_float_header_def rev_float_ints_def Let_def)
    have hl: "length h = 2 + ebits TYPE('i)" and hn: "h \<noteq> [False]" by (simp_all add: h exponent_bits_def)
    have u1: "upcoming (stream z) (True # False # exponent_bits u fblock ?n @ ?c)" using up code [OF hn] by (simp add: h(1))
    have r1: "stream_read_bit (stream z) = (True, stream_skip (stream z) 1)" using upcoming_read_bit [OF s u1] .
    have u2: "upcoming (stream_skip (stream z) 1) (False # exponent_bits u fblock ?n @ ?c)" using u1 s by (simp add: upcoming_Cons)
    have r2: "stream_read_bit (stream_skip (stream z) 1) = (False, stream_skip (stream z) 2)"
      using upcoming_read_bit [OF _ u2] s by (simp add: numeral_2_eq_2)
    have u3: "upcoming (stream_skip (stream z) 2) (exponent_bits u fblock ?n)"
      using u2 s by (simp add: upcoming_Cons upcoming_append numeral_2_eq_2)
    obtain v where v: "stream_read_bits (stream_skip (stream z) 2) (ebits TYPE('i)) = (v, stream_skip (stream z) (length h))"
      "uint v - EBIAS TYPE('i) = ?emax"
      using read_exponent [OF L u _ u3] s hl by auto
    have nb: "(1 + 1 + ebits TYPE('i)) = length h" using hl by simp
    have f: "rev_inv_cast ?i ?n ?emax = fblock" using cast l by (simp add: rev_fwd_reversible_def)
    show ?thesis
      unfolding rev_decode_block_float_def Let_def r1 prod.case if_P [OF TrueI] r2 if_not_P [OF not_False_eq_True [THEN iffD2, OF TrueI]] v nb
      using ints [OF hn] hl f by (simp add: h(2) code [OF hn])
  next
    case bits
    then have h: "h = [True, True]" "rev_float_ints d u fblock = rev_fwd_reinterpret fblock ?n"
      by (simp_all add: h_def rev_float_header_def rev_float_ints_def Let_def)
    have hl: "length h = 2" and hn: "h \<noteq> [False]" by (simp_all add: h)
    have u1: "upcoming (stream z) (True # True # ?c)" using up code [OF hn] by (simp add: h(1))
    have r1: "stream_read_bit (stream z) = (True, stream_skip (stream z) 1)" using upcoming_read_bit [OF s u1] .
    have u2: "upcoming (stream_skip (stream z) 1) (True # ?c)" using u1 s by (simp add: upcoming_Cons)
    have r2: "stream_read_bit (stream_skip (stream z) 1) = (True, stream_skip (stream z) (length h))"
      using upcoming_read_bit [OF _ u2] s by (simp add: hl numeral_2_eq_2)
    have nb: "1 + 1 = length h" using hl by simp
    show ?thesis
      unfolding rev_decode_block_float_def Let_def r1 prod.case if_P [OF TrueI] r2 nb
      using ints [OF hn] reinterpret_inverse [OF l] by (simp add: hl h(2) code [OF hn])
  qed
qed


section \<open>Properties\<close>

text \<open>Rereading what a block function wrote: flush the bit stream and seek back to where the block starts.\<close>

definition reopen :: "('w::len) zfp_stream \<Rightarrow> ('w::len) zfp_stream \<Rightarrow> 'w zfp_stream" where
  "reopen z z1 = z1\<lparr>stream := stream_rseek (snd (stream_flush (stream z1))) (stream_wtell (stream z))\<rparr>"

lemma reopen:
  assumes "sink_ok (stream z)" "z1 = z\<lparr>stream := wappend (stream z) bs\<rparr>"
  shows "source_ok (stream (reopen z z1))" "upcoming (stream (reopen z z1)) bs"
    "stream_rtell (stream (reopen z z1)) = stream_wtell (stream z)"
    "reopen z z1 = z\<lparr>stream := stream (reopen z z1)\<rparr>"
  using reread [OF assms(1), of "stream z1" bs] by (simp_all add: reopen_def assms(2))

definition sample_stream :: "nat \<Rightarrow> nat \<Rightarrow> nat \<Rightarrow> int \<Rightarrow> 64 zfp_stream" where
  "sample_stream mi ma pr ex = \<lparr>minbits = mi, maxbits = ma, maxprec = pr, minexp = ex, stream = stream_open (\<lambda>_. 0) 1024,
     exec = \<lparr>policy = zfp_exec_serial, params = None\<rparr>\<rparr>"

definition plain_unspecified :: "'a \<Rightarrow> 'a unspecified" where
  "plain_unspecified x = \<lparr>frexp_special = (\<lambda>_. 0), cast_special = (\<lambda>_. x)\<rparr>"

lemma frexp_ok_plain: "frexp_ok (plain_unspecified x)"
  by (simp add: frexp_ok_def plain_unspecified_def EBIAS_def)

text \<open>C21: in reversible mode a block of floats or doubles is decoded to exactly the bit patterns that were
  encoded, for all bit patterns (negative zeros, subnormal numbers, infinities and NaNs included),
  and whatever the values that the C standard leaves open in the conversions of special values; the decoder
  consumes exactly the bits written. The parameters are those of reversible mode.\<close>

theorem rev_float_block_roundtrip:
  fixes fblock :: "('i::len) word list"
  assumes "LENGTH('i) = 32 \<or> LENGTH('i) = 64" "1 \<le> d" "d \<le> 4" "length fblock = 4 ^ d" "frexp_ok u"
    and z: "REVERSIBLE z" "minbits z = ZFP_MIN_BITS" "maxbits z = ZFP_MAX_BITS" "maxprec z = ZFP_MAX_PREC"
    and s: "sink_ok (stream z)" and enc: "zfp_encode_block_float d u z fblock = (nb, z1)"
  shows "\<exists>z2. zfp_decode_block_float d (reopen z z1) = (nb, fblock, z2) \<and> stream_rtell (stream z2) = stream_wtell (stream z1)"
proof -
  let ?c = "rev_float_block_code d u z fblock"
  have e: "nb = length ?c" "z1 = z\<lparr>stream := wappend (stream z) ?c\<rparr>"
    using enc rev_encode_block_float_eq [OF assms(1,5) s] z(1) by (simp_all add: zfp_encode_block_float_def)
  note r = reopen [OF s e(2)]
  define y where "y = stream (reopen z z1)"
  have ry: "reopen z z1 = z\<lparr>stream := y\<rparr>" using r(4) by (simp add: y_def)
  have "(4::nat) ^ d \<le> 4 ^ 4" using assms(3) by (intro power_increasing) simp_all
  then have b: "2 + ebits TYPE('i) + pbits TYPE('i) + (LENGTH('i) + 1) * 4 ^ d - 1 \<le> maxbits z"
    using assms(1) z by (auto simp: ebits_def pbits_def ZFP_MAX_BITS_def)
  have "rev_decode_block_float d (z\<lparr>stream := y\<rparr>) = (length ?c, fblock, z\<lparr>stream := stream_skip y (length ?c)\<rparr>)"
    using rev_decode_block_float_eq [OF assms(1-5), of "z\<lparr>stream := y\<rparr>"] r(1,2) z b assms(1)
    by (auto simp: y_def ZFP_MAX_PREC_def ZFP_MIN_BITS_def ZFP_MAX_BITS_def)
  moreover have "stream_rtell (stream_skip y (length ?c)) = stream_wtell (stream z1)"
    using r(3) e s by (simp add: y_def rtell_skip sink_ok_def)
  ultimately show ?thesis using z(1) e(1) by (simp add: ry zfp_decode_block_float_def REVERSIBLE_def)
qed

theorem rev_float_block_roundtrip_witness:
  "\<exists>nb z1 z2. zfp_encode_block_float 1 (plain_unspecified 0) (sample_stream 1 ZFP_MAX_BITS 64 (- 1075)) [0x3f800000, 0x7fc00000, 0x80000000, 1 :: uint32] = (nb, z1)
    \<and> zfp_decode_block_float 1 (reopen (sample_stream 1 ZFP_MAX_BITS 64 (- 1075)) z1) = (nb, [0x3f800000, 0x7fc00000, 0x80000000, 1 :: uint32], z2)
    \<and> stream_rtell (stream z2) = stream_wtell (stream z1)"
proof -
  let ?z = "sample_stream 1 ZFP_MAX_BITS 64 (- 1075)" and ?b = "[0x3f800000, 0x7fc00000, 0x80000000, 1 :: uint32]"
  obtain nb z1 where e: "zfp_encode_block_float 1 (plain_unspecified 0) ?z ?b = (nb, z1)" by (metis surj_pair)
  have "\<exists>z2. zfp_decode_block_float 1 (reopen ?z z1) = (nb, ?b, z2) \<and> stream_rtell (stream z2) = stream_wtell (stream z1)"
    by (rule rev_float_block_roundtrip [OF _ _ _ _ frexp_ok_plain _ _ _ _ _ e])
      (simp_all add: sample_stream_def REVERSIBLE_def ZFP_MIN_EXP_def ZFP_MIN_BITS_def ZFP_MAX_PREC_def sink_ok_open)
  then show ?thesis using e by blast
qed

text \<open>Without the reversible setting, the decoder of a block of floats consumes exactly the bits the
  encoder wrote, and a block takes at least \<open>minbits\<close> and at most \<open>maxbits\<close> bits when the budget has
  room for the exponent and is not below \<open>minbits\<close>: in fixed-rate mode (\<open>minbits = maxbits\<close>) every block takes \<open>maxbits\<close> bits.\<close>

theorem float_block_in_sync:
  fixes fblock :: "('i::len) word list"
  assumes "LENGTH('i) = 32 \<or> LENGTH('i) = 64" "frexp_ok u" "\<not> REVERSIBLE z" "sink_ok (stream z)"
    and b: "1 + ebits TYPE('i) \<le> maxbits z" "minbits z \<le> maxbits z" "maxbits z < 2 ^ 32"
    and enc: "zfp_encode_block_float d u z fblock = (nb, z1)"
    and dec: "zfp_decode_block_float d (reopen z z1) = (nb', oblock :: 'i word list, z2)"
  shows "nb' = nb \<and> stream_wtell (stream z1) = stream_wtell (stream z) + nb \<and> stream_rtell (stream z2) = stream_wtell (stream z1)
    \<and> minbits z \<le> nb \<and> nb \<le> maxbits z"
proof -
  let ?c = "float_block_code d u z fblock"
  have e: "nb = length ?c" "z1 = z\<lparr>stream := wappend (stream z) ?c\<rparr>"
    using enc encode_block_float_eq [OF assms(1,2,4)] assms(3) by (simp_all add: zfp_encode_block_float_def)
  note r = reopen [OF assms(4) e(2)]
  define y where "y = stream (reopen z z1)"
  have ry: "reopen z z1 = z\<lparr>stream := y\<rparr>" using r(4) by (simp add: y_def)
  have d: "nb' = length ?c" "z2 = z\<lparr>stream := stream_skip y (length ?c)\<rparr>"
    using decode_block_float_eq [OF assms(1,2), of "z\<lparr>stream := y\<rparr>" d fblock] r(1,2) dec assms(3)
    by (auto simp: y_def [symmetric] ry zfp_decode_block_float_def REVERSIBLE_def)
  have "minbits z \<le> length ?c \<and> length ?c \<le> maxbits z"
    using b by (auto simp: float_block_code_def Let_def int_block_code_def exponent_bits_def usub_eq)
  then show ?thesis using d e r(3) assms(4) by (simp add: y_def rtell_skip sink_ok_def)
qed

theorem float_block_in_sync_witness:
  "\<exists>nb z1 oblock z2. zfp_encode_block_float 1 (plain_unspecified 0) (sample_stream 64 64 64 (- 1074)) [0x3f800000, 0x40000000, 0, 0xbf800000 :: uint32] = (nb, z1)
    \<and> zfp_decode_block_float 1 (reopen (sample_stream 64 64 64 (- 1074)) z1) = (nb, oblock :: uint32 list, z2)
    \<and> nb = 64 \<and> stream_rtell (stream z2) = 64"
proof -
  let ?z = "sample_stream 64 64 64 (- 1074)" and ?b = "[0x3f800000, 0x40000000, 0, 0xbf800000 :: uint32]"
  obtain nb z1 where e: "zfp_encode_block_float 1 (plain_unspecified 0) ?z ?b = (nb, z1)" by (metis surj_pair)
  obtain nb' ob z2 where d: "zfp_decode_block_float 1 (reopen ?z z1) = (nb', ob :: uint32 list, z2)" by (metis prod_cases3)
  have "nb' = nb \<and> stream_wtell (stream z1) = stream_wtell (stream ?z) + nb \<and> stream_rtell (stream z2) = stream_wtell (stream z1)
      \<and> minbits ?z \<le> nb \<and> nb \<le> maxbits ?z"
    by (rule float_block_in_sync [OF _ frexp_ok_plain _ _ _ _ _ e d])
      (simp_all add: sample_stream_def REVERSIBLE_def ZFP_MIN_EXP_def ebits_def sink_ok_open)
  then show ?thesis using e d by (simp add: sample_stream_def written_open)
qed

text \<open>C32: the encoder and the decoder disagree on the size of an all-zero block if reversible coding is combined
  with a lower bound \<open>minbits\<close> above one bit, as the expert interface allows: the encoder writes a single bit
  and does not pad the block, but the decoder skips to \<open>minbits\<close> bits and so misses the start of
  the next block.\<close>

theorem rev_zero_block_out_of_sync:
  fixes z :: "('w::len) zfp_stream"
  assumes L: "LENGTH('i::len) = 32 \<or> LENGTH('i) = 64" and z: "REVERSIBLE z" "1 < minbits z" "sink_ok (stream z)" "frexp_ok u"
    and enc: "zfp_encode_block_float d u z (replicate (4 ^ d) (0 :: 'i word)) = (nb, z1)"
    and dec: "zfp_decode_block_float d (reopen z z1) = (nb', oblock :: 'i word list, z2)"
  shows "nb = 1 \<and> nb' = minbits z \<and> stream_rtell (stream z2) \<noteq> stream_wtell (stream z1)"
proof -
  let ?b = "replicate (4 ^ d) (0 :: 'i word)" and ?n = "4 ^ d"
  have v: "float_val (0 :: 'i word) = Finite False 0 (float_emin TYPE('i))"
    using L by (auto simp: float_val_def Let_def ebits_def)
  have "foldl (\<lambda>max i. let f = float_fabs (?b ! i) in if float_less max f then f else max) 0 [0..<k] = 0" if "k \<le> ?n" for k
    using that by (induction k) (simp_all add: float_fabs_def float_less_def v signed_by_def Let_def)
  then have em: "exponent_block u ?b ?n = - EBIAS TYPE('i)"
    by (simp add: exponent_block_def exponent_def float_less_def v signed_by_def)
  have c: "rev_float_block_code d u z ?b = [False]"
    by (simp add: rev_float_block_code_def rev_float_header_def em rev_fwd_reversible_def rev_inv_cast_def Let_def)
  have e: "nb = 1" "z1 = z\<lparr>stream := wappend (stream z) [False]\<rparr>"
    using enc rev_encode_block_float_eq [OF L z(4,3), of d ?b] z(1) by (simp_all add: zfp_encode_block_float_def c)
  note r = reopen [OF z(3) e(2)]
  define y where "y = stream (reopen z z1)"
  have ry: "reopen z z1 = z\<lparr>stream := y\<rparr>" using r(4) by (simp add: y_def)
  have y: "source_ok y" "stream_read_bit y = (False, stream_skip y 1)"
    using r(1) upcoming_read_bit [OF r(1,2)] by (simp_all add: y_def)
  have "nb' = minbits z" "z2 = z\<lparr>stream := stream_skip y (minbits z)\<rparr>"
    using dec z(1,2) y by (auto simp: ry zfp_decode_block_float_def rev_decode_block_float_def Let_def REVERSIBLE_def)
  moreover have "stream_rtell (stream_skip y (minbits z)) = stream_wtell (stream z) + minbits z" "stream_wtell (stream z1) = stream_wtell (stream z) + 1"
    using r(3) e(2) z(3) by (simp_all add: y_def rtell_skip sink_ok_def del: wappend_Nil wappend_Cons)
  ultimately show ?thesis using e(1) z(2) by simp
qed

theorem rev_zero_block_out_of_sync_witness:
  "\<exists>nb z1 nb' ob z2. zfp_encode_block_float 1 (plain_unspecified 0) (sample_stream 100 4096 64 (- 1075)) (replicate (4 ^ 1) (0 :: uint32)) = (nb, z1)
    \<and> zfp_decode_block_float 1 (reopen (sample_stream 100 4096 64 (- 1075)) z1) = (nb', ob :: uint32 list, z2) \<and> nb = 1 \<and> nb' = 100"
proof -
  let ?z = "sample_stream 100 4096 64 (- 1075)" and ?b = "replicate (4 ^ 1) (0 :: uint32)"
  obtain nb z1 where e: "zfp_encode_block_float 1 (plain_unspecified 0) ?z ?b = (nb, z1)" by (metis surj_pair)
  obtain nb' ob z2 where d: "zfp_decode_block_float 1 (reopen ?z z1) = (nb', ob :: uint32 list, z2)" by (metis prod_cases3)
  have "nb = 1 \<and> nb' = minbits ?z \<and> stream_rtell (stream z2) \<noteq> stream_wtell (stream z1)"
    by (rule rev_zero_block_out_of_sync [OF _ _ _ _ frexp_ok_plain e d])
      (simp_all add: sample_stream_def REVERSIBLE_def ZFP_MIN_EXP_def sink_ok_open)
  then have "nb = 1 \<and> nb' = 100" by (simp add: sample_stream_def)
  then show ?thesis using e d by blast
qed

end
