(* ===== verification/Strided.thy ===== *)
theory Strided
  imports Float_Block
begin

text \<open>
  Blocks in the user's array (\<^verbatim>\<open>src/template/encode1.c\<close> to \<^verbatim>\<open>encode4.c\<close> and \<^verbatim>\<open>src/template/decode1.c\<close> to
  \<^verbatim>\<open>decode4.c\<close>, and \<open>pad_block\<close> of \<^verbatim>\<open>src/template/encode.c\<close>): gathering a block of \<open>4 ^ d\<close> values from strided memory,
  padding a partial block at the border of the array, scattering a decoded block, and the block
  functions of the four dimensionalities. The array is a function from element addresses to values; the pointer
  arithmetic of the nested loops is the source's, on unbounded integers. \<open>box\<close>, \<open>offset\<close> and \<open>pad_index\<close> state what the
  loops compute.
\<close>

section \<open>Gather\<close>

type_synonym 'a array = "int \<Rightarrow> 'a"

definition pad_block :: "('a::zero) list \<Rightarrow> nat \<Rightarrow> nat \<Rightarrow> nat \<Rightarrow> 'a list" where
  "pad_block p i n s =
    (let p = (if n = 0 then p[i + 0 * s := 0] else p);
         p = (if n \<le> 1 then p[i + 1 * s := p ! (i + 0 * s)] else p);
         p = (if n \<le> 2 then p[i + 2 * s := p ! (i + 1 * s)] else p)
     in if n \<le> 3 then p[i + 3 * s := p ! (i + 0 * s)] else p)"

definition gather_1 :: "'a list \<Rightarrow> 'a array \<Rightarrow> int \<Rightarrow> int \<Rightarrow> 'a list" where
  "gather_1 q a p sx =
    (let (q, i, p) = for_loop 4 (\<lambda>x (q, i, p). (q[i := a p], i + 1, p + sx)) (q, 0 :: nat, p) in q)"

definition gather_2 :: "'a list \<Rightarrow> 'a array \<Rightarrow> int \<Rightarrow> int \<Rightarrow> int \<Rightarrow> 'a list" where
  "gather_2 q a p sx sy =
    (let (q, i, p) =
       for_loop 4 (\<lambda>y s.
         let (q, i, p) = for_loop 4 (\<lambda>x (q, i, p). (q[i := a p], i + 1, p + sx)) s
         in (q, i, p + (sy - 4 * sx))) (q, 0 :: nat, p)
     in q)"

definition gather_3 :: "'a list \<Rightarrow> 'a array \<Rightarrow> int \<Rightarrow> int \<Rightarrow> int \<Rightarrow> int \<Rightarrow> 'a list" where
  "gather_3 q a p sx sy sz =
    (let (q, i, p) =
       for_loop 4 (\<lambda>z s.
         let (q, i, p) =
           for_loop 4 (\<lambda>y s.
             let (q, i, p) = for_loop 4 (\<lambda>x (q, i, p). (q[i := a p], i + 1, p + sx)) s
             in (q, i, p + (sy - 4 * sx))) s
         in (q, i, p + (sz - 4 * sy))) (q, 0 :: nat, p)
     in q)"

definition gather_4 :: "'a list \<Rightarrow> 'a array \<Rightarrow> int \<Rightarrow> int \<Rightarrow> int \<Rightarrow> int \<Rightarrow> int \<Rightarrow> 'a list" where
  "gather_4 q a p sx sy sz sw =
    (let (q, i, p) =
       for_loop 4 (\<lambda>w s.
         let (q, i, p) =
           for_loop 4 (\<lambda>z s.
             let (q, i, p) =
               for_loop 4 (\<lambda>y s.
                 let (q, i, p) = for_loop 4 (\<lambda>x (q, i, p). (q[i := a p], i + 1, p + sx)) s
                 in (q, i, p + (sy - 4 * sx))) s
             in (q, i, p + (sz - 4 * sy))) s
         in (q, i, p + (sw - 4 * sz))) (q, 0 :: nat, p)
     in q)"

text \<open>A write beyond the end of the list is dropped. The callers pass sizes of at most 4, with the exception in \<open>contiguous_1d_overflow\<close>, which
  is stated for lists that are longer than a block.\<close>

definition gather_partial_1 :: "('a::zero) list \<Rightarrow> 'a array \<Rightarrow> int \<Rightarrow> nat \<Rightarrow> int \<Rightarrow> 'a list" where
  "gather_partial_1 q a p nx sx =
    (let (q, p) = for_loop nx (\<lambda>x (q, p). (q[x := a p], p + sx)) (q, p)
     in pad_block q 0 nx 1)"

definition gather_partial_2 :: "('a::zero) list \<Rightarrow> 'a array \<Rightarrow> int \<Rightarrow> nat \<Rightarrow> nat \<Rightarrow> int \<Rightarrow> int \<Rightarrow> 'a list" where
  "gather_partial_2 q a p nx ny sx sy =
    (let (q, p) =
       for_loop ny (\<lambda>y (q, p).
         let (q, p) = for_loop nx (\<lambda>x (q, p). (q[4 * y + x := a p], p + sx)) (q, p);
             q = pad_block q (4 * y) nx 1
         in (q, p + (sy - int nx * sx))) (q, p)
     in for_loop 4 (\<lambda>x q. pad_block q x ny 4) q)"

definition gather_partial_3 ::
  "('a::zero) list \<Rightarrow> 'a array \<Rightarrow> int \<Rightarrow> nat \<Rightarrow> nat \<Rightarrow> nat \<Rightarrow> int \<Rightarrow> int \<Rightarrow> int \<Rightarrow> 'a list" where
  "gather_partial_3 q a p nx ny nz sx sy sz =
    (let (q, p) =
       for_loop nz (\<lambda>z (q, p).
         let (q, p) =
           for_loop ny (\<lambda>y (q, p).
             let (q, p) = for_loop nx (\<lambda>x (q, p). (q[16 * z + 4 * y + x := a p], p + sx)) (q, p);
                 q = pad_block q (16 * z + 4 * y) nx 1
             in (q, p + (sy - int nx * sx))) (q, p);
             q = for_loop 4 (\<lambda>x q. pad_block q (16 * z + x) ny 4) q
         in (q, p + (sz - int ny * sy))) (q, p)
     in for_loop 4 (\<lambda>y. for_loop 4 (\<lambda>x q. pad_block q (4 * y + x) nz 16)) q)"

definition gather_partial_4 ::
  "('a::zero) list \<Rightarrow> 'a array \<Rightarrow> int \<Rightarrow> nat \<Rightarrow> nat \<Rightarrow> nat \<Rightarrow> nat \<Rightarrow> int \<Rightarrow> int \<Rightarrow> int \<Rightarrow> int \<Rightarrow> 'a list" where
  "gather_partial_4 q a p nx ny nz nw sx sy sz sw =
    (let (q, p) =
       for_loop nw (\<lambda>w (q, p).
         let (q, p) =
           for_loop nz (\<lambda>z (q, p).
             let (q, p) =
               for_loop ny (\<lambda>y (q, p).
                 let (q, p) = for_loop nx (\<lambda>x (q, p). (q[64 * w + 16 * z + 4 * y + x := a p], p + sx)) (q, p);
                     q = pad_block q (64 * w + 16 * z + 4 * y) nx 1
                 in (q, p + (sy - int nx * sx))) (q, p);
                 q = for_loop 4 (\<lambda>x q. pad_block q (64 * w + 16 * z + x) ny 4) q
             in (q, p + (sz - int ny * sy))) (q, p);
             q = for_loop 4 (\<lambda>y. for_loop 4 (\<lambda>x q. pad_block q (64 * w + 4 * y + x) nz 16)) q
         in (q, p + (sw - int nz * sz))) (q, p)
     in for_loop 4 (\<lambda>z. for_loop 4 (\<lambda>y. for_loop 4 (\<lambda>x q. pad_block q (16 * z + 4 * y + x) nw 64))) q)"

section \<open>Scatter\<close>

definition scatter_1 :: "'a list \<Rightarrow> 'a array \<Rightarrow> int \<Rightarrow> int \<Rightarrow> 'a array" where
  "scatter_1 q a p sx =
    (let (a, i, p) = for_loop 4 (\<lambda>x (a, i, p). (a(p := q ! i), i + 1, p + sx)) (a, 0 :: nat, p) in a)"

definition scatter_2 :: "'a list \<Rightarrow> 'a array \<Rightarrow> int \<Rightarrow> int \<Rightarrow> int \<Rightarrow> 'a array" where
  "scatter_2 q a p sx sy =
    (let (a, i, p) =
       for_loop 4 (\<lambda>y s.
         let (a, i, p) = for_loop 4 (\<lambda>x (a, i, p). (a(p := q ! i), i + 1, p + sx)) s
         in (a, i, p + (sy - 4 * sx))) (a, 0 :: nat, p)
     in a)"

definition scatter_3 :: "'a list \<Rightarrow> 'a array \<Rightarrow> int \<Rightarrow> int \<Rightarrow> int \<Rightarrow> int \<Rightarrow> 'a array" where
  "scatter_3 q a p sx sy sz =
    (let (a, i, p) =
       for_loop 4 (\<lambda>z s.
         let (a, i, p) =
           for_loop 4 (\<lambda>y s.
             let (a, i, p) = for_loop 4 (\<lambda>x (a, i, p). (a(p := q ! i), i + 1, p + sx)) s
             in (a, i, p + (sy - 4 * sx))) s
         in (a, i, p + (sz - 4 * sy))) (a, 0 :: nat, p)
     in a)"

definition scatter_4 :: "'a list \<Rightarrow> 'a array \<Rightarrow> int \<Rightarrow> int \<Rightarrow> int \<Rightarrow> int \<Rightarrow> int \<Rightarrow> 'a array" where
  "scatter_4 q a p sx sy sz sw =
    (let (a, i, p) =
       for_loop 4 (\<lambda>w s.
         let (a, i, p) =
           for_loop 4 (\<lambda>z s.
             let (a, i, p) =
               for_loop 4 (\<lambda>y s.
                 let (a, i, p) = for_loop 4 (\<lambda>x (a, i, p). (a(p := q ! i), i + 1, p + sx)) s
                 in (a, i, p + (sy - 4 * sx))) s
             in (a, i, p + (sz - 4 * sy))) s
         in (a, i, p + (sw - 4 * sz))) (a, 0 :: nat, p)
     in a)"

definition scatter_partial_1 :: "'a list \<Rightarrow> 'a array \<Rightarrow> int \<Rightarrow> nat \<Rightarrow> int \<Rightarrow> 'a array" where
  "scatter_partial_1 q a p nx sx =
    (let (a, i, p) = for_loop nx (\<lambda>x (a, i, p). (a(p := q ! i), i + 1, p + sx)) (a, 0 :: nat, p) in a)"

definition scatter_partial_2 :: "'a list \<Rightarrow> 'a array \<Rightarrow> int \<Rightarrow> nat \<Rightarrow> nat \<Rightarrow> int \<Rightarrow> int \<Rightarrow> 'a array" where
  "scatter_partial_2 q a p nx ny sx sy =
    (let (a, i, p) =
       for_loop ny (\<lambda>y s.
         let (a, i, p) = for_loop nx (\<lambda>x (a, i, p). (a(p := q ! i), i + 1, p + sx)) s
         in (a, i + (4 - nx), p + (sy - int nx * sx))) (a, 0 :: nat, p)
     in a)"

definition scatter_partial_3 ::
  "'a list \<Rightarrow> 'a array \<Rightarrow> int \<Rightarrow> nat \<Rightarrow> nat \<Rightarrow> nat \<Rightarrow> int \<Rightarrow> int \<Rightarrow> int \<Rightarrow> 'a array" where
  "scatter_partial_3 q a p nx ny nz sx sy sz =
    (let (a, i, p) =
       for_loop nz (\<lambda>z s.
         let (a, i, p) =
           for_loop ny (\<lambda>y s.
             let (a, i, p) = for_loop nx (\<lambda>x (a, i, p). (a(p := q ! i), i + 1, p + sx)) s
             in (a, i + 1 * (4 - nx), p + (sy - int nx * sx))) s
         in (a, i + 4 * (4 - ny), p + (sz - int ny * sy))) (a, 0 :: nat, p)
     in a)"

definition scatter_partial_4 ::
  "'a list \<Rightarrow> 'a array \<Rightarrow> int \<Rightarrow> nat \<Rightarrow> nat \<Rightarrow> nat \<Rightarrow> nat \<Rightarrow> int \<Rightarrow> int \<Rightarrow> int \<Rightarrow> int \<Rightarrow> 'a array" where
  "scatter_partial_4 q a p nx ny nz nw sx sy sz sw =
    (let (a, i, p) =
       for_loop nw (\<lambda>w s.
         let (a, i, p) =
           for_loop nz (\<lambda>z s.
             let (a, i, p) =
               for_loop ny (\<lambda>y s.
                 let (a, i, p) = for_loop nx (\<lambda>x (a, i, p). (a(p := q ! i), i + 1, p + sx)) s
                 in (a, i + 1 * (4 - nx), p + (sy - int nx * sx))) s
             in (a, i + 4 * (4 - ny), p + (sz - int ny * sy))) s
         in (a, i + 16 * (4 - nz), p + (sw - int nz * sz))) (a, 0 :: nat, p)
     in a)"

section \<open>Specification\<close>

fun box :: "nat list \<Rightarrow> nat list list" where
  "box [] = [[]]"
| "box (n # ns) = concat (map (\<lambda>r. map (\<lambda>x. x # r) [0..<n]) (box ns))"

fun offset :: "int list \<Rightarrow> nat list \<Rightarrow> int" where
  "offset (s # ss) (x # xs) = int x * s + offset ss xs"
| "offset _ _ = 0"

fun block_pos :: "nat list \<Rightarrow> nat" where
  "block_pos [] = 0"
| "block_pos (x # xs) = x + 4 * block_pos xs"

definition pad_index :: "nat \<Rightarrow> nat \<Rightarrow> nat" where
  "pad_index n x = (if x < n then x else if x = 3 then 0 else n - 1)"

definition store :: "'a array \<Rightarrow> (int \<times> 'a) list \<Rightarrow> 'a array" where
  "store a ws = fold (\<lambda>(p, v) a. a(p := v)) ws a"

lemma store_simps [simp]: "store a [] = a" "store a ((p, v) # ws) = store (a(p := v)) ws" "store a (ws @ vs) = store (store a ws) vs"
  by (simp_all add: store_def)

lemma store_other: "p \<notin> fst ` set ws \<Longrightarrow> store a ws p = a p"
  by (induction ws arbitrary: a) auto

lemma store_hit: "distinct (map fst ws) \<Longrightarrow> (p, v) \<in> set ws \<Longrightarrow> store a ws p = v"
  by (induction ws arbitrary: a) (auto simp: store_other)

section \<open>Full blocks are gathered in order\<close>

definition gathers :: "('a list \<times> nat \<times> int \<Rightarrow> 'a list \<times> nat \<times> int) \<Rightarrow> nat \<Rightarrow> int \<Rightarrow> (int \<Rightarrow> 'a list) \<Rightarrow> bool" where
  "gathers f m s vals \<longleftrightarrow> (\<forall>p. length (vals p) = m) \<and>
    (\<forall>q i p. i + m \<le> length q \<longrightarrow> f (q, i, p) = (take i q @ vals p @ drop (i + m) q, i + m, p + s))"

lemma gathers_one: "gathers (\<lambda>(q, i, p). (q[i := a p], i + 1, p + s)) 1 s (\<lambda>p. [a p])"
  by (auto simp: gathers_def upd_conv_take_nth_drop)

lemma gathers_loop:
  assumes "gathers f m s vals"
  shows "gathers (for_loop n (\<lambda>_. f)) (n * m) (int n * s) (\<lambda>p. concat (map (\<lambda>x. vals (p + int x * s)) [0..<n]))"
proof (induction n)
  case (Suc n)
  have l: "length (concat (map (\<lambda>x. vals (p + int x * s)) [0..<k])) = k * m" for k p
    using assms by (simp add: length_concat gathers_def comp_def sum_list_triv)
  show ?case
    unfolding gathers_def
  proof (intro conjI allI impI)
    fix q i p assume le: "i + Suc n * m \<le> length (q :: 'a list)"
    let ?v = "concat (map (\<lambda>x. vals (p + int x * s)) [0..<n])"
    let ?q = "take i q @ ?v @ drop (i + n * m) q"
    have 1: "for_loop n (\<lambda>_. f) (q, i, p) = (?q, i + n * m, p + int n * s)"
      using Suc le by (simp add: gathers_def)
    have "f (?q, i + n * m, p + int n * s) =
        (take (i + n * m) ?q @ vals (p + int n * s) @ drop (i + n * m + m) ?q, i + n * m + m, p + int n * s + s)"
      using assms le l by (simp add: gathers_def)
    moreover have "take (i + n * m) ?q = take i q @ ?v" "drop (i + n * m + m) ?q = drop (i + Suc n * m) q"
      using le l by (simp_all add: ac_simps)
    ultimately show "for_loop (Suc n) (\<lambda>_. f) (q, i, p) =
        (take i q @ concat (map (\<lambda>x. vals (p + int x * s)) [0..<Suc n]) @ drop (i + Suc n * m) q, i + Suc n * m, p + int (Suc n) * s)"
      using 1 by (simp add: algebra_simps)
  qed (rule l)
qed (simp add: gathers_def)

lemma gathers_advance:
  "gathers f m s vals \<Longrightarrow> gathers (\<lambda>st. let (q, i, p) = f st in (q, i, p + t)) m (s + t) vals"
  by (auto simp: gathers_def ac_simps)

lemma gathers_result:
  "gathers f m s vals \<Longrightarrow> length q = m \<Longrightarrow> (let (q, i, p) = f (q, 0, p) in q) = vals p"
  by (simp add: gathers_def)

lemmas gathers_row = gathers_loop [where n = 4, OF gathers_one]

lemmas gathers_rows = gathers_loop [where n = 4, OF gathers_advance]

lemma upt_4: "[0..<4] = [0, 1, 2, 3]"
  by (simp add: upt_rec)

lemma gather_1_eq: "length q = 4 \<Longrightarrow> gather_1 q a p sx = map (\<lambda>xs. a (p + offset [sx] xs)) (box [4])"
  unfolding gather_1_def by (subst gathers_result [OF gathers_row]) (simp_all add: upt_4)

lemma gather_2_eq: "length q = 16 \<Longrightarrow> gather_2 q a p sx sy = map (\<lambda>xs. a (p + offset [sx, sy] xs)) (box [4, 4])"
  unfolding gather_2_def by (subst gathers_result [OF gathers_rows [OF gathers_row]]) (simp_all add: upt_4 algebra_simps)

lemma gather_3_eq: "length q = 64 \<Longrightarrow> gather_3 q a p sx sy sz = map (\<lambda>xs. a (p + offset [sx, sy, sz] xs)) (box [4, 4, 4])"
  unfolding gather_3_def
  by (subst gathers_result [OF gathers_rows [OF gathers_rows [OF gathers_row]]]) (simp_all add: upt_4 algebra_simps)

lemma gather_4_eq: "length q = 256 \<Longrightarrow> gather_4 q a p sx sy sz sw = map (\<lambda>xs. a (p + offset [sx, sy, sz, sw] xs)) (box [4, 4, 4, 4])"
  unfolding gather_4_def
  by (subst gathers_result [OF gathers_rows [OF gathers_rows [OF gathers_rows [OF gathers_row]]]]) (simp_all add: upt_4 algebra_simps)

section \<open>Scattered values\<close>

definition scatters ::
  "('a array \<times> nat \<times> int \<Rightarrow> 'a array \<times> nat \<times> int) \<Rightarrow> nat \<Rightarrow> int \<Rightarrow> (nat \<Rightarrow> int \<Rightarrow> (int \<times> 'a) list) \<Rightarrow> bool" where
  "scatters f m s ws \<longleftrightarrow> (\<forall>a i p. f (a, i, p) = (store a (ws i p), i + m, p + s))"

lemma scatters_one: "scatters (\<lambda>(a, i, p). (a(p := q ! i), i + 1, p + s)) 1 s (\<lambda>i p. [(p, q ! i)])"
  by (simp add: scatters_def)

lemma scatters_loop:
  assumes "scatters f m s ws"
  shows "scatters (for_loop n (\<lambda>_. f)) (n * m) (int n * s) (\<lambda>i p. concat (map (\<lambda>x. ws (i + x * m) (p + int x * s)) [0..<n]))"
  using assms by (induction n) (auto simp: scatters_def algebra_simps)

lemma scatters_advance:
  "scatters f m s ws \<Longrightarrow> scatters (\<lambda>st. let (a, i, p) = f st in (a, i + k, p + t)) (m + k) (s + t) ws"
  by (auto simp: scatters_def ac_simps)

lemma scatters_result: "scatters f m s ws \<Longrightarrow> (let (a, i, p) = f (a, 0, p) in a) = store a (ws 0 p)"
  by (simp add: scatters_def)


lemma scatters_advance_array:
  "scatters f m s ws \<Longrightarrow> scatters (\<lambda>st. let (a, i, p) = f st in (a, i, p + t)) m (s + t) ws"
  by (auto simp: scatters_def ac_simps)

lemma concat_concat_map: "concat (concat (map f xs)) = concat (map (\<lambda>x. concat (f x)) xs)"
  by (induction xs) simp_all

lemmas box_concat = concat_concat_map map_concat comp_def

lemma scatter_partial_1_eq:
  "scatter_partial_1 q a p nx sx = store a (map (\<lambda>xs. (p + offset [sx] xs, q ! block_pos xs)) (box [nx]))"
  unfolding scatter_partial_1_def
  by (subst scatters_result [OF scatters_loop [OF scatters_one]]) (simp add: box_concat)

lemma scatter_partial_2_eq:
  "nx \<le> 4 \<Longrightarrow> scatter_partial_2 q a p nx ny sx sy =
    store a (map (\<lambda>xs. (p + offset [sx, sy] xs, q ! block_pos xs)) (box [nx, ny]))"
  unfolding scatter_partial_2_def
  by (subst scatters_result [OF scatters_loop [OF scatters_advance [OF scatters_loop [OF scatters_one]]]])
    (simp add: box_concat algebra_simps)

lemma scatter_partial_3_eq:
  "nx \<le> 4 \<Longrightarrow> ny \<le> 4 \<Longrightarrow> scatter_partial_3 q a p nx ny nz sx sy sz =
    store a (map (\<lambda>xs. (p + offset [sx, sy, sz] xs, q ! block_pos xs)) (box [nx, ny, nz]))"
  unfolding scatter_partial_3_def
  by (subst scatters_result [OF scatters_loop [OF scatters_advance [OF scatters_loop [OF scatters_advance
        [OF scatters_loop [OF scatters_one]]]]]]) (simp add: box_concat algebra_simps)

lemma scatter_partial_4_eq:
  "nx \<le> 4 \<Longrightarrow> ny \<le> 4 \<Longrightarrow> nz \<le> 4 \<Longrightarrow> scatter_partial_4 q a p nx ny nz nw sx sy sz sw =
    store a (map (\<lambda>xs. (p + offset [sx, sy, sz, sw] xs, q ! block_pos xs)) (box [nx, ny, nz, nw]))"
  unfolding scatter_partial_4_def
  by (subst scatters_result [OF scatters_loop [OF scatters_advance [OF scatters_loop [OF scatters_advance [OF scatters_loop
        [OF scatters_advance [OF scatters_loop [OF scatters_one]]]]]]]]) (simp add: box_concat algebra_simps)

text \<open>A full block is scattered like a partial block that reaches the ends of its axes.\<close>

lemma scatter_full:
  "scatter_1 q a p sx = scatter_partial_1 q a p 4 sx"
  "scatter_2 q a p sx sy = scatter_partial_2 q a p 4 4 sx sy"
  "scatter_3 q a p sx sy sz = scatter_partial_3 q a p 4 4 4 sx sy sz"
  "scatter_4 q a p sx sy sz sw = scatter_partial_4 q a p 4 4 4 4 sx sy sz sw"
  by (simp_all add: scatter_1_def scatter_2_def scatter_3_def scatter_4_def
      scatter_partial_1_def scatter_partial_2_def scatter_partial_3_def scatter_partial_4_def)

section \<open>Partial blocks are padded\<close>

lemma pad_index_less: "1 \<le> n \<Longrightarrow> n \<le> 4 \<Longrightarrow> y < 4 \<Longrightarrow> pad_index n y < n"
  by (auto simp: pad_index_def)

lemma length_pad_block [simp]: "length (pad_block q i n s) = length q"
  by (simp add: pad_block_def Let_def)

lemma nat_4_cases: "y < (4::nat) \<Longrightarrow> y = 0 \<or> y = 1 \<or> y = 2 \<or> y = 3"
  by auto

lemma pad_block_nth_row:
  assumes "0 < s" "1 \<le> n" "n \<le> 4" "i + 3 * s < length q" "y < 4"
  shows "pad_block q i n s ! (i + y * s) = q ! (i + pad_index n y * s)"
proof -
  have "n = 1 \<or> n = 2 \<or> n = 3 \<or> n = 4" using assms by auto
  then show ?thesis using nat_4_cases [OF assms(5)] assms(1,4)
    by (elim disjE) (simp_all add: pad_block_def Let_def pad_index_def nth_list_update)
qed

lemma pad_block_nth_other:
  assumes "\<And>y. y < 4 \<Longrightarrow> j \<noteq> i + y * s"
  shows "pad_block q i n s ! j = q ! j"
  using assms [of 0] assms [of 1] assms [of 2] assms [of 3] by (simp add: pad_block_def Let_def)

text \<open>The padding loop along an axis of stride \<open>m\<close>, started at offset \<open>b\<close>.\<close>

lemma pad_loop_length [simp]: "length (for_loop k (\<lambda>x q. pad_block q (b + x) n m) q) = length q"
  by (induction k) simp_all

lemma pad_loop_nth:
  assumes "0 < m" "1 \<le> n" "n \<le> 4" "b + 4 * m \<le> length q" "k \<le> m"
  shows "for_loop k (\<lambda>x q. pad_block q (b + x) n m) q ! j =
    (if b \<le> j \<and> j < b + 4 * m \<and> (j - b) mod m < k
     then q ! (b + pad_index n ((j - b) div m) * m + (j - b) mod m) else q ! j)"
  using assms(5)
proof (induction k arbitrary: j)
  case (Suc k)
  let ?q = "for_loop k (\<lambda>x q. pad_block q (b + x) n m) q"
  show ?case
  proof (cases "b \<le> j \<and> j < b + 4 * m \<and> (j - b) mod m = k")
    case True
    let ?y = "(j - b) div m"
    have y: "?y < 4" by (rule less_mult_imp_div_less) (use True in linarith)
    have j: "j = b + k + ?y * m" using True div_mult_mod_eq [of "j - b" m] by linarith
    have "pad_block ?q (b + k) n m ! (b + k + ?y * m) = ?q ! (b + k + pad_index n ?y * m)"
      using assms Suc.prems y by (intro pad_block_nth_row) simp_all
    moreover have "(b + k + pad_index n ?y * m - b) mod m = k" using Suc.prems by simp
    ultimately show ?thesis using Suc j True by (simp add: ac_simps)
  next
    case False
    have ne: "j \<noteq> b + k + y * m" if "y < 4" for y
    proof
      assume e: "j = b + k + y * m"
      have "y * m \<le> 3 * m" using that by (intro mult_le_mono1) simp
      then have "k + y * m < 4 * m" using Suc.prems by linarith
      then show False using False e Suc.prems by simp
    qed
    have "for_loop (Suc k) (\<lambda>x q. pad_block q (b + x) n m) q ! j = ?q ! j" by (simp add: pad_block_nth_other ne)
    then show ?thesis using Suc False by (auto simp: less_Suc_eq)
  qed
qed simp


text \<open>One axis of a partial block: \<open>n\<close> slices of \<open>m\<close> values are filled in and the axis is padded.\<close>

definition axis :: "nat \<Rightarrow> nat \<Rightarrow> int \<Rightarrow> (nat \<Rightarrow> ('a::zero) list \<times> int \<Rightarrow> 'a list \<times> int) \<Rightarrow> nat \<Rightarrow> 'a list \<times> int \<Rightarrow> 'a list \<times> int" where
  "axis m n t f b st =
    (let (q, p) = for_loop n (\<lambda>y. f (b + m * y)) st;
         q = for_loop m (\<lambda>x q. pad_block q (b + x) n m) q
     in (q, p + t))"

definition fills :: "(nat \<Rightarrow> 'a list \<times> int \<Rightarrow> 'a list \<times> int) \<Rightarrow> nat \<Rightarrow> int \<Rightarrow> (int \<Rightarrow> 'a list) \<Rightarrow> bool" where
  "fills f m s vals \<longleftrightarrow> (\<forall>p. length (vals p) = m) \<and>
    (\<forall>b q p. b + m \<le> length q \<longrightarrow> f b (q, p) = (take b q @ vals p @ drop (b + m) q, p + s))"

lemma fills_one: "fills (\<lambda>b (q, p). (q[b := a p], p + s)) 1 s (\<lambda>p. [a p])"
  by (auto simp: fills_def upd_conv_take_nth_drop)

lemma nth_concat_uniform:
  assumes "\<And>y. y < k \<Longrightarrow> length (g y) = m" "y < k" "x < m"
  shows "concat (map g [0..<k]) ! (y * m + x) = g y ! x"
proof -
  have l: "length (concat (map g [0..<j])) = j * m" if "j \<le> k" for j
    using that assms(1) by (induction j) simp_all
  have "[0..<k] = [0..<y] @ y # [Suc y..<k]" using assms(2) by (metis less_imp_add_positive upt_add_eq_append upt_conv_Cons le0 less_imp_le_nat add.commute add_0 le_add_diff_inverse)
  then have "concat (map g [0..<k]) = concat (map g [0..<y]) @ g y @ concat (map g [Suc y..<k])" by simp
  then show ?thesis using l [of y] assms by (simp add: nth_append)
qed

lemma fills_loop:
  assumes "fills f m s vals" "b + n * m \<le> length q"
  shows "for_loop n (\<lambda>y. f (b + m * y)) (q, p) =
    (take b q @ concat (map (\<lambda>y. vals (p + int y * s)) [0..<n]) @ drop (b + n * m) q, p + int n * s)"
  using assms(2)
proof (induction n)
  case (Suc n)
  let ?v = "concat (map (\<lambda>y. vals (p + int y * s)) [0..<n])"
  let ?q = "take b q @ ?v @ drop (b + n * m) q"
  have l: "length ?v = n * m" using assms(1) by (simp add: length_concat fills_def comp_def sum_list_triv)
  have 1: "for_loop n (\<lambda>y. f (b + m * y)) (q, p) = (?q, p + int n * s)" using Suc by simp
  have "f (b + m * n) (?q, p + int n * s) =
      (take (b + m * n) ?q @ vals (p + int n * s) @ drop (b + m * n + m) ?q, p + int n * s + s)"
    using assms(1) Suc.prems l by (simp add: fills_def ac_simps)
  moreover have "take (b + m * n) ?q = take b q @ ?v" "drop (b + m * n + m) ?q = drop (b + Suc n * m) q"
    using Suc.prems l by (simp_all add: ac_simps)
  ultimately show ?case using 1 by (simp add: algebra_simps)
qed simp

lemma fills_axis:
  assumes f: "fills f m s vals" and n: "1 \<le> n" "n \<le> 4" and m: "0 < m"
  shows "fills (axis m n t f) (4 * m) (int n * s + t) (\<lambda>p. concat (map (\<lambda>y. vals (p + int (pad_index n y) * s)) [0..<4]))"
  unfolding fills_def
proof (intro conjI allI impI)
  have lv: "length (vals p) = m" for p using f by (simp add: fills_def)
  show "length (concat (map (\<lambda>y. vals (p + int (pad_index n y) * s)) [0..<4])) = 4 * m" for p
    by (simp add: upt_4 lv)
  fix b q p assume le: "b + 4 * m \<le> length (q :: 'a list)"
  let ?v = "concat (map (\<lambda>y. vals (p + int y * s)) [0..<n])" and ?w = "concat (map (\<lambda>y. vals (p + int (pad_index n y) * s)) [0..<4])"
  let ?q = "take b q @ ?v @ drop (b + n * m) q"
  have nm: "n * m \<le> 4 * m" using n by simp
  have l: "length ?v = n * m" "length ?w = 4 * m" using lv by (simp_all add: length_concat comp_def sum_list_triv upt_4)
  have bn: "b + n * m \<le> length q" using le nm by linarith
  then have lq: "length ?q = length q" using l by simp
  have "for_loop m (\<lambda>x q. pad_block q (b + x) n m) ?q = take b q @ ?w @ drop (b + 4 * m) q"
  proof (rule nth_equalityI)
    fix j assume "j < length (for_loop m (\<lambda>x q. pad_block q (b + x) n m) ?q)"
    then have j: "j < length q" using lq by simp
    note pl = pad_loop_nth [OF m n, of b ?q m j]
    show "for_loop m (\<lambda>x q. pad_block q (b + x) n m) ?q ! j = (take b q @ ?w @ drop (b + 4 * m) q) ! j"
    proof (cases "b \<le> j \<and> j < b + 4 * m")
      case True
      let ?y = "(j - b) div m" and ?x = "(j - b) mod m"
      have jb: "j - b < 4 * m" using True by linarith
      have y: "?y < 4" "?x < m" by (rule less_mult_imp_div_less, use True in linarith) (use m in simp)
      have k: "pad_index n ?y < n" using pad_index_less [OF n y(1)] .
      have "pad_index n ?y * m + ?x < n * m" using split_less_iff [OF y(2), of 0 "pad_index n ?y" n] k m by simp
      then have "?q ! (b + pad_index n ?y * m + ?x) = ?v ! (pad_index n ?y * m + ?x)"
        using le l by (simp add: nth_append ac_simps)
      also have "\<dots> = vals (p + int (pad_index n ?y) * s) ! ?x" using k y lv by (intro nth_concat_uniform) simp_all
      also have "\<dots> = ?w ! (?y * m + ?x)" using y lv by (intro nth_concat_uniform [symmetric, where g = "\<lambda>y. vals (p + int (pad_index n y) * s)"]) simp_all
      also have "\<dots> = (take b q @ ?w @ drop (b + 4 * m) q) ! j"
        using True le l jb by (simp add: nth_append)
      finally show ?thesis using pl le lq True y by simp
    next
      case False
      then consider "j < b" | "b + 4 * m \<le> j" "\<not> j - b < n * m" "\<not> j - b < 4 * m" using nm by linarith
      then show ?thesis by cases (use pl le lq j l bn in \<open>simp_all add: nth_append\<close>)
    qed
  qed (use le l lq in simp)
  then show "axis m n t f b (q, p) = (take b q @ ?w @ drop (b + 4 * m) q, p + (int n * s + t))"
    using fills_loop [OF f, of b n q p] le nm by (simp add: axis_def)
qed


lemma fills_result: "fills f m s vals \<Longrightarrow> length q = m \<Longrightarrow> fst (f 0 (q, p)) = vals p"
  by (simp add: fills_def)

lemma for_loop_add: "for_loop (k + m) g s = for_loop m (\<lambda>x. g (k + x)) (for_loop k g s)"
  by (induction m) simp_all

lemma for_loop_mult: "for_loop n (\<lambda>y. for_loop m (\<lambda>x. g (m * y + x))) s = for_loop (n * m) g s"
  by (induction n) (simp_all add: for_loop_add add.commute [of m] mult.commute [of m])

lemma for_loop_16: "for_loop 4 (\<lambda>y. for_loop 4 (\<lambda>x. g (4 * y + x))) = for_loop 16 g"
  and for_loop_64: "for_loop 4 (\<lambda>z. for_loop 4 (\<lambda>y. for_loop 4 (\<lambda>x. g (16 * z + 4 * y + x)))) = for_loop 64 g"
proof -
  show *: "for_loop 4 (\<lambda>y. for_loop 4 (\<lambda>x. g (4 * y + x))) = for_loop 16 g" for g :: "nat \<Rightarrow> 's \<Rightarrow> 's"
    by (simp add: fun_eq_iff for_loop_mult)
  have 16: "for_loop 4 (\<lambda>y. for_loop 4 (\<lambda>x. g (16 * z + (4 * y + x)))) = for_loop 16 (\<lambda>k. g (16 * z + k))" for z
    by (rule *)
  show "for_loop 4 (\<lambda>z. for_loop 4 (\<lambda>y. for_loop 4 (\<lambda>x. g (16 * z + 4 * y + x)))) = for_loop 64 g"
    unfolding add.assoc 16 by (simp add: fun_eq_iff for_loop_mult)
qed

lemma gather_partial_axes:
  "gather_partial_1 q a p nx sx = fst (axis 1 nx 0 (\<lambda>b (q, p). (q[b := a p], p + sx)) 0 (q, p))"
  "gather_partial_2 q a p nx ny sx sy =
    fst (axis 4 ny 0 (axis 1 nx (sy - int nx * sx) (\<lambda>b (q, p). (q[b := a p], p + sx))) 0 (q, p))"
  "gather_partial_3 q a p nx ny nz sx sy sz =
    fst (axis 16 nz 0 (axis 4 ny (sz - int ny * sy) (axis 1 nx (sy - int nx * sx) (\<lambda>b (q, p). (q[b := a p], p + sx)))) 0 (q, p))"
  "gather_partial_4 q a p nx ny nz nw sx sy sz sw =
    fst (axis 64 nw 0 (axis 16 nz (sw - int nz * sz) (axis 4 ny (sz - int ny * sy)
      (axis 1 nx (sy - int nx * sx) (\<lambda>b (q, p). (q[b := a p], p + sx))))) 0 (q, p))"
  unfolding gather_partial_1_def gather_partial_2_def gather_partial_3_def gather_partial_4_def
    axis_def [abs_def] Let_def case_prod_unfold
  by (simp_all add: for_loop_16 [symmetric] for_loop_64 [symmetric] add.assoc)

lemma fills_axis_size:
  "fills f m s vals \<Longrightarrow> 1 \<le> n \<Longrightarrow> n \<le> 4 \<Longrightarrow> 0 < m \<Longrightarrow> k = 4 * m \<Longrightarrow>
    fills (axis m n t f) k (int n * s + t) (\<lambda>p. concat (map (\<lambda>y. vals (p + int (pad_index n y) * s)) [0..<4]))"
  using fills_axis by blast

lemmas fills_x = fills_axis_size [OF fills_one]

lemma gather_partial_1_eq:
  "length q = 4 \<Longrightarrow> 1 \<le> nx \<Longrightarrow> nx \<le> 4 \<Longrightarrow>
    gather_partial_1 q a p nx sx = map (\<lambda>xs. a (p + offset [sx] (map2 pad_index [nx] xs))) (box [4])"
  unfolding gather_partial_axes by (subst fills_result [OF fills_x]) (simp_all add: upt_4)

lemma gather_partial_2_eq:
  "length q = 16 \<Longrightarrow> 1 \<le> nx \<Longrightarrow> nx \<le> 4 \<Longrightarrow> 1 \<le> ny \<Longrightarrow> ny \<le> 4 \<Longrightarrow>
    gather_partial_2 q a p nx ny sx sy = map (\<lambda>xs. a (p + offset [sx, sy] (map2 pad_index [nx, ny] xs))) (box [4, 4])"
  unfolding gather_partial_axes by (subst fills_result [OF fills_axis_size [OF fills_x]]) (simp_all add: upt_4 algebra_simps)

lemma gather_partial_3_eq:
  "length q = 64 \<Longrightarrow> 1 \<le> nx \<Longrightarrow> nx \<le> 4 \<Longrightarrow> 1 \<le> ny \<Longrightarrow> ny \<le> 4 \<Longrightarrow> 1 \<le> nz \<Longrightarrow> nz \<le> 4 \<Longrightarrow>
    gather_partial_3 q a p nx ny nz sx sy sz =
      map (\<lambda>xs. a (p + offset [sx, sy, sz] (map2 pad_index [nx, ny, nz] xs))) (box [4, 4, 4])"
  unfolding gather_partial_axes
  by (subst fills_result [OF fills_axis_size [OF fills_axis_size [OF fills_x]]]) (simp_all add: upt_4 algebra_simps)

lemma gather_partial_4_eq:
  "length q = 256 \<Longrightarrow> 1 \<le> nx \<Longrightarrow> nx \<le> 4 \<Longrightarrow> 1 \<le> ny \<Longrightarrow> ny \<le> 4 \<Longrightarrow> 1 \<le> nz \<Longrightarrow> nz \<le> 4 \<Longrightarrow> 1 \<le> nw \<Longrightarrow> nw \<le> 4 \<Longrightarrow>
    gather_partial_4 q a p nx ny nz nw sx sy sz sw =
      map (\<lambda>xs. a (p + offset [sx, sy, sz, sw] (map2 pad_index [nx, ny, nz, nw] xs))) (box [4, 4, 4, 4])"
  unfolding gather_partial_axes
  by (subst fills_result [OF fills_axis_size [OF fills_axis_size [OF fills_axis_size [OF fills_x]]]]) (simp_all add: upt_4 algebra_simps)

section \<open>Encoding and decoding strided blocks\<close>

datatype 'i scalar = Integral | Floating "'i unspecified"

definition zfp_encode_block ::
  "('i::len) word scalar \<Rightarrow> nat \<Rightarrow> ('w::len) zfp_stream \<Rightarrow> 'i word list \<Rightarrow> nat \<times> 'w zfp_stream" where
  "zfp_encode_block t d zfp block =
    (case t of Integral \<Rightarrow> zfp_encode_block_int d zfp block | Floating u \<Rightarrow> zfp_encode_block_float d u zfp block)"

definition zfp_decode_block ::
  "('i::len) word scalar \<Rightarrow> nat \<Rightarrow> ('w::len) zfp_stream \<Rightarrow> 'i word list \<Rightarrow> nat \<times> 'i word list \<times> 'w zfp_stream" where
  "zfp_decode_block t d zfp block =
    (case t of Integral \<Rightarrow> zfp_decode_block_int d zfp block | Floating u \<Rightarrow> zfp_decode_block_float d zfp)"

definition zfp_encode_block_strided_1 ::
  "('i::len) word scalar \<Rightarrow> ('w::len) zfp_stream \<Rightarrow> 'i word array \<Rightarrow> int \<Rightarrow> int \<Rightarrow> nat \<times> 'w zfp_stream" where
  "zfp_encode_block_strided_1 t zfp a p sx =
    (let block = gather_1 (replicate 4 0) a p sx in zfp_encode_block t 1 zfp block)"

definition zfp_encode_partial_block_strided_1 ::
  "('i::len) word scalar \<Rightarrow> ('w::len) zfp_stream \<Rightarrow> 'i word array \<Rightarrow> int \<Rightarrow> nat \<Rightarrow> int \<Rightarrow> nat \<times> 'w zfp_stream" where
  "zfp_encode_partial_block_strided_1 t zfp a p nx sx =
    (let block = gather_partial_1 (replicate 4 0) a p nx sx in zfp_encode_block t 1 zfp block)"

definition zfp_decode_block_strided_1 ::
  "('i::len) word scalar \<Rightarrow> ('w::len) zfp_stream \<Rightarrow> 'i word array \<Rightarrow> int \<Rightarrow> int \<Rightarrow> nat \<times> 'i word array \<times> 'w zfp_stream" where
  "zfp_decode_block_strided_1 t zfp a p sx =
    (let (nb, block, zfp) = zfp_decode_block t 1 zfp (replicate 4 0);
         a = scatter_1 block a p sx
     in (nb, a, zfp))"

definition zfp_decode_partial_block_strided_1 ::
  "('i::len) word scalar \<Rightarrow> ('w::len) zfp_stream \<Rightarrow> 'i word array \<Rightarrow> int \<Rightarrow> nat \<Rightarrow> int \<Rightarrow> nat \<times> 'i word array \<times> 'w zfp_stream" where
  "zfp_decode_partial_block_strided_1 t zfp a p nx sx =
    (let (nb, block, zfp) = zfp_decode_block t 1 zfp (replicate 4 0);
         a = scatter_partial_1 block a p nx sx
     in (nb, a, zfp))"

definition zfp_encode_block_strided_2 ::
  "('i::len) word scalar \<Rightarrow> ('w::len) zfp_stream \<Rightarrow> 'i word array \<Rightarrow> int \<Rightarrow> int \<Rightarrow> int \<Rightarrow> nat \<times> 'w zfp_stream" where
  "zfp_encode_block_strided_2 t zfp a p sx sy =
    (let block = gather_2 (replicate 16 0) a p sx sy in zfp_encode_block t 2 zfp block)"

definition zfp_encode_partial_block_strided_2 ::
  "('i::len) word scalar \<Rightarrow> ('w::len) zfp_stream \<Rightarrow> 'i word array \<Rightarrow> int \<Rightarrow> nat \<Rightarrow> nat \<Rightarrow> int \<Rightarrow> int \<Rightarrow> nat \<times> 'w zfp_stream" where
  "zfp_encode_partial_block_strided_2 t zfp a p nx ny sx sy =
    (let block = gather_partial_2 (replicate 16 0) a p nx ny sx sy in zfp_encode_block t 2 zfp block)"

definition zfp_decode_block_strided_2 ::
  "('i::len) word scalar \<Rightarrow> ('w::len) zfp_stream \<Rightarrow> 'i word array \<Rightarrow> int \<Rightarrow> int \<Rightarrow> int \<Rightarrow> nat \<times> 'i word array \<times> 'w zfp_stream" where
  "zfp_decode_block_strided_2 t zfp a p sx sy =
    (let (nb, block, zfp) = zfp_decode_block t 2 zfp (replicate 16 0);
         a = scatter_2 block a p sx sy
     in (nb, a, zfp))"

definition zfp_decode_partial_block_strided_2 ::
  "('i::len) word scalar \<Rightarrow> ('w::len) zfp_stream \<Rightarrow> 'i word array \<Rightarrow> int \<Rightarrow> nat \<Rightarrow> nat \<Rightarrow> int \<Rightarrow> int \<Rightarrow> nat \<times> 'i word array \<times> 'w zfp_stream" where
  "zfp_decode_partial_block_strided_2 t zfp a p nx ny sx sy =
    (let (nb, block, zfp) = zfp_decode_block t 2 zfp (replicate 16 0);
         a = scatter_partial_2 block a p nx ny sx sy
     in (nb, a, zfp))"

definition zfp_encode_block_strided_3 ::
  "('i::len) word scalar \<Rightarrow> ('w::len) zfp_stream \<Rightarrow> 'i word array \<Rightarrow> int \<Rightarrow> int \<Rightarrow> int \<Rightarrow> int \<Rightarrow> nat \<times> 'w zfp_stream" where
  "zfp_encode_block_strided_3 t zfp a p sx sy sz =
    (let block = gather_3 (replicate 64 0) a p sx sy sz in zfp_encode_block t 3 zfp block)"

definition zfp_encode_partial_block_strided_3 ::
  "('i::len) word scalar \<Rightarrow> ('w::len) zfp_stream \<Rightarrow> 'i word array \<Rightarrow> int \<Rightarrow> nat \<Rightarrow> nat \<Rightarrow> nat \<Rightarrow> int \<Rightarrow> int \<Rightarrow> int \<Rightarrow> nat \<times> 'w zfp_stream" where
  "zfp_encode_partial_block_strided_3 t zfp a p nx ny nz sx sy sz =
    (let block = gather_partial_3 (replicate 64 0) a p nx ny nz sx sy sz in zfp_encode_block t 3 zfp block)"

definition zfp_decode_block_strided_3 ::
  "('i::len) word scalar \<Rightarrow> ('w::len) zfp_stream \<Rightarrow> 'i word array \<Rightarrow> int \<Rightarrow> int \<Rightarrow> int \<Rightarrow> int \<Rightarrow> nat \<times> 'i word array \<times> 'w zfp_stream" where
  "zfp_decode_block_strided_3 t zfp a p sx sy sz =
    (let (nb, block, zfp) = zfp_decode_block t 3 zfp (replicate 64 0);
         a = scatter_3 block a p sx sy sz
     in (nb, a, zfp))"

definition zfp_decode_partial_block_strided_3 ::
  "('i::len) word scalar \<Rightarrow> ('w::len) zfp_stream \<Rightarrow> 'i word array \<Rightarrow> int \<Rightarrow> nat \<Rightarrow> nat \<Rightarrow> nat \<Rightarrow> int \<Rightarrow> int \<Rightarrow> int \<Rightarrow> nat \<times> 'i word array \<times> 'w zfp_stream" where
  "zfp_decode_partial_block_strided_3 t zfp a p nx ny nz sx sy sz =
    (let (nb, block, zfp) = zfp_decode_block t 3 zfp (replicate 64 0);
         a = scatter_partial_3 block a p nx ny nz sx sy sz
     in (nb, a, zfp))"

definition zfp_encode_block_strided_4 ::
  "('i::len) word scalar \<Rightarrow> ('w::len) zfp_stream \<Rightarrow> 'i word array \<Rightarrow> int \<Rightarrow> int \<Rightarrow> int \<Rightarrow> int \<Rightarrow> int \<Rightarrow> nat \<times> 'w zfp_stream" where
  "zfp_encode_block_strided_4 t zfp a p sx sy sz sw =
    (let block = gather_4 (replicate 256 0) a p sx sy sz sw in zfp_encode_block t 4 zfp block)"

definition zfp_encode_partial_block_strided_4 ::
  "('i::len) word scalar \<Rightarrow> ('w::len) zfp_stream \<Rightarrow> 'i word array \<Rightarrow> int \<Rightarrow> nat \<Rightarrow> nat \<Rightarrow> nat \<Rightarrow> nat \<Rightarrow> int \<Rightarrow> int \<Rightarrow> int \<Rightarrow> int \<Rightarrow> nat \<times> 'w zfp_stream" where
  "zfp_encode_partial_block_strided_4 t zfp a p nx ny nz nw sx sy sz sw =
    (let block = gather_partial_4 (replicate 256 0) a p nx ny nz nw sx sy sz sw in zfp_encode_block t 4 zfp block)"

definition zfp_decode_block_strided_4 ::
  "('i::len) word scalar \<Rightarrow> ('w::len) zfp_stream \<Rightarrow> 'i word array \<Rightarrow> int \<Rightarrow> int \<Rightarrow> int \<Rightarrow> int \<Rightarrow> int \<Rightarrow> nat \<times> 'i word array \<times> 'w zfp_stream" where
  "zfp_decode_block_strided_4 t zfp a p sx sy sz sw =
    (let (nb, block, zfp) = zfp_decode_block t 4 zfp (replicate 256 0);
         a = scatter_4 block a p sx sy sz sw
     in (nb, a, zfp))"

definition zfp_decode_partial_block_strided_4 ::
  "('i::len) word scalar \<Rightarrow> ('w::len) zfp_stream \<Rightarrow> 'i word array \<Rightarrow> int \<Rightarrow> nat \<Rightarrow> nat \<Rightarrow> nat \<Rightarrow> nat \<Rightarrow> int \<Rightarrow> int \<Rightarrow> int \<Rightarrow> int \<Rightarrow> nat \<times> 'i word array \<times> 'w zfp_stream" where
  "zfp_decode_partial_block_strided_4 t zfp a p nx ny nz nw sx sy sz sw =
    (let (nb, block, zfp) = zfp_decode_block t 4 zfp (replicate 256 0);
         a = scatter_partial_4 block a p nx ny nz nw sx sy sz sw
     in (nb, a, zfp))"

section \<open>All dimensionalities at once\<close>

text \<open>The functions of the four dimensionalities, selected by the number of strides.\<close>

definition gather_block :: "int list \<Rightarrow> 'a list \<Rightarrow> 'a array \<Rightarrow> int \<Rightarrow> 'a list" where
  "gather_block ss q a p =
    (case ss of [sx] \<Rightarrow> gather_1 q a p sx | [sx, sy] \<Rightarrow> gather_2 q a p sx sy | [sx, sy, sz] \<Rightarrow> gather_3 q a p sx sy sz
     | [sx, sy, sz, sw] \<Rightarrow> gather_4 q a p sx sy sz sw | _ \<Rightarrow> q)"

definition gather_partial_block :: "int list \<Rightarrow> nat list \<Rightarrow> ('a::zero) list \<Rightarrow> 'a array \<Rightarrow> int \<Rightarrow> 'a list" where
  "gather_partial_block ss ns q a p =
    (case (ss, ns) of ([sx], [nx]) \<Rightarrow> gather_partial_1 q a p nx sx
     | ([sx, sy], [nx, ny]) \<Rightarrow> gather_partial_2 q a p nx ny sx sy
     | ([sx, sy, sz], [nx, ny, nz]) \<Rightarrow> gather_partial_3 q a p nx ny nz sx sy sz
     | ([sx, sy, sz, sw], [nx, ny, nz, nw]) \<Rightarrow> gather_partial_4 q a p nx ny nz nw sx sy sz sw | _ \<Rightarrow> q)"

definition scatter_block :: "int list \<Rightarrow> 'a list \<Rightarrow> 'a array \<Rightarrow> int \<Rightarrow> 'a array" where
  "scatter_block ss q a p =
    (case ss of [sx] \<Rightarrow> scatter_1 q a p sx | [sx, sy] \<Rightarrow> scatter_2 q a p sx sy | [sx, sy, sz] \<Rightarrow> scatter_3 q a p sx sy sz
     | [sx, sy, sz, sw] \<Rightarrow> scatter_4 q a p sx sy sz sw | _ \<Rightarrow> a)"

definition scatter_partial_block :: "int list \<Rightarrow> nat list \<Rightarrow> 'a list \<Rightarrow> 'a array \<Rightarrow> int \<Rightarrow> 'a array" where
  "scatter_partial_block ss ns q a p =
    (case (ss, ns) of ([sx], [nx]) \<Rightarrow> scatter_partial_1 q a p nx sx
     | ([sx, sy], [nx, ny]) \<Rightarrow> scatter_partial_2 q a p nx ny sx sy
     | ([sx, sy, sz], [nx, ny, nz]) \<Rightarrow> scatter_partial_3 q a p nx ny nz sx sy sz
     | ([sx, sy, sz, sw], [nx, ny, nz, nw]) \<Rightarrow> scatter_partial_4 q a p nx ny nz nw sx sy sz sw | _ \<Rightarrow> a)"

lemma four_Suc: "4 = Suc (Suc (Suc (Suc 0)))"
  by simp

lemma list_1_4_cases:
  assumes "1 \<le> length xs" "length xs \<le> 4"
  obtains (1) x where "xs = [x]" | (2) x y where "xs = [x, y]" | (3) x y z where "xs = [x, y, z]" | (4) x y z w where "xs = [x, y, z, w]"
proof -
  have "length xs = 1 \<or> length xs = 2 \<or> length xs = 3 \<or> length xs = 4" using assms by auto
  then show thesis using that by (auto simp: length_Suc_conv numeral_2_eq_2 numeral_3_eq_3 four_Suc)
qed

lemma gather_block_eq:
  assumes "1 \<le> length ss" "length ss \<le> 4" "length q = 4 ^ length ss"
  shows "gather_block ss q a p = map (\<lambda>xs. a (p + offset ss xs)) (box (replicate (length ss) 4))"
  using assms(1,2)
proof (cases rule: list_1_4_cases)
  case (1 x) then show ?thesis using assms(3) by (simp add: gather_block_def gather_1_eq)
next
  case (2 x y) then show ?thesis using assms(3) by (simp add: gather_block_def gather_2_eq)
next
  case (3 x y z) then show ?thesis using assms(3) by (simp add: gather_block_def gather_3_eq)
next
  case (4 x y z w) then show ?thesis using assms(3) by (simp add: gather_block_def gather_4_eq)
qed


definition block_sizes :: "int list \<Rightarrow> nat list \<Rightarrow> bool" where
  "block_sizes ss ns \<longleftrightarrow> length ns = length ss \<and> 1 \<le> length ss \<and> length ss \<le> 4 \<and> (\<forall>n \<in> set ns. 1 \<le> n \<and> n \<le> 4)"

lemma block_sizes_cases:
  assumes "block_sizes ss ns"
  obtains (1) x n where "ss = [x]" "ns = [n]"
    | (2) x y n m where "ss = [x, y]" "ns = [n, m]"
    | (3) x y z n m k where "ss = [x, y, z]" "ns = [n, m, k]"
    | (4) x y z w n m k j where "ss = [x, y, z, w]" "ns = [n, m, k, j]"
proof -
  have l: "length ns = length ss" "1 \<le> length ss" "length ss \<le> 4" using assms by (simp_all add: block_sizes_def)
  show thesis using l(2,3) by (cases rule: list_1_4_cases) (use l(1) that in \<open>auto simp: length_Suc_conv\<close>)
qed

lemma gather_partial_block_eq:
  assumes "block_sizes ss ns" "length q = 4 ^ length ss"
  shows "gather_partial_block ss ns q a p = map (\<lambda>xs. a (p + offset ss (map2 pad_index ns xs))) (box (replicate (length ss) 4))"
  using assms(1)
proof (cases rule: block_sizes_cases)
  case 1 then show ?thesis using assms by (simp add: gather_partial_block_def gather_partial_1_eq block_sizes_def)
next
  case 2 then show ?thesis using assms by (simp add: gather_partial_block_def gather_partial_2_eq block_sizes_def)
next
  case 3 then show ?thesis using assms by (simp add: gather_partial_block_def gather_partial_3_eq block_sizes_def)
next
  case 4 then show ?thesis using assms by (simp add: gather_partial_block_def gather_partial_4_eq block_sizes_def)
qed

lemma scatter_partial_block_eq:
  assumes "block_sizes ss ns"
  shows "scatter_partial_block ss ns q a p = store a (map (\<lambda>xs. (p + offset ss xs, q ! block_pos xs)) (box ns))"
  using assms
proof (cases rule: block_sizes_cases)
  case 1 then show ?thesis using assms by (simp add: scatter_partial_block_def scatter_partial_1_eq block_sizes_def)
next
  case 2 then show ?thesis using assms by (simp add: scatter_partial_block_def scatter_partial_2_eq block_sizes_def)
next
  case 3 then show ?thesis using assms by (simp add: scatter_partial_block_def scatter_partial_3_eq block_sizes_def)
next
  case 4 then show ?thesis using assms by (simp add: scatter_partial_block_def scatter_partial_4_eq block_sizes_def)
qed

lemma scatter_block_full:
  assumes "1 \<le> length ss" "length ss \<le> 4"
  shows "scatter_block ss q a p = scatter_partial_block ss (replicate (length ss) 4) q a p"
  using assms by (cases rule: list_1_4_cases) (simp_all add: scatter_block_def scatter_partial_block_def scatter_full)

lemma set_box: "xs \<in> set (box ns) \<longleftrightarrow> list_all2 (<) xs ns"
proof (induction ns arbitrary: xs)
  case (Cons n ns)
  then show ?case by (cases xs) (auto simp: image_iff)
qed simp

lemma distinct_box: "distinct (box ns)"
proof (induction ns)
  case (Cons n ns)
  have "distinct (concat (map (\<lambda>r. map (\<lambda>x. x # r) [0..<n]) rs))" if "distinct rs" for rs
    using that by (induction rs) (auto simp: distinct_map inj_on_def)
  then show ?case using Cons by simp
qed simp

lemma pad_index_id: "x < n \<Longrightarrow> pad_index n x = x"
  by (simp add: pad_index_def)

lemma map2_pad_index: "list_all2 (<) xs ns \<Longrightarrow> map2 pad_index ns xs = xs"
  by (induction xs ns rule: list_all2_induct) (simp_all add: pad_index_id)

text \<open>The value at position \<open>block_pos xs\<close> of a list over the box of a block.\<close>

lemma length_box: "length (box ns) = prod_list ns"
  by (induction ns) (simp_all add: length_concat comp_def sum_list_triv)

lemma nth_concat_rows:
  "(\<And>r. r \<in> set rs \<Longrightarrow> length (g r) = m) \<Longrightarrow> i < length rs \<Longrightarrow> x < m \<Longrightarrow> concat (map g rs) ! (x + m * i) = g (rs ! i) ! x"
proof (induction rs arbitrary: i)
  case (Cons r rs)
  then show ?case by (cases i) (auto simp: nth_append algebra_simps)
qed simp

lemma box_nth_pos: "list_all2 (<) xs (replicate d 4) \<Longrightarrow> block_pos xs < 4 ^ d \<and> box (replicate d 4) ! block_pos xs = xs"
proof (induction d arbitrary: xs)
  case (Suc d)
  then obtain x ys where xs: "xs = x # ys" "x < 4" "list_all2 (<) ys (replicate d 4)" by (cases xs) auto
  note IH = Suc.IH [OF xs(3)]
  have "box (replicate (Suc d) 4) ! (x + 4 * block_pos ys) = map (\<lambda>x. x # (box (replicate d 4) ! block_pos ys)) [0..<4] ! x"
    unfolding replicate_Suc box.simps
    by (rule nth_concat_rows) (use IH xs(2) in \<open>simp_all add: length_box\<close>)
  then show ?case using IH xs by simp
qed simp


section \<open>Properties\<close>

text \<open>Gathering a partial block. The value at each position of the block is the value of the user's array at the
  strided address of that position, where a position outside the array takes the value of the position that
  \<open>pad_index\<close> names: the last valid one, or the first one at the end of an axis. A block inside the array is gathered
  like a partial block that covers all of its axes.\<close>

theorem gather_partial_padding:
  assumes "block_sizes ss ns" "length q = 4 ^ length ss" "list_all2 (<) xs (replicate (length ss) 4)"
  shows "gather_partial_block ss ns q a p ! block_pos xs = a (p + offset ss (map2 pad_index ns xs))
    \<and> gather_block ss q a p = gather_partial_block ss (replicate (length ss) 4) q a p"
proof -
  let ?d = "length ss"
  note b = box_nth_pos [OF assms(3)]
  have l: "1 \<le> ?d" "?d \<le> 4" using assms(1) by (simp_all add: block_sizes_def)
  have f: "block_sizes ss (replicate ?d 4)" using l by (simp add: block_sizes_def)
  have "gather_block ss q a p = gather_partial_block ss (replicate ?d 4) q a p"
    unfolding gather_block_eq [OF l assms(2)] gather_partial_block_eq [OF f assms(2)]
    by (rule map_cong) (simp_all add: set_box map2_pad_index)
  then show ?thesis using b by (simp add: gather_partial_block_eq [OF assms(1,2)] length_box)
qed

theorem gather_partial_padding_witness:
  "gather_partial_2 (replicate 16 0) (\<lambda>i. i) 1000 3 2 1 10 ! 11 = 1010
    \<and> gather_2 (replicate 16 0) (\<lambda>i. i) 1000 1 10 = gather_partial_2 (replicate 16 0) (\<lambda>i. i) 1000 4 4 1 10"
  using gather_partial_padding [of "[1, 10]" "[3, 2]" "replicate 16 0" "[3, 2]" "\<lambda>i. i" 1000]
  by (simp add: block_sizes_def gather_partial_block_def gather_block_def pad_index_def)

text \<open>Scattering a decoded partial block writes exactly the elements inside the array: element \<open>xs\<close> gets the value
  at its position of the block, and no other address of the user's memory changes. The strides must
  not map two elements of the block to one address.\<close>

theorem scatter_partial_frame:
  assumes "block_sizes ss ns" "inj_on (offset ss) (set (box ns))"
  shows "scatter_partial_block ss ns q a p = (\<lambda>i. if i - p \<in> offset ss ` set (box ns)
      then q ! block_pos (the_inv_into (set (box ns)) (offset ss) (i - p)) else a i)"
proof
  fix i
  let ?ws = "map (\<lambda>xs. (p + offset ss xs, q ! block_pos xs)) (box ns)"
  note e = scatter_partial_block_eq [OF assms(1), of q a p]
  show "scatter_partial_block ss ns q a p i = (if i - p \<in> offset ss ` set (box ns)
      then q ! block_pos (the_inv_into (set (box ns)) (offset ss) (i - p)) else a i)"
  proof (cases "i - p \<in> offset ss ` set (box ns)")
    case True
    then obtain xs where xs: "xs \<in> set (box ns)" "i = p + offset ss xs" by force
    have "distinct (box ns)" by (rule distinct_box)
    then have "distinct (map fst ?ws)" using assms(2) by (auto simp: distinct_map comp_def inj_on_def)
    then have "store a ?ws i = q ! block_pos xs" by (rule store_hit) (use xs in auto)
    then show ?thesis using True xs assms(2) by (simp add: e the_inv_into_f_f)
  next
    case False
    then have "i \<notin> fst ` set ?ws" by force
    then show ?thesis using False by (simp add: e store_other)
  qed
qed

theorem scatter_partial_frame_witness:
  "scatter_partial_1 [5, 6, 7, 8] (\<lambda>_. 0) 100 2 3 = (\<lambda>i. if i = 100 then 5 else if i = 103 then 6 else (0 :: int))"
proof -
  let ?s = "[3] :: int list" and ?n = "[2] :: nat list"
  have b: "box ?n = [[0], [1]]" by (simp add: upt_rec)
  have inj: "inj_on (offset ?s) (set (box ?n))" unfolding b by (simp add: inj_on_def)
  have t: "the_inv_into (set (box ?n)) (offset ?s) (offset ?s xs) = xs" if "xs \<in> set (box ?n)" for xs
    using inj that by (rule the_inv_into_f_f)
  have "scatter_partial_block ?s ?n [5, 6, 7, 8] (\<lambda>_. 0) 100 = (\<lambda>i. if i - 100 \<in> offset ?s ` set (box ?n)
      then [5, 6, 7, 8] ! block_pos (the_inv_into (set (box ?n)) (offset ?s) (i - 100)) else (0 :: int))"
    by (rule scatter_partial_frame) (use inj in \<open>simp_all add: block_sizes_def\<close>)
  also have "\<dots> = (\<lambda>i. if i = 100 then 5 else if i = 103 then 6 else 0)"
    using t [of "[0]", unfolded b] t [of "[1]", unfolded b] unfolding b by (auto simp: fun_eq_iff)
  finally show ?thesis by (simp add: scatter_partial_block_def)
qed

text \<open>writing back a gathered block leaves the user's array as it was, for all strides, also those that alias
  elements.\<close>

theorem scatter_gather_partial:
  assumes "block_sizes ss ns" "length q = 4 ^ length ss"
  shows "scatter_partial_block ss ns (gather_partial_block ss ns q a p) a p = a"
proof -
  let ?d = "length ss"
  have w: "gather_partial_block ss ns q a p ! block_pos xs = a (p + offset ss xs)" if "xs \<in> set (box ns)" for xs
  proof -
    have x: "list_all2 (<) xs ns" using that by (simp add: set_box)
    then have "list_all2 (<) xs (replicate ?d 4)" using assms(1)
      by (auto simp: list_all2_conv_all_nth block_sizes_def) (metis less_le_trans nth_mem)
    note b = box_nth_pos [OF this]
    then show ?thesis using x by (simp add: gather_partial_block_eq [OF assms] length_box map2_pad_index)
  qed
  have "store a ws = a" if "\<forall>(i, v) \<in> set ws. v = a i" for ws using that
    by (induction ws) auto
  then show ?thesis unfolding scatter_partial_block_eq [OF assms(1)] using w by auto
qed

theorem scatter_gather_partial_witness:
  "scatter_partial_3 (gather_partial_3 (replicate 64 0) (\<lambda>i. i * i) 7 4 1 3 2 0 (- 5)) (\<lambda>i. i * i) 7 4 1 3 2 0 (- 5) = (\<lambda>i. i * i)"
  using scatter_gather_partial [of "[2, 0, - 5]" "[4, 1, 3]" "replicate 64 0" "\<lambda>i. i * i" 7]
  by (simp add: block_sizes_def scatter_partial_block_def gather_partial_block_def)

end
