(* ===== verification/Zfp_Field.thy ===== *)
theory Zfp_Field
  imports Strided
begin

text \<open>
  Uncompressed arrays: the record \<open>zfp_field\<close> of \<^verbatim>\<open>include/zfp.h\<close>, its functions in \<^verbatim>\<open>src/zfp.c\<close>, and the encoding of its
  type and dimensions in the 52-bit metadata of a header. Sizes and strides are unbounded
  numbers, so the products of sizes do not wrap around; the metadata is a 64-bit word. \<open>data\<close> is the
  address of the array, \<open>None\<close> for the null pointer. The functions that return a size and store further results
  through pointers return all of them.
\<close>

section \<open>Scalar types and fields\<close>

datatype zfp_type = zfp_type_none | zfp_type_int32 | zfp_type_int64 | zfp_type_float | zfp_type_double

definition type_code :: "zfp_type \<Rightarrow> nat" where
  "type_code t = (case t of zfp_type_none \<Rightarrow> 0 | zfp_type_int32 \<Rightarrow> 1 | zfp_type_int64 \<Rightarrow> 2 | zfp_type_float \<Rightarrow> 3 | zfp_type_double \<Rightarrow> 4)"

definition type_of_code :: "nat \<Rightarrow> zfp_type" where
  "type_of_code c = (if c = 1 then zfp_type_int32 else if c = 2 then zfp_type_int64 else if c = 3 then zfp_type_float
     else if c = 4 then zfp_type_double else zfp_type_none)"

record zfp_field =
  ftype :: zfp_type
  nx :: nat
  ny :: nat
  nz :: nat
  nw :: nat
  sx :: int
  sy :: int
  sz :: int
  sw :: int
  data :: "int option"

definition zfp_type_size :: "zfp_type \<Rightarrow> nat" where
  "zfp_type_size t =
    (case t of zfp_type_int32 \<Rightarrow> 4 | zfp_type_int64 \<Rightarrow> 8 | zfp_type_float \<Rightarrow> 4 | zfp_type_double \<Rightarrow> 8 | _ \<Rightarrow> 0)"

definition zfp_block_maximum_size :: "zfp_type \<Rightarrow> nat \<Rightarrow> bool \<Rightarrow> nat" where
  "zfp_block_maximum_size t dims reversible =
    (let size_table =
      [[[131, 527, 2111, 8447],
        [259, 1039, 4159, 16639],
        [140, 536, 2120, 8456],
        [271, 1051, 4171, 16651]],
       [[136, 532, 2116, 8452],
        [265, 1045, 4165, 16645],
        [146, 542, 2126, 8462],
        [278, 1058, 4178, 16658]]]
     in if \<not> (1 \<le> type_code t \<and> type_code t \<le> 4) \<or> \<not> (1 \<le> dims \<and> dims \<le> 4) then 0
        else size_table ! (if reversible then 1 else 0) ! (type_code t - 1) ! (dims - 1))"

definition zfp_field_alloc :: zfp_field where
  "zfp_field_alloc = \<lparr>ftype = zfp_type_none, nx = 0, ny = 0, nz = 0, nw = 0, sx = 0, sy = 0, sz = 0, sw = 0, data = None\<rparr>"

definition zfp_field_1d :: "int option \<Rightarrow> zfp_type \<Rightarrow> nat \<Rightarrow> zfp_field" where
  "zfp_field_1d p t x = zfp_field_alloc\<lparr>ftype := t, nx := x, data := p\<rparr>"

definition zfp_field_2d :: "int option \<Rightarrow> zfp_type \<Rightarrow> nat \<Rightarrow> nat \<Rightarrow> zfp_field" where
  "zfp_field_2d p t x y = zfp_field_alloc\<lparr>ftype := t, nx := x, ny := y, data := p\<rparr>"

definition zfp_field_3d :: "int option \<Rightarrow> zfp_type \<Rightarrow> nat \<Rightarrow> nat \<Rightarrow> nat \<Rightarrow> zfp_field" where
  "zfp_field_3d p t x y z = zfp_field_alloc\<lparr>ftype := t, nx := x, ny := y, nz := z, data := p\<rparr>"

definition zfp_field_4d :: "int option \<Rightarrow> zfp_type \<Rightarrow> nat \<Rightarrow> nat \<Rightarrow> nat \<Rightarrow> nat \<Rightarrow> zfp_field" where
  "zfp_field_4d p t x y z w = zfp_field_alloc\<lparr>ftype := t, nx := x, ny := y, nz := z, nw := w, data := p\<rparr>"

definition field_index_span :: "zfp_field \<Rightarrow> int \<times> int \<times> nat" where
  "field_index_span f =
    (let sx = (if sx f \<noteq> 0 then sx f else 1);
         sy = (if sy f \<noteq> 0 then sy f else int (nx f));
         sz = (if sz f \<noteq> 0 then sz f else int (nx f * ny f));
         sw = (if sw f \<noteq> 0 then sw f else int (nx f * ny f * nz f));
         dx = (if nx f \<noteq> 0 then sx * (int (nx f) - 1) else 0);
         dy = (if ny f \<noteq> 0 then sy * (int (ny f) - 1) else 0);
         dz = (if nz f \<noteq> 0 then sz * (int (nz f) - 1) else 0);
         dw = (if nw f \<noteq> 0 then sw * (int (nw f) - 1) else 0);
         imin = min dx 0 + min dy 0 + min dz 0 + min dw 0;
         imax = max dx 0 + max dy 0 + max dz 0 + max dw 0
     in (imin, imax, nat (imax - imin + 1)))"

definition zfp_field_pointer :: "zfp_field \<Rightarrow> int option" where
  "zfp_field_pointer f = data f"

definition zfp_field_begin :: "zfp_field \<Rightarrow> int option" where
  "zfp_field_begin f =
    (case data f of
       Some p \<Rightarrow> (let (imin, _, _) = field_index_span f in Some (p + imin * int (zfp_type_size (ftype f))))
     | None \<Rightarrow> None)"

definition zfp_field_type :: "zfp_field \<Rightarrow> zfp_type" where
  "zfp_field_type f = ftype f"

definition zfp_field_precision :: "zfp_field \<Rightarrow> nat" where
  "zfp_field_precision f = 8 * zfp_type_size (ftype f)"

definition zfp_field_dimensionality :: "zfp_field \<Rightarrow> nat" where
  "zfp_field_dimensionality f =
    (if nx f \<noteq> 0 then if ny f \<noteq> 0 then if nz f \<noteq> 0 then if nw f \<noteq> 0 then 4 else 3 else 2 else 1 else 0)"

definition zfp_field_size :: "zfp_field \<Rightarrow> nat list \<times> nat" where
  "zfp_field_size f =
    (take (zfp_field_dimensionality f) [nx f, ny f, nz f, nw f],
     max (nx f) 1 * max (ny f) 1 * max (nz f) 1 * max (nw f) 1)"

definition zfp_field_size_bytes :: "zfp_field \<Rightarrow> nat" where
  "zfp_field_size_bytes f = snd (snd (field_index_span f)) * zfp_type_size (ftype f)"

definition zfp_field_blocks :: "zfp_field \<Rightarrow> nat" where
  "zfp_field_blocks f =
    (let bx = (nx f + 3) div 4; by = (ny f + 3) div 4; bz = (nz f + 3) div 4; bw = (nw f + 3) div 4;
         d = zfp_field_dimensionality f
     in if d = 1 then bx else if d = 2 then bx * by else if d = 3 then bx * by * bz else if d = 4 then bx * by * bz * bw else 0)"

definition zfp_field_stride :: "zfp_field \<Rightarrow> int list \<times> bool" where
  "zfp_field_stride f =
    (take (zfp_field_dimensionality f)
       [if sx f \<noteq> 0 then sx f else 1,
        if sy f \<noteq> 0 then sy f else int (nx f),
        if sz f \<noteq> 0 then sz f else int (nx f * ny f),
        if sw f \<noteq> 0 then sw f else int (nx f * ny f * nz f)],
     sx f \<noteq> 0 \<or> sy f \<noteq> 0 \<or> sz f \<noteq> 0 \<or> sw f \<noteq> 0)"

definition zfp_field_is_contiguous :: "zfp_field \<Rightarrow> bool" where
  "zfp_field_is_contiguous f \<longleftrightarrow> snd (snd (field_index_span f)) = snd (zfp_field_size f)"

section \<open>Metadata\<close>

definition ZFP_META_NULL :: uint64 where "ZFP_META_NULL = - 1"
definition ZFP_META_BITS :: nat where "ZFP_META_BITS = 52"

definition zfp_field_metadata :: "zfp_field \<Rightarrow> uint64" where
  "zfp_field_metadata f =
    (let d = zfp_field_dimensionality f;
         x = of_nat (nx f) - 1; y = of_nat (ny f) - 1; z = of_nat (nz f) - 1; w = of_nat (nw f) - 1;
         finish = (\<lambda>meta.
           let meta = push_bit 2 meta + ucast (of_nat d - 1 :: uint32);
               meta = push_bit 2 meta + ucast (of_nat (type_code (ftype f)) - 1 :: uint32)
           in meta)
     in if d = 1 then
          if drop_bit 48 x \<noteq> 0 then ZFP_META_NULL
          else finish (push_bit 48 0 + x)
        else if d = 2 then
          if drop_bit 24 x \<noteq> 0 \<or> drop_bit 24 y \<noteq> 0 then ZFP_META_NULL
          else finish (push_bit 24 (push_bit 24 0 + y) + x)
        else if d = 3 then
          if drop_bit 16 x \<noteq> 0 \<or> drop_bit 16 y \<noteq> 0 \<or> drop_bit 16 z \<noteq> 0 then ZFP_META_NULL
          else finish (push_bit 16 (push_bit 16 (push_bit 16 0 + z) + y) + x)
        else if d = 4 then
          if drop_bit 12 x \<noteq> 0 \<or> drop_bit 12 y \<noteq> 0 \<or> drop_bit 12 z \<noteq> 0 \<or> drop_bit 12 w \<noteq> 0 then ZFP_META_NULL
          else finish (push_bit 12 (push_bit 12 (push_bit 12 (push_bit 12 0 + w) + z) + y) + x)
        else finish 0)"

definition zfp_field_set_pointer :: "zfp_field \<Rightarrow> int option \<Rightarrow> zfp_field" where
  "zfp_field_set_pointer f p = f\<lparr>data := p\<rparr>"

definition zfp_field_set_type :: "zfp_field \<Rightarrow> zfp_type \<Rightarrow> zfp_type \<times> zfp_field" where
  "zfp_field_set_type f t = (case t of zfp_type_none \<Rightarrow> (zfp_type_none, f) | _ \<Rightarrow> (t, f\<lparr>ftype := t\<rparr>))"

definition zfp_field_set_size_1d :: "zfp_field \<Rightarrow> nat \<Rightarrow> zfp_field" where
  "zfp_field_set_size_1d f n = f\<lparr>nx := n, ny := 0, nz := 0, nw := 0\<rparr>"

definition zfp_field_set_size_2d :: "zfp_field \<Rightarrow> nat \<Rightarrow> nat \<Rightarrow> zfp_field" where
  "zfp_field_set_size_2d f x y = f\<lparr>nx := x, ny := y, nz := 0, nw := 0\<rparr>"

definition zfp_field_set_size_3d :: "zfp_field \<Rightarrow> nat \<Rightarrow> nat \<Rightarrow> nat \<Rightarrow> zfp_field" where
  "zfp_field_set_size_3d f x y z = f\<lparr>nx := x, ny := y, nz := z, nw := 0\<rparr>"

definition zfp_field_set_size_4d :: "zfp_field \<Rightarrow> nat \<Rightarrow> nat \<Rightarrow> nat \<Rightarrow> nat \<Rightarrow> zfp_field" where
  "zfp_field_set_size_4d f x y z w = f\<lparr>nx := x, ny := y, nz := z, nw := w\<rparr>"

definition zfp_field_set_stride_1d :: "zfp_field \<Rightarrow> int \<Rightarrow> zfp_field" where
  "zfp_field_set_stride_1d f x = f\<lparr>sx := x, sy := 0, sz := 0, sw := 0\<rparr>"

definition zfp_field_set_stride_2d :: "zfp_field \<Rightarrow> int \<Rightarrow> int \<Rightarrow> zfp_field" where
  "zfp_field_set_stride_2d f x y = f\<lparr>sx := x, sy := y, sz := 0, sw := 0\<rparr>"

definition zfp_field_set_stride_3d :: "zfp_field \<Rightarrow> int \<Rightarrow> int \<Rightarrow> int \<Rightarrow> zfp_field" where
  "zfp_field_set_stride_3d f x y z = f\<lparr>sx := x, sy := y, sz := z, sw := 0\<rparr>"

definition zfp_field_set_stride_4d :: "zfp_field \<Rightarrow> int \<Rightarrow> int \<Rightarrow> int \<Rightarrow> int \<Rightarrow> zfp_field" where
  "zfp_field_set_stride_4d f x y z w = f\<lparr>sx := x, sy := y, sz := z, sw := w\<rparr>"

definition zfp_field_set_metadata :: "zfp_field \<Rightarrow> uint64 \<Rightarrow> bool \<times> zfp_field" where
  "zfp_field_set_metadata f meta =
    (if drop_bit ZFP_META_BITS meta \<noteq> 0 then (False, f)
     else
       let f = f\<lparr>ftype := type_of_code (unat ((meta AND 0x3) + 1))\<rparr>; meta = drop_bit 2 meta;
           dims = (meta AND 0x3) + 1; meta = drop_bit 2 meta;
           f = (if dims = 1 then
                  f\<lparr>nx := unat (meta AND 0x0000ffffffff) + 1, ny := 0, nz := 0, nw := 0\<rparr>
                else if dims = 2 then
                  let x = unat (meta AND 0xffffff) + 1; meta = drop_bit 24 meta;
                      y = unat (meta AND 0xffffff) + 1
                  in f\<lparr>nx := x, ny := y, nz := 0, nw := 0\<rparr>
                else if dims = 3 then
                  let x = unat (meta AND 0xffff) + 1; meta = drop_bit 16 meta;
                      y = unat (meta AND 0xffff) + 1; meta = drop_bit 16 meta;
                      z = unat (meta AND 0xffff) + 1
                  in f\<lparr>nx := x, ny := y, nz := z, nw := 0\<rparr>
                else
                  let x = unat (meta AND 0xfff) + 1; meta = drop_bit 12 meta;
                      y = unat (meta AND 0xfff) + 1; meta = drop_bit 12 meta;
                      z = unat (meta AND 0xfff) + 1; meta = drop_bit 12 meta;
                      w = unat (meta AND 0xfff) + 1
                  in f\<lparr>nx := x, ny := y, nz := z, nw := w\<rparr>)
       in (True, f\<lparr>sx := 0, sy := 0, sz := 0, sw := 0\<rparr>))"

section \<open>Fields of bits in a word\<close>

text \<open>Shifting in a value of at most \<open>k\<close> bits and taking it out again.\<close>

lemma shift_in:
  fixes m v :: uint64
  assumes "unat v < 2 ^ k" "unat m < 2 ^ (64 - k)" "k \<le> 64"
  shows "unat (push_bit k m + v) = unat m * 2 ^ k + unat v"
proof -
  have "unat m * 2 ^ k + unat v < 2 ^ (64 - k) * 2 ^ k"
    using split_less_iff [OF assms(1), of 0 "unat m" "2 ^ (64 - k)"] assms(2) by simp
  then have l: "unat m * 2 ^ k + unat v < 2 ^ 64" using assms(3) by (simp add: power_add [symmetric])
  have "push_bit k m + v = of_nat (unat m * 2 ^ k + unat v)"
    by (simp add: push_bit_eq_mult)
  then show ?thesis using l by (simp only: unat_of_nat) simp
qed

lemma unat_mask_field: "unat (m AND mask k) = unat m mod 2 ^ k" for m :: uint64
  unfolding take_bit_eq_mask [symmetric] unsigned_take_bit_eq by (rule take_bit_eq_mod)

lemma unat_drop_field: "unat (drop_bit k m) = unat m div 2 ^ k" for m :: uint64
  unfolding unat_drop_bit_eq by (rule drop_bit_eq_div)

lemma field_masks:
  "(0x3 :: uint64) = mask 2" "(0x0000ffffffff :: uint64) = mask 32" "(0xffffff :: uint64) = mask 24"
  "(0xffff :: uint64) = mask 16" "(0xfff :: uint64) = mask 12"
  by (simp_all add: mask_eq_decr_exp)

lemma drop_bit_zero: "drop_bit k m = 0 \<longleftrightarrow> unat m < 2 ^ k" for m :: uint64
  by (simp add: unat_eq_zero [symmetric] unat_drop_field div_eq_0_iff)

lemma unat_pred: "0 < n \<Longrightarrow> n < 2 ^ 64 \<Longrightarrow> unat (of_nat n - 1 :: uint64) = n - 1"
proof -
  assume n: "0 < n" "n < 2 ^ 64"
  then have "of_nat n - 1 = (of_nat (n - 1) :: uint64)" by (simp add: of_nat_diff)
  then show ?thesis using n by (simp only: unat_of_nat) simp
qed

definition valid_field :: "zfp_field \<Rightarrow> bool" where
  "valid_field f \<longleftrightarrow> ftype f \<noteq> zfp_type_none \<and> 0 < nx f \<and>
    (nz f \<noteq> 0 \<longrightarrow> ny f \<noteq> 0) \<and> (nw f \<noteq> 0 \<longrightarrow> nz f \<noteq> 0) \<and>
    nx f < 2 ^ 64 \<and> ny f < 2 ^ 64 \<and> nz f < 2 ^ 64 \<and> nw f < 2 ^ 64"

definition meta_fits :: "zfp_field \<Rightarrow> bool" where
  "meta_fits f \<longleftrightarrow>
    (let d = zfp_field_dimensionality f; k = (if d = 1 then 48 else if d = 2 then 24 else if d = 3 then 16 else 12 :: nat)
     in nx f \<le> 2 ^ k \<and> ny f \<le> 2 ^ k \<and> nz f \<le> 2 ^ k \<and> nw f \<le> 2 ^ k)"

definition meta_code :: "zfp_field \<Rightarrow> nat" where
  "meta_code f = (let d = zfp_field_dimensionality f;
      dims = (if d = 1 then nx f - 1
        else if d = 2 then (ny f - 1) * 2 ^ 24 + (nx f - 1)
        else if d = 3 then ((nz f - 1) * 2 ^ 16 + (ny f - 1)) * 2 ^ 16 + (nx f - 1)
        else (((nw f - 1) * 2 ^ 12 + (nz f - 1)) * 2 ^ 12 + (ny f - 1)) * 2 ^ 12 + (nx f - 1))
    in (dims * 4 + (d - 1)) * 4 + (type_code (ftype f) - 1))"


lemma dimensionality_cases:
  assumes "valid_field f"
  obtains "zfp_field_dimensionality f = 1" "ny f = 0" "nz f = 0" "nw f = 0"
    | "zfp_field_dimensionality f = 2" "0 < ny f" "nz f = 0" "nw f = 0"
    | "zfp_field_dimensionality f = 3" "0 < ny f" "0 < nz f" "nw f = 0"
    | "zfp_field_dimensionality f = 4" "0 < ny f" "0 < nz f" "0 < nw f"
  using assms by (auto simp: valid_field_def zfp_field_dimensionality_def split: if_splits)

lemma type_code_range: "ftype f \<noteq> zfp_type_none \<Longrightarrow> 1 \<le> type_code (ftype f) \<and> type_code (ftype f) \<le> 4 \<and> type_of_code (type_code (ftype f)) = ftype f"
  by (cases "ftype f") (simp_all add: type_code_def type_of_code_def)

lemma unat_of_small: "n < 2 ^ 64 \<Longrightarrow> unat (of_nat n :: uint64) = n"
  by (simp only: unat_of_nat) simp

lemma small_pred: "1 \<le> n \<Longrightarrow> n \<le> 4 \<Longrightarrow> unat (ucast (of_nat n - 1 :: uint32) :: uint64) = n - 1"
proof -
  assume "1 \<le> n" "n \<le> 4"
  then have "n = 1 \<or> n = 2 \<or> n = 3 \<or> n = 4" by auto
  then show ?thesis by (elim disjE) simp_all
qed

lemma metadata_finish:
  fixes m :: uint64
  assumes "unat m < 2 ^ 48" "1 \<le> d" "d \<le> 4" "1 \<le> t" "t \<le> 4"
  shows "unat (push_bit 2 (push_bit 2 m + ucast (of_nat d - 1 :: uint32)) + ucast (of_nat t - 1 :: uint32)) = (unat m * 4 + (d - 1)) * 4 + (t - 1)"
proof -
  note u = small_pred [OF assms(2,3)] small_pred [OF assms(4,5)]
  have 1: "unat (push_bit 2 m + ucast (of_nat d - 1 :: uint32)) = unat m * 2 ^ 2 + (d - 1)"
    unfolding u(1) [symmetric] by (rule shift_in) (use assms u in simp_all)
  have "unat (push_bit 2 (push_bit 2 m + ucast (of_nat d - 1 :: uint32)) + ucast (of_nat t - 1 :: uint32)) =
      (unat m * 2 ^ 2 + (d - 1)) * 2 ^ 2 + (t - 1)"
    unfolding 1 [symmetric] u(2) [symmetric]
    by (rule shift_in) (use assms 1 u in simp_all)
  then show ?thesis by simp
qed

lemma pack_fields:
  fixes x y z w :: uint64
  shows "unat x < 2 ^ 24 \<Longrightarrow> unat y < 2 ^ 24 \<Longrightarrow> unat (push_bit 24 y + x) = unat y * 2 ^ 24 + unat x"
    and "unat x < 2 ^ 16 \<Longrightarrow> unat y < 2 ^ 16 \<Longrightarrow> unat z < 2 ^ 16 \<Longrightarrow>
      unat (push_bit 16 (push_bit 16 z + y) + x) = (unat z * 2 ^ 16 + unat y) * 2 ^ 16 + unat x"
    and "unat x < 2 ^ 12 \<Longrightarrow> unat y < 2 ^ 12 \<Longrightarrow> unat z < 2 ^ 12 \<Longrightarrow> unat w < 2 ^ 12 \<Longrightarrow>
      unat (push_bit 12 (push_bit 12 (push_bit 12 w + z) + y) + x) = ((unat w * 2 ^ 12 + unat z) * 2 ^ 12 + unat y) * 2 ^ 12 + unat x"
proof -
  show "unat (push_bit 24 y + x) = unat y * 2 ^ 24 + unat x" if "unat x < 2 ^ 24" "unat y < 2 ^ 24"
    using that by (intro shift_in) simp_all
  show "unat (push_bit 16 (push_bit 16 z + y) + x) = (unat z * 2 ^ 16 + unat y) * 2 ^ 16 + unat x"
    if "unat x < 2 ^ 16" "unat y < 2 ^ 16" "unat z < 2 ^ 16"
  proof -
    have "unat (push_bit 16 z + y) = unat z * 2 ^ 16 + unat y" using that by (intro shift_in) simp_all
    then show ?thesis using that by (subst shift_in) simp_all
  qed
  show "unat (push_bit 12 (push_bit 12 (push_bit 12 w + z) + y) + x) = ((unat w * 2 ^ 12 + unat z) * 2 ^ 12 + unat y) * 2 ^ 12 + unat x"
    if "unat x < 2 ^ 12" "unat y < 2 ^ 12" "unat z < 2 ^ 12" "unat w < 2 ^ 12"
  proof -
    have 1: "unat (push_bit 12 w + z) = unat w * 2 ^ 12 + unat z" using that by (intro shift_in) simp_all
    then have "unat (push_bit 12 (push_bit 12 w + z) + y) = (unat w * 2 ^ 12 + unat z) * 2 ^ 12 + unat y"
      using that by (subst shift_in) simp_all
    then show ?thesis using that by (subst shift_in) simp_all
  qed
qed

text \<open>The metadata of a field whose dimensions fit, as a number.\<close>

lemma zfp_field_metadata_code:
  assumes v: "valid_field f" and fits: "meta_fits f"
  shows "unat (zfp_field_metadata f) = meta_code f \<and> meta_code f < 2 ^ 52"
proof -
  have t: "1 \<le> type_code (ftype f)" "type_code (ftype f) \<le> 4" using type_code_range v by (auto simp: valid_field_def)
  let ?d = "zfp_field_dimensionality f"
  let ?meta = "\<lambda>P :: uint64. push_bit 2 (push_bit 2 P + ucast (of_nat ?d - 1 :: uint32)) + ucast (of_nat (type_code (ftype f)) - 1 :: uint32)"
  let ?x = "of_nat (nx f) - 1 :: uint64" and ?y = "of_nat (ny f) - 1 :: uint64" and ?z = "of_nat (nz f) - 1 :: uint64" and ?w = "of_nat (nw f) - 1 :: uint64"
  have fin: ?thesis if "zfp_field_metadata f = ?meta P" "unat P < 2 ^ 48" "1 \<le> ?d" "?d \<le> 4"
      "meta_code f = (unat P * 4 + (?d - 1)) * 4 + (type_code (ftype f) - 1)" for P
    using metadata_finish [OF that(2-4) t] that t by simp
  have x: "unat ?x = nx f - 1" using v by (intro unat_pred) (auto simp: valid_field_def)
  show ?thesis
  proof (cases rule: dimensionality_cases [OF v])
    case 1
    have "nx f \<le> 2 ^ 48" using fits 1 by (simp add: meta_fits_def)
    then have b: "unat ?x < 2 ^ 48" using x v by (simp add: valid_field_def)
    show ?thesis
    proof (rule fin)
      show "zfp_field_metadata f = ?meta ?x" using b 1 by (simp add: zfp_field_metadata_def drop_bit_zero Let_def)
      show "meta_code f = (unat ?x * 4 + (?d - 1)) * 4 + (type_code (ftype f) - 1)" by (simp add: meta_code_def x 1)
    qed (use b 1 in simp_all)
  next
    case 2
    have le: "nx f \<le> 2 ^ 24" "ny f \<le> 2 ^ 24" using fits 2 by (simp_all add: meta_fits_def Let_def)
    have y: "unat ?y = ny f - 1" using v 2 by (intro unat_pred) (auto simp: valid_field_def)
    have b: "unat ?x < 2 ^ 24" "unat ?y < 2 ^ 24" using le x y v 2 by (simp_all add: valid_field_def)
    note p = pack_fields(1) [OF b]
    show ?thesis
    proof (rule fin)
      show "zfp_field_metadata f = ?meta (push_bit 24 ?y + ?x)" using b 2 by (simp add: zfp_field_metadata_def drop_bit_zero Let_def)
      show "meta_code f = (unat (push_bit 24 ?y + ?x) * 4 + (?d - 1)) * 4 + (type_code (ftype f) - 1)"
        unfolding p x y meta_code_def Let_def by (simp only: 2) simp
      show "unat (push_bit 24 ?y + ?x) < 2 ^ 48" unfolding p using b by simp
    qed (use 2 in simp_all)
  next
    case 3
    have le: "nx f \<le> 2 ^ 16" "ny f \<le> 2 ^ 16" "nz f \<le> 2 ^ 16" using fits 3 by (simp_all add: meta_fits_def Let_def)
    have y: "unat ?y = ny f - 1" "unat ?z = nz f - 1" using v 3 unat_pred [of "ny f"] unat_pred [of "nz f"] by (simp_all add: valid_field_def)
    have b: "unat ?x < 2 ^ 16" "unat ?y < 2 ^ 16" "unat ?z < 2 ^ 16" using le x y v 3 by (simp_all add: valid_field_def)
    note p = pack_fields(2) [OF b]
    let ?P = "push_bit 16 (push_bit 16 ?z + ?y) + ?x"
    show ?thesis
    proof (rule fin)
      show "zfp_field_metadata f = ?meta ?P" using b 3 by (simp add: zfp_field_metadata_def drop_bit_zero Let_def)
      show "meta_code f = (unat ?P * 4 + (?d - 1)) * 4 + (type_code (ftype f) - 1)"
        unfolding p x y meta_code_def Let_def by (simp only: 3) simp
      show "unat ?P < 2 ^ 48" unfolding p using b by simp
    qed (use 3 in simp_all)
  next
    case 4
    have le: "nx f \<le> 2 ^ 12" "ny f \<le> 2 ^ 12" "nz f \<le> 2 ^ 12" "nw f \<le> 2 ^ 12"
      using fits 4 by (simp_all add: meta_fits_def Let_def)
    have y: "unat ?y = ny f - 1" "unat ?z = nz f - 1" "unat ?w = nw f - 1"
      using v 4 unat_pred [of "ny f"] unat_pred [of "nz f"] unat_pred [of "nw f"] by (simp_all add: valid_field_def)
    have b: "unat ?x < 2 ^ 12" "unat ?y < 2 ^ 12" "unat ?z < 2 ^ 12" "unat ?w < 2 ^ 12" using le x y v 4 by (simp_all add: valid_field_def)
    note p = pack_fields(3) [OF b]
    let ?P = "push_bit 12 (push_bit 12 (push_bit 12 ?w + ?z) + ?y) + ?x"
    show ?thesis
    proof (rule fin)
      show "zfp_field_metadata f = ?meta ?P" using b 4 by (simp add: zfp_field_metadata_def drop_bit_zero Let_def)
      show "meta_code f = (unat ?P * 4 + (?d - 1)) * 4 + (type_code (ftype f) - 1)"
        unfolding p x y meta_code_def Let_def by (simp only: 4) simp
      show "unat ?P < 2 ^ 48" unfolding p using b by simp
    qed (use 4 in simp_all)
  qed
qed

text \<open>Reading the metadata back from its number.\<close>

lemma set_metadata_unat:
  assumes "unat m < 2 ^ 52"
  shows "zfp_field_set_metadata g m =
    (True,
     (let k = unat m; t = type_of_code (k mod 4 + 1); d = k div 4 mod 4; n = k div 16
      in if d = 0 then g\<lparr>ftype := t, nx := n mod 2 ^ 32 + 1, ny := 0, nz := 0, nw := 0, sx := 0, sy := 0, sz := 0, sw := 0\<rparr>
         else if d = 1 then g\<lparr>ftype := t, nx := n mod 2 ^ 24 + 1, ny := n div 2 ^ 24 mod 2 ^ 24 + 1, nz := 0, nw := 0, sx := 0, sy := 0, sz := 0, sw := 0\<rparr>
         else if d = 2 then g\<lparr>ftype := t, nx := n mod 2 ^ 16 + 1, ny := n div 2 ^ 16 mod 2 ^ 16 + 1, nz := n div 2 ^ 32 mod 2 ^ 16 + 1, nw := 0, sx := 0, sy := 0, sz := 0, sw := 0\<rparr>
         else g\<lparr>ftype := t, nx := n mod 2 ^ 12 + 1, ny := n div 2 ^ 12 mod 2 ^ 12 + 1, nz := n div 2 ^ 24 mod 2 ^ 12 + 1, nw := n div 2 ^ 36 mod 2 ^ 12 + 1, sx := 0, sy := 0, sz := 0, sw := 0\<rparr>))"
proof -
  have s: "unat ((v AND mask 2) + 1) = unat v mod 4 + 1" for v :: uint64
  proof -
    have u: "unat (v AND mask 2) = unat v mod 4" by (simp add: unat_mask_field)
    have "unat v mod 4 < 4" by simp
    then have "unat v mod 4 + 1 < 2 ^ 64" by simp
    then show ?thesis unfolding unat_word_ariths(1) u by simp
  qed
  have d: "(drop_bit 2 m AND mask 2) + 1 = 1 \<longleftrightarrow> unat m div 4 mod 4 = 0" "(drop_bit 2 m AND mask 2) + 1 = 2 \<longleftrightarrow> unat m div 4 mod 4 = 1"
    "(drop_bit 2 m AND mask 2) + 1 = mask 2 \<longleftrightarrow> unat m div 4 mod 4 = 2"
    unfolding word_unat_eq_iff s unat_drop_field by (simp_all add: mask_eq_decr_exp)
  have n: "drop_bit ZFP_META_BITS m = 0" using assms by (simp add: drop_bit_zero ZFP_META_BITS_def)
  show ?thesis
    unfolding zfp_field_set_metadata_def field_masks Let_def d s unat_mask_field unat_drop_field
    using n by (simp add: div_mult2_eq [symmetric])
qed


lemma metadata_parts:
  assumes v: "valid_field f" and "k = meta_code f"
  shows "type_of_code (k mod 4 + 1) = ftype f" "k div 4 mod 4 = zfp_field_dimensionality f - 1"
    "k div 16 = (let d = zfp_field_dimensionality f in if d = 1 then nx f - 1
        else if d = 2 then (ny f - 1) * 2 ^ 24 + (nx f - 1)
        else if d = 3 then ((nz f - 1) * 2 ^ 16 + (ny f - 1)) * 2 ^ 16 + (nx f - 1)
        else (((nw f - 1) * 2 ^ 12 + (nz f - 1)) * 2 ^ 12 + (ny f - 1)) * 2 ^ 12 + (nx f - 1))" (is "_ = ?n")
proof -
  let ?t = "type_code (ftype f) - 1" and ?d = "zfp_field_dimensionality f - 1"
  have t: "?t < 4" "type_of_code (?t + 1) = ftype f" using type_code_range [of f] v by (auto simp: valid_field_def)
  have d: "?d < 4" by (simp add: zfp_field_dimensionality_def)
  have k: "k = (?n * 4 + ?d) * 4 + ?t" using assms(2) by (simp add: meta_code_def Let_def)
  have 1: "k mod 4 = ?t" "k div 4 = ?n * 4 + ?d" unfolding k by (rule mod_word [OF t(1)], rule div_word [OF t(1)])
  then show "type_of_code (k mod 4 + 1) = ftype f" using t(2) by simp
  show "k div 4 mod 4 = ?d" unfolding 1 by (rule mod_word [OF d])
  have "k div 16 = k div 4 div 4" by (simp add: div_mult2_eq [symmetric])
  also have "\<dots> = ?n" unfolding 1 by (rule div_word [OF d])
  finally show "k div 16 = ?n" .
qed

lemma unpack_fields:
  fixes x y z w :: nat
  shows "x < 2 ^ 24 \<Longrightarrow> (y * 2 ^ 24 + x) mod 2 ^ 24 = x \<and> (y * 2 ^ 24 + x) div 2 ^ 24 = y"
    and "x < 2 ^ 16 \<Longrightarrow> y < 2 ^ 16 \<Longrightarrow> ((z * 2 ^ 16 + y) * 2 ^ 16 + x) mod 2 ^ 16 = x
      \<and> ((z * 2 ^ 16 + y) * 2 ^ 16 + x) div 2 ^ 16 mod 2 ^ 16 = y \<and> ((z * 2 ^ 16 + y) * 2 ^ 16 + x) div 2 ^ 32 = z"
    and "x < 2 ^ 12 \<Longrightarrow> y < 2 ^ 12 \<Longrightarrow> z < 2 ^ 12 \<Longrightarrow> (((w * 2 ^ 12 + z) * 2 ^ 12 + y) * 2 ^ 12 + x) mod 2 ^ 12 = x
      \<and> (((w * 2 ^ 12 + z) * 2 ^ 12 + y) * 2 ^ 12 + x) div 2 ^ 12 mod 2 ^ 12 = y
      \<and> (((w * 2 ^ 12 + z) * 2 ^ 12 + y) * 2 ^ 12 + x) div 2 ^ 24 mod 2 ^ 12 = z
      \<and> (((w * 2 ^ 12 + z) * 2 ^ 12 + y) * 2 ^ 12 + x) div 2 ^ 36 = w"
proof -
  have c: "k div 2 ^ 32 = k div 2 ^ 16 div 2 ^ 16" "k div 2 ^ 24 = k div 2 ^ 12 div 2 ^ 12" "k div 2 ^ 36 = k div 2 ^ 12 div 2 ^ 12 div 2 ^ 12" for k :: nat
    by (simp_all add: div_mult2_eq [symmetric])
  show "(y * 2 ^ 24 + x) mod 2 ^ 24 = x \<and> (y * 2 ^ 24 + x) div 2 ^ 24 = y" if "x < 2 ^ 24"
    using mod_word [OF that] div_word [OF that] by blast
  show "((z * 2 ^ 16 + y) * 2 ^ 16 + x) mod 2 ^ 16 = x
      \<and> ((z * 2 ^ 16 + y) * 2 ^ 16 + x) div 2 ^ 16 mod 2 ^ 16 = y \<and> ((z * 2 ^ 16 + y) * 2 ^ 16 + x) div 2 ^ 32 = z"
    if "x < 2 ^ 16" "y < 2 ^ 16" unfolding c mod_word [OF that(1)] div_word [OF that(1)] mod_word [OF that(2)] div_word [OF that(2)] by blast
  show "(((w * 2 ^ 12 + z) * 2 ^ 12 + y) * 2 ^ 12 + x) mod 2 ^ 12 = x
      \<and> (((w * 2 ^ 12 + z) * 2 ^ 12 + y) * 2 ^ 12 + x) div 2 ^ 12 mod 2 ^ 12 = y
      \<and> (((w * 2 ^ 12 + z) * 2 ^ 12 + y) * 2 ^ 12 + x) div 2 ^ 24 mod 2 ^ 12 = z
      \<and> (((w * 2 ^ 12 + z) * 2 ^ 12 + y) * 2 ^ 12 + x) div 2 ^ 36 = w"
    if "x < 2 ^ 12" "y < 2 ^ 12" "z < 2 ^ 12"
    unfolding c mod_word [OF that(1)] div_word [OF that(1)] mod_word [OF that(2)] div_word [OF that(2)] mod_word [OF that(3)] div_word [OF that(3)] by blast
qed

text \<open>What reading back the metadata of a field yields.\<close>

lemma set_metadata_of_field:
  assumes v: "valid_field f" and fits: "meta_fits f"
  shows "zfp_field_set_metadata g (zfp_field_metadata f) =
    (True, g\<lparr>ftype := ftype f,
       nx := (if zfp_field_dimensionality f = 1 then (nx f - 1) mod 2 ^ 32 + 1 else nx f),
       ny := ny f, nz := nz f, nw := nw f, sx := 0, sy := 0, sz := 0, sw := 0\<rparr>)"
proof -
  let ?m = "zfp_field_metadata f"
  have k: "unat ?m = meta_code f" and b: "unat ?m < 2 ^ 52" using zfp_field_metadata_code [OF assms] by simp_all
  note p = metadata_parts [OF v k]
  have pos: "0 < nx f" using v by (simp add: valid_field_def)
  have le: "n - 1 < 2 ^ k" if "n \<le> 2 ^ k" "0 < n" for n k :: nat using that by linarith
  show ?thesis
  proof (cases rule: dimensionality_cases [OF v])
    case 1
    then show ?thesis unfolding set_metadata_unat [OF b] Let_def p by simp
  next
    case 2
    have "nx f - 1 < 2 ^ 24" "ny f - 1 < 2 ^ 24" using fits 2 pos by (auto simp: meta_fits_def Let_def intro!: le)
    then show ?thesis using unpack_fields(1) [of "nx f - 1" "ny f - 1"] 2 pos unfolding set_metadata_unat [OF b] Let_def p by simp
  next
    case 3
    have "nx f - 1 < 2 ^ 16" "ny f - 1 < 2 ^ 16" "nz f - 1 < 2 ^ 16" using fits 3 pos by (auto simp: meta_fits_def Let_def intro!: le)
    then show ?thesis using unpack_fields(2) [of "nx f - 1" "ny f - 1" "nz f - 1"] 3 pos unfolding set_metadata_unat [OF b] Let_def p by simp
  next
    case 4
    have "nx f - 1 < 2 ^ 12" "ny f - 1 < 2 ^ 12" "nz f - 1 < 2 ^ 12" "nw f - 1 < 2 ^ 12" using fits 4 pos by (auto simp: meta_fits_def Let_def intro!: le)
    then show ?thesis using unpack_fields(3) [of "nx f - 1" "ny f - 1" "nz f - 1" "nw f - 1"] 4 pos unfolding set_metadata_unat [OF b] Let_def p by simp
  qed
qed

section \<open>Properties\<close>

lemma metadata_too_big:
  assumes v: "valid_field f" and big: "\<not> meta_fits f"
  shows "zfp_field_metadata f = ZFP_META_NULL"
proof -
  have big': "drop_bit k (of_nat n - 1 :: uint64) \<noteq> 0" if "0 < n" "n < 2 ^ 64" "\<not> n \<le> 2 ^ k" for n k :: nat
    using that by (simp add: drop_bit_zero unat_pred del: of_nat_1)
  show ?thesis
  proof (cases rule: dimensionality_cases [OF v])
    case 1
    then have "drop_bit 48 (of_nat (nx f) - 1 :: uint64) \<noteq> 0"
      using big v big' [of "nx f" 48] by (auto simp: meta_fits_def valid_field_def)
    then show ?thesis using 1 by (simp add: zfp_field_metadata_def Let_def)
  next
    case 2
    then have "drop_bit 24 (of_nat (nx f) - 1 :: uint64) \<noteq> 0 \<or> drop_bit 24 (of_nat (ny f) - 1 :: uint64) \<noteq> 0"
      using big v big' [of "nx f" 24] big' [of "ny f" 24] by (auto simp: meta_fits_def valid_field_def)
    then show ?thesis using 2 by (simp add: zfp_field_metadata_def Let_def)
  next
    case 3
    then have "drop_bit 16 (of_nat (nx f) - 1 :: uint64) \<noteq> 0 \<or> drop_bit 16 (of_nat (ny f) - 1 :: uint64) \<noteq> 0
        \<or> drop_bit 16 (of_nat (nz f) - 1 :: uint64) \<noteq> 0"
      using big v big' [of "nx f" 16] big' [of "ny f" 16] big' [of "nz f" 16] by (auto simp: meta_fits_def valid_field_def)
    then show ?thesis using 3 by (simp add: zfp_field_metadata_def Let_def)
  next
    case 4
    then have "drop_bit 12 (of_nat (nx f) - 1 :: uint64) \<noteq> 0 \<or> drop_bit 12 (of_nat (ny f) - 1 :: uint64) \<noteq> 0
        \<or> drop_bit 12 (of_nat (nz f) - 1 :: uint64) \<noteq> 0 \<or> drop_bit 12 (of_nat (nw f) - 1 :: uint64) \<noteq> 0"
      using big v big' [of "nx f" 12] big' [of "ny f" 12] big' [of "nz f" 12] big' [of "nw f" 12] by (auto simp: meta_fits_def valid_field_def)
    then show ?thesis using 4 by (simp add: zfp_field_metadata_def Let_def)
  qed
qed

lemma metadata_not_null:
  assumes "valid_field f" "meta_fits f"
  shows "zfp_field_metadata f \<noteq> ZFP_META_NULL"
proof
  assume "zfp_field_metadata f = ZFP_META_NULL"
  then have "unat (zfp_field_metadata f) = 2 ^ 64 - 1" by (simp add: ZFP_META_NULL_def unsigned_minus_1_eq_mask mask_eq_exp_minus_1)
  then show False using zfp_field_metadata_code [OF assms] by simp
qed

lemma metadata_restored:
  assumes "valid_field f" "meta_fits f" "zfp_field_dimensionality f = 1 \<longrightarrow> nx f \<le> 2 ^ 32"
  shows "zfp_field_set_metadata g (zfp_field_metadata f) = (True, f\<lparr>sx := 0, sy := 0, sz := 0, sw := 0, data := data g\<rparr>)"
proof -
  have "(nx f - 1) mod 2 ^ 32 + 1 = nx f" if "nx f \<le> 2 ^ 32"
    using that assms(1) by (simp add: valid_field_def)
  then show ?thesis using set_metadata_of_field [OF assms(1,2), of g] assms(3) by auto
qed

text \<open>The type and the dimensions of a field survive the trip through the 52-bit metadata of the header
  when they fit its bit fields and the size of a 1D array is at most \<open>2 ^ 32\<close>. Reading the metadata resets the strides
  and keeps the data pointer of the field that is filled in.\<close>

theorem metadata_roundtrip:
  assumes "valid_field f" "meta_fits f" "zfp_field_dimensionality f = 1 \<longrightarrow> nx f \<le> 2 ^ 32"
  shows "zfp_field_set_metadata g (zfp_field_metadata f) = (True, f\<lparr>sx := 0, sy := 0, sz := 0, sw := 0, data := data g\<rparr>)"
  by (rule metadata_restored [OF assms])

theorem metadata_roundtrip_witness:
  "zfp_field_set_metadata zfp_field_alloc (zfp_field_metadata (zfp_field_3d (Some 4096) zfp_type_float 100 200 65536)) =
    (True, zfp_field_3d None zfp_type_float 100 200 65536)"
proof -
  let ?f = "zfp_field_3d (Some 4096) zfp_type_float 100 200 65536"
  have "zfp_field_set_metadata zfp_field_alloc (zfp_field_metadata ?f) =
      (True, ?f\<lparr>sx := 0, sy := 0, sz := 0, sw := 0, data := data zfp_field_alloc\<rparr>)"
    by (rule metadata_roundtrip)
      (simp_all add: valid_field_def meta_fits_def zfp_field_3d_def zfp_field_alloc_def zfp_field_dimensionality_def)
  then show ?thesis by (simp add: zfp_field_3d_def zfp_field_alloc_def)
qed

text \<open>The encoder of the metadata reports the error value \<open>ZFP_META_NULL\<close> exactly for the fields whose
  dimensions do not fit.\<close>

theorem metadata_error:
  assumes "valid_field f"
  shows "zfp_field_metadata f = ZFP_META_NULL \<longleftrightarrow> \<not> meta_fits f"
  using metadata_too_big [OF assms] metadata_not_null [OF assms] by blast

theorem metadata_error_witness: "zfp_field_metadata (zfp_field_2d None zfp_type_double 5 16777217) = ZFP_META_NULL"
  by (subst metadata_error)
    (simp_all add: valid_field_def meta_fits_def zfp_field_2d_def zfp_field_alloc_def zfp_field_dimensionality_def)

text \<open>C33: a 1D array of more than \<open>2 ^ 32\<close> and at most \<open>2 ^ 48\<close> values is accepted by the encoder of the metadata, which
  has 48 bits for its size less one, but the decoder keeps the low 32 bits of that only: it reports success with the size that is
  equal modulo \<open>2 ^ 32\<close> and at most \<open>2 ^ 32\<close>.\<close>

theorem metadata_1d_truncated:
  assumes "valid_field f" "zfp_field_dimensionality f = 1" "2 ^ 32 < nx f" "nx f \<le> 2 ^ 48"
  shows "zfp_field_metadata f \<noteq> ZFP_META_NULL \<and>
    (\<exists>g'. zfp_field_set_metadata g (zfp_field_metadata f) = (True, g') \<and> nx g' = (nx f - 1) mod 2 ^ 32 + 1 \<and> nx g' < nx f)"
proof -
  have f: "meta_fits f" using assms by (cases rule: dimensionality_cases [OF assms(1)]) (simp_all add: meta_fits_def)
  have "(nx f - 1) mod 2 ^ 32 < 2 ^ 32" by simp
  then have "(nx f - 1) mod 2 ^ 32 + 1 < nx f" using assms(3) by linarith
  then show ?thesis
    using set_metadata_of_field [OF assms(1) f, of g] metadata_not_null [OF assms(1) f] assms(2) by simp
qed

theorem metadata_1d_truncated_witness:
  "\<exists>g'. zfp_field_set_metadata zfp_field_alloc (zfp_field_metadata (zfp_field_1d None zfp_type_int32 4294967297)) = (True, g') \<and> nx g' = 1"
proof -
  let ?f = "zfp_field_1d None zfp_type_int32 4294967297"
  have "zfp_field_metadata ?f \<noteq> ZFP_META_NULL \<and>
      (\<exists>g'. zfp_field_set_metadata zfp_field_alloc (zfp_field_metadata ?f) = (True, g') \<and> nx g' = (nx ?f - 1) mod 2 ^ 32 + 1 \<and> nx g' < nx ?f)"
    by (rule metadata_1d_truncated) (simp_all add: valid_field_def zfp_field_1d_def zfp_field_alloc_def zfp_field_dimensionality_def)
  then show ?thesis by (auto simp: zfp_field_1d_def)
qed

text \<open>The table of \<open>zfp_block_maximum_size\<close> follows from the format of a block.\<close>

lemma block_maximum_size_table:
  assumes "1 \<le> d" "d \<le> 4"
  shows "zfp_block_maximum_size zfp_type_int32 d r = (if r then 5 else 0) + 33 * 4 ^ d - 1"
    "zfp_block_maximum_size zfp_type_int64 d r = (if r then 6 else 0) + 65 * 4 ^ d - 1"
    "zfp_block_maximum_size zfp_type_float d r = (if r then 1 + 1 + 8 + 5 else 1 + 8) + 33 * 4 ^ d - 1"
    "zfp_block_maximum_size zfp_type_double d r = (if r then 1 + 1 + 11 + 6 else 1 + 11) + 65 * 4 ^ d - 1"
proof -
  have "d = 1 \<or> d = 2 \<or> d = 3 \<or> d = 4" using assms by auto
  then show "zfp_block_maximum_size zfp_type_int32 d r = (if r then 5 else 0) + 33 * 4 ^ d - 1"
    "zfp_block_maximum_size zfp_type_int64 d r = (if r then 6 else 0) + 65 * 4 ^ d - 1"
    "zfp_block_maximum_size zfp_type_float d r = (if r then 1 + 1 + 8 + 5 else 1 + 8) + 33 * 4 ^ d - 1"
    "zfp_block_maximum_size zfp_type_double d r = (if r then 1 + 1 + 11 + 6 else 1 + 11) + 65 * 4 ^ d - 1"
    by (auto simp: zfp_block_maximum_size_def type_code_def)
qed

lemma term_span: "i < n \<Longrightarrow> min (s * (int n - 1)) 0 \<le> int i * s \<and> int i * s \<le> max (s * (int n - 1)) 0"
proof -
  assume "i < n"
  then have i: "0 \<le> int i" "int i \<le> int n - 1" by simp_all
  show ?thesis
  proof (cases "0 \<le> s")
    case True
    then have "int i * s \<le> (int n - 1) * s" "0 \<le> int i * s" using i by (auto intro: mult_right_mono)
    then show ?thesis by (auto simp: mult.commute min_def max_def)
  next
    case False
    then have "(int n - 1) * s \<le> int i * s" "int i * s \<le> 0" using i by (auto intro: mult_right_mono_neg simp: mult_le_0_iff)
    then show ?thesis by (auto simp: mult.commute min_def max_def)
  qed
qed

text \<open>The extent of a field: the offset of every element lies between the two offsets that \<open>field_index_span\<close>
  computes, so that \<open>zfp_field_begin\<close> and \<open>zfp_field_size_bytes\<close> describe the memory that the elements occupy.\<close>

theorem field_span_bounds:
  assumes "valid_field f" "field_index_span f = (lo, hi, n)" "xs \<in> set (box (fst (zfp_field_size f)))"
  shows "lo \<le> offset (fst (zfp_field_stride f)) xs \<and> offset (fst (zfp_field_stride f)) xs \<le> hi"
proof -
  define s0 s1 s2 s3 where "s0 = (if sx f \<noteq> 0 then sx f else 1)" and "s1 = (if sy f \<noteq> 0 then sy f else int (nx f))"
    and "s2 = (if sz f \<noteq> 0 then sz f else int (nx f * ny f))" and "s3 = (if sw f \<noteq> 0 then sw f else int (nx f * ny f * nz f))"
  have lo: "lo = fst (field_index_span f)" "hi = fst (snd (field_index_span f))" by (simp_all add: assms(2))
  let ?d = "\<lambda>s n. if n \<noteq> 0 then s * (int n - 1) else 0"
  have lh: "lo = min (?d s0 (nx f)) 0 + min (?d s1 (ny f)) 0 + min (?d s2 (nz f)) 0 + min (?d s3 (nw f)) 0"
    "hi = max (?d s0 (nx f)) 0 + max (?d s1 (ny f)) 0 + max (?d s2 (nz f)) 0 + max (?d s3 (nw f)) 0"
    unfolding lo field_index_span_def Let_def fst_conv snd_conv s0_def [symmetric] s1_def [symmetric] s2_def [symmetric] s3_def [symmetric]
    by (rule refl)+
  have st: "fst (zfp_field_stride f) = take (zfp_field_dimensionality f) [s0, s1, s2, s3]"
    by (simp add: zfp_field_stride_def s0_def s1_def s2_def s3_def)
  have x: "list_all2 (<) xs (take (zfp_field_dimensionality f) [nx f, ny f, nz f, nw f])"
    using assms(3) by (simp add: set_box zfp_field_size_def)
  show ?thesis
  proof (cases rule: dimensionality_cases [OF assms(1)])
    case 1
    then obtain a where "xs = [a]" "a < nx f" using x by (auto simp: list_all2_Cons2)
    then show ?thesis using term_span [of a "nx f" s0] 1 by (simp add: lh st)
  next
    case 2
    then obtain a b where "xs = [a, b]" "a < nx f" "b < ny f" using x by (auto simp: list_all2_Cons2)
    then show ?thesis using term_span [of a "nx f" s0] term_span [of b "ny f" s1] 2 by (simp add: lh st)
  next
    case 3
    then obtain a b c where "xs = [a, b, c]" "a < nx f" "b < ny f" "c < nz f" using x by (auto simp: list_all2_Cons2)
    then show ?thesis using term_span [of a "nx f" s0] term_span [of b "ny f" s1] term_span [of c "nz f" s2] 3 by (simp add: lh st)
  next
    case 4
    then obtain a b c d where "xs = [a, b, c, d]" "a < nx f" "b < ny f" "c < nz f" "d < nw f" using x by (auto simp: list_all2_Cons2)
    then show ?thesis using term_span [of a "nx f" s0] term_span [of b "ny f" s1] term_span [of c "nz f" s2] term_span [of d "nw f" s3] 4
      by (simp add: lh st)
  qed
qed

theorem field_span_bounds_witness:
  "- 18 \<le> offset [- 2, 30] [9, 3] \<and> offset [- 2, 30] [9, 3] \<le> 120"
proof -
  let ?f = "zfp_field_set_stride_2d (zfp_field_2d None zfp_type_float 10 5) (- 2) 30"
  have s: "field_index_span ?f = (- 18, 120, 139)" "fst (zfp_field_stride ?f) = [- 2, 30]" "fst (zfp_field_size ?f) = [10, 5]" "valid_field ?f"
    by (simp_all add: field_index_span_def zfp_field_stride_def zfp_field_size_def zfp_field_dimensionality_def valid_field_def
        zfp_field_set_stride_2d_def zfp_field_2d_def zfp_field_alloc_def)
  have "- 18 \<le> offset (fst (zfp_field_stride ?f)) [9, 3] \<and> offset (fst (zfp_field_stride ?f)) [9, 3] \<le> 120"
    by (rule field_span_bounds [OF s(4) s(1)]) (unfold s(3) set_box, simp)
  then show ?thesis using s by simp
qed

end
