(* ===== verification/Zfp_Api.thy ===== *)
theory Zfp_Api
  imports Complex_Main Zfp_Field
begin

text \<open>
  The functions of \<^verbatim>\<open>src/zfp.c\<close> that set up a compressed stream: compression modes and the four parameters, their 12-bit and
  64-bit encodings, headers, the execution policy, bounds on the compressed size, and the promotion of narrow
  integers. Rates are rational numbers, so the rounding of \<open>zfp_stream_set_rate\<close> is exact; tolerances are bit patterns of
  \<open>double\<close> numbers. Functions that change the stream or a field return the changed value beside their result. The masks of a
  header are 32-bit words, the encoded mode and metadata 64-bit words.
\<close>

section \<open>Compression modes and their configuration\<close>

datatype zfp_mode = zfp_mode_null | zfp_mode_expert | zfp_mode_fixed_rate | zfp_mode_fixed_precision
  | zfp_mode_fixed_accuracy | zfp_mode_reversible

text \<open>The union \<open>arg\<close> of a \<open>zfp_config\<close>. A rate is a rational number, a tolerance the bit pattern of a \<open>double\<close>.\<close>

datatype config_args = Arg_none | Rate rat | Precision nat | Tolerance uint64 | Expert nat nat nat int

record zfp_config =
  config_mode :: zfp_mode
  config_arg :: config_args

definition zfp_config_none :: zfp_config where
  "zfp_config_none = \<lparr>config_mode = zfp_mode_null, config_arg = Arg_none\<rparr>"

definition zfp_config_rate :: "rat \<Rightarrow> bool \<Rightarrow> zfp_config" where
  "zfp_config_rate rate align = \<lparr>config_mode = zfp_mode_fixed_rate, config_arg = Rate (if align then - rate else rate)\<rparr>"

definition zfp_config_precision :: "nat \<Rightarrow> zfp_config" where
  "zfp_config_precision prec = \<lparr>config_mode = zfp_mode_fixed_precision, config_arg = Precision prec\<rparr>"

definition zfp_config_accuracy :: "uint64 \<Rightarrow> zfp_config" where
  "zfp_config_accuracy tolerance = \<lparr>config_mode = zfp_mode_fixed_accuracy, config_arg = Tolerance tolerance\<rparr>"

definition zfp_config_reversible :: zfp_config where
  "zfp_config_reversible = \<lparr>config_mode = zfp_mode_reversible, config_arg = Arg_none\<rparr>"

definition zfp_config_expert :: "nat \<Rightarrow> nat \<Rightarrow> nat \<Rightarrow> int \<Rightarrow> zfp_config" where
  "zfp_config_expert mi ma pr ex = \<lparr>config_mode = zfp_mode_expert, config_arg = Expert mi ma pr ex\<rparr>"

section \<open>The compressed stream\<close>

definition zfp_stream_open :: "('w::len) bitstream \<Rightarrow> 'w zfp_stream" where
  "zfp_stream_open s = \<lparr>minbits = ZFP_MIN_BITS, maxbits = ZFP_MAX_BITS, maxprec = ZFP_MAX_PREC, minexp = ZFP_MIN_EXP,
     stream = s, exec = \<lparr>policy = zfp_exec_serial, params = None\<rparr>\<rparr>"

definition zfp_stream_bit_stream :: "('w::len) zfp_stream \<Rightarrow> 'w bitstream" where
  "zfp_stream_bit_stream zfp = stream zfp"

definition zfp_stream_compression_mode :: "('w::len) zfp_stream \<Rightarrow> zfp_mode" where
  "zfp_stream_compression_mode zfp =
    (if minbits zfp > maxbits zfp \<or> \<not> (0 < maxprec zfp \<and> maxprec zfp \<le> 64) then zfp_mode_null
     else if minbits zfp = ZFP_MIN_BITS \<and> maxbits zfp = ZFP_MAX_BITS \<and> maxprec zfp = ZFP_MAX_PREC \<and> minexp zfp = ZFP_MIN_EXP
       then zfp_mode_expert
     else if minbits zfp = maxbits zfp \<and> 1 \<le> maxbits zfp \<and> maxbits zfp \<le> ZFP_MAX_BITS
         \<and> maxprec zfp \<ge> ZFP_MAX_PREC \<and> minexp zfp = ZFP_MIN_EXP
       then zfp_mode_fixed_rate
     else if minbits zfp \<le> ZFP_MIN_BITS \<and> maxbits zfp \<ge> ZFP_MAX_BITS \<and> maxprec zfp \<ge> 1 \<and> minexp zfp = ZFP_MIN_EXP
       then zfp_mode_fixed_precision
     else if minbits zfp \<le> ZFP_MIN_BITS \<and> maxbits zfp \<ge> ZFP_MAX_BITS \<and> maxprec zfp \<ge> ZFP_MAX_PREC \<and> minexp zfp \<ge> ZFP_MIN_EXP
       then zfp_mode_fixed_accuracy
     else if minbits zfp \<le> ZFP_MIN_BITS \<and> maxbits zfp \<ge> ZFP_MAX_BITS \<and> maxprec zfp \<ge> ZFP_MAX_PREC \<and> minexp zfp < ZFP_MIN_EXP
       then zfp_mode_reversible
     else zfp_mode_expert)"

definition zfp_stream_rate :: "('w::len) zfp_stream \<Rightarrow> nat \<Rightarrow> rat" where
  "zfp_stream_rate zfp dims =
    (if zfp_stream_compression_mode zfp = zfp_mode_fixed_rate then of_nat (maxbits zfp) / of_nat (2 ^ (2 * dims)) else 0)"

definition zfp_stream_precision :: "('w::len) zfp_stream \<Rightarrow> nat" where
  "zfp_stream_precision zfp =
    (if zfp_stream_compression_mode zfp = zfp_mode_fixed_precision then maxprec zfp else 0)"

definition zfp_stream_accuracy :: "('w::len) zfp_stream \<Rightarrow> uint64" where
  "zfp_stream_accuracy zfp =
    (if zfp_stream_compression_mode zfp = zfp_mode_fixed_accuracy then float_ldexp (float_of_int 1) (minexp zfp) else 0)"

definition zfp_stream_mode :: "('w::len) zfp_stream \<Rightarrow> uint64" where
  "zfp_stream_mode zfp =
    (let m = zfp_stream_compression_mode zfp
     in if m = zfp_mode_fixed_rate \<and> maxbits zfp \<le> 2048 then of_nat (maxbits zfp - 1)
        else if m = zfp_mode_fixed_precision \<and> maxprec zfp \<le> 128 then of_nat ((maxprec zfp - 1) + 2048)
        else if m = zfp_mode_fixed_accuracy \<and> minexp zfp \<le> 843 then word_of_int (minexp zfp - ZFP_MIN_EXP) + (2048 + 128 + 1)
        else if m = zfp_mode_reversible then 2048 + 128
        else
          let mi = max 1 (min (minbits zfp) 0x8000) - 1;
              ma = max 1 (min (maxbits zfp) 0x8000) - 1;
              pr = max 1 (min (maxprec zfp) 0x0080) - 1;
              ex = nat (max 0 (min (minexp zfp + 16495) 0x7fff));
              mode = push_bit 15 0 + of_nat ex;
              mode = push_bit 7 mode + of_nat pr;
              mode = push_bit 15 mode + of_nat ma;
              mode = push_bit 15 mode + of_nat mi;
              mode = push_bit 12 mode + 0xfff
          in mode)"

definition zfp_stream_params :: "('w::len) zfp_stream \<Rightarrow> nat \<times> nat \<times> nat \<times> int" where
  "zfp_stream_params zfp = (minbits zfp, maxbits zfp, maxprec zfp, minexp zfp)"

definition zfp_stream_compressed_size :: "('w::len) zfp_stream \<Rightarrow> nat" where
  "zfp_stream_compressed_size zfp = stream_size (stream zfp)"

definition is_reversible :: "('w::len) zfp_stream \<Rightarrow> bool" where
  "is_reversible zfp \<longleftrightarrow> minexp zfp < ZFP_MIN_EXP"

definition ZFP_HEADER_MAX_BITS :: nat where "ZFP_HEADER_MAX_BITS = 148"

definition zfp_stream_maximum_size :: "('w::len) zfp_stream \<Rightarrow> zfp_field \<Rightarrow> nat" where
  "zfp_stream_maximum_size zfp field =
    (let reversible = is_reversible zfp;
         dims = zfp_field_dimensionality field;
         blocks = zfp_field_blocks field;
         values = 2 ^ (2 * dims);
         mb = (case ftype field of
             zfp_type_int32 \<Rightarrow> Some (if reversible then 5 else 0)
           | zfp_type_int64 \<Rightarrow> Some (if reversible then 6 else 0)
           | zfp_type_float \<Rightarrow> Some (if reversible then 1 + 1 + 8 + 5 else 1 + 8)
           | zfp_type_double \<Rightarrow> Some (if reversible then 1 + 1 + 11 + 6 else 1 + 11)
           | _ \<Rightarrow> None)
     in if dims = 0 then 0
        else case mb of
          None \<Rightarrow> 0
        | Some mb \<Rightarrow>
            let mb = mb + (values - 1 + values * min (maxprec zfp) (zfp_field_precision field));
                mb = min mb (maxbits zfp);
                mb = max mb (minbits zfp);
                maxsize = ZFP_HEADER_MAX_BITS + blocks * mb;
                maxsize = round_up maxsize (LENGTH('w))
            in maxsize div 8)"

definition zfp_stream_set_bit_stream :: "('w::len) zfp_stream \<Rightarrow> 'w bitstream \<Rightarrow> 'w zfp_stream" where
  "zfp_stream_set_bit_stream zfp s = zfp\<lparr>stream := s\<rparr>"

definition zfp_stream_set_reversible :: "('w::len) zfp_stream \<Rightarrow> 'w zfp_stream" where
  "zfp_stream_set_reversible zfp =
    zfp\<lparr>minbits := ZFP_MIN_BITS, maxbits := ZFP_MAX_BITS, maxprec := ZFP_MAX_PREC, minexp := ZFP_MIN_EXP - 1\<rparr>"

definition zfp_stream_set_rate ::
  "('w::len) zfp_stream \<Rightarrow> rat \<Rightarrow> zfp_type \<Rightarrow> nat \<Rightarrow> bool \<Rightarrow> rat \<times> 'w zfp_stream" where
  "zfp_stream_set_rate zfp rate type dims align =
    (let n = 2 ^ (2 * dims);
         nb = nat \<lfloor>of_nat n * rate + 1 / 2\<rfloor>;
         nb = (case type of zfp_type_float \<Rightarrow> max nb (1 + 8) | zfp_type_double \<Rightarrow> max nb (1 + 11) | _ \<Rightarrow> nb);
         nb = (if align then round_up nb (LENGTH('w)) else nb)
     in (of_nat nb / of_nat n, zfp\<lparr>minbits := nb, maxbits := nb, maxprec := ZFP_MAX_PREC, minexp := ZFP_MIN_EXP\<rparr>))"

definition zfp_stream_set_precision :: "('w::len) zfp_stream \<Rightarrow> nat \<Rightarrow> nat \<times> 'w zfp_stream" where
  "zfp_stream_set_precision zfp prec =
    (let p = (if prec \<noteq> 0 then min prec ZFP_MAX_PREC else ZFP_MAX_PREC)
     in (p, zfp\<lparr>minbits := ZFP_MIN_BITS, maxbits := ZFP_MAX_BITS, maxprec := p, minexp := ZFP_MIN_EXP\<rparr>))"

definition zfp_stream_set_accuracy :: "uint64 unspecified \<Rightarrow> ('w::len) zfp_stream \<Rightarrow> uint64 \<Rightarrow> uint64 \<times> 'w zfp_stream" where
  "zfp_stream_set_accuracy u zfp tolerance =
    (let emin = (if float_less 0 tolerance then float_frexp u tolerance - 1 else ZFP_MIN_EXP)
     in (if float_less 0 tolerance then float_ldexp (float_of_int 1) emin else 0,
         zfp\<lparr>minbits := ZFP_MIN_BITS, maxbits := ZFP_MAX_BITS, maxprec := ZFP_MAX_PREC, minexp := emin\<rparr>))"

definition zfp_stream_set_params :: "('w::len) zfp_stream \<Rightarrow> nat \<Rightarrow> nat \<Rightarrow> nat \<Rightarrow> int \<Rightarrow> bool \<times> 'w zfp_stream" where
  "zfp_stream_set_params zfp mi ma pr ex =
    (if mi > ma \<or> \<not> (0 < pr \<and> pr \<le> 64) then (False, zfp)
     else (True, zfp\<lparr>minbits := mi, maxbits := ma, maxprec := pr, minexp := ex\<rparr>))"

definition ZFP_MODE_SHORT_BITS :: nat where "ZFP_MODE_SHORT_BITS = 12"
definition ZFP_MODE_LONG_BITS :: nat where "ZFP_MODE_LONG_BITS = 64"
definition ZFP_MODE_SHORT_MAX :: uint64 where "ZFP_MODE_SHORT_MAX = 4094"

definition zfp_stream_set_mode :: "('w::len) zfp_stream \<Rightarrow> uint64 \<Rightarrow> zfp_mode \<times> 'w zfp_stream" where
  "zfp_stream_set_mode zfp mode =
    (let (mi, ma, pr, ex) =
       (if mode \<le> ZFP_MODE_SHORT_MAX then
          if mode < 2048 then (unat mode + 1, unat mode + 1, ZFP_MAX_PREC, ZFP_MIN_EXP)
          else if mode < 2048 + 128 then (ZFP_MIN_BITS, ZFP_MAX_BITS, unat mode + 1 - 2048, ZFP_MIN_EXP)
          else if mode = 2048 + 128 then (ZFP_MIN_BITS, ZFP_MAX_BITS, ZFP_MAX_PREC, ZFP_MIN_EXP - 1)
          else (ZFP_MIN_BITS, ZFP_MAX_BITS, ZFP_MAX_PREC, uint mode + ZFP_MIN_EXP - (2048 + 128 + 1))
        else
          let mode = drop_bit 12 mode; mi = unat (mode AND 0x7fff) + 1;
              mode = drop_bit 15 mode; ma = unat (mode AND 0x7fff) + 1;
              mode = drop_bit 15 mode; pr = unat (mode AND 0x007f) + 1;
              mode = drop_bit 7 mode; ex = uint (mode AND 0x7fff) - 16495
          in (mi, ma, pr, ex));
         (ok, zfp) = zfp_stream_set_params zfp mi ma pr ex
     in if \<not> ok then (zfp_mode_null, zfp) else (zfp_stream_compression_mode zfp, zfp))"

definition zfp_stream_flush :: "('w::len) zfp_stream \<Rightarrow> nat \<times> 'w zfp_stream" where
  "zfp_stream_flush zfp = (let (n, s) = stream_flush (stream zfp) in (n, zfp\<lparr>stream := s\<rparr>))"

definition zfp_stream_align :: "('w::len) zfp_stream \<Rightarrow> nat \<times> 'w zfp_stream" where
  "zfp_stream_align zfp = (let (n, s) = stream_align (stream zfp) in (n, zfp\<lparr>stream := s\<rparr>))"

definition zfp_stream_rewind :: "('w::len) zfp_stream \<Rightarrow> 'w zfp_stream" where
  "zfp_stream_rewind zfp = zfp\<lparr>stream := stream_rewind (stream zfp)\<rparr>"

section \<open>Execution policy\<close>

text \<open>\<open>omp\<close> tells whether the library is built with OpenMP; the CUDA back end is not built.\<close>

definition zfp_stream_execution :: "('w::len) zfp_stream \<Rightarrow> zfp_exec_policy" where
  "zfp_stream_execution zfp = policy (exec zfp)"

text \<open>The two queries read through the pointer \<open>params\<close>: \<open>None\<close> if it is null.\<close>

definition zfp_stream_omp_threads :: "('w::len) zfp_stream \<Rightarrow> nat option" where
  "zfp_stream_omp_threads zfp =
    (if policy (exec zfp) = zfp_exec_omp then map_option threads (params (exec zfp)) else Some 0)"

definition zfp_stream_omp_chunk_size :: "('w::len) zfp_stream \<Rightarrow> nat option" where
  "zfp_stream_omp_chunk_size zfp =
    (if policy (exec zfp) = zfp_exec_omp then map_option chunk_size (params (exec zfp)) else Some 0)"

definition zfp_stream_set_execution :: "bool \<Rightarrow> ('w::len) zfp_stream \<Rightarrow> zfp_exec_policy \<Rightarrow> bool \<times> 'w zfp_stream" where
  "zfp_stream_set_execution omp zfp p =
    (let e = exec zfp
     in case p of
          zfp_exec_serial \<Rightarrow>
            let e = (if policy e \<noteq> p \<and> params e \<noteq> None then e\<lparr>params := None\<rparr> else e)
            in (True, zfp\<lparr>exec := e\<lparr>policy := p\<rparr>\<rparr>)
        | zfp_exec_cuda \<Rightarrow> (False, zfp)
        | zfp_exec_omp \<Rightarrow>
            if omp then
              let e = (if policy e \<noteq> p then e\<lparr>params := Some \<lparr>threads = 0, chunk_size = 0\<rparr>\<rparr> else e)
              in (True, zfp\<lparr>exec := e\<lparr>policy := p\<rparr>\<rparr>)
            else (False, zfp))"

definition zfp_stream_set_omp_threads :: "bool \<Rightarrow> ('w::len) zfp_stream \<Rightarrow> nat \<Rightarrow> bool \<times> 'w zfp_stream" where
  "zfp_stream_set_omp_threads omp zfp n =
    (let (ok, zfp) = zfp_stream_set_execution omp zfp zfp_exec_omp
     in if \<not> ok then (False, zfp)
        else (True, zfp\<lparr>exec := (exec zfp)\<lparr>params := map_option (threads_update (\<lambda>_. n)) (params (exec zfp))\<rparr>\<rparr>))"

definition zfp_stream_set_omp_chunk_size :: "bool \<Rightarrow> ('w::len) zfp_stream \<Rightarrow> nat \<Rightarrow> bool \<times> 'w zfp_stream" where
  "zfp_stream_set_omp_chunk_size omp zfp n =
    (let (ok, zfp) = zfp_stream_set_execution omp zfp zfp_exec_omp
     in if \<not> ok then (False, zfp)
        else (True, zfp\<lparr>exec := (exec zfp)\<lparr>params := map_option (chunk_size_update (\<lambda>_. n)) (params (exec zfp))\<rparr>\<rparr>))"

section \<open>Promotion of narrow integers\<close>

definition zfp_promote_int8_to_int32 :: "8 word list \<Rightarrow> nat \<Rightarrow> uint32 list" where
  "zfp_promote_int8_to_int32 iblock dims = map (\<lambda>k. push_bit 23 (scast (iblock ! k))) [0..<2 ^ (2 * dims)]"

definition zfp_promote_uint8_to_int32 :: "8 word list \<Rightarrow> nat \<Rightarrow> uint32 list" where
  "zfp_promote_uint8_to_int32 iblock dims = map (\<lambda>k. push_bit 23 (ucast (iblock ! k) - 0x80)) [0..<2 ^ (2 * dims)]"

definition zfp_promote_int16_to_int32 :: "uint16 list \<Rightarrow> nat \<Rightarrow> uint32 list" where
  "zfp_promote_int16_to_int32 iblock dims = map (\<lambda>k. push_bit 15 (scast (iblock ! k))) [0..<2 ^ (2 * dims)]"

definition zfp_promote_uint16_to_int32 :: "uint16 list \<Rightarrow> nat \<Rightarrow> uint32 list" where
  "zfp_promote_uint16_to_int32 iblock dims = map (\<lambda>k. push_bit 15 (ucast (iblock ! k) - 0x8000)) [0..<2 ^ (2 * dims)]"

definition zfp_demote_int32_to_int8 :: "uint32 list \<Rightarrow> nat \<Rightarrow> 8 word list" where
  "zfp_demote_int32_to_int8 iblock dims =
    map (\<lambda>k. let i = sint (iblock ! k) div 2 ^ 23 in word_of_int (max (- 0x80) (min i 0x7f))) [0..<2 ^ (2 * dims)]"

definition zfp_demote_int32_to_uint8 :: "uint32 list \<Rightarrow> nat \<Rightarrow> 8 word list" where
  "zfp_demote_int32_to_uint8 iblock dims =
    map (\<lambda>k. let i = sint (iblock ! k) div 2 ^ 23 + 0x80 in word_of_int (max 0x00 (min i 0xff))) [0..<2 ^ (2 * dims)]"

definition zfp_demote_int32_to_int16 :: "uint32 list \<Rightarrow> nat \<Rightarrow> uint16 list" where
  "zfp_demote_int32_to_int16 iblock dims =
    map (\<lambda>k. let i = sint (iblock ! k) div 2 ^ 15 in word_of_int (max (- 0x8000) (min i 0x7fff))) [0..<2 ^ (2 * dims)]"

definition zfp_demote_int32_to_uint16 :: "uint32 list \<Rightarrow> nat \<Rightarrow> uint16 list" where
  "zfp_demote_int32_to_uint16 iblock dims =
    map (\<lambda>k. let i = sint (iblock ! k) div 2 ^ 15 + 0x8000 in word_of_int (max 0x0000 (min i 0xffff))) [0..<2 ^ (2 * dims)]"

section \<open>Headers\<close>

definition ZFP_MAGIC_BITS :: nat where "ZFP_MAGIC_BITS = 32"
definition ZFP_HEADER_MAGIC :: uint32 where "ZFP_HEADER_MAGIC = 0x1"
definition ZFP_HEADER_META :: uint32 where "ZFP_HEADER_META = 0x2"
definition ZFP_HEADER_MODE :: uint32 where "ZFP_HEADER_MODE = 0x4"
definition ZFP_HEADER_FULL :: uint32 where "ZFP_HEADER_FULL = 0x7"
definition zfp_codec_version :: uint64 where "zfp_codec_version = 5"

text \<open>The characters \<open>z\<close>, \<open>f\<close> and \<open>p\<close>.\<close>

definition magic_z :: uint64 where "magic_z = 122"
definition magic_f :: uint64 where "magic_f = 102"
definition magic_p :: uint64 where "magic_p = 112"

definition write_magic :: "('w::len) bitstream \<Rightarrow> 'w bitstream" where
  "write_magic s =
    (let s = snd (stream_write_bits s magic_z 8);
         s = snd (stream_write_bits s magic_f 8);
         s = snd (stream_write_bits s magic_p 8)
     in snd (stream_write_bits s zfp_codec_version 8))"

definition zfp_write_header :: "('w::len) zfp_stream \<Rightarrow> zfp_field \<Rightarrow> uint32 \<Rightarrow> nat \<times> 'w zfp_stream" where
  "zfp_write_header zfp field m =
    (let nb = 0; meta = (if m AND ZFP_HEADER_META \<noteq> 0 then zfp_field_metadata field else 0)
     in if m AND ZFP_HEADER_META \<noteq> 0 \<and> meta = ZFP_META_NULL then (0, zfp)
        else
          let s = stream zfp;
              (nb, s) = (if m AND ZFP_HEADER_MAGIC \<noteq> 0 then (nb + ZFP_MAGIC_BITS, write_magic s) else (nb, s));
              (nb, s) = (if m AND ZFP_HEADER_META \<noteq> 0
                then (nb + ZFP_META_BITS, snd (stream_write_bits s meta ZFP_META_BITS)) else (nb, s));
              (nb, s) = (if m AND ZFP_HEADER_MODE \<noteq> 0 then
                  let mode = zfp_stream_mode zfp;
                      sz = (if mode > ZFP_MODE_SHORT_MAX then ZFP_MODE_LONG_BITS else ZFP_MODE_SHORT_BITS)
                  in (nb + sz, snd (stream_write_bits s mode sz))
                else (nb, s))
          in (nb, zfp\<lparr>stream := s\<rparr>))"

text \<open>The test of the magic stops reading at the first difference.\<close>

definition read_magic :: "('w::len) bitstream \<Rightarrow> bool \<times> 'w bitstream" where
  "read_magic s =
    (let (v, s) = stream_read_bits s 8 in if v \<noteq> magic_z then (False, s) else
     let (v, s) = stream_read_bits s 8 in if v \<noteq> magic_f then (False, s) else
     let (v, s) = stream_read_bits s 8 in if v \<noteq> magic_p then (False, s) else
     let (v, s) = stream_read_bits s 8 in (v = zfp_codec_version, s))"

definition header_magic :: "uint32 \<Rightarrow> ('w::len) zfp_stream \<Rightarrow> bool \<times> nat \<times> 'w zfp_stream" where
  "header_magic m zfp =
    (if m AND ZFP_HEADER_MAGIC \<noteq> 0 then
       let (ok, s) = read_magic (stream zfp) in (ok, ZFP_MAGIC_BITS, zfp\<lparr>stream := s\<rparr>)
     else (True, 0, zfp))"

definition header_meta :: "uint32 \<Rightarrow> ('w::len) zfp_stream \<Rightarrow> zfp_field \<Rightarrow> bool \<times> nat \<times> 'w zfp_stream \<times> zfp_field" where
  "header_meta m zfp field =
    (if m AND ZFP_HEADER_META \<noteq> 0 then
       let (meta, s) = stream_read_bits (stream zfp) ZFP_META_BITS;
           (ok, field) = zfp_field_set_metadata field meta
       in (ok, ZFP_META_BITS, zfp\<lparr>stream := s\<rparr>, field)
     else (True, 0, zfp, field))"

definition header_mode :: "uint32 \<Rightarrow> ('w::len) zfp_stream \<Rightarrow> bool \<times> nat \<times> 'w zfp_stream" where
  "header_mode m zfp =
    (if m AND ZFP_HEADER_MODE \<noteq> 0 then
       let (mode, s) = stream_read_bits (stream zfp) ZFP_MODE_SHORT_BITS;
           (nb, mode, s) = (if mode > ZFP_MODE_SHORT_MAX then
               let sz = ZFP_MODE_LONG_BITS - ZFP_MODE_SHORT_BITS;
                   (v, s) = stream_read_bits s sz
               in (ZFP_MODE_SHORT_BITS + sz, mode + push_bit ZFP_MODE_SHORT_BITS v, s)
             else (ZFP_MODE_SHORT_BITS, mode, s));
           (r, zfp) = zfp_stream_set_mode (zfp\<lparr>stream := s\<rparr>) mode
       in (r \<noteq> zfp_mode_null, nb, zfp)
     else (True, 0, zfp))"

definition zfp_read_header :: "('w::len) zfp_stream \<Rightarrow> zfp_field \<Rightarrow> uint32 \<Rightarrow> nat \<times> 'w zfp_stream \<times> zfp_field" where
  "zfp_read_header zfp field m =
    (let (ok, n0, zfp) = header_magic m zfp
     in if \<not> ok then (0, zfp, field) else
        let (ok, n1, zfp, field) = header_meta m zfp field
        in if \<not> ok then (0, zfp, field) else
           let (ok, n2, zfp) = header_mode m zfp
           in if \<not> ok then (0, zfp, field) else (n0 + n1 + n2, zfp, field))"

section \<open>The encoding of the mode\<close>

definition long_mode :: "nat \<Rightarrow> nat \<Rightarrow> nat \<Rightarrow> nat \<Rightarrow> nat" where
  "long_mode mi ma pr ex = (((ex * 2 ^ 7 + pr) * 2 ^ 15 + ma) * 2 ^ 15 + mi) * 2 ^ 12 + 4095"

lemma long_mode_word:
  assumes "mi < 2 ^ 15" "ma < 2 ^ 15" "pr < 2 ^ 7" "ex < 2 ^ 15"
  shows "unat (push_bit 12 (push_bit 15 (push_bit 15 (push_bit 7 (of_nat ex) + of_nat pr) + of_nat ma) + of_nat mi) + 0xfff :: uint64)
    = long_mode mi ma pr ex"
proof -
  have u: "unat (of_nat n :: uint64) = n" if "n < 2 ^ 15" for n using that by (intro unat_of_small) simp
  have ue: "unat (of_nat ex :: uint64) = ex" "unat (of_nat pr :: uint64) = pr" "unat (of_nat ma :: uint64) = ma" "unat (of_nat mi :: uint64) = mi"
    using assms by (auto intro: u)
  have 1: "unat (push_bit 7 (of_nat ex) + of_nat pr :: uint64) = ex * 2 ^ 7 + pr"
    using shift_in [of "of_nat pr" 7 "of_nat ex"] ue assms by simp
  have 2: "unat (push_bit 15 (push_bit 7 (of_nat ex) + of_nat pr) + of_nat ma :: uint64) = (ex * 2 ^ 7 + pr) * 2 ^ 15 + ma"
    using shift_in [of "of_nat ma" 15 "push_bit 7 (of_nat ex) + of_nat pr"] ue assms 1 by simp
  have 3: "unat (push_bit 15 (push_bit 15 (push_bit 7 (of_nat ex) + of_nat pr) + of_nat ma) + of_nat mi :: uint64) =
      ((ex * 2 ^ 7 + pr) * 2 ^ 15 + ma) * 2 ^ 15 + mi"
    using shift_in [of "of_nat mi" 15 "push_bit 15 (push_bit 7 (of_nat ex) + of_nat pr) + of_nat ma"] ue assms 2 by simp
  show ?thesis unfolding long_mode_def
    using shift_in [of "0xfff" 12 "push_bit 15 (push_bit 15 (push_bit 7 (of_nat ex) + of_nat pr) + of_nat ma) + of_nat mi"] assms 3 by simp
qed

lemma long_mode_parts:
  assumes "mi < 2 ^ 15" "ma < 2 ^ 15" "pr < 2 ^ 7" "k = long_mode mi ma pr ex"
  shows "k div 2 ^ 12 mod 2 ^ 15 = mi" "k div 2 ^ 27 mod 2 ^ 15 = ma" "k div 2 ^ 42 mod 2 ^ 7 = pr" "k div 2 ^ 49 = ex"
    "k mod 2 ^ 12 = 4095" "4095 \<le> k"
proof -
  have f: "(4095 :: nat) < 2 ^ 12" by simp
  have d: "k div 2 ^ 27 = k div 2 ^ 12 div 2 ^ 15" "k div 2 ^ 42 = k div 2 ^ 12 div 2 ^ 15 div 2 ^ 15" "k div 2 ^ 49 = k div 2 ^ 12 div 2 ^ 15 div 2 ^ 15 div 2 ^ 7"
    by (simp_all add: div_mult2_eq [symmetric])
  note s = div_word [OF f] div_word [OF assms(1)] div_word [OF assms(2)] div_word [OF assms(3)]
    mod_word [OF f] mod_word [OF assms(1)] mod_word [OF assms(2)] mod_word [OF assms(3)]
  show "k div 2 ^ 12 mod 2 ^ 15 = mi" "k div 2 ^ 27 mod 2 ^ 15 = ma" "k div 2 ^ 42 mod 2 ^ 7 = pr" "k div 2 ^ 49 = ex" "k mod 2 ^ 12 = 4095"
    unfolding d unfolding assms(4) long_mode_def s by (rule refl)+
  show "4095 \<le> k" by (simp add: assms(4) long_mode_def)
qed

lemma mode_masks: "(0x7fff :: uint64) = mask 15" "(0x007f :: uint64) = mask 7"
  by (simp_all add: mask_eq_decr_exp)

text \<open>\<open>zfp_stream_set_mode\<close> in terms of the number that encodes the mode.\<close>

definition mode_params :: "nat \<Rightarrow> nat \<times> nat \<times> nat \<times> int" where
  "mode_params k =
    (if k \<le> 4094 then
       if k < 2048 then (k + 1, k + 1, ZFP_MAX_PREC, ZFP_MIN_EXP)
       else if k < 2176 then (ZFP_MIN_BITS, ZFP_MAX_BITS, k + 1 - 2048, ZFP_MIN_EXP)
       else if k = 2176 then (ZFP_MIN_BITS, ZFP_MAX_BITS, ZFP_MAX_PREC, ZFP_MIN_EXP - 1)
       else (ZFP_MIN_BITS, ZFP_MAX_BITS, ZFP_MAX_PREC, int k + ZFP_MIN_EXP - 2177)
     else (k div 2 ^ 12 mod 2 ^ 15 + 1, k div 2 ^ 27 mod 2 ^ 15 + 1, k div 2 ^ 42 mod 2 ^ 7 + 1, int (k div 2 ^ 49 mod 2 ^ 15) - 16495))"

lemma set_mode_params:
  "zfp_stream_set_mode zfp m =
    (let (mi, ma, pr, ex) = mode_params (unat m); (ok, zfp) = zfp_stream_set_params zfp mi ma pr ex
     in if \<not> ok then (zfp_mode_null, zfp) else (zfp_stream_compression_mode zfp, zfp))"
proof -
  have o: "m \<le> ZFP_MODE_SHORT_MAX \<longleftrightarrow> unat m \<le> 4094" "m < 2048 \<longleftrightarrow> unat m < 2048" "m < 2048 + 128 \<longleftrightarrow> unat m < 2176" "m = 2048 + 128 \<longleftrightarrow> unat m = 2176"
    by (simp_all add: word_le_nat_alt word_less_nat_alt word_unat_eq_iff ZFP_MODE_SHORT_MAX_def)
  have i: "uint (v :: uint64) = int (unat v)" for v by simp
  have d: "unat m div 2 ^ 12 div 2 ^ 15 = unat m div 2 ^ 27" "unat m div 2 ^ 27 div 2 ^ 15 = unat m div 2 ^ 42" "unat m div 2 ^ 42 div 2 ^ 7 = unat m div 2 ^ 49"
    by (simp_all add: div_mult2_eq [symmetric])
  show ?thesis
    unfolding zfp_stream_set_mode_def mode_params_def o mode_masks Let_def i unat_mask_field unat_drop_field d by simp
qed


text \<open>The compression mode depends on the four parameters only.\<close>

definition mode_class :: "nat \<Rightarrow> nat \<Rightarrow> nat \<Rightarrow> int \<Rightarrow> zfp_mode" where
  "mode_class mi ma pr ex = zfp_stream_compression_mode
    \<lparr>minbits = mi, maxbits = ma, maxprec = pr, minexp = ex, stream = stream_open (\<lambda>_. 0 :: uint64) 0,
     exec = \<lparr>policy = zfp_exec_serial, params = None\<rparr>\<rparr>"

lemma compression_mode_params: "zfp_stream_compression_mode z = mode_class (minbits z) (maxbits z) (maxprec z) (minexp z)"
  unfolding mode_class_def zfp_stream_compression_mode_def zfp_stream.select_convs by (rule refl)

text \<open>The parameters that the header can represent exactly.\<close>

definition mode_exact :: "('w::len) zfp_stream \<Rightarrow> bool" where
  "mode_exact z \<longleftrightarrow> 1 \<le> minbits z \<and> maxbits z \<le> ZFP_MAX_BITS \<and> ZFP_MIN_EXP - 1 \<le> minexp z \<and> minexp z \<le> 16272"

lemma stream_mode_params:
  assumes z: "zfp_stream_compression_mode z \<noteq> zfp_mode_null" and x: "mode_exact z"
  shows "mode_params (unat (zfp_stream_mode z)) = (minbits z, maxbits z, maxprec z, minexp z)"
proof -
  have b: "minbits z \<le> maxbits z" "0 < maxprec z" "maxprec z \<le> 64" using z by (auto simp: zfp_stream_compression_mode_def split: if_splits)
  have c: "1 \<le> minbits z" "maxbits z \<le> 16658" "- 1075 \<le> minexp z" "minexp z \<le> 16272" using x by (simp_all add: mode_exact_def ZFP_MAX_BITS_def ZFP_MIN_EXP_def)
  let ?m = "zfp_stream_compression_mode z"
  consider (rate) "?m = zfp_mode_fixed_rate" "maxbits z \<le> 2048" | (prec) "?m = zfp_mode_fixed_precision"
    | (acc) "?m = zfp_mode_fixed_accuracy" "minexp z \<le> 843" | (rev) "?m = zfp_mode_reversible"
    | (long) "\<not> (?m = zfp_mode_fixed_rate \<and> maxbits z \<le> 2048)" "?m \<noteq> zfp_mode_fixed_precision"
       "\<not> (?m = zfp_mode_fixed_accuracy \<and> minexp z \<le> 843)" "?m \<noteq> zfp_mode_reversible" by blast
  then show ?thesis
  proof cases
    case rate
    then have p: "minbits z = maxbits z" "maxprec z = 64" "minexp z = ZFP_MIN_EXP" using b(3)
      by (auto simp: zfp_stream_compression_mode_def ZFP_MAX_PREC_def split: if_splits)
    have "unat (zfp_stream_mode z) = maxbits z - 1" using rate by (simp add: zfp_stream_mode_def unat_of_small del: of_nat_diff)
    then show ?thesis using p rate c by (simp add: mode_params_def ZFP_MAX_PREC_def)
  next
    case prec
    then have p: "minbits z = 1" "maxbits z = 16658" "minexp z = ZFP_MIN_EXP" using c
      by (auto simp: zfp_stream_compression_mode_def ZFP_MIN_BITS_def ZFP_MAX_BITS_def split: if_splits)
    have "unat (zfp_stream_mode z) = (maxprec z - 1) + 2048" using prec b
      by (simp add: zfp_stream_mode_def Let_def unat_of_small del: of_nat_diff of_nat_add)
    then show ?thesis using p b c by (simp add: mode_params_def ZFP_MIN_BITS_def ZFP_MAX_BITS_def)
  next
    case acc
    then have p: "minbits z = 1" "maxbits z = 16658" "maxprec z = 64" "ZFP_MIN_EXP < minexp z" using c b
      by (auto simp: zfp_stream_compression_mode_def ZFP_MIN_BITS_def ZFP_MAX_BITS_def ZFP_MAX_PREC_def split: if_splits)
    define k where "k = nat (minexp z - ZFP_MIN_EXP + 2177)"
    have k: "int k = minexp z - ZFP_MIN_EXP + 2177" "2177 < k" "k \<le> 4094" using p(4) acc(2) by (simp_all add: k_def ZFP_MIN_EXP_def)
    have "zfp_stream_mode z = word_of_int (int k)" using acc unfolding zfp_stream_mode_def Let_def k(1) by simp
    also have "\<dots> = of_nat k" by (rule of_int_of_nat_eq)
    finally have "unat (zfp_stream_mode z) = k" using k unat_of_small [of k] by simp
    then show ?thesis using p k by (simp add: mode_params_def ZFP_MIN_BITS_def ZFP_MAX_BITS_def ZFP_MAX_PREC_def)
  next
    case rev
    then have "minbits z = 1" "maxbits z = 16658" "maxprec z = 64" "minexp z = ZFP_MIN_EXP - 1" using c b
      by (auto simp: zfp_stream_compression_mode_def ZFP_MIN_BITS_def ZFP_MAX_BITS_def ZFP_MAX_PREC_def ZFP_MIN_EXP_def split: if_splits)
    then show ?thesis using rev by (simp add: zfp_stream_mode_def mode_params_def ZFP_MIN_BITS_def ZFP_MAX_BITS_def ZFP_MAX_PREC_def)
  next
    case long
    define mi ma pr ex where "mi = minbits z - 1" and "ma = maxbits z - 1" and "pr = maxprec z - 1" and "ex = nat (minexp z + 16495)"
    have r: "mi < 2 ^ 15" "ma < 2 ^ 15" "pr < 2 ^ 7" "ex < 2 ^ 15" using b c by (simp_all add: mi_def ma_def pr_def ex_def)
    have e: "max 1 (min (minbits z) 0x8000) - 1 = mi" "max 1 (min (maxbits z) 0x8000) - 1 = ma" "max 1 (min (maxprec z) 0x0080) - 1 = pr"
      "nat (max 0 (min (minexp z + 16495) 0x7fff)) = ex"
      using b c by (simp_all add: mi_def ma_def pr_def ex_def)
    have pr: "\<not> (?m = zfp_mode_fixed_precision \<and> maxprec z \<le> 128)" using long(2) by simp
    have "zfp_stream_mode z = push_bit 12 (push_bit 15 (push_bit 15 (push_bit 7 (of_nat ex) + of_nat pr) + of_nat ma) + of_nat mi) + 0xfff"
      unfolding zfp_stream_mode_def Let_def if_not_P [OF long(1)] if_not_P [OF pr] if_not_P [OF long(3)] if_not_P [OF long(4)] e by simp
    then have k: "unat (zfp_stream_mode z) = long_mode mi ma pr ex" using long_mode_word [OF r] by simp
    show ?thesis using long_mode_parts [OF r(1-3) k] r(4) b c
      by (simp add: mode_params_def mi_def ma_def pr_def ex_def)
  qed
qed

lemma stream_mode_restored:
  assumes "zfp_stream_compression_mode z \<noteq> zfp_mode_null" "mode_exact z"
  shows "zfp_stream_set_mode y (zfp_stream_mode z) =
    (zfp_stream_compression_mode z, y\<lparr>minbits := minbits z, maxbits := maxbits z, maxprec := maxprec z, minexp := minexp z\<rparr>)"
proof -
  have "minbits z \<le> maxbits z" "0 < maxprec z" "maxprec z \<le> 64" using assms(1)
    by (auto simp: zfp_stream_compression_mode_def split: if_splits)
  moreover have "zfp_stream_compression_mode (y\<lparr>minbits := minbits z, maxbits := maxbits z, maxprec := maxprec z, minexp := minexp z\<rparr>) =
      zfp_stream_compression_mode z" by (simp add: compression_mode_params)
  ultimately show ?thesis by (simp add: set_mode_params stream_mode_params [OF assms] zfp_stream_set_params_def)
qed

text \<open>writing and reading the compression parameters of a header restores all four of them, in
  the 12-bit as in the 64-bit encoding, and yields the same compression mode.\<close>

theorem stream_mode_roundtrip:
  assumes "zfp_stream_compression_mode z \<noteq> zfp_mode_null" "mode_exact z"
  shows "zfp_stream_set_mode y (zfp_stream_mode z) =
    (zfp_stream_compression_mode z, y\<lparr>minbits := minbits z, maxbits := maxbits z, maxprec := maxprec z, minexp := minexp z\<rparr>)"
  by (rule stream_mode_restored [OF assms])

theorem stream_mode_roundtrip_witness:
  "zfp_stream_set_mode (zfp_stream_open (stream_open (\<lambda>_. 0 :: uint64) 8)) (zfp_stream_mode (sample_stream 100 3000 40 (- 20))) =
    (zfp_mode_expert, (zfp_stream_open (stream_open (\<lambda>_. 0 :: uint64) 8))\<lparr>minbits := 100, maxbits := 3000, maxprec := 40, minexp := - 20\<rparr>)"
  using stream_mode_roundtrip [of "sample_stream 100 3000 40 (- 20)" "zfp_stream_open (stream_open (\<lambda>_. 0 :: uint64) 8)"]
  by (simp add: sample_stream_def zfp_stream_compression_mode_def mode_exact_def ZFP_MAX_BITS_def ZFP_MIN_EXP_def ZFP_MIN_BITS_def ZFP_MAX_PREC_def)

section \<open>Headers\<close>

lemma mode_short_or_long:
  "zfp_stream_mode z \<le> ZFP_MODE_SHORT_MAX \<or> take_bit 12 (zfp_stream_mode z) = 0xfff"
proof -
  have long: "take_bit 12 (push_bit 12 x + 0xfff) = (0xfff :: uint64)" for x :: uint64
  proof -
    have "push_bit 12 x + 0xfff = push_bit 12 x OR mask 12"
      by (subst disjoint_add_or) (auto simp: field_masks word_bits bit_push_iff)
    then show ?thesis by (simp add: take_bit_push_bit field_masks)
  qed
  show ?thesis
  proof (cases "zfp_stream_compression_mode z = zfp_mode_fixed_accuracy \<and> minexp z \<le> 843")
    case True
    then have "ZFP_MIN_EXP \<le> minexp z" by (auto simp: zfp_stream_compression_mode_def split: if_splits)
    then obtain k where k: "minexp z - ZFP_MIN_EXP = int k" using zero_le_imp_eq_int [of "minexp z - ZFP_MIN_EXP"] by auto
    then have k': "k \<le> 1917" using True by (simp add: ZFP_MIN_EXP_def)
    have "zfp_stream_mode z = word_of_int (minexp z - ZFP_MIN_EXP) + (2048 + 128 + 1)" using True unfolding zfp_stream_mode_def Let_def by simp
    then have "zfp_stream_mode z = of_nat (k + 2177)" unfolding k by simp
    then have "unat (zfp_stream_mode z) = k + 2177" using k' unat_of_small [of "k + 2177"] by (simp only:) simp
    then show ?thesis using k' by (simp add: word_le_nat_alt ZFP_MODE_SHORT_MAX_def)
  next
    case False
    have s: "of_nat n \<le> ZFP_MODE_SHORT_MAX" if "n \<le> 4094" for n
      using that unat_of_small [of n] by (simp add: word_le_nat_alt ZFP_MODE_SHORT_MAX_def)
    show ?thesis unfolding zfp_stream_mode_def Let_def if_not_P [OF False]
      using s [of "maxbits z - 1"] s [of "maxprec z - 1 + 2048"] s [of 2176] long by (auto simp del: of_nat_add of_nat_diff)
  qed
qed


definition field_bits :: "uint64 \<Rightarrow> nat \<Rightarrow> bool list" where
  "field_bits v n = map (bit v) [0..<n]"

lemma length_field_bits [simp]: "length (field_bits v n) = n"
  by (simp add: field_bits_def)

lemma write_field: "sink_ok s \<Longrightarrow> n \<le> 64 \<Longrightarrow> \<exists>v'. stream_write_bits s v n = (v', wappend s (field_bits v n))"
  using sink_write_bits [of s n v] by (metis field_bits_def prod.collapse)

lemma read_field_bits:
  assumes "source_ok s" "upcoming s (field_bits v n)" "n \<le> 64"
  shows "stream_read_bits s n = (take_bit n v, stream_skip s n)"
  using upcoming_read_bits [OF assms(1,2)] assms(3) of_bits_take_bit [of n v] by (simp add: field_bits_def)

lemma field_bits_split:
  "m \<le> n \<Longrightarrow> field_bits v n = field_bits v m @ field_bits (drop_bit m v) (n - m)"
  by (rule nth_equalityI) (auto simp: field_bits_def nth_append bit_drop_bit_eq)

lemma take_drop_sum: "take_bit m v + push_bit m (drop_bit m v) = v" for v :: uint64
  by (subst disjoint_add_or) (auto simp: word_bits bit_push_iff intro!: bit_word_eqI dest: bit_lt_len)

definition magic_code :: "bool list" where
  "magic_code = field_bits magic_z 8 @ field_bits magic_f 8 @ field_bits magic_p 8 @ field_bits zfp_codec_version 8"

definition mode_size :: "('w::len) zfp_stream \<Rightarrow> nat" where
  "mode_size z = (if zfp_stream_mode z > ZFP_MODE_SHORT_MAX then ZFP_MODE_LONG_BITS else ZFP_MODE_SHORT_BITS)"

definition magic_part :: "uint32 \<Rightarrow> bool list" where
  "magic_part m = (if m AND ZFP_HEADER_MAGIC \<noteq> 0 then magic_code else [])"

definition meta_part :: "zfp_field \<Rightarrow> uint32 \<Rightarrow> bool list" where
  "meta_part f m = (if m AND ZFP_HEADER_META \<noteq> 0 then field_bits (zfp_field_metadata f) ZFP_META_BITS else [])"

definition mode_part :: "('w::len) zfp_stream \<Rightarrow> uint32 \<Rightarrow> bool list" where
  "mode_part z m = (if m AND ZFP_HEADER_MODE \<noteq> 0 then field_bits (zfp_stream_mode z) (mode_size z) else [])"

definition header_code :: "('w::len) zfp_stream \<Rightarrow> zfp_field \<Rightarrow> uint32 \<Rightarrow> bool list" where
  "header_code z f m = magic_part m @ meta_part f m @ mode_part z m"

lemma write_field_eq: "sink_ok s \<Longrightarrow> n \<le> 64 \<Longrightarrow> snd (stream_write_bits s v n) = wappend s (field_bits v n)"
  by (simp add: sink_write_bits field_bits_def)

lemma write_magic_eq: "sink_ok s \<Longrightarrow> write_magic s = wappend s magic_code"
  by (simp add: write_magic_def Let_def write_field_eq magic_code_def wappend_append)

lemma header_lengths: "length magic_code = ZFP_MAGIC_BITS" "ZFP_META_BITS \<le> 64" "mode_size z \<le> 64"
  by (simp_all add: magic_code_def ZFP_META_BITS_def mode_size_def ZFP_MODE_LONG_BITS_def ZFP_MODE_SHORT_BITS_def ZFP_MAGIC_BITS_def)

lemma write_header_eq:
  fixes z :: "('w::len) zfp_stream"
  assumes s: "sink_ok (stream z)" and f: "m AND ZFP_HEADER_META \<noteq> 0 \<Longrightarrow> zfp_field_metadata f \<noteq> ZFP_META_NULL"
  shows "zfp_write_header z f m = (length (header_code z f m), z\<lparr>stream := wappend (stream z) (header_code z f m)\<rparr>)"
  using s f unfolding zfp_write_header_def Let_def mode_size_def [symmetric] header_code_def magic_part_def meta_part_def mode_part_def
  by (simp add: write_magic_eq write_field_eq header_lengths wappend_append)

lemma read_magic_eq:
  assumes "source_ok s" "upcoming s magic_code"
  shows "read_magic s = (True, stream_skip s ZFP_MAGIC_BITS)"
proof -
  have t: "take_bit 8 magic_z = magic_z" "take_bit 8 magic_f = magic_f" "take_bit 8 magic_p = magic_p" "take_bit 8 zfp_codec_version = zfp_codec_version"
    by (simp_all add: magic_z_def magic_f_def magic_p_def zfp_codec_version_def)
  have u: "upcoming s (field_bits magic_z 8)" "upcoming (stream_skip s 8) (field_bits magic_f 8)"
    "upcoming (stream_skip s 16) (field_bits magic_p 8)" "upcoming (stream_skip s 24) (field_bits zfp_codec_version 8)"
    using assms by (simp_all add: magic_code_def upcoming_append)
  have "stream_read_bits s 8 = (magic_z, stream_skip s 8)" "stream_read_bits (stream_skip s 8) 8 = (magic_f, stream_skip s 16)"
    "stream_read_bits (stream_skip s 16) 8 = (magic_p, stream_skip s 24)" "stream_read_bits (stream_skip s 24) 8 = (zfp_codec_version, stream_skip s 32)"
    using read_field_bits [OF _ u(1)] read_field_bits [OF _ u(2)] read_field_bits [OF _ u(3)] read_field_bits [OF _ u(4)] assms(1) t by simp_all
  then show ?thesis by (simp add: read_magic_def Let_def ZFP_MAGIC_BITS_def)
qed

text \<open>The three stages of the reader.\<close>

lemma header_magic_eq:
  assumes "source_ok (stream y)" "upcoming (stream y) (magic_part m)"
  shows "header_magic m y = (True, length (magic_part m), y\<lparr>stream := stream_skip (stream y) (length (magic_part m))\<rparr>)"
  using read_magic_eq [OF assms(1)] assms by (auto simp: header_magic_def magic_part_def header_lengths split: if_splits)

lemma header_meta_eq:
  assumes s: "source_ok (stream y)" and up: "upcoming (stream y) (meta_part f m)"
    and f: "valid_field f" "meta_fits f" "zfp_field_dimensionality f = 1 \<longrightarrow> nx f \<le> 2 ^ 32"
  shows "header_meta m y g = (True, length (meta_part f m), y\<lparr>stream := stream_skip (stream y) (length (meta_part f m))\<rparr>,
    if m AND ZFP_HEADER_META \<noteq> 0 then f\<lparr>sx := 0, sy := 0, sz := 0, sw := 0, data := data g\<rparr> else g)"
proof (cases "m AND ZFP_HEADER_META \<noteq> 0")
  case True
  have "take_bit ZFP_META_BITS (zfp_field_metadata f) = zfp_field_metadata f"
    using zfp_field_metadata_code [OF f(1,2)]
    by (simp only: word_unat_eq_iff unsigned_take_bit_eq take_bit_nat_eq_self ZFP_META_BITS_def)
  then have "stream_read_bits (stream y) ZFP_META_BITS = (zfp_field_metadata f, stream_skip (stream y) ZFP_META_BITS)"
    using read_field_bits [OF s, of "zfp_field_metadata f" ZFP_META_BITS] up header_lengths(2) True by (simp add: meta_part_def)
  then show ?thesis using True metadata_restored [OF f, of g] by (simp add: header_meta_def meta_part_def)
next
  case False
  then show ?thesis using s by (simp add: header_meta_def meta_part_def)
qed

lemma header_mode_eq:
  assumes s: "source_ok (stream y)" and up: "upcoming (stream y) (mode_part z m)"
    and z: "zfp_stream_compression_mode z \<noteq> zfp_mode_null" "mode_exact z" "y = z\<lparr>stream := stream y\<rparr>"
  shows "header_mode m y = (True, length (mode_part z m), y\<lparr>stream := stream_skip (stream y) (length (mode_part z m))\<rparr>)"
proof -
  let ?v = "zfp_stream_mode z"
  have set: "zfp_stream_set_mode (y\<lparr>stream := r\<rparr>) ?v = (zfp_stream_compression_mode z, y\<lparr>stream := r\<rparr>)" for r
  proof -
    have "y\<lparr>stream := r\<rparr> = z\<lparr>stream := r\<rparr>" by (subst z(3)) simp
    then show ?thesis using stream_mode_restored [OF z(1,2), of "z\<lparr>stream := r\<rparr>"] by (cases z) simp
  qed
  consider (none) "m AND ZFP_HEADER_MODE = 0" | (short) "m AND ZFP_HEADER_MODE \<noteq> 0" "?v \<le> ZFP_MODE_SHORT_MAX"
    | (long) "m AND ZFP_HEADER_MODE \<noteq> 0" "?v > ZFP_MODE_SHORT_MAX" "take_bit 12 ?v = 0xfff"
    using mode_short_or_long [of z] by fastforce
  then show ?thesis
  proof cases
    case none
    then show ?thesis using s by (simp add: header_mode_def mode_part_def)
  next
    case short
    then have m: "mode_size z = 12" by (simp add: mode_size_def ZFP_MODE_SHORT_BITS_def not_less [symmetric])
    have "unat ?v < 2 ^ 12" using short by (simp add: word_le_nat_alt ZFP_MODE_SHORT_MAX_def)
    then have "take_bit 12 ?v = ?v" by (simp only: word_unat_eq_iff unsigned_take_bit_eq take_bit_nat_eq_self)
    then have "stream_read_bits (stream y) 12 = (?v, stream_skip (stream y) 12)"
      using read_field_bits [OF s, of ?v 12] up short(1) m by (simp add: mode_part_def)
    then show ?thesis using short m set z(1)
      by (simp add: header_mode_def mode_part_def ZFP_MODE_SHORT_BITS_def Let_def leD)
  next
    case long
    then have m: "mode_size z = 64" by (simp add: mode_size_def ZFP_MODE_LONG_BITS_def)
    have u: "upcoming (stream y) (field_bits ?v 12)" "upcoming (stream_skip (stream y) 12) (field_bits (drop_bit 12 ?v) 52)"
      using up field_bits_split [of 12 64 ?v] s long(1) by (simp_all add: m upcoming_append mode_part_def)
    have r: "stream_read_bits (stream y) 12 = (0xfff, stream_skip (stream y) 12)" using read_field_bits [OF s u(1)] long(3) by simp
    have "take_bit 52 (drop_bit 12 ?v) = drop_bit 12 ?v"
      by (rule bit_word_eqI) (auto simp: bit_take_bit_iff bit_drop_bit_eq dest: bit_lt_len)
    then have r2: "stream_read_bits (stream_skip (stream y) 12) 52 = (drop_bit 12 ?v, stream_skip (stream y) 64)"
      using read_field_bits [OF _ u(2)] s by simp
    have g: "(0xfff :: uint64) > ZFP_MODE_SHORT_MAX" by (simp add: ZFP_MODE_SHORT_MAX_def)
    have sum: "0xfff + push_bit 12 (drop_bit 12 ?v) = ?v" using take_drop_sum [of 12 ?v] long(3) by simp
    show ?thesis using r r2 g sum m set z(1) long(1)
      by (simp add: header_mode_def mode_part_def ZFP_MODE_SHORT_BITS_def ZFP_MODE_LONG_BITS_def Let_def)
  qed
qed

text \<open>C24: a header that was written with any of its three parts is read back with the same mask: the reader
  consumes exactly the bits written, at most \<open>ZFP_HEADER_MAX_BITS\<close>, finds the magic, restores type and dimensions of the
  field and the compression parameters, and returns the same number of bits.\<close>

theorem header_roundtrip:
  fixes z :: "('w::len) zfp_stream"
  assumes s: "sink_ok (stream z)"
    and f: "valid_field f" "meta_fits f" "zfp_field_dimensionality f = 1 \<longrightarrow> nx f \<le> 2 ^ 32"
    and z: "zfp_stream_compression_mode z \<noteq> zfp_mode_null" "mode_exact z"
    and w: "zfp_write_header z f m = (nb, z1)"
  shows "\<exists>z2. zfp_read_header (reopen z z1) g m =
      (nb, z2, if m AND ZFP_HEADER_META \<noteq> 0 then f\<lparr>sx := 0, sy := 0, sz := 0, sw := 0, data := data g\<rparr> else g)
    \<and> zfp_stream_params z2 = zfp_stream_params z \<and> stream_rtell (stream z2) = stream_wtell (stream z1) \<and> nb \<le> ZFP_HEADER_MAX_BITS"
proof -
  let ?c = "header_code z f m" and ?a = "magic_part m" and ?b = "meta_part f m" and ?d = "mode_part z m"
  have e: "nb = length ?c" "z1 = z\<lparr>stream := wappend (stream z) ?c\<rparr>"
    using w write_header_eq [OF s metadata_not_null [OF f(1,2)]] by simp_all
  note r = reopen [OF s e(2)]
  define y where "y = stream (reopen z z1)"
  have ry: "reopen z z1 = z\<lparr>stream := y\<rparr>" and y: "source_ok y" "upcoming y ?c" using r by (simp_all add: y_def)
  have u: "upcoming y ?a" "upcoming (stream_skip y (length ?a)) ?b" "upcoming (stream_skip y (length ?a + length ?b)) ?d"
    using y by (simp_all add: header_code_def upcoming_append)
  have 1: "header_magic m (z\<lparr>stream := y\<rparr>) = (True, length ?a, z\<lparr>stream := stream_skip y (length ?a)\<rparr>)"
    using header_magic_eq [of "z\<lparr>stream := y\<rparr>" m] y(1) u(1) by simp
  have 2: "header_meta m (z\<lparr>stream := stream_skip y (length ?a)\<rparr>) g = (True, length ?b, z\<lparr>stream := stream_skip y (length ?a + length ?b)\<rparr>,
      if m AND ZFP_HEADER_META \<noteq> 0 then f\<lparr>sx := 0, sy := 0, sz := 0, sw := 0, data := data g\<rparr> else g)"
    using header_meta_eq [OF _ _ f, of "z\<lparr>stream := stream_skip y (length ?a)\<rparr>" m g] y(1) u(2) by simp
  have 3: "header_mode m (z\<lparr>stream := stream_skip y (length ?a + length ?b)\<rparr>) =
      (True, length ?d, z\<lparr>stream := stream_skip y (length ?a + length ?b + length ?d)\<rparr>)"
    using header_mode_eq [OF _ _ z, of "z\<lparr>stream := stream_skip y (length ?a + length ?b)\<rparr>" m] y(1) u(3) by simp
  let ?z2 = "z\<lparr>stream := stream_skip y (length ?c)\<rparr>"
  have "zfp_read_header (reopen z z1) g m =
      (nb, ?z2, if m AND ZFP_HEADER_META \<noteq> 0 then f\<lparr>sx := 0, sy := 0, sz := 0, sw := 0, data := data g\<rparr> else g)"
    unfolding ry zfp_read_header_def 1 by (simp add: 2 3 e(1) header_code_def add.assoc)
  moreover have "stream_rtell (stream_skip y (length ?c)) = stream_wtell (stream z1)"
    using r(3) e s by (simp add: y_def rtell_skip sink_ok_def)
  moreover have "nb \<le> ZFP_HEADER_MAX_BITS"
    unfolding e(1) by (simp add: header_code_def magic_part_def meta_part_def mode_part_def header_lengths mode_size_def
        ZFP_MAGIC_BITS_def ZFP_META_BITS_def ZFP_HEADER_MAX_BITS_def ZFP_MODE_LONG_BITS_def ZFP_MODE_SHORT_BITS_def)
  ultimately show ?thesis by (simp add: zfp_stream_params_def)
qed


theorem header_roundtrip_witness:
  "\<exists>nb z1 z2. zfp_write_header (sample_stream 1 4000 30 (- 50)) (zfp_field_3d (Some 0) zfp_type_double 100 200 300) ZFP_HEADER_FULL = (nb, z1)
    \<and> zfp_read_header (reopen (sample_stream 1 4000 30 (- 50)) z1) zfp_field_alloc ZFP_HEADER_FULL =
        (nb, z2, zfp_field_3d None zfp_type_double 100 200 300)
    \<and> zfp_stream_params z2 = (1, 4000, 30, - 50)"
proof -
  let ?z = "sample_stream 1 4000 30 (- 50)" and ?f = "zfp_field_3d (Some 0) zfp_type_double 100 200 300"
  obtain nb z1 where w: "zfp_write_header ?z ?f ZFP_HEADER_FULL = (nb, z1)" by (metis surj_pair)
  have "\<exists>z2. zfp_read_header (reopen ?z z1) zfp_field_alloc ZFP_HEADER_FULL =
      (nb, z2, if ZFP_HEADER_FULL AND ZFP_HEADER_META \<noteq> 0 then ?f\<lparr>sx := 0, sy := 0, sz := 0, sw := 0, data := data zfp_field_alloc\<rparr> else zfp_field_alloc)
    \<and> zfp_stream_params z2 = zfp_stream_params ?z \<and> stream_rtell (stream z2) = stream_wtell (stream z1) \<and> nb \<le> ZFP_HEADER_MAX_BITS"
    by (rule header_roundtrip [OF _ _ _ _ _ _ w])
      (simp_all add: sample_stream_def sink_ok_open valid_field_def meta_fits_def zfp_field_3d_def zfp_field_alloc_def zfp_field_dimensionality_def
        zfp_stream_compression_mode_def mode_exact_def ZFP_MAX_BITS_def ZFP_MIN_EXP_def ZFP_MIN_BITS_def ZFP_MAX_PREC_def)
  then show ?thesis using w
    by (auto simp: ZFP_HEADER_FULL_def ZFP_HEADER_META_def zfp_field_3d_def zfp_field_alloc_def zfp_stream_params_def sample_stream_def)
qed

section \<open>Execution policy\<close>

text \<open>The streams that the interface can produce, as far as the execution policy goes: a stream is opened, the three
  setters of the policy are called, and all other operations leave \<open>exec\<close> alone.\<close>

inductive exec_reachable :: "bool \<Rightarrow> ('w::len) zfp_stream \<Rightarrow> bool" for omp where
  opened: "exec_reachable omp (zfp_stream_open s)"
| execution: "exec_reachable omp z \<Longrightarrow> exec_reachable omp (snd (zfp_stream_set_execution omp z p))"
| threads: "exec_reachable omp z \<Longrightarrow> exec_reachable omp (snd (zfp_stream_set_omp_threads omp z n))"
| chunk_size: "exec_reachable omp z \<Longrightarrow> exec_reachable omp (snd (zfp_stream_set_omp_chunk_size omp z n))"
| other: "exec_reachable omp z \<Longrightarrow> exec z' = exec z \<Longrightarrow> exec_reachable omp z'"

definition exec_ok :: "bool \<Rightarrow> ('w::len) zfp_stream \<Rightarrow> bool" where
  "exec_ok omp z \<longleftrightarrow> (policy (exec z) = zfp_exec_omp \<longleftrightarrow> params (exec z) \<noteq> None) \<and> policy (exec z) \<noteq> zfp_exec_cuda
    \<and> (policy (exec z) = zfp_exec_omp \<longrightarrow> omp)"

lemma exec_ok_set: "exec_ok omp z \<Longrightarrow> exec_ok omp (snd (zfp_stream_set_execution omp z p))"
  by (cases p) (auto simp: exec_ok_def zfp_stream_set_execution_def Let_def)

lemma exec_ok_set_omp:
  "exec_ok omp z \<Longrightarrow> fst (zfp_stream_set_execution omp z zfp_exec_omp) \<Longrightarrow> params (exec (snd (zfp_stream_set_execution omp z zfp_exec_omp))) \<noteq> None"
  by (auto simp: exec_ok_def zfp_stream_set_execution_def Let_def split: if_splits)

lemma exec_reachable_ok: "exec_reachable omp z \<Longrightarrow> exec_ok omp z"
proof (induction rule: exec_reachable.induct)
  case (opened s) then show ?case by (simp add: exec_ok_def zfp_stream_open_def)
next
  case (execution z p) then show ?case by (intro exec_ok_set)
next
  case (threads z n)
  then show ?case using exec_ok_set [of omp z zfp_exec_omp]
    by (auto simp: zfp_stream_set_omp_threads_def exec_ok_def split: prod.splits)
next
  case (chunk_size z n)
  then show ?case using exec_ok_set [of omp z zfp_exec_omp]
    by (auto simp: zfp_stream_set_omp_chunk_size_def exec_ok_def split: prod.splits)
next
  case (other z z') then show ?case by (simp add: exec_ok_def)
qed

text \<open>the OpenMP parameters are allocated whenever the OpenMP policy is in force, for every sequence of calls of the
  interface, so that the two queries never read through a null pointer; a build without OpenMP stays serial.\<close>

theorem exec_params_allocated:
  assumes "exec_reachable omp z"
  shows "zfp_stream_omp_threads z \<noteq> None \<and> zfp_stream_omp_chunk_size z \<noteq> None \<and> (\<not> omp \<longrightarrow> zfp_stream_execution z = zfp_exec_serial)"
  using exec_reachable_ok [OF assms]
  by (cases "policy (exec z)") (auto simp: exec_ok_def zfp_stream_omp_threads_def zfp_stream_omp_chunk_size_def zfp_stream_execution_def)

theorem exec_params_allocated_witness:
  "zfp_stream_omp_threads (snd (zfp_stream_set_omp_chunk_size True (snd (zfp_stream_set_omp_threads True (zfp_stream_open (stream_open (\<lambda>_. 0 :: uint64) 0)) 8)) 100)) \<noteq> None"
  using exec_params_allocated [OF exec_reachable.chunk_size [OF exec_reachable.threads [OF exec_reachable.opened [of True "stream_open (\<lambda>_. 0 :: uint64) 0"], of 8], of 100]]
  by blast

section \<open>Narrow integers\<close>

text \<open>Shifting a value of fewer bits to the left keeps its sign, and shifting it back restores it.\<close>

lemma shifted_value:
  assumes "- (2 ^ n) \<le> v" "v < 2 ^ n" "n + k = 31"
  shows "sint (push_bit k (word_of_int v) :: uint32) div 2 ^ k = v"
proof -
  have "(2 :: int) ^ 31 = 2 ^ n * 2 ^ k" by (simp only: assms(3) power_add [symmetric])
  moreover have "v * 2 ^ k < 2 ^ n * 2 ^ k" by (rule mult_strict_right_mono) (use assms in simp_all)
  moreover have "- (2 ^ n) * 2 ^ k \<le> v * 2 ^ k" by (rule mult_right_mono) (use assms in simp_all)
  ultimately have r: "v * 2 ^ k < 2 ^ 31" "- (2 ^ 31) \<le> v * 2 ^ k" by linarith+
  have "push_bit k (word_of_int v) = (word_of_int (v * 2 ^ k) :: uint32)" by (simp add: push_bit_eq_mult)
  moreover have "sint (word_of_int (v * 2 ^ k) :: uint32) = v * 2 ^ k" unfolding sint_sbintrunc' by (rule signed_take_bit_int_eq_self) (use r in simp_all)
  ultimately show ?thesis by (simp only:) simp
qed

lemma sint_range: "- (2 ^ (LENGTH('a) - 1)) \<le> sint x \<and> sint x < 2 ^ (LENGTH('a) - 1)" for x :: "'a::len word"
  using sint_ge [of x] sint_lt [of x] by simp

lemma uint_range: "0 \<le> uint x \<and> uint x < 2 ^ LENGTH('a)" for x :: "'a::len word"
  by simp

text \<open>Promoting a block of 8-bit or 16-bit integers, signed or unsigned, to 32 bits and demoting the result
  gives back the block.\<close>

theorem promote_demote_roundtrip:
  assumes "length b8 = 2 ^ (2 * dims)" "length b16 = 2 ^ (2 * dims)"
  shows "zfp_demote_int32_to_int8 (zfp_promote_int8_to_int32 b8 dims) dims = b8
    \<and> zfp_demote_int32_to_uint8 (zfp_promote_uint8_to_int32 b8 dims) dims = b8
    \<and> zfp_demote_int32_to_int16 (zfp_promote_int16_to_int32 b16 dims) dims = b16
    \<and> zfp_demote_int32_to_uint16 (zfp_promote_uint16_to_int32 b16 dims) dims = b16"
proof -
  have r8: "- 128 \<le> sint x" "sint x \<le> 127" for x :: "8 word" using sint_range [of x] by simp_all
  have s8: "sint (push_bit 23 (scast x) :: uint32) div 2 ^ 23 = sint x" for x :: "8 word"
    unfolding scast_eq by (rule shifted_value [of 8]) (use r8 [of x] in simp_all)
  have v8: "0 \<le> uint x" "uint x \<le> 255" for x :: "8 word" using uint_range [of x] by simp_all
  have c8: "ucast x - 0x80 = (word_of_int (uint x - 128) :: uint32)" for x :: "8 word" by (simp only: ucast_eq of_int_diff of_int_numeral)
  have u8: "sint (push_bit 23 (ucast x - 0x80) :: uint32) div 2 ^ 23 = uint x - 128" for x :: "8 word"
    unfolding c8 by (rule shifted_value [of 8]) (use v8 [of x] in simp_all)
  have r16: "- 32768 \<le> sint x" "sint x \<le> 32767" for x :: "16 word" using sint_range [of x] by simp_all
  have s16: "sint (push_bit 15 (scast x) :: uint32) div 2 ^ 15 = sint x" for x :: "16 word"
    unfolding scast_eq by (rule shifted_value [of 16]) (use r16 [of x] in simp_all)
  have v16: "0 \<le> uint x" "uint x \<le> 65535" for x :: "16 word" using uint_range [of x] by simp_all
  have c16: "ucast x - 0x8000 = (word_of_int (uint x - 32768) :: uint32)" for x :: "16 word" by (simp only: ucast_eq of_int_diff of_int_numeral)
  have u16: "sint (push_bit 15 (ucast x - 0x8000) :: uint32) div 2 ^ 15 = uint x - 32768" for x :: "16 word"
    unfolding c16 by (rule shifted_value [of 16]) (use v16 [of x] in simp_all)
  have w: "word_of_int (sint x) = x" "word_of_int (sint y) = y" for x :: "8 word" and y :: "16 word" by simp_all
  have l: "map (\<lambda>k. f (map g [0..<2 ^ (2 * dims)] ! k)) [0..<2 ^ (2 * dims)] = b"
    if "length b = 2 ^ (2 * dims)" "\<And>k. k < 2 ^ (2 * dims) \<Longrightarrow> f (g k) = b ! k" for f g and b :: "'b list"
    by (rule nth_equalityI) (use that in simp_all)
  show ?thesis
    unfolding zfp_demote_int32_to_int8_def zfp_promote_int8_to_int32_def zfp_demote_int32_to_uint8_def zfp_promote_uint8_to_int32_def
      zfp_demote_int32_to_int16_def zfp_promote_int16_to_int32_def zfp_demote_int32_to_uint16_def zfp_promote_uint16_to_int32_def Let_def
    by (intro conjI l) (simp_all only: assms r8 r16 v8 v16 s8 u8 s16 u16 max_absorb2 min_absorb1 diff_add_cancel word_of_int_uint w)
qed

theorem promote_demote_roundtrip_witness:
  "zfp_demote_int32_to_uint8 (zfp_promote_uint8_to_int32 [0, 127, 128, 255] 1) 1 = [0, 127, 128, 255]"
  using promote_demote_roundtrip [of "[0, 127, 128, 255]" 1 "[0, 0, 0, 0]"] by simp

section \<open>Setting the mode\<close>

text \<open>The setters put the stream in the mode they are named after, with a valid set of parameters, for every
  precision below 64 bits, every rate that gives from 1 to \<open>ZFP_MAX_BITS\<close> bits per block, and every tolerance above the least
  positive number. (The largest precision and a zero tolerance select the default parameters, which count as
  expert mode.) The queries return what was set.\<close>

theorem setters_select_mode:
  assumes "1 \<le> prec" "prec < ZFP_MAX_PREC" and rate: "zfp_stream_set_rate z rate t d align = (r, zr)" "1 \<le> maxbits zr" "maxbits zr \<le> ZFP_MAX_BITS"
    and acc: "zfp_stream_set_accuracy u z tol = (tol', za)" "ZFP_MIN_EXP < minexp za"
  shows "zfp_stream_compression_mode (zfp_stream_set_reversible z) = zfp_mode_reversible
    \<and> zfp_stream_compression_mode (snd (zfp_stream_set_precision z prec)) = zfp_mode_fixed_precision
    \<and> zfp_stream_precision (snd (zfp_stream_set_precision z prec)) = prec
    \<and> zfp_stream_compression_mode zr = zfp_mode_fixed_rate \<and> zfp_stream_rate zr d = r
    \<and> zfp_stream_compression_mode za = zfp_mode_fixed_accuracy \<and> (float_less 0 tol \<longrightarrow> zfp_stream_accuracy za = tol')"
proof -
  have zr: "minbits zr = maxbits zr" "maxprec zr = 64" "minexp zr = - 1074" "r = of_nat (maxbits zr) / of_nat (2 ^ (2 * d))"
    using rate(1) by (auto simp: zfp_stream_set_rate_def Let_def ZFP_MAX_PREC_def ZFP_MIN_EXP_def)
  have mr: "zfp_stream_compression_mode zr = zfp_mode_fixed_rate"
    using zr rate by (auto simp: zfp_stream_compression_mode_def ZFP_MAX_PREC_def ZFP_MIN_EXP_def ZFP_MIN_BITS_def ZFP_MAX_BITS_def)
  have za: "minbits za = 1" "maxbits za = 16658" "maxprec za = 64" "float_less 0 tol \<Longrightarrow> tol' = float_ldexp (float_of_int 1) (minexp za)"
    using acc(1) by (auto simp: zfp_stream_set_accuracy_def Let_def ZFP_MAX_PREC_def ZFP_MIN_BITS_def ZFP_MAX_BITS_def)
  have ma: "zfp_stream_compression_mode za = zfp_mode_fixed_accuracy"
    using za acc(2) by (simp add: zfp_stream_compression_mode_def ZFP_MAX_PREC_def ZFP_MIN_EXP_def ZFP_MIN_BITS_def ZFP_MAX_BITS_def)
  have mp: "zfp_stream_compression_mode (snd (zfp_stream_set_precision z prec)) = zfp_mode_fixed_precision"
    "maxprec (snd (zfp_stream_set_precision z prec)) = prec"
    using assms(1,2) by (simp_all add: zfp_stream_set_precision_def Let_def zfp_stream_compression_mode_def ZFP_MAX_PREC_def ZFP_MIN_EXP_def ZFP_MIN_BITS_def ZFP_MAX_BITS_def)
  have "zfp_stream_compression_mode (zfp_stream_set_reversible z) = zfp_mode_reversible"
    by (simp add: zfp_stream_set_reversible_def zfp_stream_compression_mode_def ZFP_MAX_PREC_def ZFP_MIN_EXP_def ZFP_MIN_BITS_def ZFP_MAX_BITS_def)
  then show ?thesis using mr ma mp zr za by (simp add: zfp_stream_precision_def zfp_stream_rate_def zfp_stream_accuracy_def)
qed

theorem setters_select_mode_witness:
  "zfp_stream_compression_mode (snd (zfp_stream_set_rate (sample_stream 0 0 0 0) 8 zfp_type_float 2 False)) = zfp_mode_fixed_rate
    \<and> zfp_stream_compression_mode (snd (zfp_stream_set_accuracy (plain_unspecified 0) (sample_stream 0 0 0 0) 0x3f50000000000000)) = zfp_mode_fixed_accuracy"
proof -
  let ?z = "sample_stream 0 0 0 0" and ?t = "0x3f50000000000000 :: uint64"
  obtain r zr where r: "zfp_stream_set_rate ?z 8 zfp_type_float 2 False = (r, zr)" by (metis surj_pair)
  obtain t za where a: "zfp_stream_set_accuracy (plain_unspecified 0) ?z ?t = (t, za)" by (metis surj_pair)
  have "\<lfloor>1 / 2 :: rat\<rfloor> = 0" by (simp add: floor_eq_iff)
  then have "maxbits zr = 128" using r by (auto simp: zfp_stream_set_rate_def Let_def)
  then have mb: "1 \<le> maxbits zr" "maxbits zr \<le> ZFP_MAX_BITS" by (simp_all add: ZFP_MAX_BITS_def)
  have "float_less 0 ?t" by code_simp
  moreover have "float_val ?t = Finite False (2 ^ 52) (- 62)" by code_simp
  moreover have "bitlen (2 ^ 52) = 53" by code_simp
  ultimately have "minexp za = - 10" using a by (auto simp: zfp_stream_set_accuracy_def Let_def float_frexp_def)
  then have me: "ZFP_MIN_EXP < minexp za" by (simp add: ZFP_MIN_EXP_def)
  show ?thesis using setters_select_mode [OF _ _ r mb a me, of 20] r a by (simp add: ZFP_MAX_PREC_def)
qed

end
