(* ===== verification/Compress.thy ===== *)
theory Compress
  imports Zfp_Api
begin

text \<open>
  Serial compression and decompression of whole arrays: \<^verbatim>\<open>src/template/compress.c\<close> and \<^verbatim>\<open>src/template/decompress.c\<close>. The
  five functions of each file are loops over the blocks of an array, with full blocks passed to the strided block functions and blocks
  at the boundary to the functions for partial blocks. The second part writes every one of them as one pass over the list of the
  corners of the blocks (\<open>encode_blocks\<close>, \<open>decode_blocks\<close>), for any number of dimensions; the third treats the contiguous
  one-dimensional functions, which work with a moving pointer and a 32-bit mask.
\<close>

section \<open>Serial compression\<close>

definition blocks_loop :: "nat \<Rightarrow> (nat \<Rightarrow> 's \<Rightarrow> 's) \<Rightarrow> 's \<Rightarrow> 's" where
  "blocks_loop n body = for_loop ((n + 3) div 4) (\<lambda>i. body (4 * i))"

definition stride_x :: "zfp_field \<Rightarrow> int" where
  "stride_x f = (if sx f \<noteq> 0 then sx f else 1)"

definition stride_y :: "zfp_field \<Rightarrow> int" where
  "stride_y f = (if sy f \<noteq> 0 then sy f else int (nx f))"

definition stride_z :: "zfp_field \<Rightarrow> int" where
  "stride_z f = (if sz f \<noteq> 0 then sz f else int (nx f * ny f))"

definition stride_w :: "zfp_field \<Rightarrow> int" where
  "stride_w f = (if sw f \<noteq> 0 then sw f else int (nx f * ny f * nz f))"

definition whole_blocks :: "nat \<Rightarrow> nat" where
  "whole_blocks n = unat (of_nat n AND ucast (NOT 3 :: uint32) :: uint64)"

text \<open>The value of \<open>x\<close> after the loop over the whole blocks of a contiguous one-dimensional array.\<close>

definition blocks_end :: "nat \<Rightarrow> nat" where
  "blocks_end n = (let mx = whole_blocks n in 4 * ((mx + 3) div 4))"

text \<open>The function \<open>enc\<close> that is called for the partial block at the end is an argument, so that one can state which arguments it is called with.\<close>

definition compress_1_calling ::
  "('w zfp_stream \<Rightarrow> 'i word array \<Rightarrow> int \<Rightarrow> nat \<Rightarrow> int \<Rightarrow> nat \<times> 'w zfp_stream) \<Rightarrow>
    ('i::len) word scalar \<Rightarrow> ('w::len) zfp_stream \<Rightarrow> 'i word array \<Rightarrow> zfp_field \<Rightarrow> 'w zfp_stream" where
  "compress_1_calling enc t zfp a f =
    (let n = nx f;
         mx = whole_blocks n;
         (zfp, p) = blocks_loop mx (\<lambda>x (zfp, p). (snd (zfp_encode_block t 1 zfp (map (\<lambda>i. a (p + int i)) [0..<4])), p + 4)) (zfp, 0);
         x = blocks_end n
     in if x < n then snd (enc zfp a p (n - x) 1) else zfp)"

definition compress_1 ::
  "('i::len) word scalar \<Rightarrow> ('w::len) zfp_stream \<Rightarrow> 'i word array \<Rightarrow> zfp_field \<Rightarrow> 'w zfp_stream" where
  "compress_1 t = compress_1_calling (zfp_encode_partial_block_strided_1 t) t"

definition compress_strided_1 ::
  "('i::len) word scalar \<Rightarrow> ('w::len) zfp_stream \<Rightarrow> 'i word array \<Rightarrow> zfp_field \<Rightarrow> 'w zfp_stream" where
  "compress_strided_1 t zfp a f =
    (blocks_loop (nx f) (\<lambda>x zfp.
       let p = stride_x f * int x
       in if nx f - x < 4
          then snd (zfp_encode_partial_block_strided_1 t zfp a p (nx f - x) (stride_x f))
          else snd (zfp_encode_block_strided_1 t zfp a p (stride_x f))) zfp)"

definition compress_strided_2 ::
  "('i::len) word scalar \<Rightarrow> ('w::len) zfp_stream \<Rightarrow> 'i word array \<Rightarrow> zfp_field \<Rightarrow> 'w zfp_stream" where
  "compress_strided_2 t zfp a f =
    (blocks_loop (ny f) (\<lambda>y.
      blocks_loop (nx f) (\<lambda>x zfp.
        let p = stride_x f * int x + stride_y f * int y
        in if nx f - x < 4 \<or> ny f - y < 4
           then snd (zfp_encode_partial_block_strided_2 t zfp a p (min (nx f - x) 4) (min (ny f - y) 4) (stride_x f) (stride_y f))
           else snd (zfp_encode_block_strided_2 t zfp a p (stride_x f) (stride_y f)))) zfp)"

definition compress_strided_3 ::
  "('i::len) word scalar \<Rightarrow> ('w::len) zfp_stream \<Rightarrow> 'i word array \<Rightarrow> zfp_field \<Rightarrow> 'w zfp_stream" where
  "compress_strided_3 t zfp a f =
    (blocks_loop (nz f) (\<lambda>z.
      blocks_loop (ny f) (\<lambda>y.
       blocks_loop (nx f) (\<lambda>x zfp.
         let p = stride_x f * int x + stride_y f * int y + stride_z f * int z
         in if nx f - x < 4 \<or> ny f - y < 4 \<or> nz f - z < 4
            then snd (zfp_encode_partial_block_strided_3 t zfp a p (min (nx f - x) 4) (min (ny f - y) 4) (min (nz f - z) 4) (stride_x f) (stride_y f) (stride_z f))
            else snd (zfp_encode_block_strided_3 t zfp a p (stride_x f) (stride_y f) (stride_z f))))) zfp)"

definition compress_strided_4 ::
  "('i::len) word scalar \<Rightarrow> ('w::len) zfp_stream \<Rightarrow> 'i word array \<Rightarrow> zfp_field \<Rightarrow> 'w zfp_stream" where
  "compress_strided_4 t zfp a f =
    (blocks_loop (nw f) (\<lambda>w.
      blocks_loop (nz f) (\<lambda>z.
       blocks_loop (ny f) (\<lambda>y.
        blocks_loop (nx f) (\<lambda>x zfp.
          let p = stride_x f * int x + stride_y f * int y + stride_z f * int z + stride_w f * int w
          in if nx f - x < 4 \<or> ny f - y < 4 \<or> nz f - z < 4 \<or> nw f - w < 4
             then snd (zfp_encode_partial_block_strided_4 t zfp a p (min (nx f - x) 4) (min (ny f - y) 4) (min (nz f - z) 4) (min (nw f - w) 4) (stride_x f) (stride_y f) (stride_z f) (stride_w f))
             else snd (zfp_encode_block_strided_4 t zfp a p (stride_x f) (stride_y f) (stride_z f) (stride_w f)))))) zfp)"

section \<open>Serial decompression\<close>

definition decompress_1 ::
  "('i::len) word scalar \<Rightarrow> ('w::len) zfp_stream \<Rightarrow> 'i word array \<Rightarrow> zfp_field \<Rightarrow> 'i word array \<times> 'w zfp_stream" where
  "decompress_1 t zfp a f =
    (let n = nx f;
         mx = whole_blocks n;
         (zfp, a, p) = blocks_loop mx (\<lambda>x (zfp, a, p).
             let (_, block, zfp) = zfp_decode_block t 1 zfp (map (\<lambda>i. a (p + int i)) [0..<4])
             in (zfp, for_loop 4 (\<lambda>i a. a(p + int i := block ! i)) a, p + 4)) (zfp, a, 0);
         x = blocks_end n
     in if x < n then snd (zfp_decode_partial_block_strided_1 t zfp a p (n - x) 1) else (a, zfp))"

definition decompress_strided_1 ::
  "('i::len) word scalar \<Rightarrow> ('w::len) zfp_stream \<Rightarrow> 'i word array \<Rightarrow> zfp_field \<Rightarrow> 'i word array \<times> 'w zfp_stream" where
  "decompress_strided_1 t zfp a f =
    (blocks_loop (nx f) (\<lambda>x (a, zfp).
       let p = stride_x f * int x
       in if nx f - x < 4
          then snd (zfp_decode_partial_block_strided_1 t zfp a p (nx f - x) (stride_x f))
          else snd (zfp_decode_block_strided_1 t zfp a p (stride_x f))) (a, zfp))"

definition decompress_strided_2 ::
  "('i::len) word scalar \<Rightarrow> ('w::len) zfp_stream \<Rightarrow> 'i word array \<Rightarrow> zfp_field \<Rightarrow> 'i word array \<times> 'w zfp_stream" where
  "decompress_strided_2 t zfp a f =
    (blocks_loop (ny f) (\<lambda>y.
      blocks_loop (nx f) (\<lambda>x (a, zfp).
        let p = stride_x f * int x + stride_y f * int y
        in if nx f - x < 4 \<or> ny f - y < 4
           then snd (zfp_decode_partial_block_strided_2 t zfp a p (min (nx f - x) 4) (min (ny f - y) 4) (stride_x f) (stride_y f))
           else snd (zfp_decode_block_strided_2 t zfp a p (stride_x f) (stride_y f)))) (a, zfp))"

definition decompress_strided_3 ::
  "('i::len) word scalar \<Rightarrow> ('w::len) zfp_stream \<Rightarrow> 'i word array \<Rightarrow> zfp_field \<Rightarrow> 'i word array \<times> 'w zfp_stream" where
  "decompress_strided_3 t zfp a f =
    (blocks_loop (nz f) (\<lambda>z.
      blocks_loop (ny f) (\<lambda>y.
       blocks_loop (nx f) (\<lambda>x (a, zfp).
         let p = stride_x f * int x + stride_y f * int y + stride_z f * int z
         in if nx f - x < 4 \<or> ny f - y < 4 \<or> nz f - z < 4
            then snd (zfp_decode_partial_block_strided_3 t zfp a p (min (nx f - x) 4) (min (ny f - y) 4) (min (nz f - z) 4) (stride_x f) (stride_y f) (stride_z f))
            else snd (zfp_decode_block_strided_3 t zfp a p (stride_x f) (stride_y f) (stride_z f))))) (a, zfp))"

definition decompress_strided_4 ::
  "('i::len) word scalar \<Rightarrow> ('w::len) zfp_stream \<Rightarrow> 'i word array \<Rightarrow> zfp_field \<Rightarrow> 'i word array \<times> 'w zfp_stream" where
  "decompress_strided_4 t zfp a f =
    (blocks_loop (nw f) (\<lambda>w.
      blocks_loop (nz f) (\<lambda>z.
       blocks_loop (ny f) (\<lambda>y.
        blocks_loop (nx f) (\<lambda>x (a, zfp).
          let p = stride_x f * int x + stride_y f * int y + stride_z f * int z + stride_w f * int w
          in if nx f - x < 4 \<or> ny f - y < 4 \<or> nz f - z < 4 \<or> nw f - w < 4
             then snd (zfp_decode_partial_block_strided_4 t zfp a p (min (nx f - x) 4) (min (ny f - y) 4) (min (nz f - z) 4) (min (nw f - w) 4) (stride_x f) (stride_y f) (stride_z f) (stride_w f))
             else snd (zfp_decode_block_strided_4 t zfp a p (stride_x f) (stride_y f) (stride_z f) (stride_w f)))))) (a, zfp))"

section \<open>Sequences of blocks\<close>

text \<open>The corners of the blocks of an array, in the order of the loops, and the number of values of a block along each axis.\<close>

definition block_counts :: "nat list \<Rightarrow> nat list" where
  "block_counts ns = map (\<lambda>n. (n + 3) div 4) ns"

definition corners :: "nat list \<Rightarrow> nat list list" where
  "corners ns = map (map ((*) 4)) (box (block_counts ns))"

definition extent :: "nat list \<Rightarrow> nat list \<Rightarrow> nat list" where
  "extent ns xs = map2 (\<lambda>n x. min (n - x) 4) ns xs"

definition block_at :: "int list \<Rightarrow> nat list \<Rightarrow> ('i::len) word array \<Rightarrow> nat list \<Rightarrow> 'i word list" where
  "block_at ss ns a xs = gather_partial_block ss (extent ns xs) (replicate (4 ^ length ss) 0) a (offset ss xs)"

definition encode_at ::
  "('i::len) word scalar \<Rightarrow> int list \<Rightarrow> nat list \<Rightarrow> 'i word array \<Rightarrow> nat list \<Rightarrow> ('w::len) zfp_stream \<Rightarrow> 'w zfp_stream" where
  "encode_at t ss ns a xs z = snd (zfp_encode_block t (length ss) z (block_at ss ns a xs))"

definition decode_at ::
  "('i::len) word scalar \<Rightarrow> int list \<Rightarrow> nat list \<Rightarrow> nat list \<Rightarrow> 'i word array \<times> ('w::len) zfp_stream \<Rightarrow> 'i word array \<times> 'w zfp_stream" where
  "decode_at t ss ns xs = (\<lambda>(a, z).
    let (_, block, z) = zfp_decode_block t (length ss) z (replicate (4 ^ length ss) 0)
    in (scatter_partial_block ss (extent ns xs) block a (offset ss xs), z))"

lemma fold_box: "fold F (box (n # ns)) = fold (\<lambda>r. for_loop n (\<lambda>x. F (x # r))) (box ns)"
proof -
  have "fold F (concat (map (\<lambda>r. map (\<lambda>x. x # r) [0..<n]) rs)) = fold (\<lambda>r. for_loop n (\<lambda>x. F (x # r))) rs" for rs
    by (induction rs) (simp_all add: fun_eq_iff for_loop_def fold_map comp_def)
  then show ?thesis by simp
qed

lemma blocks_loop_cong:
  assumes "\<And>x. x < n \<Longrightarrow> 4 dvd x \<Longrightarrow> f x = g x"
  shows "blocks_loop n f = blocks_loop n g"
proof
  fix s
  have "f (4 * i) = g (4 * i)" if "i < (n + 3) div 4" for i using that assms [of "4 * i"] by simp
  then have "for_loop m (\<lambda>i. f (4 * i)) s = for_loop m (\<lambda>i. g (4 * i)) s" if "m \<le> (n + 3) div 4" for m
    using that by (induction m) simp_all
  then show "blocks_loop n f s = blocks_loop n g s" by (simp add: blocks_loop_def)
qed

text \<open>Nested loops visit the corners in order.\<close>

lemma fold_corners:
  "fold F (corners [n0]) = blocks_loop n0 (\<lambda>x. F [x])"
  "fold F (corners [n0, n1]) = blocks_loop n1 (\<lambda>y. blocks_loop n0 (\<lambda>x. F [x, y]))"
  "fold F (corners [n0, n1, n2]) = blocks_loop n2 (\<lambda>z. blocks_loop n1 (\<lambda>y. blocks_loop n0 (\<lambda>x. F [x, y, z])))"
  "fold F (corners [n0, n1, n2, n3]) =
    blocks_loop n3 (\<lambda>w. blocks_loop n2 (\<lambda>z. blocks_loop n1 (\<lambda>y. blocks_loop n0 (\<lambda>x. F [x, y, z, w]))))"
  by (simp_all add: corners_def block_counts_def fold_map comp_def fold_box blocks_loop_def fun_eq_iff del: box.simps(2))

lemma map2_pad_index_full: "length xs = d \<Longrightarrow> list_all2 (<) xs (replicate d 4) \<Longrightarrow> map2 pad_index (replicate d 4) xs = xs"
  by (rule map2_pad_index)

lemma gather_block_full:
  assumes "1 \<le> length ss" "length ss \<le> 4" "length q = 4 ^ length ss"
  shows "gather_block ss q a p = gather_partial_block ss (replicate (length ss) 4) q a p"
proof -
  have "block_sizes ss (replicate (length ss) 4)" using assms by (simp add: block_sizes_def)
  from gather_partial_block_eq [OF this assms(3)] gather_block_eq [OF assms]
  show ?thesis by (simp add: set_box map2_pad_index)
qed

text \<open>The bodies of the loops: whether a block is full makes no difference.\<close>

lemmas numeral_eqs = numeral_2_eq_2 numeral_3_eq_3

lemma block_at_full:
  assumes "1 \<le> length ss" "length ss \<le> 4" "extent ns xs = replicate (length ss) 4"
  shows "block_at ss ns a xs = gather_block ss (replicate (4 ^ length ss) 0) a (offset ss xs)"
  using assms by (simp add: block_at_def gather_block_full)

lemma scatter_at_full:
  assumes "1 \<le> length ss" "length ss \<le> 4" "extent ns xs = replicate (length ss) 4"
  shows "scatter_partial_block ss (extent ns xs) q a p = scatter_block ss q a p"
  using assms by (simp add: scatter_block_full)

lemma encode_body_1:
  "(let p = s0 * int x
    in if n0 - x < 4
       then snd (zfp_encode_partial_block_strided_1 t zfp a p (n0 - x) s0)
       else snd (zfp_encode_block_strided_1 t zfp a p s0)) = encode_at t [s0] [n0] a [x] zfp"
proof -
  have l: "length [s0] = 1" and e: "extent [n0] [x] = [min (n0 - x) 4]"
    and o: "offset [s0] [x] = s0 * int x" by (simp_all add: extent_def)
  show ?thesis
  proof (cases "n0 - x < 4")
    case True
    then show ?thesis
      unfolding encode_at_def block_at_def l e o zfp_encode_partial_block_strided_1_def gather_partial_block_def by (simp add: Let_def min_def)
  next
    case False
    then have f: "extent [n0] [x] = replicate (length [s0]) 4" by (simp add: e)
    have b: "block_at [s0] [n0] a [x] = gather_block [s0] (replicate (4 ^ length [s0]) 0) a (offset [s0] [x])"
      by (rule block_at_full) (simp_all add: f)
    show ?thesis
      unfolding encode_at_def b l o zfp_encode_block_strided_1_def gather_block_def using False by (simp add: Let_def)
  qed
qed

lemma decode_body_1:
  "(let p = s0 * int x
    in if n0 - x < 4
       then snd (zfp_decode_partial_block_strided_1 t zfp a p (n0 - x) s0)
       else snd (zfp_decode_block_strided_1 t zfp a p s0)) = decode_at t [s0] [n0] [x] (a, zfp)"
proof -
  have l: "length [s0] = 1" and e: "extent [n0] [x] = [min (n0 - x) 4]"
    and o: "offset [s0] [x] = s0 * int x" by (simp_all add: extent_def)
  show ?thesis
  proof (cases "n0 - x < 4")
    case True
    then show ?thesis
      unfolding decode_at_def l e o zfp_decode_partial_block_strided_1_def scatter_partial_block_def by (simp add: Let_def min_def split: prod.split)
  next
    case False
    then have f: "extent [n0] [x] = replicate (length [s0]) 4" by (simp add: e)
    have b: "scatter_partial_block [s0] (extent [n0] [x]) q a p = scatter_block [s0] q a p" for q a p
      by (rule scatter_at_full) (simp_all add: f)
    show ?thesis
      unfolding decode_at_def b l o zfp_decode_block_strided_1_def scatter_block_def using False by (simp add: Let_def split: prod.split)
  qed
qed

lemma encode_body_2:
  "(let p = s0 * int x + s1 * int y
    in if n0 - x < 4 \<or> n1 - y < 4
       then snd (zfp_encode_partial_block_strided_2 t zfp a p (min (n0 - x) 4) (min (n1 - y) 4) s0 s1)
       else snd (zfp_encode_block_strided_2 t zfp a p s0 s1)) = encode_at t [s0, s1] [n0, n1] a [x, y] zfp"
proof -
  have l: "length [s0, s1] = 2" and e: "extent [n0, n1] [x, y] = [min (n0 - x) 4, min (n1 - y) 4]"
    and o: "offset [s0, s1] [x, y] = s0 * int x + s1 * int y" by (simp_all add: extent_def)
  show ?thesis
  proof (cases "n0 - x < 4 \<or> n1 - y < 4")
    case True
    then show ?thesis
      unfolding encode_at_def block_at_def l e o zfp_encode_partial_block_strided_2_def gather_partial_block_def by (simp add: Let_def)
  next
    case False
    then have f: "extent [n0, n1] [x, y] = replicate (length [s0, s1]) 4" by (simp add: e)
    have b: "block_at [s0, s1] [n0, n1] a [x, y] = gather_block [s0, s1] (replicate (4 ^ length [s0, s1]) 0) a (offset [s0, s1] [x, y])"
      by (rule block_at_full) (simp_all add: f)
    show ?thesis
      unfolding encode_at_def b l o zfp_encode_block_strided_2_def gather_block_def using False by (simp add: Let_def)
  qed
qed

lemma decode_body_2:
  "(let p = s0 * int x + s1 * int y
    in if n0 - x < 4 \<or> n1 - y < 4
       then snd (zfp_decode_partial_block_strided_2 t zfp a p (min (n0 - x) 4) (min (n1 - y) 4) s0 s1)
       else snd (zfp_decode_block_strided_2 t zfp a p s0 s1)) = decode_at t [s0, s1] [n0, n1] [x, y] (a, zfp)"
proof -
  have l: "length [s0, s1] = 2" and e: "extent [n0, n1] [x, y] = [min (n0 - x) 4, min (n1 - y) 4]"
    and o: "offset [s0, s1] [x, y] = s0 * int x + s1 * int y" by (simp_all add: extent_def)
  show ?thesis
  proof (cases "n0 - x < 4 \<or> n1 - y < 4")
    case True
    then show ?thesis
      unfolding decode_at_def l e o zfp_decode_partial_block_strided_2_def scatter_partial_block_def by (simp add: Let_def split: prod.split)
  next
    case False
    then have f: "extent [n0, n1] [x, y] = replicate (length [s0, s1]) 4" by (simp add: e)
    have b: "scatter_partial_block [s0, s1] (extent [n0, n1] [x, y]) q a p = scatter_block [s0, s1] q a p" for q a p
      by (rule scatter_at_full) (simp_all add: f)
    show ?thesis
      unfolding decode_at_def b l o zfp_decode_block_strided_2_def scatter_block_def using False by (simp add: Let_def split: prod.split)
  qed
qed

lemma encode_body_3:
  "(let p = s0 * int x + s1 * int y + s2 * int z
    in if n0 - x < 4 \<or> n1 - y < 4 \<or> n2 - z < 4
       then snd (zfp_encode_partial_block_strided_3 t zfp a p (min (n0 - x) 4) (min (n1 - y) 4) (min (n2 - z) 4) s0 s1 s2)
       else snd (zfp_encode_block_strided_3 t zfp a p s0 s1 s2)) = encode_at t [s0, s1, s2] [n0, n1, n2] a [x, y, z] zfp"
proof -
  have l: "length [s0, s1, s2] = 3" and e: "extent [n0, n1, n2] [x, y, z] = [min (n0 - x) 4, min (n1 - y) 4, min (n2 - z) 4]"
    and o: "offset [s0, s1, s2] [x, y, z] = s0 * int x + s1 * int y + s2 * int z" by (simp_all add: extent_def)
  show ?thesis
  proof (cases "n0 - x < 4 \<or> n1 - y < 4 \<or> n2 - z < 4")
    case True
    then show ?thesis
      unfolding encode_at_def block_at_def l e o zfp_encode_partial_block_strided_3_def gather_partial_block_def by (simp add: Let_def)
  next
    case False
    then have f: "extent [n0, n1, n2] [x, y, z] = replicate (length [s0, s1, s2]) 4" by (simp add: e)
    have b: "block_at [s0, s1, s2] [n0, n1, n2] a [x, y, z] = gather_block [s0, s1, s2] (replicate (4 ^ length [s0, s1, s2]) 0) a (offset [s0, s1, s2] [x, y, z])"
      by (rule block_at_full) (simp_all add: f)
    show ?thesis
      unfolding encode_at_def b l o zfp_encode_block_strided_3_def gather_block_def using False by (simp add: Let_def)
  qed
qed

lemma decode_body_3:
  "(let p = s0 * int x + s1 * int y + s2 * int z
    in if n0 - x < 4 \<or> n1 - y < 4 \<or> n2 - z < 4
       then snd (zfp_decode_partial_block_strided_3 t zfp a p (min (n0 - x) 4) (min (n1 - y) 4) (min (n2 - z) 4) s0 s1 s2)
       else snd (zfp_decode_block_strided_3 t zfp a p s0 s1 s2)) = decode_at t [s0, s1, s2] [n0, n1, n2] [x, y, z] (a, zfp)"
proof -
  have l: "length [s0, s1, s2] = 3" and e: "extent [n0, n1, n2] [x, y, z] = [min (n0 - x) 4, min (n1 - y) 4, min (n2 - z) 4]"
    and o: "offset [s0, s1, s2] [x, y, z] = s0 * int x + s1 * int y + s2 * int z" by (simp_all add: extent_def)
  show ?thesis
  proof (cases "n0 - x < 4 \<or> n1 - y < 4 \<or> n2 - z < 4")
    case True
    then show ?thesis
      unfolding decode_at_def l e o zfp_decode_partial_block_strided_3_def scatter_partial_block_def by (simp add: Let_def split: prod.split)
  next
    case False
    then have f: "extent [n0, n1, n2] [x, y, z] = replicate (length [s0, s1, s2]) 4" by (simp add: e)
    have b: "scatter_partial_block [s0, s1, s2] (extent [n0, n1, n2] [x, y, z]) q a p = scatter_block [s0, s1, s2] q a p" for q a p
      by (rule scatter_at_full) (simp_all add: f)
    show ?thesis
      unfolding decode_at_def b l o zfp_decode_block_strided_3_def scatter_block_def using False by (simp add: Let_def split: prod.split)
  qed
qed

lemma encode_body_4:
  "(let p = s0 * int x + s1 * int y + s2 * int z + s3 * int w
    in if n0 - x < 4 \<or> n1 - y < 4 \<or> n2 - z < 4 \<or> n3 - w < 4
       then snd (zfp_encode_partial_block_strided_4 t zfp a p (min (n0 - x) 4) (min (n1 - y) 4) (min (n2 - z) 4) (min (n3 - w) 4) s0 s1 s2 s3)
       else snd (zfp_encode_block_strided_4 t zfp a p s0 s1 s2 s3)) = encode_at t [s0, s1, s2, s3] [n0, n1, n2, n3] a [x, y, z, w] zfp"
proof -
  have l: "length [s0, s1, s2, s3] = 4" and e: "extent [n0, n1, n2, n3] [x, y, z, w] = [min (n0 - x) 4, min (n1 - y) 4, min (n2 - z) 4, min (n3 - w) 4]"
    and o: "offset [s0, s1, s2, s3] [x, y, z, w] = s0 * int x + s1 * int y + s2 * int z + s3 * int w" by (simp_all add: extent_def)
  show ?thesis
  proof (cases "n0 - x < 4 \<or> n1 - y < 4 \<or> n2 - z < 4 \<or> n3 - w < 4")
    case True
    then show ?thesis
      unfolding encode_at_def block_at_def l e o zfp_encode_partial_block_strided_4_def gather_partial_block_def by (simp add: Let_def)
  next
    case False
    then have f: "extent [n0, n1, n2, n3] [x, y, z, w] = replicate (length [s0, s1, s2, s3]) 4" by (simp add: e)
    have b: "block_at [s0, s1, s2, s3] [n0, n1, n2, n3] a [x, y, z, w] = gather_block [s0, s1, s2, s3] (replicate (4 ^ length [s0, s1, s2, s3]) 0) a (offset [s0, s1, s2, s3] [x, y, z, w])"
      by (rule block_at_full) (simp_all add: f)
    show ?thesis
      unfolding encode_at_def b l o zfp_encode_block_strided_4_def gather_block_def using False by (simp add: Let_def)
  qed
qed

lemma decode_body_4:
  "(let p = s0 * int x + s1 * int y + s2 * int z + s3 * int w
    in if n0 - x < 4 \<or> n1 - y < 4 \<or> n2 - z < 4 \<or> n3 - w < 4
       then snd (zfp_decode_partial_block_strided_4 t zfp a p (min (n0 - x) 4) (min (n1 - y) 4) (min (n2 - z) 4) (min (n3 - w) 4) s0 s1 s2 s3)
       else snd (zfp_decode_block_strided_4 t zfp a p s0 s1 s2 s3)) = decode_at t [s0, s1, s2, s3] [n0, n1, n2, n3] [x, y, z, w] (a, zfp)"
proof -
  have l: "length [s0, s1, s2, s3] = 4" and e: "extent [n0, n1, n2, n3] [x, y, z, w] = [min (n0 - x) 4, min (n1 - y) 4, min (n2 - z) 4, min (n3 - w) 4]"
    and o: "offset [s0, s1, s2, s3] [x, y, z, w] = s0 * int x + s1 * int y + s2 * int z + s3 * int w" by (simp_all add: extent_def)
  show ?thesis
  proof (cases "n0 - x < 4 \<or> n1 - y < 4 \<or> n2 - z < 4 \<or> n3 - w < 4")
    case True
    then show ?thesis
      unfolding decode_at_def l e o zfp_decode_partial_block_strided_4_def scatter_partial_block_def by (simp add: Let_def split: prod.split)
  next
    case False
    then have f: "extent [n0, n1, n2, n3] [x, y, z, w] = replicate (length [s0, s1, s2, s3]) 4" by (simp add: e)
    have b: "scatter_partial_block [s0, s1, s2, s3] (extent [n0, n1, n2, n3] [x, y, z, w]) q a p = scatter_block [s0, s1, s2, s3] q a p" for q a p
      by (rule scatter_at_full) (simp_all add: f)
    show ?thesis
      unfolding decode_at_def b l o zfp_decode_block_strided_4_def scatter_block_def using False by (simp add: Let_def split: prod.split)
  qed
qed

section \<open>The loops visit the blocks in order\<close>

definition strides :: "zfp_field \<Rightarrow> int list" where
  "strides f = fst (zfp_field_stride f)"

definition sizes :: "zfp_field \<Rightarrow> nat list" where
  "sizes f = fst (zfp_field_size f)"

lemma length_strides_sizes: "length (strides f) = zfp_field_dimensionality f" "length (sizes f) = zfp_field_dimensionality f"
  by (auto simp: strides_def sizes_def zfp_field_stride_def zfp_field_size_def zfp_field_dimensionality_def)

lemma strides_sizes:
  "zfp_field_dimensionality f = 1 \<Longrightarrow> strides f = [stride_x f] \<and> sizes f = [nx f]"
  "zfp_field_dimensionality f = 2 \<Longrightarrow> strides f = [stride_x f, stride_y f] \<and> sizes f = [nx f, ny f]"
  "zfp_field_dimensionality f = 3 \<Longrightarrow> strides f = [stride_x f, stride_y f, stride_z f] \<and> sizes f = [nx f, ny f, nz f]"
  "zfp_field_dimensionality f = 4 \<Longrightarrow> strides f = [stride_x f, stride_y f, stride_z f, stride_w f] \<and> sizes f = [nx f, ny f, nz f, nw f]"
  by (simp_all add: strides_def sizes_def zfp_field_stride_def zfp_field_size_def stride_x_def stride_y_def stride_z_def stride_w_def)

definition encode_blocks :: "('i::len) word scalar \<Rightarrow> zfp_field \<Rightarrow> 'i word array \<Rightarrow> ('w::len) zfp_stream \<Rightarrow> 'w zfp_stream" where
  "encode_blocks t f a = fold (encode_at t (strides f) (sizes f) a) (corners (sizes f))"

definition decode_blocks ::
  "('i::len) word scalar \<Rightarrow> zfp_field \<Rightarrow> 'i word array \<times> ('w::len) zfp_stream \<Rightarrow> 'i word array \<times> 'w zfp_stream" where
  "decode_blocks t f = fold (decode_at t (strides f) (sizes f)) (corners (sizes f))"

lemma compress_strided_blocks:
  "zfp_field_dimensionality f = 1 \<Longrightarrow> compress_strided_1 t z a f = encode_blocks t f a z"
  "zfp_field_dimensionality f = 2 \<Longrightarrow> compress_strided_2 t z a f = encode_blocks t f a z"
  "zfp_field_dimensionality f = 3 \<Longrightarrow> compress_strided_3 t z a f = encode_blocks t f a z"
  "zfp_field_dimensionality f = 4 \<Longrightarrow> compress_strided_4 t z a f = encode_blocks t f a z"
  by (simp_all only: encode_blocks_def strides_sizes fold_corners compress_strided_1_def compress_strided_2_def
      compress_strided_3_def compress_strided_4_def encode_body_1 encode_body_2 encode_body_3 encode_body_4)

lemma decompress_strided_blocks:
  "zfp_field_dimensionality f = 1 \<Longrightarrow> decompress_strided_1 t z a f = decode_blocks t f (a, z)"
  "zfp_field_dimensionality f = 2 \<Longrightarrow> decompress_strided_2 t z a f = decode_blocks t f (a, z)"
  "zfp_field_dimensionality f = 3 \<Longrightarrow> decompress_strided_3 t z a f = decode_blocks t f (a, z)"
  "zfp_field_dimensionality f = 4 \<Longrightarrow> decompress_strided_4 t z a f = decode_blocks t f (a, z)"
  by (simp_all only: decode_blocks_def strides_sizes fold_corners decompress_strided_1_def decompress_strided_2_def
      decompress_strided_3_def decompress_strided_4_def decode_body_1 decode_body_2 decode_body_3 decode_body_4 case_prod_eta)

section \<open>Contiguous one-dimensional arrays\<close>

text \<open>The mask \<open>~3u\<close> is a 32-bit word: it clears the high half of the size as well.\<close>

lemma whole_blocks_eq: "n < 2 ^ 64 \<Longrightarrow> whole_blocks n = 4 * (n mod 2 ^ 32 div 4)"
proof -
  assume n: "n < 2 ^ 64"
  let ?v = "take_bit 32 (of_nat n) :: uint64"
  have b: "(of_nat n AND ucast (NOT 3 :: uint32) :: uint64) = push_bit 2 (drop_bit 2 ?v)" (is "?l = _")
  proof (rule bit_word_eqI)
    fix i assume "i < LENGTH(64)"
    have "bit (3 :: uint32) i \<longleftrightarrow> i < 2 \<and> i < 32"
      using bit_mask_iff [of 2 i, where 'a = uint32] by (simp add: mask_eq_exp_minus_1 possible_bit_def conj_commute)
    then have m: "bit (ucast (NOT 3 :: uint32) :: uint64) i \<longleftrightarrow> i < 32 \<and> 2 \<le> i"
      unfolding bit_ucast_iff bit_not_iff by (auto simp: possible_bit_def)
    have k: "2 \<le> i \<Longrightarrow> Suc (Suc (i - 2)) = i" by simp
    show "bit ?l i = bit (push_bit 2 (drop_bit 2 ?v)) i"
      unfolding bit_and_iff m by (auto simp: word_bits k)
  qed
  have v: "unat ?v = n mod 2 ^ 32" using n by (simp only: unsigned_take_bit_eq unat_of_nat) (simp add: take_bit_eq_mod)
  have "unat (push_bit 2 (drop_bit 2 ?v)) = 4 * (n mod 2 ^ 32 div 4)"
  proof -
    have d: "unat (drop_bit 2 ?v) = n mod 2 ^ 32 div 4" by (simp only: unsigned_drop_bit_eq v) (simp add: drop_bit_eq_div take_bit_nat_eq_self)
    have "n mod 2 ^ 32 < 2 ^ 32" by simp
    moreover have "4 * (n mod 2 ^ 32 div 4) \<le> n mod 2 ^ 32" by simp
    ultimately have "4 * (n mod 2 ^ 32 div 4) < 2 ^ 32" by (rule le_less_trans [rotated])
    then have "4 * (n mod 2 ^ 32 div 4) < 2 ^ 64" by simp
    then show ?thesis using d by (simp add: push_bit_eq_mult unat_word_ariths)
  qed
  then show ?thesis unfolding whole_blocks_def b .
qed

lemma inv_order_any:
  assumes "1 \<le> d" "d \<le> 4" "length b = 4 ^ d" "length b' = 4 ^ d"
  shows "inv_order u b (PERM d) (4 ^ d) = inv_order u b' (PERM d) (4 ^ d)"
proof -
  note p = PERM_permutation [OF assms(1,2)]
  have "list_all2 (=) (inv_order u b (PERM d) (4 ^ d)) (inv_order u b' (PERM d) (4 ^ d))"
  proof (rule inv_order_rel [OF p])
    fix j :: nat assume j: "j < 4 ^ d"
    have "\<forall>i < 4 ^ d. PERM d ! i < length b'" using p assms(4) by (metis lessThan_iff nth_mem)
    then show "uint2int (u ! j) = inv_order u b' (PERM d) (4 ^ d) ! (PERM d ! j)"
      using nth_inv_order [OF p(1), of "4 ^ d" b' j u] p(3) j by simp
  qed (use assms in simp_all)
  then show ?thesis by (simp add: list.rel_eq)
qed

lemma decode_any:
  assumes "1 \<le> d" "d \<le> 4" "length b = 4 ^ d" "length b' = 4 ^ d"
  shows "zfp_decode_block t d z b = zfp_decode_block t d z b'"
  unfolding zfp_decode_block_def zfp_decode_block_int_def decode_block_def rev_decode_block_def inv_order_any [OF assms] by simp

lemma for_loop_cong: "(\<And>i. i < n \<Longrightarrow> f i = g i) \<Longrightarrow> for_loop n f s = for_loop n g s"
  by (induction n) simp_all

lemma pointer_loop:
  "for_loop k (\<lambda>i (s, p). (g p s, p + 4)) (s, 0 :: int) = (for_loop k (\<lambda>i. g (4 * int i)) s, 4 * int k)"
  by (induction k) simp_all

text \<open>The loop over the full blocks, followed by the partial block at the end, is the loop over all blocks.\<close>

lemma for_loop_tail: "for_loop ((n + 3) div 4) g s = (if 4 * (n div 4) < n then g (n div 4) (for_loop (n div 4) g s) else for_loop (n div 4) g s)"
proof (cases "4 * (n div 4) < n")
  case True
  then have "(n + 3) div 4 = Suc (n div 4)" by presburger
  then show ?thesis using True by simp
next
  case False
  then have "(n + 3) div 4 = n div 4" by presburger
  then show ?thesis using False by simp
qed

lemma full_block:
  assumes "i < n div 4"
  shows "extent [n] [4 * i] = [4]" "block_at [1] [n] a [4 * i] = map (\<lambda>j. a (4 * int i + int j)) [0..<4]"
proof -
  show e: "extent [n] [4 * i] = [4]" using assms by (simp add: extent_def)
  then have "block_at [1] [n] a [4 * i] = gather_block [1] (replicate (4 ^ length [1 :: int]) 0) a (offset [1] [4 * i])"
    by (intro block_at_full) simp_all
  then show "block_at [1] [n] a [4 * i] = map (\<lambda>j. a (4 * int i + int j)) [0..<4]"
    by (simp add: gather_block_def gather_1_eq)
qed

lemma compress_contiguous:
  fixes z :: "('w::len) zfp_stream"
  assumes "zfp_field_dimensionality f = 1" "sx f = 0" "nx f < 2 ^ 32"
  shows "compress_1 t z a f = encode_blocks t f a z"
proof -
  let ?n = "nx f" and ?k = "nx f div 4"
  let ?g = "\<lambda>p zfp. snd (zfp_encode_block t 1 zfp (map (\<lambda>i. a (p + int i)) [0..<4]))"
  let ?e = "\<lambda>i. encode_at t [1] [?n] a [4 * i]"
  have w: "whole_blocks ?n = 4 * ?k" "(4 * ?k + 3) div 4 = ?k" using assms(3) by (simp_all add: whole_blocks_eq)
  have l: "for_loop ?k (\<lambda>i. ?g (4 * int i)) z = for_loop ?k ?e z"
    by (rule for_loop_cong) (simp add: fun_eq_iff encode_at_def full_block(2))
  have tail: "snd (zfp_encode_partial_block_strided_1 t z' a (4 * int ?k) (?n - 4 * ?k) 1) = ?e ?k z'"
    if "4 * ?k < ?n" for z' :: "'w zfp_stream"
  proof -
    have "?n - 4 * ?k < 4" by presburger
    then show ?thesis using encode_body_1 [of 1 "4 * ?k" ?n t z' a] by simp
  qed
  have s: "strides f = [1]" "sizes f = [?n]" using strides_sizes(1) [OF assms(1)] assms(2) by (simp_all add: stride_x_def)
  show ?thesis
    unfolding compress_1_def compress_1_calling_def blocks_end_def Let_def blocks_loop_def w encode_blocks_def s fold_corners for_loop_tail
    using pointer_loop [of ?k ?g z] l tail by (simp add: blocks_loop_def)
qed

lemma write_four: "for_loop 4 (\<lambda>i a. a(p + int i := q ! i)) a = scatter_partial_block [1] [4] q a p"
  by (simp add: scatter_partial_block_def scatter_partial_1_eq for_loop_4 upt_4 numeral_eqs algebra_simps)

lemma decompress_contiguous:
  fixes z :: "('w::len) zfp_stream" and a :: "('i::len) word array"
  assumes "zfp_field_dimensionality f = 1" "sx f = 0" "nx f < 2 ^ 32"
  shows "decompress_1 t z a f = decode_blocks t f (a, z)"
proof -
  let ?n = "nx f" and ?k = "nx f div 4"
  let ?g = "\<lambda>p (zfp :: 'w zfp_stream, a :: 'i word array). let (_, block, zfp) = zfp_decode_block t 1 zfp (map (\<lambda>i. a (p + int i)) [0..<4])
             in (zfp, scatter_partial_block [1] [4] block a p)"
  let ?e = "\<lambda>i. decode_at t [1] [?n] [4 * i]"
  have w: "whole_blocks ?n = 4 * ?k" "(4 * ?k + 3) div 4 = ?k" using assms(3) by (simp_all add: whole_blocks_eq)
  have b: "?g (4 * int i) (z', a') = prod.swap (?e i (a', z'))" if "i < ?k" for i z' a'
  proof -
    have "zfp_decode_block t 1 z' (map (\<lambda>j. a' (4 * int i + int j)) [0..<4]) = zfp_decode_block t 1 z' (replicate 4 0)"
      by (rule decode_any) simp_all
    then show ?thesis using full_block(1) [OF that]
      by (simp add: decode_at_def Let_def split: prod.split)
  qed
  have l: "for_loop m (\<lambda>i (z', a', p). let (_, block, z') = zfp_decode_block t 1 z' (map (\<lambda>i. a' (p + int i)) [0..<4])
             in (z', scatter_partial_block [1] [4] block a' p, p + 4)) (z, a, 0 :: int) =
      (let (a', z') = for_loop m ?e (a, z) in (z', a', 4 * int m))" if "m \<le> ?k" for m
    using that
  proof (induction m)
    case (Suc m)
    obtain a' z' where s: "for_loop m ?e (a, z) = (a', z')" by force
    obtain a2 z2 where e: "?e m (a', z') = (a2, z2)" by force
    show ?case using Suc b [of m z' a'] e s by (simp add: Let_def split: prod.splits)
  qed simp
  have tail: "snd (zfp_decode_partial_block_strided_1 t z' a' (4 * int ?k) (?n - 4 * ?k) 1) = ?e ?k (a', z')"
    if "4 * ?k < ?n" for z' :: "'w zfp_stream" and a'
  proof -
    have "?n - 4 * ?k < 4" by presburger
    then show ?thesis using decode_body_1 [of 1 "4 * ?k" ?n t z' a'] by simp
  qed
  have s: "strides f = [1]" "sizes f = [?n]" using strides_sizes(1) [OF assms(1)] assms(2) by (simp_all add: stride_x_def)
  obtain a' z' where r: "for_loop ?k ?e (a, z) = (a', z')" by force
  show ?thesis
    unfolding decompress_1_def blocks_end_def write_four Let_def blocks_loop_def w decode_blocks_def s fold_corners for_loop_tail
    using l [of ?k] r tail by (simp add: Let_def)
qed

end
