(* ===== verification/Codec.thy ===== *)
theory Codec
  imports Compress
begin

text \<open>
  The contract between a block codec and the code that works on whole arrays with it, as the locale \<open>block_codec\<close>: encoding appends
  the code of a block to the stream, decoding consumes it and returns a block that stands for the original. The locale is
  interpreted on the codecs of the library (integer and floating-point, reversible and lossy) in \<open>codec\<close>.
\<close>

section \<open>The contract of a block codec\<close>

text \<open>
  What the code that handles whole arrays needs to know of a block codec: encoding appends the code of the block to
  the content of the sink, decoding consumes it and returns a block that stands for the original.
\<close>

text \<open>The code of a sequence of blocks.\<close>

definition code_all :: "('b \<Rightarrow> bool list) \<Rightarrow> ('x \<Rightarrow> 'b) \<Rightarrow> 'x list \<Rightarrow> bool list" where
  "code_all code blk xs = concat (map (\<lambda>x. code (blk x)) xs)"

lemma code_all_simps [simp]:
  "code_all code blk [] = []" "code_all code blk (x # xs) = code (blk x) @ code_all code blk xs"
  "code_all code blk (xs @ ys) = code_all code blk xs @ code_all code blk ys"
  by (simp_all add: code_all_def)

locale block_codec =
  fixes encode :: "'s \<Rightarrow> 'b \<Rightarrow> 's" and decode :: "'r \<Rightarrow> 'c \<times> 'r"
    and code :: "'b \<Rightarrow> bool list" and good :: "'b \<Rightarrow> bool" and same :: "'b \<Rightarrow> 'c \<Rightarrow> bool"
    and sink :: "'s \<Rightarrow> bool" and append :: "'s \<Rightarrow> bool list \<Rightarrow> 's"
    and coming :: "'r \<Rightarrow> bool list \<Rightarrow> bool" and skip :: "'r \<Rightarrow> nat \<Rightarrow> 'r"
  assumes encode_code: "sink s \<Longrightarrow> good b \<Longrightarrow> encode s b = append s (code b)"
    and sink_append: "sink s \<Longrightarrow> sink (append s xs)"
    and append_append: "sink s \<Longrightarrow> append (append s xs) ys = append s (xs @ ys)"
    and append_none: "sink s \<Longrightarrow> append s [] = s"
    and decode_code: "coming r (code b) \<Longrightarrow> good b \<Longrightarrow> \<exists>c. decode r = (c, skip r (length (code b))) \<and> same b c"
    and coming_append: "coming r (xs @ ys) \<longleftrightarrow> coming r xs \<and> coming (skip r (length xs)) ys"
    and skip_skip: "coming r xs \<Longrightarrow> skip (skip r m) n = skip r (m + n)"
    and skip_none: "coming r [] \<Longrightarrow> skip r 0 = r"
begin

lemma encode_all:
  "sink s \<Longrightarrow> \<forall>x \<in> set xs. good (blk x) \<Longrightarrow> fold (\<lambda>x s. encode s (blk x)) xs s = append s (code_all code blk xs)"
  by (induction xs arbitrary: s) (simp_all add: encode_code sink_append append_append append_none)

lemma decode_all:
  assumes "coming r (code_all code blk xs)" "\<forall>x \<in> set xs. good (blk x)"
  shows "\<exists>cs. list_all2 (\<lambda>x c. same (blk x) c) xs cs \<and>
    fold (\<lambda>x (m, r). let (c, r) = decode r in (place x c m, r)) xs (m, r) =
      (fold (\<lambda>(x, c). place x c) (zip xs cs) m, skip r (length (code_all code blk xs)))"
  using assms
proof (induction xs arbitrary: m r)
  case Nil
  then show ?case by (simp add: skip_none)
next
  case (Cons x xs)
  have up: "coming r (code (blk x))" "coming (skip r (length (code (blk x)))) (code_all code blk xs)"
    using Cons.prems by (simp_all add: coming_append)
  obtain c where c: "decode r = (c, skip r (length (code (blk x))))" "same (blk x) c"
    using decode_code [OF up(1)] Cons.prems by auto
  obtain cs where "list_all2 (\<lambda>x c. same (blk x) c) xs cs"
    "fold (\<lambda>x (m, r). let (c, r) = decode r in (place x c m, r)) xs (place x c m, skip r (length (code (blk x)))) =
      (fold (\<lambda>(x, c). place x c) (zip xs cs) (place x c m), skip (skip r (length (code (blk x)))) (length (code_all code blk xs)))"
    using Cons.IH [OF up(2)] Cons.prems by auto
  then show ?case using c skip_skip [OF up(1)] by (intro exI [of _ "c # cs"]) simp
qed

end

section \<open>The zfp block functions as a codec\<close>

definition block_code :: "('i::len) word scalar \<Rightarrow> nat \<Rightarrow> ('w::len) zfp_stream \<Rightarrow> 'i word list \<Rightarrow> bool list" where
  "block_code t d z b =
    (case t of
       Integral \<Rightarrow> if REVERSIBLE z then rev_block_code d (minbits z) (maxbits z) (maxprec z) b
                   else int_block_code d (minbits z) (maxbits z) (maxprec z) b
     | Floating u \<Rightarrow> if REVERSIBLE z then rev_float_block_code d u z b else float_block_code d u z b)"

text \<open>The parameters: any in the lossy modes, those that keep everything in reversible mode.\<close>

definition codec_ok :: "('i::len) word scalar \<Rightarrow> nat \<Rightarrow> ('w::len) zfp_stream \<Rightarrow> bool" where
  "codec_ok t d z \<longleftrightarrow> (LENGTH('i) = 32 \<or> LENGTH('i) = 64) \<and> 1 \<le> d \<and> d \<le> 4 \<and>
    (case t of Integral \<Rightarrow> True | Floating u \<Rightarrow> frexp_ok u) \<and>
    (REVERSIBLE z \<longrightarrow> minbits z \<le> 1 \<and> LENGTH('i) \<le> maxprec z \<and> ZFP_MAX_BITS \<le> maxbits z \<and> maxbits z < 2 ^ 32)"

text \<open>Two streams with the same parameters.\<close>

definition like :: "('w::len) zfp_stream \<Rightarrow> 'w zfp_stream \<Rightarrow> bool" where
  "like p z \<longleftrightarrow> z = p\<lparr>stream := stream z\<rparr>"

lemma like_simps [simp]: "like p (p\<lparr>stream := s\<rparr>)" "like p z \<Longrightarrow> like p (z\<lparr>stream := s\<rparr>)" "like p p"
proof -
  show "like p (z\<lparr>stream := s\<rparr>)" if "like p z"
    using arg_cong [OF that [unfolded like_def], of "\<lambda>z. z\<lparr>stream := s\<rparr>"] by (simp add: like_def)
qed (simp_all add: like_def)

lemma block_code_like: "like p z \<Longrightarrow> block_code t d z = block_code t d p"
  unfolding like_def
proof -
  assume "z = p\<lparr>stream := stream z\<rparr>"
  moreover have "block_code t d (p\<lparr>stream := s\<rparr>) = block_code t d p" for s
    by (simp add: fun_eq_iff block_code_def REVERSIBLE_def split: scalar.split)
  ultimately show ?thesis by metis
qed

lemma codec_ok_like: "like p z \<Longrightarrow> codec_ok t d z \<longleftrightarrow> codec_ok t d p"
  unfolding like_def
proof -
  assume "z = p\<lparr>stream := stream z\<rparr>"
  moreover have "codec_ok t d (p\<lparr>stream := s\<rparr>) = codec_ok t d p" for s
    by (simp add: codec_ok_def REVERSIBLE_def)
  ultimately show ?thesis by metis
qed

lemma encode_step:
  fixes b :: "('i::len) word list"
  assumes "codec_ok t d z" "sink_ok (stream z)"
  shows "zfp_encode_block t d z b = (length (block_code t d z b), z\<lparr>stream := wappend (stream z) (block_code t d z b)\<rparr>)"
proof (cases t)
  case Integral
  then show ?thesis
    by (simp add: zfp_encode_block_def zfp_encode_block_int_def block_code_def rev_encode_block_eq [OF assms(2)] encode_block_eq [OF assms(2)])
next
  case (Floating u)
  then have u: "LENGTH('i) = 32 \<or> LENGTH('i) = 64" "frexp_ok u" using assms(1) by (simp_all add: codec_ok_def)
  show ?thesis
    using Floating encode_block_float_eq [OF u assms(2)] rev_encode_block_float_eq [OF u assms(2)]
    by (simp add: zfp_encode_block_def zfp_encode_block_float_def block_code_def)
qed

lemma max_bits_ample:
  assumes "LENGTH('i::len) = 32 \<or> LENGTH('i) = 64" "d \<le> 4"
  shows "2 + ebits TYPE('i) + pbits TYPE('i) + (LENGTH('i) + 1) * 4 ^ d - 1 \<le> ZFP_MAX_BITS"
proof -
  have "(4::nat) ^ d \<le> 4 ^ 4" using assms(2) by (intro power_increasing) simp_all
  then show ?thesis using assms(1) by (auto simp: ebits_def pbits_def ZFP_MAX_BITS_def)
qed

lemma decode_step:
  fixes b :: "('i::len) word list"
  assumes ok: "codec_ok t d z" and s: "source_ok (stream z)" and l: "length b = 4 ^ d"
    and up: "upcoming (stream z) (block_code t d z b)"
  shows "\<exists>c. zfp_decode_block t d z (replicate (4 ^ d) 0) =
      (length (block_code t d z b), c, z\<lparr>stream := stream_skip (stream z) (length (block_code t d z b))\<rparr>)
    \<and> (REVERSIBLE z \<longrightarrow> c = b)"
proof -
  have L: "LENGTH('i) = 32 \<or> LENGTH('i) = 64" and d: "1 \<le> d" "d \<le> 4" using ok by (simp_all add: codec_ok_def)
  have rev: "minbits z \<le> 1" "LENGTH('i) \<le> maxprec z" "ZFP_MAX_BITS \<le> maxbits z" "maxbits z < 2 ^ 32" if "REVERSIBLE z"
    using ok that by (simp_all add: codec_ok_def)
  note ample = max_bits_ample [OF L d(2)]
  show ?thesis
  proof (cases t)
    case Integral
    show ?thesis
    proof (cases "REVERSIBLE z")
      case True
      then have c: "block_code t d z b = rev_block_code d (minbits z) (maxbits z) (maxprec z) b" using Integral by (simp add: block_code_def)
      obtain u where u: "rev_decode_block d (stream z) (minbits z) (maxbits z) (replicate (4 ^ d) 0) =
          (length (block_code t d z b), rev_inv_xform d (inv_order u (replicate (4 ^ d) 0) (PERM d) (4 ^ d)), stream_skip (stream z) (length (block_code t d z b)))"
        and ps: "planes_set (kmin_of TYPE('i) (rev_prec d (maxprec z) b)) (LENGTH('i)) 0 (usub (maxbits z) (pbits TYPE('i)))
          (fwd_order (rev_fwd_xform d b) (PERM d) (4 ^ d)) (replicate (4 ^ d) 0) u"
        using rev_decode_block_eq [OF s _ L, of d "minbits z" "maxbits z" "maxprec z" b "replicate (4 ^ d) 0"] up unfolding c by blast
      have "0 < (LENGTH('i) + 1) * 4 ^ d" by simp
      then have "pbits TYPE('i) \<le> maxbits z" "(LENGTH('i) + 1) * 4 ^ d - 1 \<le> maxbits z - pbits TYPE('i)"
        using ample rev(3) [OF True] by linarith+
      then have "(LENGTH('i) + 1) * 4 ^ d - 1 \<le> usub (maxbits z) (pbits TYPE('i))" using rev(4) [OF True] by (simp add: usub_eq)
      then have "rev_inv_xform d (inv_order u (replicate (4 ^ d) 0) (PERM d) (4 ^ d)) = b"
        using rev_block_exact [OF L d l _ rev(2) [OF True] _ ps] by simp
      then show ?thesis using True Integral u by (simp add: zfp_decode_block_def zfp_decode_block_int_def)
    next
      case False
      then have c: "block_code t d z b = int_block_code d (minbits z) (maxbits z) (maxprec z) b" using Integral by (simp add: block_code_def)
      then show ?thesis
        using False Integral decode_block_eq [OF s, of d "minbits z" "maxbits z" "maxprec z" b "replicate (4 ^ d) 0"] up
        by (auto simp: zfp_decode_block_def zfp_decode_block_int_def)
    qed
  next
    case (Floating u)
    then have u: "frexp_ok u" using ok by (simp add: codec_ok_def)
    show ?thesis
    proof (cases "REVERSIBLE z")
      case True
      then have c: "block_code t d z b = rev_float_block_code d u z b" using Floating by (simp add: block_code_def)
      show ?thesis
        using True Floating rev_decode_block_float_eq [OF L d l u s rev(2) [OF True] _ rev(4,1) [OF True] up [unfolded c]] ample rev(3) [OF True]
        unfolding c by (simp add: zfp_decode_block_def zfp_decode_block_float_def)
    next
      case False
      then have c: "block_code t d z b = float_block_code d u z b" using Floating by (simp add: block_code_def)
      show ?thesis using False Floating decode_block_float_eq [OF L u s up [unfolded c]]
        unfolding c by (auto simp: zfp_decode_block_def zfp_decode_block_float_def)
    qed
  qed
qed

definition encode_next :: "('i::len) word scalar \<Rightarrow> nat \<Rightarrow> ('w::len) zfp_stream \<Rightarrow> 'i word list \<Rightarrow> 'w zfp_stream" where
  "encode_next t d z b = snd (zfp_encode_block t d z b)"

definition decode_next :: "('i::len) word scalar \<Rightarrow> nat \<Rightarrow> ('w::len) zfp_stream \<Rightarrow> 'i word list \<times> 'w zfp_stream" where
  "decode_next t d z = snd (zfp_decode_block t d z (replicate (4 ^ d) 0))"

interpretation codec: block_codec "encode_next t d" "decode_next t d" "block_code t d p" "\<lambda>b. codec_ok t d p \<and> length b = 4 ^ d"
    "\<lambda>b c. REVERSIBLE p \<longrightarrow> c = b" "\<lambda>z. like p z \<and> sink_ok (stream z)" "\<lambda>z bs. z\<lparr>stream := wappend (stream z) bs\<rparr>"
    "\<lambda>z bs. like p z \<and> source_ok (stream z) \<and> upcoming (stream z) bs" "\<lambda>z n. z\<lparr>stream := stream_skip (stream z) n\<rparr>"
  for t :: "('i::len) word scalar" and d and p :: "('w::len) zfp_stream"
proof (unfold_locales, goal_cases)
  case (1 s b)
  then show ?case using encode_step [of t d s b] codec_ok_like [of p s t d] block_code_like [of p s t d] by (simp add: encode_next_def)
next
  case (2 s xs)
  then show ?case by simp
next
  case (3 s xs ys)
  then show ?case by (simp add: wappend_append)
next
  case (4 s)
  then show ?case by simp
next
  case (5 r b)
  then have "REVERSIBLE r = REVERSIBLE p" using like_def [of p r] by (metis REVERSIBLE_def zfp_stream.select_convs(4) zfp_stream.surjective zfp_stream.update_convs(5))
  then show ?case using 5 decode_step [of t d r b] codec_ok_like [of p r t d] block_code_like [of p r t d] by (auto simp: decode_next_def)
next
  case (6 r xs ys)
  then show ?case by (auto simp: upcoming_append)
next
  case (7 r xs m n)
  then show ?case by simp
next
  case (8 r)
  then show ?case using rseek_self [of "stream r"] by (simp add: stream_skip_def source_ok_def)
qed

end
