(* ===== verification/Whole_Array.thy ===== *)
theory Whole_Array
  imports Codec
begin

text \<open>
  The blocks of an array cover it: every element of a field lies in exactly one block, and the decoded blocks change no other memory.
  With the contract of the codec this gives the content of the stream after all blocks were encoded (\<open>array_code\<close>), and the
  array after they were decoded.
\<close>

section \<open>The blocks cover the array\<close>

lemma corner_iff: "xs \<in> set (corners ns) \<longleftrightarrow> list_all2 (\<lambda>x n. x < n \<and> 4 dvd x) xs ns"
proof -
  have "xs \<in> map ((*) 4) ` set (box (block_counts ns)) \<longleftrightarrow> list_all2 (\<lambda>x n. x < n \<and> 4 dvd x) xs ns"
  proof (induction ns arbitrary: xs)
    case (Cons n ns)
    have k: "(\<exists>i. x = 4 * i \<and> i < (n + 3) div 4) \<longleftrightarrow> x < n \<and> 4 dvd x" for x by (auto elim!: dvdE)
    show ?case
    proof (cases xs)
      case (Cons x ys)
      have "x # ys \<in> map ((*) 4) ` set (box (block_counts (n # ns))) \<longleftrightarrow>
          (\<exists>i. x = 4 * i \<and> i < (n + 3) div 4) \<and> ys \<in> map ((*) 4) ` set (box (block_counts ns))"
        by (auto simp: block_counts_def image_iff)
      then show ?thesis using Cons Cons.IH k by simp
    qed (auto simp: block_counts_def)
  qed (simp add: block_counts_def)
  then show ?thesis by (simp add: corners_def)
qed

lemma list_all2_map2: "length xs = length ns \<Longrightarrow> list_all2 P e (map2 f ns xs) \<longleftrightarrow> length e = length ns \<and> (\<forall>i < length ns. P (e ! i) (f (ns ! i) (xs ! i)))"
  by (auto simp: list_all2_conv_all_nth)

lemma offset_add: "length xs = length ys \<Longrightarrow> offset ss (map2 (+) xs ys) = offset ss xs + offset ss ys"
  by (induction xs ys arbitrary: ss rule: list_induct2) (simp, case_tac ss, auto simp: algebra_simps)

lemma cover: "ys \<in> set (box ns) \<longleftrightarrow> (\<exists>xs \<in> set (corners ns). \<exists>e \<in> set (box (extent ns xs)). ys = map2 (+) xs e)"
proof
  assume "ys \<in> set (box ns)"
  then have l: "length ys = length ns" "\<forall>i < length ns. ys ! i < ns ! i" by (simp_all add: set_box list_all2_conv_all_nth)
  define xs e where "xs = map (\<lambda>y. 4 * (y div 4)) ys" and "e = map (\<lambda>y. y mod 4) ys"
  have "ns ! i - 4 * (ys ! i div 4) > ys ! i mod 4" if "i < length ns" for i
    using l(2) that by (metis less_diff_conv mod_mult_div_eq)
  then have "xs \<in> set (corners ns)" "e \<in> set (box (extent ns xs))"
    using l by (auto simp: corner_iff set_box list_all2_conv_all_nth extent_def xs_def e_def intro: le_less_trans [of _ "ys ! _"])
  moreover have "ys = map2 (+) xs e" by (rule nth_equalityI) (simp_all add: xs_def e_def)
  ultimately show "\<exists>xs \<in> set (corners ns). \<exists>e \<in> set (box (extent ns xs)). ys = map2 (+) xs e" by blast
next
  assume "\<exists>xs \<in> set (corners ns). \<exists>e \<in> set (box (extent ns xs)). ys = map2 (+) xs e"
  then obtain xs e where x: "xs \<in> set (corners ns)" "e \<in> set (box (extent ns xs))" "ys = map2 (+) xs e" by blast
  then have "length xs = length ns" "length e = length ns" "\<forall>i < length ns. e ! i < ns ! i - xs ! i"
    by (auto simp: corner_iff set_box list_all2_conv_all_nth extent_def)
  then show "ys \<in> set (box ns)" using x(3) by (auto simp: set_box list_all2_conv_all_nth)
qed

lemma extent_sizes:
  assumes "xs \<in> set (corners ns)" "length ss = length ns" "1 \<le> length ss" "length ss \<le> 4"
  shows "block_sizes ss (extent ns xs)"
proof -
  have l: "length xs = length ns" "\<forall>i < length ns. xs ! i < ns ! i" using assms(1) by (auto simp: corner_iff list_all2_conv_all_nth)
  then have "\<forall>m \<in> set (extent ns xs). 1 \<le> m \<and> m \<le> 4" by (auto simp: extent_def set_zip)
  then show ?thesis using l(1) assms by (simp add: block_sizes_def extent_def)
qed

text \<open>Writes of the values of \<open>a\<close>.\<close>

lemma store_copy: "(\<forall>(p, v) \<in> set ws. v = a p) \<Longrightarrow> store b ws p = (if p \<in> fst ` set ws then a p else b p)"
  by (induction ws arbitrary: b) (auto split: prod.splits)

definition region :: "zfp_field \<Rightarrow> int set" where
  "region f = offset (strides f) ` set (box (sizes f))"

text \<open>The writes of one block, and of a list of blocks.\<close>

definition block_writes :: "int list \<Rightarrow> nat list \<Rightarrow> nat list \<Rightarrow> 'a list \<Rightarrow> (int \<times> 'a) list" where
  "block_writes ss ns xs c = map (\<lambda>e. (offset ss (map2 (+) xs e), c ! block_pos e)) (box (extent ns xs))"

lemma scatter_writes:
  assumes "xs \<in> set (corners ns)" "length ss = length ns" "1 \<le> length ss" "length ss \<le> 4"
  shows "scatter_partial_block ss (extent ns xs) c m (offset ss xs) = store m (block_writes ss ns xs c)"
proof -
  have "length e = length xs" if "e \<in> set (box (extent ns xs))" for e
    using that assms(1) by (auto simp: set_box corner_iff extent_def dest!: list_all2_lengthD)
  then show ?thesis
    unfolding scatter_partial_block_eq [OF extent_sizes [OF assms]] block_writes_def
    by (intro arg_cong [of _ _ "store m"] map_cong) (simp_all add: offset_add)
qed

lemma scatter_all:
  fixes cs :: "'a list list"
  assumes "set xss \<subseteq> set (corners ns)" "length ss = length ns" "1 \<le> length ss" "length ss \<le> 4"
  shows "fold (\<lambda>(xs, c) m. scatter_partial_block ss (extent ns xs) c m (offset ss xs)) (zip xss cs) m =
    store m (concat (map (\<lambda>(xs, c). block_writes ss ns xs c) (zip xss cs)))"
  using assms(1)
proof (induction xss arbitrary: cs m)
  case (Cons xs xss)
  then show ?case using scatter_writes [OF _ assms(2-4), of xs, where 'a = 'a] by (cases cs) simp_all
qed simp

lemma writes_region:
  assumes "length cs = length (corners ns)"
  shows "fst ` set (concat (map (\<lambda>(xs, c). block_writes ss ns xs c) (zip (corners ns) cs))) = offset ss ` set (box ns)"
proof -
  have "fst ` set (concat (map (\<lambda>(xs, c). block_writes ss ns xs c) (zip (corners ns) cs))) =
      (\<Union>(xs, c) \<in> set (zip (corners ns) cs). (\<lambda>e. offset ss (map2 (+) xs e)) ` set (box (extent ns xs)))"
    by (force simp: block_writes_def)
  also have "\<dots> = (\<Union>xs \<in> set (map fst (zip (corners ns) cs)). (\<lambda>e. offset ss (map2 (+) xs e)) ` set (box (extent ns xs)))"
    by (force simp del: map_fst_zip)
  also have "\<dots> = (\<Union>xs \<in> set (corners ns). (\<lambda>e. offset ss (map2 (+) xs e)) ` set (box (extent ns xs)))"
    using assms by simp
  also have "\<dots> = offset ss ` set (box ns)" using cover [of _ ns] by (auto simp: image_iff) blast+
  finally show ?thesis .
qed

text \<open>The writes of a block that was decoded exactly are the values of the original array.\<close>

lemma block_at_value:
  assumes "xs \<in> set (corners ns)" "length ss = length ns" "1 \<le> length ss" "length ss \<le> 4" "e \<in> set (box (extent ns xs))"
  shows "block_at ss ns a xs ! block_pos e = a (offset ss (map2 (+) xs e))"
proof -
  note b = extent_sizes [OF assms(1-4)]
  have e: "list_all2 (<) e (extent ns xs)" using assms(5) by (simp add: set_box)
  then have l: "length e = length ss" using b by (simp add: block_sizes_def list_all2_lengthD)
  have "length e = length (replicate (length ss) (4 :: nat))" by (simp add: l)
  then have e4: "list_all2 (<) e (replicate (length ss) 4)"
  proof (rule list_all2_all_nthI)
    fix i assume i: "i < length e"
    then have "e ! i < extent ns xs ! i" using e by (simp add: list_all2_conv_all_nth)
    moreover have "extent ns xs ! i \<le> 4" using b i l by (simp add: block_sizes_def)
    ultimately show "e ! i < replicate (length ss) 4 ! i" using i l by simp
  qed
  have "length xs = length e" using l assms(1,2) by (auto simp: corner_iff dest!: list_all2_lengthD)
  then show ?thesis
    unfolding block_at_def using gather_partial_block_eq [OF b, of "replicate (4 ^ length ss) 0" a "offset ss xs"] box_nth_pos [OF e4]
    by (simp add: length_box map2_pad_index [OF e] offset_add)
qed

lemma length_block_at:
  assumes "xs \<in> set (corners ns)" "length ss = length ns" "1 \<le> length ss" "length ss \<le> 4"
  shows "length (block_at ss ns a xs) = 4 ^ length ss"
  unfolding block_at_def by (subst gather_partial_block_eq [OF extent_sizes [OF assms]]) (simp_all add: length_box)

section \<open>Whole arrays\<close>

definition array_code ::
  "('i::len) word scalar \<Rightarrow> zfp_field \<Rightarrow> 'i word array \<Rightarrow> ('w::len) zfp_stream \<Rightarrow> bool list" where
  "array_code t f a z =
    concat (map (\<lambda>xs. block_code t (zfp_field_dimensionality f) z (block_at (strides f) (sizes f) a xs)) (corners (sizes f)))"

lemma encode_sequence:
  fixes z :: "('w::len) zfp_stream" and a :: "('i::len) word array"
  assumes "1 \<le> zfp_field_dimensionality f" "zfp_field_dimensionality f \<le> 4"
    and ok: "codec_ok t (zfp_field_dimensionality f) p" and z: "like p z" "sink_ok (stream z)" and xss: "set xss \<subseteq> set (corners (sizes f))"
  shows "fold (encode_at t (strides f) (sizes f) a) xss z = z\<lparr>stream := wappend (stream z)
      (concat (map (\<lambda>xs. block_code t (zfp_field_dimensionality f) p (block_at (strides f) (sizes f) a xs)) xss))\<rparr>"
proof -
  let ?d = "zfp_field_dimensionality f"
  have e: "encode_at t (strides f) (sizes f) a = (\<lambda>xs z. encode_next t ?d z (block_at (strides f) (sizes f) a xs))"
    by (simp add: fun_eq_iff encode_at_def encode_next_def length_strides_sizes)
  have good: "\<forall>xs \<in> set xss. codec_ok t ?d p \<and> length (block_at (strides f) (sizes f) a xs) = 4 ^ ?d"
  proof
    fix xs assume "xs \<in> set xss"
    then show "codec_ok t ?d p \<and> length (block_at (strides f) (sizes f) a xs) = 4 ^ ?d"
      using length_block_at [of xs "sizes f" "strides f" a] xss assms(1,2) ok by (auto simp: length_strides_sizes)
  qed
  show ?thesis
    using codec.encode_all [OF _ good, of z] z by (simp add: e code_all_def)
qed

lemma decode_blocks_result:
  fixes z :: "('w::len) zfp_stream" and a b :: "('i::len) word array"
  assumes d: "1 \<le> zfp_field_dimensionality f" "zfp_field_dimensionality f \<le> 4"
    and ok: "codec_ok t (zfp_field_dimensionality f) p" and z: "like p z" "source_ok (stream z)"
    and up: "upcoming (stream z) (array_code t f a p)"
  shows "\<exists>b'. decode_blocks t f (b, z) = (b', z\<lparr>stream := stream_skip (stream z) (length (array_code t f a p))\<rparr>)
    \<and> (\<forall>i. i \<notin> region f \<longrightarrow> b' i = b i) \<and> (REVERSIBLE p \<longrightarrow> (\<forall>i \<in> region f. b' i = a i))"
proof -
  let ?d = "zfp_field_dimensionality f" and ?ss = "strides f" and ?ns = "sizes f"
  let ?blk = "block_at ?ss ?ns a" and ?cs = "corners (sizes f)"
  let ?place = "\<lambda>xs c m. scatter_partial_block ?ss (extent ?ns xs) c m (offset ?ss xs)"
  have l: "length ?ss = length ?ns" "1 \<le> length ?ss" "length ?ss \<le> 4" using d by (simp_all add: length_strides_sizes)
  have e: "decode_at t ?ss ?ns = (\<lambda>xs (m, z). let (c, z) = decode_next t ?d z in (?place xs c m, z))"
    by (simp add: fun_eq_iff decode_at_def decode_next_def length_strides_sizes split: prod.split)
  have good: "\<forall>xs \<in> set ?cs. codec_ok t ?d p \<and> length (?blk xs) = 4 ^ ?d"
    using length_block_at [OF _ l] ok by (auto simp: length_strides_sizes)
  have ac: "array_code t f a p = code_all (block_code t ?d p) ?blk ?cs" by (simp add: array_code_def code_all_def)
  obtain cs where same: "list_all2 (\<lambda>xs c. REVERSIBLE p \<longrightarrow> c = ?blk xs) ?cs cs"
    and r: "decode_blocks t f (b, z) = (fold (\<lambda>(xs, c). ?place xs c) (zip ?cs cs) b, z\<lparr>stream := stream_skip (stream z) (length (array_code t f a p))\<rparr>)"
    using codec.decode_all [of p z t ?d ?blk ?cs ?place b] good z up unfolding decode_blocks_def e ac by auto
  let ?ws = "concat (map (\<lambda>(xs, c). block_writes ?ss ?ns xs c) (zip ?cs cs))"
  have lc: "length cs = length ?cs" using same by (simp add: list_all2_lengthD)
  have b': "fold (\<lambda>(xs, c). ?place xs c) (zip ?cs cs) b = store b ?ws" by (rule scatter_all [OF _ l]) simp
  have reg: "fst ` set ?ws = region f" unfolding region_def by (rule writes_region [OF lc])
  have "store b ?ws i = a i" if "REVERSIBLE p" "i \<in> region f" for i
  proof -
    have "v = a q" if "(q, v) \<in> set ?ws" for q v
    proof -
      from that obtain xs c where c: "(xs, c) \<in> set (zip ?cs cs)" "(q, v) \<in> set (block_writes ?ss ?ns xs c)" by auto
      then have "xs \<in> set ?cs" "c = ?blk xs" using same \<open>REVERSIBLE p\<close> by (auto simp: list_all2_iff dest: set_zip_leftD)
      then show "v = a q" using c(2) block_at_value [OF _ l, of xs _ a] by (auto simp: block_writes_def)
    qed
    then have "\<forall>(q, v) \<in> set ?ws. v = a q" by blast
    from store_copy [OF this, of b i] show ?thesis using that(2) unfolding reg by simp
  qed
  moreover have "store b ?ws i = b i" if "i \<notin> region f" for i by (rule store_other) (use that reg in simp)
  ultimately show ?thesis unfolding r b' by blast
qed

end
