(* ===== verification/Omp.thy ===== *)
theory Omp
  imports Whole_Array
begin

text \<open>
  Parallel compression, \<^verbatim>\<open>src/share/omp.c\<close>, \<^verbatim>\<open>src/share/parallel.c\<close> and \<^verbatim>\<open>src/template/ompcompress.c\<close>, and the functions
  \<^verbatim>\<open>zfp_compress\<close> and \<^verbatim>\<open>zfp_decompress\<close> of \<^verbatim>\<open>src/zfp.c\<close>, which select a driver. The blocks are divided into chunks, each
  compressed to a stream of its own: either in a separate buffer, appended to the output at the end, or in the output buffer, where
  the position of a chunk is known in advance in fixed-rate mode. The chunks may be done in any order, which is an argument of the
  model together with the other decisions of the run-time system (\<open>omp_env\<close>).
\<close>

section \<open>Chunks\<close>

text \<open>
  What the run-time system decides: the default number of threads, the outcome of every \<open>malloc\<close> (request 0 is
  the table of streams, request \<open>c + 1\<close> the buffer of chunk \<open>c\<close>), the initial contents of these buffers, and the order
  in which the chunks are done.
\<close>

record (overloaded) 'w omp_env =
  max_threads :: nat
  malloc_ok :: "nat \<Rightarrow> nat \<Rightarrow> bool"
  junk :: "nat \<Rightarrow> nat \<Rightarrow> 'w word"
  schedule :: "nat \<Rightarrow> nat list"

definition INT_MAX :: nat where "INT_MAX = 2147483647"

definition thread_count_omp :: "('w::len) omp_env \<Rightarrow> 'w zfp_stream \<Rightarrow> nat" where
  "thread_count_omp env zfp =
    (let count = the (zfp_stream_omp_threads zfp) in if count = 0 then max_threads env else count)"

definition chunk_count_omp :: "('w::len) zfp_stream \<Rightarrow> nat \<Rightarrow> nat \<Rightarrow> nat" where
  "chunk_count_omp zfp blocks thr =
    (let n = the (zfp_stream_omp_chunk_size zfp);
         chunks = (if n \<noteq> 0 then (blocks + n - 1) div n else thr);
         chunks = min chunks blocks
     in min chunks INT_MAX)"

definition chunk_offset :: "nat \<Rightarrow> nat \<Rightarrow> nat \<Rightarrow> nat" where
  "chunk_offset blocks chunks chunk = (blocks * chunk) mod 2 ^ 64 div chunks"

text \<open>
  The bit stream of a chunk: in a buffer of its own, or in the buffer of the output stream at word \<open>base\<close>.
  \<open>local\<close> is the stream as the thread sees it.
\<close>

record (overloaded) 'w chunk_stream =
  owned :: bool
  base :: nat
  local :: "'w bitstream"

text \<open>Whether each chunk needs a buffer of its own.\<close>

definition needs_copy :: "('w::len) zfp_stream \<Rightarrow> bool" where
  "needs_copy zfp \<longleftrightarrow> minbits zfp \<noteq> maxbits zfp \<or> maxbits zfp mod LENGTH('w) \<noteq> 0 \<or> stream_wtell (stream zfp) mod LENGTH('w) \<noteq> 0"

definition chunk_buffer_size :: "('w::len) zfp_stream \<Rightarrow> zfp_field \<Rightarrow> nat \<Rightarrow> nat \<Rightarrow> nat" where
  "chunk_buffer_size zfp field chunks blocks =
    (let n = 4 * (blocks + chunks - 1) div chunks;
         d = zfp_field_dimensionality field;
         f = (if d = 1 then field\<lparr>nx := n\<rparr>
              else if d = 2 then field\<lparr>nx := 4, ny := n\<rparr>
              else if d = 3 then field\<lparr>nx := 4, ny := 4, nz := n\<rparr>
              else field\<lparr>nx := 4, ny := 4, nz := 4, nw := n\<rparr>)
     in zfp_stream_maximum_size zfp f)"

definition compress_init_par ::
  "('w::len) omp_env \<Rightarrow> 'w zfp_stream \<Rightarrow> zfp_field \<Rightarrow> nat \<Rightarrow> nat \<Rightarrow> 'w chunk_stream list option" where
  "compress_init_par env zfp field chunks blocks =
    (if zfp_field_dimensionality field \<notin> {1, 2, 3, 4} then None
     else
       let sz = chunk_buffer_size zfp field chunks blocks;
           copy = needs_copy zfp
       in if \<not> malloc_ok env 0 (chunks * 8) then None
          else if copy \<and> \<not> list_all (\<lambda>chunk. malloc_ok env (chunk + 1) sz) [0..<chunks] then None
          else Some (map (\<lambda>chunk.
            let block = chunk_offset blocks chunks chunk;
                b = ptr (stream zfp) + block * (maxbits zfp div LENGTH('w))
            in if copy then \<lparr>owned = True, base = 0, local = stream_open (junk env chunk) sz\<rparr>
               else \<lparr>owned = False, base = b, local = stream_open (\<lambda>i. mem (stream zfp) (b + i)) sz\<rparr>) [0..<chunks]))"

text \<open>Access through the bit stream of a chunk: if the buffer is shared, the words are those of the output stream.\<close>

definition view :: "('w::len) bitstream \<Rightarrow> 'w chunk_stream \<Rightarrow> 'w bitstream" where
  "view dst c = (if owned c then local c else (local c)\<lparr>mem := \<lambda>i. mem dst (base c + i)\<rparr>)"

definition write_back :: "('w::len) bitstream \<Rightarrow> 'w chunk_stream \<Rightarrow> 'w bitstream \<Rightarrow> 'w bitstream" where
  "write_back dst c s = (if owned c then dst else dst\<lparr>mem := \<lambda>k. if base c \<le> k then mem s (k - base c) else mem dst k\<rparr>)"

text \<open>One pass of the parallel loop: \<open>body\<close> encodes one block.\<close>

definition compress_chunk ::
  "('w::len) zfp_stream \<Rightarrow> nat \<Rightarrow> nat \<Rightarrow> (nat \<Rightarrow> 'w zfp_stream \<Rightarrow> 'w zfp_stream) \<Rightarrow> nat \<Rightarrow>
    'w bitstream \<times> 'w chunk_stream list \<Rightarrow> 'w bitstream \<times> 'w chunk_stream list" where
  "compress_chunk zfp blocks chunks body chunk = (\<lambda>(dst, bs).
    let bmin = chunk_offset blocks chunks chunk;
        bmax = chunk_offset blocks chunks (chunk + 1);
        c = bs ! chunk;
        s = fold body [bmin..<bmax] (zfp\<lparr>stream := view dst c\<rparr>)
    in (write_back dst c (stream s), bs[chunk := c\<lparr>local := stream s\<rparr>]))"

text \<open>
  The end of the parallel part flushes and joins the streams. Releasing a buffer that \<open>malloc\<close> did not return is
  an error.
\<close>

datatype par_error = Invalid_free

fun finish_chunks ::
  "bool \<Rightarrow> 'w chunk_stream list \<Rightarrow> ('w::len) bitstream \<Rightarrow> nat \<Rightarrow> par_error + 'w bitstream \<times> nat" where
  "finish_chunks copy [] dst off = Inr (dst, off)"
| "finish_chunks copy (c # cs) dst off =
    (let n = stream_wtell (view dst c);
         off = off + n;
         (_, s) = stream_flush (view dst c);
         dst = write_back dst c s
     in if copy then
          let (dst, _) = stream_copy dst (stream_rewind s) n
          in if owned c then finish_chunks copy cs dst off else Inl Invalid_free
        else finish_chunks copy cs dst off)"

definition compress_finish_par :: "'w chunk_stream list \<Rightarrow> ('w::len) bitstream \<Rightarrow> par_error + 'w bitstream" where
  "compress_finish_par bs dst =
    (let copy = (owned (hd bs) \<or> base (hd bs) \<noteq> 0)
     in case finish_chunks copy bs dst (stream_wtell dst) of
          Inl e \<Rightarrow> Inl e
        | Inr (dst, off) \<Rightarrow> Inr (if copy then dst else stream_wseek dst off))"

text \<open>What the five functions of \<^verbatim>\<open>ompcompress.c\<close> share; \<open>body\<close> encodes the block of a given number.\<close>

definition compress_par ::
  "('w::len) omp_env \<Rightarrow> 'w zfp_stream \<Rightarrow> zfp_field \<Rightarrow> nat \<Rightarrow> (nat \<Rightarrow> 'w zfp_stream \<Rightarrow> 'w zfp_stream) \<Rightarrow> par_error + 'w zfp_stream" where
  "compress_par env zfp field blocks body =
    (let thr = thread_count_omp env zfp;
         chunks = chunk_count_omp zfp blocks thr
     in case compress_init_par env zfp field chunks blocks of
          None \<Rightarrow> Inr zfp
        | Some bs \<Rightarrow>
            let (dst, bs) = fold (compress_chunk zfp blocks chunks body) (schedule env chunks) (stream zfp, bs)
            in map_sum id (\<lambda>dst. zfp\<lparr>stream := dst\<rparr>) (compress_finish_par bs dst))"

section \<open>Parallel compression\<close>

definition compress_omp_1 ::
  "('i::len) word scalar \<Rightarrow> ('w::len) omp_env \<Rightarrow> 'w zfp_stream \<Rightarrow> 'i word array \<Rightarrow> zfp_field \<Rightarrow> par_error + 'w zfp_stream" where
  "compress_omp_1 t env zfp a f =
    (let blocks = (nx f + 3) div 4
     in compress_par env zfp f blocks (\<lambda>block s.
          let x = 4 * block; p = int x
          in if nx f - x < 4 then snd (zfp_encode_partial_block_strided_1 t s a p (nx f - x) 1)
             else snd (zfp_encode_block t 1 s (map (\<lambda>i. a (p + int i)) [0..<4]))))"

definition compress_strided_omp_1 ::
  "('i::len) word scalar \<Rightarrow> ('w::len) omp_env \<Rightarrow> 'w zfp_stream \<Rightarrow> 'i word array \<Rightarrow> zfp_field \<Rightarrow> par_error + 'w zfp_stream" where
  "compress_strided_omp_1 t env zfp a f =
    (let blocks = (nx f + 3) div 4
     in compress_par env zfp f blocks (\<lambda>block s.
          let x = 4 * block; p = stride_x f * int x
          in if nx f - x < 4 then snd (zfp_encode_partial_block_strided_1 t s a p (nx f - x) (stride_x f))
             else snd (zfp_encode_block_strided_1 t s a p (stride_x f))))"

definition compress_strided_omp_2 ::
  "('i::len) word scalar \<Rightarrow> ('w::len) omp_env \<Rightarrow> 'w zfp_stream \<Rightarrow> 'i word array \<Rightarrow> zfp_field \<Rightarrow> par_error + 'w zfp_stream" where
  "compress_strided_omp_2 t env zfp a f =
    (let bx = (nx f + 3) div 4; by = (ny f + 3) div 4; blocks = bx * by
     in compress_par env zfp f blocks (\<lambda>block s.
          let b = block; x = 4 * (b mod bx); b = b div bx; y = 4 * b;
              p = stride_x f * int x + stride_y f * int y
          in if nx f - x < 4 \<or> ny f - y < 4
             then snd (zfp_encode_partial_block_strided_2 t s a p (min (nx f - x) 4) (min (ny f - y) 4) (stride_x f) (stride_y f))
             else snd (zfp_encode_block_strided_2 t s a p (stride_x f) (stride_y f))))"

definition compress_strided_omp_3 ::
  "('i::len) word scalar \<Rightarrow> ('w::len) omp_env \<Rightarrow> 'w zfp_stream \<Rightarrow> 'i word array \<Rightarrow> zfp_field \<Rightarrow> par_error + 'w zfp_stream" where
  "compress_strided_omp_3 t env zfp a f =
    (let bx = (nx f + 3) div 4; by = (ny f + 3) div 4; bz = (nz f + 3) div 4; blocks = bx * by * bz
     in compress_par env zfp f blocks (\<lambda>block s.
          let b = block; x = 4 * (b mod bx); b = b div bx; y = 4 * (b mod by); b = b div by; z = 4 * b;
              p = stride_x f * int x + stride_y f * int y + stride_z f * int z
          in if nx f - x < 4 \<or> ny f - y < 4 \<or> nz f - z < 4
             then snd (zfp_encode_partial_block_strided_3 t s a p (min (nx f - x) 4) (min (ny f - y) 4) (min (nz f - z) 4) (stride_x f) (stride_y f) (stride_z f))
             else snd (zfp_encode_block_strided_3 t s a p (stride_x f) (stride_y f) (stride_z f))))"

definition compress_strided_omp_4 ::
  "('i::len) word scalar \<Rightarrow> ('w::len) omp_env \<Rightarrow> 'w zfp_stream \<Rightarrow> 'i word array \<Rightarrow> zfp_field \<Rightarrow> par_error + 'w zfp_stream" where
  "compress_strided_omp_4 t env zfp a f =
    (let bx = (nx f + 3) div 4; by = (ny f + 3) div 4; bz = (nz f + 3) div 4; bw = (nw f + 3) div 4; blocks = bx * by * bz * bw
     in compress_par env zfp f blocks (\<lambda>block s.
          let b = block; x = 4 * (b mod bx); b = b div bx; y = 4 * (b mod by); b = b div by; z = 4 * (b mod bz); b = b div bz; w = 4 * b;
              p = stride_x f * int x + stride_y f * int y + stride_z f * int z + stride_w f * int w
          in if nx f - x < 4 \<or> ny f - y < 4 \<or> nz f - z < 4 \<or> nw f - w < 4
             then snd (zfp_encode_partial_block_strided_4 t s a p (min (nx f - x) 4) (min (ny f - y) 4) (min (nz f - z) 4) (min (nw f - w) 4) (stride_x f) (stride_y f) (stride_z f) (stride_w f))
             else snd (zfp_encode_block_strided_4 t s a p (stride_x f) (stride_y f) (stride_z f) (stride_w f))))"

section \<open>Compression and decompression of a field\<close>

text \<open>
  The function table of \<open>zfp_compress\<close>: execution policy, strided or not, dimensionality, scalar type. The word type
  \<open>'i\<close> is that of the bit patterns of the scalar type. \<open>omp\<close> is \<open>None\<close> in a build without OpenMP; CUDA is not built.
\<close>

definition scalar_of :: "('i::len) word unspecified \<Rightarrow> zfp_type \<Rightarrow> 'i word scalar option" where
  "scalar_of u ty = (case ty of zfp_type_int32 \<Rightarrow> Some Integral | zfp_type_int64 \<Rightarrow> Some Integral
     | zfp_type_float \<Rightarrow> Some (Floating u) | zfp_type_double \<Rightarrow> Some (Floating u) | zfp_type_none \<Rightarrow> None)"

definition compress_table ::
  "('w::len) omp_env option \<Rightarrow> zfp_exec_policy \<Rightarrow> bool \<Rightarrow> nat \<Rightarrow> ('i::len) word scalar \<Rightarrow>
    ('w zfp_stream \<Rightarrow> 'i word array \<Rightarrow> zfp_field \<Rightarrow> par_error + 'w zfp_stream) option" where
  "compress_table omp pol strided d t =
    (case pol of
       zfp_exec_serial \<Rightarrow>
         Some (\<lambda>z a f. Inr (
           if d = 1 then if strided then compress_strided_1 t z a f else compress_1 t z a f
           else if d = 2 then compress_strided_2 t z a f
           else if d = 3 then compress_strided_3 t z a f
           else compress_strided_4 t z a f))
     | zfp_exec_omp \<Rightarrow>
         (case omp of
            None \<Rightarrow> None
          | Some env \<Rightarrow>
              Some (\<lambda>z a f.
                if d = 1 then if strided then compress_strided_omp_1 t env z a f else compress_omp_1 t env z a f
                else if d = 2 then compress_strided_omp_2 t env z a f
                else if d = 3 then compress_strided_omp_3 t env z a f
                else compress_strided_omp_4 t env z a f))
     | zfp_exec_cuda \<Rightarrow> None)"

definition zfp_compress ::
  "('w::len) omp_env option \<Rightarrow> ('i::len) word unspecified \<Rightarrow> 'w zfp_stream \<Rightarrow> 'i word array \<Rightarrow> zfp_field \<Rightarrow> par_error + nat \<times> 'w zfp_stream" where
  "zfp_compress omp u zfp a field =
    (case scalar_of u (ftype field) of
       None \<Rightarrow> Inr (0, zfp)
     | Some t \<Rightarrow>
         (case compress_table omp (policy (exec zfp)) (snd (zfp_field_stride field)) (zfp_field_dimensionality field) t of
            None \<Rightarrow> Inr (0, zfp)
          | Some compress \<Rightarrow>
              (case compress zfp a field of
                 Inl e \<Rightarrow> Inl e
               | Inr zfp \<Rightarrow> let (_, s) = stream_flush (stream zfp) in Inr (stream_size s, zfp\<lparr>stream := s\<rparr>))))"

definition decompress_table ::
  "zfp_exec_policy \<Rightarrow> bool \<Rightarrow> nat \<Rightarrow> ('i::len) word scalar \<Rightarrow>
    (('w::len) zfp_stream \<Rightarrow> 'i word array \<Rightarrow> zfp_field \<Rightarrow> 'i word array \<times> 'w zfp_stream) option" where
  "decompress_table pol strided d t =
    (case pol of
       zfp_exec_serial \<Rightarrow>
         Some (\<lambda>z a f.
           if d = 1 then if strided then decompress_strided_1 t z a f else decompress_1 t z a f
           else if d = 2 then decompress_strided_2 t z a f
           else if d = 3 then decompress_strided_3 t z a f
           else decompress_strided_4 t z a f)
     | zfp_exec_omp \<Rightarrow> None
     | zfp_exec_cuda \<Rightarrow> None)"

definition zfp_decompress ::
  "('i::len) word unspecified \<Rightarrow> ('w::len) zfp_stream \<Rightarrow> 'i word array \<Rightarrow> zfp_field \<Rightarrow> nat \<times> 'i word array \<times> 'w zfp_stream" where
  "zfp_decompress u zfp a field =
    (case scalar_of u (ftype field) of
       None \<Rightarrow> (0, a, zfp)
     | Some t \<Rightarrow>
         (case decompress_table (policy (exec zfp)) (snd (zfp_field_stride field)) (zfp_field_dimensionality field) t of
            None \<Rightarrow> (0, a, zfp)
          | Some decompress \<Rightarrow>
              let (a, zfp) = decompress zfp a field;
                  (_, s) = stream_align (stream zfp)
              in (stream_size s, a, zfp\<lparr>stream := s\<rparr>)))"

end
