(* ===== verification/Omp_Proof.thy ===== *)
theory Omp_Proof
  imports Omp
begin

text \<open>
  Parallel compression writes what serial compression writes. The first part numbers the blocks as the parallel loops do and treats
  chunks that are compressed to buffers of their own; the second treats chunks that share the output buffer, where a chunk leaves
  the words of all others unchanged.
\<close>

section \<open>Blocks by number\<close>

lemma prod_counts: "length (corners ns) = prod_list (block_counts ns)"
  by (simp add: corners_def length_box)

lemma nth_box_Cons:
  assumes "b < n * prod_list ns"
  shows "box (n # ns) ! b = (b mod n) # (box ns ! (b div n))"
proof -
  have n: "0 < n" using assms by (cases n) simp_all
  have "b div n < prod_list ns" using assms n by (simp add: div_less_iff_less_mult mult.commute)
  then have "box (n # ns) ! (b mod n + n * (b div n)) = map (\<lambda>x. x # (box ns ! (b div n))) [0..<n] ! (b mod n)"
    unfolding box.simps using n by (intro nth_concat_rows) (simp_all add: length_box)
  then show ?thesis using n by simp
qed

lemma nth_corners_Cons:
  assumes "b < (n + 3) div 4 * length (corners ns)"
  shows "corners (n # ns) ! b = 4 * (b mod ((n + 3) div 4)) # (corners ns ! (b div ((n + 3) div 4)))"
proof -
  let ?m = "(n + 3) div 4"
  have b: "b < ?m * prod_list (block_counts ns)" using assms by (simp add: prod_counts)
  then have "0 < ?m" by (cases ?m) simp_all
  then have "b div ?m < prod_list (block_counts ns)" using b by (simp add: div_less_iff_less_mult mult.commute)
  moreover have "b < length (box (block_counts (n # ns)))" using b by (simp only: length_box block_counts_def) simp
  ultimately show ?thesis using nth_box_Cons [OF b] by (simp add: corners_def block_counts_def length_box del: box.simps)
qed

lemma length_corners [simp]: "length (corners []) = 1" "length (corners (n # ns)) = (n + 3) div 4 * length (corners ns)"
  by (simp_all add: prod_counts block_counts_def)

lemma corners_Nil [simp]: "corners [] = [[]]"
  by (simp add: corners_def block_counts_def)

lemma corner_by_number:
  "b < (n0 + 3) div 4 \<Longrightarrow> corners [n0] ! b = [4 * b]"
  "b < (n0 + 3) div 4 * ((n1 + 3) div 4) \<Longrightarrow>
    corners [n0, n1] ! b = [4 * (b mod ((n0 + 3) div 4)), 4 * (b div ((n0 + 3) div 4))]"
  "b < (n0 + 3) div 4 * ((n1 + 3) div 4) * ((n2 + 3) div 4) \<Longrightarrow>
    corners [n0, n1, n2] ! b = [4 * (b mod ((n0 + 3) div 4)), 4 * (b div ((n0 + 3) div 4) mod ((n1 + 3) div 4)),
      4 * (b div ((n0 + 3) div 4) div ((n1 + 3) div 4))]"
  "b < (n0 + 3) div 4 * ((n1 + 3) div 4) * ((n2 + 3) div 4) * ((n3 + 3) div 4) \<Longrightarrow>
    corners [n0, n1, n2, n3] ! b = [4 * (b mod ((n0 + 3) div 4)), 4 * (b div ((n0 + 3) div 4) mod ((n1 + 3) div 4)),
      4 * (b div ((n0 + 3) div 4) div ((n1 + 3) div 4) mod ((n2 + 3) div 4)),
      4 * (b div ((n0 + 3) div 4) div ((n1 + 3) div 4) div ((n2 + 3) div 4))]"
proof -
  have last: "corners [n] ! b = [4 * b]" if "b < (n + 3) div 4" for n b using nth_corners_Cons [of b n "[]"] that by simp
  have dv: "b div m < k" if "b < m * k" for b m k :: nat
    using that by (cases "m = 0") (simp_all add: div_less_iff_less_mult mult.commute)
  show "b < (n0 + 3) div 4 \<Longrightarrow> corners [n0] ! b = [4 * b]" by (rule last)
  have two: "corners [n0, n1] ! b = [4 * (b mod ((n0 + 3) div 4)), 4 * (b div ((n0 + 3) div 4))]"
    if "b < (n0 + 3) div 4 * ((n1 + 3) div 4)" for n0 n1 b
    using that nth_corners_Cons [of b n0 "[n1]"] last [OF dv [OF that]] by simp
  then show "b < (n0 + 3) div 4 * ((n1 + 3) div 4) \<Longrightarrow>
    corners [n0, n1] ! b = [4 * (b mod ((n0 + 3) div 4)), 4 * (b div ((n0 + 3) div 4))]" .
  have three: "corners [n0, n1, n2] ! b = [4 * (b mod ((n0 + 3) div 4)), 4 * (b div ((n0 + 3) div 4) mod ((n1 + 3) div 4)),
      4 * (b div ((n0 + 3) div 4) div ((n1 + 3) div 4))]"
    if "b < (n0 + 3) div 4 * ((n1 + 3) div 4 * ((n2 + 3) div 4))" for n0 n1 n2 b
    using that nth_corners_Cons [of b n0 "[n1, n2]"] two [OF dv [OF that]] by simp
  then show "b < (n0 + 3) div 4 * ((n1 + 3) div 4) * ((n2 + 3) div 4) \<Longrightarrow>
    corners [n0, n1, n2] ! b = [4 * (b mod ((n0 + 3) div 4)), 4 * (b div ((n0 + 3) div 4) mod ((n1 + 3) div 4)),
      4 * (b div ((n0 + 3) div 4) div ((n1 + 3) div 4))]" by (simp add: mult.assoc)
  show "b < (n0 + 3) div 4 * ((n1 + 3) div 4) * ((n2 + 3) div 4) * ((n3 + 3) div 4) \<Longrightarrow>
    corners [n0, n1, n2, n3] ! b = [4 * (b mod ((n0 + 3) div 4)), 4 * (b div ((n0 + 3) div 4) mod ((n1 + 3) div 4)),
      4 * (b div ((n0 + 3) div 4) div ((n1 + 3) div 4) mod ((n2 + 3) div 4)),
      4 * (b div ((n0 + 3) div 4) div ((n1 + 3) div 4) div ((n2 + 3) div 4))]"
    using nth_corners_Cons [of b n0 "[n1, n2, n3]"] three [OF dv, of b "(n0 + 3) div 4" n1 n2 n3] by (simp add: mult.assoc)
qed

text \<open>All parallel functions are \<open>compress_par\<close> with the block encoder of the serial functions.\<close>

definition block_number :: "('i::len) word scalar \<Rightarrow> zfp_field \<Rightarrow> 'i word array \<Rightarrow> nat \<Rightarrow> ('w::len) zfp_stream \<Rightarrow> 'w zfp_stream" where
  "block_number t f a b = encode_at t (strides f) (sizes f) a (corners (sizes f) ! b)"

definition runs_blocks ::
  "('i::len) word scalar \<Rightarrow> ('w::len) omp_env \<Rightarrow> 'w zfp_stream \<Rightarrow> 'i word array \<Rightarrow> zfp_field \<Rightarrow> par_error + 'w zfp_stream \<Rightarrow> bool" where
  "runs_blocks t env z a f r \<longleftrightarrow> (\<exists>body. r = compress_par env z f (length (corners (sizes f))) body \<and>
    (\<forall>b < length (corners (sizes f)). \<forall>s. body b s = block_number t f a b s))"

lemma runs_blocksI:
  assumes "r = compress_par env z f n body" "n = length (corners (sizes f))" "\<And>b s. b < n \<Longrightarrow> body b s = block_number t f a b s"
  shows "runs_blocks t env z a f r"
  using assms by (auto simp: runs_blocks_def)

lemma compress_omp_runs:
  "zfp_field_dimensionality f = 1 \<Longrightarrow> sx f = 0 \<Longrightarrow> runs_blocks t env z a f (compress_omp_1 t env z a f)"
  "zfp_field_dimensionality f = 1 \<Longrightarrow> runs_blocks t env z a f (compress_strided_omp_1 t env z a f)"
  "zfp_field_dimensionality f = 2 \<Longrightarrow> runs_blocks t env z a f (compress_strided_omp_2 t env z a f)"
  "zfp_field_dimensionality f = 3 \<Longrightarrow> runs_blocks t env z a f (compress_strided_omp_3 t env z a f)"
  "zfp_field_dimensionality f = 4 \<Longrightarrow> runs_blocks t env z a f (compress_strided_omp_4 t env z a f)"
proof goal_cases
  case 1
  have s: "strides f = [1]" "sizes f = [nx f]" using strides_sizes(1) [OF 1(1)] 1(2) by (simp_all add: stride_x_def)
  have g: "gather_1 (replicate 4 0) a p 1 = map (\<lambda>i. a (p + int i)) [0..<4]" for p
    using gather_1_eq [of "replicate 4 0" a p 1] by simp
  show ?case
    unfolding compress_omp_1_def Let_def
  proof (rule runs_blocksI [OF refl], goal_cases)
    case (2 b r)
    then show ?case using encode_body_1 [of 1 "4 * b" "nx f" t r a, unfolded Let_def]
      by (cases "nx f - 4 * b < 4") (simp_all add: block_number_def s corner_by_number zfp_encode_block_strided_1_def g Let_def)
  qed (simp add: s)
next
  case 2
  note s = strides_sizes(1) [OF 2]
  show ?case unfolding compress_strided_omp_1_def Let_def
    by (rule runs_blocksI [OF refl]) (simp_all add: s block_number_def corner_by_number encode_body_1 [unfolded Let_def])
next
  case 3
  note s = strides_sizes(2) [OF 3]
  show ?case unfolding compress_strided_omp_2_def Let_def
    by (rule runs_blocksI [OF refl]) (simp_all add: s block_number_def corner_by_number encode_body_2 [unfolded Let_def])
next
  case 4
  note s = strides_sizes(3) [OF 4]
  show ?case unfolding compress_strided_omp_3_def Let_def
    by (rule runs_blocksI [OF refl]) (simp_all add: s block_number_def corner_by_number encode_body_3 [unfolded Let_def] mult.assoc)
next
  case 5
  note s = strides_sizes(4) [OF 5]
  show ?case unfolding compress_strided_omp_4_def Let_def
    by (rule runs_blocksI [OF refl]) (simp_all add: s block_number_def corner_by_number encode_body_4 [unfolded Let_def] mult.assoc)
qed

section \<open>Chunks partition the blocks\<close>

lemma chunk_offset_eq: "n * k < 2 ^ 64 \<Longrightarrow> c \<le> k \<Longrightarrow> chunk_offset n k c = n * c div k"
proof -
  assume "n * k < 2 ^ 64" "c \<le> k"
  then have "n * c < 2 ^ 64" by (meson le_less_trans mult_le_mono2)
  then show ?thesis by (simp add: chunk_offset_def)
qed

lemma chunks_concat:
  assumes "n * k < 2 ^ 64" "0 < k" "c \<le> k"
  shows "concat (map (\<lambda>c. [chunk_offset n k c..<chunk_offset n k (c + 1)]) [0..<c]) = [0..<chunk_offset n k c]"
  using assms(3)
proof (induction c)
  case 0
  then show ?case by (simp add: chunk_offset_def)
next
  case (Suc c)
  have "chunk_offset n k c \<le> chunk_offset n k (Suc c)"
    using Suc.prems by (simp add: chunk_offset_eq [OF assms(1)] div_le_mono)
  then have "[0..<chunk_offset n k (Suc c)] = [0..<chunk_offset n k c] @ [chunk_offset n k c..<chunk_offset n k (Suc c)]"
    by (metis le_add_diff_inverse upt_add_eq_append zero_le)
  then show ?case using Suc by simp
qed

lemma chunk_offset_end: "n * k < 2 ^ 64 \<Longrightarrow> 0 < k \<Longrightarrow> chunk_offset n k k = n"
  by (simp add: chunk_offset_eq)

lemma chunk_offset_mono: "n * k < 2 ^ 64 \<Longrightarrow> 0 < k \<Longrightarrow> c \<le> d \<Longrightarrow> d \<le> k \<Longrightarrow> chunk_offset n k c \<le> chunk_offset n k d"
  by (simp add: chunk_offset_eq div_le_mono)

section \<open>Chunks with buffers of their own\<close>

definition chunk_result ::
  "('w::len) zfp_stream \<Rightarrow> nat \<Rightarrow> nat \<Rightarrow> (nat \<Rightarrow> 'w zfp_stream \<Rightarrow> 'w zfp_stream) \<Rightarrow> 'w chunk_stream list \<Rightarrow> nat \<Rightarrow> 'w chunk_stream" where
  "chunk_result z n k body bs c =
    (bs ! c)\<lparr>local := stream (fold body [chunk_offset n k c..<chunk_offset n k (c + 1)] (z\<lparr>stream := local (bs ! c)\<rparr>))\<rparr>"

lemma owned_chunk:
  "xs ! c = bs ! c \<Longrightarrow> owned (bs ! c) \<Longrightarrow> compress_chunk z n k body c (dst, xs) = (dst, xs[c := chunk_result z n k body bs c])"
  by (simp add: compress_chunk_def Let_def view_def write_back_def chunk_result_def)

lemma owned_chunks:
  assumes "\<forall>c < length bs. owned (bs ! c)" "distinct cs" "set cs \<subseteq> {..<length bs}"
  shows "fold (compress_chunk z n k body) cs (dst, bs) =
    (dst, map (\<lambda>c. if c \<in> set cs then chunk_result z n k body bs c else bs ! c) [0..<length bs])"
  using assms(2,3)
proof (induction cs rule: rev_induct)
  case Nil
  then show ?case by (simp add: map_nth)
next
  case (snoc c cs)
  have c: "c < length bs" "c \<notin> set cs" "owned (bs ! c)" using snoc.prems assms(1) by auto
  let ?xs = "map (\<lambda>c. if c \<in> set cs then chunk_result z n k body bs c else bs ! c) [0..<length bs]"
  have x: "?xs ! c = bs ! c" using c by simp
  have "compress_chunk z n k body c (dst, ?xs) = (dst, ?xs[c := chunk_result z n k body bs c])"
    by (rule owned_chunk [where xs = ?xs, OF x c(3)])
  moreover have "?xs[c := chunk_result z n k body bs c] =
      map (\<lambda>i. if i \<in> set (cs @ [c]) then chunk_result z n k body bs i else bs ! i) [0..<length bs]"
    using c by (intro nth_equalityI) (auto simp: nth_list_update)
  ultimately show ?case using snoc.IH snoc.prems by simp
qed

lemma finish_owned:
  fixes dst :: "('w::len) bitstream"
  assumes "\<forall>c \<in> set bs. owned c \<and> sink_ok (local c)" "sink_ok dst"
  shows "\<exists>off'. finish_chunks True bs dst off = Inr (wappend dst (concat (map (\<lambda>c. written (local c)) bs)), off')"
  using assms
proof (induction bs arbitrary: dst off)
  case (Cons c bs)
  let ?s = "local c"
  have ok: "owned c" "sink_ok ?s" using Cons.prems(1) by auto
  have r: "source_ok (stream_rewind (snd (stream_flush ?s)))" "upcoming (stream_rewind (snd (stream_flush ?s))) (written ?s)"
    using flush_rseek_upcoming [OF ok(2), of 0] by (simp_all add: flush_rewind)
  have "map (stream_peek (stream_rewind (snd (stream_flush ?s)))) [0..<stream_wtell ?s] = written ?s"
    using r(2) by (intro nth_equalityI) (simp_all add: upcoming_def wtell_length)
  then have cp: "fst (stream_copy dst (stream_rewind (snd (stream_flush ?s))) (stream_wtell ?s)) = wappend dst (written ?s)"
    using stream_copy_eq [OF Cons.prems(2) r(1)] by simp
  have "\<exists>off'. finish_chunks True bs (wappend dst (written ?s)) (off + stream_wtell ?s) =
      Inr (wappend (wappend dst (written ?s)) (concat (map (\<lambda>c. written (local c)) bs)), off')"
    using Cons.IH [of "wappend dst (written ?s)"] Cons.prems by simp
  then show ?case using ok(1) cp by (simp add: view_def write_back_def Let_def wappend_append case_prod_unfold)
qed simp

lemma concat_chunks:
  assumes "n * k < 2 ^ 64" "0 < k"
  shows "concat (map (\<lambda>c. concat (map g [chunk_offset n k c..<chunk_offset n k (c + 1)])) [0..<k]) = concat (map g [0..<n])"
proof -
  have "concat (map (\<lambda>c. concat (map g (h c))) cs) = concat (map g (concat (map h cs)))" for h and cs :: "nat list"
    by (induction cs) simp_all
  then show ?thesis by (simp only: chunks_concat [OF assms order_refl] chunk_offset_end [OF assms])
qed

text \<open>What the run-time system must provide: at least one thread, a schedule that does every chunk once, and memory.\<close>

definition env_ok :: "('w::len) omp_env \<Rightarrow> 'w zfp_stream \<Rightarrow> nat \<Rightarrow> bool" where
  "env_ok env z n \<longleftrightarrow> (let k = chunk_count_omp z n (thread_count_omp env z)
     in 0 < k \<and> n * k < 2 ^ 64 \<and> distinct (schedule env k) \<and> set (schedule env k) = {..<k} \<and> (\<forall>c sz. malloc_ok env c sz))"

abbreviation block_codes :: "('i::len) word scalar \<Rightarrow> zfp_field \<Rightarrow> 'i word array \<Rightarrow> ('w::len) zfp_stream \<Rightarrow> nat \<Rightarrow> bool list" where
  "block_codes t f a z b \<equiv> block_code t (zfp_field_dimensionality f) z (block_at (strides f) (sizes f) a (corners (sizes f) ! b))"

lemma array_code_numbers: "array_code t f a z = concat (map (block_codes t f a z) [0..<length (corners (sizes f))])"
proof -
  have "map (\<lambda>xs. block_code t (zfp_field_dimensionality f) z (block_at (strides f) (sizes f) a xs)) (corners (sizes f)) =
      map (block_codes t f a z) [0..<length (corners (sizes f))]"
    by (rule nth_equalityI) simp_all
  then show ?thesis by (simp add: array_code_def)
qed

lemma block_range:
  assumes d: "1 \<le> zfp_field_dimensionality f" "zfp_field_dimensionality f \<le> 4"
    and ok: "codec_ok t (zfp_field_dimensionality f) z" and s: "sink_ok s"
    and body: "\<forall>b < length (corners (sizes f)). \<forall>s. body b s = block_number t f a b s" and j: "j \<le> length (corners (sizes f))"
  shows "fold body [i..<j] (z\<lparr>stream := s\<rparr>) = z\<lparr>stream := wappend s (concat (map (block_codes t f a z) [i..<j]))\<rparr>"
proof -
  let ?cs = "corners (sizes f)" and ?z = "z\<lparr>stream := s\<rparr>"
  have "fold body [i..<j] ?z = fold (block_number t f a) [i..<j] ?z" by (rule fold_cong) (use body j in \<open>auto simp: fun_eq_iff\<close>)
  also have "\<dots> = fold (encode_at t (strides f) (sizes f) a) (map ((!) ?cs) [i..<j]) ?z"
    by (simp add: fold_map comp_def block_number_def [abs_def])
  finally have e: "fold body [i..<j] ?z = fold (encode_at t (strides f) (sizes f) a) (map ((!) ?cs) [i..<j]) ?z" .
  have "set (map ((!) ?cs) [i..<j]) \<subseteq> set ?cs" using j by auto
  from encode_sequence [OF d ok _ _ this, of ?z] show ?thesis using s by (simp add: e comp_def)
qed

lemma compress_par_copy:
  fixes z :: "('w::len) zfp_stream"
  assumes d: "1 \<le> zfp_field_dimensionality f" "zfp_field_dimensionality f \<le> 4"
    and ok: "codec_ok t (zfp_field_dimensionality f) z" and s: "sink_ok (stream z)" and copy: "needs_copy z"
    and env: "env_ok env z (length (corners (sizes f)))"
    and body: "\<forall>b < length (corners (sizes f)). \<forall>s. body b s = block_number t f a b s"
  shows "compress_par env z f (length (corners (sizes f))) body = Inr (z\<lparr>stream := wappend (stream z) (array_code t f a z)\<rparr>)"
proof -
  let ?n = "length (corners (sizes f))"
  let ?k = "chunk_count_omp z ?n (thread_count_omp env z)" and ?sz = "chunk_buffer_size z f (chunk_count_omp z ?n (thread_count_omp env z)) ?n"
  let ?off = "chunk_offset ?n ?k"
  have k: "0 < ?k" "?n * ?k < 2 ^ 64" and sch: "distinct (schedule env ?k)" "set (schedule env ?k) = {..<?k}" and m: "\<forall>c sz. malloc_ok env c sz"
    using env by (simp_all add: env_ok_def Let_def)
  define bs where "bs = map (\<lambda>c. \<lparr>owned = True, base = 0, local = stream_open (junk env c) ?sz\<rparr>) [0..<?k]"
  have init: "compress_init_par env z f ?k ?n = Some bs"
    using d m copy by (auto simp: compress_init_par_def Let_def bs_def list_all_iff)
  define rs where "rs = map (chunk_result z ?n ?k body bs) [0..<?k]"
  have "fold (compress_chunk z ?n ?k body) (schedule env ?k) (stream z, bs) =
      (stream z, map (\<lambda>c. if c \<in> set (schedule env ?k) then chunk_result z ?n ?k body bs c else bs ! c) [0..<length bs])"
    by (rule owned_chunks) (use sch in \<open>simp_all add: bs_def\<close>)
  also have "\<dots> = (stream z, rs)" by (simp add: rs_def sch bs_def)
  finally have run: "fold (compress_chunk z ?n ?k body) (schedule env ?k) (stream z, bs) = (stream z, rs)" .
  have W: "LENGTH('w) \<le> 64" using s by (simp add: sink_ok_def)
  have res: "owned (chunk_result z ?n ?k body bs c) \<and> sink_ok (local (chunk_result z ?n ?k body bs c)) \<and>
      written (local (chunk_result z ?n ?k body bs c)) = concat (map (block_codes t f a z) [?off c..<?off (c + 1)])" if "c < ?k" for c
  proof -
    have "?off (c + 1) \<le> ?n" using chunk_offset_mono [OF k(2,1), of "c + 1" ?k] chunk_offset_end [OF k(2,1)] that by simp
    from block_range [OF d ok _ body this, of "local (bs ! c)" "?off c"] show ?thesis
      using that W by (simp add: chunk_result_def bs_def sink_ok_open written_open sink_ok_def [of "stream_open _ _", THEN iffD1, THEN conjunct2])
  qed
  then have "\<forall>c \<in> set rs. owned c \<and> sink_ok (local c)" by (auto simp: rs_def)
  from finish_owned [OF this s] obtain off' where
    "finish_chunks True rs (stream z) (stream_wtell (stream z)) = Inr (wappend (stream z) (concat (map (\<lambda>c. written (local c)) rs)), off')"
    by blast
  moreover have "concat (map (\<lambda>c. written (local c)) rs) = array_code t f a z"
  proof -
    have "map (\<lambda>c. written (local c)) rs = map (\<lambda>c. concat (map (block_codes t f a z) [?off c..<?off (c + 1)])) [0..<?k]"
      using res by (simp add: rs_def)
    then show ?thesis using concat_chunks [OF k(2,1), of "block_codes t f a z"] by (simp add: array_code_numbers)
  qed
  moreover have "owned (hd rs)" using res [of 0] k(1) by (simp add: rs_def hd_map)
  ultimately show ?thesis
    by (simp add: compress_par_def init run compress_finish_par_def)
qed

section \<open>Chunks that share the output buffer\<close>

text \<open>In fixed-rate mode every block takes the same number of bits.\<close>

lemma block_code_length:
  fixes b :: "('i::len) word list"
  assumes "codec_ok t d z" "minbits z = maxbits z" "12 \<le> maxbits z" "maxbits z < 2 ^ 32"
  shows "length (block_code t d z b) = maxbits z"
proof -
  have r: "\<not> REVERSIBLE z" using assms(1-3) by (auto simp: codec_ok_def)
  have "1 + ebits TYPE('i) \<le> 12" by (simp add: ebits_def)
  then have e: "1 + ebits TYPE('i) \<le> maxbits z" using assms(3) by linarith
  show ?thesis
  proof (cases t)
    case Integral
    then show ?thesis using r assms(2) by (simp add: block_code_def int_block_code_def)
  next
    case (Floating u)
    then show ?thesis using r assms(2,3) usub_eq [OF e assms(4)] e
      by (simp add: block_code_def float_block_code_def Let_def int_block_code_def exponent_bits_def min_absorb1)
  qed
qed

lemma codes_length:
  assumes "\<And>b. length (g b) = m"
  shows "length (concat (map g [i..<j])) = m * (j - i)"
  using assms by (simp add: length_concat comp_def sum_list_triv mult.commute)

lemma nth_codes:
  assumes g: "\<And>b. length (g b) = m" and p: "m * i \<le> p" "p < m * j" "j \<le> n"
  shows "concat (map g [i..<j]) ! (p - m * i) = concat (map g [0..<n]) ! p"
proof -
  have "i \<le> j" using p by (metis le_less_trans less_imp_le mult_le_mono2 nat_le_linear not_le)
  then have u: "[0..<n] = [0..<i] @ [i..<j] @ [j..<n]" using p(3)
    by (metis le_add_diff_inverse le_trans upt_add_eq_append zero_le)
  have "p - m * i < m * (j - i)" using p by (simp add: diff_mult_distrib2)
  then show ?thesis using p \<open>i \<le> j\<close>
    by (simp add: u nth_append codes_length [OF g] not_less diff_mult_distrib2 [symmetric] less_diff_conv diff_less_mono)
qed

lemma shared_chunk:
  fixes z :: "('w::len) zfp_stream" and dst :: "'w bitstream" and g :: "nat \<Rightarrow> bool list"
  assumes W: "LENGTH('w) \<le> 64" and g: "\<And>b. length (g b) = maxbits z" and q: "maxbits z = LENGTH('w) * q"
    and off: "off c \<le> off (c + 1)" "off (c + 1) \<le> n"
    and c: "\<not> owned x" "base x = q * off c" "bits (local x) = 0" "buffer (local x) = 0" "ptr (local x) = 0"
    and s: "s = wappend (view dst x) (concat (map g [off c..<off (c + 1)]))"
  shows "\<forall>j. j < q * off c \<or> q * off (c + 1) \<le> j \<longrightarrow> mem (write_back dst x s) j = mem dst j"
    and "\<forall>p. maxbits z * off c \<le> p \<and> p < maxbits z * off (c + 1) \<longrightarrow> tape (write_back dst x s) p = concat (map g [0..<n]) ! p"
    and "bits s = 0" "ptr s = q * (off (c + 1) - off c)"
proof -
  let ?W = "LENGTH('w)" and ?L = "maxbits z * (off (c + 1) - off c)" and ?v = "view dst x"
  have v: "winv ?v" "stream_wtell ?v = 0" "mem ?v = (\<lambda>i. mem dst (q * off c + i))"
    using c by (simp_all add: view_def winv_def stream_wtell_def)
  have t: "stream_wtell s = ?L" "winv s" unfolding s using v(1,2) by (simp_all add: codes_length [OF g])
  have "ptr s * ?W + bits s = ?W * (q * (off (c + 1) - off c))" using t(1) by (simp add: stream_wtell_def q mult.assoc)
  moreover have "bits s < ?W" using t(2) by (simp add: winv_def)
  ultimately show b: "bits s = 0" and p: "ptr s = q * (off (c + 1) - off c)"
    by (metis mod_less mod_mult_self2 mod_mult_self1_is_0 add.commute mult.commute, metis div_word div_mult_self1_is_m len_gt_0)
  have "mem s j = mem ?v j" if "ptr s \<le> j" for j using mem_wappend_after [OF v(1)] that by (simp add: s)
  then have after: "mem s j = mem dst (q * off c + j)" if "q * (off (c + 1) - off c) \<le> j" for j using that v(3) p by simp
  show "\<forall>j. j < q * off c \<or> q * off (c + 1) \<le> j \<longrightarrow> mem (write_back dst x s) j = mem dst j"
  proof (intro allI impI)
    fix j assume j: "j < q * off c \<or> q * off (c + 1) \<le> j"
    show "mem (write_back dst x s) j = mem dst j"
    proof (cases "q * off c \<le> j")
      case True
      moreover have "q * off c \<le> q * off (c + 1)" using off(1) by (rule mult_le_mono2)
      ultimately have "q * (off (c + 1) - off c) \<le> j - q * off c" using j by (simp add: diff_mult_distrib2)
      then show ?thesis using after True c by (simp add: write_back_def)
    qed (use c in \<open>simp add: write_back_def\<close>)
  qed
  show "\<forall>p. maxbits z * off c \<le> p \<and> p < maxbits z * off (c + 1) \<longrightarrow> tape (write_back dst x s) p = concat (map g [0..<n]) ! p"
  proof (intro allI impI, elim conjE)
    fix p assume p1: "maxbits z * off c \<le> p" "p < maxbits z * off (c + 1)"
    define i where "i = p - maxbits z * off c"
    have pi: "p = q * off c * ?W + i" using p1(1) by (simp add: i_def q ac_simps)
    have iL: "i < ?L" using p1 by (simp add: i_def diff_mult_distrib2)
    have d: "p div ?W = q * off c + i div ?W" "p mod ?W = i mod ?W" by (simp_all add: pi)
    have "i div ?W < ptr s" using iL by (simp add: p q div_less_iff_less_mult mult.assoc mult.commute [of ?W])
    then have "tape (write_back dst x s) p = wbit s i" using c by (simp add: tape_def wbit_def write_back_def d)
    also have "\<dots> = concat (map g [off c..<off (c + 1)]) ! i"
      using wbit_wappend_new [OF v(1), of i "concat (map g [off c..<off (c + 1)])"] iL v(2)
      by (simp add: s codes_length [OF g] del: upt_Suc)
    also have "\<dots> = concat (map g [0..<n]) ! p" unfolding i_def by (rule nth_codes [OF g p1 off(2)])
    finally show "tape (write_back dst x s) p = concat (map g [0..<n]) ! p" .
  qed
qed

text \<open>The chunks that are done, in any order: their words hold their bits, and no other word of the buffer has changed.\<close>

definition chunk_done :: "('w::len) bitstream \<Rightarrow> nat \<Rightarrow> nat \<Rightarrow> (nat \<Rightarrow> nat) \<Rightarrow> bool list \<Rightarrow> 'w chunk_stream \<Rightarrow> nat \<Rightarrow> bool" where
  "chunk_done dst m q off code x c \<longleftrightarrow> \<not> owned x \<and> base x = q * off c \<and> bits (local x) = 0 \<and> ptr (local x) = q * (off (c + 1) - off c)
    \<and> (\<forall>p. m * off c \<le> p \<and> p < m * off (c + 1) \<longrightarrow> tape dst p = code ! p)"

lemma shared_chunks:
  fixes z :: "('w::len) zfp_stream" and bs :: "'w chunk_stream list"
  assumes W: "LENGTH('w) \<le> 64" and g: "\<And>b. length (g b) = maxbits z" and q: "maxbits z = LENGTH('w) * q"
    and n: "n * k < 2 ^ 64" "0 < k"
    and bs: "length bs = k" "\<And>c. c < k \<Longrightarrow> \<not> owned (bs ! c) \<and> base (bs ! c) = q * chunk_offset n k c
        \<and> bits (local (bs ! c)) = 0 \<and> buffer (local (bs ! c)) = 0 \<and> ptr (local (bs ! c)) = 0"
    and body: "\<And>i j s. j \<le> n \<Longrightarrow> sink_ok s \<Longrightarrow> fold body [i..<j] (z\<lparr>stream := s\<rparr>) = z\<lparr>stream := wappend s (concat (map g [i..<j]))\<rparr>"
    and cs: "distinct cs" "set cs \<subseteq> {..<k}" and r: "fold (compress_chunk z n k body) cs (dst, bs) = (dst', bs')"
  shows "dst' = dst\<lparr>mem := mem dst'\<rparr> \<and> length bs' = k \<and> (\<forall>c < k. c \<notin> set cs \<longrightarrow> bs' ! c = bs ! c)
    \<and> (\<forall>c \<in> set cs. chunk_done dst' (maxbits z) q (chunk_offset n k) (concat (map g [0..<n])) (bs' ! c) c)"
  using cs r
proof (induction cs arbitrary: dst' bs' rule: rev_induct)
  case Nil
  then show ?case using bs(1) by simp
next
  case (snoc c cs)
  let ?off = "chunk_offset n k" and ?code = "concat (map g [0..<n])"
  obtain d1 b1 where f: "fold (compress_chunk z n k body) cs (dst, bs) = (d1, b1)" by force
  have ih: "d1 = dst\<lparr>mem := mem d1\<rparr>" "length b1 = k" "\<forall>c < k. c \<notin> set cs \<longrightarrow> b1 ! c = bs ! c"
    "\<forall>c \<in> set cs. chunk_done d1 (maxbits z) q ?off ?code (b1 ! c) c"
    using snoc.IH [OF _ _ f] snoc.prems by auto
  have c: "c < k" "c \<notin> set cs" and cs: "set cs \<subseteq> {..<k}" using snoc.prems by auto
  define x where "x = bs ! c"
  have x: "b1 ! c = x" "\<not> owned x" "base x = q * ?off c" "bits (local x) = 0" "buffer (local x) = 0" "ptr (local x) = 0"
    using ih(3) c bs(2) [OF c(1)] by (simp_all add: x_def)
  have off: "?off c \<le> ?off (c + 1)" "?off (c + 1) \<le> n"
    using chunk_offset_mono [OF n, of c "c + 1"] chunk_offset_mono [OF n, of "c + 1" k] chunk_offset_end [OF n] c(1) by simp_all
  define s where "s = wappend (view d1 x) (concat (map g [?off c..<?off (c + 1)]))"
  have "sink_ok (view d1 x)" using W x by (simp add: sink_ok_def winv_def view_def)
  from body [OF off(2) this] have step: "compress_chunk z n k body c (d1, b1) = (write_back d1 x s, b1[c := x\<lparr>local := s\<rparr>])"
    by (simp add: compress_chunk_def Let_def x(1) s_def)
  note sh = shared_chunk [where off = ?off and c = c and n = n and x = x and dst = d1 and g = g and z = z and q = q, OF W g q off x(2-6) s_def]
  have r: "dst' = write_back d1 x s" "bs' = b1[c := x\<lparr>local := s\<rparr>]" using snoc.prems(3) by (simp_all add: f step)
  obtain m' where m': "dst' = d1\<lparr>mem := m'\<rparr>" using x(2) by (simp add: r write_back_def)
  have "dst' = dst\<lparr>mem := m'\<rparr>" unfolding m' by (subst ih(1)) simp
  then have "dst' = dst\<lparr>mem := mem dst'\<rparr>" by simp
  moreover have "chunk_done dst' (maxbits z) q ?off ?code (bs' ! c) c"
    using sh x ih(2) c by (simp add: chunk_done_def r)
  moreover have "chunk_done dst' (maxbits z) q ?off ?code (bs' ! e) e" if e: "e \<in> set cs" for e
  proof -
    have ec: "e \<noteq> c" "e < k" using e c(2) cs by auto
    have "tape dst' p = tape d1 p" if p: "maxbits z * ?off e \<le> p" "p < maxbits z * ?off (e + 1)" for p
    proof -
      have w: "q * ?off e \<le> p div LENGTH('w)" "p div LENGTH('w) < q * ?off (e + 1)"
        using p by (simp_all add: q less_eq_div_iff_mult_less_eq div_less_iff_less_mult ac_simps)
      have "p div LENGTH('w) < q * ?off c \<or> q * ?off (c + 1) \<le> p div LENGTH('w)"
      proof (cases "e < c")
        case True
        then have "q * ?off (e + 1) \<le> q * ?off c" using c(1) by (intro mult_le_mono2 chunk_offset_mono [OF n]) simp_all
        then show ?thesis using w by linarith
      next
        case False
        then have "q * ?off (c + 1) \<le> q * ?off e" using ec by (intro mult_le_mono2 chunk_offset_mono [OF n]) simp_all
        then show ?thesis using w by linarith
      qed
      with sh(1) have "mem dst' (p div LENGTH('w)) = mem d1 (p div LENGTH('w))" unfolding r by blast
      then show ?thesis by (simp add: tape_def)
    qed
    then show ?thesis using ih(4) e ec(1) by (simp add: chunk_done_def r)
  qed
  ultimately show ?case using ih(2,3) by (auto simp: r)
qed

text \<open>Joining them is a matter of moving the position.\<close>

lemma finish_shared:
  assumes "\<forall>x \<in> set bs. \<not> owned x \<and> bits (local x) = 0"
  shows "finish_chunks False bs dst off = Inr (dst, off + sum_list (map (\<lambda>x. stream_wtell (local x)) bs))"
  using assms
proof (induction bs arbitrary: off)
  case (Cons x bs)
  then have x: "\<not> owned x" "bits (local x) = 0" by auto
  have v: "stream_wtell (view dst x) = stream_wtell (local x)" "stream_flush (view dst x) = (0, view dst x)"
    using x by (simp_all add: view_def stream_wtell_def stream_flush_def)
  have "write_back dst x (view dst x) = dst" using x by (simp add: write_back_def view_def fun_eq_iff)
  then show ?case using Cons by (simp add: v Let_def ac_simps)
qed simp

lemma compress_par_shared:
  fixes z :: "('w::len) zfp_stream"
  assumes d: "1 \<le> zfp_field_dimensionality f" "zfp_field_dimensionality f \<le> 4"
    and ok: "codec_ok t (zfp_field_dimensionality f) z" and s: "sink_ok (stream z)" and copy: "\<not> needs_copy z"
    and m: "12 \<le> maxbits z" "maxbits z < 2 ^ 32" and start: "stream_wtell (stream z) = 0"
    and env: "env_ok env z (length (corners (sizes f)))"
    and body: "\<forall>b < length (corners (sizes f)). \<forall>s. body b s = block_number t f a b s"
  shows "\<exists>s'. compress_par env z f (length (corners (sizes f))) body = Inr (z\<lparr>stream := s'\<rparr>) \<and> sink_ok s' \<and> written s' = array_code t f a z"
proof -
  let ?n = "length (corners (sizes f))" and ?W = "LENGTH('w)"
  let ?k = "chunk_count_omp z ?n (thread_count_omp env z)" and ?sz = "chunk_buffer_size z f (chunk_count_omp z ?n (thread_count_omp env z)) ?n"
  let ?off = "chunk_offset ?n ?k" and ?q = "maxbits z div ?W" and ?g = "block_codes t f a z"
  have k: "0 < ?k" "?n * ?k < 2 ^ 64" and sch: "distinct (schedule env ?k)" "set (schedule env ?k) = {..<?k}" and mal: "\<forall>c sz. malloc_ok env c sz"
    using env by (simp_all add: env_ok_def Let_def)
  have q: "maxbits z = ?W * ?q" and mm: "minbits z = maxbits z" using copy by (auto simp: needs_copy_def)
  have g: "length (?g b) = maxbits z" for b by (rule block_code_length [OF ok mm m])
  have p0: "ptr (stream z) = 0" using start by (simp add: stream_wtell_def)
  define bs where "bs = map (\<lambda>c. \<lparr>owned = False, base = ?q * ?off c,
    local = stream_open (\<lambda>i. mem (stream z) (?q * ?off c + i)) ?sz\<rparr>) [0..<?k]"
  have init: "compress_init_par env z f ?k ?n = Some bs"
    using d mal copy by (auto simp: compress_init_par_def Let_def bs_def list_all_iff p0 mult.commute)
  obtain dst rs where run: "fold (compress_chunk z ?n ?k body) (schedule env ?k) (stream z, bs) = (dst, rs)" by force
  have W: "?W \<le> 64" using s by (simp add: sink_ok_def)
  have "dst = stream z\<lparr>mem := mem dst\<rparr> \<and> length rs = ?k \<and> (\<forall>c < ?k. c \<notin> set (schedule env ?k) \<longrightarrow> rs ! c = bs ! c)
    \<and> (\<forall>c \<in> set (schedule env ?k). chunk_done dst (maxbits z) ?q ?off (concat (map ?g [0..<?n])) (rs ! c) c)"
  proof (rule shared_chunks [OF W g q k(2,1) _ _ _ sch(1) _ run])
    show "fold body [i..<j] (z\<lparr>stream := s\<rparr>) = z\<lparr>stream := wappend s (concat (map ?g [i..<j]))\<rparr>" if "j \<le> ?n" "sink_ok s" for i j s
      by (rule block_range [OF d ok that(2) body that(1)])
  qed (use sch in \<open>simp_all add: bs_def stream_open_def stream_rewind_def\<close>)
  then have dn: "length rs = ?k" "\<And>c. c < ?k \<Longrightarrow> chunk_done dst (maxbits z) ?q ?off (array_code t f a z) (rs ! c) c"
    and dst: "dst = stream z\<lparr>mem := mem dst\<rparr>"
    by (simp_all add: sch array_code_numbers)
  have rs: "\<forall>x \<in> set rs. \<not> owned x \<and> bits (local x) = 0" using dn by (auto simp: in_set_conv_nth chunk_done_def)
  have hd: "\<not> owned (hd rs) \<and> base (hd rs) = 0"
    using dn(2) [OF k(1)] dn(1) k(1) by (simp add: chunk_done_def hd_conv_nth [OF length_greater_0_conv [THEN iffD1]] chunk_offset_def)
  have tot: "sum_list (map (\<lambda>x. stream_wtell (local x)) rs) = maxbits z * ?n"
  proof -
    have "map (\<lambda>x. stream_wtell (local x)) rs = map (\<lambda>c. maxbits z * (?off (c + 1) - ?off c)) [0..<?k]"
      by (rule nth_equalityI) (use dn in \<open>simp_all add: chunk_done_def stream_wtell_def q [symmetric] mult.commute [of _ ?W] mult.assoc [symmetric]\<close>)
    moreover have "sum_list (map (\<lambda>c. maxbits z * (?off (c + 1) - ?off c)) [0..<j]) = maxbits z * ?off j" if "j \<le> ?k" for j
      using that
    proof (induction j)
      case (Suc j)
      then show ?case using chunk_offset_mono [OF k(2,1), of j "Suc j"] by (simp add: distrib_left [symmetric])
    qed (simp add: chunk_offset_def)
    ultimately show ?thesis using chunk_offset_end [OF k(2,1)] by simp
  qed
  have len: "length (array_code t f a z) = maxbits z * ?n" using codes_length [of ?g "maxbits z" 0 ?n, OF g] by (simp add: array_code_numbers)
  have tape: "tape dst p = array_code t f a z ! p" if pn: "p < maxbits z * ?n" for p
  proof -
    have "\<exists>c < j. maxbits z * ?off c \<le> p \<and> p < maxbits z * ?off (c + 1)" if "p < maxbits z * ?off j" "j \<le> ?k" for j
      using that
    proof (induction j)
      case (Suc j)
      then show ?case by (cases "p < maxbits z * ?off j") (auto simp: not_less intro: less_SucI)
    qed (simp add: chunk_offset_def)
    from this [of ?k] obtain c where "c < ?k" "maxbits z * ?off c \<le> p" "p < maxbits z * ?off (c + 1)"
      using pn unfolding chunk_offset_end [OF k(2,1)] by blast
    then show ?thesis using dn(2) by (simp add: chunk_done_def)
  qed
  have "compress_par env z f ?n body = Inr (z\<lparr>stream := stream_wseek dst (maxbits z * ?n)\<rparr>)"
    using hd finish_shared [OF rs, of dst "stream_wtell dst"] start tot
    by (simp add: compress_par_def init run compress_finish_par_def) (subst dst, simp add: stream_wtell_def)
  moreover have "written (stream_wseek dst (maxbits z * ?n)) = array_code t f a z"
    unfolding written_wseek by (rule nth_equalityI) (simp_all add: len tape)
  ultimately show ?thesis using sink_ok_wseek [OF W] by blast
qed

end
