(* ===== verification/Compress_Props.thy ===== *)
theory Compress_Props
  imports Omp_Proof
begin

text \<open>
  The properties of \<^verbatim>\<open>zfp_compress\<close> and \<^verbatim>\<open>zfp_decompress\<close>: round trip of whole arrays, synchronisation of both directions,
  equivalence of parallel and serial compression, the limits of the drivers, and the bound on the compressed size. \<open>compressible\<close>
  states what compression needs: a valid field of a supported type, stored at the width of the type, parameters that fit the codec, an
  open stream, and with OpenMP a run-time system that gives the memory it is asked for.
\<close>

section \<open>The result of compression\<close>

lemma dims_range: "valid_field f \<Longrightarrow> 1 \<le> zfp_field_dimensionality f \<and> zfp_field_dimensionality f \<le> 4"
  by (simp add: valid_field_def zfp_field_dimensionality_def)

lemma dims_split: "valid_field f \<Longrightarrow> zfp_field_dimensionality f = 1 \<or> zfp_field_dimensionality f = 2 \<or> zfp_field_dimensionality f = 3 \<or> zfp_field_dimensionality f = 4"
  using dims_range [of f] by auto

definition scalar :: "('i::len) word unspecified \<Rightarrow> zfp_field \<Rightarrow> 'i word scalar" where
  "scalar u f = (case scalar_of u (ftype f) of Some t \<Rightarrow> t | None \<Rightarrow> Integral)"

lemma scalar_of: "valid_field f \<Longrightarrow> scalar_of u (ftype f) = Some (scalar u f)"
  by (simp add: valid_field_def scalar_def scalar_of_def split: zfp_type.split)

text \<open>
  When a field can be compressed: a valid field whose scalars have the width of the array, parameters that the
  block codec supports, fewer than \<open>2 ^ 32\<close> values in a contiguous one-dimensional array, and, for parallel
  compression, what the run-time system must provide.
\<close>

definition compressible ::
  "('w::len) omp_env option \<Rightarrow> ('i::len) word unspecified \<Rightarrow> 'w zfp_stream \<Rightarrow> zfp_field \<Rightarrow> bool" where
  "compressible omp u z f \<longleftrightarrow> valid_field f \<and> LENGTH('i) = zfp_field_precision f \<and> sink_ok (stream z) \<and>
    codec_ok (scalar u f) (zfp_field_dimensionality f) z \<and>
    (zfp_field_dimensionality f = 1 \<and> \<not> snd (zfp_field_stride f) \<longrightarrow> nx f < 2 ^ 32) \<and>
    (case policy (exec z) of
       zfp_exec_serial \<Rightarrow> True
     | zfp_exec_omp \<Rightarrow> (case omp of None \<Rightarrow> False | Some env \<Rightarrow> env_ok env z (length (corners (sizes f))) \<and>
         (needs_copy z \<or> stream_wtell (stream z) = 0 \<and> 12 \<le> maxbits z \<and> maxbits z < 2 ^ 32))
     | zfp_exec_cuda \<Rightarrow> False)"

lemma compress_serial:
  fixes z :: "('w::len) zfp_stream" and a :: "('i::len) word array"
  assumes f: "valid_field f" and c: "zfp_field_dimensionality f = 1 \<and> \<not> snd (zfp_field_stride f) \<longrightarrow> nx f < 2 ^ 32"
  shows "\<exists>g. compress_table omp zfp_exec_serial (snd (zfp_field_stride f)) (zfp_field_dimensionality f) t = Some g
    \<and> g z a f = Inr (encode_blocks t f a z)"
proof -
  have "sx f = 0" if "\<not> snd (zfp_field_stride f)" using that by (simp add: zfp_field_stride_def)
  then show ?thesis using dims_split [OF f] c
    by (auto simp: compress_table_def compress_strided_blocks compress_contiguous)
qed

lemma decompress_serial:
  fixes z :: "('w::len) zfp_stream" and a :: "('i::len) word array"
  assumes f: "valid_field f" and c: "zfp_field_dimensionality f = 1 \<and> \<not> snd (zfp_field_stride f) \<longrightarrow> nx f < 2 ^ 32"
  shows "\<exists>g. decompress_table zfp_exec_serial (snd (zfp_field_stride f)) (zfp_field_dimensionality f) t = Some g
    \<and> g z a f = decode_blocks t f (a, z)"
proof -
  have "sx f = 0" if "\<not> snd (zfp_field_stride f)" using that by (simp add: zfp_field_stride_def)
  then show ?thesis using dims_split [OF f] c
    by (auto simp: decompress_table_def decompress_strided_blocks decompress_contiguous)
qed

lemma encode_blocks_eq:
  assumes "valid_field f" "codec_ok t (zfp_field_dimensionality f) z" "sink_ok (stream z)"
  shows "encode_blocks t f a z = z\<lparr>stream := wappend (stream z) (array_code t f a z)\<rparr>"
  using encode_sequence [OF _ _ assms(2) _ assms(3), of "corners (sizes f)" a] dims_range [OF assms(1)]
  by (simp add: encode_blocks_def array_code_def)

lemma compress_parallel:
  fixes z :: "('w::len) zfp_stream" and a :: "('i::len) word array"
  assumes f: "valid_field f" and c: "codec_ok t (zfp_field_dimensionality f) z" "sink_ok (stream z)"
    and env: "env_ok env z (length (corners (sizes f)))"
    and m: "needs_copy z \<or> stream_wtell (stream z) = 0 \<and> 12 \<le> maxbits z \<and> maxbits z < 2 ^ 32"
  shows "\<exists>g s'. compress_table (Some env) zfp_exec_omp (snd (zfp_field_stride f)) (zfp_field_dimensionality f) t = Some g
    \<and> g z a f = Inr (z\<lparr>stream := s'\<rparr>) \<and> sink_ok s' \<and> written s' = written (stream z) @ array_code t f a z"
proof -
  note d = dims_range [OF f]
  have "sx f = 0" if "\<not> snd (zfp_field_stride f)" using that by (simp add: zfp_field_stride_def)
  then obtain g where g: "compress_table (Some env) zfp_exec_omp (snd (zfp_field_stride f)) (zfp_field_dimensionality f) t = Some g"
    "runs_blocks t env z a f (g z a f)"
    using dims_split [OF f] by (auto simp: compress_table_def compress_omp_runs)
  then obtain body where b: "g z a f = compress_par env z f (length (corners (sizes f))) body"
    "\<forall>b < length (corners (sizes f)). \<forall>s. body b s = block_number t f a b s" by (auto simp: runs_blocks_def)
  show ?thesis
  proof (cases "needs_copy z")
    case True
    have "winv (stream z)" using c(2) by (simp add: sink_ok_def)
    then show ?thesis using compress_par_copy [OF _ _ c True env b(2)] d g(1) b(1) c(2) by auto
  next
    case False
    then have w: "written (stream z) = []" using m by (simp add: written_def)
    show ?thesis using compress_par_shared [OF _ _ c False _ _ _ env b(2)] False m d g(1) b(1) by (auto simp: w)
  qed
qed

lemma compress_result:
  fixes z :: "('w::len) zfp_stream" and a :: "('i::len) word array"
  assumes "compressible omp u z f"
  shows "\<exists>s. zfp_compress omp u z a f = Inr (stream_size (snd (stream_flush s)), z\<lparr>stream := snd (stream_flush s)\<rparr>)
    \<and> sink_ok s \<and> written s = written (stream z) @ array_code (scalar u f) f a z"
proof -
  have f: "valid_field f" and c: "codec_ok (scalar u f) (zfp_field_dimensionality f) z" "sink_ok (stream z)"
    and n: "zfp_field_dimensionality f = 1 \<and> \<not> snd (zfp_field_stride f) \<longrightarrow> nx f < 2 ^ 32"
    using assms by (simp_all add: compressible_def)
  show ?thesis
  proof (cases "policy (exec z)")
    case zfp_exec_serial
    have "winv (stream z)" using c(2) by (simp add: sink_ok_def)
    then show ?thesis
      using compress_serial [OF f n, of omp "scalar u f" z a] encode_blocks_eq [OF f c, of a] zfp_exec_serial c(2)
      by (intro exI [of _ "wappend (stream z) (array_code (scalar u f) f a z)"]) (auto simp: zfp_compress_def scalar_of [OF f] split: prod.split)
  next
    case zfp_exec_omp
    then obtain env where env: "omp = Some env" "env_ok env z (length (corners (sizes f)))"
      "needs_copy z \<or> stream_wtell (stream z) = 0 \<and> 12 \<le> maxbits z \<and> maxbits z < 2 ^ 32"
      using assms by (auto simp: compressible_def split: option.splits)
    from compress_parallel [OF f c env(2,3), of a] obtain g s where
      "compress_table (Some env) zfp_exec_omp (snd (zfp_field_stride f)) (zfp_field_dimensionality f) (scalar u f) = Some g"
      "g z a f = Inr (z\<lparr>stream := s\<rparr>)" "sink_ok s" "written s = written (stream z) @ array_code (scalar u f) f a z" by blast
    then show ?thesis
      using zfp_exec_omp env(1) by (intro exI [of _ s]) (simp add: zfp_compress_def scalar_of [OF f] case_prod_unfold Let_def)
  next
    case zfp_exec_cuda
    then show ?thesis using assms by (simp add: compressible_def)
  qed
qed

section \<open>The result of decompression\<close>

text \<open>The stream positioned to read what was written from offset \<open>p\<close> on, and set to serial execution.\<close>

definition reading :: "('w::len) zfp_stream \<Rightarrow> nat \<Rightarrow> 'w zfp_stream" where
  "reading z p = snd (zfp_stream_set_execution False (z\<lparr>stream := stream_rseek (stream z) p\<rparr>) zfp_exec_serial)"

lemma block_code_exec: "block_code t d (z\<lparr>exec := e\<rparr>) = block_code t d z"
  by (simp add: fun_eq_iff block_code_def REVERSIBLE_def rev_float_block_code_def float_block_code_def float_nonzero_def float_maxprec_def Let_def split: scalar.split)

lemma reading_simps [simp]:
  "stream (reading z p) = stream_rseek (stream z) p" "policy (exec (reading z p)) = zfp_exec_serial"
  "block_code t d (reading z p) = block_code t d z" "codec_ok t d (reading z p) = codec_ok t d z"
  "REVERSIBLE (reading z p) = REVERSIBLE z" "array_code t f a (reading z p) = array_code t f a z"
proof -
  obtain e where e: "reading z p = z\<lparr>stream := stream_rseek (stream z) p, exec := e\<rparr>" "policy e = zfp_exec_serial"
    by (simp add: reading_def zfp_stream_set_execution_def Let_def)
  have b: "block_code t d (z\<lparr>stream := s, exec := e\<rparr>) = block_code t d z" for t :: "('i::len) word scalar" and d s
    using block_code_exec [where z = "z\<lparr>stream := s\<rparr>" and t = t and d = d and e = e] block_code_like [where p = z and z = "z\<lparr>stream := s\<rparr>" and t = t and d = d, OF like_simps(1)] by simp
  show "stream (reading z p) = stream_rseek (stream z) p" "policy (exec (reading z p)) = zfp_exec_serial"
    "block_code t d (reading z p) = block_code t d z" "codec_ok t d (reading z p) = codec_ok t d z"
    "REVERSIBLE (reading z p) = REVERSIBLE z" "array_code t f a (reading z p) = array_code t f a z"
    by (simp_all add: e b array_code_def codec_ok_def REVERSIBLE_def)
qed

lemma align_size:
  assumes "source_ok (s :: ('w::len) bitstream)"
  shows "stream_size (snd (stream_align s)) = (stream_rtell s + (LENGTH('w) - 1)) div LENGTH('w) * (LENGTH('w) div 8)"
proof -
  let ?W = "LENGTH('w)" and ?p = "stream_rtell s"
  have s: "stream_rseek s ?p = s" using assms by (simp add: source_ok_def rseek_self)
  have "bits (stream_rseek s q) = (?W - q mod ?W) mod ?W" for q
    by (cases "q mod ?W = 0") (simp_all add: stream_rseek_def stream_read_word_def Let_def)
  from this [of ?p] have b: "bits s = (?W - ?p mod ?W) mod ?W" unfolding s .
  then have m: "(?p + bits s) mod ?W = 0" 
  proof -
    have "(?p + bits s) mod ?W = (?p mod ?W + (?W - ?p mod ?W)) mod ?W" unfolding b by (metis mod_add_eq mod_mod_trivial)
    moreover have "?p mod ?W \<le> ?W" by (simp add: less_imp_le)
    ultimately show ?thesis by simp
  qed
  have r: "bits s = 0 \<Longrightarrow> stream_rtell s mod ?W = 0" using m by simp
  have "snd (stream_align s) = stream_rseek s (?p + bits s)"
    using s by (simp add: stream_align_def stream_skip_def Let_def)
  then have "ptr (snd (stream_align s)) = (?p + bits s) div ?W" using m by (simp add: stream_rseek_def Let_def)
  moreover have "(?p + bits s) div ?W = (?p + (?W - 1)) div ?W"
  proof (cases "?p mod ?W = 0")
    case True
    then obtain k where "?p = k * ?W" by (metis mod_eq_0_iff_dvd dvdE mult.commute)
    then show ?thesis using b by (simp add: div_word)
  next
    case False
    define k r where "k = ?p div ?W" and "r = ?p mod ?W"
    have p: "?p = k * ?W + r" "0 < r" "r < ?W" using False by (simp_all add: k_def r_def)
    then have "?p + bits s = (k + 1) * ?W" "?p + (?W - 1) = (k + 1) * ?W + (r - 1)" using b by simp_all
    then show ?thesis using p(3) div_word [of "r - 1" ?W "k + 1"] by simp
  qed
  ultimately show ?thesis by (simp add: stream_size_def)
qed

lemma decompress_result:
  fixes z :: "('w::len) zfp_stream" and a b :: "('i::len) word array"
  assumes "valid_field f" "codec_ok (scalar u f) (zfp_field_dimensionality f) z"
    and n: "zfp_field_dimensionality f = 1 \<and> \<not> snd (zfp_field_stride f) \<longrightarrow> nx f < 2 ^ 32"
    and p: "policy (exec z) = zfp_exec_serial" and s: "source_ok (stream z)" and up: "upcoming (stream z) (array_code (scalar u f) f a z)"
  shows "\<exists>b' z'. zfp_decompress u z b f = (stream_size (stream z'), b', z')
    \<and> stream z' = snd (stream_align (stream_skip (stream z) (length (array_code (scalar u f) f a z))))
    \<and> (\<forall>i. i \<notin> region f \<longrightarrow> b' i = b i) \<and> (REVERSIBLE z \<longrightarrow> (\<forall>i \<in> region f. b' i = a i))"
proof -
  obtain b' where "decode_blocks (scalar u f) f (b, z) = (b', z\<lparr>stream := stream_skip (stream z) (length (array_code (scalar u f) f a z))\<rparr>)"
    "\<forall>i. i \<notin> region f \<longrightarrow> b' i = b i" "REVERSIBLE z \<longrightarrow> (\<forall>i \<in> region f. b' i = a i)"
    using decode_blocks_result [OF _ _ assms(2) like_simps(3) s up, of b] dims_range [OF assms(1)] by blast
  then show ?thesis
    using decompress_serial [OF assms(1) n, of "scalar u f" z b] p
    by (auto simp: zfp_decompress_def scalar_of [OF assms(1)] case_prod_unfold Let_def)
qed

text \<open>Compression followed by decompression.\<close>

lemma compress_decompress:
  fixes z :: "('w::len) zfp_stream" and a b :: "('i::len) word array"
  assumes c: "compressible omp u z f" and e: "zfp_compress omp u z a f = Inr (n, z1)"
    and d: "zfp_decompress u (reading z1 (stream_wtell (stream z))) b f = (n', b', z2)"
  shows "n' = n" "stream_size (stream z2) = stream_size (stream z1)" "\<forall>i. i \<notin> region f \<longrightarrow> b' i = b i"
    "REVERSIBLE z \<Longrightarrow> \<forall>i \<in> region f. b' i = a i"
proof -
  let ?t = "scalar u f" and ?c = "array_code (scalar u f) f a z"
  let ?z = "reading z1 (stream_wtell (stream z))"
  obtain s where s: "zfp_compress omp u z a f = Inr (stream_size (snd (stream_flush s)), z\<lparr>stream := snd (stream_flush s)\<rparr>)"
    "sink_ok s" "written s = written (stream z) @ ?c"
    using compress_result [OF c] by blast
  have z1: "z1 = z\<lparr>stream := snd (stream_flush s)\<rparr>" and n: "n = stream_size (snd (stream_flush s))" using s(1) e by simp_all
  have t: "stream_wtell s = stream_wtell (stream z) + length ?c" using arg_cong [OF s(3), of length] by (simp add: wtell_length)
  have k: "codec_ok ?t (zfp_field_dimensionality f) z1" "array_code ?t f a z1 = ?c" "REVERSIBLE z1 = REVERSIBLE z"
  proof -
    have l: "like z z1" by (simp add: z1)
    show "codec_ok ?t (zfp_field_dimensionality f) z1" using c by (simp add: codec_ok_like [OF l] compressible_def)
    show "array_code ?t f a z1 = ?c" by (simp add: array_code_def block_code_like [OF l])
    show "REVERSIBLE z1 = REVERSIBLE z" by (simp add: z1 REVERSIBLE_def)
  qed
  have r: "source_ok (stream ?z)" "upcoming (stream ?z) ?c" "stream_rtell (stream ?z) = stream_wtell (stream z)"
    using flush_rseek_upcoming [OF s(2), of "stream_wtell (stream z)"] t by (simp_all add: z1 s(3) wtell_length)
  have f: "valid_field f" "zfp_field_dimensionality f = 1 \<and> \<not> snd (zfp_field_stride f) \<longrightarrow> nx f < 2 ^ 32" using c by (simp_all add: compressible_def)
  have "codec_ok ?t (zfp_field_dimensionality f) ?z" "upcoming (stream ?z) (array_code ?t f a ?z)" using k r(2) by simp_all
  from decompress_result [OF f(1) this(1) f(2) _ r(1) this(2), of b] d have res: "n' = stream_size (stream z2)"
    "stream z2 = snd (stream_align (stream_skip (stream ?z) (length ?c)))" "\<forall>i. i \<notin> region f \<longrightarrow> b' i = b i"
    "REVERSIBLE z \<longrightarrow> (\<forall>i \<in> region f. b' i = a i)"
    by (simp_all add: k)
  have "stream_rtell (stream_skip (stream ?z) (length ?c)) = stream_wtell s" using r(3) t by (simp add: rtell_skip)
  then have "stream_size (stream z2) = stream_size (stream z1)"
    using align_size [OF source_ok_skip [OF r(1), of "length ?c"]] s(2) by (simp add: res(2) z1 stream_size_def ptr_ceil sink_ok_def)
  then show "n' = n" "stream_size (stream z2) = stream_size (stream z1)" using res(1) n by (simp_all add: z1)
  show "\<forall>i. i \<notin> region f \<longrightarrow> b' i = b i" "REVERSIBLE z \<Longrightarrow> \<forall>i \<in> region f. b' i = a i" using res by blast+
qed

section \<open>Properties\<close>

text \<open>C1: reversible mode is lossless for whole arrays. Whatever the type, the dimensions and the strides of the field, and
  whether the blocks are compressed one after the other or in parallel, decompression into any other array restores every
  element of the field bit for bit, changes nothing else, and ends at the same position of the stream as compression.\<close>

theorem reversible_array_roundtrip:
  fixes z :: "('w::len) zfp_stream" and a b :: "('i::len) word array"
  assumes "compressible omp u z f" "REVERSIBLE z"
  shows "\<exists>n z1 b' z2. zfp_compress omp u z a f = Inr (n, z1)
    \<and> zfp_decompress u (reading z1 (stream_wtell (stream z))) b f = (n, b', z2)
    \<and> b' = (\<lambda>i. if i \<in> region f then a i else b i)"
proof -
  obtain n z1 where e: "zfp_compress omp u z a f = Inr (n, z1)" using compress_result [OF assms(1)] by blast
  obtain n' b' z2 where d: "zfp_decompress u (reading z1 (stream_wtell (stream z))) b f = (n', b', z2)" by (metis prod_cases3)
  from compress_decompress [OF assms(1) e d] assms(2) have "n' = n" "b' = (\<lambda>i. if i \<in> region f then a i else b i)" by auto
  then show ?thesis using e d by blast
qed

abbreviation sample_field :: zfp_field where "sample_field \<equiv> zfp_field_2d (Some 0) zfp_type_int32 5 3"

lemma sample_field: "valid_field sample_field" "zfp_field_dimensionality sample_field = 2" "sizes sample_field = [5, 3]" "strides sample_field = [1, 5]"
  "zfp_field_precision sample_field = 32"
  by (simp_all add: zfp_field_2d_def zfp_field_alloc_def valid_field_def zfp_field_dimensionality_def sizes_def strides_def zfp_field_size_def
      zfp_field_stride_def zfp_field_precision_def zfp_type_size_def)

lemma sample_scalar: "scalar u sample_field = Integral"
  by (simp add: zfp_field_2d_def zfp_field_alloc_def scalar_def scalar_of_def)

lemma sample_compressible:
  "\<not> REVERSIBLE (sample_stream mi ma pr ex) \<or> mi \<le> 1 \<and> 32 \<le> pr \<and> ZFP_MAX_BITS \<le> ma \<and> ma < 2 ^ 32 \<Longrightarrow>
    compressible None (plain_unspecified 0 :: uint32 unspecified) (sample_stream mi ma pr ex) sample_field"
  using sample_field sink_ok_open [where 'w = 64, of "\<lambda>_. 0" 1024]
  by (auto simp: compressible_def codec_ok_def sample_scalar) (auto simp: sample_stream_def)

theorem reversible_array_roundtrip_witness:
  "\<exists>n z1 b' z2. zfp_compress None (plain_unspecified 0) (sample_stream 1 ZFP_MAX_BITS 64 (- 1075)) (word_of_int :: int \<Rightarrow> uint32) sample_field = Inr (n, z1)
    \<and> zfp_decompress (plain_unspecified 0) (reading z1 0) (\<lambda>_. 7 :: uint32) sample_field = (n, b', z2) \<and> b' 14 = 14 \<and> b' 15 = 7"
proof -
  let ?z = "sample_stream 1 ZFP_MAX_BITS 64 (- 1075)" and ?a = "word_of_int :: int \<Rightarrow> uint32"
  have r: "REVERSIBLE ?z" by (simp add: sample_stream_def REVERSIBLE_def ZFP_MIN_EXP_def)
  have c: "compressible None (plain_unspecified 0 :: uint32 unspecified) ?z sample_field"
    by (rule sample_compressible) (simp add: ZFP_MAX_BITS_def)
  have "[4, 2] \<in> set (box [5, 3])" by (simp add: set_box image_iff)
  then have "offset [1, 5] [4, 2] \<in> region sample_field" unfolding region_def sample_field(3,4) by (rule imageI)
  then have i: "14 \<in> region sample_field" by simp
  have "i < 15" if "i \<in> region sample_field" for i
    using that by (auto simp: region_def sample_field set_box list_all2_Cons2)
  then have o: "15 \<notin> region sample_field" by blast
  have "stream_wtell (stream ?z) = 0" by (simp add: sample_stream_def written_open)
  then obtain n z1 z2 where "zfp_compress None (plain_unspecified 0) ?z ?a sample_field = Inr (n, z1)"
      "zfp_decompress (plain_unspecified 0) (reading z1 0) (\<lambda>_. 7 :: uint32) sample_field = (n, \<lambda>i. if i \<in> region sample_field then ?a i else 7, z2)"
    using reversible_array_roundtrip [OF c r, of ?a "\<lambda>_. 7"] by auto
  then show ?thesis using i o by (intro exI [of _ n] exI [of _ z1] exI [of _ "\<lambda>i. if i \<in> region sample_field then ?a i else 7"] exI [of _ z2]) simp
qed

text \<open>C3: compression and decompression stay in step in every lossy mode, whatever the four parameters are, and in reversible mode with
  the parameters that \<^verbatim>\<open>zfp_stream_set_reversible\<close> sets or any that cut nothing off (\<open>minbits\<close> at most 1, \<open>maxbits\<close> at least that of the
  largest block, all bit planes): the decoder of a whole array consumes exactly the words the encoder wrote, so that both report the same size,
  and it writes to no memory outside of the elements of the field. The arrays are those of \<open>compressible\<close>, and the decoder is serial, as the library has
  no OpenMP one.\<close>

theorem array_in_sync:
  fixes z :: "('w::len) zfp_stream" and a b :: "('i::len) word array"
  assumes "compressible omp u z f" "i \<notin> region f"
  shows "\<exists>n z1 b' z2. zfp_compress omp u z a f = Inr (n, z1)
    \<and> zfp_decompress u (reading z1 (stream_wtell (stream z))) b f = (n, b', z2)
    \<and> zfp_stream_compressed_size z2 = zfp_stream_compressed_size z1 \<and> b' i = b i"
proof -
  obtain n z1 where e: "zfp_compress omp u z a f = Inr (n, z1)" using compress_result [OF assms(1)] by blast
  obtain n' b' z2 where d: "zfp_decompress u (reading z1 (stream_wtell (stream z))) b f = (n', b', z2)" by (metis prod_cases3)
  from compress_decompress [OF assms(1) e d] assms(2) show ?thesis using e d by (auto simp: zfp_stream_compressed_size_def)
qed

theorem array_in_sync_witness:
  "\<exists>n z1 b' z2. zfp_compress None (plain_unspecified 0) (sample_stream 100 100 64 (- 1074)) (word_of_int :: int \<Rightarrow> uint32) sample_field = Inr (n, z1)
    \<and> zfp_decompress (plain_unspecified 0) (reading z1 0) (\<lambda>_. 7 :: uint32) sample_field = (n, b', z2) \<and> b' 15 = 7"
proof -
  let ?z = "sample_stream 100 100 64 (- 1074)" and ?a = "word_of_int :: int \<Rightarrow> uint32"
  have r: "\<not> REVERSIBLE ?z" by (simp add: sample_stream_def REVERSIBLE_def ZFP_MIN_EXP_def)
  have c: "compressible None (plain_unspecified 0 :: uint32 unspecified) ?z sample_field"
    by (rule sample_compressible) (simp add: r)
  have "i < 15" if "i \<in> region sample_field" for i
    using that by (auto simp: region_def sample_field set_box list_all2_Cons2)
  then have o: "15 \<notin> region sample_field" by blast
  have "stream_wtell (stream ?z) = 0" by (simp add: sample_stream_def written_open)
  then obtain n z1 b' z2 where "zfp_compress None (plain_unspecified 0) ?z ?a sample_field = Inr (n, z1)"
      "zfp_decompress (plain_unspecified 0) (reading z1 0) (\<lambda>_. 7 :: uint32) sample_field = (n, b', z2)" "b' 15 = 7"
    using array_in_sync [OF c o, of ?a "\<lambda>_. 7"] by auto
  then show ?thesis by blast
qed

lemma flush_written:
  fixes s t :: "('w::len) bitstream"
  assumes "sink_ok s" "sink_ok t" "written s = written t"
  shows "written (snd (stream_flush s)) = written (snd (stream_flush t)) \<and> stream_size (snd (stream_flush s)) = stream_size (snd (stream_flush t))"
proof -
  have w: "winv s" "winv t" using assms by (simp_all add: sink_ok_def)
  have t: "stream_wtell s = stream_wtell t" using arg_cong [OF assms(3), of length] by (simp add: wtell_length)
  have "bits r = stream_wtell r mod LENGTH('w)" if "winv r" for r :: "'w bitstream"
    using that by (simp add: stream_wtell_def winv_def)
  then have "bits s = bits t" using w t by metis
  then have "written (snd (stream_flush s)) = written (snd (stream_flush t))" using w assms(3) by (simp add: stream_flush_eq)
  then show ?thesis using w t by (simp add: stream_size_def ptr_ceil)
qed

text \<open>C2: parallel compression produces the same stream as serial compression, bit for bit, however many threads and chunks
  there are, in whatever order the chunks are done, and whether they are compressed to buffers of their own and concatenated or
  written directly to their final place in the output buffer.\<close>

theorem parallel_equals_serial:
  fixes z :: "('w::len) zfp_stream" and a :: "('i::len) word array"
  assumes "compressible (Some env) u z f" "zfp_stream_execution z = zfp_exec_omp"
    and zs: "zfp_stream_set_execution True z zfp_exec_serial = (True, zs)"
  shows "\<exists>n z1 z2. zfp_compress (Some env) u z a f = Inr (n, z1) \<and> zfp_compress None u zs a f = Inr (n, z2)
    \<and> written (stream z1) = written (stream z2)"
proof -
  obtain e where e: "zs = z\<lparr>exec := e\<rparr>" "policy e = zfp_exec_serial"
    using zs by (auto simp: zfp_stream_set_execution_def Let_def)
  have code: "array_code t f a zs = array_code t f a z" for t :: "'i word scalar"
    by (simp add: e(1) array_code_def block_code_exec)
  have "codec_ok t d zs = codec_ok t d z" for t :: "'i word scalar" and d by (simp add: codec_ok_def e(1) REVERSIBLE_def)
  then have c: "compressible None u zs f" using assms(1) by (simp add: compressible_def e)
  obtain s where s: "zfp_compress (Some env) u z a f = Inr (stream_size (snd (stream_flush s)), z\<lparr>stream := snd (stream_flush s)\<rparr>)"
    "sink_ok s" "written s = written (stream z) @ array_code (scalar u f) f a z"
    using compress_result [OF assms(1), of a] by blast
  obtain t where t: "zfp_compress None u zs a f = Inr (stream_size (snd (stream_flush t)), zs\<lparr>stream := snd (stream_flush t)\<rparr>)"
    "sink_ok t" "written t = written (stream zs) @ array_code (scalar u f) f a zs"
    using compress_result [OF c, of a] by blast
  have "written s = written t" using s(3) t(3) unfolding code by (simp add: e(1))
  from flush_written [OF s(2) t(2) this] show ?thesis using s(1) t(1) by simp
qed

definition sample_env :: "64 omp_env" where
  "sample_env = \<lparr>max_threads = 4, malloc_ok = \<lambda>_ _. True, junk = \<lambda>_ _. 0, schedule = \<lambda>k. rev [0..<k]\<rparr>"

text \<open>Two threads, with the OpenMP policy.\<close>

definition sample_omp :: "nat \<Rightarrow> nat \<Rightarrow> 64 zfp_stream" where
  "sample_omp mi ma = snd (zfp_stream_set_omp_threads True (sample_stream mi ma 64 (- 1074)) 2)"

lemma sample_omp: "sample_omp mi ma = sample_stream mi ma 64 (- 1074)\<lparr>exec := \<lparr>policy = zfp_exec_omp, params = Some \<lparr>threads = 2, chunk_size = 0\<rparr>\<rparr>\<rparr>"
  by (simp add: sample_omp_def zfp_stream_set_omp_threads_def zfp_stream_set_execution_def Let_def sample_stream_def)

lemma env_ok_sample: "env_ok sample_env (sample_omp mi ma\<lparr>stream := s\<rparr>) 2"
  by (simp add: env_ok_def sample_env_def sample_omp chunk_count_omp_def thread_count_omp_def zfp_stream_omp_threads_def
      zfp_stream_omp_chunk_size_def INT_MAX_def Let_def sample_stream_def atLeast0LessThan)

lemma two_blocks: "length (corners (sizes sample_field)) = 2"
  by (simp add: sample_field)

theorem parallel_equals_serial_witness:
  "\<exists>n z1 z2. zfp_compress (Some sample_env) (plain_unspecified 0) (sample_omp 64 64) (word_of_int :: int \<Rightarrow> uint32) sample_field = Inr (n, z1)
    \<and> zfp_compress (None :: 64 omp_env option) (plain_unspecified 0) (snd (zfp_stream_set_execution True (sample_omp 64 64) zfp_exec_serial)) (word_of_int :: int \<Rightarrow> uint32) sample_field = Inr (n, z2)
    \<and> written (stream z1) = written (stream z2)"
proof -
  let ?z = "sample_omp 64 64"
  have zs: "zfp_stream_set_execution True ?z zfp_exec_serial = (True, snd (zfp_stream_set_execution True ?z zfp_exec_serial))"
    by (simp add: zfp_stream_set_execution_def Let_def)
  have p: "zfp_stream_execution ?z = zfp_exec_omp" by (simp add: sample_omp zfp_stream_execution_def)
  have e: "env_ok sample_env ?z (length (corners (sizes sample_field)))"
    unfolding two_blocks using env_ok_sample [where mi = 64 and ma = 64 and s = "stream ?z"] by simp
  have "\<not> REVERSIBLE ?z" "sink_ok (stream ?z)" "stream_wtell (stream ?z) = 0" "maxbits ?z = 64"
    by (simp_all add: sample_omp sample_stream_def REVERSIBLE_def ZFP_MIN_EXP_def sink_ok_open written_open)
  then have "compressible (Some sample_env) (plain_unspecified 0 :: uint32 unspecified) ?z sample_field"
    using sample_field p e by (simp add: compressible_def codec_ok_def sample_scalar zfp_stream_execution_def)
  from parallel_equals_serial [OF this p zs, of word_of_int] show ?thesis .
qed

section \<open>Limits of the drivers\<close>

lemma compress_chunk_kind:
  assumes "compress_chunk z n k body c (dst, bs) = (dst', bs')"
  shows "length bs' = length bs \<and> (\<forall>i < length bs. owned (bs' ! i) = owned (bs ! i) \<and> base (bs' ! i) = base (bs ! i))"
  using assms by (cases "c < length bs") (auto simp: compress_chunk_def Let_def nth_list_update list_update_beyond split: if_splits)

lemma compress_chunks_kind:
  "fold (compress_chunk z n k body) cs (dst, bs) = (dst', bs') \<Longrightarrow>
    length bs' = length bs \<and> (\<forall>i < length bs. owned (bs' ! i) = owned (bs ! i) \<and> base (bs' ! i) = base (bs ! i))"
proof (induction cs arbitrary: dst bs)
  case (Cons c cs)
  obtain d1 b1 where s: "compress_chunk z n k body c (dst, bs) = (d1, b1)" by force
  show ?case using compress_chunk_kind [OF s] Cons.IH [of d1 b1] Cons.prems s by simp
qed simp

lemma compress_par_later:
  fixes z :: "('w::len) zfp_stream"
  assumes f: "valid_field f" and copy: "\<not> needs_copy z" and s: "sink_ok (stream z)" "0 < stream_wtell (stream z)" and env: "env_ok env z n"
  shows "compress_par env z f n body = Inl Invalid_free"
proof -
  let ?k = "chunk_count_omp z n (thread_count_omp env z)" and ?sz = "chunk_buffer_size z f (chunk_count_omp z n (thread_count_omp env z)) n"
  let ?b = "\<lambda>c. ptr (stream z) + chunk_offset n ?k c * (maxbits z div LENGTH('w))"
  have k: "0 < ?k" and mal: "\<forall>c sz. malloc_ok env c sz" using env by (simp_all add: env_ok_def Let_def)
  have "stream_wtell (stream z) mod LENGTH('w) = 0" "bits (stream z) < LENGTH('w)"
    using copy s(1) by (simp_all add: needs_copy_def sink_ok_def winv_def)
  then have p0: "0 < ptr (stream z)" using s(2) by (cases "ptr (stream z) = 0") (simp_all add: stream_wtell_def)
  define bs where "bs = map (\<lambda>c. \<lparr>owned = False, base = ?b c, local = stream_open (\<lambda>i. mem (stream z) (?b c + i)) ?sz\<rparr>) [0..<?k]"
  have init: "compress_init_par env z f ?k n = Some bs"
    using dims_range [OF f] mal copy by (auto simp: compress_init_par_def Let_def bs_def list_all_iff)
  obtain dst rs where run: "fold (compress_chunk z n ?k body) (schedule env ?k) (stream z, bs) = (dst, rs)" by force
  have l: "length bs = ?k" "\<not> owned (bs ! 0)" "0 < base (bs ! 0)" using k p0 by (simp_all add: bs_def)
  have "length rs = ?k" "\<not> owned (rs ! 0)" "0 < base (rs ! 0)" using compress_chunks_kind [OF run] l k by auto
  then obtain x xs where r: "rs = x # xs" "\<not> owned x" "0 < base x" using k by (cases rs) auto
  show ?thesis
    using r by (simp add: compress_par_def init run compress_finish_par_def Let_def case_prod_unfold)
qed

text \<open>C34: parallel compression to a stream that already holds data fails in fixed-rate mode when the blocks are whole words and
  the position is a word boundary, as after an earlier field was compressed to the same stream: the chunks are then compressed
  in place, but the code that joins them takes the streams for separately allocated buffers, because they do not start at the
  start of the output buffer, and passes pointers into the output buffer to \<open>free\<close>.\<close>

theorem parallel_append_invalid_free:
  fixes z :: "('w::len) zfp_stream" and a :: "('i::len) word array"
  assumes f: "valid_field f" and z: "sink_ok (stream z)" "zfp_stream_execution z = zfp_exec_omp"
    and aligned: "minbits z = maxbits z" "LENGTH('w) dvd maxbits z" "LENGTH('w) dvd stream_wtell (stream z)"
    and later: "0 < stream_wtell (stream z)" and env: "env_ok env z (length (corners (sizes f)))"
  shows "zfp_compress (Some env) u z a f = Inl Invalid_free"
proof -
  have c: "\<not> needs_copy z" using aligned by (simp add: needs_copy_def)
  have "sx f = 0" if "\<not> snd (zfp_field_stride f)" using that by (simp add: zfp_field_stride_def)
  then obtain g where g: "compress_table (Some env) zfp_exec_omp (snd (zfp_field_stride f)) (zfp_field_dimensionality f) (scalar u f) = Some g"
    "runs_blocks (scalar u f) env z a f (g z a f)"
    using dims_split [OF f] by (auto simp: compress_table_def compress_omp_runs)
  then have "g z a f = Inl Invalid_free" using compress_par_later [OF f c z(1) later env] by (auto simp: runs_blocks_def)
  then show ?thesis using g(1) z(2) by (simp add: zfp_compress_def scalar_of [OF f] zfp_stream_execution_def)
qed

theorem parallel_append_invalid_free_witness:
  "zfp_compress (Some sample_env) (plain_unspecified 0)
     (sample_omp 64 64\<lparr>stream := wappend (stream_open (\<lambda>_. 0) 1024) (replicate 64 True)\<rparr>) (word_of_int :: int \<Rightarrow> uint32) sample_field = Inl Invalid_free"
proof -
  let ?s = "stream_open (\<lambda>_. 0) 1024 :: 64 bitstream"
  let ?z = "sample_omp 64 64\<lparr>stream := wappend ?s (replicate 64 True)\<rparr>"
  have s: "sink_ok ?s" by (simp add: sink_ok_open)
  then have "winv ?s" by (simp add: sink_ok_def)
  then have t: "stream_wtell (stream ?z) = 64" by (simp add: written_open)
  have "zfp_stream_execution ?z = zfp_exec_omp" "minbits ?z = 64" "maxbits ?z = 64" "sink_ok (stream ?z)"
    using s by (simp_all add: sample_omp sample_stream_def zfp_stream_execution_def)
  then show ?thesis
    using parallel_append_invalid_free [OF sample_field(1), where z = ?z and env = sample_env and u = "plain_unspecified 0" and a = "word_of_int :: int \<Rightarrow> uint32"]
      env_ok_sample [where mi = 64 and ma = 64 and s = "wappend ?s (replicate 64 True)"] two_blocks t by simp
qed

text \<open>A block buffer that is followed by other memory: gathering writes every value that it is told to, also beyond the buffer.\<close>

lemma gather_loop_1:
  "for_loop n (\<lambda>x (q, p). (q[x := a p], p + 1)) (q, p) = (map (\<lambda>i. if i < n then a (p + int i) else q ! i) [0..<length q], p + int n)"
proof (induction n)
  case (Suc n)
  have "(map (\<lambda>i. if i < n then a (p + int i) else q ! i) [0..<length q])[n := a (p + int n)] =
      map (\<lambda>i. if i < Suc n then a (p + int i) else q ! i) [0..<length q]"
    by (rule nth_equalityI) (auto simp: nth_list_update less_Suc_eq)
  then show ?case unfolding for_loop_simps Suc prod.case by simp
qed (simp add: map_nth)

lemma gather_partial_1_beyond:
  assumes "4 \<le> n" "i < length q" "i < n"
  shows "gather_partial_1 q a p n 1 ! i = a (p + int i)"
  using assms by (simp add: gather_partial_1_def gather_loop_1 pad_block_def)

text \<open>C35: a contiguous one-dimensional array of \<open>2 ^ 32\<close> values or more. The size of its whole blocks is computed with a 32-bit mask
  (\<open>~3u\<close>), which drops the high half, so that at least \<open>2 ^ 32\<close> values are left over for the partial block at the end. The function
  for a partial block, which takes at most three values, is called with their number, whatever function that is; and the function that gathers the
  values writes all of them, so that those from the fifth on overwrite what follows the local block of four in memory (\<open>q\<close>).\<close>

theorem contiguous_1d_overflow:
  fixes z :: "('w::len) zfp_stream" and a :: "('i::len) word array"
  assumes "2 ^ 32 \<le> nx f" "nx f < 2 ^ 64" "left = nx f - blocks_end (nx f)"
  shows "2 ^ 32 \<le> left
    \<and> (\<exists>z'. \<forall>enc. compress_1_calling enc t z a f = snd (enc z' a (int (blocks_end (nx f))) left 1))
    \<and> (\<forall>q i. i < length q \<and> i < left \<longrightarrow> gather_partial_1 q a (int (blocks_end (nx f))) left 1 ! i = a (int (blocks_end (nx f)) + int i))"
proof -
  let ?n = "nx f" and ?k = "nx f mod 2 ^ 32 div 4"
  let ?g = "\<lambda>p zfp. snd (zfp_encode_block t 1 zfp (map (\<lambda>i. a (p + int i)) [0..<4]))"
  have w: "whole_blocks ?n = 4 * ?k" "(4 * ?k + 3) div 4 = ?k" using assms(1,2) by (simp_all add: whole_blocks_eq)
  have e: "blocks_end ?n = 4 * ?k" unfolding blocks_end_def Let_def w ..
  have "2 ^ 32 * 1 \<le> 2 ^ 32 * (?n div 2 ^ 32)" using assms(1) by (intro mult_le_mono2) (simp add: Suc_leI div_greater_zero_iff)
  then have le: "2 ^ 32 + ?n mod 2 ^ 32 \<le> ?n" using mult_div_mod_eq [of "2 ^ 32" ?n] by linarith
  have k: "4 * ?k \<le> ?n mod 2 ^ 32" by simp
  have "2 ^ 32 + 4 * ?k \<le> ?n" using order_trans [OF add_left_mono [OF k] le] .
  then have l: "2 ^ 32 \<le> left" "4 * ?k < ?n" unfolding assms(3) e by simp_all
  have "compress_1_calling enc t z a f = snd (enc (for_loop ?k (\<lambda>i. ?g (4 * int i)) z) a (int (4 * ?k)) left 1)" for enc
    unfolding compress_1_calling_def Let_def blocks_loop_def w e assms(3) pointer_loop [of ?k ?g z] prod.case using l(2) by simp
  moreover have "4 \<le> left" using l(1) by simp
  ultimately show ?thesis using l(1) gather_partial_1_beyond unfolding e by blast
qed

theorem contiguous_1d_overflow_witness:
  "(\<exists>z'. \<forall>enc. compress_1_calling enc Integral (sample_stream 1 ZFP_MAX_BITS 64 (- 1075)) (word_of_int :: int \<Rightarrow> uint32)
      (zfp_field_1d None zfp_type_int32 4294967296) = snd (enc z' word_of_int 0 4294967296 1))
    \<and> gather_partial_1 (replicate 6 0) (word_of_int :: int \<Rightarrow> uint32) 0 4294967296 1 ! 5 = 5"
proof -
  let ?f = "zfp_field_1d None zfp_type_int32 4294967296"
  have n: "nx ?f = 4294967296" by (simp add: zfp_field_1d_def zfp_field_alloc_def)
  have e: "blocks_end 4294967296 = 0" by (simp add: blocks_end_def whole_blocks_eq)
  show ?thesis
    using contiguous_1d_overflow [of ?f 4294967296 Integral "sample_stream 1 ZFP_MAX_BITS 64 (- 1075)" "word_of_int :: int \<Rightarrow> uint32"]
    by (auto simp: n e)
qed

text \<open>What is not supported is reported and leaves everything as it was: a field without a type, the OpenMP policy in a build
  without OpenMP, the CUDA policy, and every policy but the serial one in decompression return zero.\<close>

theorem unsupported_modes:
  "(ftype f = zfp_type_none \<or> policy (exec z) = zfp_exec_cuda \<or> policy (exec z) = zfp_exec_omp \<and> omp = None \<longrightarrow>
     zfp_compress omp u z a f = Inr (0, z))
   \<and> (ftype f = zfp_type_none \<or> policy (exec z) \<noteq> zfp_exec_serial \<longrightarrow> zfp_decompress u z b f = (0, b, z))"
  by (auto simp: zfp_compress_def zfp_decompress_def compress_table_def decompress_table_def scalar_of_def
      split: zfp_type.split zfp_exec_policy.split)

theorem unsupported_modes_witness:
  "zfp_decompress (plain_unspecified 0) (sample_omp 64 64) (word_of_int :: int \<Rightarrow> uint32) sample_field = (0, word_of_int, sample_omp 64 64)"
  proof -
  have "policy (exec (sample_omp 64 64)) \<noteq> zfp_exec_serial" by (simp add: sample_omp)
  then show ?thesis using unsupported_modes [where f = sample_field and z = "sample_omp 64 64" and u = "plain_unspecified 0"
      and b = "word_of_int :: int \<Rightarrow> uint32" and omp = None and a = "word_of_int :: int \<Rightarrow> uint32"] by blast
qed

section \<open>The size of the output\<close>

lemma length_ints_code_min:
  "data \<noteq> [] \<Longrightarrow> length (ints_code k data) \<le> (min k (LENGTH('u)) + 1) * length data - 1" for data :: "('u::len) word list"
proof (cases "k \<le> LENGTH('u)")
  case False
  then have "ints_code k data = ints_code (LENGTH('u)) data" by (simp add: ints_code_def kmin_of_def)
  then show "data \<noteq> [] \<Longrightarrow> ?thesis" using length_ints_code [of data "LENGTH('u)"] False by (simp add: min_absorb2)
qed (use length_ints_code [of data k] in \<open>simp add: min_absorb1\<close>)

lemma length_block_ints:
  fixes b :: "('u::len) word list"
  assumes "k \<le> m"
  shows "length (ints_code k (fwd_order b p (4 ^ d))) \<le> 4 ^ d - 1 + 4 ^ d * min m (LENGTH('u))"
proof -
  have ne: "fwd_order b p (4 ^ d) \<noteq> []" using length_fwd_order [of b p "4 ^ d"] by (metis length_0_conv power_not_zero zero_neq_numeral)
  have "(min k (LENGTH('u)) + 1) * 4 ^ d - 1 \<le> (min m (LENGTH('u)) + 1) * 4 ^ d - 1"
    using assms by (intro diff_le_mono mult_le_mono1) simp
  also have "\<dots> = 4 ^ d - 1 + 4 ^ d * min m (LENGTH('u))" by (simp add: add_mult_distrib mult.commute)
  finally show ?thesis using length_ints_code_min [OF ne, of k] unfolding length_fwd_order by (rule order_trans [rotated])
qed

text \<open>The bits of a block before its integers.\<close>

definition header_bits :: "('i::len) word scalar \<Rightarrow> bool \<Rightarrow> nat" where
  "header_bits t r = (case t of Integral \<Rightarrow> if r then pbits TYPE('i) else 0
     | Floating u \<Rightarrow> if r then 1 + 1 + ebits TYPE('i) + pbits TYPE('i) else 1 + ebits TYPE('i))"

lemma padded_length:
  fixes h :: nat
  assumes "h \<le> mx" "i \<le> i'" "mn \<le> mx" "h \<le> h'"
  shows "h + max (mn - h) (min i (mx - h)) \<le> max (min (h' + i') mx) mn" "h + max (mn - min h mn) (min i (mx - h)) \<le> max (min (h' + i') mx) mn"
proof -
  obtain k where k: "mx = h + k" using assms(1) by (auto elim: less_eqE)
  have "h + max (mn - h) (min i k) \<le> max (min (h' + i') mx) mn"
  proof (cases "h \<le> mn")
    case True
    then obtain j where "mn = h + j" by (auto elim: less_eqE)
    then show ?thesis using assms k by (simp add: max_def min_def)
  next
    case False
    then show ?thesis using assms k by (simp add: max_def min_def)
  qed
  then show a: "h + max (mn - h) (min i (mx - h)) \<le> max (min (h' + i') mx) mn" by (simp add: k)
  have "mn - min h mn = mn - h" by simp
  with a show "h + max (mn - min h mn) (min i (mx - h)) \<le> max (min (h' + i') mx) mn" by metis
qed

lemma length_block_code:
  fixes b :: "('i::len) word list"
  assumes ok: "codec_ok t d z" and m: "header_bits t False \<le> maxbits z" "minbits z \<le> maxbits z" "maxbits z < 2 ^ 32"
  shows "length (block_code t d z b) \<le> max (min (header_bits t (REVERSIBLE z) + (4 ^ d - 1 + 4 ^ d * min (maxprec z) (LENGTH('i)))) (maxbits z)) (minbits z)"
proof -
  let ?I = "4 ^ d - 1 + 4 ^ d * min (maxprec z) (LENGTH('i))"
  have L: "LENGTH('i) = 32 \<or> LENGTH('i) = 64" using ok by (simp add: codec_ok_def)
  have e: "1 + ebits TYPE('i) \<le> 12" "pbits TYPE('i) \<le> 6" by (simp_all add: ebits_def pbits_def)
  have rev: "minbits z \<le> 1" "LENGTH('i) \<le> maxprec z" "ZFP_MAX_BITS \<le> maxbits z" if "REVERSIBLE z"
    using ok that by (simp_all add: codec_ok_def)
  have pr: "rev_prec d (maxprec z) b \<le> maxprec z" if "REVERSIBLE z" for b :: "'i word list"
    using rev_prec_range(2) [OF L, of d "maxprec z" b] rev(2) [OF that] by simp
  show ?thesis
  proof (cases t)
    case Integral
    show ?thesis
    proof (cases "REVERSIBLE z")
      case True
      have "pbits TYPE('i) \<le> maxbits z" using e rev(3) [OF True] by (simp add: ZFP_MAX_BITS_def)
      then have "usub (maxbits z) (pbits TYPE('i)) = maxbits z - pbits TYPE('i)" using m(3) by (rule usub_eq)
      then show ?thesis
        using Integral True length_block_ints [OF pr [OF True], of b "rev_fwd_xform d b" "PERM d" d] \<open>pbits TYPE('i) \<le> maxbits z\<close>
        by (simp add: block_code_def rev_block_code_def Let_def header_bits_def)
    next
      case False
      then show ?thesis
        using Integral length_block_ints [of "maxprec z" "maxprec z" "fwd_xform d b" "PERM d" d]
        by (simp add: block_code_def int_block_code_def header_bits_def)
    qed
  next
    case (Floating u)
    show ?thesis
    proof (cases "REVERSIBLE z")
      case True
      let ?h = "rev_float_header d u b" and ?i = "rev_float_ints d u b"
      have h: "1 \<le> length ?h" "length ?h \<le> 2 + ebits TYPE('i)" by (simp_all add: rev_float_header_def Let_def exponent_bits_def)
      have big: "ZFP_MAX_BITS \<le> maxbits z" "24 \<le> maxbits z" using rev(3) [OF True] by (simp_all add: ZFP_MAX_BITS_def)
      have "pbits TYPE('i) + length ?h \<le> maxbits z" using h e big(2) by linarith
      then have "length ?h \<le> maxbits z" "pbits TYPE('i) \<le> maxbits z - length ?h" by simp_all
      then have us: "usub (usub (maxbits z) (length ?h)) (pbits TYPE('i)) = maxbits z - length ?h - pbits TYPE('i)"
        using m(3) by (simp add: usub_eq)
      have "length (ints_code (rev_prec d (maxprec z) ?i) (fwd_order (rev_fwd_xform d ?i) (PERM d) (4 ^ d))) \<le> ?I"
        by (rule length_block_ints [OF pr [OF True]])
      then show ?thesis
        using Floating True h us rev(1) [OF True] \<open>length ?h \<le> maxbits z\<close> \<open>pbits TYPE('i) \<le> maxbits z - length ?h\<close>
        by (auto simp: block_code_def rev_float_block_code_def rev_block_code_def Let_def header_bits_def)
    next
      case False
      let ?k = "float_maxprec d u z b" and ?i = "fwd_cast u b (4 ^ d) (exponent_block u b (4 ^ d))"
      have "?k \<le> maxprec z" by (simp add: float_maxprec_def precision_def)
      then have "length (ints_code ?k (fwd_order (fwd_xform d ?i) (PERM d) (4 ^ d))) \<le> ?I" by (rule length_block_ints)
      note I = this
      let ?h = "1 + ebits TYPE('i)"
      have h: "?h \<le> maxbits z" using m(1) by (simp add: Floating header_bits_def)
      have hb: "header_bits t (REVERSIBLE z) = ?h" by (simp add: header_bits_def Floating False)
      show ?thesis
      proof (cases "float_nonzero d u z b")
        case True
        have "length (block_code t d z b) =
            ?h + max (minbits z - min ?h (minbits z)) (min (length (ints_code ?k (fwd_order (fwd_xform d ?i) (PERM d) (4 ^ d)))) (maxbits z - ?h))"
          unfolding block_code_def Floating scalar.case if_not_P [OF False] float_block_code_def Let_def if_P [OF True] usub_eq [OF h m(3)] int_block_code_def
          by (simp add: exponent_bits_def)
        then show ?thesis unfolding hb by (metis padded_length(2) [OF h I m(2) order_refl])
      next
        case nz: False
        have "length (block_code t d z b) = max (minbits z) 1"
          unfolding block_code_def Floating scalar.case if_not_P [OF False] float_block_code_def Let_def if_not_P [OF nz] by simp
        then show ?thesis unfolding hb using h by linarith
      qed
    qed
  qed
qed

lemma field_blocks: "valid_field f \<Longrightarrow> zfp_field_blocks f = length (corners (sizes f))"
  using dims_split [of f] by (auto simp: zfp_field_blocks_def Let_def strides_sizes mult.assoc)

lemma length_array_code:
  fixes a :: "('i::len) word array"
  assumes ok: "codec_ok t (zfp_field_dimensionality f) z" and m: "header_bits t False \<le> maxbits z" "minbits z \<le> maxbits z" "maxbits z < 2 ^ 32"
  shows "length (array_code t f a z) \<le> length (corners (sizes f)) *
    max (min (header_bits t (REVERSIBLE z) + (4 ^ zfp_field_dimensionality f - 1 + 4 ^ zfp_field_dimensionality f * min (maxprec z) (LENGTH('i)))) (maxbits z)) (minbits z)"
    (is "_ \<le> _ * ?m")
proof -
  have "length (concat (map (\<lambda>xs. block_code t (zfp_field_dimensionality f) z (g xs)) xss)) \<le> length xss * ?m" for g and xss :: "nat list list"
    by (induction xss) (use length_block_code [OF ok m] in \<open>simp_all add: add_mono\<close>)
  then show ?thesis by (simp add: array_code_def)
qed

lemma round_up_mult: "0 < w \<Longrightarrow> round_up n w = (n + (w - 1)) div w * w"
proof -
  assume w: "0 < w"
  obtain q where q: "round_up n w = w * q" using round_up_dvd [of w n] by (auto elim: dvdE)
  have "w * q < n + w" "n \<le> w * q" using round_up_less [OF w, of n] round_up_ge [OF w, of n] by (simp_all add: q)
  then have "(n + (w - 1)) div w = q" using w
    by (intro div_nat_eqI) (auto simp: algebra_simps)
  then show ?thesis by (simp add: q mult.commute)
qed

lemma maximum_size:
  fixes z :: "('w::len) zfp_stream" and u :: "('i::len) word unspecified"
  assumes f: "valid_field f" and L: "LENGTH('i) = zfp_field_precision f"
  shows "zfp_stream_maximum_size z f = round_up (ZFP_HEADER_MAX_BITS + zfp_field_blocks f *
    max (min (header_bits (scalar u f) (REVERSIBLE z) + (4 ^ zfp_field_dimensionality f - 1 + 4 ^ zfp_field_dimensionality f * min (maxprec z) (LENGTH('i)))) (maxbits z)) (minbits z))
    (LENGTH('w)) div 8"
proof -
  have d: "zfp_field_dimensionality f \<noteq> 0" using dims_range [OF f] by simp
  have p: "(2::nat) ^ (2 * n) = 4 ^ n" for n by (simp add: power_mult)
  have r: "is_reversible z = REVERSIBLE z" by (simp add: is_reversible_def REVERSIBLE_def)
  have hb: "(case ftype f of zfp_type_int32 \<Rightarrow> Some (if R then 5 else 0) | zfp_type_int64 \<Rightarrow> Some (if R then 6 else 0)
      | zfp_type_float \<Rightarrow> Some (if R then 1 + 1 + 8 + 5 else 1 + 8) | zfp_type_double \<Rightarrow> Some (if R then 1 + 1 + 11 + 6 else 1 + 11) | _ \<Rightarrow> None)
      = Some (header_bits (scalar u f) R)" for R
    using f L by (cases "ftype f") (simp_all add: scalar_def scalar_of_def header_bits_def zfp_field_precision_def zfp_type_size_def pbits_def ebits_def valid_field_def)
  show ?thesis
    unfolding zfp_stream_maximum_size_def Let_def r hb p L [symmetric] using d by simp
qed

text \<open>C4: a buffer of \<open>zfp_stream_maximum_size\<close> bytes is large enough, for every type and every input: the size that
  compression of a whole field returns is at most this many bytes, also when a header precedes the field. This holds in the lossy modes for
  all parameters with \<open>minbits \<le> maxbits\<close> whose blocks have room for their first bits (none for integers, the 9 or 12 bits of the flag
  and the exponent for floats and doubles, which the encoder writes without regard to the budget), and in reversible mode as above.\<close>

theorem compressed_size_bound:
  fixes z :: "('w::len) zfp_stream" and a :: "('i::len) word array"
  assumes c: "compressible omp u z f" and m: "header_bits (scalar u f) False \<le> maxbits z" "minbits z \<le> maxbits z" "maxbits z < 2 ^ 32"
    and h: "stream_wtell (stream z) \<le> ZFP_HEADER_MAX_BITS" and w: "8 dvd LENGTH('w)"
    and e: "zfp_compress omp u z a f = Inr (n, z1)"
  shows "n \<le> zfp_stream_maximum_size z f"
proof -
  let ?t = "scalar u f" and ?W = "LENGTH('w)" and ?d = "zfp_field_dimensionality f"
  define M where "M = max (min (header_bits ?t (REVERSIBLE z) + (4 ^ ?d - 1 + 4 ^ ?d * min (maxprec z) (LENGTH('i)))) (maxbits z)) (minbits z)"
  have f: "valid_field f" "LENGTH('i) = zfp_field_precision f" "codec_ok ?t ?d z" using c by (simp_all add: compressible_def)
  obtain s where s0: "zfp_compress omp u z a f = Inr (stream_size (snd (stream_flush s)), z\<lparr>stream := snd (stream_flush s)\<rparr>)"
    and s: "sink_ok s" "written s = written (stream z) @ array_code ?t f a z"
    using compress_result [OF c, of a] by blast
  have n: "n = stream_size (snd (stream_flush s))" using trans [OF e [symmetric] s0] by simp
  have t: "stream_wtell s = stream_wtell (stream z) + length (array_code ?t f a z)" using arg_cong [OF s(2), of length] by (simp add: wtell_length)
  have "length (array_code ?t f a z) \<le> zfp_field_blocks f * M"
    using length_array_code [OF f(3) m, of a] by (simp add: field_blocks [OF f(1)] M_def)
  then have le: "stream_wtell s + (?W - 1) \<le> ZFP_HEADER_MAX_BITS + zfp_field_blocks f * M + (?W - 1)" using t h by simp
  obtain k where k: "?W = 8 * k" using w by (auto elim: dvdE)
  have "n = (stream_wtell s + (?W - 1)) div ?W * k" using s(1) n by (simp add: stream_size_def ptr_ceil sink_ok_def k)
  also have "\<dots> \<le> (ZFP_HEADER_MAX_BITS + zfp_field_blocks f * M + (?W - 1)) div ?W * k"
    using le by (intro mult_le_mono1 div_le_mono)
  also have "\<dots> = zfp_stream_maximum_size z f"
    unfolding maximum_size [OF f(1,2), of z u] M_def [symmetric] round_up_mult [OF len_gt_0] by (simp add: k)
  finally show ?thesis .
qed

theorem compressed_size_bound_witness:
  "\<exists>n z1. zfp_compress None (plain_unspecified 0) (sample_stream 1 ZFP_MAX_BITS 64 (- 1075)) (word_of_int :: int \<Rightarrow> uint32) sample_field = Inr (n, z1)
    \<and> n \<le> 152"
proof -
  let ?z = "sample_stream 1 ZFP_MAX_BITS 64 (- 1075)" and ?a = "word_of_int :: int \<Rightarrow> uint32"
  have c: "compressible None (plain_unspecified 0 :: uint32 unspecified) ?z sample_field"
    by (rule sample_compressible) (simp add: ZFP_MAX_BITS_def)
  obtain n z1 where e: "zfp_compress None (plain_unspecified 0) ?z ?a sample_field = Inr (n, z1)" using compress_result [OF c, of ?a] by blast
  have h: "header_bits (scalar (plain_unspecified 0 :: uint32 unspecified) sample_field) False \<le> 16658"
    by (simp add: header_bits_def ebits_def split: scalar.split)
  have "zfp_stream_maximum_size ?z sample_field = 152"
    by (simp add: zfp_stream_maximum_size_def sample_field zfp_field_2d_def zfp_field_alloc_def zfp_field_blocks_def zfp_field_dimensionality_def zfp_field_precision_def
        zfp_type_size_def sample_stream_def is_reversible_def ZFP_MIN_EXP_def ZFP_MAX_BITS_def ZFP_HEADER_MAX_BITS_def round_up_def)
  then show ?thesis
    using compressed_size_bound [OF c _ _ _ _ _ e] e h by (simp add: sample_stream_def ZFP_MAX_BITS_def written_open)
qed

end
