(* ===== verification/Index.thy ===== *)
theory Index
  imports Compress_Props
begin

text \<open>
  The block indices of \<open>src/include/zfp/index.hpp\<close>: the implicit index of fixed-size blocks, the verbatim
  index of 64-bit offsets, and the two hybrid indices that encode chunks of four and of eight blocks. Each class is a record
  of its data members; a member function that throws returns \<open>Inl\<close> the error. The dynamically allocated arrays are
  functions of the position; what a fresh allocation holds is an argument.
\<close>

section \<open>Exceptions of the indices\<close>

datatype index_error = Not_sequential | Index_overflow | Block_too_large | Offset_too_large

section \<open>Implicit index\<close>

record implicit =
  im_blocks :: nat
  im_bits_per_block :: uint64

definition implicit_new :: "nat \<Rightarrow> implicit" where
  "implicit_new n = \<lparr>im_blocks = n, im_bits_per_block = 0\<rparr>"

definition implicit_block_offset :: "implicit \<Rightarrow> nat \<Rightarrow> uint64" where
  "implicit_block_offset ix b = of_nat b * im_bits_per_block ix"

definition implicit_block_size :: "implicit \<Rightarrow> nat \<Rightarrow> uint64" where
  "implicit_block_size ix b = im_bits_per_block ix"

definition implicit_range :: "implicit \<Rightarrow> uint64" where
  "implicit_range ix = implicit_block_offset ix (im_blocks ix)"

definition implicit_resize :: "implicit \<Rightarrow> nat \<Rightarrow> implicit" where
  "implicit_resize ix n = ix\<lparr>im_blocks := n\<rparr>"

definition implicit_set_all :: "implicit \<Rightarrow> uint64 \<Rightarrow> implicit" where
  "implicit_set_all ix s = ix\<lparr>im_bits_per_block := s\<rparr>"

section \<open>Verbatim index\<close>

text \<open>The array of offsets is a function of the position. \<open>fresh\<close> is what memory holds after its allocation.\<close>

record verbatim =
  vb_data :: "nat \<Rightarrow> uint64"
  vb_blocks :: nat
  vb_block :: nat

definition verbatim_clear :: "verbatim \<Rightarrow> verbatim" where
  "verbatim_clear ix = ix\<lparr>vb_block := 0\<rparr>"

definition verbatim_resize :: "(nat \<Rightarrow> uint64) \<Rightarrow> verbatim \<Rightarrow> nat \<Rightarrow> verbatim" where
  "verbatim_resize fresh ix n = verbatim_clear (ix\<lparr>vb_blocks := n, vb_data := fresh(0 := 0)\<rparr>)"

definition verbatim_new :: "(nat \<Rightarrow> uint64) \<Rightarrow> nat \<Rightarrow> verbatim" where
  "verbatim_new fresh n = verbatim_resize fresh \<lparr>vb_data = fresh, vb_blocks = 0, vb_block = 0\<rparr> n"

definition verbatim_block_offset :: "verbatim \<Rightarrow> nat \<Rightarrow> uint64" where
  "verbatim_block_offset ix b = vb_data ix b"

definition verbatim_block_size :: "verbatim \<Rightarrow> nat \<Rightarrow> uint64" where
  "verbatim_block_size ix b = verbatim_block_offset ix (b + 1) - verbatim_block_offset ix b"

definition verbatim_range :: "verbatim \<Rightarrow> uint64" where
  "verbatim_range ix = verbatim_block_offset ix (vb_blocks ix)"

definition verbatim_set :: "verbatim \<Rightarrow> nat \<Rightarrow> uint64 \<Rightarrow> index_error + verbatim" where
  "verbatim_set ix b s =
    (if b \<noteq> vb_block ix then Inl Not_sequential
     else if vb_block ix = vb_blocks ix then Inl Index_overflow
     else Inr (ix\<lparr>vb_data := (vb_data ix)(vb_block ix + 1 := vb_data ix (vb_block ix) + s), vb_block := vb_block ix + 1\<rparr>))"

lemma verbatim_set_block: "verbatim_set ix b s = Inr ix' \<Longrightarrow> vb_block ix' = vb_block ix + 1 \<and> vb_blocks ix' = vb_blocks ix"
  by (auto simp: verbatim_set_def split: if_splits)

function verbatim_fill :: "verbatim \<Rightarrow> uint64 \<Rightarrow> index_error + verbatim" where
  "verbatim_fill ix s =
    (if vb_block ix < vb_blocks ix
     then case verbatim_set ix (vb_block ix) s of Inl e \<Rightarrow> Inl e | Inr ix \<Rightarrow> verbatim_fill ix s
     else Inr ix)"
  by pat_completeness auto
termination
  by (relation "measure (\<lambda>(ix, s). vb_blocks ix - vb_block ix)") (auto dest: verbatim_set_block)

declare verbatim_fill.simps [simp del]

definition verbatim_set_all :: "verbatim \<Rightarrow> uint64 \<Rightarrow> index_error + verbatim" where
  "verbatim_set_all ix s = map_sum id verbatim_clear (verbatim_fill (verbatim_clear ix) s)"

section \<open>Hybrid index of chunks of four blocks\<close>

record chunk4 =
  c4_hi :: uint32
  c4_lo :: "nat \<Rightarrow> uint16"

record hybrid4 =
  h4_data :: "nat \<Rightarrow> chunk4"
  h4_blocks :: nat
  h4_block :: nat
  h4_end :: uint64
  h4_ptr :: uint64
  h4_buffer :: "nat \<Rightarrow> uint64"

definition h4_shift :: nat where "h4_shift = 12"

definition hybrid4_clear :: "hybrid4 \<Rightarrow> hybrid4" where
  "hybrid4_clear ix = ix\<lparr>h4_block := 0, h4_ptr := 0, h4_end := 0\<rparr>"

definition hybrid4_resize :: "(nat \<Rightarrow> chunk4) \<Rightarrow> hybrid4 \<Rightarrow> nat \<Rightarrow> hybrid4" where
  "hybrid4_resize fresh ix n = hybrid4_clear (ix\<lparr>h4_blocks := n, h4_data := fresh\<rparr>)"

definition hybrid4_new :: "(nat \<Rightarrow> chunk4) \<Rightarrow> (nat \<Rightarrow> uint64) \<Rightarrow> nat \<Rightarrow> hybrid4" where
  "hybrid4_new fresh buf n =
    hybrid4_resize fresh \<lparr>h4_data = fresh, h4_blocks = 0, h4_block = 0, h4_end = 0, h4_ptr = 0, h4_buffer = buf\<rparr> n"

definition hybrid4_block_offset :: "hybrid4 \<Rightarrow> nat \<Rightarrow> uint64" where
  "hybrid4_block_offset ix b =
    (if b = h4_block ix then h4_end ix
     else let chunk = b div 4; which = b mod 4
          in push_bit h4_shift (ucast (c4_hi (h4_data ix chunk))) + ucast (c4_lo (h4_data ix chunk) which))"

definition hybrid4_block_size :: "hybrid4 \<Rightarrow> nat \<Rightarrow> uint64" where
  "hybrid4_block_size ix b =
    (let chunk = b div 4; which = b mod 4
     in if which = 3 then hybrid4_block_offset ix (b + 1) - hybrid4_block_offset ix b
        else ucast (c4_lo (h4_data ix chunk) (which + 1)) - ucast (c4_lo (h4_data ix chunk) which))"

definition hybrid4_range :: "hybrid4 \<Rightarrow> uint64" where
  "hybrid4_range ix = h4_end ix"

definition hybrid4_set :: "hybrid4 \<Rightarrow> nat \<Rightarrow> uint64 \<Rightarrow> index_error + hybrid4" where
  "hybrid4_set ix b s =
    (if b \<noteq> h4_block ix then Inl Not_sequential
     else if h4_blocks ix \<le> h4_block ix \<and> s \<noteq> 0 then Inl Index_overflow
     else if of_nat ZFP_MAX_BITS < s then Inl Block_too_large
     else
       let ix = ix\<lparr>h4_end := h4_end ix + s\<rparr>;
           chunk = h4_block ix div 4;
           which = h4_block ix mod 4;
           ix = ix\<lparr>h4_buffer := (h4_buffer ix)(which := s)\<rparr>
       in if which = 3 then
            if drop_bit (32 + h4_shift) (h4_ptr ix) \<noteq> 0 then Inl Offset_too_large
            else
              let hi = ucast (drop_bit h4_shift (h4_ptr ix)) :: uint32;
                  offs = push_bit h4_shift (ucast hi) :: uint64;
                  (lo, p) = for_loop 4 (\<lambda>k (lo, p). (lo(k := ucast (p - offs)), p + h4_buffer ix k)) (c4_lo (h4_data ix chunk), h4_ptr ix)
              in Inr (ix\<lparr>h4_data := (h4_data ix)(chunk := \<lparr>c4_hi = hi, c4_lo = lo\<rparr>), h4_ptr := p, h4_block := h4_block ix + 1\<rparr>)
          else Inr (ix\<lparr>h4_block := h4_block ix + 1\<rparr>))"

lemma hybrid4_set_block: "hybrid4_set ix b s = Inr ix' \<Longrightarrow> h4_block ix' = h4_block ix + 1 \<and> h4_blocks ix' = h4_blocks ix"
  by (auto simp: hybrid4_set_def Let_def split: if_splits prod.splits)

function hybrid4_flush :: "hybrid4 \<Rightarrow> index_error + hybrid4" where
  "hybrid4_flush ix =
    (if h4_block ix mod 4 \<noteq> 0
     then case hybrid4_set ix (h4_block ix) 0 of Inl e \<Rightarrow> Inl e | Inr ix \<Rightarrow> hybrid4_flush ix
     else Inr ix)"
  by pat_completeness auto
termination
  by (relation "measure (\<lambda>ix. (4 - h4_block ix mod 4) mod 4)") (auto dest!: hybrid4_set_block simp: mod_Suc)

function hybrid4_fill :: "hybrid4 \<Rightarrow> uint64 \<Rightarrow> index_error + hybrid4" where
  "hybrid4_fill ix s =
    (if h4_block ix < h4_blocks ix
     then case hybrid4_set ix (h4_block ix) s of Inl e \<Rightarrow> Inl e | Inr ix \<Rightarrow> hybrid4_fill ix s
     else Inr ix)"
  by pat_completeness auto
termination
  by (relation "measure (\<lambda>(ix, s). h4_blocks ix - h4_block ix)") (auto dest: hybrid4_set_block)

declare hybrid4_flush.simps [simp del] hybrid4_fill.simps [simp del]

definition hybrid4_set_all :: "hybrid4 \<Rightarrow> uint64 \<Rightarrow> index_error + hybrid4" where
  "hybrid4_set_all ix s =
    (case hybrid4_fill (hybrid4_clear ix) s of Inl e \<Rightarrow> Inl e | Inr ix \<Rightarrow> map_sum id hybrid4_clear (hybrid4_flush ix))"

section \<open>Hybrid index of chunks of eight blocks\<close>

text \<open>Sums of packed numbers.\<close>

definition sum8 :: "uint64 \<Rightarrow> nat \<Rightarrow> uint64" where
  "sum8 x n =
    (let m3 = push_bit (4 * n) (NOT 0) :: uint64;
         m2 = m3 XOR push_bit (4 * n) m3;
         m1 = m2 XOR drop_bit (2 * n) m2;
         m0 = m1 XOR drop_bit (1 * n) m1;
         y = x AND m0; x = x - y; x = x + drop_bit n y; n = n * 2;
         y = x AND m1; x = x - y; x = x + drop_bit n y; n = n * 2;
         y = x AND m2; x = x - y; x = x + drop_bit n y; n = n * 2
     in x)"

definition hbits :: "nat \<Rightarrow> nat" where "hbits d = 2 * (d - 1)"
definition lbits :: nat where "lbits = 8"

definition hsum :: "nat \<Rightarrow> uint64 \<Rightarrow> uint64" where
  "hsum d x = sum8 x (hbits d)"

definition lsum :: "uint64 \<Rightarrow> uint64" where
  "lsum x =
    (let y = x AND 0xff00ff00ff00ff00;
         x = x - y;
         x = x + drop_bit 8 y;
         x = x + drop_bit 16 x;
         x = x + drop_bit 32 x
     in x AND 0xffff)"

text \<open>The \<open>k\<close>-th size and the \<open>k\<close>-th offset of a chunk.\<close>

definition size8 :: "nat \<Rightarrow> uint64 \<Rightarrow> uint64 \<Rightarrow> nat \<Rightarrow> uint64" where
  "size8 d h l k =
    (let h = drop_bit ((6 - k) * hbits d) h; h = h AND (push_bit (hbits d) 1 - 1);
         l = drop_bit ((6 - k) * lbits) l; l = l AND (push_bit lbits 1 - 1)
     in push_bit lbits h + l)"

definition offset8 :: "nat \<Rightarrow> uint64 \<Rightarrow> uint64 \<Rightarrow> nat \<Rightarrow> uint64" where
  "offset8 d h l k =
    (let start = drop_bit (8 * hbits d) h;
         h = h - push_bit (8 * hbits d) start;
         h = hsum d (drop_bit ((7 - k) * hbits d) h);
         l = lsum (drop_bit ((7 - k) * lbits) l)
     in push_bit lbits (push_bit (hbits d) start + h) + l)"

record hybrid8 =
  h8_data :: "nat \<Rightarrow> uint64"
  h8_blocks :: nat
  h8_block :: nat
  h8_end :: uint64
  h8_ptr :: uint64
  h8_buffer :: "nat \<Rightarrow> uint64"

definition hybrid8_clear :: "hybrid8 \<Rightarrow> hybrid8" where
  "hybrid8_clear ix = ix\<lparr>h8_block := 0, h8_ptr := 0, h8_end := 0\<rparr>"

definition hybrid8_resize :: "(nat \<Rightarrow> uint64) \<Rightarrow> hybrid8 \<Rightarrow> nat \<Rightarrow> hybrid8" where
  "hybrid8_resize fresh ix n = hybrid8_clear (ix\<lparr>h8_blocks := n, h8_data := fresh\<rparr>)"

definition hybrid8_new :: "(nat \<Rightarrow> uint64) \<Rightarrow> (nat \<Rightarrow> uint64) \<Rightarrow> nat \<Rightarrow> hybrid8" where
  "hybrid8_new fresh buf n =
    hybrid8_resize fresh \<lparr>h8_data = fresh, h8_blocks = 0, h8_block = 0, h8_end = 0, h8_ptr = 0, h8_buffer = buf\<rparr> n"

definition hybrid8_block_offset :: "nat \<Rightarrow> hybrid8 \<Rightarrow> nat \<Rightarrow> uint64" where
  "hybrid8_block_offset d ix b =
    (if b = h8_block ix then h8_end ix
     else let chunk = b div 8; which = b mod 8
          in offset8 d (h8_data ix (2 * chunk)) (h8_data ix (2 * chunk + 1)) which)"

definition hybrid8_block_size :: "nat \<Rightarrow> hybrid8 \<Rightarrow> nat \<Rightarrow> uint64" where
  "hybrid8_block_size d ix b =
    (let chunk = b div 8; which = b mod 8
     in if which = 7 then hybrid8_block_offset d ix (b + 1) - hybrid8_block_offset d ix b
        else size8 d (h8_data ix (2 * chunk)) (h8_data ix (2 * chunk + 1)) which)"

definition hybrid8_range :: "hybrid8 \<Rightarrow> uint64" where
  "hybrid8_range ix = h8_end ix"

definition hybrid8_set :: "nat \<Rightarrow> hybrid8 \<Rightarrow> nat \<Rightarrow> uint64 \<Rightarrow> index_error + hybrid8" where
  "hybrid8_set d ix b s =
    (if b \<noteq> h8_block ix then Inl Not_sequential
     else if h8_blocks ix \<le> h8_block ix \<and> s \<noteq> 0 then Inl Index_overflow
     else if drop_bit (hbits d + lbits) s \<noteq> 0 then Inl Block_too_large
     else
       let ix = ix\<lparr>h8_end := h8_end ix + s\<rparr>;
           chunk = h8_block ix div 8;
           which = h8_block ix mod 8;
           ix = ix\<lparr>h8_buffer := (h8_buffer ix)(which := s)\<rparr>
       in if which = 7 then
            let h = drop_bit lbits (h8_ptr ix);
                l = h8_ptr ix - push_bit lbits h;
                hi = push_bit (7 * hbits d) h;
                lo = push_bit (7 * lbits) l
            in if drop_bit (7 * hbits d) hi \<noteq> h then Inl Offset_too_large
               else
                 let (p, hi, lo) = for_loop 7 (\<lambda>k (p, hi, lo).
                       let s = h8_buffer ix k;
                           h = drop_bit lbits s;
                           l = s - push_bit lbits h
                       in (p + s, hi + push_bit ((6 - k) * hbits d) h, lo + push_bit ((6 - k) * lbits) l)) (h8_ptr ix, hi, lo);
                     p = p + h8_buffer ix 7
                 in Inr (ix\<lparr>h8_data := (h8_data ix)(2 * chunk := hi, 2 * chunk + 1 := lo), h8_ptr := p, h8_block := h8_block ix + 1\<rparr>)
          else Inr (ix\<lparr>h8_block := h8_block ix + 1\<rparr>))"

lemma hybrid8_set_block: "hybrid8_set d ix b s = Inr ix' \<Longrightarrow> h8_block ix' = h8_block ix + 1 \<and> h8_blocks ix' = h8_blocks ix"
  by (auto simp: hybrid8_set_def Let_def split: if_splits prod.splits)

function hybrid8_flush :: "nat \<Rightarrow> hybrid8 \<Rightarrow> index_error + hybrid8" where
  "hybrid8_flush d ix =
    (if h8_block ix mod 8 \<noteq> 0
     then case hybrid8_set d ix (h8_block ix) 0 of Inl e \<Rightarrow> Inl e | Inr ix \<Rightarrow> hybrid8_flush d ix
     else Inr ix)"
  by pat_completeness auto
termination
  by (relation "measure (\<lambda>(d, ix). (8 - h8_block ix mod 8) mod 8)") (auto dest!: hybrid8_set_block simp: mod_Suc)

function hybrid8_fill :: "nat \<Rightarrow> hybrid8 \<Rightarrow> uint64 \<Rightarrow> index_error + hybrid8" where
  "hybrid8_fill d ix s =
    (if h8_block ix < h8_blocks ix
     then case hybrid8_set d ix (h8_block ix) s of Inl e \<Rightarrow> Inl e | Inr ix \<Rightarrow> hybrid8_fill d ix s
     else Inr ix)"
  by pat_completeness auto
termination
  by (relation "measure (\<lambda>(d, ix, s). h8_blocks ix - h8_block ix)") (auto dest: hybrid8_set_block)

declare hybrid8_flush.simps [simp del] hybrid8_fill.simps [simp del]

definition hybrid8_set_all :: "nat \<Rightarrow> hybrid8 \<Rightarrow> uint64 \<Rightarrow> index_error + hybrid8" where
  "hybrid8_set_all d ix s =
    (case hybrid8_fill d (hybrid8_clear ix) s of Inl e \<Rightarrow> Inl e | Inr ix \<Rightarrow> map_sum id hybrid8_clear (hybrid8_flush d ix))"

end
