(* ===== verification/Index_Packed.thy ===== *)
theory Index_Packed
  imports Index
begin

text \<open>
  The arithmetic of the hybrid8 index: numbers packed into the lanes of a word, and the sum of the eight lanes by parallel
  additions (\<open>hybrid8::sum8\<close>, \<open>hybrid8::lsum\<close>). The offsets and sizes that the
  index decodes from a chunk are the sums of the sizes that were encoded.
\<close>

section \<open>Packed numbers\<close>

text \<open>Numbers of \<open>n\<close> bits each, the first one lowest.\<close>

definition packed :: "nat \<Rightarrow> nat list \<Rightarrow> nat" where
  "packed n xs = horner_sum id (2 ^ n) xs"

lemma packed_simps [simp]:
  "packed n [] = 0"
  "packed n (x # xs) = x + 2 ^ n * packed n xs"
  by (simp_all add: packed_def)

lemma packed_append: "packed n (xs @ ys) = packed n xs + 2 ^ (n * length xs) * packed n ys"
  by (induction xs) (simp_all add: algebra_simps power_add)

lemma packed_zeros [simp]: "packed n (replicate k 0) = 0"
  by (induction k) simp_all

lemma packed_less: "(\<And>x. x \<in> set xs \<Longrightarrow> x < 2 ^ n) \<Longrightarrow> packed n xs < 2 ^ (n * length xs)"
proof (induction xs)
  case (Cons x xs)
  then have "x < 2 ^ n" "Suc (packed n xs) \<le> 2 ^ (n * length xs)" by (simp_all add: Suc_leI)
  then have "x + 2 ^ n * packed n xs < 2 ^ n * Suc (packed n xs)" "2 ^ n * Suc (packed n xs) \<le> 2 ^ n * 2 ^ (n * length xs)"
    by (simp, intro mult_le_mono2)
  then show ?case by (simp add: power_add)
qed simp

lemma packed_div_mod:
  assumes "\<forall>x \<in> set xs. x < 2 ^ n"
  shows "packed n (xs @ ys) div 2 ^ (n * length xs) = packed n ys" "packed n (xs @ ys) mod 2 ^ (n * length xs) = packed n xs"
  using packed_less [of xs n] assms by (simp_all add: packed_append)

lemma packed_nth:
  assumes "\<forall>x \<in> set xs. x < 2 ^ n" "k < length xs"
  shows "packed n (xs @ ys) div 2 ^ (n * k) mod 2 ^ n = xs ! k"
proof -
  have e: "xs @ ys = take k xs @ (xs ! k # drop (Suc k) xs @ ys)" using assms(2) by (simp add: id_take_nth_drop)
  have "length (take k xs) = k" using assms(2) by simp
  then have "packed n (xs @ ys) div 2 ^ (n * k) = packed n (xs ! k # drop (Suc k) xs @ ys)"
    using packed_div_mod(1) [of "take k xs" n "xs ! k # drop (Suc k) xs @ ys"] assms(1) e by (metis in_set_takeD)
  moreover have "xs ! k < 2 ^ n" using assms by simp
  ultimately show ?thesis by simp
qed

section \<open>Sums in parallel\<close>

fun firsts :: "nat list \<Rightarrow> nat list" where
  "firsts (a # b # xs) = a # firsts xs"
| "firsts xs = xs"

fun seconds :: "nat list \<Rightarrow> nat list" where
  "seconds (a # b # xs) = b # seconds xs"
| "seconds xs = []"

fun pairs :: "nat list \<Rightarrow> nat list" where
  "pairs (a # b # xs) = (a + b) # pairs xs"
| "pairs xs = xs"

fun odd_lanes :: "nat \<Rightarrow> nat \<Rightarrow> nat" where
  "odd_lanes n 0 = 0"
| "odd_lanes n (Suc j) = 2 ^ n * (2 ^ n - 1) + 2 ^ (2 * n) * odd_lanes n j"

lemma packed_firsts_seconds: "packed n xs = packed (2 * n) (firsts xs) + 2 ^ n * packed (2 * n) (seconds xs)"
  by (induction xs rule: firsts.induct) (simp_all add: algebra_simps power_add mult_2_right)

lemma packed_pairs: "packed m (pairs xs) = packed m (firsts xs) + packed m (seconds xs)"
  by (induction xs rule: pairs.induct) (simp_all add: algebra_simps)

lemma sum_list_pairs: "sum_list (pairs xs) = sum_list xs"
  by (induction xs rule: pairs.induct) simp_all

lemma length_pairs: "length (pairs xs) = (length xs + 1) div 2"
  by (induction xs rule: pairs.induct) simp_all

lemma pairs_bound: "(\<And>x. x \<in> set xs \<Longrightarrow> x \<le> m) \<Longrightarrow> x \<in> set (pairs xs) \<Longrightarrow> x \<le> 2 * m"
proof (induction xs rule: pairs.induct)
  case (1 a b xs)
  then have "a \<le> m" "b \<le> m" by simp_all
  then have "a + b \<le> 2 * m" by linarith
  then show ?case using 1 by auto
qed auto

lemma and_split:
  fixes a b x y :: nat
  assumes "a < 2 ^ w" "b < 2 ^ w"
  shows "(a + 2 ^ w * x) AND (b + 2 ^ w * y) = (a AND b) + 2 ^ w * (x AND y)"
proof -
  have m: "take_bit w ((a + 2 ^ w * x) AND (b + 2 ^ w * y)) = a AND b"
    unfolding take_bit_and using assms by (simp add: take_bit_eq_mod)
  have d: "drop_bit w ((a + 2 ^ w * x) AND (b + 2 ^ w * y)) = x AND y"
    unfolding drop_bit_and using assms by (simp add: drop_bit_eq_div)
  have "c = take_bit w c + 2 ^ w * drop_bit w c" for c :: nat
    by (simp add: take_bit_eq_mod drop_bit_eq_div)
  then show ?thesis using m d by metis
qed

lemma odd_lanes_and:
  assumes "length xs = 2 * j" "\<And>x. x \<in> set xs \<Longrightarrow> x < 2 ^ n"
  shows "packed n xs AND odd_lanes n j = 2 ^ n * packed (2 * n) (seconds xs)"
  using assms
proof (induction xs arbitrary: j rule: firsts.induct)
  case (1 a b xs)
  then obtain i where j: "j = Suc i" "length xs = 2 * i" by (cases j) auto
  have ab: "a < 2 ^ n" "b < 2 ^ n" using 1 by simp_all
  have m: "(2::nat) ^ n - 1 < 2 ^ n" by simp
  have "b AND (2 ^ n - 1) = b" using take_bit_nat_eq_self [OF ab(2)] by (simp add: take_bit_eq_mask mask_eq_exp_minus_1)
  then have "(a + 2 ^ n * b) AND (0 + 2 ^ n * (2 ^ n - 1)) = 2 ^ n * b" using and_split [OF ab(1), of 0] by simp
  moreover have "a + 2 ^ n * b < 2 ^ (2 * n)" proof -
    have "2 ^ n * Suc b \<le> (2 :: nat) ^ n * 2 ^ n" using ab by (intro mult_le_mono2) simp
    then show ?thesis using ab by (simp add: mult_2 power_add)
  qed
  moreover have "2 ^ n * (2 ^ n - 1) < (2::nat) ^ (2 * n)" by (simp add: mult_2 power_add)
  ultimately have "(a + 2 ^ n * b + 2 ^ (2 * n) * packed n xs) AND (2 ^ n * (2 ^ n - 1) + 2 ^ (2 * n) * odd_lanes n i) =
      2 ^ n * b + 2 ^ (2 * n) * (packed n xs AND odd_lanes n i)"
    using and_split [of "a + 2 ^ n * b" "2 * n" "2 ^ n * (2 ^ n - 1)"] by simp
  moreover have "packed n (a # b # xs) = a + 2 ^ n * b + 2 ^ (2 * n) * packed n xs" by (simp add: algebra_simps mult_2_right power_add)
  ultimately have "packed n (a # b # xs) AND odd_lanes n j = 2 ^ n * b + 2 ^ (2 * n) * (packed n xs AND odd_lanes n i)"
    using j by (simp only: odd_lanes.simps)
  also have "packed n xs AND odd_lanes n i = 2 ^ n * packed (2 * n) (seconds xs)" using 1 j by simp
  finally show ?case by (simp add: algebra_simps)
qed simp_all

lemma sum_step:
  fixes x m :: uint64
  assumes "unat x = packed n xs" "unat m = odd_lanes n j" "length xs = 2 * j" "\<And>x. x \<in> set xs \<Longrightarrow> x < 2 ^ n"
  shows "unat (x - (x AND m) + drop_bit n (x AND m)) = packed (2 * n) (pairs xs)"
proof -
  let ?f = "packed (2 * n) (firsts xs)" and ?s = "packed (2 * n) (seconds xs)"
  have y: "unat (x AND m) = 2 ^ n * ?s" using odd_lanes_and [OF assms(3,4)] assms(1,2) by (simp add: unsigned_and_eq)
  have x: "unat x = ?f + 2 ^ n * ?s" using assms(1) packed_firsts_seconds [of n xs] by simp
  then have "x AND m \<le> x" using y by (simp add: word_le_nat_alt)
  then have d: "unat (x - (x AND m)) = ?f" using x y by (simp add: unat_sub)
  have q: "unat (drop_bit n (x AND m)) = ?s" unfolding unat_drop_bit_eq y by (simp add: drop_bit_eq_div)
  have "1 * ?s \<le> 2 ^ n * ?s" by (intro mult_le_mono1) simp
  then have le: "?s \<le> 2 ^ n * ?s" by simp
  have "unat x < 2 ^ 64" using unsigned_less [of x] by simp
  then have "?f + ?s < 2 ^ 64" using x le by linarith
  then have "unat (x - (x AND m) + drop_bit n (x AND m)) = ?f + ?s" using d q by (simp add: unat_add_lem [THEN iffD1])
  then show ?thesis by (simp add: packed_pairs)
qed

section \<open>The sums of the code\<close>

text \<open>The masks, for the numbers of bits that occur.\<close>

definition sum8_mask3 :: "nat \<Rightarrow> uint64" where "sum8_mask3 n = push_bit (4 * n) (NOT 0)"
definition sum8_mask2 :: "nat \<Rightarrow> uint64" where "sum8_mask2 n = sum8_mask3 n XOR push_bit (4 * n) (sum8_mask3 n)"
definition sum8_mask1 :: "nat \<Rightarrow> uint64" where "sum8_mask1 n = sum8_mask2 n XOR drop_bit (2 * n) (sum8_mask2 n)"
definition sum8_mask0 :: "nat \<Rightarrow> uint64" where "sum8_mask0 n = sum8_mask1 n XOR drop_bit (1 * n) (sum8_mask1 n)"

lemma odd_lanes_2: "odd_lanes n 2 = 2 ^ n * (2 ^ n - 1) + 2 ^ (2 * n) * odd_lanes n 1"
  using odd_lanes.simps(2) [of n 1] by (simp add: numeral_2_eq_2)

lemma odd_lanes_4: "odd_lanes n 4 = 2 ^ n * (2 ^ n - 1) + 2 ^ (2 * n) * (2 ^ n * (2 ^ n - 1) + 2 ^ (2 * n) * odd_lanes n 2)"
  using odd_lanes.simps(2) [of n 3] odd_lanes.simps(2) [of n 2] by simp

lemma not_0: "NOT 0 = (0xffffffffffffffff :: uint64)"
  by simp

lemma masks_2: "sum8_mask3 2 = 0xffffffffffffff00" "sum8_mask2 2 = 0xff00" "sum8_mask1 2 = 0xf0f0" "sum8_mask0 2 = 0xcccc"
proof -
  show m3: "sum8_mask3 2 = 0xffffffffffffff00" unfolding sum8_mask3_def not_0 by simp
  show m2: "sum8_mask2 2 = 0xff00" unfolding sum8_mask2_def m3 by simp
  show m1: "sum8_mask1 2 = 0xf0f0" unfolding sum8_mask1_def m2 by simp
  show "sum8_mask0 2 = 0xcccc" unfolding sum8_mask0_def m1 by simp
qed

lemma masks_4: "sum8_mask3 4 = 0xffffffffffff0000" "sum8_mask2 4 = 0xffff0000" "sum8_mask1 4 = 0xff00ff00" "sum8_mask0 4 = 0xf0f0f0f0"
proof -
  show m3: "sum8_mask3 4 = 0xffffffffffff0000" unfolding sum8_mask3_def not_0 by simp
  show m2: "sum8_mask2 4 = 0xffff0000" unfolding sum8_mask2_def m3 by simp
  show m1: "sum8_mask1 4 = 0xff00ff00" unfolding sum8_mask1_def m2 by simp
  show "sum8_mask0 4 = 0xf0f0f0f0" unfolding sum8_mask0_def m1 by simp
qed

lemma masks_6: "sum8_mask3 6 = 0xffffffffff000000" "sum8_mask2 6 = 0xffffff000000" "sum8_mask1 6 = 0xfff000fff000" "sum8_mask0 6 = 0xfc0fc0fc0fc0"
proof -
  show m3: "sum8_mask3 6 = 0xffffffffff000000" unfolding sum8_mask3_def not_0 by simp
  show m2: "sum8_mask2 6 = 0xffffff000000" unfolding sum8_mask2_def m3 by simp
  show m1: "sum8_mask1 6 = 0xfff000fff000" unfolding sum8_mask1_def m2 by simp
  show "sum8_mask0 6 = 0xfc0fc0fc0fc0" unfolding sum8_mask0_def m1 by simp
qed

lemma sum8_masks:
  "n \<in> {2, 4, 6} \<Longrightarrow> unat (sum8_mask0 n) = odd_lanes n 4 \<and> unat (sum8_mask1 n) = odd_lanes (n * 2) 2 \<and> unat (sum8_mask2 n) = odd_lanes (n * 2 * 2) 1"
  by (auto simp: masks_2 masks_4 masks_6 odd_lanes_4 odd_lanes_2)

lemma lsum_mask: "unat (0xff00ff00ff00ff00 :: uint64) = odd_lanes 8 4"
  by (simp add: odd_lanes_4 odd_lanes_2)

lemma packed_padded: "packed n xs = packed n (xs @ replicate k 0)"
  by (simp add: packed_append)

lemma lanes_pairs:
  assumes "\<And>x. x \<in> set xs \<Longrightarrow> x < 2 ^ n" "1 \<le> n"
  shows "x \<in> set (pairs xs) \<Longrightarrow> x < 2 ^ (n * 2)"
proof -
  assume x: "x \<in> set (pairs xs)"
  have "y \<le> 2 ^ n - 1" if "y \<in> set xs" for y using assms(1) [OF that] by simp
  then have "x \<le> 2 * (2 ^ n - 1)" using x by (rule pairs_bound)
  moreover have "(0 :: nat) < 2 ^ n" "2 * 2 ^ n \<le> (2 :: nat) ^ n * 2 ^ n"
    using assms(2) by (simp, intro mult_le_mono1) (cases n; simp)
  ultimately have "x < 2 ^ n * 2 ^ n" by linarith
  then show ?thesis by (simp add: mult_2_right power_add)
qed

lemma sum8_value:
  assumes n: "n \<in> {2, 4, 6}" and x: "unat x = packed n xs" "length xs \<le> 8" "\<And>x. x \<in> set xs \<Longrightarrow> x < 2 ^ n"
  shows "unat (sum8 x n) = sum_list xs"
proof -
  let ?m0 = "sum8_mask0 n" and ?m1 = "sum8_mask1 n" and ?m2 = "sum8_mask2 n"
  note ms = sum8_masks [OF n]
  define ys where "ys = xs @ replicate (8 - length xs) 0"
  have p: "1 \<le> n" "1 \<le> n * 2" using n by auto
  have y: "unat x = packed n ys" "length ys = 2 * 4" "sum_list ys = sum_list xs"
    using x by (simp_all add: ys_def packed_append sum_list_replicate)
  have b: "z < 2 ^ n" if "z \<in> set ys" for z using that x(3) by (auto simp: ys_def)
  let ?x1 = "x - (x AND ?m0) + drop_bit n (x AND ?m0)"
  have x1: "unat ?x1 = packed (n * 2) (pairs ys)" using sum_step [OF y(1) _ y(2) b] ms by (simp add: mult.commute)
  have y1: "length (pairs ys) = 2 * 2" using y(2) by (simp add: length_pairs)
  let ?x2 = "?x1 - (?x1 AND ?m1) + drop_bit (n * 2) (?x1 AND ?m1)"
  have x2: "unat ?x2 = packed (n * 2 * 2) (pairs (pairs ys))"
    using sum_step [OF x1 _ y1 lanes_pairs [OF b p(1)]] ms by (simp add: mult.commute)
  have y2: "length (pairs (pairs ys)) = 2 * 1" using y1 by (simp add: length_pairs)
  let ?x3 = "?x2 - (?x2 AND ?m2) + drop_bit (n * 2 * 2) (?x2 AND ?m2)"
  have x3: "unat ?x3 = packed (2 * (n * 2 * 2)) (pairs (pairs (pairs ys)))"
    using sum_step [OF x2 _ y2 lanes_pairs [OF lanes_pairs [OF b p(1)] p(2)]] ms by simp
  have "length (pairs (pairs (pairs ys))) = 1" using y2 by (simp add: length_pairs)
  then have "packed (2 * (n * 2 * 2)) (pairs (pairs (pairs ys))) = sum_list (pairs (pairs (pairs ys)))"
    by (cases "pairs (pairs (pairs ys))") simp_all
  also have "\<dots> = sum_list xs" by (simp add: sum_list_pairs y(3))
  finally have "unat ?x3 = sum_list xs" using x3 by simp
  moreover have "sum8 x n = ?x3" unfolding sum8_def Let_def sum8_mask0_def sum8_mask1_def sum8_mask2_def sum8_mask3_def by (rule refl)
  ultimately show ?thesis by simp
qed

lemma lsum_value:
  assumes x: "unat x = packed 8 xs" "length xs \<le> 8" "\<And>x. x \<in> set xs \<Longrightarrow> x < 256"
  shows "unat (lsum x) = sum_list xs"
proof -
  define ys where "ys = xs @ replicate (8 - length xs) 0"
  have y: "unat x = packed 8 ys" "length ys = 2 * 4" "sum_list ys = sum_list xs"
    using x by (simp_all add: ys_def packed_append sum_list_replicate)
  have b: "z < 2 ^ 8" if "z \<in> set ys" for z using that x(3) by (auto simp: ys_def)
  let ?m = "0xff00ff00ff00ff00 :: uint64"
  let ?x1 = "x - (x AND ?m) + drop_bit 8 (x AND ?m)"
  have x1: "unat ?x1 = packed 16 (pairs ys)" using sum_step [OF y(1) lsum_mask y(2) b] by simp
  have "length (pairs ys) = Suc (Suc (Suc (Suc 0)))" using y(2) by (simp add: length_pairs)
  then obtain p0 p1 p2 p3 where p: "pairs ys = [p0, p1, p2, p3]"
    by (auto simp: length_Suc_conv)
  have pb: "p0 \<le> 510" "p1 \<le> 510" "p2 \<le> 510" "p3 \<le> 510"
    using pairs_bound [of ys 255] b by (auto simp: p) (fastforce+)
  have u1: "unat ?x1 = p0 + 2 ^ 16 * (p1 + 2 ^ 16 * (p2 + 2 ^ 16 * p3))" using x1 by (simp add: p)
  let ?x2 = "?x1 + drop_bit 16 ?x1"
  have "unat (drop_bit 16 ?x1) = p1 + 2 ^ 16 * (p2 + 2 ^ 16 * p3)" unfolding unat_drop_bit_eq u1 using pb by (simp add: drop_bit_eq_div)
  then have u2: "unat ?x2 = (p0 + p1) + 2 ^ 16 * ((p1 + p2) + 2 ^ 16 * ((p2 + p3) + 2 ^ 16 * p3))"
    using u1 pb by (subst unat_add_lem [THEN iffD1]) simp_all
  let ?x3 = "?x2 + drop_bit 32 ?x2"
  have "unat (drop_bit 32 ?x2) = (p2 + p3) + 2 ^ 16 * p3" unfolding unat_drop_bit_eq u2 using pb by (simp add: drop_bit_eq_div)
  then have u3: "unat ?x3 = (p0 + p1 + p2 + p3) + 2 ^ 16 * ((p1 + p2 + p3) + 2 ^ 16 * ((p2 + p3) + 2 ^ 16 * p3))"
    using u2 pb by (subst unat_add_lem [THEN iffD1]) simp_all
  have "lsum x = ?x3 AND 0xffff" unfolding lsum_def Let_def by (rule refl)
  also have "(0xffff :: uint64) = mask 16" by (simp add: mask_eq_exp_minus_1)
  finally have "unat (lsum x) = take_bit 16 (unat ?x3)" unfolding take_bit_eq_mask [symmetric] by (simp only: unsigned_take_bit_eq)
  then have "unat (lsum x) = unat ?x3 mod 2 ^ 16" unfolding take_bit_eq_mod .
  also have "\<dots> = p0 + p1 + p2 + p3" unfolding u3 mod_mult_self2 using pb by simp
  also have "\<dots> = sum_list xs" using y(3) sum_list_pairs [of ys] by (simp add: p)
  finally show ?thesis .
qed

section \<open>Chunks of eight blocks\<close>

text \<open>What the two words of a chunk hold: the position of the chunk and seven sizes.\<close>

definition high_lanes :: "nat \<Rightarrow> nat list \<Rightarrow> nat list" where
  "high_lanes p lens = rev (map (\<lambda>s. s div 256) lens) @ [p div 256]"

definition low_lanes :: "nat \<Rightarrow> nat list \<Rightarrow> nat list" where
  "low_lanes p lens = rev (map (\<lambda>s. s mod 256) lens) @ [p mod 256]"

definition chunk8 :: "nat \<Rightarrow> uint64 \<Rightarrow> uint64 \<Rightarrow> nat \<Rightarrow> nat list \<Rightarrow> bool" where
  "chunk8 d h l p lens \<longleftrightarrow> length lens = 7 \<and> (\<forall>s \<in> set lens. s < 2 ^ (hbits d + 8)) \<and>
     unat h = packed (hbits d) (high_lanes p lens) \<and> unat l = packed 8 (low_lanes p lens)"

lemma sum_div_mod: "256 * sum_list (map (\<lambda>s. s div 256) xs) + sum_list (map (\<lambda>s. s mod 256) xs) = sum_list xs" for xs :: "nat list"
  by (induction xs) (simp_all add: algebra_simps)

lemma packed_drop:
  assumes "\<forall>x \<in> set xs. x < 2 ^ n" "k \<le> length xs"
  shows "packed n (xs @ ys) div 2 ^ (n * k) = packed n (drop k xs @ ys)"
proof -
  have "packed n (take k xs @ (drop k xs @ ys)) div 2 ^ (n * length (take k xs)) = packed n (drop k xs @ ys)"
    by (rule packed_div_mod) (use assms in_set_takeD in fast)
  then show ?thesis using assms(2) by (simp add: min_absorb2 append_assoc [symmetric] del: append_assoc)
qed

lemma hbits_cases: "1 \<le> d \<Longrightarrow> d \<le> 4 \<Longrightarrow> hbits d = 0 \<and> d = 1 \<or> hbits d \<in> {2, 4, 6}"
  by (auto simp: hbits_def)

lemma size_lanes:
  fixes lens :: "nat list"
  assumes "\<forall>s \<in> set lens. s < 2 ^ (n + 8)"
  shows "\<forall>x \<in> set (rev (map (\<lambda>s. s div 256) lens)). x < 2 ^ n"
  using assms by (auto simp: power_add less_mult_imp_div_less)

lemma low_bound: "\<forall>x \<in> set (rev (map (\<lambda>s. s mod 256) lens)). x < 2 ^ 8" for lens :: "nat list"
  by auto

lemma rev_drop_lanes: "length lens = 7 \<Longrightarrow> k \<le> 7 \<Longrightarrow> drop (7 - k) (rev (map f lens)) = rev (map f (take k lens))"
  by (simp add: rev_take take_map [symmetric])

lemma low_offset:
  assumes l: "unat l = packed 8 (low_lanes p lens)" and k: "length lens = 7" "k \<le> 7"
  shows "unat (lsum (drop_bit ((7 - k) * 8) l)) = sum_list (map (\<lambda>s. s mod 256) (take k lens)) + p mod 256"
proof -
  have "unat (drop_bit ((7 - k) * 8) l) = packed 8 (low_lanes p lens) div 2 ^ (8 * (7 - k))"
    unfolding unat_drop_bit_eq l by (simp add: drop_bit_eq_div mult.commute)
  also have "\<dots> = packed 8 (rev (map (\<lambda>s. s mod 256) (take k lens)) @ [p mod 256])"
    unfolding low_lanes_def using packed_drop [OF low_bound [of lens], of "7 - k"] k by (simp add: rev_drop_lanes)
  finally show ?thesis using k by (subst lsum_value) auto
qed

lemma high_offset:
  assumes d: "1 \<le> d" "d \<le> 4" and c: "chunk8 d h l p lens" and k: "k \<le> 7"
  defines "start \<equiv> drop_bit (8 * hbits d) h"
  shows "unat start = p div 256 div 2 ^ hbits d"
    "unat (hsum d (drop_bit ((7 - k) * hbits d) (h - push_bit (8 * hbits d) start))) = sum_list (map (\<lambda>s. s div 256) (take k lens)) + p div 256 mod 2 ^ hbits d"
proof -
  let ?n = "hbits d" and ?B = "p div 256" and ?hs = "rev (map (\<lambda>s. s div 256) lens)"
  have len: "length lens = 7" and h: "unat h = packed ?n (high_lanes p lens)" and b: "\<forall>x \<in> set ?hs. x < 2 ^ ?n"
    using c size_lanes [of lens ?n] by (simp_all add: chunk8_def)
  have b2: "\<forall>x \<in> set (?hs @ [?B mod 2 ^ ?n]). x < 2 ^ ?n" using b by auto
  have len2: "length (?hs @ [?B mod 2 ^ ?n]) = 8" using len by simp
  have h2: "unat h = packed ?n ((?hs @ [?B mod 2 ^ ?n]) @ [?B div 2 ^ ?n])"
    unfolding h high_lanes_def by (simp add: packed_append)
  have s: "unat start = ?B div 2 ^ ?n"
    unfolding start_def unat_drop_bit_eq h2 using packed_div_mod(1) [OF b2, of "[?B div 2 ^ ?n]"] len by (simp add: drop_bit_eq_div mult.commute)
  then show "unat start = ?B div 2 ^ ?n" .
  have m: "unat (h - push_bit (8 * ?n) start) = packed ?n (?hs @ [?B mod 2 ^ ?n])"
  proof -
    have "h - push_bit (8 * ?n) start = take_bit (8 * ?n) h"
      unfolding start_def using take_bit_eq_mod [of "8 * ?n" h]
      by (metis add_diff_cancel_left' bits_ident)
    then have "unat (h - push_bit (8 * ?n) start) = take_bit (8 * ?n) (unat h)" by (simp only: unsigned_take_bit_eq)
    also have "\<dots> = unat h mod 2 ^ (8 * ?n)" by (simp add: take_bit_eq_mod)
    also have "\<dots> = packed ?n (?hs @ [?B mod 2 ^ ?n])"
      unfolding h2 using packed_div_mod(2) [OF b2, of "[?B div 2 ^ ?n]"] len by (simp add: mult.commute)
    finally show ?thesis .
  qed
  have q: "unat (drop_bit ((7 - k) * ?n) (h - push_bit (8 * ?n) start)) = packed ?n (rev (map (\<lambda>s. s div 256) (take k lens)) @ [?B mod 2 ^ ?n])"
    unfolding unat_drop_bit_eq m using packed_drop [OF b, of "7 - k"] len k by (simp add: drop_bit_eq_div mult.commute rev_drop_lanes)
  show "unat (hsum d (drop_bit ((7 - k) * ?n) (h - push_bit (8 * ?n) start))) = sum_list (map (\<lambda>s. s div 256) (take k lens)) + ?B mod 2 ^ ?n"
  proof (cases "?n = 0")
    case True
    have "s div 256 = 0" if "s \<in> set (take k lens)" for s using c that in_set_takeD [of s k lens] by (auto simp: chunk8_def True)
    then have "sum_list (map (\<lambda>s. s div 256) (take k lens)) = 0" by (simp add: sum_list_eq_0_iff)
    moreover have "hsum d (drop_bit ((7 - k) * ?n) (h - push_bit (8 * ?n) start)) = 0"
      by (simp add: start_def hsum_def sum8_def Let_def True)
    ultimately show ?thesis by (simp add: True)
  next
    case False
    then have n: "?n \<in> {2, 4, 6}" using hbits_cases [OF d] by auto
    have b3: "x < 2 ^ ?n" if "x \<in> set (rev (map (\<lambda>s. s div 256) (take k lens)) @ [?B mod 2 ^ ?n])" for x
      using that b by (auto dest: in_set_takeD)
    have "length (rev (map (\<lambda>s. s div 256) (take k lens)) @ [?B mod 2 ^ ?n]) \<le> 8" using k by simp
    from sum8_value [OF n q this b3] show ?thesis unfolding hsum_def by simp
  qed
qed

lemma offset8_value:
  assumes d: "1 \<le> d" "d \<le> 4" and c: "chunk8 d h l p lens" and k: "k \<le> 7"
  shows "offset8 d h l k = of_nat (p + sum_list (take k lens))"
proof -
  let ?n = "hbits d" and ?S = "sum_list (map (\<lambda>s. s div 256) (take k lens))" and ?T = "sum_list (map (\<lambda>s. s mod 256) (take k lens))"
  note hi = high_offset [OF d c k]
  have lo: "unat (lsum (drop_bit ((7 - k) * 8) l)) = ?T + p mod 256" using low_offset [of l p lens k] c k by (simp add: chunk8_def)
  have w: "x = of_nat (unat x)" for x :: uint64 by simp
  have "offset8 d h l k = push_bit 8 (push_bit ?n (of_nat (p div 256 div 2 ^ ?n)) + of_nat (?S + p div 256 mod 2 ^ ?n)) + of_nat (?T + p mod 256)"
    unfolding offset8_def Let_def lbits_def by (metis hi lo w)
  also have "\<dots> = of_nat ((p div 256 div 2 ^ ?n * 2 ^ ?n + (?S + p div 256 mod 2 ^ ?n)) * 256 + (?T + p mod 256))"
    by (simp add: push_bit_eq_mult)
  also have "p div 256 div 2 ^ ?n * 2 ^ ?n + (?S + p div 256 mod 2 ^ ?n) = ?S + p div 256"
    using div_mult_mod_eq [of "p div 256" "2 ^ ?n"] by linarith
  also have "(?S + p div 256) * 256 + (?T + p mod 256) = p + sum_list (take k lens)"
    using sum_div_mod [of "take k lens"] div_mult_mod_eq [of p 256] by (simp add: algebra_simps)
  finally show ?thesis .
qed

lemma size8_value:
  assumes c: "chunk8 d h l p lens" and k: "k \<le> 6"
  shows "size8 d h l k = of_nat (lens ! k)"
proof -
  let ?n = "hbits d"
  have len: "length lens = 7" and h: "unat h = packed ?n (high_lanes p lens)" and l: "unat l = packed 8 (low_lanes p lens)"
    and b: "\<forall>x \<in> set (rev (map (\<lambda>s. s div 256) lens)). x < 2 ^ ?n"
    using c size_lanes [of lens ?n] by (simp_all add: chunk8_def)
  have r: "rev (map f lens) ! (6 - k) = f (lens ! k)" for f :: "nat \<Rightarrow> nat" using len k by (simp add: rev_nth)
  have tb: "unat (drop_bit m x AND (push_bit j 1 - 1)) = unat x div 2 ^ m mod 2 ^ j" for x :: uint64 and m j
    unfolding mask_word_shift take_bit_eq_mask [symmetric] unsigned_take_bit_eq unat_drop_bit_eq by (simp add: take_bit_eq_mod drop_bit_eq_div)
  have hk: "unat (drop_bit ((6 - k) * ?n) h AND (push_bit ?n 1 - 1)) = lens ! k div 256"
    unfolding tb h high_lanes_def using packed_nth [OF b, of "6 - k"] len r [of "\<lambda>s. s div 256"] by (simp add: mult.commute)
  have lk: "unat (drop_bit ((6 - k) * 8) l AND (push_bit 8 1 - 1)) = lens ! k mod 256"
    unfolding tb l low_lanes_def using packed_nth [OF low_bound [of lens], of "6 - k"] len r [of "\<lambda>s. s mod 256"] by (simp add: mult.commute)
  have w: "x = of_nat (unat x)" for x :: uint64 by simp
  have "size8 d h l k = push_bit 8 (of_nat (lens ! k div 256)) + of_nat (lens ! k mod 256)"
    unfolding size8_def Let_def lbits_def by (metis hk lk w)
  also have "push_bit 8 (of_nat (lens ! k div 256)) = (of_nat (lens ! k div 256 * 256) :: uint64)" by (simp add: push_bit_eq_mult)
  finally have "size8 d h l k = of_nat (lens ! k div 256 * 256 + lens ! k mod 256)" by (simp only: of_nat_add)
  also have "lens ! k div 256 * 256 + lens ! k mod 256 = lens ! k" by (rule div_mult_mod_eq)
  finally show ?thesis .
qed

end
