(* ===== verification/Index_Props.thy ===== *)
theory Index_Props
  imports Index_Packed
begin

text \<open>
  The contract of the block indices as the locale \<open>block_index\<close>: sizes are recorded one by one in the order of the blocks, and
  once all were recorded and the index was flushed it returns the sums of the sizes. It is interpreted on the three
  variable-rate indices. The class of index is a template parameter in the code, here a case of the type \<open>index\<close>.
\<close>

section \<open>The contract of an index\<close>

text \<open>Recording the sizes of consecutive blocks, from block \<open>b\<close> on.\<close>

fun build_index :: "('ix \<Rightarrow> nat \<Rightarrow> uint64 \<Rightarrow> index_error + 'ix) \<Rightarrow> 'ix \<Rightarrow> nat \<Rightarrow> nat list \<Rightarrow> index_error + 'ix" where
  "build_index put ix b [] = Inr ix"
| "build_index put ix b (s # ss) = (case put ix b (of_nat s) of Inl e \<Rightarrow> Inl e | Inr ix \<Rightarrow> build_index put ix (b + 1) ss)"

text \<open>\<open>holds ix ss\<close>: the sizes \<open>ss\<close> were recorded; \<open>complete ix ss\<close>: they were recorded and flushed; \<open>fits\<close>: they are
  in the range the index supports.\<close>

locale block_index =
  fixes put :: "'ix \<Rightarrow> nat \<Rightarrow> uint64 \<Rightarrow> index_error + 'ix"
    and flush :: "'ix \<Rightarrow> index_error + 'ix"
    and offset block_length :: "'ix \<Rightarrow> nat \<Rightarrow> uint64"
    and range :: "'ix \<Rightarrow> uint64"
    and capacity :: "'ix \<Rightarrow> nat"
    and holds complete :: "'ix \<Rightarrow> nat list \<Rightarrow> bool"
    and fits :: "nat list \<Rightarrow> bool"
  assumes set_next: "holds ix ss \<Longrightarrow> length ss < capacity ix \<Longrightarrow> fits (ss @ [s]) \<Longrightarrow>
      \<exists>ix'. put ix (length ss) (of_nat s) = Inr ix' \<and> holds ix' (ss @ [s]) \<and> capacity ix' = capacity ix"
    and set_order: "holds ix ss \<Longrightarrow> b \<noteq> length ss \<Longrightarrow> put ix b w = Inl Not_sequential"
    and fits_prefix: "fits (ss @ ts) \<Longrightarrow> fits ss"
    and flush: "holds ix ss \<Longrightarrow> length ss = capacity ix \<Longrightarrow> fits ss \<Longrightarrow> \<exists>ix'. flush ix = Inr ix' \<and> complete ix' ss \<and> capacity ix' = capacity ix"
    and range: "complete ix ss \<Longrightarrow> length ss = capacity ix \<Longrightarrow> range ix = of_nat (sum_list ss)"
    and offset: "complete ix ss \<Longrightarrow> fits ss \<Longrightarrow> k \<le> length ss \<Longrightarrow> offset ix k = of_nat (sum_list (take k ss))"
    and block_length: "complete ix ss \<Longrightarrow> fits ss \<Longrightarrow> k < length ss \<Longrightarrow> block_length ix k = of_nat (ss ! k)"
begin

lemma build:
  "holds ix rs \<Longrightarrow> length rs + length ss \<le> capacity ix \<Longrightarrow> fits (rs @ ss) \<Longrightarrow>
    \<exists>ix'. build_index put ix (length rs) ss = Inr ix' \<and> holds ix' (rs @ ss) \<and> capacity ix' = capacity ix"
proof (induction ss arbitrary: ix rs)
  case (Cons s ss)
  have "fits (rs @ [s])" using Cons.prems(3) fits_prefix [of "rs @ [s]" ss] by simp
  then obtain ix1 where s: "put ix (length rs) (of_nat s) = Inr ix1" "holds ix1 (rs @ [s])" "capacity ix1 = capacity ix"
    using set_next [OF Cons.prems(1)] Cons.prems(2) by auto
  from Cons.IH [OF s(2)] Cons.prems s(3) obtain ix2 where
    "build_index put ix1 (length (rs @ [s])) ss = Inr ix2" "holds ix2 ((rs @ [s]) @ ss)" "capacity ix2 = capacity ix" by auto
  then show ?case using s(1) by simp
qed simp

lemma indexed:
  assumes "holds ix []" "length ss = capacity ix" "fits ss"
  shows "\<exists>ix1 ix2. build_index put ix 0 ss = Inr ix1 \<and> flush ix1 = Inr ix2 \<and> complete ix2 ss
    \<and> range ix2 = of_nat (sum_list ss)
    \<and> (\<forall>k \<le> length ss. offset ix2 k = of_nat (sum_list (take k ss))) \<and> (\<forall>k < length ss. block_length ix2 k = of_nat (ss ! k))"
proof -
  obtain ix1 where b: "build_index put ix 0 ss = Inr ix1" "holds ix1 ss" "capacity ix1 = capacity ix"
    using build [of ix "[]" ss] assms by auto
  obtain ix2 where f: "flush ix1 = Inr ix2" "complete ix2 ss" "capacity ix2 = capacity ix1" using flush [OF b(2)] b(3) assms by auto
  have "range ix2 = of_nat (sum_list ss)" using range [OF f(2)] f(3) b(3) assms(2) by simp
  then show ?thesis using b(1) f(1,2) offset [of ix2 ss] block_length [of ix2 ss] assms(3) by blast
qed

end

lemma of_nat_diff_word: "of_nat (sum_list (take (Suc k) ss)) - of_nat (sum_list (take k ss)) = (of_nat (ss ! k) :: uint64)" if "k < length ss"
  using that by (simp add: take_Suc_conv_app_nth)

section \<open>Verbatim index\<close>

definition verbatim_holds :: "verbatim \<Rightarrow> nat list \<Rightarrow> bool" where
  "verbatim_holds ix ss \<longleftrightarrow> vb_block ix = length ss \<and> (\<forall>k \<le> length ss. vb_data ix k = of_nat (sum_list (take k ss)))"

interpretation verbatim: block_index verbatim_set Inr verbatim_block_offset verbatim_block_size verbatim_range vb_blocks
  verbatim_holds verbatim_holds "\<lambda>ss. True"
proof
  fix ix :: verbatim and ss :: "nat list" and s b k :: nat and w :: uint64
  show "verbatim_holds ix ss \<Longrightarrow> length ss < vb_blocks ix \<Longrightarrow>
      \<exists>ix'. verbatim_set ix (length ss) (of_nat s) = Inr ix' \<and> verbatim_holds ix' (ss @ [s]) \<and> vb_blocks ix' = vb_blocks ix"
    by (auto simp: verbatim_holds_def verbatim_set_def le_Suc_eq)
  show "verbatim_holds ix ss \<Longrightarrow> b \<noteq> length ss \<Longrightarrow> verbatim_set ix b w = Inl Not_sequential"
    by (simp add: verbatim_holds_def verbatim_set_def)
  show "verbatim_holds ix ss \<Longrightarrow> length ss = vb_blocks ix \<Longrightarrow> verbatim_range ix = of_nat (sum_list ss)"
    by (simp add: verbatim_holds_def verbatim_range_def verbatim_block_offset_def)
  show "verbatim_holds ix ss \<Longrightarrow> k \<le> length ss \<Longrightarrow> verbatim_block_offset ix k = of_nat (sum_list (take k ss))"
    by (simp add: verbatim_holds_def verbatim_block_offset_def)
  show "verbatim_holds ix ss \<Longrightarrow> k < length ss \<Longrightarrow> verbatim_block_size ix k = of_nat (ss ! k)"
    using of_nat_diff_word [of k ss] by (simp add: verbatim_holds_def verbatim_block_size_def verbatim_block_offset_def)
qed simp_all

section \<open>Hybrid index of chunks of four blocks\<close>

lemma of_nat_unat_word: "of_nat (unat x) = x" for x :: "'a::len word"
  by simp

lemma ucast_16: "r < 2 ^ 16 \<Longrightarrow> ucast (ucast (of_nat r :: uint64) :: uint16) = (of_nat r :: uint64)"
  by (simp add: word_unat_eq_iff unsigned_ucast_eq unsigned_of_nat take_bit_nat_eq_self)

lemma ucast_32: "r < 2 ^ 32 \<Longrightarrow> ucast (ucast (of_nat r :: uint64) :: uint32) = (of_nat r :: uint64)"
  by (simp add: word_unat_eq_iff unsigned_ucast_eq unsigned_of_nat take_bit_nat_eq_self)

definition chunk4_offset :: "chunk4 \<Rightarrow> nat \<Rightarrow> uint64" where
  "chunk4_offset c k = push_bit h4_shift (ucast (c4_hi c)) + ucast (c4_lo c k)"

definition hybrid4_fits :: "nat list \<Rightarrow> bool" where
  "hybrid4_fits ss \<longleftrightarrow> (\<forall>s \<in> set ss. s \<le> ZFP_MAX_BITS) \<and> sum_list ss < 2 ^ 44"

definition hybrid4_holds :: "hybrid4 \<Rightarrow> nat list \<Rightarrow> bool" where
  "hybrid4_holds ix ss \<longleftrightarrow> h4_block ix = length ss \<and> h4_end ix = of_nat (sum_list ss) \<and>
     h4_ptr ix = of_nat (sum_list (take (4 * (length ss div 4)) ss)) \<and>
     (\<forall>k. 4 * (length ss div 4) \<le> k \<and> k < length ss \<longrightarrow> h4_buffer ix (k mod 4) = of_nat (ss ! k)) \<and>
     (\<forall>k < 4 * (length ss div 4). chunk4_offset (h4_data ix (k div 4)) (k mod 4) = of_nat (sum_list (take k ss)))"

text \<open>The offsets that are stored for a chunk at position \<open>p\<close> with block sizes \<open>b\<close>.\<close>

lemma chunk4_store:
  fixes b :: "nat \<Rightarrow> nat"
  assumes p: "p < 2 ^ 44" and b: "\<forall>k < 4. b k \<le> ZFP_MAX_BITS"
  defines "hi \<equiv> ucast (drop_bit h4_shift (of_nat p :: uint64)) :: uint32"
  defines "offs \<equiv> push_bit h4_shift (ucast hi) :: uint64"
  shows "k < 4 \<Longrightarrow> offs + ucast (ucast (of_nat (p + sum b {..<k}) - offs) :: uint16) = of_nat (p + sum b {..<k})"
proof -
  assume k: "k < 4"
  have d: "p div 2 ^ 12 < 2 ^ 32" using p by (simp add: less_mult_imp_div_less)
  have "unat (of_nat p :: uint64) = p" using p by (simp add: unsigned_of_nat take_bit_nat_eq_self)
  then have "unat (drop_bit h4_shift (of_nat p :: uint64)) = p div 2 ^ 12" unfolding unat_drop_bit_eq by (simp add: drop_bit_eq_div h4_shift_def)
  then have "drop_bit h4_shift (of_nat p :: uint64) = of_nat (p div 2 ^ 12)" by (metis of_nat_unat_word)
  then have "ucast hi = (of_nat (p div 2 ^ 12) :: uint64)" using ucast_32 [OF d] by (simp add: hi_def)
  then have o: "offs = of_nat (p div 2 ^ 12 * 2 ^ 12)" by (simp add: offs_def h4_shift_def push_bit_eq_mult)
  let ?r = "p mod 2 ^ 12 + sum b {..<k}"
  have "sum b {..<k} \<le> card {..<k} * ZFP_MAX_BITS" using b k by (intro sum_bounded_above [where K = ZFP_MAX_BITS, simplified]) auto
  also have "\<dots> \<le> 3 * ZFP_MAX_BITS" using k by (intro mult_le_mono1) simp
  finally have r: "?r < 2 ^ 16" using mod_less_divisor [of "2 ^ 12" p] by (simp add: ZFP_MAX_BITS_def)
  have e: "p + sum b {..<k} = p div 2 ^ 12 * 2 ^ 12 + ?r" using div_mult_mod_eq [of p "2 ^ 12"] by linarith
  then have m: "of_nat (p + sum b {..<k}) - offs = (of_nat ?r :: uint64)" unfolding o by (simp only: of_nat_add) simp
  have "ucast (ucast (of_nat (p + sum b {..<k}) - offs) :: uint16) = (of_nat ?r :: uint64)"
    unfolding m by (rule ucast_16 [OF r])
  then show ?thesis using m by (metis diff_add_cancel add.commute)
qed

lemma sum_take_chunk:
  "m + j \<le> length xs \<Longrightarrow> sum_list (take (m + j) xs) = sum_list (take m xs) + sum (\<lambda>i. xs ! (m + i)) {..<j}" for xs :: "nat list"
  by (induction j) (simp_all add: take_Suc_conv_app_nth)

lemma sum_take_le: "sum_list (take k xs) \<le> sum_list xs" for xs :: "nat list"
  by (metis append_take_drop_id le_add1 sum_list_append)

lemma chunk_step:
  fixes c n :: nat
  assumes "0 < c"
  shows "n mod c \<noteq> c - 1 \<Longrightarrow> Suc n div c = n div c" "n mod c = c - 1 \<Longrightarrow> Suc n div c = Suc (n div c) \<and> c * (n div c) + c = Suc n"
proof -
  show "n mod c \<noteq> c - 1 \<Longrightarrow> Suc n div c = n div c" using assms by (auto simp: div_Suc mod_Suc)
  assume n: "n mod c = c - 1"
  then show "Suc n div c = Suc (n div c) \<and> c * (n div c) + c = Suc n"
    using assms mult_div_mod_eq [of c n] by (auto simp: div_Suc mod_Suc)
qed

lemma same_chunk: "c * (n div c) \<le> k \<Longrightarrow> k < n \<Longrightarrow> k mod c \<noteq> n mod c" for c n k :: nat
proof
  assume a: "c * (n div c) \<le> k" "k < n" "k mod c = n mod c"
  then have "c * (n div c) + n mod c \<le> k" 
  proof -
    have "n div c \<le> k div c" using a(1) by (cases "c = 0") (simp_all add: less_eq_div_iff_mult_less_eq mult.commute)
    then have "c * (n div c) \<le> c * (k div c)" by simp
    then show ?thesis using a(3) mult_div_mod_eq [of c k] by linarith
  qed
  then show False using a(2) by simp
qed

lemma for_loop_store:
  fixes f :: "nat \<Rightarrow> uint64"
  assumes "f 0 = p0" "\<And>j. j < n \<Longrightarrow> f (Suc j) = f j + buf j"
  shows "for_loop n (\<lambda>k (lo, p). (lo(k := g p), p + buf k)) (lo0, p0) = (lo, p) \<Longrightarrow> p = f n \<and> (\<forall>j < n. lo j = g (f j))"
  using assms(2)
proof (induction n arbitrary: lo p)
  case (Suc n)
  obtain lo1 p1 where l: "for_loop n (\<lambda>k (lo, p). (lo(k := g p), p + buf k)) (lo0, p0) = (lo1, p1)" by force
  have "for_loop (Suc n) (\<lambda>k (lo, p). (lo(k := g p), p + buf k)) (lo0, p0) = (lo1(n := g p1), p1 + buf n)"
    by (simp only: for_loop_simps l prod.case)
  from trans [OF this [symmetric] Suc.prems(1)] have "lo = lo1(n := g p1)" "p = p1 + buf n" by auto
  then show ?case using Suc.IH [OF l] Suc.prems(2) by (auto simp: less_Suc_eq)
qed (use assms(1) in simp)

lemma hybrid4_push:
  assumes h: "hybrid4_holds ix ss" and s: "length ss < h4_blocks ix \<or> s = 0" and f: "hybrid4_fits (ss @ [s])"
  shows "\<exists>ix'. hybrid4_set ix (length ss) (of_nat s) = Inr ix' \<and> hybrid4_holds ix' (ss @ [s]) \<and> h4_blocks ix' = h4_blocks ix"
proof -
  let ?n = "length ss" and ?q = "length ss div 4" and ?s = "of_nat s :: uint64"
  have st: "h4_block ix = ?n" "h4_end ix = of_nat (sum_list ss)" "h4_ptr ix = of_nat (sum_list (take (4 * ?q) ss))"
    "\<And>k. 4 * ?q \<le> k \<Longrightarrow> k < ?n \<Longrightarrow> h4_buffer ix (k mod 4) = of_nat (ss ! k)"
    "\<And>k. k < 4 * ?q \<Longrightarrow> chunk4_offset (h4_data ix (k div 4)) (k mod 4) = of_nat (sum_list (take k ss))"
    using h by (simp_all add: hybrid4_holds_def)
  have le: "s \<le> ZFP_MAX_BITS" "\<forall>s \<in> set ss. s \<le> ZFP_MAX_BITS" "sum_list ss < 2 ^ 44" using f by (simp_all add: hybrid4_fits_def)
  have su: "unat ?s = s" using le(1) by (simp add: unsigned_of_nat take_bit_nat_eq_self ZFP_MAX_BITS_def)
  have ok: "\<not> (h4_blocks ix \<le> h4_block ix \<and> ?s \<noteq> 0)" "\<not> of_nat ZFP_MAX_BITS < ?s"
    using s st(1) le(1) su by (auto simp: word_less_nat_alt unsigned_of_nat take_bit_nat_eq_self ZFP_MAX_BITS_def)
  let ?buf = "(h4_buffer ix)(?n mod 4 := ?s)"
  have buf: "?buf (k mod 4) = of_nat ((ss @ [s]) ! k)" if "4 * ?q \<le> k" "k \<le> ?n" for k
    using that st(4) [of k] same_chunk [of 4 ?n k] by (cases "k = ?n") (auto simp: nth_append)
  show ?thesis
  proof (cases "?n mod 4 = 3")
    case False
    then have "Suc ?n div 4 = ?q" using chunk_step(1) [of 4 ?n] by simp
    moreover have "take (4 * ?q) (ss @ [s]) = take (4 * ?q) ss" by simp
    moreover have "take k (ss @ [s]) = take k ss" if "k < 4 * ?q" for k using that by simp
    ultimately show ?thesis
      using False ok st buf by (auto simp: hybrid4_set_def Let_def hybrid4_holds_def less_Suc_eq_le)
  next
    case True
    let ?P = "sum_list (take (4 * ?q) ss)" and ?b = "\<lambda>j. (ss @ [s]) ! (4 * ?q + j)"
    have q: "Suc ?n div 4 = Suc ?q" "4 * ?q + 4 = Suc ?n" using chunk_step(2) [of 4 ?n] True by simp_all
    have P: "?P < 2 ^ 44" using le(3) sum_take_le [of "4 * ?q" ss] by linarith
    then have "unat (h4_ptr ix) = ?P" by (simp add: st(3) unsigned_of_nat take_bit_nat_eq_self)
    then have d: "drop_bit (32 + h4_shift) (h4_ptr ix) = 0"
      using P by (simp add: word_unat_eq_iff unat_drop_bit_eq h4_shift_def del: drop_bit_eq_div) (simp add: drop_bit_eq_div)
    have bl: "\<forall>j < 4. ?b j \<le> ZFP_MAX_BITS" using q le(1,2) by (auto simp: nth_append)
    have bj: "?buf j = of_nat (?b j)" if "j < 4" for j using buf [of "4 * ?q + j"] that q by simp
    let ?hi = "ucast (drop_bit h4_shift (h4_ptr ix)) :: uint32"
    let ?offs = "push_bit h4_shift (ucast ?hi) :: uint64"
    obtain lo p where l: "for_loop 4 (\<lambda>k (lo, p). (lo(k := ucast (p - ?offs)), p + ?buf k)) (c4_lo (h4_data ix ?q), h4_ptr ix) = (lo, p)" by force
    have sums: "sum_list (take (4 * ?q + j) (ss @ [s])) = ?P + sum ?b {..<j}" if "j \<le> 4" for j
      using sum_take_chunk [of "4 * ?q" j "ss @ [s]"] that q by simp
    let ?f = "\<lambda>j. of_nat (?P + sum ?b {..<j}) :: uint64"
    have lp: "p = ?f 4" "\<And>j. j < 4 \<Longrightarrow> lo j = ucast (?f j - ?offs)"
      using for_loop_store [where f = ?f, OF _ _ l] bj by (auto simp: st(3))
    have off: "?offs + ucast (lo j) = of_nat (sum_list (take (4 * ?q + j) (ss @ [s])))" if "j < 4" for j
      unfolding lp(2) [OF that] sums [OF less_imp_le [OF that]] st(3) by (rule chunk4_store [where b = ?b, OF P bl that])
    have n: "?n = 4 * ?q + 3" using q by simp
    have "chunk4_offset (((h4_data ix)(?q := \<lparr>c4_hi = ?hi, c4_lo = lo\<rparr>)) (k div 4)) (k mod 4) = of_nat (sum_list (take k (ss @ [s])))" if "k < 4 * Suc ?q" for k
    proof (cases "k < 4 * ?q")
      case True
      then have "k div 4 \<noteq> ?q" "k \<le> ?n" using n by auto
      then show ?thesis using st(5) [OF True] by simp
    next
      case False
      then have kq: "k div 4 = ?q" using that by auto
      then have "4 * ?q + k mod 4 = k" using mult_div_mod_eq [of 4 k] by simp
      with kq show ?thesis using off [of "k mod 4"] by (simp add: chunk4_offset_def)
    qed
    moreover have "p = of_nat (sum_list (take (4 * Suc ?q) (ss @ [s])))" using lp(1) sums [of 4] by (simp add: add.commute)
    moreover have "hybrid4_set ix ?n ?s = Inr (ix\<lparr>h4_end := h4_end ix + ?s, h4_buffer := ?buf,
        h4_data := (h4_data ix)(?q := \<lparr>c4_hi = ?hi, c4_lo = lo\<rparr>), h4_ptr := p, h4_block := Suc ?n\<rparr>)"
      using ok d l True by (simp add: hybrid4_set_def Let_def st(1))
    ultimately show ?thesis using q n by (auto simp: hybrid4_holds_def st(2))
  qed
qed


text \<open>Flushing pads the last chunk with empty blocks.\<close>

lemma hybrid4_fits_pad: "hybrid4_fits ss \<Longrightarrow> hybrid4_fits (ss @ [0])"
  by (simp add: hybrid4_fits_def)

lemma hybrid4_flush_holds:
  "hybrid4_holds ix ss \<Longrightarrow> hybrid4_fits ss \<Longrightarrow>
    \<exists>ix' m. hybrid4_flush ix = Inr ix' \<and> hybrid4_holds ix' (ss @ replicate m 0) \<and> length (ss @ replicate m 0) mod 4 = 0 \<and> h4_blocks ix' = h4_blocks ix"
proof (induction "(4 - length ss mod 4) mod 4" arbitrary: ix ss rule: less_induct)
  case less
  have b: "h4_block ix = length ss" using less.prems(1) by (simp add: hybrid4_holds_def)
  show ?case
  proof (cases "length ss mod 4 = 0")
    case True
    then have "hybrid4_flush ix = Inr ix" using b by (simp add: hybrid4_flush.simps)
    then show ?thesis using less.prems True by (intro exI [of _ ix] exI [of _ 0]) simp
  next
    case False
    obtain ix1 where s: "hybrid4_set ix (length ss) 0 = Inr ix1" "hybrid4_holds ix1 (ss @ [0])" "h4_blocks ix1 = h4_blocks ix"
      using hybrid4_push [OF less.prems(1) _ hybrid4_fits_pad [OF less.prems(2)]] by auto
    have "(4 - length (ss @ [0]) mod 4) mod 4 < (4 - length ss mod 4) mod 4"
      using False mod_less_divisor [of 4 "length ss"] by (auto simp: mod_Suc)
    from less.hyps [OF this s(2) hybrid4_fits_pad [OF less.prems(2)]] obtain ix2 m where
      "hybrid4_flush ix1 = Inr ix2 \<and> hybrid4_holds ix2 ((ss @ [0]) @ replicate m 0) \<and>
       length ((ss @ [0]) @ replicate m 0) mod 4 = 0 \<and> h4_blocks ix2 = h4_blocks ix1"
      by (elim exE)
    moreover have "hybrid4_flush ix = hybrid4_flush ix1" using False b s(1) by (subst hybrid4_flush.simps) simp
    moreover have "(ss @ [0]) @ replicate m 0 = ss @ replicate (Suc m) 0" by simp
    ultimately show ?thesis using s(3) by metis
  qed
qed

definition hybrid4_complete :: "hybrid4 \<Rightarrow> nat list \<Rightarrow> bool" where
  "hybrid4_complete ix ss \<longleftrightarrow> (\<exists>m. hybrid4_holds ix (ss @ replicate m 0) \<and> length (ss @ replicate m 0) mod 4 = 0)"

lemma hybrid4_offset:
  assumes "hybrid4_holds ix ss" "length ss mod 4 = 0" "k \<le> length ss"
  shows "hybrid4_block_offset ix k = of_nat (sum_list (take k ss))"
proof -
  have "4 * (length ss div 4) = length ss" using assms(2) by auto
  then show ?thesis using assms by (auto simp: hybrid4_block_offset_def hybrid4_holds_def chunk4_offset_def Let_def)
qed

lemma hybrid4_size:
  assumes "hybrid4_holds ix ss" "length ss mod 4 = 0" "k < length ss"
  shows "hybrid4_block_size ix k = of_nat (ss ! k)"
proof (cases "k mod 4 = 3")
  case True
  then show ?thesis
    using assms hybrid4_offset [OF assms(1,2), of k] hybrid4_offset [OF assms(1,2), of "Suc k"] of_nat_diff_word [of k ss]
    by (simp add: hybrid4_block_size_def)
next
  case False
  then have k: "Suc k div 4 = k div 4" "Suc k mod 4 = Suc (k mod 4)" by (simp_all add: div_Suc mod_Suc)
  have "Suc k \<noteq> length ss" using k(2) assms(2) by auto
  then have "4 * (length ss div 4) = length ss" "Suc k < length ss" using assms(2,3) by auto
  then have "chunk4_offset (h4_data ix (k div 4)) (Suc (k mod 4)) - chunk4_offset (h4_data ix (k div 4)) (k mod 4) = of_nat (ss ! k)"
    using assms(1) k of_nat_diff_word [OF assms(3)] unfolding hybrid4_holds_def by (metis Suc_lessD)
  then show ?thesis using False by (simp add: hybrid4_block_size_def Let_def chunk4_offset_def)
qed

interpretation hybrid4: block_index hybrid4_set hybrid4_flush hybrid4_block_offset hybrid4_block_size hybrid4_range h4_blocks
  hybrid4_holds hybrid4_complete hybrid4_fits
proof
  fix ix :: hybrid4 and ss ts :: "nat list" and s b k :: nat and w :: uint64
  show "hybrid4_holds ix ss \<Longrightarrow> length ss < h4_blocks ix \<Longrightarrow> hybrid4_fits (ss @ [s]) \<Longrightarrow>
      \<exists>ix'. hybrid4_set ix (length ss) (of_nat s) = Inr ix' \<and> hybrid4_holds ix' (ss @ [s]) \<and> h4_blocks ix' = h4_blocks ix"
    by (rule hybrid4_push) simp_all
  show "hybrid4_holds ix ss \<Longrightarrow> b \<noteq> length ss \<Longrightarrow> hybrid4_set ix b w = Inl Not_sequential"
    by (simp add: hybrid4_holds_def hybrid4_set_def)
  show "hybrid4_fits (ss @ ts) \<Longrightarrow> hybrid4_fits ss" by (simp add: hybrid4_fits_def)
  show "hybrid4_holds ix ss \<Longrightarrow> length ss = h4_blocks ix \<Longrightarrow> hybrid4_fits ss \<Longrightarrow> \<exists>ix'. hybrid4_flush ix = Inr ix' \<and> hybrid4_complete ix' ss \<and> h4_blocks ix' = h4_blocks ix"
    unfolding hybrid4_complete_def by (frule (1) hybrid4_flush_holds) (elim exE conjE, intro exI conjI)
  show "hybrid4_complete ix ss \<Longrightarrow> length ss = h4_blocks ix \<Longrightarrow> hybrid4_range ix = of_nat (sum_list ss)"
    by (auto simp: hybrid4_complete_def hybrid4_holds_def hybrid4_range_def sum_list_replicate)
  show "hybrid4_complete ix ss \<Longrightarrow> k \<le> length ss \<Longrightarrow> hybrid4_block_offset ix k = of_nat (sum_list (take k ss))"
    by (auto simp: hybrid4_complete_def dest!: hybrid4_offset [where k = k])
  show "hybrid4_complete ix ss \<Longrightarrow> k < length ss \<Longrightarrow> hybrid4_block_size ix k = of_nat (ss ! k)"
    by (auto simp: hybrid4_complete_def nth_append dest!: hybrid4_size [where k = k])
qed

section \<open>Hybrid index of chunks of eight blocks\<close>

definition hybrid8_fits :: "nat \<Rightarrow> nat list \<Rightarrow> bool" where
  "hybrid8_fits d ss \<longleftrightarrow> 1 \<le> d \<and> d \<le> 4 \<and> (\<forall>s \<in> set ss. s < 2 ^ (hbits d + 8)) \<and> sum_list ss < 2 ^ min 64 (86 - 14 * d)"

definition hybrid8_holds :: "nat \<Rightarrow> hybrid8 \<Rightarrow> nat list \<Rightarrow> bool" where
  "hybrid8_holds d ix ss \<longleftrightarrow> h8_block ix = length ss \<and> h8_end ix = of_nat (sum_list ss) \<and>
     h8_ptr ix = of_nat (sum_list (take (8 * (length ss div 8)) ss)) \<and>
     (\<forall>k. 8 * (length ss div 8) \<le> k \<and> k < length ss \<longrightarrow> h8_buffer ix (k mod 8) = of_nat (ss ! k)) \<and>
     (\<forall>c < length ss div 8. chunk8 d (h8_data ix (2 * c)) (h8_data ix (2 * c + 1)) (sum_list (take (8 * c) ss)) (take 7 (drop (8 * c) ss)))"

lemma for_loop_7: "for_loop 7 f s = f 6 (f 5 (f 4 (f 3 (f 2 (f 1 (f 0 s))))))"
  by (simp add: for_loop_def upt_rec eval_nat_numeral)

lemma push_of_nat: "push_bit m (of_nat a :: uint64) = of_nat (a * 2 ^ m)"
  by (simp add: push_bit_eq_mult)

lemma drop_of_nat: "a < 2 ^ 64 \<Longrightarrow> drop_bit m (of_nat a :: uint64) = of_nat (a div 2 ^ m)"
proof -
  assume "a < 2 ^ 64"
  then have "unat (of_nat a :: uint64) = a" by (simp add: unsigned_of_nat take_bit_nat_eq_self)
  then have "unat (drop_bit m (of_nat a :: uint64)) = a div 2 ^ m" unfolding unat_drop_bit_eq by (simp add: drop_bit_eq_div)
  then show ?thesis by (metis of_nat_unat_word)
qed

lemma low_byte: "a < 2 ^ 64 \<Longrightarrow> of_nat a - push_bit 8 (drop_bit 8 (of_nat a :: uint64)) = of_nat (a mod 256)"
proof -
  assume a: "a < 2 ^ 64"
  have "(of_nat a :: uint64) = of_nat (a div 2 ^ 8 * 2 ^ 8 + a mod 2 ^ 8)" by (simp only: div_mult_mod_eq)
  also have "\<dots> = push_bit 8 (drop_bit 8 (of_nat a)) + of_nat (a mod 256)" unfolding drop_of_nat [OF a] push_of_nat by (simp only: of_nat_add) simp
  finally show ?thesis by (metis add_diff_cancel_left')
qed

lemma packed_top:
  assumes "\<forall>x \<in> set xs. x < 2 ^ n" "b < 2 ^ m"
  shows "packed n (xs @ [b]) < 2 ^ (n * length xs + m)"
proof -
  have "packed n xs + 2 ^ (n * length xs) * b < 2 ^ (n * length xs) * Suc b" using packed_less [of xs n] assms(1) by simp
  also have "\<dots> \<le> 2 ^ (n * length xs) * 2 ^ m" using assms(2) by (intro mult_le_mono2) simp
  finally show ?thesis by (simp add: packed_append power_add)
qed

lemma packed_8:
  "packed n [a6, a5, a4, a3, a2, a1, a0, b] =
    b * 2 ^ (7 * n) + a0 * 2 ^ ((6 - 0) * n) + a1 * 2 ^ ((6 - 1) * n) + a2 * 2 ^ ((6 - 2) * n) + a3 * 2 ^ ((6 - 3) * n) +
      a4 * 2 ^ ((6 - 4) * n) + a5 * 2 ^ ((6 - 5) * n) + a6 * 2 ^ ((6 - 6) * n)"
proof -
  define x :: nat where "x = 2 ^ n"
  have e: "2 ^ (k * n) = x ^ k" for k by (simp add: x_def power_mult [symmetric] mult.commute)
  have "a6 + x * (a5 + x * (a4 + x * (a3 + x * (a2 + x * (a1 + x * (a0 + x * b)))))) =
      b * x ^ 7 + a0 * x ^ 6 + a1 * x ^ 5 + a2 * x ^ 4 + a3 * x ^ 3 + a4 * x ^ 2 + a5 * x ^ 1 + a6 * x ^ 0"
    by (simp add: eval_nat_numeral algebra_simps)
  then show ?thesis unfolding e by (simp add: x_def)
qed

text \<open>The two words that are stored for a chunk at position \<open>p\<close> with the sizes \<open>b\<close>.\<close>

lemma chunk8_store:
  fixes buf :: "nat \<Rightarrow> uint64"
  assumes d: "1 \<le> d" "d \<le> 4" and p: "p < 2 ^ min 64 (86 - 14 * d)" and lens: "length lens = 7" "\<forall>s \<in> set lens. s < 2 ^ (hbits d + 8)"
    and buf: "\<forall>k < 7. buf k = of_nat (lens ! k)"
  defines "h \<equiv> drop_bit lbits (of_nat p :: uint64)"
  defines "l \<equiv> of_nat p - push_bit lbits h"
  assumes loop: "for_loop 7 (\<lambda>k (p, hi, lo).
      let s = buf k; h = drop_bit lbits s; l = s - push_bit lbits h
      in (p + s, hi + push_bit ((6 - k) * hbits d) h, lo + push_bit ((6 - k) * lbits) l))
    (of_nat p, push_bit (7 * hbits d) h, push_bit (7 * lbits) l) = (q, hi, lo)"
  shows "q = of_nat (p + sum_list lens) \<and> chunk8 d hi lo p lens \<and> drop_bit (7 * hbits d) (push_bit (7 * hbits d) h) = h"
proof -
  let ?n = "hbits d" and ?B = "p div 256"
  have n: "?n \<le> 6" "86 - 14 * d = 72 - 7 * ?n" using d by (auto simp: hbits_def)
  have p64: "p < 2 ^ 64" using p by (rule order_less_le_trans) (rule power_increasing, simp_all)
  have B: "?B < 2 ^ (64 - 7 * ?n)"
  proof -
    have "(2 :: nat) ^ min 64 (86 - 14 * d) \<le> 2 ^ (64 - 7 * ?n + 8)" using n by (intro power_increasing) auto
    also have "\<dots> = 2 ^ (64 - 7 * ?n) * 256" by (simp add: power_add)
    finally have "p < 2 ^ (64 - 7 * ?n) * 256" using p by (rule order_less_le_trans [rotated])
    then show ?thesis by (simp add: less_mult_imp_div_less)
  qed
  have "length lens = Suc (Suc (Suc (Suc (Suc (Suc (Suc 0))))))" using lens(1) by simp
  then obtain s0 s1 s2 s3 s4 s5 s6 where s: "lens = [s0, s1, s2, s3, s4, s5, s6]" by (auto simp: length_Suc_conv)
  have sb: "s < 2 ^ 64" if "s \<in> set lens" for s
  proof -
    have "s < 2 ^ (?n + 8)" using lens(2) that by blast
    also have "(2 :: nat) ^ (?n + 8) \<le> 2 ^ 64" using n(1) by (intro power_increasing) simp_all
    finally show ?thesis .
  qed
  have b: "buf 0 = of_nat s0" "buf 1 = of_nat s1" "buf 2 = of_nat s2" "buf 3 = of_nat s3" "buf 4 = of_nat s4" "buf 5 = of_nat s5" "buf 6 = of_nat s6"
    using buf by (simp_all add: s)
  have h: "h = of_nat ?B" using drop_of_nat [OF p64, of 8] by (simp add: h_def lbits_def)
  have l: "l = of_nat (p mod 256)" using low_byte [OF p64] by (simp add: l_def h_def lbits_def)
  have hk: "drop_bit lbits (of_nat t :: uint64) = of_nat (t div 256)" if "t \<in> set lens" for t
    using drop_of_nat [OF sb [OF that], of 8] by (simp add: lbits_def)
  have lk: "of_nat t - push_bit lbits (of_nat (t div 256)) = (of_nat (t mod 256) :: uint64)" if "t \<in> set lens" for t
    using low_byte [OF sb [OF that]] drop_of_nat [OF sb [OF that], of 8] by (simp add: lbits_def)
  have mem: "s0 \<in> set lens" "s1 \<in> set lens" "s2 \<in> set lens" "s3 \<in> set lens" "s4 \<in> set lens" "s5 \<in> set lens" "s6 \<in> set lens"
    by (simp_all add: s)
  note run = loop [unfolded for_loop_7 Let_def prod.case b h l hk [OF mem(1)] hk [OF mem(2)] hk [OF mem(3)] hk [OF mem(4)] hk [OF mem(5)] hk [OF mem(6)]
      hk [OF mem(7)], unfolded lk [OF mem(1)] lk [OF mem(2)] lk [OF mem(3)] lk [OF mem(4)] lk [OF mem(5)] lk [OF mem(6)] lk [OF mem(7)], unfolded push_of_nat
      of_nat_add [symmetric] prod.inject]
  have "q = of_nat (p + sum_list lens)" unfolding conjunct1 [OF run, symmetric] s by (simp add: add.assoc)
  moreover have "hi = of_nat (packed ?n (high_lanes p lens))" using run unfolding s high_lanes_def by (simp only: list.map rev.simps append.simps packed_8)
  moreover have "lo = of_nat (packed 8 (low_lanes p lens))" using run unfolding s low_lanes_def lbits_def by (simp only: list.map rev.simps append.simps packed_8)
  ultimately have r: "q = of_nat (p + sum_list lens)" "hi = of_nat (packed ?n (high_lanes p lens))" "lo = of_nat (packed 8 (low_lanes p lens))" .
  have hl: "unat hi = packed ?n (high_lanes p lens)" "unat lo = packed 8 (low_lanes p lens)"
    unfolding r using packed_top [OF size_lanes [OF lens(2)], of ?B "64 - 7 * ?n"] packed_top [OF low_bound [of lens], of "p mod 256" 8] B n(1) lens(1)
    by (simp_all add: unsigned_of_nat take_bit_nat_eq_self high_lanes_def low_lanes_def)
  have B64: "?B * 2 ^ (7 * ?n) < 2 ^ 64"
    using mult_strict_right_mono [OF B, of "2 ^ (7 * ?n)"] n(1) by (simp flip: power_add)
  have "drop_bit (7 * ?n) (push_bit (7 * ?n) h) = h" unfolding h push_of_nat drop_of_nat [OF B64] by simp
  then show ?thesis using hl lens r(1) by (simp add: chunk8_def)
qed


lemma even_odd: "2 * a \<noteq> 2 * b + 1" for a b :: nat
  by presburger

lemma hybrid8_push:
  assumes h: "hybrid8_holds d ix ss" and s: "length ss < h8_blocks ix \<or> s = 0" and f: "hybrid8_fits d (ss @ [s])"
  shows "\<exists>ix'. hybrid8_set d ix (length ss) (of_nat s) = Inr ix' \<and> hybrid8_holds d ix' (ss @ [s]) \<and> h8_blocks ix' = h8_blocks ix"
proof -
  let ?n = "length ss" and ?q = "length ss div 8" and ?s = "of_nat s :: uint64"
  have st: "h8_block ix = ?n" "h8_end ix = of_nat (sum_list ss)" "h8_ptr ix = of_nat (sum_list (take (8 * ?q) ss))"
    "\<And>k. 8 * ?q \<le> k \<Longrightarrow> k < ?n \<Longrightarrow> h8_buffer ix (k mod 8) = of_nat (ss ! k)"
    "\<And>c. c < ?q \<Longrightarrow> chunk8 d (h8_data ix (2 * c)) (h8_data ix (2 * c + 1)) (sum_list (take (8 * c) ss)) (take 7 (drop (8 * c) ss))"
    using h by (simp_all add: hybrid8_holds_def)
  have d: "1 \<le> d" "d \<le> 4" and le: "\<forall>s \<in> set (ss @ [s]). s < 2 ^ (hbits d + 8)" "sum_list ss < 2 ^ min 64 (86 - 14 * d)"
    using f by (auto simp: hybrid8_fits_def intro: order_le_less_trans [rotated])
  have "(2 :: nat) ^ (hbits d + 8) \<le> 2 ^ 64" using d by (intro power_increasing) (simp_all add: hbits_def)
  then have "s < 2 ^ 64" using le(1) by (auto intro: order_less_le_trans)
  then have su: "?s = 0 \<longleftrightarrow> s = 0" "drop_bit (hbits d + lbits) ?s = 0"
    using le(1) by (simp_all add: drop_of_nat lbits_def) (simp add: unsigned_of_nat take_bit_nat_eq_self flip: unat_eq_0)
  have ok: "\<not> (h8_blocks ix \<le> h8_block ix \<and> ?s \<noteq> 0)" using s st(1) su by auto
  let ?buf = "(h8_buffer ix)(?n mod 8 := ?s)"
  have buf: "?buf (k mod 8) = of_nat ((ss @ [s]) ! k)" if "8 * ?q \<le> k" "k \<le> ?n" for k
    using that st(4) [of k] same_chunk [of 8 ?n k] by (cases "k = ?n") (auto simp: nth_append)
  have old: "take (8 * c) (ss @ [s]) = take (8 * c) ss" "take 7 (drop (8 * c) (ss @ [s])) = take 7 (drop (8 * c) ss)" if "c < ?q" for c
    using that by auto
  show ?thesis
  proof (cases "?n mod 8 = 7")
    case False
    then have "Suc ?n div 8 = ?q" using chunk_step(1) [of 8 ?n] by simp
    moreover have "take (8 * ?q) (ss @ [s]) = take (8 * ?q) ss" by simp
    ultimately show ?thesis
      using False ok su(2) st buf old by (auto simp: hybrid8_set_def Let_def hybrid8_holds_def less_Suc_eq_le)
  next
    case True
    let ?P = "sum_list (take (8 * ?q) ss)" and ?l = "take 7 (drop (8 * ?q) (ss @ [s]))"
    have q: "Suc ?n div 8 = Suc ?q" "8 * ?q + 8 = Suc ?n" using chunk_step(2) [of 8 ?n] True by simp_all
    have n: "?n = 8 * ?q + 7" using q by simp
    have P: "?P < 2 ^ min 64 (86 - 14 * d)" using le(2) sum_take_le [of "8 * ?q" ss] by linarith
    have l: "length ?l = 7" "\<forall>s \<in> set ?l. s < 2 ^ (hbits d + 8)" "\<forall>k < 7. ?buf k = of_nat (?l ! k)"
    proof -
      show "length ?l = 7" using n by simp
      show "\<forall>s \<in> set ?l. s < 2 ^ (hbits d + 8)" using le(1) by (meson in_set_takeD in_set_dropD)
      show "\<forall>k < 7. ?buf k = of_nat (?l ! k)" using buf [of "8 * ?q + k" for k] n by (auto simp: nth_append)
    qed
    let ?h = "drop_bit lbits (h8_ptr ix)"
    obtain p hi lo where loop: "for_loop 7 (\<lambda>k (p, hi, lo).
        let s = ?buf k; h = drop_bit lbits s; l = s - push_bit lbits h
        in (p + s, hi + push_bit ((6 - k) * hbits d) h, lo + push_bit ((6 - k) * lbits) l))
      (h8_ptr ix, push_bit (7 * hbits d) ?h, push_bit (7 * lbits) (h8_ptr ix - push_bit lbits ?h)) = (p, hi, lo)" by (rule prod_cases3)
    note r = chunk8_store [OF d P l(1,2,3) loop [unfolded st(3)]]
    have b7: "?buf 7 = ?s" using True by simp
    have dr: "?l = drop (8 * ?q) ss" using n by simp
    have tot: "take (8 * Suc ?q) (ss @ [s]) = ss @ [s]" using n by simp
    have "sum_list ss = ?P + sum_list ?l" unfolding dr by (metis append_take_drop_id sum_list_append)
    then have "of_nat (sum_list (ss @ [s])) = of_nat (?P + sum_list ?l) + ?s" by simp
    then have total: "p + ?buf 7 = of_nat (sum_list (take (8 * Suc ?q) (ss @ [s])))" unfolding tot b7 using conjunct1 [OF r] by metis
    let ?data = "(h8_data ix)(2 * ?q := hi, 2 * ?q + 1 := lo)"
    have data: "chunk8 d (?data (2 * c)) (?data (2 * c + 1)) (sum_list (take (8 * c) (ss @ [s]))) (take 7 (drop (8 * c) (ss @ [s])))" if "c < Suc ?q" for c
    proof (cases "c = ?q")
      case True
      have e: "?data (2 * ?q) = hi" "?data (2 * ?q + 1) = lo" "take (8 * ?q) (ss @ [s]) = take (8 * ?q) ss" by simp_all
      show ?thesis unfolding True e by (rule conjunct1 [OF conjunct2 [OF r]])
    next
      case False
      then have "2 * c \<noteq> 2 * ?q + 1" "2 * c + 1 \<noteq> 2 * ?q" "c < ?q" using that even_odd [of c ?q] even_odd [of ?q c] by linarith+
      then show ?thesis using st(5) [of c] old [of c] by simp
    qed
    let ?r = "ix\<lparr>h8_end := h8_end ix + ?s, h8_buffer := ?buf, h8_data := ?data, h8_ptr := p + ?buf 7, h8_block := Suc ?n\<rparr>"
    have "hybrid8_set d ix ?n ?s = Inr ?r"
      using ok su(2) loop r [THEN conjunct2, THEN conjunct2, folded st(3)] True
      by (simp add: hybrid8_set_def Let_def st(1) del: fun_upd_apply) 
    moreover have "hybrid8_holds d ?r (ss @ [s])"
    proof -
      have none: "8 + 8 * ?q \<le> k \<Longrightarrow> \<not> k < Suc ?n" for k using q(2) by linarith
      show ?thesis unfolding hybrid8_holds_def using data total q n none by (auto simp: st(2) simp del: fun_upd_apply)
    qed
    ultimately show ?thesis by (intro exI [of _ ?r] conjI) simp_all
  qed
qed


lemma hybrid8_fits_pad: "hybrid8_fits d ss \<Longrightarrow> hybrid8_fits d (ss @ [0])"
  by (simp add: hybrid8_fits_def)

lemma hybrid8_flush_holds:
  "hybrid8_holds d ix ss \<Longrightarrow> hybrid8_fits d ss \<Longrightarrow>
    \<exists>ix' m. hybrid8_flush d ix = Inr ix' \<and> hybrid8_holds d ix' (ss @ replicate m 0) \<and> length (ss @ replicate m 0) mod 8 = 0 \<and> h8_blocks ix' = h8_blocks ix"
proof (induction "(8 - length ss mod 8) mod 8" arbitrary: ix ss rule: less_induct)
  case less
  have b: "h8_block ix = length ss" using less.prems(1) by (simp add: hybrid8_holds_def)
  show ?case
  proof (cases "length ss mod 8 = 0")
    case True
    then have "hybrid8_flush d ix = Inr ix" using b by (simp add: hybrid8_flush.simps)
    then show ?thesis using less.prems True by (intro exI [of _ ix] exI [of _ 0]) simp
  next
    case False
    obtain ix1 where s: "hybrid8_set d ix (length ss) 0 = Inr ix1" "hybrid8_holds d ix1 (ss @ [0])" "h8_blocks ix1 = h8_blocks ix"
      using hybrid8_push [OF less.prems(1) _ hybrid8_fits_pad [OF less.prems(2)]] by auto
    have "(8 - length (ss @ [0]) mod 8) mod 8 < (8 - length ss mod 8) mod 8"
      using False mod_less_divisor [of 8 "length ss"] by (auto simp: mod_Suc)
    from less.hyps [OF this s(2) hybrid8_fits_pad [OF less.prems(2)]] obtain ix2 m where
      "hybrid8_flush d ix1 = Inr ix2 \<and> hybrid8_holds d ix2 ((ss @ [0]) @ replicate m 0) \<and>
       length ((ss @ [0]) @ replicate m 0) mod 8 = 0 \<and> h8_blocks ix2 = h8_blocks ix1"
      by (elim exE)
    moreover have "hybrid8_flush d ix = hybrid8_flush d ix1" using False b s(1) by (subst hybrid8_flush.simps) simp
    moreover have "(ss @ [0]) @ replicate m 0 = ss @ replicate (Suc m) 0" by simp
    ultimately show ?thesis using s(3) by metis
  qed
qed

definition hybrid8_complete :: "nat \<Rightarrow> hybrid8 \<Rightarrow> nat list \<Rightarrow> bool" where
  "hybrid8_complete d ix ss \<longleftrightarrow> (\<exists>m. hybrid8_holds d ix (ss @ replicate m 0) \<and> length (ss @ replicate m 0) mod 8 = 0)"

lemma sum_take_split:
  "k mod c = j \<Longrightarrow> c * (k div c) + j \<le> length ss \<Longrightarrow>
    sum_list (take (c * (k div c)) ss) + sum_list (take j (drop (c * (k div c)) ss)) = sum_list (take k ss)" for ss :: "nat list"
  by (metis mult_div_mod_eq sum_list_append take_add)

lemma hybrid8_offset:
  assumes h: "hybrid8_holds d ix ss" and d: "1 \<le> d" "d \<le> 4" and ss: "length ss mod 8 = 0" "k \<le> length ss"
  shows "hybrid8_block_offset d ix k = of_nat (sum_list (take k ss))"
proof (cases "k = length ss")
  case False
  let ?c = "k div 8"
  have n: "8 * (length ss div 8) = length ss" using ss(1) by auto
  then have c: "?c < length ss div 8" "k mod 8 \<le> 7" "8 * ?c + k mod 8 \<le> length ss" using False ss(2) by auto
  then have "chunk8 d (h8_data ix (2 * ?c)) (h8_data ix (2 * ?c + 1)) (sum_list (take (8 * ?c) ss)) (take 7 (drop (8 * ?c) ss))"
    using h by (simp add: hybrid8_holds_def)
  from offset8_value [OF d this c(2)] have "offset8 d (h8_data ix (2 * ?c)) (h8_data ix (2 * ?c + 1)) (k mod 8) =
      of_nat (sum_list (take (8 * ?c) ss) + sum_list (take (k mod 8) (drop (8 * ?c) ss)))"
    using c(2) by (simp add: min_absorb1)
  also have "\<dots> = of_nat (sum_list (take k ss))" unfolding sum_take_split [OF refl c(3)] ..
  finally show ?thesis using h False by (simp add: hybrid8_block_offset_def Let_def hybrid8_holds_def)
qed (use h in \<open>simp add: hybrid8_block_offset_def hybrid8_holds_def\<close>)

lemma hybrid8_size:
  assumes h: "hybrid8_holds d ix ss" and d: "1 \<le> d" "d \<le> 4" and ss: "length ss mod 8 = 0" "k < length ss"
  shows "hybrid8_block_size d ix k = of_nat (ss ! k)"
proof (cases "k mod 8 = 7")
  case True
  then show ?thesis
    using hybrid8_offset [OF h d ss(1), of k] hybrid8_offset [OF h d ss(1), of "Suc k"] ss(2) of_nat_diff_word [of k ss]
    by (simp add: hybrid8_block_size_def)
next
  case False
  let ?c = "k div 8"
  have n: "8 * (length ss div 8) = length ss" using ss(1) by auto
  then have c: "?c < length ss div 8" "k mod 8 \<le> 6" using False ss(2) by auto
  then have "chunk8 d (h8_data ix (2 * ?c)) (h8_data ix (2 * ?c + 1)) (sum_list (take (8 * ?c) ss)) (take 7 (drop (8 * ?c) ss))"
    using h by (simp add: hybrid8_holds_def)
  from size8_value [OF this c(2)] have "size8 d (h8_data ix (2 * ?c)) (h8_data ix (2 * ?c + 1)) (k mod 8) = of_nat (ss ! (8 * ?c + k mod 8))"
    using c(2) ss(2) by simp
  then show ?thesis using False by (simp add: hybrid8_block_size_def Let_def)
qed

interpretation hybrid8: block_index "hybrid8_set d" "hybrid8_flush d" "hybrid8_block_offset d" "hybrid8_block_size d" hybrid8_range h8_blocks
  "hybrid8_holds d" "hybrid8_complete d" "hybrid8_fits d" for d
proof
  fix ix :: hybrid8 and ss ts :: "nat list" and s b k :: nat and w :: uint64
  show "hybrid8_holds d ix ss \<Longrightarrow> length ss < h8_blocks ix \<Longrightarrow> hybrid8_fits d (ss @ [s]) \<Longrightarrow>
      \<exists>ix'. hybrid8_set d ix (length ss) (of_nat s) = Inr ix' \<and> hybrid8_holds d ix' (ss @ [s]) \<and> h8_blocks ix' = h8_blocks ix"
    by (rule hybrid8_push) simp_all
  show "hybrid8_holds d ix ss \<Longrightarrow> b \<noteq> length ss \<Longrightarrow> hybrid8_set d ix b w = Inl Not_sequential"
    by (simp add: hybrid8_holds_def hybrid8_set_def)
  show "hybrid8_fits d (ss @ ts) \<Longrightarrow> hybrid8_fits d ss" by (simp add: hybrid8_fits_def)
  show "hybrid8_holds d ix ss \<Longrightarrow> length ss = h8_blocks ix \<Longrightarrow> hybrid8_fits d ss \<Longrightarrow> \<exists>ix'. hybrid8_flush d ix = Inr ix' \<and> hybrid8_complete d ix' ss \<and> h8_blocks ix' = h8_blocks ix"
    unfolding hybrid8_complete_def by (frule (1) hybrid8_flush_holds) (elim exE conjE, intro exI conjI)
  show "hybrid8_complete d ix ss \<Longrightarrow> length ss = h8_blocks ix \<Longrightarrow> hybrid8_range ix = of_nat (sum_list ss)"
    by (auto simp: hybrid8_complete_def hybrid8_holds_def hybrid8_range_def sum_list_replicate)
  show "hybrid8_complete d ix ss \<Longrightarrow> hybrid8_fits d ss \<Longrightarrow> k \<le> length ss \<Longrightarrow> hybrid8_block_offset d ix k = of_nat (sum_list (take k ss))"
    by (auto simp: hybrid8_complete_def hybrid8_fits_def dest!: hybrid8_offset [where k = k])
  show "hybrid8_complete d ix ss \<Longrightarrow> hybrid8_fits d ss \<Longrightarrow> k < length ss \<Longrightarrow> hybrid8_block_size d ix k = of_nat (ss ! k)"
    by (auto simp: hybrid8_complete_def hybrid8_fits_def nth_append dest!: hybrid8_size [where k = k])
qed

section \<open>Any index\<close>

text \<open>The index class is a template parameter of the block store. What memory holds after its allocation is an argument.\<close>

datatype index = Implicit implicit | Verbatim verbatim | Hybrid4 hybrid4 | Hybrid8 nat hybrid8

record index_memory =
  fresh_words :: "nat \<Rightarrow> uint64"
  fresh_chunks :: "nat \<Rightarrow> chunk4"

primrec index_blocks :: "index \<Rightarrow> nat" where
  "index_blocks (Implicit ix) = im_blocks ix"
| "index_blocks (Verbatim ix) = vb_blocks ix"
| "index_blocks (Hybrid4 ix) = h4_blocks ix"
| "index_blocks (Hybrid8 d ix) = h8_blocks ix"

primrec index_resize :: "index_memory \<Rightarrow> index \<Rightarrow> nat \<Rightarrow> index" where
  "index_resize m (Implicit ix) n = Implicit (implicit_resize ix n)"
| "index_resize m (Verbatim ix) n = Verbatim (verbatim_resize (fresh_words m) ix n)"
| "index_resize m (Hybrid4 ix) n = Hybrid4 (hybrid4_resize (fresh_chunks m) ix n)"
| "index_resize m (Hybrid8 d ix) n = Hybrid8 d (hybrid8_resize (fresh_words m) ix n)"

primrec index_clear :: "index \<Rightarrow> index" where
  "index_clear (Implicit ix) = Implicit ix"
| "index_clear (Verbatim ix) = Verbatim (verbatim_clear ix)"
| "index_clear (Hybrid4 ix) = Hybrid4 (hybrid4_clear ix)"
| "index_clear (Hybrid8 d ix) = Hybrid8 d (hybrid8_clear ix)"

primrec index_flush :: "index \<Rightarrow> index_error + index" where
  "index_flush (Implicit ix) = Inr (Implicit ix)"
| "index_flush (Verbatim ix) = Inr (Verbatim ix)"
| "index_flush (Hybrid4 ix) = map_sum id Hybrid4 (hybrid4_flush ix)"
| "index_flush (Hybrid8 d ix) = map_sum id (Hybrid8 d) (hybrid8_flush d ix)"

primrec index_set :: "index \<Rightarrow> nat \<Rightarrow> uint64 \<Rightarrow> index_error + index" where
  "index_set (Implicit ix) b s = Inr (Implicit ix)"
| "index_set (Verbatim ix) b s = map_sum id Verbatim (verbatim_set ix b s)"
| "index_set (Hybrid4 ix) b s = map_sum id Hybrid4 (hybrid4_set ix b s)"
| "index_set (Hybrid8 d ix) b s = map_sum id (Hybrid8 d) (hybrid8_set d ix b s)"

primrec index_set_all :: "index \<Rightarrow> uint64 \<Rightarrow> index_error + index" where
  "index_set_all (Implicit ix) s = Inr (Implicit (implicit_set_all ix s))"
| "index_set_all (Verbatim ix) s = map_sum id Verbatim (verbatim_set_all ix s)"
| "index_set_all (Hybrid4 ix) s = map_sum id Hybrid4 (hybrid4_set_all ix s)"
| "index_set_all (Hybrid8 d ix) s = map_sum id (Hybrid8 d) (hybrid8_set_all d ix s)"

primrec index_block_offset :: "index \<Rightarrow> nat \<Rightarrow> uint64" where
  "index_block_offset (Implicit ix) b = implicit_block_offset ix b"
| "index_block_offset (Verbatim ix) b = verbatim_block_offset ix b"
| "index_block_offset (Hybrid4 ix) b = hybrid4_block_offset ix b"
| "index_block_offset (Hybrid8 d ix) b = hybrid8_block_offset d ix b"

primrec index_block_size :: "index \<Rightarrow> nat \<Rightarrow> uint64" where
  "index_block_size (Implicit ix) b = implicit_block_size ix b"
| "index_block_size (Verbatim ix) b = verbatim_block_size ix b"
| "index_block_size (Hybrid4 ix) b = hybrid4_block_size ix b"
| "index_block_size (Hybrid8 d ix) b = hybrid8_block_size d ix b"

primrec index_range :: "index \<Rightarrow> uint64" where
  "index_range (Implicit ix) = implicit_range ix"
| "index_range (Verbatim ix) = verbatim_range ix"
| "index_range (Hybrid4 ix) = hybrid4_range ix"
| "index_range (Hybrid8 d ix) = hybrid8_range ix"

primrec index_has_variable_rate :: "index \<Rightarrow> bool" where
  "index_has_variable_rate (Implicit ix) = False"
| "index_has_variable_rate (Verbatim ix) = True"
| "index_has_variable_rate (Hybrid4 ix) = True"
| "index_has_variable_rate (Hybrid8 d ix) = True"

text \<open>The range of sizes and offsets an index supports, and the sizes it holds.\<close>

primrec index_fits :: "index \<Rightarrow> nat list \<Rightarrow> bool" where
  "index_fits (Implicit ix) ss = True"
| "index_fits (Verbatim ix) ss = True"
| "index_fits (Hybrid4 ix) ss = hybrid4_fits ss"
| "index_fits (Hybrid8 d ix) ss = hybrid8_fits d ss"

primrec index_holds :: "index \<Rightarrow> nat list \<Rightarrow> bool" where
  "index_holds (Implicit ix) ss = False"
| "index_holds (Verbatim ix) ss = verbatim_holds ix ss"
| "index_holds (Hybrid4 ix) ss = hybrid4_holds ix ss"
| "index_holds (Hybrid8 d ix) ss = hybrid8_holds d ix ss"

lemma build_index_map:
  assumes "\<And>ix b s. f (c ix) b s = map_sum id c (g ix b s)"
  shows "build_index f (c ix) b ss = map_sum id c (build_index g ix b ss)"
  by (induction ss arbitrary: ix b) (simp_all add: assms split: sum.split)

lemmas build_index_any = build_index_map [of index_set Verbatim verbatim_set] build_index_map [of index_set Hybrid4 hybrid4_set]
  build_index_map [of index_set "Hybrid8 d" "hybrid8_set d" for d]

lemma verbatim_empty: "verbatim_holds (verbatim_resize m ix n) []"
  by (simp add: verbatim_holds_def verbatim_resize_def verbatim_clear_def)

lemma hybrid4_empty: "hybrid4_holds (hybrid4_clear ix) []"
  by (simp add: hybrid4_holds_def hybrid4_clear_def)

lemma hybrid8_empty: "hybrid8_holds d (hybrid8_clear ix) []"
  by (simp add: hybrid8_holds_def hybrid8_clear_def)

section \<open>Fixed rate\<close>

lemma verbatim_fill_build: "verbatim_fill ix (of_nat s) = build_index verbatim_set ix (vb_block ix) (replicate (vb_blocks ix - vb_block ix) s)"
proof (induction "vb_blocks ix - vb_block ix" arbitrary: ix)
  case (Suc n)
  then have e: "vb_block ix < vb_blocks ix" "vb_blocks ix - vb_block ix = Suc n" "vb_blocks ix - Suc (vb_block ix) = n" by simp_all
  show ?case
  proof (cases "verbatim_set ix (vb_block ix) (of_nat s)")
    case (Inl a)
    then show ?thesis unfolding e(2) by (simp add: verbatim_fill.simps [of ix] e(1))
  next
    case (Inr ix')
    then have "vb_block ix' = Suc (vb_block ix)" "vb_blocks ix' = vb_blocks ix" using verbatim_set_block by force+
    then show ?thesis using Suc.hyps(1) [of ix'] Inr e(3) unfolding e(2) by (simp add: verbatim_fill.simps [of ix] e(1))
  qed
qed (simp add: verbatim_fill.simps)

lemma hybrid4_fill_build: "hybrid4_fill ix (of_nat s) = build_index hybrid4_set ix (h4_block ix) (replicate (h4_blocks ix - h4_block ix) s)"
proof (induction "h4_blocks ix - h4_block ix" arbitrary: ix)
  case (Suc n)
  then have e: "h4_block ix < h4_blocks ix" "h4_blocks ix - h4_block ix = Suc n" "h4_blocks ix - Suc (h4_block ix) = n" by simp_all
  show ?case
  proof (cases "hybrid4_set ix (h4_block ix) (of_nat s)")
    case (Inl a)
    then show ?thesis unfolding e(2) by (simp add: hybrid4_fill.simps [of ix] e(1))
  next
    case (Inr ix')
    then have "h4_block ix' = Suc (h4_block ix)" "h4_blocks ix' = h4_blocks ix" using hybrid4_set_block by force+
    then show ?thesis using Suc.hyps(1) [of ix'] Inr e(3) unfolding e(2) by (simp add: hybrid4_fill.simps [of ix] e(1))
  qed
qed (simp add: hybrid4_fill.simps)

lemma hybrid8_fill_build: "hybrid8_fill d ix (of_nat s) = build_index (hybrid8_set d) ix (h8_block ix) (replicate (h8_blocks ix - h8_block ix) s)"
proof (induction "h8_blocks ix - h8_block ix" arbitrary: ix)
  case (Suc n)
  then have e: "h8_block ix < h8_blocks ix" "h8_blocks ix - h8_block ix = Suc n" "h8_blocks ix - Suc (h8_block ix) = n" by simp_all
  show ?case
  proof (cases "hybrid8_set d ix (h8_block ix) (of_nat s)")
    case (Inl a)
    then show ?thesis unfolding e(2) by (simp add: hybrid8_fill.simps [of d ix] e(1))
  next
    case (Inr ix')
    then have "h8_block ix' = Suc (h8_block ix)" "h8_blocks ix' = h8_blocks ix" using hybrid8_set_block by force+
    then show ?thesis using Suc.hyps(1) [of ix'] Inr e(3) unfolding e(2) by (simp add: hybrid8_fill.simps [of d ix] e(1))
  qed
qed (simp add: hybrid8_fill.simps)

lemma verbatim_fixed:
  assumes "verbatim_holds (verbatim_clear ix) []"
  shows "\<exists>ix'. verbatim_set_all ix (of_nat s) = Inr ix' \<and> verbatim_range ix' = of_nat (vb_blocks ix * s) \<and>
    (\<forall>k < vb_blocks ix. verbatim_block_offset ix' k = of_nat (k * s))"
proof -
  let ?c = "verbatim_clear ix"
  have c: "vb_block ?c = 0" "vb_blocks ?c = vb_blocks ix" by (simp_all add: verbatim_clear_def)
  obtain ix1 where b: "verbatim_fill ?c (of_nat s) = Inr ix1" "verbatim_holds ix1 (replicate (vb_blocks ix) s)" "vb_blocks ix1 = vb_blocks ix"
    using verbatim.build [OF assms, of "replicate (vb_blocks ix) s"] c by (auto simp: verbatim_fill_build)
  then show ?thesis
    by (auto simp: verbatim_set_all_def verbatim_holds_def verbatim_block_offset_def verbatim_range_def verbatim_clear_def sum_list_replicate)
qed

lemma hybrid4_fixed:
  assumes "hybrid4_fits (replicate (h4_blocks ix) s)"
  shows "\<exists>ix'. hybrid4_set_all ix (of_nat s) = Inr ix' \<and> hybrid4_range ix' = 0 \<and> (\<forall>k < h4_blocks ix. hybrid4_block_offset ix' k = of_nat (k * s))"
proof -
  let ?c = "hybrid4_clear ix" and ?ss = "replicate (h4_blocks ix) s"
  have c: "h4_block ?c = 0" "h4_blocks ?c = h4_blocks ix" by (simp_all add: hybrid4_clear_def)
  obtain ix1 where b: "hybrid4_fill ?c (of_nat s) = Inr ix1" "hybrid4_holds ix1 ?ss"
    using hybrid4.build [OF hybrid4_empty [of ix], of ?ss] c assms by (auto simp: hybrid4_fill_build)
  obtain ix2 m where f: "hybrid4_flush ix1 = Inr ix2" "hybrid4_holds ix2 (?ss @ replicate m 0)" "length (?ss @ replicate m 0) mod 4 = 0"
    using hybrid4_flush_holds [OF b(2) assms] by (elim exE conjE)
  have "hybrid4_block_offset (hybrid4_clear ix2) k = of_nat (k * s)" if "k < h4_blocks ix" for k
  proof (cases "k = 0")
    case False
    have "k \<noteq> length (?ss @ replicate m 0)" using that by simp
    then have "hybrid4_block_offset (hybrid4_clear ix2) k = hybrid4_block_offset ix2 k"
      using False f(2) by (simp add: hybrid4_block_offset_def hybrid4_clear_def hybrid4_holds_def)
    also have "\<dots> = of_nat (k * s)" using hybrid4_offset [OF f(2,3), of k] that by (simp add: sum_list_replicate)
    finally show ?thesis .
  qed (simp add: hybrid4_block_offset_def hybrid4_clear_def)
  then show ?thesis using b f by (simp add: hybrid4_set_all_def hybrid4_range_def hybrid4_clear_def)
qed

lemma hybrid8_fixed:
  assumes "hybrid8_fits d (replicate (h8_blocks ix) s)"
  shows "\<exists>ix'. hybrid8_set_all d ix (of_nat s) = Inr ix' \<and> hybrid8_range ix' = 0 \<and> (\<forall>k < h8_blocks ix. hybrid8_block_offset d ix' k = of_nat (k * s))"
proof -
  let ?c = "hybrid8_clear ix" and ?ss = "replicate (h8_blocks ix) s"
  have c: "h8_block ?c = 0" "h8_blocks ?c = h8_blocks ix" by (simp_all add: hybrid8_clear_def)
  have d: "1 \<le> d" "d \<le> 4" using assms by (simp_all add: hybrid8_fits_def)
  obtain ix1 where b: "hybrid8_fill d ?c (of_nat s) = Inr ix1" "hybrid8_holds d ix1 ?ss"
    using hybrid8.build [OF hybrid8_empty [of d ix], of ?ss] c assms by (auto simp: hybrid8_fill_build)
  obtain ix2 m where f: "hybrid8_flush d ix1 = Inr ix2" "hybrid8_holds d ix2 (?ss @ replicate m 0)" "length (?ss @ replicate m 0) mod 8 = 0"
    using hybrid8_flush_holds [OF b(2) assms] by (elim exE conjE)
  have "hybrid8_block_offset d (hybrid8_clear ix2) k = of_nat (k * s)" if "k < h8_blocks ix" for k
  proof (cases "k = 0")
    case False
    have "k \<noteq> length (?ss @ replicate m 0)" using that by simp
    then have "hybrid8_block_offset d (hybrid8_clear ix2) k = hybrid8_block_offset d ix2 k"
      using False f(2) by (simp add: hybrid8_block_offset_def hybrid8_clear_def hybrid8_holds_def)
    also have "\<dots> = of_nat (k * s)" using hybrid8_offset [OF f(2) d f(3), of k] that by (simp add: sum_list_replicate)
    finally show ?thesis .
  qed (simp add: hybrid8_block_offset_def hybrid8_clear_def)
  then show ?thesis using b f by (simp add: hybrid8_set_all_def hybrid8_range_def hybrid8_clear_def)
qed

section \<open>Properties\<close>

text \<open>C7: a variable-rate index, whichever of the three representations it has, returns for every block the offset that is the
  sum of the sizes of all blocks before it, and the size that was recorded for it, and spans the sum of all sizes, when the
  sizes of all blocks were recorded in order and the index was flushed. The compact representations give the exact result as
  long as sizes and offsets are in their range: 44-bit offsets for hybrid4, \<open>86 - 14 * d\<close> bits for hybrid8 in \<open>d\<close>
  dimensions.\<close>

theorem index_variable_rate:
  assumes v: "index_has_variable_rate ix" and n: "length ss = n" and f: "index_fits ix ss"
  shows "\<exists>ix1 ix2. build_index index_set (index_resize m ix n) 0 ss = Inr ix1 \<and> index_flush ix1 = Inr ix2
    \<and> index_range ix2 = of_nat (sum_list ss)
    \<and> (\<forall>k \<le> n. index_block_offset ix2 k = of_nat (sum_list (take k ss)))
    \<and> (\<forall>k < n. index_block_size ix2 k = of_nat (ss ! k))"
proof (cases ix)
  case (Implicit i)
  then show ?thesis using v by simp
next
  case (Verbatim i)
  have "vb_blocks (verbatim_resize (fresh_words m) i n) = n" by (simp add: verbatim_resize_def verbatim_clear_def)
  then show ?thesis using verbatim.indexed [OF verbatim_empty [of "fresh_words m" i n], of ss] n
    by (auto simp: Verbatim build_index_any)
next
  case (Hybrid4 i)
  have "h4_blocks (hybrid4_resize (fresh_chunks m) i n) = n" by (simp add: hybrid4_resize_def hybrid4_clear_def)
  then show ?thesis using hybrid4.indexed [OF hybrid4_empty [of "i\<lparr>h4_blocks := n, h4_data := fresh_chunks m\<rparr>", folded hybrid4_resize_def], of ss] n f
    by (auto simp: Hybrid4 build_index_any)
next
  case (Hybrid8 d i)
  have "h8_blocks (hybrid8_resize (fresh_words m) i n) = n" by (simp add: hybrid8_resize_def hybrid8_clear_def)
  then show ?thesis using hybrid8.indexed [OF hybrid8_empty [of d "i\<lparr>h8_blocks := n, h8_data := fresh_words m\<rparr>", folded hybrid8_resize_def], of ss] n f
    by (auto simp: Hybrid8 build_index_any)
qed

theorem index_variable_rate_witness:
  "\<exists>ix1 ix2. build_index index_set (index_resize \<lparr>fresh_words = \<lambda>_. 7, fresh_chunks = \<lambda>_. \<lparr>c4_hi = 7, c4_lo = \<lambda>_. 7\<rparr>\<rparr> (Hybrid8 2 (hybrid8_new (\<lambda>_. 7) (\<lambda>_. 7) 0)) 10) 0
       [300, 1023, 0, 5, 999, 17, 256, 255, 1000, 3] = Inr ix1 \<and> index_flush ix1 = Inr ix2
    \<and> index_block_offset ix2 9 = 3855 \<and> index_block_size ix2 8 = 1000"
proof -
  let ?ss = "[300, 1023, 0, 5, 999, 17, 256, 255, 1000, 3] :: nat list" and ?i = "Hybrid8 2 (hybrid8_new (\<lambda>_. 7) (\<lambda>_. 7) 0)"
  have "index_fits ?i ?ss" by (simp add: hybrid8_fits_def hbits_def)
  then show ?thesis
    using index_variable_rate [where ix = ?i and ss = ?ss and n = 10 and m = "\<lparr>fresh_words = \<lambda>_. 7, fresh_chunks = \<lambda>_. \<lparr>c4_hi = 7, c4_lo = \<lambda>_. 7\<rparr>\<rparr>"]
    by (fastforce simp: numeral_eq_Suc)
qed

text \<open>When fixed-rate mode is selected, every index places block \<open>k\<close> at \<open>k\<close> times the size of a block, whatever the index
  held before. The range it then reports is the size of all blocks only for the implicit and the verbatim index: the hybrid
  indices are reset after their construction and report zero, although the documentation gives the range as the size of the
  compressed data.\<close>

theorem index_fixed_rate:
  assumes f: "index_fits ix (replicate (index_blocks ix) s)" and m: "index_holds (index_clear ix) [] \<or> \<not> index_has_variable_rate ix"
  shows "\<exists>ix'. index_set_all ix (of_nat s) = Inr ix'
    \<and> (\<forall>k < index_blocks ix. index_block_offset ix' k = of_nat (k * s))
    \<and> index_range ix' = (case ix of Implicit _ \<Rightarrow> of_nat (index_blocks ix * s) | Verbatim _ \<Rightarrow> of_nat (index_blocks ix * s) | _ \<Rightarrow> 0)"
proof (cases ix)
  case (Implicit i)
  then show ?thesis by (simp add: implicit_set_all_def implicit_block_offset_def implicit_range_def)
next
  case (Verbatim i)
  then show ?thesis using verbatim_fixed [of i s] m by auto
next
  case (Hybrid4 i)
  then show ?thesis using hybrid4_fixed [of i s] f by auto
next
  case (Hybrid8 d i)
  then show ?thesis using hybrid8_fixed [of d i s] f by auto
qed

theorem index_fixed_rate_witness:
  "\<exists>ix'. index_set_all (Hybrid4 (hybrid4_new (\<lambda>_. \<lparr>c4_hi = 7, c4_lo = \<lambda>_. 7\<rparr>) (\<lambda>_. 7) 5)) 1000 = Inr ix'
    \<and> index_block_offset ix' 4 = 4000 \<and> index_range ix' = 0"
proof -
  let ?i = "hybrid4_new (\<lambda>_. \<lparr>c4_hi = 7, c4_lo = \<lambda>_. 7\<rparr>) (\<lambda>_. 7) 5"
  have b: "h4_blocks ?i = 5" by (simp add: hybrid4_new_def hybrid4_resize_def hybrid4_clear_def)
  have "index_fits (Hybrid4 ?i) (replicate (index_blocks (Hybrid4 ?i)) 1000)"
    by (simp add: b hybrid4_fits_def ZFP_MAX_BITS_def sum_list_replicate)
  then show ?thesis using index_fixed_rate [where ix = "Hybrid4 ?i" and s = 1000] hybrid4_empty [of ?i] b by fastforce
qed

text \<open>C36: an index rejects what it cannot represent. Sizes that are not recorded in order are an error for all variable-rate
  indices. hybrid4 records the largest block of every type, lossy or reversible, in every number of dimensions, as long as the offset of its
  chunk fits in 44 bits; hybrid8 rejects the largest block of \<open>double\<close> values in every case.\<close>

theorem index_rejects:
  assumes "index_holds ix ss" "1 \<le> d" "d \<le> 4"
  shows "(b \<noteq> length ss \<longrightarrow> index_set ix b s = Inl Not_sequential)
    \<and> (h4_block j < h4_blocks j \<and> h4_ptr j < 2 ^ 44 \<longrightarrow>
        (\<exists>j'. hybrid4_set j (h4_block j) (of_nat (zfp_block_maximum_size ty d reversible)) = Inr j' \<and> h4_block j' = h4_block j + 1))
    \<and> (h8_block i < h8_blocks i \<longrightarrow>
        hybrid8_set d i (h8_block i) (of_nat (zfp_block_maximum_size zfp_type_double d reversible)) = Inl Block_too_large)"
proof (intro conjI impI)
  assume "b \<noteq> length ss"
  then show "index_set ix b s = Inl Not_sequential"
    using assms(1) by (cases ix) (simp_all add: verbatim.set_order hybrid4.set_order hybrid8.set_order)
next
  have d: "d = 1 \<or> d = 2 \<or> d = 3 \<or> d = 4" using assms(2,3) by auto
  then have m: "\<not> of_nat ZFP_MAX_BITS < (of_nat (zfp_block_maximum_size ty d reversible) :: uint64)"
    by (cases ty; cases reversible) (auto simp: zfp_block_maximum_size_def type_code_def ZFP_MAX_BITS_def)
  show "\<exists>j'. hybrid4_set j (h4_block j) (of_nat (zfp_block_maximum_size ty d reversible)) = Inr j' \<and> h4_block j' = h4_block j + 1"
    if j: "h4_block j < h4_blocks j \<and> h4_ptr j < 2 ^ 44"
  proof -
    have "unat (h4_ptr j) < 2 ^ 44" using j by (simp add: word_less_nat_alt)
    then have "unat (h4_ptr j div 2 ^ 44) = 0" by (simp add: unat_div)
    then have "drop_bit (32 + h4_shift) (h4_ptr j) = 0" by (simp add: h4_shift_def drop_bit_eq_div unat_eq_0)
    then show ?thesis using j m by (simp add: hybrid4_set_def Let_def split: prod.splits)
  qed
  assume b: "h8_block i < h8_blocks i"
  show "hybrid8_set d i (h8_block i) (of_nat (zfp_block_maximum_size zfp_type_double d reversible)) = Inl Block_too_large"
    using d b by (cases reversible) (auto simp: hybrid8_set_def zfp_block_maximum_size_def type_code_def hbits_def lbits_def)
qed

theorem index_rejects_witness:
  "index_set (Verbatim (verbatim_new (\<lambda>_. 7) 5)) 1 64 = Inl Not_sequential
    \<and> (\<exists>j. hybrid4_set (hybrid4_new (\<lambda>_. \<lparr>c4_hi = 7, c4_lo = \<lambda>_. 7\<rparr>) (\<lambda>_. 7) 5) 0 278 = Inr j)
    \<and> hybrid8_set 1 (hybrid8_new (\<lambda>_. 7) (\<lambda>_. 7) 5) 0 278 = Inl Block_too_large"
proof -
  have h: "index_holds (Verbatim (verbatim_new (\<lambda>_. 7) 5)) []" using verbatim_empty by (simp add: verbatim_new_def)
  have j: "h4_block (hybrid4_new fresh buf 5) = 0" "h4_blocks (hybrid4_new fresh buf 5) = 5" "h4_ptr (hybrid4_new fresh buf 5) = 0" for fresh buf
    by (simp_all add: hybrid4_new_def hybrid4_resize_def hybrid4_clear_def)
  have "zfp_block_maximum_size zfp_type_double 1 True = 278" by (simp add: zfp_block_maximum_size_def type_code_def)
  moreover have "h8_block (hybrid8_new (\<lambda>_. 7) (\<lambda>_. 7) 5) = 0" "h8_blocks (hybrid8_new (\<lambda>_. 7) (\<lambda>_. 7) 5) = 5"
    by (simp_all add: hybrid8_new_def hybrid8_resize_def hybrid8_clear_def)
  ultimately show ?thesis
    using index_rejects [OF h, where d = 1 and b = 1 and s = 64 and reversible = True and i = "hybrid8_new (\<lambda>_. 7) (\<lambda>_. 7) 5" and ty = zfp_type_double
        and j = "hybrid4_new (\<lambda>_. \<lparr>c4_hi = 7, c4_lo = \<lambda>_. 7\<rparr>) (\<lambda>_. 7) 5"] by (auto simp: j)
qed

end
