(* ===== verification/Locality.thy ===== *)
theory Locality
  imports Index_Props
begin

text \<open>
  The decoder is a function of the bits it reads, on any stream, whatever the bits are: no decoder of the library looks beyond
  the bits it consumes, and with a bounded number of bits per block (\<open>bounded_params\<close>) it consumes at least \<open>minbits\<close> and at
  most \<open>maxbits\<close> of them. Compressed arrays rest on this, as they decode blocks from the middle of a stream that
  changes elsewhere.
\<close>

section \<open>Functions of the bits they read\<close>

text \<open>
  \<open>reader mk Q f\<close>: from any stream, \<open>f\<close> reads some number \<open>n\<close> of bits and returns a result \<open>r\<close> that depends on these bits only
  and satisfies \<open>Q r n\<close>; \<open>mk\<close> puts the result and the stream together.
\<close>

definition reader :: "('r \<Rightarrow> ('w::len) bitstream \<Rightarrow> 'x) \<Rightarrow> ('r \<Rightarrow> nat \<Rightarrow> bool) \<Rightarrow> ('w bitstream \<Rightarrow> 'x) \<Rightarrow> bool" where
  "reader mk Q f \<longleftrightarrow> (\<forall>s. source_ok s \<longrightarrow> (\<exists>r n. f s = mk r (stream_skip s n) \<and> Q r n \<and>
     (\<forall>t. source_ok t \<longrightarrow> (\<forall>i < n. stream_peek t i = stream_peek s i) \<longrightarrow> f t = mk r (stream_skip t n))))"

lemma readerI:
  assumes "\<And>s. source_ok s \<Longrightarrow> \<exists>r n. f s = mk r (stream_skip s n) \<and> Q r n \<and>
     (\<forall>t. source_ok t \<longrightarrow> (\<forall>i < n. stream_peek t i = stream_peek s i) \<longrightarrow> f t = mk r (stream_skip t n))"
  shows "reader mk Q f"
  using assms by (simp add: reader_def)

lemma readerE:
  assumes "reader mk Q f" "source_ok s"
  obtains r n where "f s = mk r (stream_skip s n)" "Q r n"
    "\<And>t. source_ok t \<Longrightarrow> (\<And>i. i < n \<Longrightarrow> stream_peek t i = stream_peek s i) \<Longrightarrow> f t = mk r (stream_skip t n)"
  using assms unfolding reader_def by blast

lemma stream_peek_skip: "source_ok s \<Longrightarrow> stream_peek (stream_skip s n) i = stream_peek s (n + i)"
  by (simp add: stream_peek_def stream_skip_def add.assoc)

lemma stream_skip_none: "source_ok s \<Longrightarrow> stream_skip s 0 = s"
  by (simp add: stream_skip_def source_ok_def rseek_self)

lemma reader_return:
  assumes "\<And>s. source_ok s \<Longrightarrow> f s = mk r s" "Q r 0"
  shows "reader mk Q f"
  by (rule readerI, intro exI [of _ r] exI [of _ 0]) (use assms in \<open>simp add: stream_skip_none\<close>)

lemma reader_bind:
  fixes f :: "('w::len) bitstream \<Rightarrow> 'x"
  assumes f: "reader mk P f" and h: "\<And>s r s'. source_ok s \<Longrightarrow> f s = mk r s' \<Longrightarrow> h s = g r s'"
    and g: "\<And>r n. P r n \<Longrightarrow> reader mk' (\<lambda>q m. Q q (n + m)) (g r)"
  shows "reader mk' Q h"
proof (rule readerI)
  fix s :: "'w bitstream" assume s: "source_ok s"
  obtain r n where r: "f s = mk r (stream_skip s n)" "P r n"
    "\<And>t. source_ok t \<Longrightarrow> (\<And>i. i < n \<Longrightarrow> stream_peek t i = stream_peek s i) \<Longrightarrow> f t = mk r (stream_skip t n)"
    using readerE [OF f s] by metis
  obtain q m where q: "g r (stream_skip s n) = mk' q (stream_skip (stream_skip s n) m)" "Q q (n + m)"
    "\<And>t. source_ok t \<Longrightarrow> (\<And>i. i < m \<Longrightarrow> stream_peek t i = stream_peek (stream_skip s n) i) \<Longrightarrow> g r t = mk' q (stream_skip t m)"
    using readerE [OF g [OF r(2)] source_ok_skip [OF s]] by metis
  have "h t = mk' q (stream_skip t (n + m))" if t: "source_ok t" "\<forall>i < n + m. stream_peek t i = stream_peek s i" for t
  proof -
    have "f t = mk r (stream_skip t n)" using t by (intro r(3)) auto
    moreover have "g r (stream_skip t n) = mk' q (stream_skip (stream_skip t n) m)"
      using t s by (intro q(3)) (simp_all add: stream_peek_skip)
    ultimately show ?thesis using h t(1) by simp
  qed
  then show "\<exists>r n. h s = mk' r (stream_skip s n) \<and> Q r n \<and>
      (\<forall>t. source_ok t \<longrightarrow> (\<forall>i < n. stream_peek t i = stream_peek s i) \<longrightarrow> h t = mk' r (stream_skip t n))"
    using q(2) s by blast
qed

lemma reader_weaken: "reader mk P f \<Longrightarrow> (\<And>r n. P r n \<Longrightarrow> Q r n) \<Longrightarrow> reader mk Q f"
  unfolding reader_def by blast

text \<open>A function applied to the result.\<close>

lemma reader_map:
  assumes "reader mk P f" "\<And>s r s'. source_ok s \<Longrightarrow> f s = mk r s' \<Longrightarrow> h s = mk' (p r) s'" "\<And>r n. P r n \<Longrightarrow> Q (p r) n"
  shows "reader mk' Q h"
  by (rule reader_bind [OF assms(1), where g = "\<lambda>r. mk' (p r)"]) (use assms in \<open>auto intro!: reader_return\<close>)

lemma reader_const:
  fixes f :: "('w::len) bitstream \<Rightarrow> 'x"
  assumes f: "\<And>s. source_ok s \<Longrightarrow> f s = mk (v s) (stream_skip s n)"
    and v: "\<And>s t. source_ok s \<Longrightarrow> source_ok t \<Longrightarrow> \<forall>i < n. stream_peek t i = stream_peek s i \<Longrightarrow> v t = v s"
    and q: "\<And>r. Q r n"
  shows "reader mk Q f"
proof (rule readerI)
  fix s :: "'w bitstream" assume s: "source_ok s"
  show "\<exists>r n. f s = mk r (stream_skip s n) \<and> Q r n \<and>
      (\<forall>t. source_ok t \<longrightarrow> (\<forall>i < n. stream_peek t i = stream_peek s i) \<longrightarrow> f t = mk r (stream_skip t n))"
  proof (intro exI [of _ "v s"] exI [of _ n] conjI allI impI)
    show "f s = mk (v s) (stream_skip s n)" by (rule f [OF s])
    show "Q (v s) n" by (rule q)
    fix t :: "'w bitstream" assume t: "source_ok t" "\<forall>i < n. stream_peek t i = stream_peek s i"
    show "f t = mk (v s) (stream_skip t n)" using f [OF t(1)] v [OF s t] by simp
  qed
qed

lemma reader_read_bit: "reader Pair (\<lambda>b n. n = 1) (stream_read_bit :: ('w::len) bitstream \<Rightarrow> _)"
proof (rule reader_const)
  show "stream_read_bit s = (stream_peek s 0, stream_skip s 1)" if "source_ok s" for s :: "'w bitstream"
    using that by (simp add: source_ok_def stream_peek_def stream_skip_def stream_read_bit_eq)
qed simp_all

lemma reader_read_bits:
  assumes n: "n \<le> 64"
  shows "reader Pair (\<lambda>v k. k = n) (\<lambda>s :: ('w::len) bitstream. stream_read_bits s n)"
proof (rule reader_const)
  have e: "snd (stream_read_bits s n) = stream_skip s n" "bit (fst (stream_read_bits s n)) i \<longleftrightarrow> i < n \<and> stream_peek s i"
    if "source_ok s" for s :: "'w bitstream" and i
    using that n stream_read_bits_eq [of s n] by (simp_all add: source_ok_def stream_skip_def stream_peek_def)
  show "stream_read_bits s n = (fst (stream_read_bits s n), stream_skip s n)" if "source_ok s" for s :: "'w bitstream"
    using e(1) [OF that] by (metis prod.collapse)
  show "fst (stream_read_bits t n) = fst (stream_read_bits s n)"
    if "source_ok s" "source_ok t" "\<forall>i < n. stream_peek t i = stream_peek s i" for s t :: "'w bitstream"
    by (rule bit_word_eqI) (use that e(2) in auto)
qed simp

lemma reader_skip: "Q r n \<Longrightarrow> reader mk Q (\<lambda>s. mk r (stream_skip s n))"
  by (rule readerI) blast

section \<open>The decoder is a function of the bits it reads\<close>

definition with2 :: "'a \<times> 'b \<Rightarrow> 's \<Rightarrow> 'a \<times> 'b \<times> 's" where
  "with2 r s = (fst r, snd r, s)"

definition with3 :: "'a \<times> 'b \<times> 'c \<Rightarrow> 's \<Rightarrow> 'a \<times> 'b \<times> 'c \<times> 's" where
  "with3 r s = (fst r, fst (snd r), snd (snd r), s)"

lemma with_simps [simp]: "with2 (a, b) s = (a, b, s)" "with3 (a, b, c) s = (a, b, c, s)"
  "with2 r s = (x, y, s') \<longleftrightarrow> r = (x, y) \<and> s = s'" "with3 q s = (x, y, z, s') \<longleftrightarrow> q = (x, y, z) \<and> s = s'"
  by (auto simp: with2_def with3_def)

lemma reader_decode_scan:
  "n < len \<Longrightarrow> reader with2 (\<lambda>(nb', n') c. n' < len \<and> n \<le> n' \<and> nb = nb' + c) (decode_scan len nb n :: ('w::len) bitstream \<Rightarrow> _)"
proof (induction nb arbitrary: n)
  case 0
  show ?case by (rule reader_return [of _ _ "(0, n)"]) (use 0 in \<open>simp_all add: decode_scan.simps\<close>)
next
  case (Suc nb)
  show ?case
  proof (cases "n < len - 1")
    case False
    show ?thesis by (rule reader_return [of _ _ "(Suc nb, n)"]) (use False Suc.prems in \<open>simp_all add: decode_scan.simps\<close>)
  next
    case True
    show ?thesis
    proof (rule reader_bind [OF reader_read_bit, where g = "\<lambda>b s. if b then (nb, n, s) else decode_scan len nb (n + 1) s"])
      fix b and c :: nat assume c: "c = 1"
      show "reader with2 (\<lambda>q m. (case q of (nb', n') \<Rightarrow> \<lambda>c. n' < len \<and> n \<le> n' \<and> Suc nb = nb' + c) (c + m))
          (\<lambda>s :: 'w bitstream. if b then (nb, n, s) else decode_scan len nb (n + 1) s)"
      proof (cases b)
        case True
        show ?thesis by (rule reader_return [of _ _ "(nb, n)"]) (use True c Suc.prems in simp_all)
      next
        case False
        have "n + 1 < len" using \<open>n < len - 1\<close> by simp
        from reader_weaken [OF Suc.IH [OF this]] show ?thesis using False c by auto
      qed
    qed (use True in \<open>simp add: decode_scan.simps Let_def\<close>)
  qed
qed

lemma scan_reader:
  assumes "n < len" "\<And>nb' n' c. n' < len \<Longrightarrow> n \<le> n' \<Longrightarrow> nb = nb' + c \<Longrightarrow> reader mk (\<lambda>q m. Q q (c + m)) (\<lambda>s. g nb' n' s)"
  shows "reader mk Q (\<lambda>s :: ('w::len) bitstream. let (nb', n', s) = decode_scan len nb n s in g nb' n' s)"
  by (rule reader_bind [OF reader_decode_scan [OF assms(1)], where g = "\<lambda>(nb', n'). g nb' n'"]) (use assms(2) in auto)

lemma bit_reader:
  assumes "\<And>b. reader mk (\<lambda>q m. Q q (1 + m)) (g b)"
  shows "reader mk Q (\<lambda>s :: ('w::len) bitstream. let (b, s) = stream_read_bit s in g b s)"
  by (rule reader_bind [OF reader_read_bit, where g = g]) (use assms in auto)

lemma bits_reader:
  assumes "n \<le> 64" "\<And>v. reader mk (\<lambda>q m. Q q (n + m)) (g v)"
  shows "reader mk Q (\<lambda>s :: ('w::len) bitstream. let (v, s) = stream_read_bits s n in g v s)"
  by (rule reader_bind [OF reader_read_bits [OF assms(1)], where g = g]) (use assms in auto)

text \<open>The loops over the groups of a bit plane, for any state \<open>x\<close> with an invariant \<open>P\<close>.\<close>

lemma groups_reader:
  fixes F :: "nat \<Rightarrow> nat \<Rightarrow> 'x \<Rightarrow> ('w::len) bitstream \<Rightarrow> nat \<times> nat \<times> 'x \<times> 'w bitstream"
  assumes F: "\<And>nb n x s. F nb n x s = (if nb \<noteq> 0 \<and> n < len
      then let nb = nb - 1; (b, s) = stream_read_bit s in if b
        then let (nb, n, s) = decode_scan len nb n s in F nb (n + 1) (step n x) s
        else (nb, n, x, s)
      else (nb, n, x, s))"
    and step: "\<And>n x. P x \<Longrightarrow> P (step n x)"
  shows "n \<le> len \<Longrightarrow> P x \<Longrightarrow> reader with3 (\<lambda>(nb', n', x') c. n' \<le> len \<and> nb = nb' + c \<and> P x') (F nb n x)"
proof (induction nb arbitrary: n x rule: less_induct)
  case (less nb)
  let ?Q = "\<lambda>(nb', n', x') c. n' \<le> len \<and> nb = nb' + c \<and> P x'"
  show ?case
  proof (cases "nb \<noteq> 0 \<and> n < len")
    case False
    show ?thesis by (rule reader_return [of _ _ "(nb, n, x)"]) (use False less.prems in \<open>auto simp: F\<close>)
  next
    case True
    have e: "F nb n x = (\<lambda>s. let (b, s) = stream_read_bit s in if b
        then let (nb, n, s) = decode_scan len (nb - 1) n s in F nb (n + 1) (step n x) s
        else (nb - 1, n, x, s))"
      using True by (intro ext, subst F) (simp add: Let_def del: One_nat_def)
    show ?thesis unfolding e
    proof (rule bit_reader)
      fix b
      show "reader with3 (\<lambda>q m. ?Q q (1 + m)) (\<lambda>s. if b
          then let (nb, n, s) = decode_scan len (nb - 1) n s in F nb (n + 1) (step n x) s else (nb - 1, n, x, s))"
      proof (cases b)
        case False
        show ?thesis by (rule reader_return [of _ _ "(nb - 1, n, x)"]) (use False True less.prems in auto)
      next
        case b: True
        have "reader with3 (\<lambda>q m. ?Q q (1 + m)) (\<lambda>s. let (nb, n, s) = decode_scan len (nb - 1) n s in F nb (n + 1) (step n x) s)"
        proof (rule scan_reader)
          fix nb' n' c assume c: "n' < len" "nb - 1 = nb' + c"
          show "reader with3 (\<lambda>q m. ?Q q (1 + (c + m))) (F nb' (n' + 1) (step n' x))"
            by (rule reader_weaken [OF less.IH]) (use c True less.prems step in auto)
        qed (use True in simp)
        then show ?thesis using b by simp
      qed
    qed
  qed
qed

lemma reader_decode_few_groups:
  assumes "n \<le> len"
  shows "reader with3 (\<lambda>(nb', n', x') c. n' \<le> len \<and> nb = nb' + c) (decode_few_groups len nb n x :: ('w::len) bitstream \<Rightarrow> _)"
proof (rule reader_weaken [OF groups_reader [where step = "\<lambda>n x. x + push_bit n 1" and P = "\<lambda>_. True" and len = len]])
  show "decode_few_groups len nb n x s = (if nb \<noteq> 0 \<and> n < len
      then let nb = nb - 1; (b, s) = stream_read_bit s in if b
        then let (nb, n, s) = decode_scan len nb n s in decode_few_groups len nb (n + 1) (x + push_bit n 1) s
        else (nb, n, x, s)
      else (nb, n, x, s))" for nb n x and s :: "'w bitstream"
    by (subst decode_few_groups.simps) (simp only: Let_def)
qed (use assms in auto)

lemma reader_decode_many_groups:
  assumes "n \<le> len"
  shows "reader with3 (\<lambda>(nb', n', d') c. n' \<le> len \<and> nb = nb' + c \<and> length d' = length d)
    (decode_many_groups k len nb n d :: ('w::len) bitstream \<Rightarrow> _)"
proof (rule groups_reader [where step = "\<lambda>n d. d[n := d ! n + push_bit k 1]"])
  show "decode_many_groups k len nb n d s = (if nb \<noteq> 0 \<and> n < len
      then let nb = nb - 1; (b, s) = stream_read_bit s in if b
        then let (nb, n, s) = decode_scan len nb n s in decode_many_groups k len nb (n + 1) (d[n := d ! n + push_bit k 1]) s
        else (nb, n, d, s)
      else (nb, n, d, s))" for nb n d and s :: "'w bitstream"
    by (subst decode_many_groups.simps) (simp only: Let_def)
qed (use assms in auto)

text \<open>The loops over the bit planes.\<close>

lemma planes_reader:
  fixes G :: "nat \<Rightarrow> nat \<Rightarrow> nat \<Rightarrow> 'u list \<Rightarrow> ('w::len) bitstream \<Rightarrow> nat \<times> 'u list \<times> 'w bitstream"
  assumes G: "\<And>n nb d s. G 0 n nb d s = (nb, d, s)"
    "\<And>k n nb d s. G (Suc k) n nb d s = (if nb \<noteq> 0 \<and> kmin < Suc k then let (nb, n, d, s) = pl k n nb d s in G k n nb d s else (nb, d, s))"
    and pl: "\<And>k n nb d. n \<le> len \<Longrightarrow> reader with3 (\<lambda>(nb', n', d') c. n' \<le> len \<and> nb = nb' + c \<and> length d' = length d) (pl k n nb d)"
  shows "n \<le> len \<Longrightarrow> reader with2 (\<lambda>(nb', d') c. nb = nb' + c \<and> length d' = length d) (G k n nb d)"
proof (induction k arbitrary: n nb d)
  case 0
  show ?case by (rule reader_return [of _ _ "(nb, d)"]) (use G in simp_all)
next
  case (Suc k)
  show ?case
  proof (cases "nb \<noteq> 0 \<and> kmin < Suc k")
    case False
    show ?thesis by (rule reader_return [of _ _ "(nb, d)"]) (use False in \<open>auto simp: G\<close>)
  next
    case True
    show ?thesis
    proof (rule reader_bind [OF pl [where k = k and nb = nb and d = d, OF Suc.prems], where g = "\<lambda>(nb, n, d). G k n nb d"])
      fix r :: "nat \<times> nat \<times> 'u list" and m assume "(\<lambda>(nb', n', d') c. n' \<le> len \<and> nb = nb' + c \<and> length d' = length d) r m"
      then show "reader with2 (\<lambda>q m'. (case q of (nb', d') \<Rightarrow> \<lambda>c. nb = nb' + c \<and> length d' = length d) (m + m')) (case r of (nb, n, d) \<Rightarrow> G k n nb d)"
        by (auto split: prod.splits intro!: reader_weaken [OF Suc.IH])
    qed (use True in \<open>auto simp: G\<close>)
  qed
qed

lemma length_deposit_plane [simp]: "length (deposit_plane d i x k) = length d"
  by (induction d i x k rule: deposit_plane.induct) (subst deposit_plane.simps, simp)

lemma reader_decode_few_plane:
  assumes "n \<le> len" "len \<le> 64"
  shows "reader with3 (\<lambda>(nb', n', d') c. n' \<le> len \<and> nb = nb' + c \<and> length d' = length d)
    (decode_few_plane len k n nb d :: ('w::len) bitstream \<Rightarrow> _)"
proof -
  have e: "decode_few_plane len k n nb d = (\<lambda>s :: 'w bitstream. let (x, s) = stream_read_bits s (min n nb)
      in (let (nb, n, x, s) = decode_few_groups len (nb - min n nb) n x s in (nb, n, deposit_plane d 0 x k, s)))"
    by (simp add: decode_few_plane_def Let_def fun_eq_iff)
  show ?thesis unfolding e
  proof (rule bits_reader)
    fix x
    show "reader with3 (\<lambda>q m. (case q of (nb', n', d') \<Rightarrow> \<lambda>c. n' \<le> len \<and> nb = nb' + c \<and> length d' = length d) (min n nb + m))
        (\<lambda>s :: 'w bitstream. let (nb, n, x, s) = decode_few_groups len (nb - min n nb) n x s in (nb, n, deposit_plane d 0 x k, s))"
      by (rule reader_map [OF reader_decode_few_groups [OF assms(1), of "nb - min n nb" x], where p = "\<lambda>(nb, n, x). (nb, n, deposit_plane d 0 x k)"]) auto
  qed (use assms in simp)
qed

lemma reader_read_plane_bits:
  "reader Pair (\<lambda>d' c. c = m \<and> length d' = length d) (\<lambda>s :: ('w::len) bitstream. read_plane_bits k m (d, s))"
proof (induction m)
  case 0
  show ?case by (rule reader_return [of _ _ d]) (simp_all add: read_plane_bits_def)
next
  case (Suc m)
  show ?case
  proof (rule reader_bind [OF Suc, where g = "\<lambda>d s. let (b, s) = stream_read_bit s in (if b then d[m := d ! m + push_bit k 1] else d, s)"])
    fix r :: "'a word list" and c assume r: "c = m \<and> length r = length d"
    show "reader Pair (\<lambda>d' m'. c + m' = Suc m \<and> length d' = length d)
        (\<lambda>s :: 'w bitstream. let (b, s) = stream_read_bit s in (if b then r[m := r ! m + push_bit k 1] else r, s))"
    proof (rule bit_reader)
      show "reader Pair (\<lambda>d' m'. c + (1 + m') = Suc m \<and> length d' = length d)
          (\<lambda>s :: 'w bitstream. (if b then r[m := r ! m + push_bit k 1] else r, s))" for b
        by (rule reader_return [of _ _ "if b then r[m := r ! m + push_bit k 1] else r"]) (use r in auto)
    qed
  qed (simp add: read_plane_bits_def)
qed

lemma reader_decode_many_plane:
  assumes "n \<le> len"
  shows "reader with3 (\<lambda>(nb', n', d') c. n' \<le> len \<and> nb = nb' + c \<and> length d' = length d)
    (decode_many_plane len k n nb d :: ('w::len) bitstream \<Rightarrow> _)"
proof (rule reader_bind [OF reader_read_plane_bits [of "min n nb" d k], where g = "\<lambda>d. decode_many_groups k len (nb - min n nb) n d"])
  fix r :: "'a word list" and m assume "m = min n nb \<and> length r = length d"
  then show "reader with3 (\<lambda>q m'. (case q of (nb', n', d') \<Rightarrow> \<lambda>c. n' \<le> len \<and> nb = nb' + c \<and> length d' = length d) (m + m'))
      (decode_many_groups k len (nb - min n nb) n r :: 'w bitstream \<Rightarrow> _)"
    by (auto intro!: reader_weaken [OF reader_decode_many_groups [OF assms]])
qed (simp add: decode_many_plane_def Let_def)

lemma reader_decode_few_ints:
  assumes "len \<le> 64"
  shows "reader with2 (\<lambda>(n, d) c. n = c \<and> c \<le> mb \<and> length d = len) (\<lambda>s :: ('w::len) bitstream. decode_few_ints s mb mp len)"
proof (rule reader_map [where p = "\<lambda>(nb, d). (mb - nb, d)"])
  show "reader with2 (\<lambda>(nb', d') c. mb = nb' + c \<and> length d' = length (replicate len (0 :: 'a word)))
      (decode_few_planes len (kmin_of TYPE('a) mp) (LENGTH('a)) 0 mb (replicate len (0 :: 'a word)) :: 'w bitstream \<Rightarrow> _)"
    by (rule planes_reader [OF decode_few_planes.simps reader_decode_few_plane]) (use assms in auto)
qed (auto simp: decode_few_ints_def Let_def)

lemma reader_decode_many_ints:
  "reader with2 (\<lambda>(n, d) c. n = c \<and> c \<le> mb \<and> length d = len) (\<lambda>s :: ('w::len) bitstream. decode_many_ints s mb mp len)"
proof (rule reader_map [where p = "\<lambda>(nb, d). (mb - nb, d)"])
  show "reader with2 (\<lambda>(nb', d') c. mb = nb' + c \<and> length d' = length (replicate len (0 :: 'a word)))
      (decode_many_planes len (kmin_of TYPE('a) mp) (LENGTH('a)) 0 mb (replicate len (0 :: 'a word)) :: 'w bitstream \<Rightarrow> _)"
    by (rule planes_reader [OF decode_many_planes.simps reader_decode_many_plane]) auto
qed (auto simp: decode_many_ints_def Let_def)

section \<open>The variants without a limit on the number of bits\<close>

text \<open>The number of bits they read is bounded: in each plane at most one bit per value, one more for each group that is found.\<close>

lemma reader_decode_prec_scan:
  "n < len \<Longrightarrow> reader Pair (\<lambda>n' c. n' < len \<and> n \<le> n' \<and> c \<le> n' - n + of_bool (n' < len - 1))
    (decode_prec_scan len n :: ('w::len) bitstream \<Rightarrow> _)"
proof (induction "len - n" arbitrary: n)
  case 0
  then show ?case by simp
next
  case (Suc t)
  show ?case
  proof (cases "n < len - 1")
    case False
    show ?thesis by (rule reader_return [of _ _ n]) (use False Suc.prems in \<open>simp_all add: decode_prec_scan.simps\<close>)
  next
    case True
    have e: "decode_prec_scan len n = (\<lambda>s :: 'w bitstream. let (b, s) = stream_read_bit s in if \<not> b then decode_prec_scan len (n + 1) s else (n, s))"
      using True by (intro ext, subst decode_prec_scan.simps) simp
    show ?thesis unfolding e
    proof (rule bit_reader)
      fix b
      show "reader Pair (\<lambda>n' c. n' < len \<and> n \<le> n' \<and> 1 + c \<le> n' - n + of_bool (n' < len - 1))
          (\<lambda>s :: 'w bitstream. if \<not> b then decode_prec_scan len (n + 1) s else (n, s))"
      proof (cases b)
        case b: True
        show ?thesis by (rule reader_return [of _ _ n]) (use b True in auto)
      next
        case False
        have "t = len - (n + 1)" "n + 1 < len" using Suc.hyps(2) True by auto
        have "reader Pair (\<lambda>n' c. n' < len \<and> n \<le> n' \<and> 1 + c \<le> n' - n + of_bool (n' < len - 1))
            (decode_prec_scan len (n + 1) :: 'w bitstream \<Rightarrow> _)"
          by (rule reader_weaken [OF Suc.hyps(1) [OF \<open>t = len - (n + 1)\<close> \<open>n + 1 < len\<close>]]) auto
        then show ?thesis using False by simp
      qed
    qed
  qed
qed

lemma prec_scan_reader:
  assumes "n < len" "\<And>n' c. n' < len \<Longrightarrow> n \<le> n' \<Longrightarrow> c \<le> n' - n + of_bool (n' < len - 1) \<Longrightarrow> reader mk (\<lambda>q m. Q q (c + m)) (\<lambda>s. g n' s)"
  shows "reader mk Q (\<lambda>s :: ('w::len) bitstream. let (n', s) = decode_prec_scan len n s in g n' s)"
  by (rule reader_bind [OF reader_decode_prec_scan [OF assms(1)], where g = g]) (use assms(2) in auto)

lemma prec_groups_reader:
  fixes F :: "nat \<Rightarrow> 'x \<Rightarrow> ('w::len) bitstream \<Rightarrow> nat \<times> 'x \<times> 'w bitstream"
  assumes F: "\<And>n x s. F n x s = (if n < len
      then let (b, s) = stream_read_bit s in if b
        then let (n, s) = decode_prec_scan len n s in F (n + 1) (step n x) s
        else (n, x, s)
      else (n, x, s))"
    and step: "\<And>n x. P x \<Longrightarrow> P (step n x)"
  shows "n \<le> len \<Longrightarrow> P x \<Longrightarrow> reader with2 (\<lambda>(n', x') c. n \<le> n' \<and> n' \<le> len \<and> P x' \<and>
    c \<le> n' - n + (min n' (len - 1) - min n (len - 1)) + of_bool (n' < len)) (F n x)"
proof (induction "len - n" arbitrary: n x rule: less_induct)
  case less
  let ?Q = "\<lambda>(n', x') c. n \<le> n' \<and> n' \<le> len \<and> P x' \<and> c \<le> n' - n + (min n' (len - 1) - min n (len - 1)) + of_bool (n' < len)"
  show ?case
  proof (cases "n < len")
    case False
    show ?thesis by (rule reader_return [of _ _ "(n, x)"]) (use False less.prems in \<open>auto simp: F\<close>)
  next
    case True
    have e: "F n x = (\<lambda>s. let (b, s) = stream_read_bit s in if b
        then let (n, s) = decode_prec_scan len n s in F (n + 1) (step n x) s
        else (n, x, s))"
      using True by (intro ext, subst F) simp
    show ?thesis unfolding e
    proof (rule bit_reader)
      fix b
      show "reader with2 (\<lambda>q m. ?Q q (1 + m)) (\<lambda>s. if b
          then let (n, s) = decode_prec_scan len n s in F (n + 1) (step n x) s else (n, x, s))"
      proof (cases b)
        case False
        show ?thesis by (rule reader_return [of _ _ "(n, x)"]) (use False True less.prems in auto)
      next
        case b: True
        have "reader with2 (\<lambda>q m. ?Q q (1 + m)) (\<lambda>s. let (n, s) = decode_prec_scan len n s in F (n + 1) (step n x) s)"
        proof (rule prec_scan_reader)
          fix n' c assume c: "n' < len" "n \<le> n'" "c \<le> n' - n + of_bool (n' < len - 1)"
          show "reader with2 (\<lambda>q m. ?Q q (1 + (c + m))) (F (n' + 1) (step n' x))"
          proof (rule reader_weaken [OF less.hyps])
            fix r :: "nat \<times> 'x" and m
            assume "(\<lambda>(n2, x') c. n' + 1 \<le> n2 \<and> n2 \<le> len \<and> P x' \<and> c \<le> n2 - (n' + 1) + (min n2 (len - 1) - min (n' + 1) (len - 1)) + of_bool (n2 < len)) r m"
            then show "?Q r (1 + (c + m))" using c by (cases r) (auto split: if_splits simp: min_def of_bool_def)
          qed (use c less.prems step in auto)
        qed (use True in simp)
        then show ?thesis using b by simp
      qed
    qed
  qed
qed


lemma reader_decode_few_prec_groups:
  assumes "n \<le> len"
  shows "reader with2 (\<lambda>(n', x') c. n \<le> n' \<and> n' \<le> len \<and> c \<le> n' - n + (min n' (len - 1) - min n (len - 1)) + of_bool (n' < len))
    (decode_few_prec_groups len n x :: ('w::len) bitstream \<Rightarrow> _)"
proof (rule reader_weaken [OF prec_groups_reader [where step = "\<lambda>n x. x + push_bit n 1" and P = "\<lambda>_. True" and len = len]])
  show "decode_few_prec_groups len n x s = (if n < len
      then let (b, s) = stream_read_bit s in if b
        then let (n, s) = decode_prec_scan len n s in decode_few_prec_groups len (n + 1) (x + push_bit n 1) s
        else (n, x, s)
      else (n, x, s))" for n x and s :: "'w bitstream"
    by (subst decode_few_prec_groups.simps) (simp only: Let_def)
qed (use assms in auto)

lemma reader_decode_many_prec_groups:
  assumes "n \<le> len"
  shows "reader with2 (\<lambda>(n', d') c. n \<le> n' \<and> n' \<le> len \<and> length d' = length d \<and>
      c \<le> n' - n + (min n' (len - 1) - min n (len - 1)) + of_bool (n' < len))
    (decode_many_prec_groups k len n d :: ('w::len) bitstream \<Rightarrow> _)"
proof (rule prec_groups_reader [where step = "\<lambda>n d. d[n := d ! n + push_bit k 1]"])
  show "decode_many_prec_groups k len n d s = (if n < len
      then let (b, s) = stream_read_bit s in if b
        then let (n, s) = decode_prec_scan len n s in decode_many_prec_groups k len (n + 1) (d[n := d ! n + push_bit k 1]) s
        else (n, d, s)
      else (n, d, s))" for n d and s :: "'w bitstream"
    by (subst decode_many_prec_groups.simps) (simp only: Let_def)
qed (use assms in auto)

text \<open>A bit plane: the bits of the values that are already significant, then the groups.\<close>

lemma reader_decode_few_prec_plane:
  assumes "n \<le> len" "len \<le> 64"
  shows "reader with2 (\<lambda>(n', d') c. n \<le> n' \<and> n' \<le> len \<and> length d' = length d \<and> c \<le> len + (min n' (len - 1) - min n (len - 1)))
    (decode_few_prec_plane len k n d :: ('w::len) bitstream \<Rightarrow> _)"
proof -
  have e: "decode_few_prec_plane len k n d = (\<lambda>s :: 'w bitstream. let (x, s) = stream_read_bits s n
      in (let (n, x, s) = decode_few_prec_groups len n x s in (n, deposit_plane d 0 x k, s)))"
    by (simp add: decode_few_prec_plane_def Let_def fun_eq_iff)
  show ?thesis unfolding e
  proof (rule bits_reader)
    fix x
    show "reader with2 (\<lambda>q m. (case q of (n', d') \<Rightarrow> \<lambda>c. n \<le> n' \<and> n' \<le> len \<and> length d' = length d
        \<and> c \<le> len + (min n' (len - 1) - min n (len - 1))) (n + m))
      (\<lambda>s :: 'w bitstream. let (n, x, s) = decode_few_prec_groups len n x s in (n, deposit_plane d 0 x k, s))"
      by (rule reader_map [OF reader_decode_few_prec_groups [OF assms(1), of x], where p = "\<lambda>(n, x). (n, deposit_plane d 0 x k)"])
         (auto simp: of_bool_def split: if_splits)
  qed (use assms in simp)
qed

lemma reader_decode_many_prec_plane:
  assumes "n \<le> len"
  shows "reader with2 (\<lambda>(n', d') c. n \<le> n' \<and> n' \<le> len \<and> length d' = length d \<and> c \<le> len + (min n' (len - 1) - min n (len - 1)))
    (decode_many_prec_plane len k n d :: ('w::len) bitstream \<Rightarrow> _)"
proof (rule reader_bind [OF reader_read_plane_bits [of n d k], where g = "\<lambda>d. decode_many_prec_groups k len n d"])
  fix r :: "'a word list" and m assume "m = n \<and> length r = length d"
  then show "reader with2 (\<lambda>q m'. (case q of (n', d') \<Rightarrow> \<lambda>c. n \<le> n' \<and> n' \<le> len \<and> length d' = length d
      \<and> c \<le> len + (min n' (len - 1) - min n (len - 1))) (m + m'))
      (decode_many_prec_groups k len n r :: 'w bitstream \<Rightarrow> _)"
    by (auto intro!: reader_weaken [OF reader_decode_many_prec_groups [OF assms]] simp: of_bool_def split: if_splits)
qed (simp add: decode_many_prec_plane_def Let_def)

lemma prec_planes_reader:
  fixes G :: "nat \<Rightarrow> nat \<Rightarrow> 'u list \<Rightarrow> ('w::len) bitstream \<Rightarrow> 'u list \<times> 'w bitstream"
  assumes G: "\<And>n d s. G 0 n d s = (d, s)"
    "\<And>k n d s. G (Suc k) n d s = (if kmin < Suc k then let (n, d, s) = pl k n d s in G k n d s else (d, s))"
    and pl: "\<And>k n d. n \<le> len \<Longrightarrow> reader with2 (\<lambda>(n', d') c. n \<le> n' \<and> n' \<le> len \<and> length d' = length d
      \<and> c \<le> len + (min n' (len - 1) - min n (len - 1))) (pl k n d)"
  shows "n \<le> len \<Longrightarrow> reader Pair (\<lambda>d' c. length d' = length d \<and> c \<le> (k - kmin) * len + (len - 1 - min n (len - 1))) (G k n d)"
proof (induction k arbitrary: n d)
  case 0
  show ?case by (rule reader_return [of _ _ d]) (use G in simp_all)
next
  case (Suc k)
  show ?case
  proof (cases "kmin < Suc k")
    case False
    show ?thesis by (rule reader_return [of _ _ d]) (use False in \<open>auto simp: G\<close>)
  next
    case True
    then have k: "(Suc k - kmin) * len = len + (k - kmin) * len" by (simp add: Suc_diff_le)
    show ?thesis
    proof (rule reader_bind [OF pl [where k = k and d = d, OF Suc.prems], where g = "\<lambda>(n, d). G k n d"])
      fix r :: "nat \<times> 'u list" and m
      assume r: "(\<lambda>(n', d') c. n \<le> n' \<and> n' \<le> len \<and> length d' = length d \<and> c \<le> len + (min n' (len - 1) - min n (len - 1))) r m"
      obtain n' d' where p: "r = (n', d')" by (cases r)
      show "reader Pair (\<lambda>q m'. length q = length d \<and> m + m' \<le> (Suc k - kmin) * len + (len - 1 - min n (len - 1))) (case r of (n, d) \<Rightarrow> G k n d)"
        unfolding p prod.case k
        by (rule reader_weaken [OF Suc.IH]) (use r p in \<open>auto simp: min_def split: if_splits\<close>)
    qed (use True in \<open>auto simp: G\<close>)
  qed
qed


section \<open>Blocks\<close>

lemma kmin_planes: "LENGTH('u) - kmin_of TYPE('u::len) mp \<le> mp"
  by (simp add: kmin_of_def Let_def)

lemma planes_within:
  assumes "\<not> with_maxbits mb mp len" "c \<le> (LENGTH('u) - kmin_of TYPE('u::len) mp) * len + (len - 1)" "0 < len"
  shows "c \<le> mb"
proof -
  have "(LENGTH('u) - kmin_of TYPE('u) mp) * len \<le> mp * len" by (rule mult_right_mono [OF kmin_planes]) simp
  moreover have "mp * len + len - 1 \<le> mb" using assms(1) by (simp add: with_maxbits_def add.commute)
  ultimately show ?thesis using assms(2,3) by linarith
qed

lemma reader_tell:
  assumes f: "reader Pair Q f" and h: "\<And>s d s'. f s = (d, s') \<Longrightarrow> h s = (stream_rtell s' - stream_rtell s, d, s')"
    and R: "\<And>d c. Q d c \<Longrightarrow> R (c, d) c"
  shows "reader with2 R (h :: ('w::len) bitstream \<Rightarrow> _)"
proof (rule readerI)
  fix s :: "'w bitstream" assume s: "source_ok s"
  obtain d n where r: "f s = (d, stream_skip s n)" "Q d n"
    "\<And>t. source_ok t \<Longrightarrow> (\<And>i. i < n \<Longrightarrow> stream_peek t i = stream_peek s i) \<Longrightarrow> f t = (d, stream_skip t n)"
    using readerE [OF f s] by metis
  have "h t = with2 (n, d) (stream_skip t n)" if "source_ok t" "\<forall>i < n. stream_peek t i = stream_peek s i" for t
    using h [OF r(3) [of t]] that by (simp add: rtell_skip)
  then show "\<exists>r n. h s = with2 r (stream_skip s n) \<and> R r n \<and>
      (\<forall>t. source_ok t \<longrightarrow> (\<forall>i < n. stream_peek t i = stream_peek s i) \<longrightarrow> h t = with2 r (stream_skip t n))"
    using s R [OF r(2)] by blast
qed

lemma reader_decode_few_ints_prec:
  assumes "0 < len" "len \<le> 64" "\<not> with_maxbits mb mp len"
  shows "reader with2 (\<lambda>(n, d) c. n = c \<and> c \<le> mb \<and> length d = len) (\<lambda>s :: ('w::len) bitstream. decode_few_ints_prec s mp len :: _ \<times> ('u::len) word list \<times> _)"
proof (rule reader_tell)
  show "reader Pair (\<lambda>d' c. length d' = length (replicate len (0 :: 'u word)) \<and>
      c \<le> (LENGTH('u) - kmin_of TYPE('u) mp) * len + (len - 1 - min 0 (len - 1)))
      (decode_few_prec_planes len (kmin_of TYPE('u) mp) (LENGTH('u)) 0 (replicate len (0 :: 'u word)) :: 'w bitstream \<Rightarrow> _)"
    by (rule prec_planes_reader [OF decode_few_prec_planes.simps reader_decode_few_prec_plane]) (use assms in auto)
qed (use planes_within [OF assms(3)] assms(1) in \<open>auto simp: decode_few_ints_prec_def Let_def\<close>)

lemma reader_decode_many_ints_prec:
  assumes "0 < len" "\<not> with_maxbits mb mp len"
  shows "reader with2 (\<lambda>(n, d) c. n = c \<and> c \<le> mb \<and> length d = len) (\<lambda>s :: ('w::len) bitstream. decode_many_ints_prec s mp len :: _ \<times> ('u::len) word list \<times> _)"
proof (rule reader_tell)
  show "reader Pair (\<lambda>d' c. length d' = length (replicate len (0 :: 'u word)) \<and>
      c \<le> (LENGTH('u) - kmin_of TYPE('u) mp) * len + (len - 1 - min 0 (len - 1)))
      (decode_many_prec_planes len (kmin_of TYPE('u) mp) (LENGTH('u)) 0 (replicate len (0 :: 'u word)) :: 'w bitstream \<Rightarrow> _)"
    by (rule prec_planes_reader [OF decode_many_prec_planes.simps reader_decode_many_prec_plane]) (use assms in auto)
qed (use planes_within [OF assms(2)] assms(1) in \<open>auto simp: decode_many_ints_prec_def Let_def\<close>)

lemma reader_decode_ints:
  assumes "0 < len"
  shows "reader with2 (\<lambda>(n, d) c. n = c \<and> c \<le> mb \<and> length d = len) (\<lambda>s :: ('w::len) bitstream. decode_ints s mb mp len)"
  unfolding decode_ints_def
  using assms reader_decode_few_ints [of len mb mp] reader_decode_many_ints [of mb len mp]
    reader_decode_few_ints_prec [of len mb mp] reader_decode_many_ints_prec [of len mb mp]
  by (cases "with_maxbits mb mp len"; cases "len \<le> 64") simp_all

text \<open>Padding up to the least number of bits.\<close>

lemma ints_reader:
  assumes "0 < len" "\<And>nb u c. c \<le> mb \<Longrightarrow> nb = c \<Longrightarrow> length u = len \<Longrightarrow> reader mk (\<lambda>q m. Q q (c + m)) (\<lambda>s. g nb u s)"
  shows "reader mk Q (\<lambda>s :: ('w::len) bitstream. let (nb, u, s) = decode_ints s mb mp len in g nb u s)"
  by (rule reader_bind [OF reader_decode_ints [OF assms(1), of mb mp], where g = "\<lambda>(nb, u). g nb u"]) (use assms(2) in auto)

lemma pad_reader:
  assumes "reader mk (\<lambda>q m. Q q (minb - nb + m)) (g (max nb minb))"
  shows "reader mk Q (\<lambda>s :: ('w::len) bitstream. let (nb, s) = if nb < minb then (minb, stream_skip s (minb - nb)) else (nb, s) in g nb s)"
proof (cases "nb < minb")
  case True
  show ?thesis
    by (rule reader_bind [where P = "\<lambda>r n. r = () \<and> n = minb - nb" and mk = "\<lambda>r s. s" and f = "\<lambda>s. stream_skip s (minb - nb)"
          and g = "\<lambda>_. g (max nb minb)"]) (use assms True in \<open>auto intro: reader_skip simp: max_def\<close>)
next
  case False
  then have "max nb minb = nb" "minb - nb = 0" by simp_all
  then show ?thesis using assms False by simp
qed

lemma reader_decode_block:
  "reader with2 (\<lambda>(nb, b) c. nb = c \<and> minb \<le> c \<and> c \<le> max minb mb \<and> length b = length ib)
    (\<lambda>s :: ('w::len) bitstream. decode_block d s minb mb mp ib)"
  unfolding decode_block_def
proof (rule ints_reader)
  fix nb :: nat and u :: "'a word list" and c assume c: "c \<le> mb" "nb = c" "length u = 4 ^ d"
  show "reader with2 (\<lambda>q m. (case q of (nb, b) \<Rightarrow> \<lambda>c. nb = c \<and> minb \<le> c \<and> c \<le> max minb mb \<and> length b = length ib) (c + m))
      (\<lambda>s :: 'w bitstream. let (nb, s) = if nb < minb then (minb, stream_skip s (minb - nb)) else (nb, s); iblock = inv_order u ib (PERM d) (4 ^ d)
        in (nb, inv_xform d iblock, s))"
    by (rule pad_reader, rule reader_return [of _ _ "(max nb minb, inv_xform d (inv_order u ib (PERM d) (4 ^ d)))"])
       (use c in \<open>auto simp: Let_def\<close>)
qed simp

lemma reader_rev_decode_block:
  assumes mb: "pbits TYPE('i::len) \<le> mb" "mb < 2 ^ 32"
  shows "reader with2 (\<lambda>(nb, b) c. nb = c \<and> minb \<le> c \<and> c \<le> max minb mb \<and> length b = length ib)
    (\<lambda>s :: ('w::len) bitstream. rev_decode_block d s minb mb (ib :: 'i word list))"
proof -
  let ?P = "pbits TYPE('i)"
  have e: "rev_decode_block d s minb mb ib = (let (v, s) = stream_read_bits s ?P in
      let (n, u, s) = decode_ints s (usub mb ?P) (unat v + 1) (4 ^ d) in
      let (nb, s) = if ?P + n < minb then (minb, stream_skip s (minb - (?P + n))) else (?P + n, s)
      in (nb, rev_inv_xform d (inv_order u ib (PERM d) (4 ^ d)), s))" for s :: "'w bitstream"
    by (simp add: rev_decode_block_def Let_def)
  show ?thesis unfolding e
  proof (rule bits_reader, goal_cases)
    case 1
    then show ?case by (simp add: pbits_def)
  next
    case (2 v)
    show ?case
    proof (rule ints_reader)
      fix nb :: nat and u :: "'i word list" and c assume c: "c \<le> usub mb ?P" "nb = c" "length u = 4 ^ d"
      show "reader with2 (\<lambda>q m. (case q of (nb, b) \<Rightarrow> \<lambda>c. nb = c \<and> minb \<le> c \<and> c \<le> max minb mb \<and> length b = length ib) (?P + (c + m)))
          (\<lambda>s :: 'w bitstream. let (nb, s) = if ?P + nb < minb then (minb, stream_skip s (minb - (?P + nb))) else (?P + nb, s)
            in (nb, rev_inv_xform d (inv_order u ib (PERM d) (4 ^ d)), s))"
        by (rule pad_reader, rule reader_return [of _ _ "(max (?P + nb) minb, rev_inv_xform d (inv_order u ib (PERM d) (4 ^ d)))"])
           (use c mb in \<open>auto simp: usub_eq\<close>)
    qed simp
  qed
qed

text \<open>The block functions of the library, on the stream within the compressed stream object.\<close>

definition with_zfp :: "('w::len) zfp_stream \<Rightarrow> nat \<times> 'b \<Rightarrow> 'w bitstream \<Rightarrow> nat \<times> 'b \<times> 'w zfp_stream" where
  "with_zfp z r s = (fst r, snd r, z\<lparr>stream := s\<rparr>)"

lemma with_zfp_simps [simp]: "with_zfp z (a, b) s = (a, b, z\<lparr>stream := s\<rparr>)"
  by (simp add: with_zfp_def)

abbreviation block_reader :: "('w::len) zfp_stream \<Rightarrow> nat \<Rightarrow> ('w bitstream \<Rightarrow> nat \<times> ('i::len) word list \<times> 'w zfp_stream) \<Rightarrow> bool" where
  "block_reader z d \<equiv> reader (with_zfp z) (\<lambda>(nb, b) c. nb = c \<and> minbits z \<le> c \<and> c \<le> maxbits z \<and> length b = 4 ^ d)"

lemma reader_empty_float:
  assumes "1 \<le> maxbits z" "minbits z \<le> maxbits z"
  shows "reader (with_zfp z) (\<lambda>q m. (case q of (nb, b) \<Rightarrow> \<lambda>c. nb = c \<and> minbits z \<le> c \<and> c \<le> maxbits z \<and> length b = 4 ^ d) (1 + m))
    (\<lambda>s :: ('w::len) bitstream. if minbits z > 1 then (minbits z, replicate (4 ^ d) (0 :: ('i::len) word), z\<lparr>stream := stream_skip s (minbits z - 1)\<rparr>)
      else (1, replicate (4 ^ d) 0, z\<lparr>stream := s\<rparr>))"
proof (cases "minbits z > 1")
  case True
  then show ?thesis using assms
    reader_skip [where mk = "with_zfp z" and r = "(minbits z, replicate (4 ^ d) (0 :: 'i word))" and n = "minbits z - 1"
      and Q = "\<lambda>q m. (case q of (nb, b) \<Rightarrow> \<lambda>c. nb = c \<and> minbits z \<le> c \<and> c \<le> maxbits z \<and> length b = 4 ^ d) (1 + m)"] by simp
next
  case False
  then show ?thesis using assms by (intro reader_return [of _ _ "(1, replicate (4 ^ d) 0)"]) auto
qed

lemma length_casts [simp]: "length (inv_cast b n e) = n" "length (rev_inv_cast b n e) = n" "length (rev_inv_reinterpret b n) = n"
  by (simp_all add: inv_cast_def rev_inv_cast_def rev_inv_reinterpret_def)

lemma part_bounds:
  assumes "minb - min nb minb \<le> n" "n \<le> max (minb - min nb minb) (usub mb nb)" "nb \<le> mb" "minb \<le> mb" "mb < 2 ^ 32"
  shows "minb \<le> nb + n \<and> nb + n \<le> mb"
  using assms usub_eq [OF assms(3,5)] by linarith

lemma reader_decode_block_float:
  fixes z :: "('w::len) zfp_stream"
  assumes "1 + ebits TYPE('i::len) \<le> maxbits z" "minbits z \<le> maxbits z" "maxbits z < 2 ^ 32"
  shows "block_reader z d (\<lambda>s. decode_block_float d (z\<lparr>stream := s\<rparr>) :: _ \<times> 'i word list \<times> _)"
proof -
  let ?E = "ebits TYPE('i)" and ?Q = "\<lambda>(nb, b) c. nb = c \<and> minbits z \<le> c \<and> c \<le> maxbits z \<and> length b = 4 ^ d"
  let ?nb = "1 + ?E" and ?mp = "\<lambda>v :: uint64. precision (uint v - EBIAS TYPE('i)) (maxprec z) (minexp z) d"
  have e: "decode_block_float d (z\<lparr>stream := s\<rparr>) = (let (b, s) = stream_read_bit s in if b
      then let (v, s) = stream_read_bits s ?E in
        (let (n, iblock, s) = decode_block d s (minbits z - min ?nb (minbits z)) (usub (maxbits z) ?nb) (?mp v) (replicate (4 ^ d) 0)
         in (?nb + n, inv_cast iblock (4 ^ d) (uint v - EBIAS TYPE('i)) :: 'i word list, z\<lparr>stream := s\<rparr>))
      else if minbits z > 1 then (minbits z, replicate (4 ^ d) 0, z\<lparr>stream := stream_skip s (minbits z - 1)\<rparr>)
      else (1, replicate (4 ^ d) 0, z\<lparr>stream := s\<rparr>))" for s
    by (auto simp: decode_block_float_def Let_def split: prod.split)
  show ?thesis unfolding e
  proof (rule bit_reader)
    fix b
    show "reader (with_zfp z) (\<lambda>q m. ?Q q (1 + m)) (\<lambda>s. if b
      then let (v, s) = stream_read_bits s ?E in
        (let (n, iblock, s) = decode_block d s (minbits z - min ?nb (minbits z)) (usub (maxbits z) ?nb) (?mp v) (replicate (4 ^ d) 0)
         in (?nb + n, inv_cast iblock (4 ^ d) (uint v - EBIAS TYPE('i)) :: 'i word list, z\<lparr>stream := s\<rparr>))
      else if minbits z > 1 then (minbits z, replicate (4 ^ d) 0, z\<lparr>stream := stream_skip s (minbits z - 1)\<rparr>)
      else (1, replicate (4 ^ d) 0, z\<lparr>stream := s\<rparr>))"
    proof (cases b)
      case False
      then show ?thesis using reader_empty_float [of z d] assms by simp
    next
      case True
      have "reader (with_zfp z) (\<lambda>q m. ?Q q (1 + m)) (\<lambda>s. let (v, s) = stream_read_bits s ?E in
        (let (n, iblock, s) = decode_block d s (minbits z - min ?nb (minbits z)) (usub (maxbits z) ?nb) (?mp v) (replicate (4 ^ d) 0)
         in (?nb + n, inv_cast iblock (4 ^ d) (uint v - EBIAS TYPE('i)) :: 'i word list, z\<lparr>stream := s\<rparr>)))"
      proof (rule bits_reader)
        fix v
        show "reader (with_zfp z) (\<lambda>q m. ?Q q (1 + (?E + m))) (\<lambda>s.
           let (n, iblock, s) = decode_block d s (minbits z - min ?nb (minbits z)) (usub (maxbits z) ?nb) (?mp v) (replicate (4 ^ d) 0)
           in (?nb + n, inv_cast iblock (4 ^ d) (uint v - EBIAS TYPE('i)) :: 'i word list, z\<lparr>stream := s\<rparr>))"
          by (rule reader_map [OF reader_decode_block [where d = d and mp = "?mp v" and ib = "replicate (4 ^ d) 0"], where p = "\<lambda>(n, b). (?nb + n, inv_cast b (4 ^ d) (uint v - EBIAS TYPE('i)))"])
             (use part_bounds [of "minbits z" ?nb _ "maxbits z"] assms in auto)
      qed (simp add: ebits_def)
      then show ?thesis using True by simp
    qed
  qed
qed

lemma reader_rev_decode_block_float:
  fixes z :: "('w::len) zfp_stream"
  assumes "2 + ebits TYPE('i::len) + pbits TYPE('i) \<le> maxbits z" "minbits z \<le> maxbits z" "maxbits z < 2 ^ 32"
  shows "block_reader z d (\<lambda>s. rev_decode_block_float d (z\<lparr>stream := s\<rparr>) :: _ \<times> 'i word list \<times> _)"
proof -
  let ?E = "ebits TYPE('i)" and ?Q = "\<lambda>(nb, b) c. nb = c \<and> minbits z \<le> c \<and> c \<le> maxbits z \<and> length b = 4 ^ d"
  let ?block = "\<lambda>nb s. rev_decode_block d s (minbits z - min nb (minbits z)) (usub (maxbits z) nb) (replicate (4 ^ d) 0) :: _ \<times> 'i word list \<times> _"
  have u: "pbits TYPE('i) \<le> usub (maxbits z) nb" "usub (maxbits z) nb < 2 ^ 32" if "nb \<le> 2 + ?E" for nb
    using that assms by (simp_all add: usub_eq)
  have part: "reader (with_zfp z) (\<lambda>q m. ?Q q (nb + m)) (\<lambda>s. let (n, iblock, s) = ?block nb s in (nb + n, f iblock :: 'i word list, z\<lparr>stream := s\<rparr>))"
    if "nb \<le> 2 + ?E" "\<And>b. length (f b) = 4 ^ d" for nb f
    by (rule reader_map [OF reader_rev_decode_block [OF u [OF that(1)], where d = d and ib = "replicate (4 ^ d) 0"], where p = "\<lambda>(n, b). (nb + n, f b)"])
       (use part_bounds [of "minbits z" nb _ "maxbits z"] assms that in auto)
  have e: "rev_decode_block_float d (z\<lparr>stream := s\<rparr>) = (let (b, s) = stream_read_bit s in if b
      then let (b, s) = stream_read_bit s in if b
        then let (n, iblock, s) = ?block 2 s in (2 + n, rev_inv_reinterpret iblock (4 ^ d), z\<lparr>stream := s\<rparr>)
        else let (v, s) = stream_read_bits s ?E in
          (let (n, iblock, s) = ?block (2 + ?E) s in (2 + ?E + n, rev_inv_cast iblock (4 ^ d) (uint v - EBIAS TYPE('i)), z\<lparr>stream := s\<rparr>))
      else if minbits z > 1 then (minbits z, replicate (4 ^ d) 0, z\<lparr>stream := stream_skip s (minbits z - 1)\<rparr>)
      else (1, replicate (4 ^ d) 0, z\<lparr>stream := s\<rparr>))" for s
    by (auto simp: rev_decode_block_float_def Let_def numeral_2_eq_2 split: prod.split)
  show ?thesis unfolding e
  proof (rule bit_reader, goal_cases)
    case (1 b)
    show ?case
    proof (cases b)
      case False
      then show ?thesis using reader_empty_float [of z d] assms by simp
    next
      case True
      have "reader (with_zfp z) (\<lambda>q m. ?Q q (1 + m)) (\<lambda>s. let (b, s) = stream_read_bit s in if b
        then let (n, iblock, s) = ?block 2 s in (2 + n, rev_inv_reinterpret iblock (4 ^ d), z\<lparr>stream := s\<rparr>)
        else let (v, s) = stream_read_bits s ?E in
          (let (n, iblock, s) = ?block (2 + ?E) s in (2 + ?E + n, rev_inv_cast iblock (4 ^ d) (uint v - EBIAS TYPE('i)), z\<lparr>stream := s\<rparr>)))"
      proof (rule bit_reader, goal_cases)
        case (1 b)
        have "reader (with_zfp z) (\<lambda>q m. ?Q q (1 + (1 + m))) (\<lambda>s. let (v, s) = stream_read_bits s ?E in
          (let (n, iblock, s) = ?block (2 + ?E) s in (2 + ?E + n, rev_inv_cast iblock (4 ^ d) (uint v - EBIAS TYPE('i)), z\<lparr>stream := s\<rparr>)))"
        proof (rule bits_reader, goal_cases)
          case (2 v)
          have eq: "1 + (1 + (?E + m)) = 2 + ?E + m" for m by simp
          show ?case unfolding eq by (rule part) simp_all
        qed (simp add: ebits_def)
        moreover have "1 + (1 + m) = 2 + m" for m :: nat by simp
        moreover have "reader (with_zfp z) (\<lambda>q m. ?Q q (2 + m)) (\<lambda>s. let (n, iblock, s) = ?block 2 s in (2 + n, rev_inv_reinterpret iblock (4 ^ d), z\<lparr>stream := s\<rparr>))"
          by (rule part) simp_all
        ultimately show ?case by (cases b) simp_all
      qed
      then show ?thesis using True by simp
    qed
  qed
qed

lemma reader_zfp_decode_block_int:
  fixes z :: "('w::len) zfp_stream" and b0 :: "('i::len) word list"
  assumes "pbits TYPE('i) \<le> maxbits z" "minbits z \<le> maxbits z" "maxbits z < 2 ^ 32" "length b0 = 4 ^ d"
  shows "block_reader z d (\<lambda>s. zfp_decode_block_int d (z\<lparr>stream := s\<rparr>) b0)"
proof (cases "REVERSIBLE z")
  case True
  show ?thesis
    by (rule reader_map [OF reader_rev_decode_block [OF assms(1,3), of "minbits z" b0 d], where p = "\<lambda>r. r"])
       (use assms True in \<open>auto simp: zfp_decode_block_int_def REVERSIBLE_def\<close>)
next
  case False
  show ?thesis
    by (rule reader_map [OF reader_decode_block [of "minbits z" "maxbits z" b0 d "maxprec z"], where p = "\<lambda>r. r"])
       (use assms False in \<open>auto simp: zfp_decode_block_int_def REVERSIBLE_def\<close>)
qed

text \<open>Parameters with which a decoder reads at most \<open>maxbits\<close> bits.\<close>

definition bounded_params :: "('i::len) itself \<Rightarrow> ('w::len) zfp_stream \<Rightarrow> bool" where
  "bounded_params i z \<longleftrightarrow> minbits z \<le> maxbits z \<and> maxbits z < 2 ^ 32 \<and>
    (if REVERSIBLE z then 2 + ebits i + pbits i \<le> maxbits z else 1 + ebits i \<le> maxbits z)"

lemma reader_zfp_decode_block:
  fixes z :: "('w::len) zfp_stream" and b0 :: "('i::len) word list"
  assumes p: "bounded_params TYPE('i) z" and l: "length b0 = 4 ^ d"
  shows "block_reader z d (\<lambda>s. zfp_decode_block t d (z\<lparr>stream := s\<rparr>) b0)"
proof (cases t)
  case Integral
  have "pbits TYPE('i) \<le> maxbits z" using p by (auto simp: bounded_params_def pbits_def ebits_def split: if_splits)
  from reader_zfp_decode_block_int [OF this _ _ l] p show ?thesis by (simp add: Integral zfp_decode_block_def bounded_params_def)
next
  case (Floating u)
  then show ?thesis
    using p reader_decode_block_float [where 'i = 'i, of z d] reader_rev_decode_block_float [where 'i = 'i, of z d]
    by (cases "REVERSIBLE z") (simp_all add: zfp_decode_block_def zfp_decode_block_float_def bounded_params_def REVERSIBLE_def)
qed

end
