(* ===== verification/Array_Codec.thy ===== *)
theory Array_Codec
  imports Locality
begin

text \<open>
  \<^verbatim>\<open>include/zfp/codec/zfpcodec.hpp\<close>: the codec object of a compressed array, which encodes and decodes single blocks at given bit
  offsets of its stream, from and to contiguous or strided memory, whole or cut off by the border of the array (the code of the
  \<^emph>\<open>shape\<close> of a block holds two bits per axis, four minus the extent of the block). With \<open>thread_safety\<close> the stream object is copied
  first and only the buffer is shared.

  The classes \<open>zfp1\<close> to \<open>zfp4\<close> are the functions \<open>zfp1_encode_block\<close> and so on; \<open>codec_encode\<close> and the like select one by the number
  of dimensions. The lemmas \<open>codec_encode_put\<close> to \<open>codec_decode_strided_get\<close> reduce all of them to \<open>put_block\<close> and
  \<open>get_block\<close>. With a fixed rate and blocks of whole words, writing a block changes the bits of the block and no others,
  and reading one looks at its bits only: \<open>codec_put\<close> and \<open>codec_get\<close>.
\<close>

section \<open>Bit stream and parameters\<close>

text \<open>The codec object: its compressed stream and, when built with OpenMP, whether several threads use it.\<close>

record (overloaded) 'w zfp_codec =
  codec_stream :: "'w zfp_stream"
  thread_safety :: bool

definition codec_alignment :: "('w::len) itself \<Rightarrow> nat" where
  "codec_alignment w = stream_alignment w div 8"

definition codec_buffer_size :: "('w::len) zfp_codec \<Rightarrow> zfp_field \<Rightarrow> nat" where
  "codec_buffer_size c field =
    (if nx field = 0 \<and> ny field = 0 \<and> nz field = 0 \<and> nw field = 0 then 0
     else if zfp_stream_compression_mode (codec_stream c) \<noteq> zfp_mode_fixed_rate then zfp_stream_maximum_size (codec_stream c) field
     else let blocks = zfp_field_blocks field
          in round_up (blocks * maxbits (codec_stream c)) (stream_alignment TYPE('w)) div 8)"

definition codec_open :: "('w::len) zfp_codec \<Rightarrow> (nat \<Rightarrow> 'w word) \<Rightarrow> nat \<Rightarrow> 'w zfp_codec" where
  "codec_open c buf n = c\<lparr>codec_stream := zfp_stream_set_bit_stream (codec_stream c) (stream_open buf n)\<rparr>"

definition codec_set_reversible :: "('w::len) zfp_codec \<Rightarrow> 'w zfp_codec" where
  "codec_set_reversible c = c\<lparr>codec_stream := zfp_stream_set_reversible (codec_stream c)\<rparr>"

definition codec_set_rate :: "zfp_type \<Rightarrow> nat \<Rightarrow> ('w::len) zfp_codec \<Rightarrow> rat \<Rightarrow> bool \<Rightarrow> rat \<times> 'w zfp_codec" where
  "codec_set_rate type dims c rate align =
    (let (r, z) = zfp_stream_set_rate (codec_stream c) rate type dims align in (r, c\<lparr>codec_stream := z\<rparr>))"

definition codec_set_precision :: "('w::len) zfp_codec \<Rightarrow> nat \<Rightarrow> nat \<times> 'w zfp_codec" where
  "codec_set_precision c prec = (let (p, z) = zfp_stream_set_precision (codec_stream c) prec in (p, c\<lparr>codec_stream := z\<rparr>))"

definition codec_set_accuracy :: "uint64 unspecified \<Rightarrow> ('w::len) zfp_codec \<Rightarrow> uint64 \<Rightarrow> uint64 \<times> 'w zfp_codec" where
  "codec_set_accuracy u c tolerance = (let (a, z) = zfp_stream_set_accuracy u (codec_stream c) tolerance in (a, c\<lparr>codec_stream := z\<rparr>))"

definition codec_set_params :: "('w::len) zfp_codec \<Rightarrow> nat \<Rightarrow> nat \<Rightarrow> nat \<Rightarrow> int \<Rightarrow> bool \<times> 'w zfp_codec" where
  "codec_set_params c mi ma pr ex = (let (b, z) = zfp_stream_set_params (codec_stream c) mi ma pr ex in (b, c\<lparr>codec_stream := z\<rparr>))"

section \<open>One block at a bit offset\<close>

text \<open>
  A thread works on its own copy of the stream objects. The copy is dropped afterwards; what it wrote stays in the buffer,
  which the copies share.
\<close>

definition clone_stream :: "('w::len) zfp_stream \<Rightarrow> 'w zfp_stream" where
  "clone_stream z = z\<lparr>stream := stream_clone (stream z)\<rparr>"

definition drop_clone :: "('w::len) zfp_stream \<Rightarrow> 'w zfp_stream \<Rightarrow> 'w zfp_stream" where
  "drop_clone z clone = z\<lparr>stream := (stream z)\<lparr>mem := mem (stream clone)\<rparr>\<rparr>"

definition on_stream :: "('w::len) zfp_codec \<Rightarrow> ('w zfp_stream \<Rightarrow> 'x \<times> 'w zfp_stream) \<Rightarrow> 'x \<times> 'w zfp_codec" where
  "on_stream c f =
    (if thread_safety c
     then let (x, zfp) = f (clone_stream (codec_stream c)) in (x, c\<lparr>codec_stream := drop_clone (codec_stream c) zfp\<rparr>)
     else let (x, zfp) = f (codec_stream c) in (x, c\<lparr>codec_stream := zfp\<rparr>))"

definition encode_full ::
  "('i::len) word scalar \<Rightarrow> nat \<Rightarrow> ('w::len) zfp_stream \<Rightarrow> nat \<Rightarrow> 'i word array \<Rightarrow> int \<Rightarrow> nat \<times> 'w zfp_stream" where
  "encode_full t d zfp off a p =
    (let zfp = zfp\<lparr>stream := stream_wseek (stream zfp) off\<rparr>;
         (n, zfp) = zfp_encode_block t d zfp (map (\<lambda>i. a (p + int i)) [0..<4 ^ d])
     in (n, zfp\<lparr>stream := snd (stream_flush (stream zfp))\<rparr>))"

definition decode_full ::
  "('i::len) word scalar \<Rightarrow> nat \<Rightarrow> ('w::len) zfp_stream \<Rightarrow> nat \<Rightarrow> 'i word array \<Rightarrow> int \<Rightarrow> (nat \<times> 'i word array) \<times> 'w zfp_stream" where
  "decode_full t d zfp off a p =
    (let zfp = zfp\<lparr>stream := stream_rseek (stream zfp) off\<rparr>;
         (n, block, zfp) = zfp_decode_block t d zfp (map (\<lambda>i. a (p + int i)) [0..<4 ^ d])
     in ((n, for_loop (4 ^ d) (\<lambda>i a. a(p + int i := block ! i)) a), zfp\<lparr>stream := snd (stream_align (stream zfp))\<rparr>))"

section \<open>1-dimensional blocks\<close>

definition encode_strided_1 ::
  "('i::len) word scalar \<Rightarrow> ('w::len) zfp_stream \<Rightarrow> nat \<Rightarrow> nat \<Rightarrow> 'i word array \<Rightarrow> int \<Rightarrow> int \<Rightarrow> nat \<times> 'w zfp_stream" where
  "encode_strided_1 t zfp off shape a p dx =
    (let zfp = zfp\<lparr>stream := stream_wseek (stream zfp) off\<rparr>;
         (n, zfp) =
           (if shape \<noteq> 0
            then let mx = 4 - shape mod 4
                 in zfp_encode_partial_block_strided_1 t zfp a p mx dx
            else zfp_encode_block_strided_1 t zfp a p dx)
     in (n, zfp\<lparr>stream := snd (stream_flush (stream zfp))\<rparr>))"

definition decode_strided_1 ::
  "('i::len) word scalar \<Rightarrow> ('w::len) zfp_stream \<Rightarrow> nat \<Rightarrow> nat \<Rightarrow> 'i word array \<Rightarrow> int \<Rightarrow> int \<Rightarrow> (nat \<times> 'i word array) \<times> 'w zfp_stream" where
  "decode_strided_1 t zfp off shape a p dx =
    (let zfp = zfp\<lparr>stream := stream_rseek (stream zfp) off\<rparr>;
         (n, a, zfp) =
           (if shape \<noteq> 0
            then let mx = 4 - shape mod 4
                 in zfp_decode_partial_block_strided_1 t zfp a p mx dx
            else zfp_decode_block_strided_1 t zfp a p dx)
     in ((n, a), zfp\<lparr>stream := snd (stream_align (stream zfp))\<rparr>))"

definition zfp1_encode_block_strided ::
  "('i::len) word scalar \<Rightarrow> ('w::len) zfp_codec \<Rightarrow> nat \<Rightarrow> nat \<Rightarrow> 'i word array \<Rightarrow> int \<Rightarrow> int \<Rightarrow> nat \<times> 'w zfp_codec" where
  "zfp1_encode_block_strided t c off shape a p dx = on_stream c (\<lambda>zfp. encode_strided_1 t zfp off shape a p dx)"

definition zfp1_decode_block_strided ::
  "('i::len) word scalar \<Rightarrow> ('w::len) zfp_codec \<Rightarrow> nat \<Rightarrow> nat \<Rightarrow> 'i word array \<Rightarrow> int \<Rightarrow> int \<Rightarrow> (nat \<times> 'i word array) \<times> 'w zfp_codec" where
  "zfp1_decode_block_strided t c off shape a p dx = on_stream c (\<lambda>zfp. decode_strided_1 t zfp off shape a p dx)"

definition zfp1_encode_block ::
  "('i::len) word scalar \<Rightarrow> ('w::len) zfp_codec \<Rightarrow> nat \<Rightarrow> nat \<Rightarrow> 'i word array \<Rightarrow> int \<Rightarrow> nat \<times> 'w zfp_codec" where
  "zfp1_encode_block t c off shape a p =
    (if shape \<noteq> 0 then zfp1_encode_block_strided t c off shape a p 1
     else on_stream c (\<lambda>zfp. encode_full t 1 zfp off a p))"

definition zfp1_decode_block ::
  "('i::len) word scalar \<Rightarrow> ('w::len) zfp_codec \<Rightarrow> nat \<Rightarrow> nat \<Rightarrow> 'i word array \<Rightarrow> int \<Rightarrow> (nat \<times> 'i word array) \<times> 'w zfp_codec" where
  "zfp1_decode_block t c off shape a p =
    (if shape \<noteq> 0 then zfp1_decode_block_strided t c off shape a p 1
     else on_stream c (\<lambda>zfp. decode_full t 1 zfp off a p))"

section \<open>2-dimensional blocks\<close>

definition encode_strided_2 ::
  "('i::len) word scalar \<Rightarrow> ('w::len) zfp_stream \<Rightarrow> nat \<Rightarrow> nat \<Rightarrow> 'i word array \<Rightarrow> int \<Rightarrow> int \<Rightarrow> int \<Rightarrow> nat \<times> 'w zfp_stream" where
  "encode_strided_2 t zfp off shape a p dx dy =
    (let zfp = zfp\<lparr>stream := stream_wseek (stream zfp) off\<rparr>;
         (n, zfp) =
           (if shape \<noteq> 0
            then let mx = 4 - shape mod 4; shape = shape div 4; my = 4 - shape mod 4
                 in zfp_encode_partial_block_strided_2 t zfp a p mx my dx dy
            else zfp_encode_block_strided_2 t zfp a p dx dy)
     in (n, zfp\<lparr>stream := snd (stream_flush (stream zfp))\<rparr>))"

definition decode_strided_2 ::
  "('i::len) word scalar \<Rightarrow> ('w::len) zfp_stream \<Rightarrow> nat \<Rightarrow> nat \<Rightarrow> 'i word array \<Rightarrow> int \<Rightarrow> int \<Rightarrow> int \<Rightarrow> (nat \<times> 'i word array) \<times> 'w zfp_stream" where
  "decode_strided_2 t zfp off shape a p dx dy =
    (let zfp = zfp\<lparr>stream := stream_rseek (stream zfp) off\<rparr>;
         (n, a, zfp) =
           (if shape \<noteq> 0
            then let mx = 4 - shape mod 4; shape = shape div 4; my = 4 - shape mod 4
                 in zfp_decode_partial_block_strided_2 t zfp a p mx my dx dy
            else zfp_decode_block_strided_2 t zfp a p dx dy)
     in ((n, a), zfp\<lparr>stream := snd (stream_align (stream zfp))\<rparr>))"

definition zfp2_encode_block_strided ::
  "('i::len) word scalar \<Rightarrow> ('w::len) zfp_codec \<Rightarrow> nat \<Rightarrow> nat \<Rightarrow> 'i word array \<Rightarrow> int \<Rightarrow> int \<Rightarrow> int \<Rightarrow> nat \<times> 'w zfp_codec" where
  "zfp2_encode_block_strided t c off shape a p dx dy = on_stream c (\<lambda>zfp. encode_strided_2 t zfp off shape a p dx dy)"

definition zfp2_decode_block_strided ::
  "('i::len) word scalar \<Rightarrow> ('w::len) zfp_codec \<Rightarrow> nat \<Rightarrow> nat \<Rightarrow> 'i word array \<Rightarrow> int \<Rightarrow> int \<Rightarrow> int \<Rightarrow> (nat \<times> 'i word array) \<times> 'w zfp_codec" where
  "zfp2_decode_block_strided t c off shape a p dx dy = on_stream c (\<lambda>zfp. decode_strided_2 t zfp off shape a p dx dy)"

definition zfp2_encode_block ::
  "('i::len) word scalar \<Rightarrow> ('w::len) zfp_codec \<Rightarrow> nat \<Rightarrow> nat \<Rightarrow> 'i word array \<Rightarrow> int \<Rightarrow> nat \<times> 'w zfp_codec" where
  "zfp2_encode_block t c off shape a p =
    (if shape \<noteq> 0 then zfp2_encode_block_strided t c off shape a p 1 4
     else on_stream c (\<lambda>zfp. encode_full t 2 zfp off a p))"

definition zfp2_decode_block ::
  "('i::len) word scalar \<Rightarrow> ('w::len) zfp_codec \<Rightarrow> nat \<Rightarrow> nat \<Rightarrow> 'i word array \<Rightarrow> int \<Rightarrow> (nat \<times> 'i word array) \<times> 'w zfp_codec" where
  "zfp2_decode_block t c off shape a p =
    (if shape \<noteq> 0 then zfp2_decode_block_strided t c off shape a p 1 4
     else on_stream c (\<lambda>zfp. decode_full t 2 zfp off a p))"

section \<open>3-dimensional blocks\<close>

definition encode_strided_3 ::
  "('i::len) word scalar \<Rightarrow> ('w::len) zfp_stream \<Rightarrow> nat \<Rightarrow> nat \<Rightarrow> 'i word array \<Rightarrow> int \<Rightarrow> int \<Rightarrow> int \<Rightarrow> int \<Rightarrow> nat \<times> 'w zfp_stream" where
  "encode_strided_3 t zfp off shape a p dx dy dz =
    (let zfp = zfp\<lparr>stream := stream_wseek (stream zfp) off\<rparr>;
         (n, zfp) =
           (if shape \<noteq> 0
            then let mx = 4 - shape mod 4; shape = shape div 4; my = 4 - shape mod 4; shape = shape div 4; mz = 4 - shape mod 4
                 in zfp_encode_partial_block_strided_3 t zfp a p mx my mz dx dy dz
            else zfp_encode_block_strided_3 t zfp a p dx dy dz)
     in (n, zfp\<lparr>stream := snd (stream_flush (stream zfp))\<rparr>))"

definition decode_strided_3 ::
  "('i::len) word scalar \<Rightarrow> ('w::len) zfp_stream \<Rightarrow> nat \<Rightarrow> nat \<Rightarrow> 'i word array \<Rightarrow> int \<Rightarrow> int \<Rightarrow> int \<Rightarrow> int \<Rightarrow> (nat \<times> 'i word array) \<times> 'w zfp_stream" where
  "decode_strided_3 t zfp off shape a p dx dy dz =
    (let zfp = zfp\<lparr>stream := stream_rseek (stream zfp) off\<rparr>;
         (n, a, zfp) =
           (if shape \<noteq> 0
            then let mx = 4 - shape mod 4; shape = shape div 4; my = 4 - shape mod 4; shape = shape div 4; mz = 4 - shape mod 4
                 in zfp_decode_partial_block_strided_3 t zfp a p mx my mz dx dy dz
            else zfp_decode_block_strided_3 t zfp a p dx dy dz)
     in ((n, a), zfp\<lparr>stream := snd (stream_align (stream zfp))\<rparr>))"

definition zfp3_encode_block_strided ::
  "('i::len) word scalar \<Rightarrow> ('w::len) zfp_codec \<Rightarrow> nat \<Rightarrow> nat \<Rightarrow> 'i word array \<Rightarrow> int \<Rightarrow> int \<Rightarrow> int \<Rightarrow> int \<Rightarrow> nat \<times> 'w zfp_codec" where
  "zfp3_encode_block_strided t c off shape a p dx dy dz = on_stream c (\<lambda>zfp. encode_strided_3 t zfp off shape a p dx dy dz)"

definition zfp3_decode_block_strided ::
  "('i::len) word scalar \<Rightarrow> ('w::len) zfp_codec \<Rightarrow> nat \<Rightarrow> nat \<Rightarrow> 'i word array \<Rightarrow> int \<Rightarrow> int \<Rightarrow> int \<Rightarrow> int \<Rightarrow> (nat \<times> 'i word array) \<times> 'w zfp_codec" where
  "zfp3_decode_block_strided t c off shape a p dx dy dz = on_stream c (\<lambda>zfp. decode_strided_3 t zfp off shape a p dx dy dz)"

definition zfp3_encode_block ::
  "('i::len) word scalar \<Rightarrow> ('w::len) zfp_codec \<Rightarrow> nat \<Rightarrow> nat \<Rightarrow> 'i word array \<Rightarrow> int \<Rightarrow> nat \<times> 'w zfp_codec" where
  "zfp3_encode_block t c off shape a p =
    (if shape \<noteq> 0 then zfp3_encode_block_strided t c off shape a p 1 4 16
     else on_stream c (\<lambda>zfp. encode_full t 3 zfp off a p))"

definition zfp3_decode_block ::
  "('i::len) word scalar \<Rightarrow> ('w::len) zfp_codec \<Rightarrow> nat \<Rightarrow> nat \<Rightarrow> 'i word array \<Rightarrow> int \<Rightarrow> (nat \<times> 'i word array) \<times> 'w zfp_codec" where
  "zfp3_decode_block t c off shape a p =
    (if shape \<noteq> 0 then zfp3_decode_block_strided t c off shape a p 1 4 16
     else on_stream c (\<lambda>zfp. decode_full t 3 zfp off a p))"

section \<open>4-dimensional blocks\<close>

definition encode_strided_4 ::
  "('i::len) word scalar \<Rightarrow> ('w::len) zfp_stream \<Rightarrow> nat \<Rightarrow> nat \<Rightarrow> 'i word array \<Rightarrow> int \<Rightarrow> int \<Rightarrow> int \<Rightarrow> int \<Rightarrow> int \<Rightarrow> nat \<times> 'w zfp_stream" where
  "encode_strided_4 t zfp off shape a p dx dy dz dw =
    (let zfp = zfp\<lparr>stream := stream_wseek (stream zfp) off\<rparr>;
         (n, zfp) =
           (if shape \<noteq> 0
            then let mx = 4 - shape mod 4; shape = shape div 4; my = 4 - shape mod 4; shape = shape div 4;
              mz = 4 - shape mod 4; shape = shape div 4;
              mw = 4 - shape mod 4
                 in zfp_encode_partial_block_strided_4 t zfp a p mx my mz mw dx dy dz dw
            else zfp_encode_block_strided_4 t zfp a p dx dy dz dw)
     in (n, zfp\<lparr>stream := snd (stream_flush (stream zfp))\<rparr>))"

definition decode_strided_4 ::
  "('i::len) word scalar \<Rightarrow> ('w::len) zfp_stream \<Rightarrow> nat \<Rightarrow> nat \<Rightarrow> 'i word array \<Rightarrow> int \<Rightarrow> int \<Rightarrow> int \<Rightarrow> int \<Rightarrow> int \<Rightarrow> (nat \<times> 'i word array) \<times> 'w zfp_stream" where
  "decode_strided_4 t zfp off shape a p dx dy dz dw =
    (let zfp = zfp\<lparr>stream := stream_rseek (stream zfp) off\<rparr>;
         (n, a, zfp) =
           (if shape \<noteq> 0
            then let mx = 4 - shape mod 4; shape = shape div 4; my = 4 - shape mod 4; shape = shape div 4;
              mz = 4 - shape mod 4; shape = shape div 4;
              mw = 4 - shape mod 4
                 in zfp_decode_partial_block_strided_4 t zfp a p mx my mz mw dx dy dz dw
            else zfp_decode_block_strided_4 t zfp a p dx dy dz dw)
     in ((n, a), zfp\<lparr>stream := snd (stream_align (stream zfp))\<rparr>))"

definition zfp4_encode_block_strided ::
  "('i::len) word scalar \<Rightarrow> ('w::len) zfp_codec \<Rightarrow> nat \<Rightarrow> nat \<Rightarrow> 'i word array \<Rightarrow> int \<Rightarrow> int \<Rightarrow> int \<Rightarrow> int \<Rightarrow> int \<Rightarrow> nat \<times> 'w zfp_codec" where
  "zfp4_encode_block_strided t c off shape a p dx dy dz dw = on_stream c (\<lambda>zfp. encode_strided_4 t zfp off shape a p dx dy dz dw)"

definition zfp4_decode_block_strided ::
  "('i::len) word scalar \<Rightarrow> ('w::len) zfp_codec \<Rightarrow> nat \<Rightarrow> nat \<Rightarrow> 'i word array \<Rightarrow> int \<Rightarrow> int \<Rightarrow> int \<Rightarrow> int \<Rightarrow> int \<Rightarrow> (nat \<times> 'i word array) \<times> 'w zfp_codec" where
  "zfp4_decode_block_strided t c off shape a p dx dy dz dw = on_stream c (\<lambda>zfp. decode_strided_4 t zfp off shape a p dx dy dz dw)"

definition zfp4_encode_block ::
  "('i::len) word scalar \<Rightarrow> ('w::len) zfp_codec \<Rightarrow> nat \<Rightarrow> nat \<Rightarrow> 'i word array \<Rightarrow> int \<Rightarrow> nat \<times> 'w zfp_codec" where
  "zfp4_encode_block t c off shape a p =
    (if shape \<noteq> 0 then zfp4_encode_block_strided t c off shape a p 1 4 16 64
     else on_stream c (\<lambda>zfp. encode_full t 4 zfp off a p))"

definition zfp4_decode_block ::
  "('i::len) word scalar \<Rightarrow> ('w::len) zfp_codec \<Rightarrow> nat \<Rightarrow> nat \<Rightarrow> 'i word array \<Rightarrow> int \<Rightarrow> (nat \<times> 'i word array) \<times> 'w zfp_codec" where
  "zfp4_decode_block t c off shape a p =
    (if shape \<noteq> 0 then zfp4_decode_block_strided t c off shape a p 1 4 16 64
     else on_stream c (\<lambda>zfp. decode_full t 4 zfp off a p))"

section \<open>Any number of dimensions\<close>

text \<open>The number of dimensions is a template parameter of the codec class.\<close>

definition codec_encode_strided ::
  "('i::len) word scalar \<Rightarrow> ('w::len) zfp_codec \<Rightarrow> nat \<Rightarrow> nat \<Rightarrow> 'i word array \<Rightarrow> int \<Rightarrow> int list \<Rightarrow> nat \<times> 'w zfp_codec" where
  "codec_encode_strided t c off shape a p ss =
    (case ss of
       [dx] \<Rightarrow> zfp1_encode_block_strided t c off shape a p dx
     | [dx, dy] \<Rightarrow> zfp2_encode_block_strided t c off shape a p dx dy
     | [dx, dy, dz] \<Rightarrow> zfp3_encode_block_strided t c off shape a p dx dy dz
     | [dx, dy, dz, dw] \<Rightarrow> zfp4_encode_block_strided t c off shape a p dx dy dz dw
     | _ \<Rightarrow> (0, c))"

definition codec_decode_strided ::
  "('i::len) word scalar \<Rightarrow> ('w::len) zfp_codec \<Rightarrow> nat \<Rightarrow> nat \<Rightarrow> 'i word array \<Rightarrow> int \<Rightarrow> int list \<Rightarrow> (nat \<times> 'i word array) \<times> 'w zfp_codec" where
  "codec_decode_strided t c off shape a p ss =
    (case ss of
       [dx] \<Rightarrow> zfp1_decode_block_strided t c off shape a p dx
     | [dx, dy] \<Rightarrow> zfp2_decode_block_strided t c off shape a p dx dy
     | [dx, dy, dz] \<Rightarrow> zfp3_decode_block_strided t c off shape a p dx dy dz
     | [dx, dy, dz, dw] \<Rightarrow> zfp4_decode_block_strided t c off shape a p dx dy dz dw
     | _ \<Rightarrow> ((0, a), c))"

definition codec_encode ::
  "('i::len) word scalar \<Rightarrow> nat \<Rightarrow> ('w::len) zfp_codec \<Rightarrow> nat \<Rightarrow> nat \<Rightarrow> 'i word array \<Rightarrow> int \<Rightarrow> nat \<times> 'w zfp_codec" where
  "codec_encode t d c off shape a p =
    (if d = 1 then zfp1_encode_block t c off shape a p
     else if d = 2 then zfp2_encode_block t c off shape a p
     else if d = 3 then zfp3_encode_block t c off shape a p
     else zfp4_encode_block t c off shape a p)"

definition codec_decode ::
  "('i::len) word scalar \<Rightarrow> nat \<Rightarrow> ('w::len) zfp_codec \<Rightarrow> nat \<Rightarrow> nat \<Rightarrow> 'i word array \<Rightarrow> int \<Rightarrow> (nat \<times> 'i word array) \<times> 'w zfp_codec" where
  "codec_decode t d c off shape a p =
    (if d = 1 then zfp1_decode_block t c off shape a p
     else if d = 2 then zfp2_decode_block t c off shape a p
     else if d = 3 then zfp3_decode_block t c off shape a p
     else zfp4_decode_block t c off shape a p)"

section \<open>What they do\<close>

text \<open>The block of \<open>4 ^ d\<close> values written to and read from a bit offset.\<close>

definition put_block :: "('i::len) word scalar \<Rightarrow> nat \<Rightarrow> ('w::len) zfp_stream \<Rightarrow> nat \<Rightarrow> 'i word list \<Rightarrow> nat \<times> 'w zfp_stream" where
  "put_block t d z off b =
    (let (n, z) = zfp_encode_block t d (z\<lparr>stream := stream_wseek (stream z) off\<rparr>) b in (n, z\<lparr>stream := snd (stream_flush (stream z))\<rparr>))"

definition get_block :: "('i::len) word scalar \<Rightarrow> nat \<Rightarrow> ('w::len) zfp_stream \<Rightarrow> nat \<Rightarrow> (nat \<times> 'i word list) \<times> 'w zfp_stream" where
  "get_block t d z off =
    (let (n, b, z) = zfp_decode_block t d (z\<lparr>stream := stream_rseek (stream z) off\<rparr>) (replicate (4 ^ d) 0)
     in ((n, b), z\<lparr>stream := snd (stream_align (stream z))\<rparr>))"

text \<open>The extents of a block from the code of its shape.\<close>

fun shape_extent :: "nat \<Rightarrow> nat \<Rightarrow> nat list" where
  "shape_extent 0 shape = []"
| "shape_extent (Suc d) shape = (4 - shape mod 4) # shape_extent d (shape div 4)"

lemma length_shape_extent [simp]: "length (shape_extent d shape) = d"
  by (induction d arbitrary: shape) simp_all

lemma shape_extent_bounds: "n \<in> set (shape_extent d shape) \<Longrightarrow> 1 \<le> n \<and> n \<le> 4"
proof (induction d arbitrary: shape)
  case (Suc d)
  have "shape mod 4 < 4" by simp
  then have "1 \<le> 4 - shape mod 4" by linarith
  then show ?case using Suc by auto
qed simp

lemma shape_extent_0 [simp]: "shape_extent d 0 = replicate d 4"
  by (induction d) simp_all

lemma block_sizes_shape: "1 \<le> length ss \<Longrightarrow> length ss \<le> 4 \<Longrightarrow> block_sizes ss (shape_extent (length ss) shape)"
  using shape_extent_bounds by (simp add: block_sizes_def)

definition gather_shape :: "int list \<Rightarrow> nat \<Rightarrow> ('i::len) word array \<Rightarrow> int \<Rightarrow> 'i word list" where
  "gather_shape ss shape a p = gather_partial_block ss (shape_extent (length ss) shape) (replicate (4 ^ length ss) 0) a p"

definition scatter_shape :: "int list \<Rightarrow> nat \<Rightarrow> 'a list \<Rightarrow> 'a array \<Rightarrow> int \<Rightarrow> 'a array" where
  "scatter_shape ss shape b a p = scatter_partial_block ss (shape_extent (length ss) shape) b a p"

lemma gather_shape_full: "1 \<le> length ss \<Longrightarrow> length ss \<le> 4 \<Longrightarrow> gather_shape ss 0 a p = gather_block ss (replicate (4 ^ length ss) 0) a p"
  by (simp add: gather_shape_def gather_block_full)

lemma scatter_shape_full: "1 \<le> length ss \<Longrightarrow> length ss \<le> 4 \<Longrightarrow> scatter_shape ss 0 b a p = scatter_block ss b a p"
  by (simp add: scatter_shape_def scatter_block_full)

lemma shape_full:
  "zfp_encode_block_strided_1 t z a p dx = zfp_encode_block t 1 z (gather_shape [dx] 0 a p)"
  "zfp_encode_block_strided_2 t z a p dx dy = zfp_encode_block t 2 z (gather_shape [dx, dy] 0 a p)"
  "zfp_encode_block_strided_3 t z a p dx dy dz = zfp_encode_block t 3 z (gather_shape [dx, dy, dz] 0 a p)"
  "zfp_encode_block_strided_4 t z a p dx dy dz dw = zfp_encode_block t 4 z (gather_shape [dx, dy, dz, dw] 0 a p)"
  by (simp_all add: gather_shape_full gather_block_def zfp_encode_block_strided_1_def zfp_encode_block_strided_2_def
      zfp_encode_block_strided_3_def zfp_encode_block_strided_4_def)

lemma encode_strided_put:
  "encode_strided_1 t z off shape a p dx = put_block t 1 z off (gather_shape [dx] shape a p)"
  "encode_strided_2 t z off shape a p dx dy = put_block t 2 z off (gather_shape [dx, dy] shape a p)"
  "encode_strided_3 t z off shape a p dx dy dz = put_block t 3 z off (gather_shape [dx, dy, dz] shape a p)"
  "encode_strided_4 t z off shape a p dx dy dz dw = put_block t 4 z off (gather_shape [dx, dy, dz, dw] shape a p)"
  by (cases "shape = 0"; simp add: encode_strided_1_def encode_strided_2_def encode_strided_3_def encode_strided_4_def put_block_def shape_full;
      simp add: gather_shape_def gather_partial_block_def Let_def numeral_eqs zfp_encode_partial_block_strided_1_def
        zfp_encode_partial_block_strided_2_def zfp_encode_partial_block_strided_3_def zfp_encode_partial_block_strided_4_def)+

definition get_scatter ::
  "('i::len) word scalar \<Rightarrow> int list \<Rightarrow> nat \<Rightarrow> 'i word array \<Rightarrow> int \<Rightarrow> ('w::len) zfp_stream \<Rightarrow> nat \<Rightarrow> (nat \<times> 'i word array) \<times> 'w zfp_stream" where
  "get_scatter t ss shape a p z off = (let ((n, b), z) = get_block t (length ss) z off in ((n, scatter_shape ss shape b a p), z))"

lemma shape_full_decode:
  "zfp_decode_block_strided_1 t z a p dx = (let (n, b, z) = zfp_decode_block t 1 z (replicate 4 0) in (n, scatter_shape [dx] 0 b a p, z))"
  "zfp_decode_block_strided_2 t z a p dx dy = (let (n, b, z) = zfp_decode_block t 2 z (replicate 16 0) in (n, scatter_shape [dx, dy] 0 b a p, z))"
  "zfp_decode_block_strided_3 t z a p dx dy dz = (let (n, b, z) = zfp_decode_block t 3 z (replicate 64 0) in (n, scatter_shape [dx, dy, dz] 0 b a p, z))"
  "zfp_decode_block_strided_4 t z a p dx dy dz dw = (let (n, b, z) = zfp_decode_block t 4 z (replicate 256 0) in (n, scatter_shape [dx, dy, dz, dw] 0 b a p, z))"
  by (simp_all add: scatter_shape_full scatter_block_def Let_def zfp_decode_block_strided_1_def zfp_decode_block_strided_2_def
      zfp_decode_block_strided_3_def zfp_decode_block_strided_4_def)

lemma shape_extent_123:
  "shape_extent 1 m = [4 - m mod 4]" "shape_extent 2 m = [4 - m mod 4, 4 - m div 4 mod 4]"
  "shape_extent 3 m = [4 - m mod 4, 4 - m div 4 mod 4, 4 - m div 4 div 4 mod 4]"
  by (simp_all add: numeral_eqs)

lemma shape_extent_4: "shape_extent 4 m = [4 - m mod 4, 4 - m div 4 mod 4, 4 - m div 4 div 4 mod 4, 4 - m div 4 div 4 div 4 mod 4]"
  using shape_extent.simps(2) [of 3 m] by (simp add: shape_extent_123)

lemmas shape_extent_eqs = shape_extent_123 shape_extent_4

lemma decode_strided_get:
  "decode_strided_1 t z off shape a p dx = get_scatter t [dx] shape a p z off"
  "decode_strided_2 t z off shape a p dx dy = get_scatter t [dx, dy] shape a p z off"
  "decode_strided_3 t z off shape a p dx dy dz = get_scatter t [dx, dy, dz] shape a p z off"
  "decode_strided_4 t z off shape a p dx dy dz dw = get_scatter t [dx, dy, dz, dw] shape a p z off"
  by (cases "shape = 0"; simp add: decode_strided_1_def decode_strided_2_def decode_strided_3_def decode_strided_4_def get_block_def get_scatter_def
        shape_full_decode Let_def numeral_2_eq_2 [symmetric] split: prod.split;
      simp add: scatter_shape_def scatter_partial_block_def shape_extent_eqs Let_def numeral_2_eq_2 [symmetric] zfp_decode_partial_block_strided_1_def
        zfp_decode_partial_block_strided_2_def zfp_decode_partial_block_strided_3_def zfp_decode_partial_block_strided_4_def split: prod.split)+

section \<open>Contiguous blocks\<close>

fun unit_strides :: "nat \<Rightarrow> int list" where
  "unit_strides 0 = []"
| "unit_strides (Suc d) = 1 # map ((*) 4) (unit_strides d)"

lemma length_unit_strides [simp]: "length (unit_strides d) = d"
  by (induction d) simp_all

lemma offset_map: "offset (map ((*) c) ss) xs = c * offset ss xs"
  by (induction ss xs rule: offset.induct) (simp_all add: algebra_simps)

lemma unit_offset: "length xs = d \<Longrightarrow> offset (unit_strides d) xs = int (block_pos xs)"
  by (induction d arbitrary: xs) (auto simp: length_Suc_conv offset_map)

lemma concat_rows: "concat (map (\<lambda>m. map (\<lambda>x. x + 4 * m) [0..<4]) [0..<n]) = [0..<4 * n]"
proof (induction n)
  case (Suc n)
  have "[0..<4 * Suc n] = [0..<4 * n] @ map (\<lambda>x. x + 4 * n) [0..<4]"
    using upt_add_eq_append [of 0 "4 * n" 4] map_add_upt [of "4 * n" 4] by (simp add: add.commute)
  then show ?case using Suc by simp
qed simp

lemma block_pos_box: "map block_pos (box (replicate d 4)) = [0..<4 ^ d]"
proof (induction d)
  case (Suc d)
  have "map block_pos (box (replicate (Suc d) 4)) = concat (map (\<lambda>r. map (\<lambda>x. x + 4 * block_pos r) [0..<4]) (box (replicate d 4)))"
    by (simp add: map_concat comp_def)
  also have "\<dots> = concat (map (\<lambda>m. map (\<lambda>x. x + 4 * m) [0..<4]) (map block_pos (box (replicate d 4))))"
    by (simp add: comp_def)
  finally show ?case by (simp only: Suc concat_rows power_Suc)
qed simp

lemma box_length: "xs \<in> set (box ns) \<Longrightarrow> length xs = length ns"
  by (auto simp: set_box dest: list_all2_lengthD)

lemma unit_box:
  "map (\<lambda>xs. f (p + offset (unit_strides d) xs) (block_pos xs)) (box (replicate d 4)) = map (\<lambda>i. f (p + int i) i) [0..<4 ^ d]"
proof -
  have "map (\<lambda>xs. f (p + offset (unit_strides d) xs) (block_pos xs)) (box (replicate d 4)) =
      map ((\<lambda>i. f (p + int i) i) \<circ> block_pos) (box (replicate d 4))"
    by (intro map_cong) (auto simp: unit_offset dest: box_length)
  then show ?thesis by (simp only: map_map [symmetric] block_pos_box)
qed

lemma gather_unit:
  assumes "1 \<le> d" "d \<le> 4"
  shows "gather_shape (unit_strides d) 0 a p = map (\<lambda>i. a (p + int i)) [0..<4 ^ d]"
  using assms unit_box [of "\<lambda>x i. a x" p d] by (simp add: gather_shape_full gather_block_eq)

lemma for_loop_writes: "for_loop n (\<lambda>i a. a(p + int i := b ! i)) a = store a (map (\<lambda>i. (p + int i, b ! i)) [0..<n])"
  by (induction n) simp_all

lemma scatter_unit:
  assumes "1 \<le> d" "d \<le> 4"
  shows "scatter_shape (unit_strides d) 0 b a p = for_loop (4 ^ d) (\<lambda>i a. a(p + int i := b ! i)) a"
proof -
  have "block_sizes (unit_strides d) (replicate d 4)" using assms by (simp add: block_sizes_def)
  from scatter_partial_block_eq [OF this, of b a p] show ?thesis
    using unit_box [of "\<lambda>x i. (x, b ! i)" p d] by (simp add: scatter_shape_def for_loop_writes)
qed

lemma encode_full_put: "1 \<le> d \<Longrightarrow> d \<le> 4 \<Longrightarrow> encode_full t d z off a p = put_block t d z off (gather_shape (unit_strides d) 0 a p)"
  by (simp add: encode_full_def put_block_def gather_unit)

lemma decode_full_get:
  assumes "1 \<le> d" "d \<le> 4"
  shows "decode_full t d z off a p = get_scatter t (unit_strides d) 0 a p z off"
proof -
  have "zfp_decode_block t d z (map (\<lambda>i. a (p + int i)) [0..<4 ^ d]) = zfp_decode_block t d z (replicate (4 ^ d) 0)" for z :: "'b zfp_stream"
    by (rule decode_any [OF assms]) simp_all
  then show ?thesis by (simp add: decode_full_def get_scatter_def get_block_def scatter_unit [OF assms] Let_def split: prod.split)
qed

text \<open>Every function of the codec writes or reads one block at its offset.\<close>

lemma codec_encode_strided_put:
  assumes "1 \<le> length ss" "length ss \<le> 4"
  shows "codec_encode_strided t c off shape a p ss = on_stream c (\<lambda>z. put_block t (length ss) z off (gather_shape ss shape a p))"
  using assms
  by (cases rule: list_1_4_cases) (simp_all add: codec_encode_strided_def zfp1_encode_block_strided_def zfp2_encode_block_strided_def
      zfp3_encode_block_strided_def zfp4_encode_block_strided_def encode_strided_put numeral_2_eq_2 [symmetric])

lemma codec_decode_strided_get:
  assumes "1 \<le> length ss" "length ss \<le> 4"
  shows "codec_decode_strided t c off shape a p ss = on_stream c (\<lambda>z. get_scatter t ss shape a p z off)"
  using assms
  by (cases rule: list_1_4_cases) (simp_all add: codec_decode_strided_def zfp1_decode_block_strided_def zfp2_decode_block_strided_def
      zfp3_decode_block_strided_def zfp4_decode_block_strided_def decode_strided_get)

lemma unit_strides_123: "unit_strides 1 = [1]" "unit_strides 2 = [1, 4]" "unit_strides 3 = [1, 4, 16]"
  by (simp_all add: numeral_eqs)

lemma unit_strides_4: "unit_strides 4 = [1, 4, 16, 64]"
  using unit_strides.simps(2) [of 3] by (simp add: unit_strides_123)

lemmas unit_strides_eqs = unit_strides_123 unit_strides_4

lemma codec_encode_put:
  assumes "1 \<le> d" "d \<le> 4"
  shows "codec_encode t d c off shape a p = on_stream c (\<lambda>z. put_block t d z off (gather_shape (unit_strides d) shape a p))"
proof -
  have "d = 1 \<or> d = 2 \<or> d = 3 \<or> d = 4" using assms by auto
  then show ?thesis
    by (cases "shape = 0") (elim disjE; simp add: codec_encode_def zfp1_encode_block_def zfp2_encode_block_def zfp3_encode_block_def zfp4_encode_block_def
      zfp1_encode_block_strided_def zfp2_encode_block_strided_def zfp3_encode_block_strided_def zfp4_encode_block_strided_def
      encode_strided_put encode_full_put unit_strides_eqs [unfolded One_nat_def] unit_strides_eqs)+
qed

lemma codec_decode_get:
  assumes "1 \<le> d" "d \<le> 4"
  shows "codec_decode t d c off shape a p = on_stream c (\<lambda>z. get_scatter t (unit_strides d) shape a p z off)"
proof -
  have "d = 1 \<or> d = 2 \<or> d = 3 \<or> d = 4" using assms by auto
  then show ?thesis
    by (cases "shape = 0") (elim disjE; simp add: codec_decode_def zfp1_decode_block_def zfp2_decode_block_def zfp3_decode_block_def zfp4_decode_block_def
      zfp1_decode_block_strided_def zfp2_decode_block_strided_def zfp3_decode_block_strided_def zfp4_decode_block_strided_def
      decode_strided_get decode_full_get unit_strides_eqs [unfolded One_nat_def] unit_strides_eqs)+
qed

section \<open>Fixed-rate blocks\<close>

text \<open>Fixed-rate mode with blocks of whole words, the parameters of a read-write array.\<close>

definition fixed_rate :: "('i::len) word scalar \<Rightarrow> nat \<Rightarrow> ('w::len) zfp_stream \<Rightarrow> bool" where
  "fixed_rate t d z \<longleftrightarrow> codec_ok t d z \<and> \<not> REVERSIBLE z \<and> minbits z = maxbits z \<and> 12 \<le> maxbits z \<and> maxbits z < 2 ^ 32
    \<and> LENGTH('w) \<le> 64 \<and> LENGTH('w) dvd maxbits z"

lemma like_parts:
  assumes "like p z"
  shows "minbits z = minbits p" "maxbits z = maxbits p" "maxprec z = maxprec p" "minexp z = minexp p" "REVERSIBLE z = REVERSIBLE p"
proof -
  have "z = p\<lparr>stream := stream z\<rparr>" using assms by (simp add: like_def)
  then show "minbits z = minbits p" "maxbits z = maxbits p" "maxprec z = maxprec p" "minexp z = minexp p"
    by (metis zfp_stream.select_convs zfp_stream.surjective zfp_stream.update_convs(5))+
  then show "REVERSIBLE z = REVERSIBLE p" by (simp add: REVERSIBLE_def)
qed

lemma fixed_rate_like: "like p z \<Longrightarrow> fixed_rate t d z = fixed_rate t d p"
  by (simp add: fixed_rate_def like_parts codec_ok_like)

lemma fixed_rate_bounded: "fixed_rate t d z \<Longrightarrow> bounded_params TYPE('i) z" for t :: "('i::len) word scalar"
  by (auto simp: fixed_rate_def bounded_params_def ebits_def)

lemma length_code_min:
  fixes b :: "('i::len) word list"
  assumes "\<not> REVERSIBLE z"
  shows "minbits z \<le> length (block_code t d z b)"
  using assms by (auto simp: block_code_def int_block_code_def float_block_code_def exponent_bits_def Let_def split: scalar.split)

lemma length_fixed_code:
  assumes "fixed_rate t d z"
  shows "length (block_code t d z b) = maxbits z"
proof -
  have f: "codec_ok t d z" "\<not> REVERSIBLE z" "minbits z = maxbits z" "12 \<le> maxbits z" "maxbits z < 2 ^ 32"
    using assms by (simp_all add: fixed_rate_def)
  have "minbits z \<le> maxbits z" "header_bits t False \<le> maxbits z"
    using f(3,4) by (auto simp: header_bits_def ebits_def split: scalar.split)
  from length_block_code [OF f(1) this(2,1) f(5), of b] length_code_min [OF f(2), of t d b] f(3) show ?thesis by simp
qed

lemma wappend_tape:
  fixes s :: "('w::len) bitstream"
  assumes w: "winv s" and a: "bits s = 0" "LENGTH('w) dvd length bs"
  shows "bits (wappend s bs) = 0"
    "tape (wappend s bs) i = (if stream_wtell s \<le> i \<and> i < stream_wtell s + length bs then bs ! (i - stream_wtell s) else tape s i)"
proof -
  let ?W = "LENGTH('w)" and ?s = "wappend s bs"
  have i: "winv ?s" using w by simp
  have l: "stream_wtell ?s = stream_wtell s + length bs" using w by simp
  have "stream_wtell s + length bs = ptr ?s * ?W + bits ?s" unfolding l [symmetric] by (simp only: stream_wtell_def)
  moreover have "?W dvd stream_wtell s + length bs" using a by (simp add: stream_wtell_def)
  ultimately have "(ptr ?s * ?W + bits ?s) mod ?W = 0" by (simp only: dvd_imp_mod_0)
  then show b: "bits ?s = 0" using i by (simp add: winv_def)
  have e: "stream_wtell ?s = ptr ?s * ?W" "stream_wtell s = ptr s * ?W" using a b by (simp_all only: stream_wtell_def)
  show "tape ?s i = (if stream_wtell s \<le> i \<and> i < stream_wtell s + length bs then bs ! (i - stream_wtell s) else tape s i)"
  proof (cases "stream_wtell s \<le> i \<and> i < stream_wtell s + length bs")
    case True
    then have "i div ?W < ptr ?s" using e l by (simp add: div_less_iff_less_mult)
    then have "tape ?s i = wbit ?s i" by (simp add: tape_def wbit_def)
    also have "\<dots> = bs ! (i - stream_wtell s)"
      using wbit_wappend_new [OF w, of "i - stream_wtell s" bs] True by (simp add: less_diff_conv2)
    finally show ?thesis using True by simp
  next
    case False
    then have "i < ptr s * ?W \<or> ptr ?s * ?W \<le> i" using e l by linarith
    then have "i div ?W < ptr s \<or> ptr ?s \<le> i div ?W" by (auto simp: div_less_iff_less_mult less_eq_div_iff_mult_less_eq)
    then have "mem ?s (i div ?W) = mem s (i div ?W)" using mem_wappend_before [OF w] mem_wappend_after [OF w] by blast
    then show ?thesis unfolding tape_def if_not_P [OF False] by simp
  qed
qed

text \<open>Writing a block changes the bits of the block and no others.\<close>

lemma put_block_fixed:
  fixes z :: "('w::len) zfp_stream"
  assumes f: "fixed_rate t d z" and a: "LENGTH('w) dvd off"
  obtains z' where "put_block t d z off b = (maxbits z, z')" "like z z'"
    "\<And>i. tape (stream z') i = (if off \<le> i \<and> i < off + maxbits z then block_code t d z b ! (i - off) else tape (stream z) i)"
proof -
  let ?W = "LENGTH('w)" and ?s = "stream_wseek (stream z) off" and ?c = "block_code t d z b"
  have W: "?W \<le> 64" "?W dvd maxbits z" "codec_ok t d z" using f by (simp_all add: fixed_rate_def)
  have w: "winv ?s" and t: "stream_wtell ?s = off" and m: "mem ?s = mem (stream z)" by (rule stream_wseek_props)+
  have b: "bits ?s = 0" using a by (simp add: stream_wseek_def Let_def dvd_eq_mod_eq_0)
  have l: "length ?c = maxbits z" by (rule length_fixed_code [OF f])
  have lk: "like z (z\<lparr>stream := ?s\<rparr>)" by simp
  have c: "block_code t d (z\<lparr>stream := ?s\<rparr>) b = ?c" by (simp add: block_code_like [OF lk])
  have "codec_ok t d (z\<lparr>stream := ?s\<rparr>)" using W(3) codec_ok_like [OF lk, of t d] by simp
  moreover have "sink_ok (stream (z\<lparr>stream := ?s\<rparr>))" using w W(1) by (simp add: sink_ok_def)
  ultimately have "zfp_encode_block t d (z\<lparr>stream := ?s\<rparr>) b = (length ?c, z\<lparr>stream := wappend ?s ?c\<rparr>)"
    using encode_step [of t d "z\<lparr>stream := ?s\<rparr>" b] c by simp
  moreover note at = wappend_tape [OF w b W(2) [folded l]]
  moreover have "snd (stream_flush (wappend ?s ?c)) = wappend ?s ?c" using at(1) by (simp add: stream_flush_def)
  ultimately have p: "put_block t d z off b = (maxbits z, z\<lparr>stream := wappend ?s ?c\<rparr>)" by (simp add: put_block_def l)
  have s: "tape ?s = tape (stream z)" by (simp add: tape_def m fun_eq_iff)
  show thesis
  proof (rule that [OF p])
    show "tape (stream (z\<lparr>stream := wappend ?s ?c\<rparr>)) i =
        (if off \<le> i \<and> i < off + maxbits z then ?c ! (i - off) else tape (stream z) i)" for i
      using wappend_tape(2) [OF w b W(2) [folded l], of i] by (simp add: s t l)
  qed simp
qed

text \<open>Reading a block depends on the bits of the block only.\<close>

definition block_of :: "('i::len) word scalar \<Rightarrow> nat \<Rightarrow> ('w::len) zfp_stream \<Rightarrow> nat \<Rightarrow> 'i word list" where
  "block_of t d z off = snd (fst (get_block t d z off))"

lemma get_block_fixed:
  fixes z :: "('w::len) zfp_stream" and t :: "('i::len) word scalar"
  assumes f: "fixed_rate t d z" and a: "LENGTH('w) dvd off"
  obtains z' where "get_block t d z off = ((maxbits z, block_of t d z off), z')" "like z z'" "tape (stream z') = tape (stream z)"
    "length (block_of t d z off) = 4 ^ d"
    "\<And>z2 off2. like z z2 \<Longrightarrow> LENGTH('w) dvd off2 \<Longrightarrow> (\<And>i. i < maxbits z \<Longrightarrow> tape (stream z2) (off2 + i) = tape (stream z) (off + i)) \<Longrightarrow>
      block_of t d z2 off2 = block_of t d z off"
proof -
  let ?s = "stream_rseek (stream z) off"
  have W: "LENGTH('w) \<le> 64" "minbits z = maxbits z" "LENGTH('w) dvd maxbits z" using f by (simp_all add: fixed_rate_def)
  have src: "source_ok (stream_rseek s k)" for s :: "'w bitstream" and k using W(1) by (simp add: source_ok_def)
  have r: "block_reader z d (\<lambda>s. zfp_decode_block t d (z\<lparr>stream := s\<rparr>) (replicate (4 ^ d) 0))"
    by (rule reader_zfp_decode_block [OF fixed_rate_bounded [OF f]]) simp
  obtain q n where q: "zfp_decode_block t d (z\<lparr>stream := ?s\<rparr>) (replicate (4 ^ d) 0) = with_zfp z q (stream_skip ?s n)"
    "(\<lambda>(nb, b) c. nb = c \<and> minbits z \<le> c \<and> c \<le> maxbits z \<and> length b = 4 ^ d) q n"
    "\<And>s2. source_ok s2 \<Longrightarrow> (\<And>i. i < n \<Longrightarrow> stream_peek s2 i = stream_peek ?s i) \<Longrightarrow>
      zfp_decode_block t d (z\<lparr>stream := s2\<rparr>) (replicate (4 ^ d) 0) = with_zfp z q (stream_skip s2 n)"
    using readerE [OF r src [of "stream z" off]] by blast
  obtain b where b: "q = (maxbits z, b)" "n = maxbits z" "length b = 4 ^ d" using q(2) W(2) by (cases q) auto
  have skip: "stream_skip (stream_rseek s k) n = stream_rseek s (k + n)" for s :: "'w bitstream" and k
    by (simp add: stream_skip_def)
  have al: "snd (stream_align (stream_rseek s (k + n))) = stream_rseek s (k + n)" if "LENGTH('w) dvd k" for s :: "'w bitstream" and k
    using that W(3) b(2) by (simp add: stream_align_def stream_rseek_def Let_def dvd_eq_mod_eq_0 [symmetric])
  have g: "get_block t d z2 off2 = ((maxbits z, b), z\<lparr>stream := stream_rseek (stream z2) (off2 + n)\<rparr>)"
    if "like z z2" "LENGTH('w) dvd off2" "\<And>i. i < maxbits z \<Longrightarrow> tape (stream z2) (off2 + i) = tape (stream z) (off + i)" for z2 off2
  proof -
    have "z2\<lparr>stream := s\<rparr> = z\<lparr>stream := s\<rparr>" for s
      using arg_cong [OF that(1) [unfolded like_def], of "\<lambda>z. z\<lparr>stream := s\<rparr>"] by simp
    moreover have "zfp_decode_block t d (z\<lparr>stream := stream_rseek (stream z2) off2\<rparr>) (replicate (4 ^ d) 0) =
        with_zfp z q (stream_skip (stream_rseek (stream z2) off2) n)"
      by (rule q(3)) (use src that(3) b(2) in \<open>simp_all add: stream_peek_def\<close>)
    ultimately show ?thesis by (simp add: get_block_def b(1) skip al [OF that(2)])
  qed
  have bo: "block_of t d z2 off2 = b"
    if "like z z2" "LENGTH('w) dvd off2" "\<And>i. i < maxbits z \<Longrightarrow> tape (stream z2) (off2 + i) = tape (stream z) (off + i)" for z2 off2
    using g [OF that] by (simp add: block_of_def)
  have "block_of t d z off = b" by (rule bo) (simp_all add: a)
  then show thesis using g [of z off] a b bo by (intro that [of "z\<lparr>stream := stream_rseek (stream z) (off + n)\<rparr>"]) simp_all
qed

lemma like_iff: "like p z \<longleftrightarrow> p\<lparr>stream := s\<rparr> = z\<lparr>stream := s\<rparr>"
proof
  assume "p\<lparr>stream := s\<rparr> = z\<lparr>stream := s\<rparr>"
  from arg_cong [OF this, of "\<lambda>x. x\<lparr>stream := stream z\<rparr>"] show "like p z" by (simp add: like_def)
next
  assume "like p z"
  from arg_cong [OF this [unfolded like_def], of "\<lambda>x. x\<lparr>stream := s\<rparr>"] show "p\<lparr>stream := s\<rparr> = z\<lparr>stream := s\<rparr>" by simp
qed

lemma like_sym: "like p z \<Longrightarrow> like z p" and like_trans: "like p z \<Longrightarrow> like z y \<Longrightarrow> like p y"
  using like_iff [of _ _ undefined] by metis+

lemma block_of_cong:
  fixes z z2 :: "('w::len) zfp_stream"
  assumes "fixed_rate t d z" "like z z2" "LENGTH('w) dvd off" "LENGTH('w) dvd off2"
    "\<And>i. i < maxbits z \<Longrightarrow> tape (stream z2) (off2 + i) = tape (stream z) (off + i)"
  shows "block_of t d z2 off2 = block_of t d z off"
  by (rule get_block_fixed [OF assms(1,3)]) (use assms in blast)

lemma fixed_rate_likeD: "like p z \<Longrightarrow> fixed_rate t d p \<Longrightarrow> fixed_rate t d z"
  by (simp add: fixed_rate_like)

text \<open>What remains of a block after compression at the rate of \<open>p\<close>: the block that is read back from an empty stream.\<close>

definition lossy :: "('i::len) word scalar \<Rightarrow> nat \<Rightarrow> ('w::len) zfp_stream \<Rightarrow> 'i word list \<Rightarrow> 'i word list" where
  "lossy t d p b = block_of t d (snd (put_block t d (p\<lparr>stream := stream_open (\<lambda>_. 0) 0\<rparr>) 0 b)) 0"

lemma put_get_block:
  fixes z :: "('w::len) zfp_stream"
  assumes f: "fixed_rate t d z" and a: "LENGTH('w) dvd off" and p: "put_block t d z off b = (n, z')"
  shows "block_of t d z' off = lossy t d z b"
    and "LENGTH('w) dvd off2 \<Longrightarrow> off2 + maxbits z \<le> off \<or> off + maxbits z \<le> off2 \<Longrightarrow> block_of t d z' off2 = block_of t d z off2"
    and "like z z'" "n = maxbits z"
proof -
  obtain z1 where z1: "put_block t d z off b = (maxbits z, z1)" "like z z1"
    "\<And>i. tape (stream z1) i = (if off \<le> i \<and> i < off + maxbits z then block_code t d z b ! (i - off) else tape (stream z) i)"
    using put_block_fixed [OF f a] by metis
  then show lk: "like z z'" and n: "n = maxbits z" using p by simp_all
  have tp: "tape (stream z') i = (if off \<le> i \<and> i < off + maxbits z then block_code t d z b ! (i - off) else tape (stream z) i)" for i
    using z1 p by simp
  let ?e = "z\<lparr>stream := stream_open (\<lambda>_. 0) 0\<rparr>"
  have le: "like z ?e" by simp
  have fe: "fixed_rate t d ?e" by (rule fixed_rate_likeD [OF le f])
  have a0: "LENGTH('w) dvd (0 :: nat)" by simp
  obtain z2 where z2: "put_block t d ?e 0 b = (maxbits z, z2)" "like ?e z2"
    "\<And>i. tape (stream z2) i = (if i < maxbits z then block_code t d z b ! i else tape (stream ?e) i)"
  proof (rule put_block_fixed [OF fe a0, of b])
    fix z2
    assume "put_block t d ?e 0 b = (maxbits ?e, z2)" "like ?e z2"
      and tp: "\<And>i. tape (stream z2) i = (if 0 \<le> i \<and> i < 0 + maxbits ?e then block_code t d ?e b ! (i - 0) else tape (stream ?e) i)"
    then show thesis
    proof (intro that)
      show "tape (stream z2) i = (if i < maxbits z then block_code t d z b ! i else tape (stream ?e) i)" for i
        unfolding tp [of i] block_code_like [OF le] by simp
    qed simp_all
  qed
  have f2: "fixed_rate t d z2" by (rule fixed_rate_likeD [OF z2(2) fe])
  have l2: "like z2 z'" using like_trans [OF like_trans [OF like_sym [OF z2(2)] like_sym [OF le]] lk] .
  have m: "maxbits z2 = maxbits z" using like_parts(2) [OF z2(2)] by simp
  have "block_of t d z' off = block_of t d z2 0"
    by (rule block_of_cong [OF f2 l2 a0 a]) (simp add: tp z2(3) m)
  then show "block_of t d z' off = lossy t d z b" by (simp add: lossy_def z2(1))
  show "block_of t d z' off2 = block_of t d z off2"
    if "LENGTH('w) dvd off2" "off2 + maxbits z \<le> off \<or> off + maxbits z \<le> off2"
    by (rule block_of_cong [OF f lk that(1,1)]) (use that(2) in \<open>auto simp: tp\<close>)
qed

lemma length_lossy:
  fixes z :: "('w::len) zfp_stream"
  assumes "fixed_rate t d z"
  shows "length (lossy t d z b) = 4 ^ d"
proof -
  let ?e = "z\<lparr>stream := stream_open (\<lambda>_. 0) 0\<rparr>"
  have fe: "fixed_rate t d ?e" by (rule fixed_rate_likeD [OF _ assms]) simp
  obtain n z' where p: "put_block t d ?e 0 b = (n, z')" by (cases "put_block t d ?e 0 b")
  have "like ?e z'" by (rule put_get_block(3) [OF fe _ p]) simp
  then have "fixed_rate t d z'" using fe by (rule fixed_rate_likeD)
  then have "length (block_of t d z' 0) = 4 ^ d" by (rule get_block_fixed [where off = 0]) (simp, assumption)
  then show ?thesis by (simp add: lossy_def p)
qed

section \<open>Blocks of the codec object\<close>

text \<open>Whether or not a thread works on a copy of the stream, the buffer changes in the same way.\<close>

definition codec_like :: "('w::len) zfp_codec \<Rightarrow> 'w zfp_codec \<Rightarrow> bool" where
  "codec_like c c' \<longleftrightarrow> like (codec_stream c) (codec_stream c') \<and> thread_safety c' = thread_safety c"

lemma codec_like_refl [simp]: "codec_like c c"
  and codec_like_trans: "codec_like c c1 \<Longrightarrow> codec_like c1 c2 \<Longrightarrow> codec_like c c2"
  by (auto simp: codec_like_def intro: like_trans)

lemma clone_stream_id [simp]: "clone_stream z = z"
  by (simp add: clone_stream_def stream_clone_def)

lemma on_stream_tape:
  assumes "f (codec_stream c) = (x, z')" "like (codec_stream c) z'" "on_stream c f = (y, c')"
  shows "y = x" "codec_like c c'" "tape (stream (codec_stream c')) = tape (stream z')"
  using assms by (auto simp: on_stream_def codec_like_def drop_clone_def tape_def fun_eq_iff split: if_splits)

abbreviation codec_block :: "('i::len) word scalar \<Rightarrow> nat \<Rightarrow> ('w::len) zfp_codec \<Rightarrow> nat \<Rightarrow> 'i word list" where
  "codec_block t d c off \<equiv> block_of t d (codec_stream c) off"

lemma codec_put:
  fixes c :: "('w::len) zfp_codec"
  assumes f: "fixed_rate t d (codec_stream c)" and a: "LENGTH('w) dvd off"
    and p: "on_stream c (\<lambda>z. put_block t d z off b) = (n, c')"
  shows "n = maxbits (codec_stream c)" "codec_like c c'"
    and "codec_block t d c' off = lossy t d (codec_stream c) b"
    and "LENGTH('w) dvd off2 \<Longrightarrow> off2 + maxbits (codec_stream c) \<le> off \<or> off + maxbits (codec_stream c) \<le> off2 \<Longrightarrow>
      codec_block t d c' off2 = codec_block t d c off2"
proof -
  obtain m z' where z': "put_block t d (codec_stream c) off b = (m, z')" by (cases "put_block t d (codec_stream c) off b")
  note pg = put_get_block [OF f a z']
  note os = on_stream_tape [of "\<lambda>z. put_block t d z off b", OF z' pg(3) p]
  show "n = maxbits (codec_stream c)" "codec_like c c'" using os(1,2) pg(4) by simp_all
  have f': "fixed_rate t d z'" by (rule fixed_rate_likeD [OF pg(3) f])
  have l: "like z' (codec_stream c')" using like_trans [OF like_sym [OF pg(3)]] os(2) by (simp add: codec_like_def)
  have same: "codec_block t d c' k = block_of t d z' k" if "LENGTH('w) dvd k" for k
    by (rule block_of_cong [OF f' l that that]) (simp add: os(3))
  show "codec_block t d c' off = lossy t d (codec_stream c) b" using pg(1) same [OF a] by simp
  show "codec_block t d c' off2 = codec_block t d c off2"
    if "LENGTH('w) dvd off2" "off2 + maxbits (codec_stream c) \<le> off \<or> off + maxbits (codec_stream c) \<le> off2"
    using pg(2) [OF that] same [OF that(1)] by simp
qed

lemma codec_get:
  fixes c :: "('w::len) zfp_codec"
  assumes f: "fixed_rate t d (codec_stream c)" and a: "LENGTH('w) dvd off" and d: "length ss = d"
    and p: "on_stream c (\<lambda>z. get_scatter t ss shape m q z off) = ((n, m'), c')"
  shows "n = maxbits (codec_stream c)" "codec_like c c'" "m' = scatter_shape ss shape (codec_block t d c off) m q"
    and "LENGTH('w) dvd off2 \<Longrightarrow> codec_block t d c' off2 = codec_block t d c off2"
proof -
  obtain z' where z': "get_block t d (codec_stream c) off = ((maxbits (codec_stream c), codec_block t d c off), z')"
    "like (codec_stream c) z'" "tape (stream z') = tape (stream (codec_stream c))"
    using get_block_fixed [OF f a] by metis
  have g: "get_scatter t ss shape m q (codec_stream c) off = ((maxbits (codec_stream c), scatter_shape ss shape (codec_block t d c off) m q), z')"
    by (simp add: get_scatter_def d z'(1))
  note os = on_stream_tape [of "\<lambda>z. get_scatter t ss shape m q z off", OF g z'(2) p]
  show "n = maxbits (codec_stream c)" "codec_like c c'" "m' = scatter_shape ss shape (codec_block t d c off) m q"
    using os(1,2) by simp_all
  show "codec_block t d c' off2 = codec_block t d c off2" if "LENGTH('w) dvd off2"
    by (rule block_of_cong [OF f _ that that]) (use os in \<open>simp_all add: codec_like_def z'(3)\<close>)
qed

end
