(* ===== verification/Block_Store.thy ===== *)
theory Block_Store
  imports Array_Codec
begin

text \<open>
  The block store of a compressed array: \<^verbatim>\<open>include/zfp/internal/array/store.hpp\<close> and \<^verbatim>\<open>store1.hpp\<close> to \<^verbatim>\<open>store4.hpp\<close>. A store owns a buffer of
  compressed blocks, a codec that encodes and decodes single blocks of it, and an index that maps block numbers to bit offsets.
  The index is a template parameter of the code and the datatype \<open>index\<close> here. A member function that throws
  returns \<open>Inl\<close> the error. What newly allocated memory holds is an argument; allocation succeeds.

  The classes \<open>BlockStore1\<close> to \<open>BlockStore4\<close> have the same members; those whose code depends on the number of axes have a definition
  for each of them (\<open>store1_block_index\<close> and so on) and a function that selects by the number of sizes.
\<close>

section \<open>Block stores\<close>

text \<open>Sizes and numbers of blocks are lists with one entry per axis, \<open>x\<close> first. Whether memory is allocated is \<open>st_alloc\<close>; what it
  holds is the memory of the codec's stream.\<close>

record (overloaded) 'w block_store =
  st_alloc :: bool
  st_bytes :: nat
  st_references :: nat
  st_index :: index
  st_codec :: "'w zfp_codec"
  st_size :: "nat list"
  st_blocks :: "nat list"

datatype store_error = No_variable_rate | Mode_not_supported | Index_error index_error

text \<open>Arrays hold floating-point numbers; there is no trait of other types.\<close>

definition trait_type :: "('i::len) word scalar \<Rightarrow> zfp_type" where
  "trait_type t = (case t of Integral \<Rightarrow> zfp_type_none | Floating _ \<Rightarrow> if LENGTH('i) = 32 then zfp_type_float else zfp_type_double)"

text \<open>The shape \<open>0 \<le> m \<le> 3\<close> of the block that contains index \<open>i\<close>, without conditionals.\<close>

definition shape_code :: "uint64 \<Rightarrow> uint64 \<Rightarrow> uint32" where
  "shape_code i n =
    (let m = i XOR n;
         m = m - 4;
         m = drop_bit (64 - 2) m;
         m = m AND - n
     in ucast m)"

text \<open>The members that depend on the number of axes.\<close>

definition store1_block_index :: "nat \<Rightarrow> nat \<Rightarrow> nat" where
  "store1_block_index bx i = i div 4"

definition store2_block_index :: "nat \<Rightarrow> nat \<Rightarrow> nat \<Rightarrow> nat \<Rightarrow> nat" where
  "store2_block_index bx bY i j = (i div 4) + bx * (j div 4)"

definition store3_block_index :: "nat \<Rightarrow> nat \<Rightarrow> nat \<Rightarrow> nat \<Rightarrow> nat \<Rightarrow> nat \<Rightarrow> nat" where
  "store3_block_index bx bY bz i j k = (i div 4) + bx * ((j div 4) + bY * (k div 4))"

definition store4_block_index :: "nat \<Rightarrow> nat \<Rightarrow> nat \<Rightarrow> nat \<Rightarrow> nat \<Rightarrow> nat \<Rightarrow> nat \<Rightarrow> nat \<Rightarrow> nat" where
  "store4_block_index bx bY bz bw i j k l = (i div 4) + bx * ((j div 4) + bY * ((k div 4) + bz * (l div 4)))"

abbreviation shape_at :: "nat \<Rightarrow> nat \<Rightarrow> nat" where
  "shape_at i n \<equiv> unat (shape_code (of_nat i) (of_nat n))"

definition store1_block_shape :: "nat \<Rightarrow> nat \<Rightarrow> nat" where
  "store1_block_shape mx b =
    (let i = 4 * b
     in shape_at i mx)"

definition store2_block_shape :: "nat \<Rightarrow> nat \<Rightarrow> nat \<Rightarrow> nat \<Rightarrow> nat \<Rightarrow> nat" where
  "store2_block_shape mx my bx bY b =
    (let i = 4 * (b mod bx); b = b div bx;
         j = 4 * b
     in shape_at i mx + 4 * shape_at j my)"

definition store3_block_shape :: "nat \<Rightarrow> nat \<Rightarrow> nat \<Rightarrow> nat \<Rightarrow> nat \<Rightarrow> nat \<Rightarrow> nat \<Rightarrow> nat" where
  "store3_block_shape mx my mz bx bY bz b =
    (let i = 4 * (b mod bx); b = b div bx;
         j = 4 * (b mod bY); b = b div bY;
         k = 4 * b
     in shape_at i mx + 4 * (shape_at j my + 4 * shape_at k mz))"

definition store4_block_shape :: "nat \<Rightarrow> nat \<Rightarrow> nat \<Rightarrow> nat \<Rightarrow> nat \<Rightarrow> nat \<Rightarrow> nat \<Rightarrow> nat \<Rightarrow> nat \<Rightarrow> nat" where
  "store4_block_shape mx my mz mw bx bY bz bw b =
    (let i = 4 * (b mod bx); b = b div bx;
         j = 4 * (b mod bY); b = b div bY;
         k = 4 * (b mod bz); b = b div bz;
         l = 4 * b
     in shape_at i mx + 4 * (shape_at j my + 4 * (shape_at k mz + 4 * shape_at l mw)))"

definition store_block_index :: "('w::len) block_store \<Rightarrow> nat list \<Rightarrow> nat" where
  "store_block_index st xs =
    (case (st_blocks st, xs) of
       ([bx], [i]) \<Rightarrow> store1_block_index bx i
     | ([bx, bY], [i, j]) \<Rightarrow> store2_block_index bx bY i j
     | ([bx, bY, bz], [i, j, k]) \<Rightarrow> store3_block_index bx bY bz i j k
     | ([bx, bY, bz, bw], [i, j, k, l]) \<Rightarrow> store4_block_index bx bY bz bw i j k l
     | _ \<Rightarrow> 0)"

definition store_block_shape :: "('w::len) block_store \<Rightarrow> nat \<Rightarrow> nat" where
  "store_block_shape st b =
    (case (st_size st, st_blocks st) of
       ([mx], [bx]) \<Rightarrow> store1_block_shape mx b
     | ([mx, my], [bx, bY]) \<Rightarrow> store2_block_shape mx my bx bY b
     | ([mx, my, mz], [bx, bY, bz]) \<Rightarrow> store3_block_shape mx my mz bx bY bz b
     | ([mx, my, mz, mw], [bx, bY, bz, bw]) \<Rightarrow> store4_block_shape mx my mz mw bx bY bz bw b
     | _ \<Rightarrow> 0)"

definition store_blocks :: "('w::len) block_store \<Rightarrow> nat" where
  "store_blocks st = prod_list (st_blocks st)"

definition store1_set_size :: "index_memory \<Rightarrow> ('w::len) block_store \<Rightarrow> nat \<Rightarrow> 'w block_store" where
  "store1_set_size fresh st mx =
    (let st = (if mx = 0 then st\<lparr>st_size := [0], st_blocks := [0]\<rparr>
               else st\<lparr>st_size := [mx], st_blocks := [(mx + 3) div 4]\<rparr>)
     in st\<lparr>st_index := index_resize fresh (st_index st) (store_blocks st)\<rparr>)"

definition store2_set_size :: "index_memory \<Rightarrow> ('w::len) block_store \<Rightarrow> nat \<Rightarrow> nat \<Rightarrow> 'w block_store" where
  "store2_set_size fresh st mx my =
    (let st = (if mx = 0 \<or> my = 0 then st\<lparr>st_size := [0, 0], st_blocks := [0, 0]\<rparr>
               else st\<lparr>st_size := [mx, my], st_blocks := [(mx + 3) div 4, (my + 3) div 4]\<rparr>)
     in st\<lparr>st_index := index_resize fresh (st_index st) (store_blocks st)\<rparr>)"

definition store3_set_size :: "index_memory \<Rightarrow> ('w::len) block_store \<Rightarrow> nat \<Rightarrow> nat \<Rightarrow> nat \<Rightarrow> 'w block_store" where
  "store3_set_size fresh st mx my mz =
    (let st = (if mx = 0 \<or> my = 0 \<or> mz = 0 then st\<lparr>st_size := [0, 0, 0], st_blocks := [0, 0, 0]\<rparr>
               else st\<lparr>st_size := [mx, my, mz], st_blocks := [(mx + 3) div 4, (my + 3) div 4, (mz + 3) div 4]\<rparr>)
     in st\<lparr>st_index := index_resize fresh (st_index st) (store_blocks st)\<rparr>)"

definition store4_set_size :: "index_memory \<Rightarrow> ('w::len) block_store \<Rightarrow> nat \<Rightarrow> nat \<Rightarrow> nat \<Rightarrow> nat \<Rightarrow> 'w block_store" where
  "store4_set_size fresh st mx my mz mw =
    (let st = (if mx = 0 \<or> my = 0 \<or> mz = 0 \<or> mw = 0 then st\<lparr>st_size := [0, 0, 0, 0], st_blocks := [0, 0, 0, 0]\<rparr>
               else st\<lparr>st_size := [mx, my, mz, mw],
                       st_blocks := [(mx + 3) div 4, (my + 3) div 4, (mz + 3) div 4, (mw + 3) div 4]\<rparr>)
     in st\<lparr>st_index := index_resize fresh (st_index st) (store_blocks st)\<rparr>)"

definition store_set_size :: "index_memory \<Rightarrow> ('w::len) block_store \<Rightarrow> nat list \<Rightarrow> 'w block_store" where
  "store_set_size fresh st ns =
    (case ns of
       [mx] \<Rightarrow> store1_set_size fresh st mx
     | [mx, my] \<Rightarrow> store2_set_size fresh st mx my
     | [mx, my, mz] \<Rightarrow> store3_set_size fresh st mx my mz
     | [mx, my, mz, mw] \<Rightarrow> store4_set_size fresh st mx my mz mw
     | _ \<Rightarrow> st)"

text \<open>The field that describes the whole array.\<close>

definition store_field :: "('i::len) word scalar \<Rightarrow> ('w::len) block_store \<Rightarrow> zfp_field" where
  "store_field t st =
    (case st_size st of
       [mx] \<Rightarrow> zfp_field_1d None (trait_type t) mx
     | [mx, my] \<Rightarrow> zfp_field_2d None (trait_type t) mx my
     | [mx, my, mz] \<Rightarrow> zfp_field_3d None (trait_type t) mx my mz
     | [mx, my, mz, mw] \<Rightarrow> zfp_field_4d None (trait_type t) mx my mz mw
     | _ \<Rightarrow> zfp_field_alloc)"

definition store_buffer_size :: "('i::len) word scalar \<Rightarrow> ('w::len) block_store \<Rightarrow> nat" where
  "store_buffer_size t st = codec_buffer_size (st_codec st) (store_field t st)"

section \<open>Memory of a store\<close>

definition codec_close :: "('w::len) zfp_codec \<Rightarrow> 'w zfp_codec" where
  "codec_close c = c\<lparr>codec_stream := zfp_stream_set_bit_stream (codec_stream c) (stream_open (\<lambda>_. 0) 0)\<rparr>"

definition store_free :: "('w::len) block_store \<Rightarrow> 'w block_store" where
  "store_free st =
    (if st_alloc st then st\<lparr>st_alloc := False, st_bytes := 0, st_codec := codec_close (st_codec st)\<rparr> else st)"

text \<open>\<open>buf\<close> is what the allocated memory holds.\<close>

definition store_alloc :: "('i::len) word scalar \<Rightarrow> (nat \<Rightarrow> 'w word) \<Rightarrow> ('w::len) block_store \<Rightarrow> bool \<Rightarrow> 'w block_store" where
  "store_alloc t buf st zero =
    (let st = store_free st;
         bytes = store_buffer_size t st;
         buf = (if zero then \<lambda>i. if i < bytes div (LENGTH('w) div 8) then 0 else buf i else buf)
     in st\<lparr>st_alloc := True, st_bytes := bytes, st_codec := codec_open (st_codec st) buf bytes\<rparr>)"

definition store_clear :: "('i::len) word scalar \<Rightarrow> (nat \<Rightarrow> 'w word) \<Rightarrow> ('w::len) block_store \<Rightarrow> 'w block_store" where
  "store_clear t buf st = store_alloc t buf (st\<lparr>st_index := index_clear (st_index st)\<rparr>) True"

definition lift_index :: "index_error + 'a \<Rightarrow> store_error + 'a" where
  "lift_index r = map_sum Index_error id r"

definition store_flush :: "('w::len) block_store \<Rightarrow> store_error + 'w block_store" where
  "store_flush st = map_sum id (\<lambda>ix. st\<lparr>st_index := ix\<rparr>) (lift_index (index_flush (st_index st)))"

definition store_compact :: "('w::len) block_store \<Rightarrow> 'w block_store" where
  "store_compact st =
    (let n = round_up (unat (index_range (st_index st))) (codec_alignment TYPE('w) * 8) div 8
     in if n < st_bytes st
        then st\<lparr>st_bytes := n, st_codec := codec_open (codec_close (st_codec st)) (mem (stream (codec_stream (st_codec st)))) n\<rparr>
        else st)"

text \<open>With OpenMP, views of the array are counted; with more than one, the codec is made thread safe.\<close>

definition store_reference :: "bool \<Rightarrow> ('w::len) block_store \<Rightarrow> 'w block_store" where
  "store_reference omp st =
    (if omp then let n = st_references st + 1 in st\<lparr>st_references := n, st_codec := (st_codec st)\<lparr>thread_safety := 1 < n\<rparr>\<rparr> else st)"

definition store_unreference :: "bool \<Rightarrow> ('w::len) block_store \<Rightarrow> 'w block_store" where
  "store_unreference omp st =
    (if omp then let n = st_references st - 1 in st\<lparr>st_references := n, st_codec := (st_codec st)\<lparr>thread_safety := 1 < n\<rparr>\<rparr> else st)"

text \<open>A copy has memory of its own that holds the same.\<close>

definition store_deep_copy :: "('w::len) block_store \<Rightarrow> 'w block_store" where
  "store_deep_copy s = s\<lparr>st_codec := codec_open (st_codec s) (mem (stream (codec_stream (st_codec s)))) (st_bytes s)\<rparr>"

definition store_resize ::
  "('i::len) word scalar \<Rightarrow> index_memory \<Rightarrow> (nat \<Rightarrow> 'w word) \<Rightarrow> ('w::len) block_store \<Rightarrow> nat list \<Rightarrow> bool \<Rightarrow> 'w block_store" where
  "store_resize t fresh buf st ns zero =
    (let st = store_free st;
         st = store_set_size fresh st ns
     in if store_blocks st \<noteq> 0 then store_alloc t buf st zero else st)"

section \<open>Compression parameters of a store\<close>

definition set_variable_rate :: "('w::len) block_store \<Rightarrow> store_error + unit" where
  "set_variable_rate st = (if \<not> index_has_variable_rate (st_index st) then Inl No_variable_rate else Inr ())"

definition store_set_reversible ::
  "('i::len) word scalar \<Rightarrow> (nat \<Rightarrow> 'w word) \<Rightarrow> ('w::len) block_store \<Rightarrow> store_error + 'w block_store" where
  "store_set_reversible t buf st =
    (case set_variable_rate st of Inl e \<Rightarrow> Inl e
     | Inr _ \<Rightarrow> Inr (store_clear t buf (st\<lparr>st_codec := codec_set_reversible (st_codec st)\<rparr>)))"

definition store_set_rate ::
  "('i::len) word scalar \<Rightarrow> (nat \<Rightarrow> 'w word) \<Rightarrow> ('w::len) block_store \<Rightarrow> rat \<Rightarrow> bool \<Rightarrow> store_error + rat \<times> 'w block_store" where
  "store_set_rate t buf st rate align =
    (let (rate, c) = codec_set_rate (trait_type t) (length (st_size st)) (st_codec st) rate align
     in case lift_index (index_set_all (st_index st) (of_nat (maxbits (codec_stream c)))) of Inl e \<Rightarrow> Inl e
        | Inr ix \<Rightarrow> Inr (rate, store_alloc t buf (st\<lparr>st_codec := c, st_index := ix\<rparr>) True))"

definition store_set_precision ::
  "('i::len) word scalar \<Rightarrow> (nat \<Rightarrow> 'w word) \<Rightarrow> ('w::len) block_store \<Rightarrow> nat \<Rightarrow> store_error + nat \<times> 'w block_store" where
  "store_set_precision t buf st prec =
    (case set_variable_rate st of Inl e \<Rightarrow> Inl e
     | Inr _ \<Rightarrow> let (prec, c) = codec_set_precision (st_codec st) prec in Inr (prec, store_clear t buf (st\<lparr>st_codec := c\<rparr>)))"

definition store_set_accuracy ::
  "uint64 unspecified \<Rightarrow> ('i::len) word scalar \<Rightarrow> (nat \<Rightarrow> 'w word) \<Rightarrow> ('w::len) block_store \<Rightarrow> uint64 \<Rightarrow> store_error + uint64 \<times> 'w block_store" where
  "store_set_accuracy u t buf st tolerance =
    (case set_variable_rate st of Inl e \<Rightarrow> Inl e
     | Inr _ \<Rightarrow> let (tolerance, c) = codec_set_accuracy u (st_codec st) tolerance in Inr (tolerance, store_clear t buf (st\<lparr>st_codec := c\<rparr>)))"

definition store_set_params ::
  "('i::len) word scalar \<Rightarrow> (nat \<Rightarrow> 'w word) \<Rightarrow> ('w::len) block_store \<Rightarrow> nat \<Rightarrow> nat \<Rightarrow> nat \<Rightarrow> int \<Rightarrow> store_error + bool \<times> 'w block_store" where
  "store_set_params t buf st mi ma pr ex =
    (case (if mi \<noteq> ma then set_variable_rate st else Inr ()) of Inl e \<Rightarrow> Inl e
     | Inr _ \<Rightarrow> let (status, c) = codec_set_params (st_codec st) mi ma pr ex in Inr (status, store_clear t buf (st\<lparr>st_codec := c\<rparr>)))"

definition store_set_config ::
  "uint64 unspecified \<Rightarrow> ('i::len) word scalar \<Rightarrow> (nat \<Rightarrow> 'w word) \<Rightarrow> ('w::len) block_store \<Rightarrow> zfp_config \<Rightarrow> store_error + 'w block_store" where
  "store_set_config u t buf st config =
    (case (config_mode config, config_arg config) of
       (zfp_mode_reversible, _) \<Rightarrow> store_set_reversible t buf st
     | (zfp_mode_fixed_rate, Rate rate) \<Rightarrow>
         map_sum id snd (if rate < 0 then store_set_rate t buf st (- rate) True else store_set_rate t buf st rate False)
     | (zfp_mode_fixed_precision, Precision prec) \<Rightarrow> map_sum id snd (store_set_precision t buf st prec)
     | (zfp_mode_fixed_accuracy, Tolerance tolerance) \<Rightarrow> map_sum id snd (store_set_accuracy u t buf st tolerance)
     | (zfp_mode_expert, Expert mi ma pr ex) \<Rightarrow> map_sum id snd (store_set_params t buf st mi ma pr ex)
     | _ \<Rightarrow> Inl Mode_not_supported)"

text \<open>An empty store, and one of a given size and configuration. \<open>ix\<close> is the index for no blocks.\<close>

definition store_default :: "index \<Rightarrow> nat \<Rightarrow> ('w::len) block_store" where
  "store_default ix d = \<lparr>st_alloc = False, st_bytes = 0, st_references = 0, st_index = ix,
    st_codec = \<lparr>codec_stream = zfp_stream_open (stream_open (\<lambda>_. 0) 0), thread_safety = False\<rparr>,
    st_size = replicate d 0, st_blocks = replicate d 0\<rparr>"

definition store_new ::
  "uint64 unspecified \<Rightarrow> ('i::len) word scalar \<Rightarrow> index_memory \<Rightarrow> (nat \<Rightarrow> 'w word) \<Rightarrow> index \<Rightarrow> nat list \<Rightarrow> zfp_config \<Rightarrow>
    store_error + ('w::len) block_store" where
  "store_new u t fresh buf ix ns config =
    store_set_config u t buf (store_set_size fresh (store_default ix (length ns)) ns) config"

section \<open>Blocks of a store\<close>

definition store_offset :: "('w::len) block_store \<Rightarrow> nat \<Rightarrow> nat" where
  "store_offset st b = unat (index_block_offset (st_index st) b)"

definition store_encode ::
  "('i::len) word scalar \<Rightarrow> ('w::len) block_store \<Rightarrow> nat \<Rightarrow> 'i word array \<Rightarrow> int \<Rightarrow> store_error + nat \<times> 'w block_store" where
  "store_encode t st b a p =
    (let (n, c) = codec_encode t (length (st_size st)) (st_codec st) (store_offset st b) (store_block_shape st b) a p
     in map_sum id (\<lambda>ix. (n, st\<lparr>st_codec := c, st_index := ix\<rparr>)) (lift_index (index_set (st_index st) b (of_nat n))))"

definition store_encode_strided ::
  "('i::len) word scalar \<Rightarrow> ('w::len) block_store \<Rightarrow> nat \<Rightarrow> 'i word array \<Rightarrow> int \<Rightarrow> int list \<Rightarrow> store_error + nat \<times> 'w block_store" where
  "store_encode_strided t st b a p ss =
    (let (n, c) = codec_encode_strided t (st_codec st) (store_offset st b) (store_block_shape st b) a p ss
     in map_sum id (\<lambda>ix. (n, st\<lparr>st_codec := c, st_index := ix\<rparr>)) (lift_index (index_set (st_index st) b (of_nat n))))"

definition store_decode ::
  "('i::len) word scalar \<Rightarrow> ('w::len) block_store \<Rightarrow> nat \<Rightarrow> 'i word array \<Rightarrow> int \<Rightarrow> (nat \<times> 'i word array) \<times> 'w block_store" where
  "store_decode t st b a p =
    (let (r, c) = codec_decode t (length (st_size st)) (st_codec st) (store_offset st b) (store_block_shape st b) a p
     in (r, st\<lparr>st_codec := c\<rparr>))"

definition store_decode_strided ::
  "('i::len) word scalar \<Rightarrow> ('w::len) block_store \<Rightarrow> nat \<Rightarrow> 'i word array \<Rightarrow> int \<Rightarrow> int list \<Rightarrow> (nat \<times> 'i word array) \<times> 'w block_store" where
  "store_decode_strided t st b a p ss =
    (let (r, c) = codec_decode_strided t (st_codec st) (store_offset st b) (store_block_shape st b) a p ss
     in (r, st\<lparr>st_codec := c\<rparr>))"

text \<open>What the cache uses of a store: a cache line is compressed as a block and a block is decompressed to a line.\<close>

definition line_data :: "'a list \<Rightarrow> 'a array" where
  "line_data l = (\<lambda>k. l ! nat k)"

definition data_line :: "nat \<Rightarrow> 'a array \<Rightarrow> 'a list" where
  "data_line d a = map (\<lambda>i. a (int i)) [0..<4 ^ d]"

definition encode_line :: "('i::len) word scalar \<Rightarrow> ('w::len) block_store \<Rightarrow> nat \<Rightarrow> 'i word list \<Rightarrow> store_error + 'w block_store" where
  "encode_line t st b l = map_sum id snd (store_encode t st b (line_data l) 0)"

definition decode_line :: "('i::len) word scalar \<Rightarrow> ('w::len) block_store \<Rightarrow> nat \<Rightarrow> 'i word list \<Rightarrow> 'i word list \<times> 'w block_store" where
  "decode_line t st b l =
    (let ((n, a), st) = store_decode t st b (line_data l) 0 in (data_line (length (st_size st)) a, st))"

end
