(* ===== verification/Block_Cache.thy ===== *)
theory Block_Cache
  imports Zfp_Prelude
begin

text \<open>
  The cache of decompressed blocks of a compressed array: \<^verbatim>\<open>include/zfp/internal/array/cache.hpp\<close> (a direct-mapped, or with a build option
  two-way skew-associative, write-back cache of lines with 32-bit tags) and what \<^verbatim>\<open>cache1.hpp\<close> to \<^verbatim>\<open>cache4.hpp\<close> build on it for
  blocks of a store. A tag holds the number of the cached block plus one, and whether the line was modified; tag 0 is an
  unused line. The arrays of tags and lines are functions of the position.
\<close>

section \<open>Tags\<close>

type_synonym tag = uint32

definition tag_of :: "uint32 \<Rightarrow> bool \<Rightarrow> tag" where
  "tag_of x d = 2 * x + of_bool d"

definition tag_index :: "tag \<Rightarrow> uint32" where
  "tag_index t = drop_bit 1 t"

definition tag_dirty :: "tag \<Rightarrow> bool" where
  "tag_dirty t \<longleftrightarrow> t AND 1 \<noteq> 0"

definition tag_used :: "tag \<Rightarrow> bool" where
  "tag_used t \<longleftrightarrow> t \<noteq> 0"

definition tag_mark :: "tag \<Rightarrow> tag" where
  "tag_mark t = t OR 1"

section \<open>Cache of lines\<close>

record 'l cache =
  cmask :: uint32
  ctag :: "nat \<Rightarrow> tag"
  cline :: "nat \<Rightarrow> 'l"

text \<open>Options of the build: a two-way skew-associative cache, and which hash function it uses.\<close>

record cache_build =
  twoway :: bool
  fast_hash :: bool

definition cache_size :: "'l cache \<Rightarrow> uint32" where
  "cache_size c = cmask c + 1"

definition primary :: "'l cache \<Rightarrow> uint32 \<Rightarrow> nat" where
  "primary c x = unat (x AND cmask c)"

definition secondary :: "cache_build \<Rightarrow> 'l cache \<Rightarrow> uint32 \<Rightarrow> nat" where
  "secondary bd c x =
    (if fast_hash bd then
       let x = x - push_bit 7 x; x = x XOR drop_bit 16 x; x = x - push_bit 3 x
       in unat (x AND cmask c)
     else
       let x = x - push_bit 6 x; x = x XOR drop_bit 17 x; x = x - push_bit 9 x; x = x XOR push_bit 4 x;
           x = x - push_bit 3 x; x = x XOR push_bit 10 x; x = x XOR drop_bit 15 x
       in unat (x AND cmask c))"

text \<open>The smallest mask \<open>2 ^ k - 1\<close> for a number of lines.\<close>

lemma mask_step_less: "m AND (m + 1) \<noteq> 0 \<Longrightarrow> unat m < unat (m OR (m + 1))" for m :: uint32
proof -
  assume a: "m AND (m + 1) \<noteq> 0"
  then have "1 + m \<noteq> 0" by (auto simp: add.commute)
  then have "unat (m + 1) = Suc (unat m)" using unatSuc [of m] by (simp add: add.commute)
  moreover have "m + 1 \<le> m OR (m + 1)" using le_word_or2 [of "m + 1" m] by (simp add: or.commute)
  ultimately show ?thesis by (simp add: word_le_nat_alt)
qed

function mask_loop :: "uint32 \<Rightarrow> uint32" where
  "mask_loop m = (if m AND (m + 1) \<noteq> 0 then mask_loop (m OR (m + 1)) else m)"
  by pat_completeness auto
termination
  by (relation "measure (\<lambda>m. 2 ^ 32 - unat m)")
     (use unsigned_less [where 'b = 32] in \<open>auto dest!: mask_step_less intro!: diff_less_mono2\<close>)

declare mask_loop.simps [simp del]

text \<open>The loop that clears the tags. The counter has 32 bits, so that the condition of the loop holds for all counters when
  the mask is the largest one; not to end is \<open>None\<close>.\<close>

partial_function (option) clear_loop :: "uint32 \<Rightarrow> uint32 \<Rightarrow> (nat \<Rightarrow> tag) \<Rightarrow> (nat \<Rightarrow> tag) option" where
  "clear_loop i m t = (if i \<le> m then clear_loop (i + 1) m (t(unat i := 0)) else Some t)"

definition cache_clear :: "'l cache \<Rightarrow> 'l cache option" where
  "cache_clear c = map_option (\<lambda>t. c\<lparr>ctag := t\<rparr>) (clear_loop 0 (cmask c) (ctag c))"

text \<open>What the reallocated arrays hold is an argument.\<close>

definition cache_resize :: "(nat \<Rightarrow> tag) \<Rightarrow> (nat \<Rightarrow> 'l) \<Rightarrow> 'l cache \<Rightarrow> uint32 \<Rightarrow> 'l cache option" where
  "cache_resize tags lines c minsize =
    (let m = mask_loop (if minsize \<noteq> 0 then minsize - 1 else 1)
     in cache_clear (c\<lparr>cmask := m, ctag := tags, cline := lines\<rparr>))"

definition cache_new :: "(nat \<Rightarrow> tag) \<Rightarrow> (nat \<Rightarrow> 'l) \<Rightarrow> uint32 \<Rightarrow> 'l cache option" where
  "cache_new tags lines minsize = cache_resize tags lines \<lparr>cmask = 0, ctag = tags, cline = lines\<rparr> minsize"

definition cache_lookup :: "cache_build \<Rightarrow> 'l cache \<Rightarrow> uint32 \<Rightarrow> bool \<Rightarrow> nat option \<times> 'l cache" where
  "cache_lookup bd c x write =
    (let i = primary c x
     in if tag_index (ctag c i) = x then (Some i, if write then c\<lparr>ctag := (ctag c)(i := tag_mark (ctag c i))\<rparr> else c)
        else if twoway bd then
          let j = secondary bd c x
          in if tag_index (ctag c j) = x then (Some j, if write then c\<lparr>ctag := (ctag c)(i := tag_mark (ctag c i))\<rparr> else c)
             else (None, c)
        else (None, c))"

definition cache_access :: "cache_build \<Rightarrow> 'l cache \<Rightarrow> uint32 \<Rightarrow> bool \<Rightarrow> nat \<times> tag \<times> 'l cache" where
  "cache_access bd c x write =
    (let i = primary c x; j = secondary bd c x;
         hit = (\<lambda>i. let t = (if write then tag_mark (ctag c i) else ctag c i) in (i, t, c\<lparr>ctag := (ctag c)(i := t)\<rparr>))
     in if tag_index (ctag c i) = x then hit i
        else if twoway bd \<and> tag_index (ctag c j) = x then hit j
        else
          let i = (if twoway bd
                   then if tag_used (ctag c j) \<and> (\<not> tag_dirty (ctag c i) \<or> tag_dirty (ctag c j)) then i else j
                   else i)
          in (i, ctag c i, c\<lparr>ctag := (ctag c)(i := tag_of x write)\<rparr>))"

definition cache_flush_line :: "'l cache \<Rightarrow> nat \<Rightarrow> 'l cache" where
  "cache_flush_line c i = c\<lparr>ctag := (ctag c)(i := 0)\<rparr>"

text \<open>The iterator: the next line in use, from line \<open>i\<close> on. The mask is not the largest one, with which no cache can be made.\<close>

function next_used :: "'l cache \<Rightarrow> nat \<Rightarrow> nat option" where
  "next_used c i =
    (if i \<le> unat (cmask c) then if \<not> tag_used (ctag c i) then next_used c (i + 1) else Some i else None)"
  by pat_completeness auto
termination by (relation "measure (\<lambda>(c, i). Suc (unat (cmask c)) - i)") auto

declare next_used.simps [simp del]

definition iterator_advance :: "'l cache \<Rightarrow> nat option \<Rightarrow> nat option" where
  "iterator_advance c p = (case p of None \<Rightarrow> None | Some i \<Rightarrow> next_used c (i + 1))"

definition iterator_first :: "'l cache \<Rightarrow> nat option" where
  "iterator_first c = (if \<not> tag_used (ctag c 0) then iterator_advance c (Some 0) else Some 0)"

section \<open>Cache of blocks\<close>

text \<open>
  The store behind the cache is a template parameter of the code and the pair \<open>enc\<close>, \<open>dec\<close> here: \<open>enc\<close> compresses a line as a
  block of the store, or fails; \<open>dec\<close> decompresses a block into a line.
\<close>

text \<open>The line for a block; the block that it replaces is compressed, if it was modified, and the block is fetched.\<close>

definition cache_line ::
  "cache_build \<Rightarrow> ('s \<Rightarrow> nat \<Rightarrow> 'l \<Rightarrow> 'e + 's) \<Rightarrow> ('s \<Rightarrow> nat \<Rightarrow> 'l \<Rightarrow> 'l \<times> 's) \<Rightarrow> 'l cache \<times> 's \<Rightarrow> nat \<Rightarrow> bool \<Rightarrow> 'e + nat \<times> 'l cache \<times> 's" where
  "cache_line bd enc dec = (\<lambda>(c, st) block_index write.
    let (p, t, c) = cache_access bd c (of_nat block_index + 1) write;
        stored_block_index = unat (tag_index t - 1)
    in if stored_block_index \<noteq> block_index then
         case (if tag_dirty t then enc st stored_block_index (cline c p) else Inr st) of
           Inl e \<Rightarrow> Inl e
         | Inr st \<Rightarrow> let (l, st) = dec st block_index (cline c p) in Inr (p, c\<lparr>cline := (cline c)(p := l)\<rparr>, st)
       else Inr (p, c, st))"

text \<open>Compress all modified lines; \<open>p\<close> is the iterator.\<close>

lemma next_used_bounds: "next_used c i = Some j \<Longrightarrow> i \<le> j \<and> j \<le> unat (cmask c)"
  by (induction c i rule: next_used.induct) (subst (asm) next_used.simps, force split: if_splits)

lemma next_used_cmask [simp]: "cmask (cache_flush_line c i) = cmask c"
  by (simp add: cache_flush_line_def)

function cache_flush_loop :: "('s \<Rightarrow> nat \<Rightarrow> 'l \<Rightarrow> 'e + 's) \<Rightarrow> nat option \<Rightarrow> 'l cache \<times> 's \<Rightarrow> 'e + 'l cache \<times> 's" where
  "cache_flush_loop enc p (c, st) =
    (case p of
       None \<Rightarrow> Inr (c, st)
     | Some i \<Rightarrow>
         (case (if tag_dirty (ctag c i) then enc st (unat (tag_index (ctag c i) - 1)) (cline c i) else Inr st) of
            Inl e \<Rightarrow> Inl e
          | Inr st \<Rightarrow>
              let c = cache_flush_line c i
              in cache_flush_loop enc (iterator_advance c p) (c, st)))"
  by pat_completeness auto
termination
  by (relation "measure (\<lambda>(enc, p, c, st). case p of None \<Rightarrow> 0 | Some i \<Rightarrow> Suc (Suc (unat (cmask c)) - i))")
     (auto simp: iterator_advance_def split: option.splits dest: next_used_bounds)

declare cache_flush_loop.simps [simp del]

definition cache_flush :: "('s \<Rightarrow> nat \<Rightarrow> 'l \<Rightarrow> 'e + 's) \<Rightarrow> 'l cache \<times> 's \<Rightarrow> 'e + 'l cache \<times> 's" where
  "cache_flush enc = (\<lambda>(c, st). cache_flush_loop enc (iterator_first c) (c, st))"

text \<open>The number of lines for an array of \<open>blocks\<close> blocks: a power of two of the order of its square root.\<close>

partial_function (option) lines_loop :: "uint64 \<Rightarrow> uint64 \<Rightarrow> uint64 option" where
  "lines_loop blocks m = (if m * m < blocks then lines_loop blocks (m * 2) else Some m)"

definition default_lines :: "uint64 \<Rightarrow> uint32 option" where
  "default_lines blocks = map_option ucast (lines_loop blocks 1)"

text \<open>\<open>width\<close> is the size of a line in bytes. The number of lines is \<open>None\<close> when the loop does not end.\<close>

datatype cache_error = Too_large_for_cache

definition cache_lines :: "uint64 \<Rightarrow> uint64 \<Rightarrow> uint64 \<Rightarrow> cache_error + uint32 option" where
  "cache_lines width bytes blocks =
    (if drop_bit 31 blocks \<noteq> 0 then Inl Too_large_for_cache
     else Inr (map_option (\<lambda>n. max n 1)
       (if bytes \<noteq> 0 then Some (ucast ((bytes + width - 1) div width)) else default_lines blocks)))"

section \<open>Sizes\<close>

lemma tag_dirty_bit: "tag_dirty t = bit t 0"
  by (simp add: tag_dirty_def and_one_eq mod2_eq_if bit_0)

lemma tag_of_parts:
  assumes "x < 2 ^ 31"
  shows "tag_index (tag_of x d) = x" "tag_dirty (tag_of x d) = d"
proof -
  have u: "unat (tag_of x d) = 2 * unat x + of_bool d"
  proof -
    have "unat x < 2 ^ 31" using assms by (simp add: word_less_nat_alt)
    then show ?thesis by (cases d) (simp_all add: tag_of_def unat_word_ariths)
  qed
  have "unat (tag_index (tag_of x d)) = unat x"
    unfolding tag_index_def unat_drop_bit_eq u by (cases d) (simp_all add: drop_bit_Suc)
  then show "tag_index (tag_of x d) = x" by (simp add: word_unat_eq_iff)
  have "bit (unat (tag_of x d)) 0 = d" unfolding u by (simp add: bit_0)
  then show "tag_dirty (tag_of x d) = d" by (simp add: tag_dirty_bit bit_unsigned_iff)
qed

lemma tag_mark_parts: "tag_index (tag_mark t) = tag_index t" "tag_dirty (tag_mark t)" "tag_used (tag_mark t)"
proof -
  have b: "bit (tag_mark t) i \<longleftrightarrow> bit t i \<or> i = 0" for i by (auto simp: tag_mark_def bit_or_iff bit_1_iff)
  show "tag_index (tag_mark t) = tag_index t" by (rule bit_word_eqI) (simp add: tag_index_def bit_drop_bit_eq b)
  show "tag_dirty (tag_mark t)" by (simp add: tag_dirty_bit b)
  have "tag_mark t \<noteq> 0" using b [of 0] by (metis bit_0_eq bot_apply bot_bool_def)
  then show "tag_used (tag_mark t)" by (simp add: tag_used_def)
qed

lemma tag_zero: "tag_index 0 = 0" "\<not> tag_dirty 0" "\<not> tag_used 0"
  by (simp_all add: tag_index_def tag_dirty_def tag_used_def)

end
