(* ===== verification/Cached_Array.thy ===== *)
theory Cached_Array
  imports Block_Store
    Block_Cache
begin

text \<open>
  The compressed arrays \<^verbatim>\<open>include/zfp/array1.hpp\<close> to \<^verbatim>\<open>array4.hpp\<close> and the cache of their blocks in \<^verbatim>\<open>include/zfp/internal/array/cache1.hpp\<close> to
  \<^verbatim>\<open>cache4.hpp\<close>: a pair of a cache of lines and a store. A line is the list of the \<open>4 ^ d\<close> values of a block. Elements are addressed by the list of
  their indices, \<open>x\<close> first.
\<close>

section \<open>Cache lines\<close>

text \<open>The place of an element in the line of its block.\<close>

definition line1_index :: "nat \<Rightarrow> nat" where
  "line1_index i = i mod 4"

definition line2_index :: "nat \<Rightarrow> nat \<Rightarrow> nat" where
  "line2_index i j = (i mod 4) + 4 * (j mod 4)"

definition line3_index :: "nat \<Rightarrow> nat \<Rightarrow> nat \<Rightarrow> nat" where
  "line3_index i j k = (i mod 4) + 4 * ((j mod 4) + 4 * (k mod 4))"

definition line4_index :: "nat \<Rightarrow> nat \<Rightarrow> nat \<Rightarrow> nat \<Rightarrow> nat" where
  "line4_index i j k l = (i mod 4) + 4 * ((j mod 4) + 4 * ((k mod 4) + 4 * (l mod 4)))"

definition line_index :: "nat list \<Rightarrow> nat" where
  "line_index xs =
    (case xs of [i] \<Rightarrow> line1_index i | [i, j] \<Rightarrow> line2_index i j | [i, j, k] \<Rightarrow> line3_index i j k
     | [i, j, k, l] \<Rightarrow> line4_index i j k l | _ \<Rightarrow> 0)"

text \<open>Copy a whole or partial block from a line; the loops are those that scatter a block.\<close>

definition line1_get :: "'a list \<Rightarrow> 'a array \<Rightarrow> int \<Rightarrow> int \<Rightarrow> nat \<Rightarrow> 'a array" where
  "line1_get q a p dx shape =
    (if shape = 0 then scatter_1 q a p dx
     else let mx = 4 - shape mod 4
          in scatter_partial_1 q a p mx dx)"

definition line2_get :: "'a list \<Rightarrow> 'a array \<Rightarrow> int \<Rightarrow> int \<Rightarrow> int \<Rightarrow> nat \<Rightarrow> 'a array" where
  "line2_get q a p dx dy shape =
    (if shape = 0 then scatter_2 q a p dx dy
     else let mx = 4 - shape mod 4; shape = shape div 4; my = 4 - shape mod 4
          in scatter_partial_2 q a p mx my dx dy)"

definition line3_get :: "'a list \<Rightarrow> 'a array \<Rightarrow> int \<Rightarrow> int \<Rightarrow> int \<Rightarrow> int \<Rightarrow> nat \<Rightarrow> 'a array" where
  "line3_get q a p dx dy dz shape =
    (if shape = 0 then scatter_3 q a p dx dy dz
     else let mx = 4 - shape mod 4; shape = shape div 4; my = 4 - shape mod 4; shape = shape div 4; mz = 4 - shape mod 4
          in scatter_partial_3 q a p mx my mz dx dy dz)"

definition line4_get :: "'a list \<Rightarrow> 'a array \<Rightarrow> int \<Rightarrow> int \<Rightarrow> int \<Rightarrow> int \<Rightarrow> int \<Rightarrow> nat \<Rightarrow> 'a array" where
  "line4_get q a p dx dy dz dw shape =
    (if shape = 0 then scatter_4 q a p dx dy dz dw
     else let mx = 4 - shape mod 4; shape = shape div 4; my = 4 - shape mod 4; shape = shape div 4; mz = 4 - shape mod 4;
              shape = shape div 4; mw = 4 - shape mod 4
          in scatter_partial_4 q a p mx my mz mw dx dy dz dw)"

text \<open>Copy a partial block to a line: \<open>i\<close> is the place in the line.\<close>

definition put_partial_1 :: "'a list \<Rightarrow> 'a array \<Rightarrow> int \<Rightarrow> nat \<Rightarrow> int \<Rightarrow> 'a list" where
  "put_partial_1 q a p mx dx =
    (let (q, i, p) = for_loop mx (\<lambda>x (q, i, p). (q[i := a p], i + 1, p + dx)) (q, 0 :: nat, p) in q)"

definition put_partial_2 :: "'a list \<Rightarrow> 'a array \<Rightarrow> int \<Rightarrow> nat \<Rightarrow> nat \<Rightarrow> int \<Rightarrow> int \<Rightarrow> 'a list" where
  "put_partial_2 q a p mx my dx dy =
    (let (q, i, p) =
       for_loop my (\<lambda>y s.
         let (q, i, p) = for_loop mx (\<lambda>x (q, i, p). (q[i := a p], i + 1, p + dx)) s
         in (q, i + (4 - mx), p + (dy - int mx * dx))) (q, 0 :: nat, p)
     in q)"

definition put_partial_3 :: "'a list \<Rightarrow> 'a array \<Rightarrow> int \<Rightarrow> nat \<Rightarrow> nat \<Rightarrow> nat \<Rightarrow> int \<Rightarrow> int \<Rightarrow> int \<Rightarrow> 'a list" where
  "put_partial_3 q a p mx my mz dx dy dz =
    (let (q, i, p) =
       for_loop mz (\<lambda>z s.
         let (q, i, p) =
           for_loop my (\<lambda>y s.
             let (q, i, p) = for_loop mx (\<lambda>x (q, i, p). (q[i := a p], i + 1, p + dx)) s
             in (q, i + (4 - mx), p + (dy - int mx * dx))) s
         in (q, i + (16 - 4 * my), p + (dz - int my * dy))) (q, 0 :: nat, p)
     in q)"

definition put_partial_4 :: "'a list \<Rightarrow> 'a array \<Rightarrow> int \<Rightarrow> nat \<Rightarrow> nat \<Rightarrow> nat \<Rightarrow> nat \<Rightarrow> int \<Rightarrow> int \<Rightarrow> int \<Rightarrow> int \<Rightarrow> 'a list" where
  "put_partial_4 q a p mx my mz mw dx dy dz dw =
    (let (q, i, p) =
       for_loop mw (\<lambda>w s.
         let (q, i, p) =
           for_loop mz (\<lambda>z s.
             let (q, i, p) =
               for_loop my (\<lambda>y s.
                 let (q, i, p) = for_loop mx (\<lambda>x (q, i, p). (q[i := a p], i + 1, p + dx)) s
                 in (q, i + (4 - mx), p + (dy - int mx * dx))) s
             in (q, i + (16 - 4 * my), p + (dz - int my * dy))) s
         in (q, i + (64 - 16 * mz), p + (dw - int mz * dz))) (q, 0 :: nat, p)
     in q)"

definition line1_put :: "'a list \<Rightarrow> 'a array \<Rightarrow> int \<Rightarrow> int \<Rightarrow> nat \<Rightarrow> 'a list" where
  "line1_put q a p dx shape =
    (if shape = 0 then gather_1 q a p dx
     else let mx = 4 - shape mod 4
          in put_partial_1 q a p mx dx)"

definition line2_put :: "'a list \<Rightarrow> 'a array \<Rightarrow> int \<Rightarrow> int \<Rightarrow> int \<Rightarrow> nat \<Rightarrow> 'a list" where
  "line2_put q a p dx dy shape =
    (if shape = 0 then gather_2 q a p dx dy
     else let mx = 4 - shape mod 4; shape = shape div 4; my = 4 - shape mod 4
          in put_partial_2 q a p mx my dx dy)"

definition line3_put :: "'a list \<Rightarrow> 'a array \<Rightarrow> int \<Rightarrow> int \<Rightarrow> int \<Rightarrow> int \<Rightarrow> nat \<Rightarrow> 'a list" where
  "line3_put q a p dx dy dz shape =
    (if shape = 0 then gather_3 q a p dx dy dz
     else let mx = 4 - shape mod 4; shape = shape div 4; my = 4 - shape mod 4; shape = shape div 4; mz = 4 - shape mod 4
          in put_partial_3 q a p mx my mz dx dy dz)"

definition line4_put :: "'a list \<Rightarrow> 'a array \<Rightarrow> int \<Rightarrow> int \<Rightarrow> int \<Rightarrow> int \<Rightarrow> int \<Rightarrow> nat \<Rightarrow> 'a list" where
  "line4_put q a p dx dy dz dw shape =
    (if shape = 0 then gather_4 q a p dx dy dz dw
     else let mx = 4 - shape mod 4; shape = shape div 4; my = 4 - shape mod 4; shape = shape div 4; mz = 4 - shape mod 4;
              shape = shape div 4; mw = 4 - shape mod 4
          in put_partial_4 q a p mx my mz mw dx dy dz dw)"

definition line_get :: "'a list \<Rightarrow> 'a array \<Rightarrow> int \<Rightarrow> int list \<Rightarrow> nat \<Rightarrow> 'a array" where
  "line_get q a p ss shape =
    (case ss of [dx] \<Rightarrow> line1_get q a p dx shape | [dx, dy] \<Rightarrow> line2_get q a p dx dy shape
     | [dx, dy, dz] \<Rightarrow> line3_get q a p dx dy dz shape | [dx, dy, dz, dw] \<Rightarrow> line4_get q a p dx dy dz dw shape | _ \<Rightarrow> a)"

definition line_put :: "'a list \<Rightarrow> 'a array \<Rightarrow> int \<Rightarrow> int list \<Rightarrow> nat \<Rightarrow> 'a list" where
  "line_put q a p ss shape =
    (case ss of [dx] \<Rightarrow> line1_put q a p dx shape | [dx, dy] \<Rightarrow> line2_put q a p dx dy shape
     | [dx, dy, dz] \<Rightarrow> line3_put q a p dx dy dz shape | [dx, dy, dz, dw] \<Rightarrow> line4_put q a p dx dy dz dw shape | _ \<Rightarrow> q)"

section \<open>Elements and blocks of a cached store\<close>

type_synonym ('i, 'w) cached_array = "'i word list cache \<times> 'w block_store"

definition array_line ::
  "cache_build \<Rightarrow> ('i::len) word scalar \<Rightarrow> ('i, 'w::len) cached_array \<Rightarrow> nat list \<Rightarrow> bool \<Rightarrow> store_error + nat \<times> ('i, 'w) cached_array" where
  "array_line bd t cs xs write = cache_line bd (encode_line t) (decode_line t) cs (store_block_index (snd cs) xs) write"

definition cache_get ::
  "cache_build \<Rightarrow> ('i::len) word scalar \<Rightarrow> ('i, 'w::len) cached_array \<Rightarrow> nat list \<Rightarrow> store_error + 'i word \<times> ('i, 'w) cached_array" where
  "cache_get bd t cs xs =
    map_sum id (\<lambda>(p, c, st). (cline c p ! line_index xs, (c, st))) (array_line bd t cs xs False)"

text \<open>\<open>f\<close> is what is done to the element: to set it is \<open>\<lambda>_. v\<close>, and the four arithmetic mutators apply an operation of the
  scalar type to it through the reference that \<open>ref\<close> returns.\<close>

definition cache_ref ::
  "cache_build \<Rightarrow> ('i::len) word scalar \<Rightarrow> ('i, 'w::len) cached_array \<Rightarrow> nat list \<Rightarrow> ('i word \<Rightarrow> 'i word) \<Rightarrow> store_error + ('i, 'w) cached_array" where
  "cache_ref bd t cs xs f =
    map_sum id (\<lambda>(p, c, st). let l = cline c p; i = line_index xs in (c\<lparr>cline := (cline c)(p := l[i := f (l ! i)])\<rparr>, st))
      (array_line bd t cs xs True)"

definition cache_set ::
  "cache_build \<Rightarrow> ('i::len) word scalar \<Rightarrow> ('i, 'w::len) cached_array \<Rightarrow> nat list \<Rightarrow> 'i word \<Rightarrow> store_error + ('i, 'w) cached_array" where
  "cache_set bd t cs xs v = cache_ref bd t cs xs (\<lambda>_. v)"

definition cache_get_block ::
  "cache_build \<Rightarrow> ('i::len) word scalar \<Rightarrow> ('i, 'w::len) cached_array \<Rightarrow> nat \<Rightarrow> 'i word array \<Rightarrow> int \<Rightarrow> int list \<Rightarrow> 'i word array \<times> ('i, 'w) cached_array" where
  "cache_get_block bd t = (\<lambda>(c, st) b a p ss.
    let (line, c) = cache_lookup bd c (of_nat b + 1) False
    in case line of
         Some i \<Rightarrow> (line_get (cline c i) a p ss (store_block_shape st b), (c, st))
       | None \<Rightarrow> let ((n, a), st) = store_decode_strided t st b a p ss in (a, (c, st)))"

definition cache_put_block ::
  "cache_build \<Rightarrow> ('i::len) word scalar \<Rightarrow> ('i, 'w::len) cached_array \<Rightarrow> nat \<Rightarrow> 'i word array \<Rightarrow> int \<Rightarrow> int list \<Rightarrow> store_error + ('i, 'w) cached_array" where
  "cache_put_block bd t = (\<lambda>(c, st) b a p ss.
    let (line, c) = cache_lookup bd c (of_nat b + 1) True
    in case line of
         Some i \<Rightarrow> Inr (c\<lparr>cline := (cline c)(i := line_put (cline c i) a p ss (store_block_shape st b))\<rparr>, st)
       | None \<Rightarrow> map_sum id (\<lambda>(n, st). (c, st)) (store_encode_strided t st b a p ss))"

definition array_flush :: "('i::len) word scalar \<Rightarrow> ('i, 'w::len) cached_array \<Rightarrow> store_error + ('i, 'w) cached_array" where
  "array_flush t = cache_flush (encode_line t)"

section \<open>Whole arrays\<close>

text \<open>Decompress an array to contiguous memory. The loops keep the memory, the array, the number of the next block and the
  pointer; \<open>mx\<close>, \<open>my\<close> and so on are the sizes of the array.\<close>

definition get_step ::
  "cache_build \<Rightarrow> ('i::len) word scalar \<Rightarrow> int list \<Rightarrow> 'i word array \<times> ('i, 'w::len) cached_array \<Rightarrow> nat \<Rightarrow> int \<Rightarrow> 'i word array \<times> ('i, 'w) cached_array" where
  "get_step bd t ss = (\<lambda>(a, cs) b p. cache_get_block bd t cs b a p ss)"

definition put_step ::
  "cache_build \<Rightarrow> ('i::len) word scalar \<Rightarrow> int list \<Rightarrow> 'i word array \<Rightarrow> store_error + ('i, 'w::len) cached_array \<Rightarrow> nat \<Rightarrow> int \<Rightarrow> store_error + ('i, 'w) cached_array" where
  "put_step bd t ss a r b p = (case r of Inl e \<Rightarrow> Inl e | Inr cs \<Rightarrow> cache_put_block bd t cs b a p ss)"

definition walk_1 :: "('s \<Rightarrow> nat \<Rightarrow> int \<Rightarrow> 's) \<Rightarrow> nat \<Rightarrow> 's \<Rightarrow> int \<Rightarrow> 's" where
  "walk_1 g bx s p =
    (let (s, b, p) = for_loop bx (\<lambda>i (s, b, p). (g s b p, b + 1, p + 4)) (s, 0 :: nat, p) in s)"

definition walk_2 :: "('s \<Rightarrow> nat \<Rightarrow> int \<Rightarrow> 's) \<Rightarrow> nat \<Rightarrow> nat \<Rightarrow> nat \<Rightarrow> 's \<Rightarrow> int \<Rightarrow> 's" where
  "walk_2 g mx bx bY s p =
    (let dx = 1;
         (s, b, p) =
           for_loop bY (\<lambda>j s.
             let (s, b, p) = for_loop bx (\<lambda>i (s, b, p). (g s b p, b + 1, p + 4)) s
             in (s, b, p + 4 * dx * (int mx - int bx))) (s, 0 :: nat, p)
     in s)"

definition walk_3 :: "('s \<Rightarrow> nat \<Rightarrow> int \<Rightarrow> 's) \<Rightarrow> nat \<Rightarrow> nat \<Rightarrow> nat \<Rightarrow> nat \<Rightarrow> nat \<Rightarrow> 's \<Rightarrow> int \<Rightarrow> 's" where
  "walk_3 g mx my bx bY bz s p =
    (let dx = 1; dy = int mx;
         (s, b, p) =
           for_loop bz (\<lambda>k s.
             let (s, b, p) =
               for_loop bY (\<lambda>j s.
                 let (s, b, p) = for_loop bx (\<lambda>i (s, b, p). (g s b p, b + 1, p + 4)) s
                 in (s, b, p + 4 * dx * (int mx - int bx))) s
             in (s, b, p + 4 * dy * (int my - int bY))) (s, 0 :: nat, p)
     in s)"

definition walk_4 :: "('s \<Rightarrow> nat \<Rightarrow> int \<Rightarrow> 's) \<Rightarrow> nat \<Rightarrow> nat \<Rightarrow> nat \<Rightarrow> nat \<Rightarrow> nat \<Rightarrow> nat \<Rightarrow> nat \<Rightarrow> 's \<Rightarrow> int \<Rightarrow> 's" where
  "walk_4 g mx my mz bx bY bz bw s p =
    (let dx = 1; dy = int mx; dz = int mx * int my;
         (s, b, p) =
           for_loop bw (\<lambda>l s.
             let (s, b, p) =
               for_loop bz (\<lambda>k s.
                 let (s, b, p) =
                   for_loop bY (\<lambda>j s.
                     let (s, b, p) = for_loop bx (\<lambda>i (s, b, p). (g s b p, b + 1, p + 4)) s
                     in (s, b, p + 4 * dx * (int mx - int bx))) s
                 in (s, b, p + 4 * dy * (int my - int bY))) s
             in (s, b, p + 4 * dz * (int mz - int bz))) (s, 0 :: nat, p)
     in s)"

definition array1_get where
  "array1_get bd t mx cs a p =
    (case st_blocks (snd cs) of [bx] \<Rightarrow> walk_1 (get_step bd t [1]) bx (a, cs) p | _ \<Rightarrow> (a, cs))"

definition array2_get where
  "array2_get bd t mx my cs a p =
    (case st_blocks (snd cs) of [bx, bY] \<Rightarrow> walk_2 (get_step bd t [1, int mx]) mx bx bY (a, cs) p | _ \<Rightarrow> (a, cs))"

definition array3_get where
  "array3_get bd t mx my mz cs a p =
    (case st_blocks (snd cs) of
       [bx, bY, bz] \<Rightarrow> walk_3 (get_step bd t [1, int mx, int mx * int my]) mx my bx bY bz (a, cs) p | _ \<Rightarrow> (a, cs))"

definition array4_get where
  "array4_get bd t mx my mz mw cs a p =
    (case st_blocks (snd cs) of
       [bx, bY, bz, bw] \<Rightarrow> walk_4 (get_step bd t [1, int mx, int mx * int my, int mx * int my * int mz]) mx my mz bx bY bz bw (a, cs) p
     | _ \<Rightarrow> (a, cs))"

text \<open>Compress an array from contiguous memory, or fill it with zeros if there is none.\<close>

definition put_zeros where
  "put_zeros bd t d cs = for_loop (store_blocks (snd cs)) (\<lambda>b r. put_step bd t (unit_strides d) (\<lambda>_. 0) r b 0) (Inr cs)"

definition array1_set where
  "array1_set bd t mx cs p =
    (case (st_blocks (snd cs), p) of
       ([bx], Some (a, p)) \<Rightarrow> walk_1 (put_step bd t [1] a) bx (Inr cs) p
     | (_, None) \<Rightarrow> put_zeros bd t 1 cs
     | _ \<Rightarrow> Inr cs)"

definition array2_set where
  "array2_set bd t mx my cs p =
    (case (st_blocks (snd cs), p) of
       ([bx, bY], Some (a, p)) \<Rightarrow> walk_2 (put_step bd t [1, int mx] a) mx bx bY (Inr cs) p
     | (_, None) \<Rightarrow> put_zeros bd t 2 cs
     | _ \<Rightarrow> Inr cs)"

definition array3_set where
  "array3_set bd t mx my mz cs p =
    (case (st_blocks (snd cs), p) of
       ([bx, bY, bz], Some (a, p)) \<Rightarrow> walk_3 (put_step bd t [1, int mx, int mx * int my] a) mx my bx bY bz (Inr cs) p
     | (_, None) \<Rightarrow> put_zeros bd t 3 cs
     | _ \<Rightarrow> Inr cs)"

definition array4_set where
  "array4_set bd t mx my mz mw cs p =
    (case (st_blocks (snd cs), p) of
       ([bx, bY, bz, bw], Some (a, p)) \<Rightarrow>
         walk_4 (put_step bd t [1, int mx, int mx * int my, int mx * int my * int mz] a) mx my mz bx bY bz bw (Inr cs) p
     | (_, None) \<Rightarrow> put_zeros bd t 4 cs
     | _ \<Rightarrow> Inr cs)"

definition array_get ::
  "cache_build \<Rightarrow> ('i::len) word scalar \<Rightarrow> nat list \<Rightarrow> ('i, 'w::len) cached_array \<Rightarrow> 'i word array \<Rightarrow> int \<Rightarrow> 'i word array \<times> ('i, 'w) cached_array" where
  "array_get bd t ns cs a p =
    (case ns of [mx] \<Rightarrow> array1_get bd t mx cs a p | [mx, my] \<Rightarrow> array2_get bd t mx my cs a p
     | [mx, my, mz] \<Rightarrow> array3_get bd t mx my mz cs a p | [mx, my, mz, mw] \<Rightarrow> array4_get bd t mx my mz mw cs a p | _ \<Rightarrow> (a, cs))"

definition array_set ::
  "cache_build \<Rightarrow> ('i::len) word scalar \<Rightarrow> nat list \<Rightarrow> ('i, 'w::len) cached_array \<Rightarrow> ('i word array \<times> int) option \<Rightarrow> store_error + ('i, 'w) cached_array" where
  "array_set bd t ns cs p =
    (case ns of [mx] \<Rightarrow> array1_set bd t mx cs p | [mx, my] \<Rightarrow> array2_set bd t mx my cs p
     | [mx, my, mz] \<Rightarrow> array3_set bd t mx my mz cs p | [mx, my, mz, mw] \<Rightarrow> array4_set bd t mx my mz mw cs p | _ \<Rightarrow> Inr cs)"

text \<open>The remaining operations of an array. \<open>fresh\<close>, \<open>buf\<close>, \<open>tags\<close> and \<open>lines\<close> are what newly allocated memory holds; \<open>width\<close> is the size
  of a cache line in bytes. \<open>None\<close>: the operation does not end.\<close>

record (overloaded) ('i, 'w) new_memory =
  new_index :: index_memory
  new_buffer :: "nat \<Rightarrow> 'w word"
  new_tags :: "nat \<Rightarrow> tag"
  new_lines :: "nat \<Rightarrow> 'i word list"

datatype array_error = Store_error store_error | Cache_error cache_error

definition array_new ::
  "uint64 unspecified \<Rightarrow> ('i::len) word scalar \<Rightarrow> ('i, 'w::len) new_memory \<Rightarrow> uint64 \<Rightarrow> nat list \<Rightarrow> rat \<Rightarrow> uint64 \<Rightarrow> array_error + ('i, 'w) cached_array option" where
  "array_new u t new width ns rate bytes =
    (case store_new u t (new_index new) (new_buffer new) (Implicit (implicit_new 0)) ns (zfp_config_rate rate True) of
       Inl e \<Rightarrow> Inl (Store_error e)
     | Inr st \<Rightarrow>
         (case cache_lines width bytes (of_nat (store_blocks st)) of
            Inl e \<Rightarrow> Inl (Cache_error e)
          | Inr n \<Rightarrow> Inr (map_option (\<lambda>c. (c, st)) (Option.bind n (cache_new (new_tags new) (new_lines new))))))"

definition array_resize ::
  "('i::len) word scalar \<Rightarrow> ('i, 'w::len) new_memory \<Rightarrow> ('i, 'w) cached_array \<Rightarrow> nat list \<Rightarrow> bool \<Rightarrow> ('i, 'w) cached_array option" where
  "array_resize t new = (\<lambda>(c, st) ns zero.
    map_option (\<lambda>c. (c, store_resize t (new_index new) (new_buffer new) st ns zero)) (cache_clear c))"

definition array_set_rate ::
  "('i::len) word scalar \<Rightarrow> ('i, 'w::len) new_memory \<Rightarrow> ('i, 'w) cached_array \<Rightarrow> rat \<Rightarrow> (store_error + rat \<times> ('i, 'w) cached_array) option" where
  "array_set_rate t new = (\<lambda>(c, st) rate.
    map_option (\<lambda>c. map_sum id (\<lambda>(r, st). (r, (c, st))) (store_set_rate t (new_buffer new) st rate True)) (cache_clear c))"

definition block_cache_resize ::
  "('i::len) word scalar \<Rightarrow> ('i, 'w::len) new_memory \<Rightarrow> uint64 \<Rightarrow> ('i, 'w) cached_array \<Rightarrow> uint64 \<Rightarrow> array_error + ('i, 'w) cached_array option" where
  "block_cache_resize t new width cs bytes =
    (case array_flush t cs of
       Inl e \<Rightarrow> Inl (Store_error e)
     | Inr (c, st) \<Rightarrow>
         (case cache_lines width bytes (of_nat (store_blocks st)) of
            Inl e \<Rightarrow> Inl (Cache_error e)
          | Inr n \<Rightarrow> Inr (map_option (\<lambda>c. (c, st)) (Option.bind n (cache_resize (new_tags new) (new_lines new) c)))))"

definition array_set_cache_size ::
  "('i::len) word scalar \<Rightarrow> ('i, 'w::len) new_memory \<Rightarrow> uint64 \<Rightarrow> ('i, 'w) cached_array \<Rightarrow> uint64 \<Rightarrow> array_error + ('i, 'w) cached_array option" where
  "array_set_cache_size t new width cs bytes =
    (case array_flush t cs of Inl e \<Rightarrow> Inl (Store_error e) | Inr cs \<Rightarrow> block_cache_resize t new width cs bytes)"

definition array_clear_cache :: "('i, 'w::len) cached_array \<Rightarrow> ('i, 'w) cached_array option" where
  "array_clear_cache = (\<lambda>(c, st). map_option (\<lambda>c. (c, st)) (cache_clear c))"

text \<open>The compressed data are those of the store after a flush.\<close>

definition array_compressed_data ::
  "('i::len) word scalar \<Rightarrow> ('i, 'w::len) cached_array \<Rightarrow> store_error + (nat \<Rightarrow> 'w word) \<times> ('i, 'w) cached_array" where
  "array_compressed_data t cs =
    map_sum id (\<lambda>cs. (mem (stream (codec_stream (st_codec (snd cs)))), cs)) (array_flush t cs)"

definition array_deep_copy :: "('i, 'w::len) cached_array \<Rightarrow> ('i, 'w) cached_array" where
  "array_deep_copy = (\<lambda>(c, st). (c, store_deep_copy st))"

end
