(* ===== verification/Block_Cache_Proof.thy ===== *)
theory Block_Cache_Proof
  imports Block_Cache
begin

text \<open>
  Correctness of the block cache. \<open>cache_wf\<close> is the invariant of the tags; the locale \<open>cached_store\<close> states what the cache relies on of
  the store behind it, and derives that the values of the array (\<open>current\<close>: of the line, if the block is cached, otherwise of the
  store) are kept by every operation, except that a block that is written back has its values replaced by the ones that
  remain after compression.
\<close>

section \<open>Well-formed caches\<close>

text \<open>Where a block may be, and where it is.\<close>

definition slots :: "cache_build \<Rightarrow> 'l cache \<Rightarrow> uint32 \<Rightarrow> nat set" where
  "slots bd c x = insert (primary c x) (if twoway bd then {secondary bd c x} else {})"

definition cached :: "cache_build \<Rightarrow> 'l cache \<Rightarrow> nat \<Rightarrow> nat option" where
  "cached bd c b =
    (let x = of_nat b + 1 :: uint32
     in if tag_index (ctag c (primary c x)) = x then Some (primary c x)
        else if twoway bd \<and> tag_index (ctag c (secondary bd c x)) = x then Some (secondary bd c x)
        else None)"

text \<open>Every line in use holds one of the \<open>n\<close> blocks, in one of its slots, and no block has two lines.\<close>

definition cache_wf :: "cache_build \<Rightarrow> nat \<Rightarrow> 'l cache \<Rightarrow> bool" where
  "cache_wf bd n c \<longleftrightarrow>
    (\<forall>i \<le> unat (cmask c). tag_used (ctag c i) \<longrightarrow>
       1 \<le> unat (tag_index (ctag c i)) \<and> unat (tag_index (ctag c i)) \<le> n \<and> i \<in> slots bd c (tag_index (ctag c i))) \<and>
    (\<forall>i \<le> unat (cmask c). \<forall>j \<le> unat (cmask c). tag_used (ctag c i) \<longrightarrow> tag_used (ctag c j) \<longrightarrow>
       tag_index (ctag c i) = tag_index (ctag c j) \<longrightarrow> i = j)"

lemma slots_bound: "i \<in> slots bd c x \<Longrightarrow> i \<le> unat (cmask c)"
proof -
  have "unat (y AND cmask c) \<le> unat (cmask c)" for y :: uint32
    using word_and_le1 [of y "cmask c"] by (simp add: word_le_nat_alt)
  then show "i \<in> slots bd c x \<Longrightarrow> i \<le> unat (cmask c)"
    by (auto simp: slots_def primary_def secondary_def Let_def split: if_splits)
qed

lemma slots_update [simp]: "slots bd (c\<lparr>ctag := t\<rparr>) x = slots bd c x" "slots bd (c\<lparr>cline := l\<rparr>) x = slots bd c x"
  and primary_update [simp]: "primary (c\<lparr>ctag := t\<rparr>) x = primary c x" "primary (c\<lparr>cline := l\<rparr>) x = primary c x"
  and secondary_update [simp]: "secondary bd (c\<lparr>ctag := t\<rparr>) x = secondary bd c x" "secondary bd (c\<lparr>cline := l\<rparr>) x = secondary bd c x"
  by (simp_all add: slots_def primary_def secondary_def)

lemma block_tag:
  assumes "b < n" "n < 2 ^ 31"
  shows "unat (of_nat b + 1 :: uint32) = b + 1" "of_nat b + 1 < (2 ^ 31 :: uint32)"
proof -
  have e: "of_nat b + 1 = (of_nat (b + 1) :: uint32)" by simp
  have "b + 1 < 2 ^ 32" using assms by simp
  then show u: "unat (of_nat b + 1 :: uint32) = b + 1" unfolding e unat_of_nat by simp
  show "of_nat b + 1 < (2 ^ 31 :: uint32)" unfolding word_less_nat_alt u using assms by simp
qed

lemma used_index: "tag_index t \<noteq> 0 \<Longrightarrow> tag_used t"
  by (auto simp: tag_used_def tag_index_def)

lemma cached_iff:
  assumes wf: "cache_wf bd n c" and b: "b < n" "n < 2 ^ 31"
  shows "cached bd c b = Some i \<longleftrightarrow> i \<le> unat (cmask c) \<and> tag_index (ctag c i) = of_nat b + 1"
proof -
  let ?x = "of_nat b + 1 :: uint32"
  have x: "?x \<noteq> 0" using block_tag(1) [OF b] by (metis Suc_eq_plus1 nat.distinct(1) unat_0)
  have sl: "primary c ?x \<le> unat (cmask c)" "twoway bd \<Longrightarrow> secondary bd c ?x \<le> unat (cmask c)"
    by (rule slots_bound [of _ bd c ?x], simp add: slots_def)+
  have one: "i = j" if "i \<le> unat (cmask c)" "j \<le> unat (cmask c)" "tag_index (ctag c i) = ?x" "tag_index (ctag c j) = ?x" for i j
    using wf that used_index x unfolding cache_wf_def by metis
  have there: "i \<in> slots bd c ?x" if "i \<le> unat (cmask c)" "tag_index (ctag c i) = ?x" for i
    using wf that used_index x unfolding cache_wf_def by metis
  show ?thesis
  proof
    assume "cached bd c b = Some i"
    then show "i \<le> unat (cmask c) \<and> tag_index (ctag c i) = ?x"
      using sl by (auto simp: cached_def Let_def split: if_splits)
  next
    assume i: "i \<le> unat (cmask c) \<and> tag_index (ctag c i) = ?x"
    then have "i = primary c ?x \<or> twoway bd \<and> i = secondary bd c ?x"
      using there [of i] by (cases "twoway bd") (auto simp: slots_def)
    then show "cached bd c b = Some i"
      using i sl one by (auto simp: cached_def Let_def)
  qed
qed

lemma cached_bound:
  assumes "cached bd c b = Some i"
  shows "i \<le> unat (cmask c)" "tag_index (ctag c i) = of_nat b + 1"
proof -
  have "i \<in> slots bd c (of_nat b + 1)" using assms by (auto simp: cached_def slots_def Let_def split: if_splits)
  then show "i \<le> unat (cmask c)" by (rule slots_bound)
  show "tag_index (ctag c i) = of_nat b + 1" using assms by (auto simp: cached_def Let_def split: if_splits)
qed

text \<open>The two outcomes of an access.\<close>

lemma access_hit:
  assumes "cached bd c b = Some i"
  shows "cache_access bd c (of_nat b + 1) w =
    (i, (if w then tag_mark (ctag c i) else ctag c i), c\<lparr>ctag := (ctag c)(i := if w then tag_mark (ctag c i) else ctag c i)\<rparr>)"
  using assms by (auto simp: cached_def cache_access_def Let_def split: if_splits)

definition victim :: "cache_build \<Rightarrow> 'l cache \<Rightarrow> nat \<Rightarrow> nat" where
  "victim bd c b = fst (cache_access bd c (of_nat b + 1) False)"

lemma access_miss:
  assumes "cached bd c b = None"
  shows "cache_access bd c (of_nat b + 1) w =
    (victim bd c b, ctag c (victim bd c b), c\<lparr>ctag := (ctag c)(victim bd c b := tag_of (of_nat b + 1) w)\<rparr>)"
    and "victim bd c b \<in> slots bd c (of_nat b + 1)"
  using assms by (auto simp: cached_def victim_def cache_access_def slots_def Let_def split: if_splits)

text \<open>The block that a miss writes back to the store.\<close>

definition evicted :: "cache_build \<Rightarrow> 'l cache \<Rightarrow> nat \<Rightarrow> nat option" where
  "evicted bd c b =
    (let t = ctag c (victim bd c b)
     in if cached bd c b = None \<and> tag_dirty t then Some (unat (tag_index t) - 1) else None)"

section \<open>The contract of a store and its cache\<close>

text \<open>
  \<open>content st b\<close> are the values that block \<open>b\<close> has in the store and \<open>obs b l\<close> the values of line \<open>l\<close> when it holds block \<open>b\<close>;
  \<open>lossy b v\<close> are the values that remain of \<open>v\<close> after compression.
\<close>

definition coherent ::
  "cache_build \<Rightarrow> nat \<Rightarrow> (nat \<Rightarrow> 'l \<Rightarrow> 'v) \<Rightarrow> ('s \<Rightarrow> nat \<Rightarrow> 'v) \<Rightarrow> 'l cache \<times> 's \<Rightarrow> bool" where
  "coherent bd n obs content = (\<lambda>(c, st). cache_wf bd n c \<and>
    (\<forall>b < n. \<forall>i. cached bd c b = Some i \<longrightarrow> \<not> tag_dirty (ctag c i) \<longrightarrow> obs b (cline c i) = content st b))"

definition current ::
  "cache_build \<Rightarrow> (nat \<Rightarrow> 'l \<Rightarrow> 'v) \<Rightarrow> ('s \<Rightarrow> nat \<Rightarrow> 'v) \<Rightarrow> 'l cache \<times> 's \<Rightarrow> nat \<Rightarrow> 'v" where
  "current bd obs content = (\<lambda>(c, st) b. case cached bd c b of Some i \<Rightarrow> obs b (cline c i) | None \<Rightarrow> content st b)"

lemma wf_retag:
  assumes wf: "cache_wf bd n c" and i: "i \<le> unat (cmask c)" and t: "tag_index t = tag_index (ctag c i)" "tag_used t = tag_used (ctag c i)"
  shows "cache_wf bd n (c\<lparr>ctag := (ctag c)(i := t)\<rparr>)"
  using wf t unfolding cache_wf_def by auto

lemma wf_line: "cache_wf bd n (c\<lparr>cline := l\<rparr>) = cache_wf bd n c" "cached bd (c\<lparr>cline := l\<rparr>) = cached bd c"
  by (simp_all add: cache_wf_def cached_def fun_eq_iff Let_def)

lemma wf_replace:
  assumes wf: "cache_wf bd n c" and b: "b < n" "n < 2 ^ 31" and miss: "cached bd c b = None"
  shows "cache_wf bd n (c\<lparr>ctag := (ctag c)(victim bd c b := tag_of (of_nat b + 1) w)\<rparr>)"
proof -
  let ?x = "of_nat b + 1 :: uint32" and ?v = "victim bd c b"
  note tp = tag_of_parts(1) [OF block_tag(2) [OF b], of w]
  have none: "tag_index (ctag c i) \<noteq> ?x" if "i \<le> unat (cmask c)" for i
    using cached_iff [OF wf b, of i] miss that by auto
  show ?thesis
    unfolding cache_wf_def
  proof (intro conjI allI impI, goal_cases)
    case (1 i)
    then show ?case using wf tp block_tag(1) [OF b] b(1) by (auto simp: cache_wf_def split: if_splits)
  next
    case (2 i)
    then show ?case using wf tp block_tag(1) [OF b] b(1) by (auto simp: cache_wf_def split: if_splits)
  next
    case (3 i)
    then show ?case using wf tp access_miss(2) [OF miss] by (auto simp: cache_wf_def split: if_splits)
  next
    case (4 i j)
    then show ?case using wf tp none [of i] none [of j] by (auto simp: cache_wf_def split: if_splits)
  qed
qed

section \<open>The loops of the cache end\<close>

lemma nat_and_Suc: "n AND Suc n = 0 \<Longrightarrow> \<exists>k. Suc n = 2 ^ k" for n :: nat
proof (induction n rule: less_induct)
  case (less n)
  show ?case
  proof (cases "even n")
    case True
    have "n AND Suc n = n"
    proof (rule bit_eqI)
      fix i
      show "bit (n AND Suc n) i = bit n i"
        using even_bit_succ_iff [of n i] True by (simp only: bit_and_iff Suc_eq_plus1 add.commute [of n 1]) blast
    qed
    then show ?thesis using less.prems by (intro exI [of _ 0]) simp
  next
    case False
    then obtain a where a: "n = 2 * a + 1" by (auto elim: oddE)
    have "n AND Suc n = 2 * (a AND Suc a)"
    proof (rule bit_eqI)
      fix i
      show "bit (n AND Suc n) i = bit (2 * (a AND Suc a)) i"
        using even_bit_succ_iff [of "2 * a" i] bit_double_iff [of a i] bit_double_iff [of "Suc a" i]
        by (auto simp: a bit_and_iff bit_double_iff possible_bit_def)
    qed
    then have "a AND Suc a = 0" using less.prems by simp
    moreover have "a < n" using a by simp
    ultimately obtain k where "Suc a = 2 ^ k" using less.IH by blast
    then have "Suc n = 2 ^ Suc k" using a by simp
    then show ?thesis by blast
  qed
qed

lemma mask_form:
  fixes m :: uint32
  assumes "m AND (m + 1) = 0"
  shows "\<exists>k \<le> 32. Suc (unat m) = 2 ^ k"
proof (cases "m = - 1")
  case True
  then have "Suc (unat m) = 2 ^ 32" by (simp add: unsigned_minus_1_eq_mask mask_eq_exp_minus_1)
  then show ?thesis by blast
next
  case False
  then have "1 + m \<noteq> 0" by (metis add.commute eq_neg_iff_add_eq_0)
  then have s: "unat (m + 1) = Suc (unat m)" using unatSuc [of m] by (simp add: add.commute)
  have "unat (m AND (m + 1)) = unat m AND Suc (unat m)" by (simp add: unsigned_and_eq s)
  then obtain k where k: "Suc (unat m) = 2 ^ k" using nat_and_Suc assms by auto
  have "(2 :: nat) ^ k < 2 ^ 32" using unsigned_less [of "m + 1", where 'a = nat] k s by simp
  then have "k < 32" by (rule power_less_imp_less_exp [rotated]) simp
  then show ?thesis using k by (intro exI [of _ k]) simp
qed

lemma mask_loop_bounds: "m \<le> mask_loop m \<and> mask_loop m AND (mask_loop m + 1) = 0 \<and> (\<forall>k. unat m < 2 ^ k \<longrightarrow> unat (mask_loop m) < 2 ^ k)"
proof (induction m rule: mask_loop.induct)
  case (1 m)
  show ?case
  proof (cases "m AND (m + 1) = 0")
    case True
    then show ?thesis by (subst (1 2 3 4) mask_loop.simps) simp
  next
    case False
    let ?m = "m OR (m + 1)"
    have e: "mask_loop m = mask_loop ?m" using False by (subst mask_loop.simps) simp
    have IH: "?m \<le> mask_loop ?m" "mask_loop ?m AND (mask_loop ?m + 1) = 0" "\<forall>k. unat ?m < 2 ^ k \<longrightarrow> unat (mask_loop ?m) < 2 ^ k"
      using 1 False by auto
    have lt: "m < ?m" using mask_step_less [OF False] by (simp add: word_less_nat_alt)
    have "unat ?m < 2 ^ k" if "unat m < 2 ^ k" for k
    proof (cases "k < 32")
      case False
      then have "(2 :: nat) ^ 32 \<le> 2 ^ k" by (intro power_increasing) simp_all
      then show ?thesis using unsigned_less [of ?m, where 'a = nat] by simp
    next
      case k: True
      have "1 + m \<noteq> 0" using False by (auto simp: add.commute)
      then have s: "unat (m + 1) = Suc (unat m)" using unatSuc [of m] by (simp add: add.commute)
      have "Suc (unat m) \<noteq> 2 ^ k"
      proof
        assume p: "Suc (unat m) = 2 ^ k"
        then have "unat m = mask k" by (simp add: mask_eq_exp_minus_1 flip: p)
        moreover have "mask k AND (2 ^ k :: nat) = 0" by (rule bit_eqI) (auto simp: bit_and_iff bit_mask_iff bit_exp_iff)
        ultimately have "unat (m AND (m + 1)) = 0" unfolding unsigned_and_eq s p by simp
        then show False using False by (simp add: unat_eq_0)
      qed
      then have "unat (m + 1) < 2 ^ k" using that s by simp
      then have "take_bit k (unat m) = unat m" "take_bit k (unat (m + 1)) = unat (m + 1)" using that by (simp_all add: take_bit_nat_eq_self)
      then have "take_bit k (unat ?m) = unat ?m" by (simp only: unsigned_or_eq take_bit_or)
      then show ?thesis using take_bit_nat_less_exp [of k "unat ?m"] by simp
    qed
    then have "unat (mask_loop ?m) < 2 ^ k" if "unat m < 2 ^ k" for k using IH(3) that by blast
    moreover have "m \<le> mask_loop ?m" using lt IH(1) by simp
    ultimately show ?thesis unfolding e using IH(2) by blast
  qed
qed

text \<open>The number of lines is the smallest power of two that is large enough.\<close>

lemma mask_loop_power:
  obtains k where "k \<le> 32" "Suc (unat (mask_loop m)) = 2 ^ k" "unat m < 2 ^ k" "\<And>j. unat m < 2 ^ j \<Longrightarrow> k \<le> j"
proof -
  note b = mask_loop_bounds [of m]
  obtain k where k: "k \<le> 32" "Suc (unat (mask_loop m)) = 2 ^ k" using mask_form b by blast
  have "unat m \<le> unat (mask_loop m)" using b by (simp add: word_le_nat_alt)
  then have "unat m < 2 ^ k" using k by simp
  moreover have "k \<le> j" if "unat m < 2 ^ j" for j
  proof -
    have "unat (mask_loop m) < 2 ^ j" using b that by blast
    then have "Suc (unat (mask_loop m)) \<le> 2 ^ j" by (rule Suc_leI)
    then have "(2 :: nat) ^ k \<le> 2 ^ j" unfolding k(2) .
    then show ?thesis by (rule power_le_imp_le_exp [rotated]) simp
  qed
  ultimately show thesis using k that by blast
qed

lemma clear_loop_all:
  assumes "m \<noteq> - 1" "i \<le> m + 1" "i = 0 \<longrightarrow> True"
  shows "clear_loop i m t = Some (\<lambda>j. if unat i \<le> j \<and> j \<le> unat m then 0 else t j)"
  using assms
proof (induction "Suc (unat m) - unat i" arbitrary: i t)
  have s: "unat (m + 1) = Suc (unat m)"
  proof -
    have "1 + m \<noteq> 0" using assms(1) by (metis add.commute eq_neg_iff_add_eq_0)
    then show ?thesis using unatSuc [of m] by (simp add: add.commute)
  qed
  {
    case 0
    then have "\<not> i \<le> m" by (simp add: word_le_nat_alt)
    then show ?case by (subst clear_loop.simps) (auto simp: word_le_nat_alt fun_eq_iff)
  next
    case (Suc n)
    then have i: "i \<le> m" by (simp add: word_le_nat_alt)
    have "i \<noteq> - 1" using i Suc.prems(1) by (metis word_n1_ge order_antisym)
    then have "1 + i \<noteq> 0" by (metis add.commute eq_neg_iff_add_eq_0)
    then have si: "unat (i + 1) = Suc (unat i)" using unatSuc [of i] by (simp add: add.commute)
    have le: "i + 1 \<le> m + 1" using i by (simp add: word_le_nat_alt si s)
    have "n = Suc (unat m) - unat (i + 1)" using Suc.hyps(2) si by simp
    from Suc.hyps(1) [OF this Suc.prems(1) le, of "t(unat i := 0)"]
    have "clear_loop i m t = Some (\<lambda>j. if Suc (unat i) \<le> j \<and> j \<le> unat m then 0 else (t(unat i := 0)) j)"
      using i by (subst clear_loop.simps) (simp add: si)
    also have "(\<lambda>j. if Suc (unat i) \<le> j \<and> j \<le> unat m then 0 else (t(unat i := 0)) j) = (\<lambda>j. if unat i \<le> j \<and> j \<le> unat m then 0 else t j)"
      using i by (auto simp: fun_eq_iff word_le_nat_alt)
    finally show ?case .
  }
qed

lemma clear_loop_mask: "clear_loop i m t = Some y \<Longrightarrow> m \<noteq> - 1"
  by (erule clear_loop.raw_induct [where P = "\<lambda>i m t y. m \<noteq> - 1", rotated]) (auto split: if_splits)

lemma cache_clear_eq:
  "cache_clear c = (if cmask c = - 1 then None else Some (c\<lparr>ctag := \<lambda>j. if j \<le> unat (cmask c) then 0 else ctag c j\<rparr>))"
proof (cases "cmask c = - 1")
  case True
  then have "clear_loop 0 (cmask c) (ctag c) = None" using clear_loop_mask [of 0 "cmask c" "ctag c"] by (cases "clear_loop 0 (cmask c) (ctag c)") auto
  then show ?thesis using True by (simp add: cache_clear_def)
next
  case False
  then show ?thesis using clear_loop_all [OF False, of 0 "ctag c"] by (simp add: cache_clear_def)
qed

lemma lines_loop_power:
  assumes "j \<le> k" "k \<le> 31" "unat blocks \<le> 2 ^ k * 2 ^ k" "\<And>i. j \<le> i \<Longrightarrow> i < k \<Longrightarrow> 2 ^ i * 2 ^ i < unat blocks"
  shows "lines_loop blocks (2 ^ j) = Some (2 ^ k)"
  using assms
proof (induction "k - j" arbitrary: j)
  have sq: "unat (2 ^ i * 2 ^ i :: uint64) = 2 ^ i * 2 ^ i" if "i \<le> 31" for i
  proof -
    have "(2 :: nat) ^ (i + i) < 2 ^ 64" using that by (intro power_strict_increasing) simp_all
    moreover have "2 ^ i * 2 ^ i = (of_nat (2 ^ (i + i)) :: uint64)" by (simp add: power_add)
    ultimately show ?thesis using unat_of_nat [of "2 ^ (i + i)", where 'a = 64] by (simp add: power_add)
  qed
  {
    case 0
    then have "\<not> 2 ^ j * 2 ^ j < blocks" using sq [of j] by (simp add: word_less_nat_alt)
    then show ?case using 0 by (subst lines_loop.simps) simp
  next
    case (Suc d)
    then have "2 ^ j * 2 ^ j < blocks" using sq [of j] by (simp add: word_less_nat_alt)
    moreover have "lines_loop blocks (2 ^ Suc j) = Some (2 ^ k)" by (rule Suc.hyps(1)) (use Suc in auto)
    ultimately show ?case by (subst lines_loop.simps) (simp add: mult.commute)
  }
qed

text \<open>The loop ends for every array that fits a cache, with the smallest power of two whose square covers the blocks.\<close>

lemma default_lines_power:
  assumes "unat blocks < 2 ^ 31"
  obtains k where "k \<le> 16" "default_lines blocks = Some (2 ^ k)" "unat blocks \<le> 2 ^ k * 2 ^ k" "\<And>i. i < k \<Longrightarrow> 2 ^ i * 2 ^ i < unat blocks"
proof -
  define k where "k = (LEAST k. unat blocks \<le> 2 ^ k * 2 ^ k)"
  have w: "unat blocks \<le> 2 ^ 16 * 2 ^ 16" using assms by simp
  have k: "unat blocks \<le> 2 ^ k * 2 ^ k" "k \<le> 16"
    using LeastI [where P = "\<lambda>k. unat blocks \<le> 2 ^ k * 2 ^ k", OF w] Least_le [where P = "\<lambda>k. unat blocks \<le> 2 ^ k * 2 ^ k", OF w]
    unfolding k_def by blast+
  have l: "2 ^ i * 2 ^ i < unat blocks" if "i < k" for i using not_less_Least [of i] that unfolding k_def by (meson not_le_imp_less)
  have "lines_loop blocks (2 ^ 0) = Some (2 ^ k)" by (rule lines_loop_power) (use k l in auto)
  moreover have "ucast (2 ^ k :: uint64) = (2 ^ k :: uint32)"
  proof -
    have "ucast (of_nat (2 ^ k) :: uint64) = (of_nat (2 ^ k) :: uint32)" by (rule unsigned_of_nat [THEN trans]) (use k in \<open>simp add: take_bit_nat_eq_self\<close>)
    then show ?thesis by simp
  qed
  ultimately show thesis using k l by (intro that [of k]) (simp_all add: default_lines_def)
qed

lemma option_eqI: "(\<And>i. x = Some i \<longleftrightarrow> y = Some i) \<Longrightarrow> x = y"
  by (cases x; cases y) auto

locale cached_store =
  fixes enc :: "'s \<Rightarrow> nat \<Rightarrow> 'l \<Rightarrow> 'e + 's" and dec :: "'s \<Rightarrow> nat \<Rightarrow> 'l \<Rightarrow> 'l \<times> 's"
    and n :: nat and ok :: "'s \<Rightarrow> bool" and content :: "'s \<Rightarrow> nat \<Rightarrow> 'v" and obs :: "nat \<Rightarrow> 'l \<Rightarrow> 'v" and loss :: "nat \<Rightarrow> 'v \<Rightarrow> 'v"
  assumes few: "ok st \<Longrightarrow> n < 2 ^ 31"
    and enc: "ok st \<Longrightarrow> b < n \<Longrightarrow> \<exists>st'. enc st b l = Inr st' \<and> ok st' \<and>
      (\<forall>k < n. content st' k = (if k = b then loss b (obs b l) else content st k))"
    and dec: "ok st \<Longrightarrow> b < n \<Longrightarrow> \<exists>l' st'. dec st b l = (l', st') \<and> ok st' \<and> obs b l' = content st b \<and>
      (\<forall>k < n. content st' k = content st k)"
begin

abbreviation "coh bd \<equiv> coherent bd n obs content"
abbreviation "cur bd \<equiv> current bd obs content"

lemma cached_unique:
  assumes "cache_wf bd n c" "a < n" "b < n" "cached bd c a = Some i" "cached bd c b = Some i" and few: "n < 2 ^ 31"
  shows "a = b"
proof -
  have "of_nat a + 1 = (of_nat b + 1 :: uint32)"
    using assms(4,5) cached_bound(2) by metis
  then have "a + 1 = b + 1" using block_tag(1) [OF assms(2) few] block_tag(1) [OF assms(3) few] by metis
  then show ?thesis by simp
qed

text \<open>After a miss, the other blocks are where they were, except the one that was replaced.\<close>

lemma cached_replace:
  assumes wf: "cache_wf bd n c" and b: "b < n" and miss: "cached bd c b = None" and k: "k < n" and few: "n < 2 ^ 31"
  shows "cached bd (c\<lparr>ctag := (ctag c)(victim bd c b := tag_of (of_nat b + 1) w)\<rparr>) k =
    (if k = b then Some (victim bd c b) else if cached bd c k = Some (victim bd c b) then None else cached bd c k)"
proof -
  let ?c = "c\<lparr>ctag := (ctag c)(victim bd c b := tag_of (of_nat b + 1) w)\<rparr>"
  note wf' = wf_replace [OF wf b few miss, of w]
  have v: "victim bd c b \<le> unat (cmask c)" using slots_bound [OF access_miss(2) [OF miss]] .
  note tp = tag_of_parts(1) [OF block_tag(2) [OF b few], of w]
  have "of_nat k + 1 \<noteq> (of_nat b + 1 :: uint32)" if "k \<noteq> b"
    using that block_tag(1) [OF b few] block_tag(1) [OF k few] by (metis add_right_imp_eq)
  then have "cached bd ?c k = Some i \<longleftrightarrow>
      (if k = b then i = victim bd c b else i \<noteq> victim bd c b \<and> cached bd c k = Some i)" for i
    using cached_iff [OF wf' k few, of i] cached_iff [OF wf k few, of i] cached_iff [OF wf b few, of i] tp v miss by auto
  then show ?thesis by (intro option_eqI) auto
qed

lemma line:
  assumes coh: "coh bd (c, st)" and o: "ok st" and b: "b < n"
  obtains p c' st' where "cache_line bd enc dec (c, st) b w = Inr (p, c', st')" "coh bd (c', st')" "ok st'"
    "cached bd c' b = Some p" "w \<Longrightarrow> tag_dirty (ctag c' p)"
    "\<And>k. k < n \<Longrightarrow> cur bd (c', st') k = (if evicted bd c b = Some k then loss k (cur bd (c, st) k) else cur bd (c, st) k)"
    "\<And>e. evicted bd c b = Some e \<Longrightarrow> e < n \<and> e \<noteq> b"
proof (cases "cached bd c b")
  case (Some i)
  note few = few [OF o]
  have wf: "cache_wf bd n c" using coh by (simp add: coherent_def)
  let ?t = "if w then tag_mark (ctag c i) else ctag c i" and ?c = "c\<lparr>ctag := (ctag c)(i := if w then tag_mark (ctag c i) else ctag c i)\<rparr>"
  note cb = cached_bound [OF Some] and bt = block_tag(1) [OF b few]
  have x: "tag_index (ctag c i) \<noteq> 0" using cb(2) bt by (metis Suc_eq_plus1 nat.distinct(1) unat_0)
  have t: "tag_index ?t = tag_index (ctag c i)" "tag_used ?t = tag_used (ctag c i)"
    using used_index [OF x] by (simp_all add: tag_mark_parts)
  have wf': "cache_wf bd n ?c" by (rule wf_retag [OF wf cb(1) t])
  have same: "cached bd ?c k = cached bd c k" if "k < n" for k
  proof -
    have "cached bd ?c k = Some j \<longleftrightarrow> cached bd c k = Some j" for j
      using cached_iff [OF wf' that few] cached_iff [OF wf that few] t(1) by simp
    then show ?thesis by (metis option.exhaust)
  qed
  have un: "unat (tag_index ?t - 1) = b" using cb(2) t(1) b few by (simp add: unat_of_nat)
  have "cache_line bd enc dec (c, st) b w = Inr (i, ?c, st)"
    using un by (simp add: cache_line_def access_hit [OF Some] Let_def)
  moreover have "coh bd (?c, st)"
    using coh wf' by (auto simp: coherent_def same tag_mark_parts split: if_splits)
  moreover have "cur bd (?c, st) k = cur bd (c, st) k" if "k < n" for k
    using that by (simp add: current_def same split: option.split)
  moreover have "evicted bd c b = None" using Some by (simp add: evicted_def)
  moreover have "cached bd ?c b = Some i" using same [OF b] Some by simp
  ultimately show thesis using o by (intro that [of i ?c st]) (simp_all add: tag_mark_parts)
next
  case None
  note few = few [OF o]
  have wf: "cache_wf bd n c" using coh by (simp add: coherent_def)
  let ?v = "victim bd c b" and ?x = "of_nat b + 1 :: uint32"
  let ?t = "ctag c ?v" and ?c = "c\<lparr>ctag := (ctag c)(victim bd c b := tag_of (of_nat b + 1) w)\<rparr>"
  let ?e = "unat (tag_index ?t - 1)"
  have v: "?v \<le> unat (cmask c)" using slots_bound [OF access_miss(2) [OF None]] .
  note tp = tag_of_parts [OF block_tag(2) [OF b few], of w]
  have used: "?e < n \<and> cached bd c ?e = Some ?v \<and> ?e \<noteq> b \<and> unat (tag_index ?t) - 1 = ?e" if "tag_used ?t"
  proof -
    have r: "1 \<le> unat (tag_index ?t)" "unat (tag_index ?t) \<le> n" using wf v that by (simp_all add: cache_wf_def)
    then have "tag_index ?t \<noteq> 0" by auto
    then have e: "?e = unat (tag_index ?t) - 1" by (simp add: unat_minus_one)
    then have "of_nat ?e + 1 = tag_index ?t" using r(1) by (simp add: of_nat_diff)
    moreover have "?e < n" using e r by linarith
    ultimately have c: "cached bd c ?e = Some ?v" using cached_iff [OF wf _ few] v by simp
    then show ?thesis using None e \<open>?e < n\<close> by auto
  qed
  have dirty: "tag_used ?t" if "tag_dirty ?t" using that tag_zero(2) by (auto simp: tag_used_def)
  have ne: "?e \<noteq> b"
  proof (cases "tag_used ?t")
    case False
    then have "?t = 0" by (simp add: tag_used_def)
    moreover have "unat (- 1 :: uint32) = 2 ^ 32 - 1" by (simp add: unsigned_minus_1_eq_mask mask_eq_exp_minus_1)
    ultimately show ?thesis using b few by (simp add: tag_zero(1))
  qed (use used in simp)
  have ev: "evicted bd c b = (if tag_dirty ?t then Some ?e else None)"
    using used dirty by (auto simp: evicted_def None Let_def)
  have "\<exists>st1. (if tag_dirty ?t then enc st ?e (cline c ?v) else Inr st) = Inr st1 \<and> ok st1 \<and>
      (\<forall>k < n. content st1 k = (if evicted bd c b = Some k then loss k (obs k (cline c ?v)) else content st k))"
    using enc [OF o, of ?e "cline c ?v"] used dirty o by (auto simp: ev)
  then obtain st1 where st1: "(if tag_dirty ?t then enc st ?e (cline c ?v) else Inr st) = Inr st1" "ok st1"
    "\<And>k. k < n \<Longrightarrow> content st1 k = (if evicted bd c b = Some k then loss k (obs k (cline c ?v)) else content st k)" by blast
  obtain l st2 where l: "dec st1 b (cline c ?v) = (l, st2)" "ok st2" "obs b l = content st1 b"
    "\<And>k. k < n \<Longrightarrow> content st2 k = content st1 k"
    using dec [OF st1(2) b, of "cline c ?v"] by blast
  let ?d = "?c\<lparr>cline := (cline c)(?v := l)\<rparr>"
  have res: "cache_line bd enc dec (c, st) b w = Inr (?v, ?d, st2)"
    using ne st1(1) l(1) by (cases "tag_dirty ?t") (simp_all add: cache_line_def access_miss(1) [OF None] Let_def)
  note wf' = wf_replace [OF wf b few None, of w]
  note cr = cached_replace [OF wf b None _ few, of _ w]
  have cur_b: "cur bd (c, st) b = content st b" by (simp add: current_def None)
  have eb: "evicted bd c b \<noteq> Some b" using ev ne by auto
  have cont: "content st2 k = (if evicted bd c b = Some k then loss k (obs k (cline c ?v)) else content st k)" if "k < n" for k
    using st1(3) [OF that] l(4) [OF that] by simp
  have coh': "coh bd (?d, st2)"
    unfolding coherent_def prod.case wf_line
  proof (intro conjI allI impI)
    fix k i assume k: "k < n" "cached bd ?c k = Some i" "\<not> tag_dirty (ctag ?d i)"
    show "obs k (cline ?d i) = content st2 k"
    proof (cases "k = b")
      case True
      then show ?thesis using k cr [OF b] l(3) l(4) [OF b] by simp
    next
      case False
      then have i: "cached bd c k = Some i" "i \<noteq> ?v" using k cr [OF k(1)] by (auto split: if_splits)
      then have "obs k (cline c i) = content st k" using coh k by (simp add: coherent_def)
      moreover have "evicted bd c b \<noteq> Some k" using i used dirty k(1) by (auto simp: ev)
      ultimately show ?thesis using i cont [OF k(1)] by simp
    qed
  qed (rule wf')
  have cur': "cur bd (?d, st2) k = (if evicted bd c b = Some k then loss k (cur bd (c, st) k) else cur bd (c, st) k)" if k: "k < n" for k
  proof (cases "k = b")
    case True
    then show ?thesis using cr [OF b] l(3) cont [OF b] l(4) [OF b] eb cur_b by (simp add: current_def wf_line)
  next
    case False
    show ?thesis
    proof (cases "cached bd c k = Some ?v")
      case True
      then have k': "cur bd (?d, st2) k = content st2 k" using cr [OF k] False by (simp add: current_def wf_line)
      have "tag_used ?t" using cached_bound(2) [OF True] block_tag(1) [OF k few]
        by (intro used_index) (metis Suc_eq_plus1 nat.distinct(1) unat_0)
      then have "k = ?e" using cached_unique [OF wf k _ True _ few] used by blast
      then show ?thesis using k' cont [OF k] True coh k by (auto simp: ev current_def coherent_def)
    next
      case other: False
      then have "evicted bd c b \<noteq> Some k" using used dirty by (auto simp: ev)
      then show ?thesis using cr [OF k] False other cont [OF k] by (auto simp: current_def wf_line split: option.split)
    qed
  qed
  have "cached bd ?d b = Some ?v" using cr [OF b] by (simp add: wf_line)
  then show thesis using res coh' l(2) cur' tp(2) used dirty
    by (intro that [of ?v ?d st2]) (auto simp: ev split: if_splits)
qed

text \<open>Writing to a line that was obtained for writing.\<close>

lemma modify:
  assumes coh: "coh bd (c, st)" and o: "ok st" and b: "b < n" and p: "cached bd c b = Some p" "tag_dirty (ctag c p)"
  shows "coh bd (c\<lparr>cline := (cline c)(p := l)\<rparr>, st)"
    and "k < n \<Longrightarrow> cur bd (c\<lparr>cline := (cline c)(p := l)\<rparr>, st) k = (if k = b then obs b l else cur bd (c, st) k)"
proof -
  have wf: "cache_wf bd n c" using coh by (simp add: coherent_def)
  show "coh bd (c\<lparr>cline := (cline c)(p := l)\<rparr>, st)"
    using coh p by (simp add: coherent_def wf_line)
  show "cur bd (c\<lparr>cline := (cline c)(p := l)\<rparr>, st) k = (if k = b then obs b l else cur bd (c, st) k)" if "k < n"
  proof (cases "k = b")
    case False
    then have "cached bd c k \<noteq> Some p" using cached_unique [OF wf that b _ p(1) few [OF o]] by blast
    then show ?thesis using False by (cases "cached bd c k") (simp_all add: current_def wf_line)
  qed (use p in \<open>simp add: current_def wf_line\<close>)
qed

text \<open>Flushing one line.\<close>

lemma flush_line:
  assumes coh: "coh bd (c, st)" and o: "ok st" and j: "j \<le> unat (cmask c)" "tag_used (ctag c j)"
  obtains st' where "(if tag_dirty (ctag c j) then enc st (unat (tag_index (ctag c j) - 1)) (cline c j) else Inr st) = Inr st'" "ok st'"
    "coh bd (cache_flush_line c j, st')"
    "\<And>k. k < n \<Longrightarrow> cached bd (cache_flush_line c j) k = (if cached bd c k = Some j then None else cached bd c k)"
    "\<And>k. k < n \<Longrightarrow> cur bd (cache_flush_line c j, st') k =
      (if cached bd c k = Some j \<and> tag_dirty (ctag c j) then loss k (cur bd (c, st) k) else cur bd (c, st) k)"
proof -
  note few = few [OF o]
  have wf: "cache_wf bd n c" using coh by (simp add: coherent_def)
  let ?t = "ctag c j" and ?c = "cache_flush_line c j"
  let ?e = "unat (tag_index ?t - 1)"
  have r: "1 \<le> unat (tag_index ?t)" "unat (tag_index ?t) \<le> n" using wf j by (simp_all add: cache_wf_def)
  then have "tag_index ?t \<noteq> 0" by auto
  then have e: "?e = unat (tag_index ?t) - 1" by (simp add: unat_minus_one)
  then have "of_nat ?e + 1 = tag_index ?t" using r(1) by (simp add: of_nat_diff)
  moreover have en: "?e < n" using e r by linarith
  ultimately have ce: "cached bd c ?e = Some j" using cached_iff [OF wf en few] j by simp
  have wf': "cache_wf bd n ?c" using wf by (auto simp: cache_wf_def cache_flush_line_def tag_zero)
  have ch: "cached bd ?c k = (if cached bd c k = Some j then None else cached bd c k)" if k: "k < n" for k
  proof (rule option_eqI)
    have "of_nat k + 1 \<noteq> (0 :: uint32)" using block_tag(1) [OF k few] by (metis Suc_eq_plus1 nat.distinct(1) unat_0)
    then show "cached bd ?c k = Some i \<longleftrightarrow> (if cached bd c k = Some j then None else cached bd c k) = Some i" for i
      using cached_iff [OF wf' k few, of i] cached_iff [OF wf k few, of i] cached_iff [OF wf k few, of j]
      by (auto simp: cache_flush_line_def tag_zero split: if_splits)
  qed
  have uni: "cached bd c k = Some j \<longleftrightarrow> k = ?e" if "k < n" for k using cached_unique [OF wf that en _ ce few] ce by auto
  have "\<exists>st1. (if tag_dirty ?t then enc st ?e (cline c j) else Inr st) = Inr st1 \<and> ok st1 \<and>
      (\<forall>k < n. content st1 k = (if k = ?e \<and> tag_dirty ?t then loss k (obs k (cline c j)) else content st k))"
    using enc [OF o en, of "cline c j"] o by auto
  then obtain st1 where st1: "(if tag_dirty ?t then enc st ?e (cline c j) else Inr st) = Inr st1" "ok st1"
    "\<And>k. k < n \<Longrightarrow> content st1 k = (if k = ?e \<and> tag_dirty ?t then loss k (obs k (cline c j)) else content st k)" by blast
  have "coh bd (?c, st1)"
    unfolding coherent_def prod.case
  proof (intro conjI allI impI)
    fix k i assume k: "k < n" "cached bd ?c k = Some i" "\<not> tag_dirty (ctag ?c i)"
    then have i: "cached bd c k = Some i" "i \<noteq> j" using ch by (auto split: if_splits)
    then have "obs k (cline c i) = content st k" using coh k by (simp add: coherent_def cache_flush_line_def)
    moreover have "k \<noteq> ?e" using i ce by auto
    ultimately show "obs k (cline ?c i) = content st1 k" using st1(3) [OF k(1)] by (simp add: cache_flush_line_def)
  qed (rule wf')
  note a = this
  have cc: "cur bd (?c, st1) k = (if cached bd c k = Some j \<and> tag_dirty ?t then loss k (cur bd (c, st) k) else cur bd (c, st) k)"
    if k: "k < n" for k
  proof (cases "k = ?e")
    case True
    then show ?thesis using ch [OF k] ce st1(3) [OF k] coh k by (auto simp: current_def coherent_def)
  next
    case False
    then show ?thesis using ch [OF k] uni [OF k] st1(3) [OF k] by (auto simp: current_def cache_flush_line_def split: option.split)
  qed
  show thesis by (rule that [OF st1(1,2) a ch cc])
qed

text \<open>Flushing all lines: the iterator visits every line in use.\<close>

lemma flush_loop:
  assumes "coh bd (c, st)" "ok st" "\<And>j. j < i \<Longrightarrow> \<not> tag_used (ctag c j)"
  shows "\<exists>c' st'. cache_flush_loop enc (next_used c i) (c, st) = Inr (c', st') \<and> ok st' \<and> coh bd (c', st') \<and> cmask c' = cmask c \<and>
    (\<forall>j \<le> unat (cmask c). \<not> tag_used (ctag c' j)) \<and>
    (\<forall>k < n. content st' k = (case cached bd c k of Some j \<Rightarrow> if tag_dirty (ctag c j) then loss k (cur bd (c, st) k) else cur bd (c, st) k
       | None \<Rightarrow> cur bd (c, st) k))"
  using assms
proof (induction "Suc (unat (cmask c)) - i" arbitrary: i c st rule: less_induct)
  case less
  note few = few [OF less.prems(2)]
  have wf: "cache_wf bd n c" using less.prems(1) by (simp add: coherent_def)
  show ?case
  proof (cases "i \<le> unat (cmask c)")
    case False
    then have nu: "\<not> tag_used (ctag c j)" if "j \<le> unat (cmask c)" for j using less.prems(3) that by simp
    have "cached bd c k = None" if k: "k < n" for k
    proof (rule ccontr)
      assume "cached bd c k \<noteq> None"
      then obtain j where "cached bd c k = Some j" by auto
      from cached_bound [OF this] nu used_index [of "ctag c j"] block_tag(1) [OF k few] show False
        by (metis Suc_eq_plus1 nat.distinct(1) unat_0)
    qed
    then have "content st k = cur bd (c, st) k" "cached bd c k = None" if "k < n" for k using that by (simp_all add: current_def)
    moreover have "next_used c i = None" using False by (subst next_used.simps) simp
    ultimately show ?thesis using less.prems nu by (simp add: cache_flush_loop.simps)
  next
    case le: True
    show ?thesis
    proof (cases "tag_used (ctag c i)")
      case False
      then have "next_used c i = next_used c (i + 1)" using le by (subst next_used.simps) simp
      moreover have "\<not> tag_used (ctag c j)" if "j < i + 1" for j using that less.prems(3) False by (cases "j = i") auto
      ultimately show ?thesis using less.hyps [of c "i + 1" st] less.prems le by simp
    next
      case True
      obtain st1 where st1: "(if tag_dirty (ctag c i) then enc st (unat (tag_index (ctag c i) - 1)) (cline c i) else Inr st) = Inr st1" "ok st1"
        "coh bd (cache_flush_line c i, st1)"
        "\<And>k. k < n \<Longrightarrow> cached bd (cache_flush_line c i) k = (if cached bd c k = Some i then None else cached bd c k)"
        "\<And>k. k < n \<Longrightarrow> cur bd (cache_flush_line c i, st1) k =
          (if cached bd c k = Some i \<and> tag_dirty (ctag c i) then loss k (cur bd (c, st) k) else cur bd (c, st) k)"
        using flush_line [OF less.prems(1,2) le True] by blast
      let ?c = "cache_flush_line c i"
      have m: "cmask ?c = cmask c" by simp
      have nu: "\<not> tag_used (ctag ?c j)" if "j < i + 1" for j
        using that less.prems(3) by (cases "j = i") (auto simp: cache_flush_line_def tag_zero)
      have "Suc (unat (cmask c)) - (i + 1) < Suc (unat (cmask c)) - i" using le by simp
      from less.hyps [of ?c "i + 1" st1, unfolded m, OF this st1(3,2) nu]
      obtain c' st' where r: "cache_flush_loop enc (next_used ?c (i + 1)) (?c, st1) = Inr (c', st')" "ok st'" "coh bd (c', st')" "cmask c' = cmask c"
        "\<And>j. j \<le> unat (cmask c) \<Longrightarrow> \<not> tag_used (ctag c' j)"
        "\<And>k. k < n \<Longrightarrow> content st' k = (case cached bd ?c k of Some j \<Rightarrow> if tag_dirty (ctag ?c j) then loss k (cur bd (?c, st1) k) else cur bd (?c, st1) k
           | None \<Rightarrow> cur bd (?c, st1) k)"
        by blast
      have "next_used c i = Some i" using le True by (subst next_used.simps) simp
      then have "cache_flush_loop enc (next_used c i) (c, st) = Inr (c', st')"
        using st1(1) r(1) by (subst cache_flush_loop.simps) (simp add: iterator_advance_def)
      moreover have "content st' k = (case cached bd c k of Some j \<Rightarrow> if tag_dirty (ctag c j) then loss k (cur bd (c, st) k) else cur bd (c, st) k
         | None \<Rightarrow> cur bd (c, st) k)" if k: "k < n" for k
        unfolding r(6) [OF k] st1(4,5) [OF k]
        by (auto simp: cache_flush_line_def tag_zero split: option.split)
      ultimately show ?thesis using r by blast
    qed
  qed
qed

lemma first_next: "iterator_first c = next_used c 0"
  by (subst next_used.simps) (simp add: iterator_first_def iterator_advance_def)

lemmas flush = flush_loop [where i = 0, folded first_next, simplified]

end

section \<open>Looking up a block\<close>

lemma lookup_read: "cache_lookup bd c (of_nat b + 1) False = (cached bd c b, c)"
  by (simp add: cache_lookup_def cached_def Let_def)

text \<open>With one slot per block, the line that is returned for writing is marked.\<close>

lemma lookup_write:
  assumes "\<not> twoway bd"
  shows "cache_lookup bd c (of_nat b + 1) True =
    (cached bd c b, case cached bd c b of None \<Rightarrow> c | Some i \<Rightarrow> c\<lparr>ctag := (ctag c)(i := tag_mark (ctag c i))\<rparr>)"
  using assms by (simp add: cache_lookup_def cached_def Let_def)

context cached_store
begin

text \<open>Marking the line of a block changes no values.\<close>

lemma mark:
  assumes coh: "coh bd (c, st)" and o: "ok st" and b: "b < n" and i: "cached bd c b = Some i"
  defines "c' \<equiv> c\<lparr>ctag := (ctag c)(i := tag_mark (ctag c i))\<rparr>"
  shows "coh bd (c', st)" "k < n \<Longrightarrow> cached bd c' k = cached bd c k" "tag_dirty (ctag c' i)" "k < n \<Longrightarrow> cur bd (c', st) k = cur bd (c, st) k"
proof -
  note few = few [OF o] and cb = cached_bound [OF i]
  have wf: "cache_wf bd n c" using coh by (simp add: coherent_def)
  have "tag_index (ctag c i) \<noteq> 0" using cb(2) block_tag(1) [OF b few] by (metis Suc_eq_plus1 nat.distinct(1) unat_0)
  then have wf': "cache_wf bd n c'" unfolding c'_def by (intro wf_retag [OF wf cb(1)]) (simp_all add: tag_mark_parts used_index)
  have same: "cached bd c' k = cached bd c k" if "k < n" for k
    using cached_iff [OF wf' that few] cached_iff [OF wf that few] by (intro option_eqI) (simp add: c'_def tag_mark_parts)
  then show "k < n \<Longrightarrow> cached bd c' k = cached bd c k" .
  show "tag_dirty (ctag c' i)" by (simp add: c'_def tag_mark_parts)
  show "coh bd (c', st)" using coh wf' by (auto simp: coherent_def same) (auto simp: c'_def tag_mark_parts split: if_splits)
  have "cline c' = cline c" by (simp add: c'_def)
  then show "k < n \<Longrightarrow> cur bd (c', st) k = cur bd (c, st) k" using same by (simp add: current_def split: option.split)
qed

end

section \<open>Empty caches\<close>

lemma mask_loop_top: "mask_loop m = - 1 \<longleftrightarrow> 2 ^ 31 \<le> unat m"
proof -
  obtain k where k: "k \<le> 32" "Suc (unat (mask_loop m)) = 2 ^ k" "unat m < 2 ^ k" "\<And>j. unat m < 2 ^ j \<Longrightarrow> k \<le> j"
    using mask_loop_power by metis
  have "mask_loop m = - 1 \<longleftrightarrow> Suc (unat (mask_loop m)) = 2 ^ 32"
    by (simp add: word_unat_eq_iff unsigned_minus_1_eq_mask mask_eq_exp_minus_1)
  also have "\<dots> \<longleftrightarrow> k = 32" unfolding k(2) by (rule power_inject_exp) simp
  also have "\<dots> \<longleftrightarrow> \<not> k \<le> 31" using k(1) by auto
  also have "\<dots> \<longleftrightarrow> \<not> unat m < 2 ^ 31"
  proof
    show "\<not> unat m < 2 ^ 31" if "\<not> k \<le> 31" using that k(4) by blast
    show "\<not> k \<le> 31" if "\<not> unat m < 2 ^ 31"
    proof
      assume "k \<le> 31"
      then have "(2 :: nat) ^ k \<le> 2 ^ 31" by (intro power_increasing) simp_all
      then show False using that k(3) by simp
    qed
  qed
  finally show ?thesis unfolding not_less .
qed

definition empty_cache :: "'l cache \<Rightarrow> bool" where
  "empty_cache c \<longleftrightarrow> (\<forall>i \<le> unat (cmask c). ctag c i = 0)"

lemma empty_cache_wf: "empty_cache c \<Longrightarrow> cache_wf bd n c"
  by (simp add: empty_cache_def cache_wf_def tag_zero)

lemma empty_not_cached:
  assumes "empty_cache c" "b < n" "n < 2 ^ 31"
  shows "cached bd c b = None"
proof (rule ccontr)
  assume "cached bd c b \<noteq> None"
  then obtain i where "cached bd c b = Some i" by auto
  from cached_bound [OF this] assms(1) block_tag(1) [OF assms(2,3)] show False
    by (simp add: empty_cache_def tag_zero)
qed

lemma empty_coherent: "empty_cache c \<Longrightarrow> n < 2 ^ 31 \<Longrightarrow> coherent bd n obs content (c, st)"
  by (simp add: coherent_def empty_cache_wf empty_not_cached)

lemma cache_clear_empty: "cache_clear c = Some c' \<Longrightarrow> empty_cache c' \<and> cmask c' = cmask c"
  by (auto simp: cache_clear_eq empty_cache_def split: if_splits)

section \<open>Properties\<close>

lemma cache_resize_cases:
  fixes n :: uint32
  shows "2 ^ 31 < unat n \<Longrightarrow> cache_resize tags lines c n = None"
    and "unat n \<le> 2 ^ 31 \<Longrightarrow> \<exists>c' k. cache_resize tags lines c n = Some c' \<and> empty_cache c' \<and> unat (cmask c') + 1 = 2 ^ k \<and>
      unat n \<le> 2 ^ k \<and> (if n = 0 then k = 1 else \<forall>j. unat n \<le> 2 ^ j \<longrightarrow> k \<le> j)"
proof -
  let ?m = "if n \<noteq> 0 then n - 1 else 1 :: uint32"
  obtain k where k: "k \<le> 32" "Suc (unat (mask_loop ?m)) = 2 ^ k" "unat ?m < 2 ^ k" "\<And>j. unat ?m < 2 ^ j \<Longrightarrow> k \<le> j"
    using mask_loop_power [of ?m] by metis
  have m: "unat ?m < 2 ^ j \<longleftrightarrow> unat n \<le> 2 ^ j" if "n \<noteq> 0" for j
  proof -
    have "0 < unat n" using that by (simp add: unat_gt_0)
    then show ?thesis using that by (simp add: unat_minus_one) linarith
  qed
  let ?c = "c\<lparr>cmask := mask_loop ?m, ctag := tags, cline := lines\<rparr>"
  have r: "cache_resize tags lines c n = cache_clear ?c" by (simp add: cache_resize_def Let_def)
  have big: "mask_loop ?m = - 1 \<longleftrightarrow> 2 ^ 31 < unat n"
    unfolding mask_loop_top using m [of 31] by (cases "n = 0") (simp_all add: not_less [symmetric])
  {
    assume "2 ^ 31 < unat n"
    then have "cmask ?c = - 1" using big by simp
    then show "cache_resize tags lines c n = None" unfolding r cache_clear_eq by (simp only: if_True simp_thms)
  }
  {
    assume "unat n \<le> 2 ^ 31"
    then have "cmask ?c \<noteq> - 1" using big by simp
    then obtain c' where c': "cache_clear ?c = Some c'" unfolding cache_clear_eq by (simp only: if_False simp_thms)
    have e: "empty_cache c'" "unat (cmask c') + 1 = 2 ^ k" using cache_clear_empty [OF c'] k(2) by simp_all
    have "unat n \<le> 2 ^ k" "if n = 0 then k = 1 else \<forall>j. unat n \<le> 2 ^ j \<longrightarrow> k \<le> j"
    proof -
      show "unat n \<le> 2 ^ k" using k(3) m by (cases "n = 0") simp_all
      show "if n = 0 then k = 1 else \<forall>j. unat n \<le> 2 ^ j \<longrightarrow> k \<le> j"
      proof (cases "n = 0")
        case True
        then have "k \<le> 1" using k(4) [of 1] by simp
        moreover have "k \<noteq> 0" using k(3) True by (cases k) simp_all
        ultimately show ?thesis using True by simp
      qed (use k(4) m in simp)
    qed
    then show "\<exists>c' k. cache_resize tags lines c n = Some c' \<and> empty_cache c' \<and> unat (cmask c') + 1 = 2 ^ k \<and>
      unat n \<le> 2 ^ k \<and> (if n = 0 then k = 1 else \<forall>j. unat n \<le> 2 ^ j \<longrightarrow> k \<le> j)"
      using e by (intro exI [of _ c'] exI [of _ k] conjI) (simp_all only: r c')
  }
qed

text \<open>C38: Making or resizing a cache ends if and only if at most 2 ^ 31 lines are asked for; the cache is then empty and its
  number of lines is the smallest power of two that suffices, or 2 when none are asked for. Beyond that, the loop that clears the
  tags never ends.\<close>

theorem cache_resize_ends:
  "(2 ^ 31 < unat n \<longrightarrow> cache_resize tags lines c n = None) \<and>
   (unat n \<le> 2 ^ 31 \<longrightarrow> (\<exists>c' k. cache_resize tags lines c n = Some c' \<and> empty_cache c' \<and> unat (cmask c') + 1 = 2 ^ k \<and>
      unat n \<le> 2 ^ k \<and> (if n = 0 then k = 1 else \<forall>j. unat n \<le> 2 ^ j \<longrightarrow> k \<le> j)))"
  using cache_resize_cases by blast

lemma cache_resize_ends_witness:
  "\<exists>c' k. cache_resize (\<lambda>_. 7) (\<lambda>_. 0 :: nat) \<lparr>cmask = 0, ctag = \<lambda>_. 0, cline = \<lambda>_. 0\<rparr> 5 = Some c' \<and> empty_cache c' \<and> unat (cmask c') + 1 = 2 ^ k \<and>
    5 \<le> (2 :: nat) ^ k \<and> (\<forall>j. 5 \<le> (2 :: nat) ^ j \<longrightarrow> k \<le> j)"
  using cache_resize_ends [of 5 "\<lambda>_. 7" "\<lambda>_. 0 :: nat" "\<lparr>cmask = 0, ctag = \<lambda>_. 0, cline = \<lambda>_. 0\<rparr>"] by simp

lemma default_cache_made:
  assumes b: "unat blocks < 2 ^ 31"
  shows "\<exists>k n c. cache_lines width 0 blocks = Inr (Some n) \<and> cache_new tags lines n = Some c \<and> empty_cache c \<and>
      unat (cmask c) + 1 = 2 ^ k \<and> unat blocks \<le> 2 ^ k * 2 ^ k \<and> (\<forall>i < k. 2 ^ i * 2 ^ i < unat blocks)"
proof -
  have d: "drop_bit 31 blocks = 0" using b unfolding word_unat_eq_iff unat_drop_bit_eq by (simp add: drop_bit_eq_div)
    obtain k where k: "k \<le> 16" "default_lines blocks = Some (2 ^ k)" "unat blocks \<le> 2 ^ k * 2 ^ k" "\<And>i. i < k \<Longrightarrow> 2 ^ i * 2 ^ i < unat blocks"
      using default_lines_power [OF b] by metis
    have kn: "unat (2 ^ k :: uint32) = 2 ^ k" "(2 :: nat) ^ k \<le> 2 ^ 31" "(2 :: nat) ^ k \<noteq> 0"
    proof -
      show kk: "(2 :: nat) ^ k \<le> 2 ^ 31" using k(1) by (intro power_increasing) simp_all
      then show "unat (2 ^ k :: uint32) = 2 ^ k" using unat_of_nat [of "2 ^ k", where 'a = 32] by simp
    qed simp
    have "max (2 ^ k) 1 = (2 ^ k :: uint32)" by (rule max_absorb1) (use kn(1) in \<open>simp add: word_le_nat_alt\<close>)
    then have l: "cache_lines width 0 blocks = Inr (Some (2 ^ k))" using d k(2) by (simp add: cache_lines_def)
    have n0: "(2 ^ k :: uint32) \<noteq> 0" using kn by (metis unat_0)
    obtain c j where c: "cache_new tags lines (2 ^ k) = Some c" "empty_cache c" "unat (cmask c) + 1 = 2 ^ j" "(2 :: nat) ^ k \<le> 2 ^ j"
      "\<And>i. (2 :: nat) ^ k \<le> 2 ^ i \<Longrightarrow> j \<le> i"
      using cache_resize_cases(2) [OF kn(2) [folded kn(1)], of tags lines "\<lparr>cmask = 0, ctag = tags, cline = lines\<rparr>"] n0
      unfolding cache_new_def kn(1) by (simp only: if_False) blast
    have "j = k" using c(4) c(5) [of k] power_le_imp_le_exp [OF _ c(4)] by simp
    then show "\<exists>k n c. cache_lines width 0 blocks = Inr (Some n) \<and> cache_new tags lines n = Some c \<and> empty_cache c \<and>
      unat (cmask c) + 1 = 2 ^ k \<and> unat blocks \<le> 2 ^ k * 2 ^ k \<and> (\<forall>i < k. 2 ^ i * 2 ^ i < unat blocks)"
      using l c(1,2,3) k(3,4) by blast
qed

lemma cache_new_lines: "cache_new tags lines n = Some c \<Longrightarrow> cline c = lines"
  by (auto simp: cache_new_def cache_resize_def Let_def cache_clear_eq split: if_splits)

text \<open>For every array of fewer than 2 ^ 31 blocks the number of lines that a cache gets by default is found, as the smallest
  power of two whose square is not less than the number of blocks, and an empty cache of that many lines is made. A larger array is
  refused.\<close>

theorem default_cache:
  "(2 ^ 31 \<le> unat blocks \<longrightarrow> cache_lines width bytes blocks = Inl Too_large_for_cache) \<and>
   (unat blocks < 2 ^ 31 \<longrightarrow> (\<exists>k n c. cache_lines width 0 blocks = Inr (Some n) \<and> cache_new tags lines n = Some c \<and> empty_cache c \<and>
      unat (cmask c) + 1 = 2 ^ k \<and> unat blocks \<le> 2 ^ k * 2 ^ k \<and> (\<forall>i < k. 2 ^ i * 2 ^ i < unat blocks)))"
proof -
  have "drop_bit 31 blocks = 0 \<longleftrightarrow> unat blocks < 2 ^ 31"
    unfolding word_unat_eq_iff unat_drop_bit_eq by (simp add: drop_bit_eq_div div_eq_0_iff)
  then have "2 ^ 31 \<le> unat blocks \<Longrightarrow> cache_lines width bytes blocks = Inl Too_large_for_cache" by (simp add: cache_lines_def)
  then show ?thesis using default_cache_made by blast
qed

lemma default_cache_witness:
  "\<exists>k n c. cache_lines 64 0 100 = Inr (Some n) \<and> cache_new (\<lambda>_. 7) (\<lambda>_. 0 :: nat) n = Some c \<and> empty_cache c \<and>
      unat (cmask c) + 1 = 2 ^ k \<and> 100 \<le> (2 :: nat) ^ k * 2 ^ k \<and> (\<forall>i < k. (2 :: nat) ^ i * 2 ^ i < 100)"
  using default_cache [of 100 64 0 "\<lambda>_. 7" "\<lambda>_. 0 :: nat"] by simp

text \<open>C39: In a two-way cache, a lookup for writing that finds the block in its secondary slot does not mark the line that it
  returns, so that what is written there is lost. It marks the line of the primary slot: if that line is not in use, it becomes a
  modified line of block number 2 ^ 32 - 1, which the next flush compresses.\<close>

theorem lookup_secondary_marks_primary:
  fixes c :: "'l cache"
  assumes "twoway bd" "tag_index (ctag c (primary c x)) \<noteq> x" "tag_index (ctag c (secondary bd c x)) = x"
  shows "\<exists>c'. cache_lookup bd c x True = (Some (secondary bd c x), c') \<and>
    ctag c' (secondary bd c x) = ctag c (secondary bd c x) \<and> tag_dirty (ctag c' (primary c x)) \<and>
    (ctag c (primary c x) = 0 \<longrightarrow> tag_used (ctag c' (primary c x)) \<and> unat (tag_index (ctag c' (primary c x)) - 1) = 2 ^ 32 - 1)"
proof -
  have "primary c x \<noteq> secondary bd c x" using assms by metis
  moreover have "unat (- 1 :: uint32) = 2 ^ 32 - 1" by (simp add: unsigned_minus_1_eq_mask mask_eq_exp_minus_1)
  ultimately show ?thesis using assms
    by (intro exI [of _ "c\<lparr>ctag := (ctag c)(primary c x := tag_mark (ctag c (primary c x)))\<rparr>"])
       (simp_all add: cache_lookup_def Let_def tag_mark_parts tag_zero)
qed

lemma lookup_secondary_marks_primary_witness:
  "\<exists>c'. cache_lookup \<lparr>twoway = True, fast_hash = True\<rparr> \<lparr>cmask = 3, ctag = (\<lambda>_. 0)(0 := 6), cline = \<lambda>_. 0 :: nat\<rparr> 3 True = (Some 0, c') \<and>
    ctag c' 0 = 6 \<and> tag_used (ctag c' 3) \<and> tag_dirty (ctag c' 3)"
proof -
  let ?bd = "\<lparr>twoway = True, fast_hash = True\<rparr>" and ?c = "\<lparr>cmask = 3, ctag = (\<lambda>_. 0)(0 := 6), cline = \<lambda>_. 0 :: nat\<rparr>"
  have s: "secondary ?bd ?c 3 = 0" "primary ?c 3 = 3" by code_simp+
  show ?thesis
    using lookup_secondary_marks_primary [of ?bd ?c 3] by (auto simp: s tag_index_def)
qed

end
