(* ===== verification/Block_Store_Proof.thy ===== *)
theory Block_Store_Proof
  imports Block_Store
    Block_Cache_Proof
    Whole_Array
begin

text \<open>
  Correctness of the block store of a fixed-rate array. \<open>shape_code_extent\<close> shows that the branch-free code of a block's shape is right,
  and \<open>element_block\<close> that the elements of the array are partitioned into blocks; \<open>store_ok\<close> is the
  invariant of a store with an implicit index. Blocks are written and read independently (\<open>put_store\<close>, \<open>get_store\<close>), so that the
  store is a model of the contract that the cache relies on: the interpretation \<open>array_cache\<close>.
\<close>

section \<open>Shapes\<close>

lemma nat_xor_split: "(4 * a) XOR (4 * q + r) = 4 * (a XOR q) + r" if "r < 4" for a q r :: nat
proof -
  let ?x = "(4 * a) XOR (4 * q + r)"
  have "drop_bit 2 ?x = a XOR q" using that by (simp add: drop_bit_xor) (simp add: drop_bit_eq_div)
  moreover have "take_bit 2 ?x = r" using that by (simp add: take_bit_xor) (simp add: take_bit_eq_mod)
  ultimately have "?x div 4 = a XOR q" "?x mod 4 = r" by (simp_all add: drop_bit_eq_div take_bit_eq_mod)
  then show ?thesis by (metis div_mult_mod_eq mult.commute)
qed

text \<open>The code of a shape is four minus the number of elements that are left.\<close>

lemma shape_code_extent:
  assumes "4 dvd i" "i < n" "n < 2 ^ 62"
  shows "shape_at i n = 4 - min 4 (n - i)"
proof -
  obtain a where a: "i = 4 * a" using assms(1) by (elim dvdE)
  define q r where "q = n div 4" and "r = n mod 4"
  have n: "n = 4 * q + r" "r < 4" by (simp_all add: q_def r_def)
  have b: "a < 2 ^ 60" "q < 2 ^ 60" using assms a n by simp_all
  let ?i = "of_nat i :: uint64" and ?n = "of_nat n :: uint64"
  let ?m = "?i XOR ?n"
  have u: "unat ?i = i" "unat ?n = n" using assms by (simp_all add: unat_of_nat)
  have "unat ?m = i XOR n" by (simp add: unsigned_xor_eq u)
  then have m: "unat ?m = 4 * (a XOR q) + r" using nat_xor_split [OF n(2)] a n(1) by metis
  have "take_bit 60 (a XOR q) = a XOR q" using b by (simp add: take_bit_xor take_bit_nat_eq_self)
  then have bx: "a XOR q < 2 ^ 60" by (metis take_bit_nat_less_exp)
  show ?thesis
  proof (cases "a = q")
    case True
    then have r: "unat ?m = r" "1 \<le> r" using m assms(2) a n by simp_all
    then have "?m = of_nat r" using n(2) by (simp add: word_unat_eq_iff unat_of_nat)
    moreover have "r = 1 \<or> r = 2 \<or> r = 3" using r(2) n(2) by linarith
    ultimately have "?m = 1 \<or> ?m = 2 \<or> ?m = 3" by auto
    then have "drop_bit 62 (?m - 4) = 3" by (elim disjE) (simp_all add: mask_eq_exp_minus_1)
    then have "shape_code ?i ?n = ucast (3 AND - ?n)" by (simp add: shape_code_def Let_def)
    also have "3 AND - ?n = take_bit 2 (- ?n)" by (simp add: take_bit_eq_mask mask_eq_exp_minus_1 and.commute)
    finally have s: "shape_code ?i ?n = ucast (take_bit 2 (- ?n))" .
    have "- ?n = of_nat (2 ^ 64 - n)" using assms(3) by (simp add: of_nat_diff)
    moreover have "2 ^ 64 - n < 2 ^ 64" using r(2) n(1) by simp
    ultimately have "unat (- ?n) = 2 ^ 64 - n" by (simp only: unat_of_nat) (simp add: take_bit_nat_eq_self)
    then have "unat (take_bit 2 (- ?n)) = (2 ^ 64 - n) mod 4" unfolding unsigned_take_bit_eq by (simp add: take_bit_eq_mod)
    moreover have "2 ^ 64 - n = 4 * (2 ^ 62 - q - 1) + (4 - r)" using assms(3) n by simp
    moreover have "(4 * (2 ^ 62 - q - 1) + (4 - r)) mod 4 = 4 - r" unfolding mod_mult_self4 using r(2) by simp
    ultimately have t: "unat (take_bit 2 (- ?n)) = 4 - r" by simp
    have "unat (shape_code ?i ?n) = 4 - r" unfolding s by (simp add: unsigned_ucast_eq t take_bit_nat_eq_self)
    then show ?thesis using True a n by simp
  next
    case False
    then have "a XOR q \<noteq> 0" by (metis xor.right_neutral xor_self_eq xor.assoc xor.left_neutral)
    then have "4 \<le> unat ?m" "unat ?m < 2 ^ 62" using m n(2) bx by simp_all
    then have "unat (?m - 4) < 2 ^ 62" by (subst unat_sub) (simp_all add: word_le_nat_alt)
    then have "unat (drop_bit 62 (?m - 4)) = 0" unfolding unat_drop_bit_eq by (simp add: drop_bit_eq_div)
    then have "drop_bit 62 (?m - 4) = 0" by (simp only: unat_eq_0)
    then have "shape_code ?i ?n = 0" by (simp add: shape_code_def Let_def)
    moreover have "4 \<le> n - i" using False assms(2) a n by linarith
    ultimately show ?thesis by simp
  qed
qed

section \<open>The grid of blocks\<close>

text \<open>The coordinates of a block and back.\<close>

fun coords :: "nat list \<Rightarrow> nat \<Rightarrow> nat list" where
  "coords [] b = []"
| "coords (m # ms) b = b mod m # coords ms (b div m)"

fun flat :: "nat list \<Rightarrow> nat list \<Rightarrow> nat" where
  "flat (m # ms) (x # xs) = x + m * flat ms xs"
| "flat _ _ = 0"

lemma length_coords [simp]: "length (coords ms b) = length ms"
  by (induction ms arbitrary: b) simp_all

lemma coords_less: "b < prod_list ms \<Longrightarrow> list_all2 (<) (coords ms b) ms"
proof (induction ms arbitrary: b)
  case (Cons m ms)
  then have "m > 0" by (cases m) simp_all
  moreover have "b div m < prod_list ms" using Cons.prems by (simp add: less_mult_imp_div_less mult.commute)
  ultimately show ?case using Cons.IH by simp
qed simp

lemma flat_less: "list_all2 (<) xs ms \<Longrightarrow> flat ms xs < prod_list ms"
proof (induction xs ms rule: list_all2_induct)
  case (Cons x xs m ms)
  then have "x + m * flat ms xs < m * Suc (flat ms xs)" by simp
  also have "\<dots> \<le> m * prod_list ms" using Cons by (intro mult_le_mono2) simp
  finally show ?case by simp
qed simp

lemma coords_flat: "list_all2 (<) xs ms \<Longrightarrow> coords ms (flat ms xs) = xs"
  by (induction xs ms rule: list_all2_induct) simp_all

lemma flat_coords: "b < prod_list ms \<Longrightarrow> flat ms (coords ms b) = b"
proof (induction ms arbitrary: b)
  case (Cons m ms)
  have "b div m < prod_list ms" using Cons.prems by (simp add: less_mult_imp_div_less mult.commute)
  then show ?case using Cons.IH [of "b div m"] by simp
qed simp

text \<open>The corner of a block and its extents.\<close>

definition block_corner :: "nat list \<Rightarrow> nat \<Rightarrow> nat list" where
  "block_corner ns b = map ((*) 4) (coords (block_counts ns) b)"

definition block_extent :: "nat list \<Rightarrow> nat \<Rightarrow> nat list" where
  "block_extent ns b = extent ns (block_corner ns b)"

abbreviation num_blocks :: "nat list \<Rightarrow> nat" where
  "num_blocks ns \<equiv> prod_list (block_counts ns)"

lemma length_counts [simp]: "length (block_counts ns) = length ns"
  by (simp add: block_counts_def)

lemma corner_in: "b < num_blocks ns \<Longrightarrow> block_corner ns b \<in> set (corners ns)"
  using coords_less [of b "block_counts ns"] by (auto simp: block_corner_def corners_def set_box)

lemma block_extent_sizes: "b < num_blocks ns \<Longrightarrow> 1 \<le> length ns \<Longrightarrow> length ns \<le> 4 \<Longrightarrow> block_sizes (unit_strides (length ns)) (block_extent ns b)"
  unfolding block_extent_def by (intro extent_sizes corner_in) simp_all

fun shape_of :: "nat list \<Rightarrow> nat list \<Rightarrow> nat" where
  "shape_of (n # ns) (c # cs) = shape_at (4 * c) n + 4 * shape_of ns cs"
| "shape_of _ _ = 0"

lemma shape_of_extent:
  "list_all2 (\<lambda>c n. 4 * c < n \<and> n < 2 ^ 62) cs ns \<Longrightarrow> shape_extent (length ns) (shape_of ns cs) = map2 (\<lambda>n c. min (n - 4 * c) 4) ns cs"
proof (induction cs ns rule: list_all2_induct)
  case (Cons c cs n ns)
  then have s: "shape_at (4 * c) n = 4 - min 4 (n - 4 * c)" by (intro shape_code_extent) simp_all
  moreover have "min 4 (n - 4 * c) \<noteq> 0" using Cons by simp
  ultimately have "shape_at (4 * c) n < 4" by linarith
  then have "shape_of (n # ns) (c # cs) mod 4 = shape_at (4 * c) n" "shape_of (n # ns) (c # cs) div 4 = shape_of ns cs" by simp_all
  moreover have "4 - (4 - min 4 (n - 4 * c)) = min (n - 4 * c) 4" by simp
  ultimately show ?case using Cons s by (simp del: shape_of.simps)
qed simp

text \<open>A store for an array of sizes \<open>ns\<close>.\<close>

definition sized :: "nat list \<Rightarrow> ('w::len) block_store \<Rightarrow> bool" where
  "sized ns st \<longleftrightarrow> st_size st = ns \<and> st_blocks st = block_counts ns \<and> 1 \<le> length ns \<and> length ns \<le> 4 \<and> 0 \<notin> set ns"

lemma store_shape_of:
  assumes "sized ns st" "b < num_blocks ns"
  shows "store_block_shape st b = shape_of ns (coords (block_counts ns) b)"
proof -
  have l: "1 \<le> length ns" "length ns \<le> 4" using assms by (simp_all add: sized_def)
  then show ?thesis
    using assms
    by (cases rule: list_1_4_cases) (auto simp: sized_def block_counts_def store_block_shape_def store1_block_shape_def
        store2_block_shape_def store3_block_shape_def store4_block_shape_def Let_def less_mult_imp_div_less mult.commute mult.left_commute)
qed

lemma count_times: "n \<le> 4 * ((n + 3) div 4)" for n :: nat
  by linarith

lemma member_le_prod: "0 \<notin> set ms \<Longrightarrow> m \<in> set ms \<Longrightarrow> m \<le> prod_list ms" for m :: nat
proof (induction ms)
  case (Cons k ms)
  then have "prod_list ms \<noteq> 0" "k \<noteq> 0" by (auto simp: prod_list_zero_iff)
  then have "0 < prod_list ms" "0 < k" by simp_all
  then show ?case using Cons by (cases "m = k") (auto intro: order_trans [of m "prod_list ms"])
qed simp

lemma store_shape:
  assumes s: "sized ns st" and b: "b < num_blocks ns" and few: "num_blocks ns < 2 ^ 31"
  shows "shape_extent (length ns) (store_block_shape st b) = block_extent ns b"
proof -
  have nz: "0 \<notin> set (block_counts ns)" using s by (auto simp: sized_def block_counts_def div_eq_0_iff)
  have "n < 2 ^ 62" if "n \<in> set ns" for n
  proof -
    have "(n + 3) div 4 \<le> num_blocks ns" by (rule member_le_prod [OF nz]) (use that in \<open>simp add: block_counts_def\<close>)
    then have "n < 4 * 2 ^ 31" using few count_times [of n] by linarith
    then show ?thesis by simp
  qed
  moreover have "list_all2 (\<lambda>x n. x < n \<and> 4 dvd x) (block_corner ns b) ns" using corner_in [OF b] by (simp add: corner_iff)
  ultimately have "list_all2 (\<lambda>c n. 4 * c < n \<and> n < 2 ^ 62) (coords (block_counts ns) b) ns"
    by (simp add: block_corner_def list_all2_conv_all_nth)
  from shape_of_extent [OF this] show ?thesis
    by (simp add: store_shape_of [OF s b] block_extent_def extent_def block_corner_def zip_map2 comp_def split_def)
qed

text \<open>The block of an element, and the element's place in the block.\<close>

definition in_block :: "nat list \<Rightarrow> nat" where
  "in_block xs = block_pos (map (\<lambda>i. i mod 4) xs)"

lemma store_index_flat:
  assumes "sized ns st" "length xs = length ns"
  shows "store_block_index st xs = flat (block_counts ns) (map (\<lambda>i. i div 4) xs)"
proof -
  have l: "1 \<le> length ns" "length ns \<le> 4" using assms by (simp_all add: sized_def)
  then show ?thesis
    using assms
    by (cases rule: list_1_4_cases) (auto simp: sized_def block_counts_def store_block_index_def length_Suc_conv store1_block_index_def
        store2_block_index_def store3_block_index_def store4_block_index_def)
qed

lemma element_block:
  assumes s: "sized ns st" and x: "list_all2 (<) xs ns"
  shows "store_block_index st xs < num_blocks ns"
    and "map (\<lambda>i. i mod 4) xs \<in> set (box (block_extent ns (store_block_index st xs)))"
    and "xs = map2 (+) (block_corner ns (store_block_index st xs)) (map (\<lambda>i. i mod 4) xs)"
proof -
  let ?q = "map (\<lambda>i. i div 4) xs"
  have l: "length xs = length ns" using x by (rule list_all2_lengthD)
  have q: "list_all2 (<) ?q (block_counts ns)"
    using x by (auto simp: list_all2_conv_all_nth block_counts_def)
  note e = store_index_flat [OF s l]
  show "store_block_index st xs < num_blocks ns" unfolding e by (rule flat_less [OF q])
  have c: "block_corner ns (store_block_index st xs) = map ((*) 4) ?q" by (simp add: block_corner_def e coords_flat [OF q])
  have "xs ! i mod 4 < ns ! i - 4 * (xs ! i div 4)" if "i < length ns" for i
    using x that by (auto simp: list_all2_conv_all_nth) (metis less_diff_conv mod_mult_div_eq)
  then show "map (\<lambda>i. i mod 4) xs \<in> set (box (block_extent ns (store_block_index st xs)))"
    using l by (auto simp: block_extent_def c extent_def set_box list_all2_conv_all_nth)
  show "xs = map2 (+) (block_corner ns (store_block_index st xs)) (map (\<lambda>i. i mod 4) xs)"
    unfolding c by (rule nth_equalityI) simp_all
qed

text \<open>Elements of one block have different places.\<close>

lemma element_unique:
  assumes s: "sized ns st" and x: "list_all2 (<) xs ns" and y: "list_all2 (<) ys ns"
    and e: "store_block_index st xs = store_block_index st ys" "in_block xs = in_block ys"
  shows "xs = ys"
proof -
  have "block_pos as = block_pos bs \<Longrightarrow> as = bs" if "list_all2 (\<lambda>a b. a < 4 \<and> b < 4) as bs" for as bs
    using that
  proof (induction as bs rule: list_all2_induct)
    case (Cons a as b bs)
    then have "(a + 4 * block_pos as) mod 4 = (b + 4 * block_pos bs) mod 4" "(a + 4 * block_pos as) div 4 = (b + 4 * block_pos bs) div 4" by simp_all
    then show ?case using Cons by simp
  qed simp
  from this [of "map (\<lambda>i. i mod 4) xs" "map (\<lambda>i. i mod 4) ys"] have "map (\<lambda>i. i mod 4) xs = map (\<lambda>i. i mod 4) ys"
    using e(2) x y by (auto simp: in_block_def list_all2_conv_all_nth)
  then show ?thesis using element_block(3) [OF s x] element_block(3) [OF s y] e(1) by metis
qed

section \<open>Fixed-rate stores\<close>

text \<open>The store of a read-write array of sizes \<open>ns\<close> with the parameters of \<open>p\<close>.\<close>

definition store_ok :: "('i::len) word scalar \<Rightarrow> ('w::len) zfp_stream \<Rightarrow> nat list \<Rightarrow> 'w block_store \<Rightarrow> bool" where
  "store_ok t p ns st \<longleftrightarrow> sized ns st \<and> num_blocks ns < 2 ^ 31 \<and> num_blocks ns * maxbits p < 2 ^ 64 \<and> fixed_rate t (length ns) p \<and>
    like p (codec_stream (st_codec st)) \<and>
    st_index st = Implicit \<lparr>im_blocks = num_blocks ns, im_bits_per_block = of_nat (maxbits p)\<rparr>"

text \<open>Values of a block are functions of the place in the block; places beyond the border of the array have value 0.\<close>

definition line_values :: "nat list \<Rightarrow> nat \<Rightarrow> ('i::len) word list \<Rightarrow> nat \<Rightarrow> 'i word" where
  "line_values ns b l = (\<lambda>i. if i \<in> block_pos ` set (box (block_extent ns b)) then l ! i else 0)"

definition store_values :: "('i::len) word scalar \<Rightarrow> nat list \<Rightarrow> ('w::len) block_store \<Rightarrow> nat \<Rightarrow> nat \<Rightarrow> 'i word" where
  "store_values t ns st b = line_values ns b (codec_block t (length ns) (st_codec st) (store_offset st b))"

definition padded :: "nat list \<Rightarrow> nat \<Rightarrow> (nat \<Rightarrow> ('i::len) word) \<Rightarrow> 'i word list" where
  "padded ns b v =
    gather_partial_block (unit_strides (length ns)) (block_extent ns b) (replicate (4 ^ length ns) 0) (\<lambda>k. v (nat k)) 0"

definition block_loss :: "('i::len) word scalar \<Rightarrow> ('w::len) zfp_stream \<Rightarrow> nat list \<Rightarrow> nat \<Rightarrow> (nat \<Rightarrow> 'i word) \<Rightarrow> nat \<Rightarrow> 'i word" where
  "block_loss t p ns b v = line_values ns b (lossy t (length ns) p (padded ns b v))"

lemma pad_in_box:
  assumes "block_sizes ss ns" "xs \<in> set (box (replicate (length ss) 4))"
  shows "map2 pad_index ns xs \<in> set (box ns)"
  using assms by (auto simp: set_box block_sizes_def list_all2_conv_all_nth intro!: pad_index_less)

lemma gather_extent_cong:
  assumes e: "block_sizes (unit_strides d) ns" and c: "\<And>xs. xs \<in> set (box ns) \<Longrightarrow> a (p + int (block_pos xs)) = a' (p' + int (block_pos xs))"
  shows "gather_partial_block (unit_strides d) ns (replicate (4 ^ d) 0) a p = gather_partial_block (unit_strides d) ns (replicate (4 ^ d) 0) a' p'"
proof -
  have "a (p + offset (unit_strides d) (map2 pad_index ns xs)) = a' (p' + offset (unit_strides d) (map2 pad_index ns xs))"
    if "xs \<in> set (box (replicate d 4))" for xs
  proof -
    have m: "map2 pad_index ns xs \<in> set (box ns)" using pad_in_box [OF e] that by simp
    moreover have "length (map2 pad_index ns xs) = d" unfolding box_length [OF m] using e by (simp add: block_sizes_def)
    ultimately show ?thesis using c by (simp only: unit_offset)
  qed
  then show ?thesis by (simp add: gather_partial_block_eq [OF e])
qed

lemma lossy_like: "like p z \<Longrightarrow> lossy t d z b = lossy t d p b"
  by (simp add: lossy_def like_iff [of p z "stream_open (\<lambda>_. 0) 0"])

lemma store_okD:
  assumes "store_ok t p ns st"
  shows "sized ns st" "num_blocks ns < 2 ^ 31" "fixed_rate t (length ns) (codec_stream (st_codec st))" "maxbits (codec_stream (st_codec st)) = maxbits p"
    "length (st_size st) = length ns" "1 \<le> length ns" "length ns \<le> 4"
  using assms fixed_rate_likeD like_parts(2) by (auto simp: store_ok_def sized_def)

lemma store_offset_ok:
  assumes s: "store_ok t p ns st" and b: "b < num_blocks ns"
  shows "store_offset st b = b * maxbits p"
proof -
  have "b * maxbits p \<le> num_blocks ns * maxbits p" using b by (intro mult_le_mono1) simp
  then have "b * maxbits p < 2 ^ 64" using s unfolding store_ok_def by linarith
  then have "unat (of_nat (b * maxbits p) :: uint64) = b * maxbits p" by (simp only: unat_of_nat) (simp add: take_bit_nat_eq_self)
  then show ?thesis using s by (simp add: store_offset_def store_ok_def implicit_block_offset_def)
qed

lemma store_offset_dvd: "store_ok t p ns st \<Longrightarrow> b < num_blocks ns \<Longrightarrow> LENGTH('w) dvd store_offset st b" for st :: "('w::len) block_store"
  by (simp add: store_offset_ok) (simp add: store_ok_def fixed_rate_def)

lemma store_apart:
  assumes "store_ok t p ns st" "b < num_blocks ns" "k < num_blocks ns" "k \<noteq> b"
  shows "store_offset st k + maxbits p \<le> store_offset st b \<or> store_offset st b + maxbits p \<le> store_offset st k"
proof -
  have "(k + 1) * maxbits p \<le> b * maxbits p \<or> (b + 1) * maxbits p \<le> k * maxbits p"
  proof (cases "k < b")
    case True
    then have "k + 1 \<le> b" by simp
    then show ?thesis using mult_le_mono1 by blast
  next
    case False
    then have "b + 1 \<le> k" using assms(4) by simp
    then show ?thesis using mult_le_mono1 by blast
  qed
  then show ?thesis using assms(1-3) by (simp add: store_offset_ok algebra_simps)
qed

lemma store_ok_codec:
  assumes s: "store_ok t p ns st" and c: "codec_like (st_codec st) c"
  shows "store_ok t p ns (st\<lparr>st_codec := c\<rparr>)"
  using s like_trans [of p "codec_stream (st_codec st)" "codec_stream c"] c by (simp add: store_ok_def sized_def codec_like_def)

text \<open>Any block that is put into the store, and any that is taken from it.\<close>

lemma put_store:
  fixes st :: "('w::len) block_store" and t :: "('i::len) word scalar"
  assumes s: "store_ok t p ns st" and b: "b < num_blocks ns"
    and q: "on_stream (st_codec st) (\<lambda>z. put_block t (length ns) z (store_offset st b) B) = (n, c)"
  shows "n = maxbits p" "store_ok t p ns (st\<lparr>st_codec := c\<rparr>)"
    "k < num_blocks ns \<Longrightarrow> store_values t ns (st\<lparr>st_codec := c\<rparr>) k =
      (if k = b then line_values ns b (lossy t (length ns) p B) else store_values t ns st k)"
proof -
  note d = store_okD [OF s] and cp = codec_put [OF store_okD(3) [OF s] store_offset_dvd [OF s b] q]
  show "n = maxbits p" using cp(1) d(4) by simp
  show ok: "store_ok t p ns (st\<lparr>st_codec := c\<rparr>)" by (rule store_ok_codec [OF s cp(2)])
  have l: "lossy t (length ns) (codec_stream (st_codec st)) B = lossy t (length ns) p B"
    by (rule lossy_like) (use s in \<open>simp add: store_ok_def\<close>)
  have o: "store_offset (st\<lparr>st_codec := c\<rparr>) k = store_offset st k" for k by (simp add: store_offset_def)
  show "store_values t ns (st\<lparr>st_codec := c\<rparr>) k =
      (if k = b then line_values ns b (lossy t (length ns) p B) else store_values t ns st k)" if k: "k < num_blocks ns"
    using cp(3) cp(4) [OF store_offset_dvd [OF s k]] store_apart [OF s b k] d(4) by (auto simp: store_values_def o l)
qed

lemma get_store:
  fixes st :: "('w::len) block_store" and t :: "('i::len) word scalar"
  assumes s: "store_ok t p ns st" and b: "b < num_blocks ns" and ss: "length ss = length ns"
    and q: "on_stream (st_codec st) (\<lambda>z. get_scatter t ss shape m off z (store_offset st b)) = ((n, m'), c)"
  shows "n = maxbits p" "store_ok t p ns (st\<lparr>st_codec := c\<rparr>)"
    "m' = scatter_shape ss shape (codec_block t (length ns) (st_codec st) (store_offset st b)) m off"
    "k < num_blocks ns \<Longrightarrow> store_values t ns (st\<lparr>st_codec := c\<rparr>) k = store_values t ns st k"
proof -
  note d = store_okD [OF s] and cg = codec_get [OF store_okD(3) [OF s] store_offset_dvd [OF s b] ss q]
  show "n = maxbits p" using cg(1) d(4) by simp
  show "store_ok t p ns (st\<lparr>st_codec := c\<rparr>)" by (rule store_ok_codec [OF s cg(2)])
  show "m' = scatter_shape ss shape (codec_block t (length ns) (st_codec st) (store_offset st b)) m off" by (rule cg(3))
  have o: "store_offset (st\<lparr>st_codec := c\<rparr>) k = store_offset st k" for k by (simp add: store_offset_def)
  show "store_values t ns (st\<lparr>st_codec := c\<rparr>) k = store_values t ns st k" if k: "k < num_blocks ns"
    using cg(4) [OF store_offset_dvd [OF s k]] by (simp add: store_values_def o)
qed

lemma block_pos_less: "xs \<in> set (box ns) \<Longrightarrow> \<forall>n \<in> set ns. n \<le> 4 \<Longrightarrow> block_pos xs < 4 ^ length ns"
proof (induction ns arbitrary: xs)
  case (Cons n ns)
  then obtain x ys where "xs = x # ys" "x < 4" "ys \<in> set (box ns)" by fastforce
  then show ?case using Cons.IH [of ys] Cons.prems(2) by simp
qed simp

lemma line_values_cong: "(\<And>xs. xs \<in> set (box (block_extent ns b)) \<Longrightarrow> l ! block_pos xs = l' ! block_pos xs) \<Longrightarrow> line_values ns b l = line_values ns b l'"
  by (auto simp: line_values_def fun_eq_iff)

lemma scatter_unit_at:
  assumes e: "block_sizes (unit_strides d) ns" and x: "xs \<in> set (box ns)"
  shows "scatter_partial_block (unit_strides d) ns b a p (p + int (block_pos xs)) = b ! block_pos xs"
proof -
  have o: "offset (unit_strides d) ys = int (block_pos ys)" if "ys \<in> set (box ns)" for ys
    using box_length [OF that] e by (intro unit_offset) (simp add: block_sizes_def)
  let ?ws = "map (\<lambda>xs. (p + offset (unit_strides d) xs, b ! block_pos xs)) (box ns)"
  have "\<forall>(q, v) \<in> set ?ws. v = b ! nat (q - p)" using o by auto
  moreover have "p + int (block_pos xs) \<in> fst ` set ?ws" using x o by (force simp: image_iff)
  ultimately show ?thesis
    unfolding scatter_partial_block_eq [OF e] by (subst store_copy [where a = "\<lambda>q. b ! nat (q - p)"]) simp_all
qed

section \<open>A store satisfies the contract of the cache\<close>

lemma store_encode_put:
  fixes st :: "('w::len) block_store" and t :: "('i::len) word scalar" and a :: "'i word array" and q :: int
  assumes s: "store_ok t p ns st" and b: "b < num_blocks ns"
  defines "B \<equiv> gather_partial_block (unit_strides (length ns)) (block_extent ns b) (replicate (4 ^ length ns) 0) a q"
  obtains st' where "store_encode t st b a q = Inr (maxbits p, st')" "store_ok t p ns st'"
    "\<And>k. k < num_blocks ns \<Longrightarrow> store_values t ns st' k =
      (if k = b then line_values ns b (lossy t (length ns) p B) else store_values t ns st k)"
proof -
  note d = store_okD [OF s]
  have g: "gather_shape (unit_strides (length ns)) (store_block_shape st b) a q = B"
    by (simp add: gather_shape_def store_shape [OF d(1) b d(2)] B_def)
  obtain n c where c: "on_stream (st_codec st) (\<lambda>z. put_block t (length ns) z (store_offset st b) B) = (n, c)" by fastforce
  note ps = put_store [OF s b c]
  have "store_encode t st b a q = Inr (maxbits p, st\<lparr>st_codec := c\<rparr>)"
    using s ps(1) by (simp add: store_encode_def d(5) codec_encode_put [OF d(6,7)] g c lift_index_def store_ok_def)
  then show thesis using ps(2,3) by (rule that)
qed

lemma store_encode_strided_put:
  fixes st :: "('w::len) block_store" and t :: "('i::len) word scalar" and a :: "'i word array" and q :: int
  assumes s: "store_ok t p ns st" and b: "b < num_blocks ns" and ss: "length ss = length ns"
  defines "B \<equiv> gather_partial_block ss (block_extent ns b) (replicate (4 ^ length ns) 0) a q"
  obtains st' where "store_encode_strided t st b a q ss = Inr (maxbits p, st')" "store_ok t p ns st'"
    "\<And>k. k < num_blocks ns \<Longrightarrow> store_values t ns st' k =
      (if k = b then line_values ns b (lossy t (length ns) p B) else store_values t ns st k)"
proof -
  note d = store_okD [OF s]
  have g: "gather_shape ss (store_block_shape st b) a q = B"
    by (simp add: gather_shape_def ss store_shape [OF d(1) b d(2)] B_def)
  obtain n c where c: "on_stream (st_codec st) (\<lambda>z. put_block t (length ns) z (store_offset st b) B) = (n, c)" by fastforce
  note ps = put_store [OF s b c]
  have "store_encode_strided t st b a q ss = Inr (maxbits p, st\<lparr>st_codec := c\<rparr>)"
    using s ps(1) by (simp add: store_encode_strided_def codec_encode_strided_put [OF d(6,7) [folded ss]] g c ss lift_index_def store_ok_def)
  then show thesis using ps(2,3) by (rule that)
qed

lemma store_decode_get:
  fixes st :: "('w::len) block_store" and t :: "('i::len) word scalar"
  assumes s: "store_ok t p ns st" and b: "b < num_blocks ns"
  obtains st' where "store_decode t st b a q = ((maxbits p, scatter_partial_block (unit_strides (length ns)) (block_extent ns b)
      (codec_block t (length ns) (st_codec st) (store_offset st b)) a q), st')" "store_ok t p ns st'"
    "\<And>k. k < num_blocks ns \<Longrightarrow> store_values t ns st' k = store_values t ns st k"
proof -
  note d = store_okD [OF s]
  obtain n a' c where c: "on_stream (st_codec st) (\<lambda>z. get_scatter t (unit_strides (length ns)) (store_block_shape st b) a q z (store_offset st b)) = ((n, a'), c)"
    by (metis prod.exhaust)
  note gs = get_store [OF s b length_unit_strides c]
  have "store_decode t st b a q = ((maxbits p, a'), st\<lparr>st_codec := c\<rparr>)"
    using gs(1) by (simp add: store_decode_def d(5) codec_decode_get [OF d(6,7)] c)
  then show thesis using gs(2,4) gs(3) by (intro that [of "st\<lparr>st_codec := c\<rparr>"]) (simp_all add: scatter_shape_def store_shape [OF d(1) b d(2)])
qed

lemma store_decode_strided_get:
  fixes st :: "('w::len) block_store" and t :: "('i::len) word scalar"
  assumes s: "store_ok t p ns st" and b: "b < num_blocks ns" and ss: "length ss = length ns"
  obtains st' where "store_decode_strided t st b a q ss = ((maxbits p, scatter_partial_block ss (block_extent ns b)
      (codec_block t (length ns) (st_codec st) (store_offset st b)) a q), st')" "store_ok t p ns st'"
    "\<And>k. k < num_blocks ns \<Longrightarrow> store_values t ns st' k = store_values t ns st k"
proof -
  note d = store_okD [OF s]
  obtain n a' c where c: "on_stream (st_codec st) (\<lambda>z. get_scatter t ss (store_block_shape st b) a q z (store_offset st b)) = ((n, a'), c)"
    by (metis prod.exhaust)
  note gs = get_store [OF s b ss c]
  have "store_decode_strided t st b a q ss = ((maxbits p, a'), st\<lparr>st_codec := c\<rparr>)"
    using gs(1) by (simp add: store_decode_strided_def codec_decode_strided_get [OF d(6,7) [folded ss]] c)
  then show thesis using gs(2,4) gs(3) by (intro that [of "st\<lparr>st_codec := c\<rparr>"]) (simp_all add: scatter_shape_def ss store_shape [OF d(1) b d(2)])
qed

lemma line_values_at: "xs \<in> set (box (block_extent ns b)) \<Longrightarrow> line_values ns b l (block_pos xs) = l ! block_pos xs"
  by (auto simp: line_values_def)

lemma encode_line_ok:
  fixes st :: "('w::len) block_store" and t :: "('i::len) word scalar"
  assumes s: "store_ok t p ns st" and b: "b < num_blocks ns"
  shows "\<exists>st'. encode_line t st b l = Inr st' \<and> store_ok t p ns st' \<and>
    (\<forall>k < num_blocks ns. store_values t ns st' k = (if k = b then block_loss t p ns b (line_values ns b l) else store_values t ns st k))"
proof -
  note d = store_okD [OF s]
  have "gather_partial_block (unit_strides (length ns)) (block_extent ns b) (replicate (4 ^ length ns) 0) (line_data l) 0 =
      padded ns b (line_values ns b l)"
    unfolding padded_def
    by (rule gather_extent_cong [OF block_extent_sizes [OF b d(6,7)]]) (simp add: line_data_def line_values_at)
  then show ?thesis
    by (rule_tac store_encode_put [OF s b, of "line_data l" 0]) (auto simp: encode_line_def block_loss_def)
qed

lemma decode_line_ok:
  fixes st :: "('w::len) block_store" and t :: "('i::len) word scalar"
  assumes s: "store_ok t p ns st" and b: "b < num_blocks ns"
  shows "\<exists>l' st'. decode_line t st b l = (l', st') \<and> store_ok t p ns st' \<and> line_values ns b l' = store_values t ns st b \<and>
    (\<forall>k < num_blocks ns. store_values t ns st' k = store_values t ns st k)"
proof -
  note d = store_okD [OF s] and e = block_extent_sizes [OF b store_okD(6,7) [OF s]]
  let ?B = "codec_block t (length ns) (st_codec st) (store_offset st b)"
  let ?a = "scatter_partial_block (unit_strides (length ns)) (block_extent ns b) ?B (line_data l) 0"
  obtain st' where st': "store_decode t st b (line_data l) 0 = ((maxbits p, ?a), st')" "store_ok t p ns st'"
    "\<And>k. k < num_blocks ns \<Longrightarrow> store_values t ns st' k = store_values t ns st k"
    using store_decode_get [OF s b] by blast
  have "line_values ns b (data_line (length ns) ?a) = line_values ns b ?B"
  proof (rule line_values_cong)
    fix xs assume x: "xs \<in> set (box (block_extent ns b))"
    have "\<forall>n \<in> set (block_extent ns b). n \<le> 4" "length (block_extent ns b) = length ns" using e by (simp_all add: block_sizes_def)
    then have "block_pos xs < 4 ^ length ns" using block_pos_less [OF x] by simp
    then show "data_line (length ns) ?a ! block_pos xs = ?B ! block_pos xs"
      using scatter_unit_at [OF e x, of ?B "line_data l" 0] by (simp add: data_line_def)
  qed
  then show ?thesis using st' store_okD(5) [OF st'(2)] by (auto simp: decode_line_def store_values_def)
qed

interpretation array_cache: cached_store "encode_line t" "decode_line t" "num_blocks ns" "store_ok t p ns" "store_values t ns"
    "line_values ns" "block_loss t p ns"
  for t :: "('i::len) word scalar" and p :: "('w::len) zfp_stream" and ns
proof unfold_locales
  show "num_blocks ns < 2 ^ 31" if "store_ok t p ns st" for st using that by (simp add: store_ok_def)
qed (rule encode_line_ok decode_line_ok; assumption)+

end
