(* ===== verification/Cached_Array_Proof.thy ===== *)
theory Cached_Array_Proof
  imports Cached_Array
    Block_Store_Proof
begin

text \<open>
  Correctness of the compressed arrays. \<open>array_value\<close> is the value of an element, wherever it is kept, and \<open>array_inv\<close> the invariant of an
  array. Every operation keeps the invariant and is described by what it does to the values: elements (\<open>array_element\<close>), blocks
  (\<open>get_block_values\<close>, \<open>put_block_values\<close>), whole arrays (\<open>array_get_correct\<close>, \<open>array_set_correct\<close>) and flushes
  (\<open>array_flush_correct\<close>). The loops over the blocks of arrays of one to four dimensions are shown to visit the blocks in the order of
  their numbers (\<open>array_get_fold\<close>, \<open>array_set_fold\<close>).
\<close>

section \<open>The values of an array\<close>

definition block_number :: "nat list \<Rightarrow> nat list \<Rightarrow> nat" where
  "block_number ns xs = flat (block_counts ns) (map (\<lambda>i. i div 4) xs)"

definition array_block :: "cache_build \<Rightarrow> ('i::len) word scalar \<Rightarrow> nat list \<Rightarrow> ('i, 'w::len) cached_array \<Rightarrow> nat \<Rightarrow> nat \<Rightarrow> 'i word" where
  "array_block bd t ns cs = current bd (line_values ns) (store_values t ns) cs"

definition array_value :: "cache_build \<Rightarrow> ('i::len) word scalar \<Rightarrow> nat list \<Rightarrow> ('i, 'w::len) cached_array \<Rightarrow> nat list \<Rightarrow> 'i word" where
  "array_value bd t ns cs xs = array_block bd t ns cs (block_number ns xs) (in_block xs)"

text \<open>The invariant: the store is one of fixed rate, unmodified lines hold what the store holds, and all lines have the size of a block.\<close>

definition array_inv :: "cache_build \<Rightarrow> ('i::len) word scalar \<Rightarrow> ('w::len) zfp_stream \<Rightarrow> nat list \<Rightarrow> ('i, 'w) cached_array \<Rightarrow> bool" where
  "array_inv bd t p ns = (\<lambda>(c, st). store_ok t p ns st \<and> coherent bd (num_blocks ns) (line_values ns) (store_values t ns) (c, st) \<and>
    (\<forall>i. length (cline c i) = 4 ^ length ns))"

lemma array_invD:
  assumes "array_inv bd t p ns (c, st)"
  shows "store_ok t p ns st" "coherent bd (num_blocks ns) (line_values ns) (store_values t ns) (c, st)" "length (cline c i) = 4 ^ length ns"
    "sized ns st"
  using assms by (auto simp: array_inv_def store_ok_def)

lemma line_index_block: "1 \<le> length xs \<Longrightarrow> length xs \<le> 4 \<Longrightarrow> line_index xs = in_block xs"
  by (cases rule: list_1_4_cases) (auto simp: line_index_def in_block_def line1_index_def line2_index_def line3_index_def line4_index_def)

lemma element:
  assumes i: "array_inv bd t p ns (c, st)" and x: "list_all2 (<) xs ns"
  shows "store_block_index st xs = block_number ns xs" "block_number ns xs < num_blocks ns" "line_index xs = in_block xs"
    "in_block xs \<in> block_pos ` set (box (block_extent ns (block_number ns xs)))" "in_block xs < 4 ^ length ns"
proof -
  note s = array_invD(4) [OF i] and l = list_all2_lengthD [OF x]
  show n: "store_block_index st xs = block_number ns xs" using store_index_flat [OF s l] by (simp add: block_number_def)
  note e = element_block [OF s x, unfolded n]
  show "block_number ns xs < num_blocks ns" by (rule e(1))
  show "line_index xs = in_block xs" using s l by (intro line_index_block) (simp_all add: sized_def)
  show "in_block xs \<in> block_pos ` set (box (block_extent ns (block_number ns xs)))" using e(2) by (auto simp: in_block_def)
  have "\<forall>n \<in> set (replicate (length ns) 4). n \<le> (4 :: nat)" by simp
  moreover have "map (\<lambda>i. i mod 4) xs \<in> set (box (replicate (length ns) 4))" using l by (simp add: set_box list_all2_conv_all_nth)
  ultimately show "in_block xs < 4 ^ length ns" unfolding in_block_def using block_pos_less by fastforce
qed

lemma map_sum_Inr: "map_sum f g r = Inr y \<longleftrightarrow> (\<exists>x. r = Inr x \<and> y = g x)"
  by (cases r) auto

lemma encode_line_size: "encode_line t st b l = Inr st' \<Longrightarrow> st_size st' = st_size st"
  by (auto simp: encode_line_def store_encode_def lift_index_def map_sum_Inr split: prod.splits)

lemma decode_line_size: "decode_line t st b l = (l', st') \<Longrightarrow> st_size st' = st_size st \<and> length l' = 4 ^ length (st_size st)"
  by (auto simp: decode_line_def store_decode_def data_line_def split: prod.splits)

lemma line_lengths:
  assumes "cache_line bd (encode_line t) (decode_line t) (c, st) b w = Inr (p, c', st')" "\<forall>i. length (cline c i) = 4 ^ length (st_size st)"
  shows "\<forall>i. length (cline c' i) = 4 ^ length (st_size st)"
proof -
  obtain i u d where a: "cache_access bd c (of_nat b + 1) w = (i, u, d)" by (metis prod.exhaust)
  then have d: "cline d = cline c" by (auto simp: cache_access_def Let_def split: if_splits)
  let ?k = "unat (tag_index u - 1)"
  show ?thesis
  proof (cases "?k = b")
    case True
    then show ?thesis using assms a d by (simp add: cache_line_def)
  next
    case False
    let ?e = "if tag_dirty u then encode_line t st ?k (cline d i) else Inr st"
    obtain st1 where e: "?e = Inr st1" using assms(1) False a by (cases ?e) (simp_all add: cache_line_def Let_def)
    obtain l st2 where l: "decode_line t st1 b (cline d i) = (l, st2)" by fastforce
    have "c' = d\<lparr>cline := (cline d)(i := l)\<rparr>" using assms(1) False a e l by (auto simp: cache_line_def Let_def)
    moreover have "st_size st1 = st_size st" using e encode_line_size by (auto split: if_splits)
    ultimately show ?thesis using assms(2) d decode_line_size [OF l] by simp
  qed
qed

text \<open>An access to an element: its line, and what happens to the values of the array.\<close>

lemma array_access:
  fixes st :: "('w::len) block_store" and t :: "('i::len) word scalar"
  assumes i: "array_inv bd t p ns (c, st)" and x: "list_all2 (<) xs ns"
  obtains q c' st' where "array_line bd t (c, st) xs w = Inr (q, c', st')" "array_inv bd t p ns (c', st')"
    "cached bd c' (block_number ns xs) = Some q" "w \<Longrightarrow> tag_dirty (ctag c' q)"
    "\<And>k. k < num_blocks ns \<Longrightarrow> array_block bd t ns (c', st') k =
      (if evicted bd c (block_number ns xs) = Some k then block_loss t p ns k (array_block bd t ns (c, st) k) else array_block bd t ns (c, st) k)"
    "\<And>e. evicted bd c (block_number ns xs) = Some e \<Longrightarrow> e < num_blocks ns \<and> e \<noteq> block_number ns xs"
proof -
  note e = element [OF i x] and d = array_invD [OF i]
  show thesis
  proof (rule array_cache.line [OF d(2,1) e(2), of w])
    fix q c' st'
    assume l: "cache_line bd (encode_line t) (decode_line t) (c, st) (block_number ns xs) w = Inr (q, c', st')"
      and r: "coherent bd (num_blocks ns) (line_values ns) (store_values t ns) (c', st')" "store_ok t p ns st'"
        "cached bd c' (block_number ns xs) = Some q" "w \<Longrightarrow> tag_dirty (ctag c' q)"
        "\<And>k. k < num_blocks ns \<Longrightarrow> current bd (line_values ns) (store_values t ns) (c', st') k =
          (if evicted bd c (block_number ns xs) = Some k then block_loss t p ns k (current bd (line_values ns) (store_values t ns) (c, st) k)
           else current bd (line_values ns) (store_values t ns) (c, st) k)"
        "\<And>e. evicted bd c (block_number ns xs) = Some e \<Longrightarrow> e < num_blocks ns \<and> e \<noteq> block_number ns xs"
    have "\<forall>i. length (cline c' i) = 4 ^ length ns" using line_lengths [OF l] d(3) store_okD(5) [OF d(1)] by simp
    then have "array_inv bd t p ns (c', st')" using r(1,2) by (simp add: array_inv_def)
    moreover have "array_line bd t (c, st) xs w = Inr (q, c', st')" using l e(1) by (simp add: array_line_def)
    ultimately show thesis using that r(3-6) unfolding array_block_def by blast
  qed
qed

lemma value_in_line:
  assumes i: "array_inv bd t p ns (c, st)" and x: "list_all2 (<) xs ns" and q: "cached bd c (block_number ns xs) = Some q"
  shows "cline c q ! line_index xs = array_value bd t ns (c, st) xs"
  using element(3,4) [OF i x] q by (simp add: array_value_def array_block_def current_def line_values_def)

lemma line_values_update:
  assumes "k \<in> block_pos ` set (box (block_extent ns b))" "k < length l"
  shows "line_values ns b (l[k := v]) = (line_values ns b l)(k := v)"
  using assms by (auto simp: line_values_def fun_eq_iff nth_list_update)

section \<open>Reading and writing elements\<close>

text \<open>What an access does to the other blocks: the one that gives way to the block of \<open>xs\<close>, if it was modified, loses what
  compression loses.\<close>

definition values_after ::
  "cache_build \<Rightarrow> ('i::len) word scalar \<Rightarrow> ('w::len) zfp_stream \<Rightarrow> nat list \<Rightarrow> ('i, 'w) cached_array \<Rightarrow> nat list \<Rightarrow> nat \<Rightarrow> nat \<Rightarrow> 'i word" where
  "values_after bd t p ns cs xs k =
    (if evicted bd (fst cs) (block_number ns xs) = Some k then block_loss t p ns k (array_block bd t ns cs k) else array_block bd t ns cs k)"

lemma get_element:
  assumes i: "array_inv bd t p ns (c, st)" and x: "list_all2 (<) xs ns"
  obtains cs' where "cache_get bd t (c, st) xs = Inr (array_value bd t ns (c, st) xs, cs')" "array_inv bd t p ns cs'"
    "\<And>k. k < num_blocks ns \<Longrightarrow> array_block bd t ns cs' k = values_after bd t p ns (c, st) xs k"
proof (rule array_access [OF i x, of False])
  fix q c' st'
  assume a: "array_line bd t (c, st) xs False = Inr (q, c', st')" "array_inv bd t p ns (c', st')" "cached bd c' (block_number ns xs) = Some q"
    "\<And>k. k < num_blocks ns \<Longrightarrow> array_block bd t ns (c', st') k =
      (if evicted bd c (block_number ns xs) = Some k then block_loss t p ns k (array_block bd t ns (c, st) k) else array_block bd t ns (c, st) k)"
    "\<And>e. evicted bd c (block_number ns xs) = Some e \<Longrightarrow> e < num_blocks ns \<and> e \<noteq> block_number ns xs"
  have "array_value bd t ns (c', st') xs = array_value bd t ns (c, st) xs"
    using a(4) [OF element(2) [OF i x]] a(5) by (auto simp: array_value_def)
  then have "cache_get bd t (c, st) xs = Inr (array_value bd t ns (c, st) xs, (c', st'))"
    using value_in_line [OF a(2) x a(3)] by (simp add: cache_get_def a(1))
  then show thesis using a(2,4) by (intro that [of "(c', st')"]) (auto simp: values_after_def)
qed

lemma ref_element:
  assumes i: "array_inv bd t p ns (c, st)" and x: "list_all2 (<) xs ns"
  obtains cs' where "cache_ref bd t (c, st) xs f = Inr cs'" "array_inv bd t p ns cs'"
    "\<And>k. k < num_blocks ns \<Longrightarrow> array_block bd t ns cs' k =
      (if k = block_number ns xs then (array_block bd t ns (c, st) k)(in_block xs := f (array_value bd t ns (c, st) xs))
       else values_after bd t p ns (c, st) xs k)"
proof (rule array_access [OF i x, of True])
  fix q c' st'
  let ?b = "block_number ns xs"
  assume a: "array_line bd t (c, st) xs True = Inr (q, c', st')" "array_inv bd t p ns (c', st')" "cached bd c' ?b = Some q"
    and w: "True \<Longrightarrow> tag_dirty (ctag c' q)"
    and k: "\<And>k. k < num_blocks ns \<Longrightarrow> array_block bd t ns (c', st') k =
      (if evicted bd c ?b = Some k then block_loss t p ns k (array_block bd t ns (c, st) k) else array_block bd t ns (c, st) k)"
    and v: "\<And>e. evicted bd c ?b = Some e \<Longrightarrow> e < num_blocks ns \<and> e \<noteq> ?b"
  have e: "in_block xs \<in> block_pos ` set (box (block_extent ns ?b))" "in_block xs < length (cline c' q)" "line_index xs = in_block xs" "?b < num_blocks ns"
    using element [OF i x] array_invD(3) [OF a(2)] by simp_all
  have nb: "evicted bd c ?b \<noteq> Some ?b" using v by blast
  have u: "array_value bd t ns (c', st') xs = array_value bd t ns (c, st) xs" "array_block bd t ns (c', st') ?b = array_block bd t ns (c, st) ?b"
    using k [OF e(4)] nb by (simp_all add: array_value_def)
  let ?l = "(cline c' q)[in_block xs := f (array_value bd t ns (c, st) xs)]"
  let ?d = "c'\<lparr>cline := (cline c')(q := ?l)\<rparr>"
  have r: "cache_ref bd t (c, st) xs f = Inr (?d, st')"
    using value_in_line [OF a(2) x a(3)] by (simp add: cache_ref_def a(1) e(3) u)
  note m = array_cache.modify [OF array_invD(2,1) [OF a(2)] e(4) a(3) w [OF TrueI], where l = ?l]
  have "array_inv bd t p ns (?d, st')" using array_invD [OF a(2)] m(1) by (simp add: array_inv_def)
  moreover have "line_values ns ?b ?l = (line_values ns ?b (cline c' q))(in_block xs := f (array_value bd t ns (c, st) xs))"
    by (rule line_values_update [OF e(1,2)])
  moreover have "line_values ns ?b (cline c' q) = array_block bd t ns (c', st') ?b" by (simp add: array_block_def current_def a(3))
  ultimately show thesis using m(2) k u(2)
    by (intro that [OF r]) (auto simp: array_block_def values_after_def)
qed

text \<open>Right after an access, another access to the same block evicts nothing.\<close>

lemma evicted_cached: "cached bd c b = Some i \<Longrightarrow> evicted bd c b = None"
  by (simp add: evicted_def)

text \<open>C5: Elements are read and written as if there were neither a cache nor compression, whatever the state of the cache: reading
  returns the value of the element; a mutator changes this element to the given function of its value. Beyond that, at most one other
  block changes, the modified one that gives way in the cache; its values are those that compression leaves.\<close>

theorem array_element:
  assumes "array_inv bd t p ns cs" and "list_all2 (<) xs ns"
  shows "\<exists>cs1 cs2. cache_get bd t cs xs = Inr (array_value bd t ns cs xs, cs1) \<and> array_inv bd t p ns cs1 \<and>
      (\<forall>k < num_blocks ns. array_block bd t ns cs1 k = values_after bd t p ns cs xs k) \<and>
    cache_ref bd t cs xs f = Inr cs2 \<and> array_inv bd t p ns cs2 \<and> array_value bd t ns cs2 xs = f (array_value bd t ns cs xs) \<and>
      (\<forall>ys. list_all2 (<) ys ns \<longrightarrow> ys \<noteq> xs \<longrightarrow>
        array_value bd t ns cs2 ys = values_after bd t p ns cs xs (block_number ns ys) (in_block ys)) \<and>
      evicted bd (fst cs) (block_number ns xs) \<noteq> Some (block_number ns xs)"
proof -
  obtain c st where cs: "cs = (c, st)" by fastforce
  note i = assms(1) [unfolded cs]
  let ?b = "block_number ns xs"
  obtain cs1 where c1: "cache_get bd t cs xs = Inr (array_value bd t ns cs xs, cs1)" "array_inv bd t p ns cs1"
    "\<And>k. k < num_blocks ns \<Longrightarrow> array_block bd t ns cs1 k = values_after bd t p ns cs xs k"
    using get_element [OF i assms(2)] unfolding cs by metis
  obtain cs2 where c2: "cache_ref bd t cs xs f = Inr cs2" "array_inv bd t p ns cs2"
    "\<And>k. k < num_blocks ns \<Longrightarrow> array_block bd t ns cs2 k =
      (if k = ?b then (array_block bd t ns cs k)(in_block xs := f (array_value bd t ns cs xs)) else values_after bd t p ns cs xs k)"
    using ref_element [OF i assms(2)] unfolding cs by metis
  have b: "?b < num_blocks ns" using element(2) [OF i assms(2)] .
  have nb: "evicted bd c ?b \<noteq> Some ?b" by (rule array_access [OF i assms(2)]) blast
  then have "values_after bd t p ns cs xs ?b = array_block bd t ns cs ?b" by (simp add: values_after_def cs)
  moreover have "in_block ys \<noteq> in_block xs" if "list_all2 (<) ys ns" "ys \<noteq> xs" "block_number ns ys = ?b" for ys
    using element_unique [OF array_invD(4) [OF i] that(1) assms(2)] that element(1) [OF i] assms(2) by auto
  ultimately have "array_value bd t ns cs2 ys = values_after bd t p ns cs xs (block_number ns ys) (in_block ys)"
    if "list_all2 (<) ys ns" "ys \<noteq> xs" for ys
    using that c2(3) [OF element(2) [OF i that(1)]] by (auto simp: array_value_def)
  moreover have "array_value bd t ns cs2 xs = f (array_value bd t ns cs xs)" using c2(3) [OF b] by (simp add: array_value_def)
  ultimately show ?thesis using c1 c2(1,2) nb by (auto simp: cs)
qed

section \<open>Blocks copied to a line\<close>

definition put_list :: "'a list \<Rightarrow> (nat \<times> 'a) list \<Rightarrow> 'a list" where
  "put_list q ws = fold (\<lambda>(i, v) q. q[i := v]) ws q"

lemma put_list_simps [simp]: "put_list q [] = q" "put_list q ((i, v) # ws) = put_list (q[i := v]) ws" "put_list q (ws @ vs) = put_list (put_list q ws) vs"
  by (simp_all add: put_list_def)

lemma length_put_list [simp]: "length (put_list q ws) = length q"
  by (induction ws arbitrary: q) auto

lemma put_list_copy:
  assumes "\<forall>(i, v) \<in> set ws. v = f i" "j < length q"
  shows "put_list q ws ! j = (if j \<in> fst ` set ws then f j else q ! j)"
  using assms
proof (induction ws arbitrary: q)
  case (Cons w ws)
  obtain i v where w: "w = (i, v)" by fastforce
  then have "put_list (q[i := v]) ws ! j = (if j \<in> fst ` set ws then f j else q[i := v] ! j)" using Cons by simp
  then show ?case using Cons.prems w by auto
qed simp

definition puts ::
  "('a list \<times> nat \<times> int \<Rightarrow> 'a list \<times> nat \<times> int) \<Rightarrow> nat \<Rightarrow> int \<Rightarrow> (nat \<Rightarrow> int \<Rightarrow> (nat \<times> 'a) list) \<Rightarrow> bool" where
  "puts f m s ws \<longleftrightarrow> (\<forall>q i p. f (q, i, p) = (put_list q (ws i p), i + m, p + s))"

lemma puts_one: "puts (\<lambda>(q, i, p). (q[i := a p], i + 1, p + s)) 1 s (\<lambda>i p. [(i, a p)])"
  by (simp add: puts_def)

lemma puts_loop:
  assumes "puts f m s ws"
  shows "puts (for_loop n (\<lambda>_. f)) (n * m) (int n * s) (\<lambda>i p. concat (map (\<lambda>x. ws (i + x * m) (p + int x * s)) [0..<n]))"
  using assms by (induction n) (auto simp: puts_def algebra_simps)

lemma puts_advance:
  "puts f m s ws \<Longrightarrow> puts (\<lambda>st. let (q, i, p) = f st in (q, i + k, p + t)) (m + k) (s + t) ws"
  by (auto simp: puts_def ac_simps)

lemma puts_result: "puts f m s ws \<Longrightarrow> (let (q, i, p) = f (q, 0, p) in q) = put_list q (ws 0 p)"
  by (simp add: puts_def)

lemma put_partial_1_eq: "put_partial_1 q a p mx dx = put_list q (map (\<lambda>xs. (block_pos xs, a (p + offset [dx] xs))) (box [mx]))"
  unfolding put_partial_1_def
  by (subst puts_result [OF puts_loop [OF puts_one]]) (simp add: box_concat)

lemma put_partial_2_eq:
  "mx \<le> 4 \<Longrightarrow> put_partial_2 q a p mx my dx dy = put_list q (map (\<lambda>xs. (block_pos xs, a (p + offset [dx, dy] xs))) (box [mx, my]))"
  unfolding put_partial_2_def
  by (subst puts_result [OF puts_loop [OF puts_advance [OF puts_loop [OF puts_one]]]]) (simp add: box_concat algebra_simps)

lemma put_partial_3_eq:
  "mx \<le> 4 \<Longrightarrow> my \<le> 4 \<Longrightarrow> put_partial_3 q a p mx my mz dx dy dz =
    put_list q (map (\<lambda>xs. (block_pos xs, a (p + offset [dx, dy, dz] xs))) (box [mx, my, mz]))"
  unfolding put_partial_3_def
  by (subst puts_result [OF puts_loop [OF puts_advance [OF puts_loop [OF puts_advance [OF puts_loop [OF puts_one]]]]]])
    (simp add: box_concat algebra_simps)

lemma put_partial_4_eq:
  "mx \<le> 4 \<Longrightarrow> my \<le> 4 \<Longrightarrow> mz \<le> 4 \<Longrightarrow> put_partial_4 q a p mx my mz mw dx dy dz dw =
    put_list q (map (\<lambda>xs. (block_pos xs, a (p + offset [dx, dy, dz, dw] xs))) (box [mx, my, mz, mw]))"
  unfolding put_partial_4_def
  by (subst puts_result [OF puts_loop [OF puts_advance [OF puts_loop [OF puts_advance [OF puts_loop [OF puts_advance [OF puts_loop [OF puts_one]]]]]]]])
    (simp add: box_concat algebra_simps)

text \<open>A whole block is copied like a partial one of full extents.\<close>

lemma put_full:
  "gather_1 q a p dx = put_partial_1 q a p 4 dx"
  "gather_2 q a p dx dy = put_partial_2 q a p 4 4 dx dy"
  "gather_3 q a p dx dy dz = put_partial_3 q a p 4 4 4 dx dy dz"
  "gather_4 q a p dx dy dz dw = put_partial_4 q a p 4 4 4 4 dx dy dz dw"
  by (simp_all add: gather_1_def gather_2_def gather_3_def gather_4_def put_partial_1_def put_partial_2_def put_partial_3_def put_partial_4_def)

lemma put_shape:
  "line1_put q a p dx shape = put_list q (map (\<lambda>xs. (block_pos xs, a (p + offset [dx] xs))) (box (shape_extent 1 shape)))"
  "line2_put q a p dx dy shape = put_list q (map (\<lambda>xs. (block_pos xs, a (p + offset [dx, dy] xs))) (box (shape_extent 2 shape)))"
  "line3_put q a p dx dy dz shape = put_list q (map (\<lambda>xs. (block_pos xs, a (p + offset [dx, dy, dz] xs))) (box (shape_extent 3 shape)))"
  "line4_put q a p dx dy dz dw shape = put_list q (map (\<lambda>xs. (block_pos xs, a (p + offset [dx, dy, dz, dw] xs))) (box (shape_extent 4 shape)))"
  unfolding shape_extent_eqs
  by (cases "shape = 0"; simp del: box.simps offset.simps add: line1_put_def line2_put_def line3_put_def line4_put_def put_full Let_def
      put_partial_1_eq put_partial_2_eq put_partial_3_eq put_partial_4_eq)+

lemma line_put_eq:
  assumes "1 \<le> length ss" "length ss \<le> 4"
  shows "line_put q a p ss shape = put_list q (map (\<lambda>xs. (block_pos xs, a (p + offset ss xs))) (box (shape_extent (length ss) shape)))"
  using assms
proof (cases rule: list_1_4_cases)
  case (1 x)
  have l: "length [x] = 1" by simp
  show ?thesis unfolding 1 l line_put_def list.case by (rule put_shape(1))
next
  case (2 x y)
  have l: "length [x, y] = 2" by simp
  show ?thesis unfolding 2 l line_put_def list.case by (rule put_shape(2))
next
  case (3 x y z)
  have l: "length [x, y, z] = 3" by simp
  show ?thesis unfolding 3 l line_put_def list.case by (rule put_shape(3))
next
  case (4 x y z w)
  have l: "length [x, y, z, w] = 4" by simp
  show ?thesis unfolding 4 l line_put_def list.case by (rule put_shape(4))
qed

lemma get_shape:
  "line1_get q a p dx shape = scatter_partial_block [dx] (shape_extent 1 shape) q a p"
  "line2_get q a p dx dy shape = scatter_partial_block [dx, dy] (shape_extent 2 shape) q a p"
  "line3_get q a p dx dy dz shape = scatter_partial_block [dx, dy, dz] (shape_extent 3 shape) q a p"
  "line4_get q a p dx dy dz dw shape = scatter_partial_block [dx, dy, dz, dw] (shape_extent 4 shape) q a p"
  unfolding shape_extent_eqs
  by (cases "shape = 0"; simp add: line1_get_def line2_get_def line3_get_def line4_get_def scatter_full Let_def scatter_partial_block_def)+

lemma line_get_eq:
  assumes "1 \<le> length ss" "length ss \<le> 4"
  shows "line_get q a p ss shape = scatter_partial_block ss (shape_extent (length ss) shape) q a p"
  using assms
proof (cases rule: list_1_4_cases)
  case (1 x)
  have l: "length [x] = 1" by simp
  show ?thesis unfolding 1 l line_get_def list.case by (rule get_shape(1))
next
  case (2 x y)
  have l: "length [x, y] = 2" by simp
  show ?thesis unfolding 2 l line_get_def list.case by (rule get_shape(2))
next
  case (3 x y z)
  have l: "length [x, y, z] = 3" by simp
  show ?thesis unfolding 3 l line_get_def list.case by (rule get_shape(3))
next
  case (4 x y z w)
  have l: "length [x, y, z, w] = 4" by simp
  show ?thesis unfolding 4 l line_get_def list.case by (rule get_shape(4))
qed

section \<open>Reading and writing blocks\<close>

text \<open>The values of a strided block in memory, by their places in the block.\<close>

definition memory_values :: "nat list \<Rightarrow> nat \<Rightarrow> int list \<Rightarrow> ('i::len) word array \<Rightarrow> int \<Rightarrow> nat \<Rightarrow> 'i word" where
  "memory_values ns b ss a q =
    (\<lambda>i. if i \<in> block_pos ` set (box (block_extent ns b)) then a (q + offset ss (coords (replicate (length ns) 4) i)) else 0)"

lemma block_pos_flat: "length xs = d \<Longrightarrow> block_pos xs = flat (replicate d 4) xs"
  by (induction xs arbitrary: d) auto

lemma coords_block_pos:
  assumes "block_sizes ss ns" "xs \<in> set (box ns)"
  shows "coords (replicate (length ns) 4) (block_pos xs) = xs"
proof -
  have l: "length xs = length ns" by (rule box_length [OF assms(2)])
  have "list_all2 (<) xs (replicate (length ns) 4)"
    unfolding list_all2_conv_all_nth
  proof (intro conjI allI impI)
    fix i assume "i < length xs"
    then have "xs ! i < ns ! i" "ns ! i \<in> set ns" using assms(2) l by (simp_all add: set_box list_all2_conv_all_nth)
    moreover have "n \<le> 4" if "n \<in> set ns" for n using assms(1) that by (simp add: block_sizes_def)
    ultimately have "xs ! i < 4" using less_le_trans by blast
    then show "xs ! i < replicate (length ns) 4 ! i" using l \<open>i < length xs\<close> by simp
  qed (simp add: l)
  then show ?thesis by (simp add: block_pos_flat [OF l] coords_flat)
qed

lemma length_block_extent [simp]: "length (block_extent ns b) = length ns"
  by (simp add: block_extent_def extent_def block_corner_def)

lemma memory_values_at:
  assumes "block_sizes ss (block_extent ns b)" "xs \<in> set (box (block_extent ns b))"
  shows "memory_values ns b ss' a q (block_pos xs) = a (q + offset ss' xs)"
  using assms coords_block_pos [OF assms] by (auto simp: memory_values_def)

lemma put_values:
  assumes e: "block_sizes ss (block_extent ns b)" and l: "length l = 4 ^ length ns"
  shows "line_values ns b (put_list l (map (\<lambda>xs. (block_pos xs, a (q + offset ss xs))) (box (block_extent ns b)))) = memory_values ns b ss a q"
proof
  fix i
  let ?ws = "map (\<lambda>xs. (block_pos xs, a (q + offset ss xs))) (box (block_extent ns b))"
  show "line_values ns b (put_list l ?ws) i = memory_values ns b ss a q i"
  proof (cases "i \<in> block_pos ` set (box (block_extent ns b))")
    case True
    have "\<forall>(j, v) \<in> set ?ws. v = memory_values ns b ss a q j" by (auto simp: memory_values_at [OF e])
    moreover have "i < length l" using True block_pos_less e l by (fastforce simp: block_sizes_def)
    ultimately show ?thesis using put_list_copy [of ?ws "memory_values ns b ss a q" i l] True
      by (simp add: line_values_def image_image)
  qed (simp add: line_values_def memory_values_def)
qed

lemma padded_memory:
  assumes e: "block_sizes ss (block_extent ns b)" and u: "block_sizes (unit_strides (length ns)) (block_extent ns b)"
  shows "padded ns b (memory_values ns b ss a q) = gather_partial_block ss (block_extent ns b) (replicate (4 ^ length ns) 0) a q"
proof -
  have s: "length ss = length ns" using e by (simp add: block_sizes_def)
  have "memory_values ns b ss a q (nat (0 + offset (unit_strides (length ns)) (map2 pad_index (block_extent ns b) xs))) =
      a (q + offset ss (map2 pad_index (block_extent ns b) xs))" if "xs \<in> set (box (replicate (length ns) 4))" for xs
  proof -
    have m: "map2 pad_index (block_extent ns b) xs \<in> set (box (block_extent ns b))" using pad_in_box [OF u] that by simp
    have "offset (unit_strides (length ns)) (map2 pad_index (block_extent ns b) xs) = int (block_pos (map2 pad_index (block_extent ns b) xs))"
      by (rule unit_offset, unfold box_length [OF m]) simp
    then show ?thesis by (simp add: memory_values_at [OF e m])
  qed
  then show ?thesis
    unfolding padded_def by (simp add: gather_partial_block_eq [OF e] gather_partial_block_eq [OF u] s)
qed

lemma strided_sizes: "block_sizes (unit_strides (length ns)) es \<Longrightarrow> length ss = length ns \<Longrightarrow> block_sizes ss es"
  by (simp add: block_sizes_def)

text \<open>Reading a block gives the current values of its elements and changes none.\<close>

lemma get_block_values:
  fixes st :: "('w::len) block_store" and t :: "('i::len) word scalar"
  assumes i: "array_inv bd t pz ns (c, st)" and b: "b < num_blocks ns" and ss: "length ss = length ns"
  obtains cs' where "cache_get_block bd t (c, st) b a q ss =
      (store a (map (\<lambda>xs. (q + offset ss xs, array_block bd t ns (c, st) b (block_pos xs))) (box (block_extent ns b))), cs')"
    "array_inv bd t pz ns cs'" "\<And>k. k < num_blocks ns \<Longrightarrow> array_block bd t ns cs' k = array_block bd t ns (c, st) k" "fst cs' = c"
proof -
  note d = array_invD [OF i] and so = store_okD [OF array_invD(1) [OF i]]
  have e: "block_sizes ss (block_extent ns b)" by (rule strided_sizes [OF block_extent_sizes [OF b so(6,7)] ss])
  have sc: "scatter_partial_block ss (block_extent ns b) l a q =
      store a (map (\<lambda>xs. (q + offset ss xs, line_values ns b l (block_pos xs))) (box (block_extent ns b)))" for l
    unfolding scatter_partial_block_eq [OF e] by (intro arg_cong [where f = "store a"] map_cong) (simp_all add: line_values_at)
  show thesis
  proof (cases "cached bd c b")
    case (Some j)
    have "shape_extent (length ss) (store_block_shape st b) = block_extent ns b" using store_shape [OF so(1) b so(2)] ss by simp
    then have "line_get (cline c j) a q ss (store_block_shape st b) = scatter_partial_block ss (block_extent ns b) (cline c j) a q"
      using ss so(6,7) by (simp add: line_get_eq)
    then have "cache_get_block bd t (c, st) b a q ss =
        (store a (map (\<lambda>xs. (q + offset ss xs, array_block bd t ns (c, st) b (block_pos xs))) (box (block_extent ns b))), (c, st))"
      by (simp add: cache_get_block_def lookup_read Some sc array_block_def current_def)
    then show thesis using i by (rule that) simp_all
  next
    case None
    obtain st' where st': "store_decode_strided t st b a q ss = ((maxbits pz, scatter_partial_block ss (block_extent ns b)
        (codec_block t (length ns) (st_codec st) (store_offset st b)) a q), st')" "store_ok t pz ns st'"
      "\<And>k. k < num_blocks ns \<Longrightarrow> store_values t ns st' k = store_values t ns st k"
      using store_decode_strided_get [OF d(1) b ss] by metis
    have "cache_get_block bd t (c, st) b a q ss =
        (store a (map (\<lambda>xs. (q + offset ss xs, array_block bd t ns (c, st) b (block_pos xs))) (box (block_extent ns b))), (c, st'))"
      by (simp add: cache_get_block_def lookup_read None st'(1) sc array_block_def current_def store_values_def)
    moreover have "array_inv bd t pz ns (c, st')" using d st'(2,3) by (auto simp: array_inv_def coherent_def)
    moreover have "array_block bd t ns (c, st') k = array_block bd t ns (c, st) k" if "k < num_blocks ns" for k
      using st'(3) [OF that] by (simp add: array_block_def current_def split: option.split)
    ultimately show thesis by (intro that [of "(c, st')"]) simp_all
  qed
qed

text \<open>Writing a block: to its line if it has one, otherwise compressed to the store.\<close>

lemma put_block_values:
  fixes st :: "('w::len) block_store" and t :: "('i::len) word scalar"
  assumes i: "array_inv bd t pz ns (c, st)" and b: "b < num_blocks ns" and ss: "length ss = length ns" and one: "\<not> twoway bd"
  obtains cs' where "cache_put_block bd t (c, st) b a q ss = Inr cs'" "array_inv bd t pz ns cs'"
    "\<And>k. k < num_blocks ns \<Longrightarrow> array_block bd t ns cs' k =
      (if k = b then (if cached bd c b = None then block_loss t pz ns b (memory_values ns b ss a q) else memory_values ns b ss a q)
       else array_block bd t ns (c, st) k)"
    "\<And>k. k < num_blocks ns \<Longrightarrow> cached bd (fst cs') k = cached bd c k" "cmask (fst cs') = cmask c"
proof -
  note d = array_invD [OF i] and so = store_okD [OF array_invD(1) [OF i]]
  have u: "block_sizes (unit_strides (length ns)) (block_extent ns b)" by (rule block_extent_sizes [OF b so(6,7)])
  have e: "block_sizes ss (block_extent ns b)" by (rule strided_sizes [OF u ss])
  show thesis
  proof (cases "cached bd c b")
    case (Some j)
    let ?c = "c\<lparr>ctag := (ctag c)(j := tag_mark (ctag c j))\<rparr>"
    let ?l = "line_put (cline c j) a q ss (store_block_shape st b)"
    note m = array_cache.mark [OF d(2,1) b Some]
    have cb: "cached bd ?c b = Some j" using m(2) [OF b] Some by simp
    note w = array_cache.modify [OF m(1) d(1) b cb m(3), where l = ?l]
    have "shape_extent (length ss) (store_block_shape st b) = block_extent ns b" using store_shape [OF so(1) b so(2)] ss by simp
    then have l: "?l = put_list (cline c j) (map (\<lambda>xs. (block_pos xs, a (q + offset ss xs))) (box (block_extent ns b)))"
      using ss so(6,7) by (simp add: line_put_eq)
    have lv: "line_values ns b ?l = memory_values ns b ss a q" unfolding l by (rule put_values [OF e d(3)])
    have "cache_put_block bd t (c, st) b a q ss = Inr (?c\<lparr>cline := (cline ?c)(j := ?l)\<rparr>, st)"
      by (simp add: cache_put_block_def lookup_write [OF one] Some)
    moreover have "array_inv bd t pz ns (?c\<lparr>cline := (cline ?c)(j := ?l)\<rparr>, st)" using d w(1) by (simp add: array_inv_def l)
    moreover have "array_block bd t ns (?c\<lparr>cline := (cline ?c)(j := ?l)\<rparr>, st) k =
        (if k = b then memory_values ns b ss a q else array_block bd t ns (c, st) k)" if "k < num_blocks ns" for k
      unfolding array_block_def w(2) [OF that] lv m(4) [OF that] by simp
    ultimately show thesis using Some m(2) by (intro that [of "(?c\<lparr>cline := (cline ?c)(j := ?l)\<rparr>, st)"]) (simp_all add: wf_line)
  next
    case None
    obtain st' where st': "store_encode_strided t st b a q ss = Inr (maxbits pz, st')" "store_ok t pz ns st'"
      "\<And>k. k < num_blocks ns \<Longrightarrow> store_values t ns st' k =
        (if k = b then line_values ns b (lossy t (length ns) pz (gather_partial_block ss (block_extent ns b) (replicate (4 ^ length ns) 0) a q))
         else store_values t ns st k)"
      using store_encode_strided_put [OF d(1) b ss] by metis
    have v: "store_values t ns st' k = (if k = b then block_loss t pz ns b (memory_values ns b ss a q) else store_values t ns st k)"
      if "k < num_blocks ns" for k
      using st'(3) [OF that] by (simp add: block_loss_def padded_memory [OF e u])
    have "cache_put_block bd t (c, st) b a q ss = Inr (c, st')"
      by (simp add: cache_put_block_def lookup_write [OF one] None st'(1))
    moreover have "array_inv bd t pz ns (c, st')" using d st'(2) v None by (auto simp: array_inv_def coherent_def)
    moreover have "array_block bd t ns (c, st') k =
        (if k = b then block_loss t pz ns b (memory_values ns b ss a q) else array_block bd t ns (c, st) k)" if "k < num_blocks ns" for k
      using v [OF that] None by (cases "k = b") (simp_all add: array_block_def current_def split: option.split)
    ultimately show thesis using None by (intro that [of "(c, st')"]) simp_all
  qed
qed

section \<open>The loops visit the blocks in order\<close>

definition walks :: "('s \<Rightarrow> nat \<Rightarrow> int \<Rightarrow> 's) \<Rightarrow> ('s \<times> nat \<times> int \<Rightarrow> 's \<times> nat \<times> int) \<Rightarrow> nat \<Rightarrow> int \<Rightarrow> (nat \<times> int) list \<Rightarrow> bool" where
  "walks g f m d ws \<longleftrightarrow> (\<forall>s b p. f (s, b, p) = (foldl (\<lambda>s (k, q). g s (b + k) (p + q)) s ws, b + m, p + d))"

lemma walks_one: "walks g (\<lambda>(s, b, p). (g s b p, b + 1, p + d)) 1 d [(0, 0)]"
  by (simp add: walks_def)

lemma walks_loop:
  assumes "walks g f m d ws"
  shows "walks g (for_loop n (\<lambda>_. f)) (n * m) (int n * d) (concat (map (\<lambda>x. map (\<lambda>(k, q). (x * m + k, int x * d + q)) ws) [0..<n]))"
proof (induction n)
  case (Suc n)
  have "foldl (\<lambda>s (k, q). g s (b + n * m + k) (p + int n * d + q)) s vs =
      foldl (\<lambda>s (k, q). g s (b + k) (p + q)) s (map (\<lambda>(k, q). (n * m + k, int n * d + q)) vs)" for b p s vs
    by (induction vs arbitrary: s) (auto simp: algebra_simps)
  then show ?case using assms Suc by (auto simp: walks_def algebra_simps)
qed (simp add: walks_def)

lemma walks_advance: "walks g f m d ws \<Longrightarrow> walks g (\<lambda>st. let (s, b, p) = f st in (s, b, p + e)) m (d + e) ws"
  by (auto simp: walks_def)

lemma walks_result: "walks g f m d ws \<Longrightarrow> (let (s, b, p) = f (s, 0, p) in s) = foldl (\<lambda>s (k, q). g s k (p + q)) s ws"
  by (simp add: walks_def)

text \<open>The strides of contiguous storage.\<close>

fun row_strides :: "nat list \<Rightarrow> int list" where
  "row_strides [] = []"
| "row_strides (n # ns) = 1 # map ((*) (int n)) (row_strides ns)"

lemma length_row_strides [simp]: "length (row_strides ns) = length ns"
  by (induction ns) simp_all

lemma row_offset: "length xs = length ns \<Longrightarrow> offset (row_strides ns) xs = int (flat ns xs)"
proof (induction ns arbitrary: xs)
  case (Cons n ns)
  then show ?case by (cases xs) (simp_all add: offset_map)
qed simp

lemma concat_mult: "concat (map (\<lambda>j. map (\<lambda>x. f (x + m * j)) [0..<m]) [0..<n]) = map f [0..<m * n]"
proof (induction n)
  case (Suc n)
  have "[0..<m * Suc n] = [0..<m * n] @ map (\<lambda>x. x + m * n) [0..<m]"
    using upt_add_eq_append [of 0 "m * n" m] map_add_upt [of "m * n" m] by (simp add: add.commute)
  then show ?case using Suc by simp
qed simp

lemma box_coords: "box ms = map (coords ms) [0..<prod_list ms]"
proof (induction ms)
  case (Cons m ms)
  show ?case
  proof (cases "m = 0")
    case False
    then have "coords (m # ms) (x + m * j) = x # coords ms j" if "x < m" for x j using that by simp
    then have e: "map (\<lambda>x. coords (m # ms) (x + m * j)) [0..<m] = map (\<lambda>x. x # coords ms j) [0..<m]" for j by (intro map_cong) simp_all
    have "box (m # ms) = concat (map (\<lambda>j. map (\<lambda>x. x # coords ms j) [0..<m]) [0..<prod_list ms])" by (simp add: Cons comp_def)
    then show ?thesis using concat_mult [of "coords (m # ms)" m "prod_list ms", unfolded e] by simp
  qed simp
qed simp

text \<open>The visits of the nested loops: the number of a block and the place of its first element.\<close>

definition visits :: "nat list \<Rightarrow> (nat \<times> int) list" where
  "visits ns = map (\<lambda>cs. (flat (block_counts ns) cs, offset (row_strides ns) (map ((*) 4) cs))) (box (block_counts ns))"

lemma visits_blocks: "visits ns = map (\<lambda>b. (b, offset (row_strides ns) (block_corner ns b))) [0..<num_blocks ns]"
  unfolding visits_def box_coords map_map by (intro map_cong) (simp_all add: flat_coords block_corner_def)

lemmas visits_expand = visits_def block_counts_def box_concat

lemma walk_1_eq: "walk_1 g ((mx + 3) div 4) s p = foldl (\<lambda>s (k, q). g s k (p + q)) s (visits [mx])"
  unfolding walk_1_def
  by (subst walks_result [OF walks_loop [OF walks_one]]) (simp add: visits_expand mult.commute)

lemma walk_2_eq: "walk_2 g mx ((mx + 3) div 4) ((my + 3) div 4) s p = foldl (\<lambda>s (k, q). g s k (p + q)) s (visits [mx, my])"
  unfolding walk_2_def Let_def [of "1 :: int"]
  by (subst walks_result [OF walks_loop [OF walks_advance [OF walks_loop [OF walks_one]]]]) (simp add: visits_expand algebra_simps)

lemma walk_3_eq:
  "walk_3 g mx my ((mx + 3) div 4) ((my + 3) div 4) ((mz + 3) div 4) s p = foldl (\<lambda>s (k, q). g s k (p + q)) s (visits [mx, my, mz])"
  unfolding walk_3_def Let_def [of "1 :: int"] Let_def [of "int mx"]
  by (subst walks_result [OF walks_loop [OF walks_advance [OF walks_loop [OF walks_advance [OF walks_loop [OF walks_one]]]]]])
    (simp add: visits_expand algebra_simps)

lemma walk_4_eq:
  "walk_4 g mx my mz ((mx + 3) div 4) ((my + 3) div 4) ((mz + 3) div 4) ((mw + 3) div 4) s p =
    foldl (\<lambda>s (k, q). g s k (p + q)) s (visits [mx, my, mz, mw])"
  unfolding walk_4_def Let_def [of "1 :: int"] Let_def [of "int mx"] Let_def [of "int mx * int my"]
  by (subst walks_result [OF walks_loop [OF walks_advance [OF walks_loop [OF walks_advance [OF walks_loop [OF walks_advance [OF walks_loop [OF walks_one]]]]]]]])
    (simp add: visits_expand algebra_simps)

lemma row_strides_eqs:
  "row_strides [mx] = [1]" "row_strides [mx, my] = [1, int mx]" "row_strides [mx, my, mz] = [1, int mx, int mx * int my]"
  "row_strides [mx, my, mz, mw] = [1, int mx, int mx * int my, int mx * int my * int mz]"
  by simp_all

lemma array_get_fold:
  assumes "sized ns (snd cs)"
  shows "array_get bd t ns cs a p =
    foldl (\<lambda>s b. get_step bd t (row_strides ns) s b (p + offset (row_strides ns) (block_corner ns b))) (a, cs) [0..<num_blocks ns]"
proof -
  have l: "1 \<le> length ns" "length ns \<le> 4" and b: "st_blocks (snd cs) = block_counts ns" using assms by (simp_all add: sized_def)
  have "array_get bd t ns cs a p = foldl (\<lambda>s (k, q). get_step bd t (row_strides ns) s k (p + q)) (a, cs) (visits ns)"
    using l b
    by (cases rule: list_1_4_cases) (auto simp: array_get_def array1_get_def array2_get_def array3_get_def array4_get_def block_counts_def
        walk_1_eq walk_2_eq walk_3_eq walk_4_eq row_strides_eqs simp del: row_strides.simps)
  then show ?thesis by (simp add: visits_blocks foldl_map)
qed

lemma array_set_fold:
  assumes "sized ns (snd cs)"
  shows "array_set bd t ns cs (Some (a, p)) =
    foldl (\<lambda>r b. put_step bd t (row_strides ns) a r b (p + offset (row_strides ns) (block_corner ns b))) (Inr cs) [0..<num_blocks ns]"
proof -
  have l: "1 \<le> length ns" "length ns \<le> 4" and b: "st_blocks (snd cs) = block_counts ns" using assms by (simp_all add: sized_def)
  have "array_set bd t ns cs (Some (a, p)) = foldl (\<lambda>s (k, q). put_step bd t (row_strides ns) a s k (p + q)) (Inr cs) (visits ns)"
    using l b
    by (cases rule: list_1_4_cases) (auto simp: array_set_def array1_set_def array2_set_def array3_set_def array4_set_def block_counts_def
        walk_1_eq walk_2_eq walk_3_eq walk_4_eq row_strides_eqs simp del: row_strides.simps)
  then show ?thesis by (simp add: visits_blocks foldl_map)
qed

section \<open>Elements of blocks\<close>

lemma block_element:
  assumes b: "b < num_blocks ns" and x: "xs \<in> set (box (block_extent ns b))"
  defines "ys \<equiv> map2 (+) (block_corner ns b) xs"
  shows "list_all2 (<) ys ns" "block_number ns ys = b" "in_block ys = block_pos xs"
    "offset ss ys = offset ss (block_corner ns b) + offset ss xs"
proof -
  have l: "length xs = length ns" using box_length [OF x] by simp
  have lc: "length (block_corner ns b) = length ns" by (simp add: block_corner_def)
  have x4: "xs ! i < 4" if "i < length ns" for i
  proof -
    have "xs ! i < extent ns (block_corner ns b) ! i" using x that l by (simp add: set_box list_all2_conv_all_nth block_extent_def)
    then show ?thesis using that by (simp add: extent_def lc)
  qed
  show "list_all2 (<) ys ns"
    using cover [of ys ns] corner_in [OF b] x by (auto simp: set_box [symmetric] ys_def block_extent_def)
  have "map (\<lambda>i. i div 4) ys = coords (block_counts ns) b" "map (\<lambda>i. i mod 4) ys = xs"
    by (rule nth_equalityI; simp add: ys_def l lc x4; simp add: block_corner_def l x4)+
  then show "block_number ns ys = b" "in_block ys = block_pos xs"
    using b by (simp_all add: block_number_def in_block_def flat_coords)
  show "offset ss ys = offset ss (block_corner ns b) + offset ss xs" unfolding ys_def by (rule offset_add) (simp add: l lc)
qed

lemma element_of_block:
  assumes "sized ns st" "list_all2 (<) ys ns"
  defines "b \<equiv> block_number ns ys" and "xs \<equiv> map (\<lambda>i. i mod 4) ys"
  shows "b < num_blocks ns" "xs \<in> set (box (block_extent ns b))" "in_block ys = block_pos xs" "ys = map2 (+) (block_corner ns b) xs"
proof -
  have n: "store_block_index st ys = block_number ns ys"
    using store_index_flat [OF assms(1)] list_all2_lengthD [OF assms(2)] by (simp add: block_number_def)
  show "b < num_blocks ns" "xs \<in> set (box (block_extent ns b))" "ys = map2 (+) (block_corner ns b) xs"
    using element_block [OF assms(1,2)] unfolding n b_def xs_def .
  show "in_block ys = block_pos xs" by (simp add: in_block_def xs_def)
qed

section \<open>Whole arrays are read and written block by block\<close>

definition array_address :: "nat list \<Rightarrow> int \<Rightarrow> nat list \<Rightarrow> int" where
  "array_address ns p ys = p + int (flat ns ys)"

lemma array_get_loop:
  fixes cs :: "('i::len, 'w::len) cached_array"
  assumes i: "array_inv bd t pz ns cs" and m: "m \<le> num_blocks ns"
  shows "\<exists>cs'. foldl (\<lambda>s b. get_step bd t (row_strides ns) s b (p + offset (row_strides ns) (block_corner ns b))) (a, cs) [0..<m] =
      (store a (concat (map (\<lambda>b. map (\<lambda>xs. (p + offset (row_strides ns) (block_corner ns b) + offset (row_strides ns) xs,
        array_block bd t ns cs b (block_pos xs))) (box (block_extent ns b))) [0..<m])), cs') \<and> array_inv bd t pz ns cs' \<and>
      (\<forall>k < num_blocks ns. array_block bd t ns cs' k = array_block bd t ns cs k) \<and> fst cs' = fst cs"
  using m
proof (induction m)
  case (Suc m)
  then obtain cs' where cs': "foldl (\<lambda>s b. get_step bd t (row_strides ns) s b (p + offset (row_strides ns) (block_corner ns b))) (a, cs) [0..<m] =
      (store a (concat (map (\<lambda>b. map (\<lambda>xs. (p + offset (row_strides ns) (block_corner ns b) + offset (row_strides ns) xs,
        array_block bd t ns cs b (block_pos xs))) (box (block_extent ns b))) [0..<m])), cs')" "array_inv bd t pz ns cs'"
      "\<And>k. k < num_blocks ns \<Longrightarrow> array_block bd t ns cs' k = array_block bd t ns cs k" "fst cs' = fst cs" by auto
  obtain c st where c: "cs' = (c, st)" by fastforce
  have lt: "m < num_blocks ns" using Suc.prems by simp
  let ?A = "store a (concat (map (\<lambda>b. map (\<lambda>xs. (p + offset (row_strides ns) (block_corner ns b) + offset (row_strides ns) xs,
        array_block bd t ns cs b (block_pos xs))) (box (block_extent ns b))) [0..<m]))"
  show ?case
  proof (rule get_block_values [OF cs'(2) [unfolded c] lt length_row_strides, of ?A "p + offset (row_strides ns) (block_corner ns m)"])
    fix cs2
    assume g: "cache_get_block bd t (c, st) m ?A (p + offset (row_strides ns) (block_corner ns m)) (row_strides ns) =
        (store ?A (map (\<lambda>xs. (p + offset (row_strides ns) (block_corner ns m) + offset (row_strides ns) xs, array_block bd t ns (c, st) m (block_pos xs)))
          (box (block_extent ns m))), cs2)"
      and r: "array_inv bd t pz ns cs2" "\<And>k. k < num_blocks ns \<Longrightarrow> array_block bd t ns cs2 k = array_block bd t ns (c, st) k" "fst cs2 = c"
    have "get_step bd t (row_strides ns) (?A, cs') m (p + offset (row_strides ns) (block_corner ns m)) =
        (store ?A (map (\<lambda>xs. (p + offset (row_strides ns) (block_corner ns m) + offset (row_strides ns) xs, array_block bd t ns cs m (block_pos xs)))
          (box (block_extent ns m))), cs2)"
      using g cs'(3) [OF lt] by (simp add: get_step_def c)
    moreover have "fst cs2 = fst cs" using r(3) cs'(4) c by simp
    moreover have "array_block bd t ns cs2 k = array_block bd t ns cs k" if "k < num_blocks ns" for k
      using r(2) [OF that] cs'(3) [OF that] by (simp add: c)
    ultimately show ?thesis using r(1) by (intro exI [of _ cs2]) (simp add: cs'(1))
  qed
qed (use i in simp)

text \<open>What reading a whole array writes: every element to its address.\<close>

definition array_writes :: "cache_build \<Rightarrow> ('i::len) word scalar \<Rightarrow> nat list \<Rightarrow> ('i, 'w::len) cached_array \<Rightarrow> int \<Rightarrow> (int \<times> 'i word) list" where
  "array_writes bd t ns cs p = concat (map (\<lambda>b. map (\<lambda>xs.
    (p + offset (row_strides ns) (block_corner ns b) + offset (row_strides ns) xs, array_block bd t ns cs b (block_pos xs)))
    (box (block_extent ns b))) [0..<num_blocks ns])"

lemma array_writes_iff:
  assumes s: "sized ns (snd cs)"
  shows "(q, v) \<in> set (array_writes bd t ns cs p) \<longleftrightarrow> (\<exists>ys. list_all2 (<) ys ns \<and> q = array_address ns p ys \<and> v = array_value bd t ns cs ys)"
proof
  let ?rs = "row_strides ns"
  assume "(q, v) \<in> set (array_writes bd t ns cs p)"
  then obtain b xs where b: "b < num_blocks ns" "xs \<in> set (box (block_extent ns b))"
    "q = p + offset ?rs (block_corner ns b) + offset ?rs xs" "v = array_block bd t ns cs b (block_pos xs)" by (auto simp: array_writes_def)
  note e = block_element [OF b(1,2)]
  show "\<exists>ys. list_all2 (<) ys ns \<and> q = array_address ns p ys \<and> v = array_value bd t ns cs ys"
    using e(1-3) e(4) [of ?rs] row_offset [OF list_all2_lengthD [OF e(1)]] b(3,4)
    by (intro exI [of _ "map2 (+) (block_corner ns b) xs"]) (simp add: array_address_def array_value_def)
next
  let ?rs = "row_strides ns"
  assume "\<exists>ys. list_all2 (<) ys ns \<and> q = array_address ns p ys \<and> v = array_value bd t ns cs ys"
  then obtain ys where y: "list_all2 (<) ys ns" "q = array_address ns p ys" "v = array_value bd t ns cs ys" by blast
  note e = element_of_block [OF s y(1)]
  have "q = p + offset ?rs (block_corner ns (block_number ns ys)) + offset ?rs (map (\<lambda>i. i mod 4) ys)"
    using block_element(4) [OF e(1,2), of ?rs] e(4) row_offset [OF list_all2_lengthD [OF y(1)]] y(2) by (simp add: array_address_def)
  moreover have "v = array_block bd t ns cs (block_number ns ys) (block_pos (map (\<lambda>i. i mod 4) ys))"
    using y(3) e(3) by (simp add: array_value_def)
  ultimately show "(q, v) \<in> set (array_writes bd t ns cs p)"
    using e(1,2) by (auto simp: array_writes_def intro!: bexI [of _ "block_number ns ys"])
qed

lemma array_writes_store:
  assumes s: "sized ns (snd cs)"
  shows "list_all2 (<) ys ns \<Longrightarrow> store a (array_writes bd t ns cs p) (array_address ns p ys) = array_value bd t ns cs ys"
    and "q < p \<or> p + int (prod_list ns) \<le> q \<Longrightarrow> store a (array_writes bd t ns cs p) q = a q"
proof -
  let ?ws = "array_writes bd t ns cs p" and ?f = "\<lambda>q. array_value bd t ns cs (coords ns (nat (q - p)))"
  have "v = ?f q" if "(q, v) \<in> set ?ws" for q v
    using that unfolding array_writes_iff [OF s] by (auto simp: array_address_def coords_flat)
  then have st: "store a ?ws q = (if q \<in> fst ` set ?ws then ?f q else a q)" for q by (intro store_copy) blast
  show "store a ?ws (array_address ns p ys) = array_value bd t ns cs ys" if y: "list_all2 (<) ys ns"
  proof -
    have "array_address ns p ys \<in> fst ` set ?ws" using array_writes_iff [OF s] y by (force simp: image_iff)
    then show ?thesis unfolding st using y by (simp add: array_address_def coords_flat)
  qed
  show "store a ?ws q = a q" if q: "q < p \<or> p + int (prod_list ns) \<le> q"
  proof -
    have "q \<notin> fst ` set ?ws"
    proof
      assume "q \<in> fst ` set ?ws"
      then obtain v where "(q, v) \<in> set ?ws" by auto
      then obtain ys where "list_all2 (<) ys ns" "q = array_address ns p ys" unfolding array_writes_iff [OF s] by blast
      then show False using flat_less [of ys ns] q by (simp add: array_address_def)
    qed
    then show ?thesis unfolding st by simp
  qed
qed

text \<open>C9: Reading a whole array stores the current value of every element at its place in contiguous memory and writes nothing else,
  whether the elements are in the cache or in the store; the array keeps its values.\<close>

theorem array_get_correct:
  assumes "array_inv bd t pz ns cs"
  shows "\<exists>a' cs'. array_get bd t ns cs a p = (a', cs') \<and> array_inv bd t pz ns cs' \<and>
    (\<forall>ys. list_all2 (<) ys ns \<longrightarrow> a' (array_address ns p ys) = array_value bd t ns cs ys \<and> array_value bd t ns cs' ys = array_value bd t ns cs ys) \<and>
    (\<forall>q. q < p \<or> p + int (prod_list ns) \<le> q \<longrightarrow> a' q = a q)"
proof -
  obtain c st where c: "cs = (c, st)" by fastforce
  have s: "sized ns (snd cs)" using array_invD(4) [OF assms(1) [unfolded c]] by (simp add: c)
  obtain cs' where cs': "array_get bd t ns cs a p = (store a (array_writes bd t ns cs p), cs')" "array_inv bd t pz ns cs'"
    "\<And>k. k < num_blocks ns \<Longrightarrow> array_block bd t ns cs' k = array_block bd t ns cs k"
    using array_get_loop [OF assms order_refl, of p a] unfolding array_get_fold [OF s, symmetric] array_writes_def [symmetric] by blast
  have "array_value bd t ns cs' ys = array_value bd t ns cs ys" if "list_all2 (<) ys ns" for ys
    using cs'(3) element_of_block(1) [OF s that] by (simp add: array_value_def)
  then show ?thesis using cs'(1,2) array_writes_store [OF s, where a = a and p = p] by auto
qed

text \<open>The values that a block gets when an array is written from memory: all of them if the block is in the cache, otherwise those
  that compression leaves.\<close>

definition written_block ::
  "cache_build \<Rightarrow> ('i::len) word scalar \<Rightarrow> ('w::len) zfp_stream \<Rightarrow> nat list \<Rightarrow> ('i, 'w) cached_array \<Rightarrow> 'i word array \<Rightarrow> int \<Rightarrow> nat \<Rightarrow> nat \<Rightarrow> 'i word" where
  "written_block bd t pz ns cs a p b =
    (let v = memory_values ns b (row_strides ns) a (p + offset (row_strides ns) (block_corner ns b))
     in if cached bd (fst cs) b = None then block_loss t pz ns b v else v)"

lemma array_set_loop:
  fixes cs :: "('i::len, 'w::len) cached_array"
  assumes i: "array_inv bd t pz ns cs" and one: "\<not> twoway bd" and m: "m \<le> num_blocks ns"
  shows "\<exists>cs'. foldl (\<lambda>r b. put_step bd t (row_strides ns) a r b (p + offset (row_strides ns) (block_corner ns b))) (Inr cs) [0..<m] = Inr cs' \<and>
      array_inv bd t pz ns cs' \<and>
      (\<forall>k < num_blocks ns. array_block bd t ns cs' k = (if k < m then written_block bd t pz ns cs a p k else array_block bd t ns cs k) \<and>
        cached bd (fst cs') k = cached bd (fst cs) k) \<and> cmask (fst cs') = cmask (fst cs)"
  using m
proof (induction m)
  case (Suc m)
  then obtain cs' where cs': "foldl (\<lambda>r b. put_step bd t (row_strides ns) a r b (p + offset (row_strides ns) (block_corner ns b))) (Inr cs) [0..<m] = Inr cs'"
      "array_inv bd t pz ns cs'"
      "\<And>k. k < num_blocks ns \<Longrightarrow> array_block bd t ns cs' k = (if k < m then written_block bd t pz ns cs a p k else array_block bd t ns cs k)"
      "\<And>k. k < num_blocks ns \<Longrightarrow> cached bd (fst cs') k = cached bd (fst cs) k" "cmask (fst cs') = cmask (fst cs)" by auto
  obtain c st where c: "cs' = (c, st)" by fastforce
  have lt: "m < num_blocks ns" using Suc.prems by simp
  have fc: "cached bd c m = cached bd (fst cs) m" using cs'(4) [OF lt] by (simp add: c)
  show ?case
  proof (rule put_block_values [OF cs'(2) [unfolded c] lt length_row_strides one, of a "p + offset (row_strides ns) (block_corner ns m)"])
    fix cs2
    assume g: "cache_put_block bd t (c, st) m a (p + offset (row_strides ns) (block_corner ns m)) (row_strides ns) = Inr cs2"
      and r: "array_inv bd t pz ns cs2"
        "\<And>k. k < num_blocks ns \<Longrightarrow> array_block bd t ns cs2 k =
          (if k = m then (if cached bd c m = None then block_loss t pz ns m (memory_values ns m (row_strides ns) a (p + offset (row_strides ns) (block_corner ns m)))
             else memory_values ns m (row_strides ns) a (p + offset (row_strides ns) (block_corner ns m)))
           else array_block bd t ns (c, st) k)"
        "\<And>k. k < num_blocks ns \<Longrightarrow> cached bd (fst cs2) k = cached bd c k" "cmask (fst cs2) = cmask c"
    have "array_block bd t ns cs2 k = (if k < Suc m then written_block bd t pz ns cs a p k else array_block bd t ns cs k)" if k: "k < num_blocks ns" for k
      using r(2) [OF k] cs'(3) [OF k] fc by (simp add: c written_block_def Let_def less_Suc_eq)
    moreover have "cached bd (fst cs2) k = cached bd (fst cs) k" if k: "k < num_blocks ns" for k
      using r(3) [OF k] cs'(4) [OF k] by (simp add: c)
    moreover have "put_step bd t (row_strides ns) a (Inr cs') m (p + offset (row_strides ns) (block_corner ns m)) = Inr cs2"
      by (simp add: put_step_def c g)
    moreover have "cmask (fst cs2) = cmask (fst cs)" using r(4) cs'(5) by (simp add: c)
    ultimately show ?thesis using r(1) by (intro exI [of _ cs2]) (simp add: cs'(1))
  qed
qed (use i in simp)

text \<open>C8: In a build with the direct-mapped cache (without \<^verbatim>\<open>ZFP_WITH_CACHE_TWOWAY\<close>, the default), writing a whole array from contiguous
  memory never fails. Every element of a block that is in the cache becomes exactly the element in memory; the blocks that are not are compressed, and get the
  values that compression of the block leaves. The two-way cache loses such writes (\<open>lookup_secondary_marks_primary\<close>).\<close>

theorem array_set_correct:
  assumes "array_inv bd t pz ns cs" and "\<not> twoway bd"
  shows "\<exists>cs'. array_set bd t ns cs (Some (a, p)) = Inr cs' \<and> array_inv bd t pz ns cs' \<and>
    (\<forall>ys. list_all2 (<) ys ns \<longrightarrow> array_value bd t ns cs' ys =
      (if cached bd (fst cs) (block_number ns ys) = None then written_block bd t pz ns cs a p (block_number ns ys) (in_block ys)
       else a (array_address ns p ys)))"
proof -
  obtain c st where c: "cs = (c, st)" by fastforce
  note d = array_invD [OF assms(1) [unfolded c]] and so = store_okD [OF array_invD(1) [OF assms(1) [unfolded c]]]
  have s: "sized ns (snd cs)" using d(4) by (simp add: c)
  obtain cs' where cs': "array_set bd t ns cs (Some (a, p)) = Inr cs'" "array_inv bd t pz ns cs'"
    "\<And>k. k < num_blocks ns \<Longrightarrow> array_block bd t ns cs' k = written_block bd t pz ns cs a p k"
    using array_set_loop [OF assms order_refl, of a p] unfolding array_set_fold [OF s, symmetric] by auto
  have "written_block bd t pz ns cs a p (block_number ns ys) (in_block ys) = a (array_address ns p ys)"
    if y: "list_all2 (<) ys ns" and h: "cached bd (fst cs) (block_number ns ys) \<noteq> None" for ys
  proof -
    note e = element_of_block [OF s y]
    have bs: "block_sizes (row_strides ns) (block_extent ns (block_number ns ys))"
      by (rule strided_sizes [OF block_extent_sizes [OF e(1) so(6,7)]]) simp
    have "offset (row_strides ns) (block_corner ns (block_number ns ys)) + offset (row_strides ns) (map (\<lambda>i. i mod 4) ys) = int (flat ns ys)"
      using block_element(4) [OF e(1,2), of "row_strides ns"] e(4) row_offset [OF list_all2_lengthD [OF y]] by simp
    then show ?thesis
      using h by (auto simp: written_block_def Let_def e(3) memory_values_at [OF bs e(2)] array_address_def add.assoc)
  qed
  then show ?thesis using cs' element_of_block(1) [OF s]
    by (intro exI [of _ cs']) (auto simp: array_value_def)
qed

section \<open>Flushing\<close>

lemma flush_loop_lines:
  "cache_flush_loop enc q (c, st) = Inr (c', st') \<Longrightarrow> cline c' = cline c \<and> cmask c' = cmask c"
proof (induction enc q "(c, st)" arbitrary: c st rule: cache_flush_loop.induct)
  case (1 enc q c st)
  show ?case
  proof (cases q)
    case None
    then show ?thesis using 1(2) by (simp add: cache_flush_loop.simps)
  next
    case (Some i)
    let ?e = "if tag_dirty (ctag c i) then enc st (unat (tag_index (ctag c i) - 1)) (cline c i) else Inr st"
    obtain st1 where e: "?e = Inr st1"
    proof (cases ?e)
      case (Inl x)
      then have "cache_flush_loop enc q (c, st) = Inl x" using Some by (subst cache_flush_loop.simps) (simp del: if_split)
      then show thesis using 1(2) by simp
    qed
    have "cache_flush_loop enc (iterator_advance (cache_flush_line c i) q) (cache_flush_line c i, st1) = Inr (c', st')"
      using 1(2) Some e by (subst (asm) cache_flush_loop.simps) (simp add: Let_def del: if_split)
    from 1(1) [OF Some e refl this] show ?thesis by (simp add: cache_flush_line_def)
  qed
qed

lemma array_flush_values:
  assumes "array_inv bd t pz ns cs"
  shows "\<exists>cs'. array_flush t cs = Inr cs' \<and> array_inv bd t pz ns cs' \<and> empty_cache (fst cs') \<and> cmask (fst cs') = cmask (fst cs) \<and>
    (\<forall>k < num_blocks ns. store_values t ns (snd cs') k =
      (case cached bd (fst cs) k of
         Some j \<Rightarrow> if tag_dirty (ctag (fst cs) j) then block_loss t pz ns k (array_block bd t ns cs k) else array_block bd t ns cs k
       | None \<Rightarrow> array_block bd t ns cs k) \<and>
      array_block bd t ns cs' k = store_values t ns (snd cs') k)"
proof -
  obtain c st where c: "cs = (c, st)" by fastforce
  note d = array_invD [OF assms(1) [unfolded c]] and so = store_okD [OF array_invD(1) [OF assms(1) [unfolded c]]]
  obtain c' st' where f: "cache_flush (encode_line t) (c, st) = Inr (c', st')" "store_ok t pz ns st'"
    "coherent bd (num_blocks ns) (line_values ns) (store_values t ns) (c', st')" "cmask c' = cmask c"
    "\<forall>j \<le> unat (cmask c). \<not> tag_used (ctag c' j)"
    "\<And>k. k < num_blocks ns \<Longrightarrow> store_values t ns st' k =
      (case cached bd c k of
         Some j \<Rightarrow> if tag_dirty (ctag c j) then block_loss t pz ns k (current bd (line_values ns) (store_values t ns) (c, st) k)
           else current bd (line_values ns) (store_values t ns) (c, st) k
       | None \<Rightarrow> current bd (line_values ns) (store_values t ns) (c, st) k)"
    using array_cache.flush [OF d(2,1)] unfolding cache_flush_def by auto
  have "cline c' = cline c" using flush_loop_lines [OF f(1) [unfolded cache_flush_def prod.case]] by simp
  then have inv: "array_inv bd t pz ns (c', st')" using f(2,3) d(3) by (simp add: array_inv_def)
  have e: "empty_cache c'" using f(4,5) by (simp add: empty_cache_def tag_used_def)
  have "array_block bd t ns (c', st') k = store_values t ns st' k" if "k < num_blocks ns" for k
    using empty_not_cached [OF e that so(2)] by (simp add: array_block_def current_def)
  then show ?thesis using f(1,4,6) inv e by (intro exI [of _ "(c', st')"]) (auto simp: array_flush_def c array_block_def split: option.split)
qed

text \<open>C10: Flushing never fails and leaves a cache without lines in use. Every block that was modified in the cache is in the store with
  the values that compression leaves; the values of all other blocks are kept exactly. Flushing again changes no values.\<close>

theorem array_flush_correct:
  assumes "array_inv bd t pz ns cs"
  shows "\<exists>cs'. array_flush t cs = Inr cs' \<and> array_inv bd t pz ns cs' \<and> empty_cache (fst cs') \<and>
    (\<forall>k < num_blocks ns. store_values t ns (snd cs') k =
      (case cached bd (fst cs) k of
         Some j \<Rightarrow> if tag_dirty (ctag (fst cs) j) then block_loss t pz ns k (array_block bd t ns cs k) else array_block bd t ns cs k
       | None \<Rightarrow> array_block bd t ns cs k) \<and>
      array_block bd t ns cs' k = store_values t ns (snd cs') k)"
  using array_flush_values [OF assms] by blast

end
