(* ===== verification/Array_Props.thy ===== *)
theory Array_Props
  imports Cached_Array_Proof
begin

text \<open>
  The arrays as their users meet them: a new array of a given rate satisfies the invariant (\<open>array_new_correct\<close>), and from there any
  sequence of operations runs to its end and keeps it (\<open>array_operations_safe\<close>). The theory also states what the stores promise of
  single blocks (\<open>codec_writes_block\<close>, \<open>block_shape_correct\<close>) and two settings for which they go wrong
  (\<open>expert_fixed_size_no_offsets\<close>, \<open>rate_zero_unaligned\<close>), and applies the theorems about arrays to an array of six floats.
\<close>

section \<open>New arrays\<close>

text \<open>The bits of a block for a rate that is aligned to words.\<close>

definition rate_bits :: "('w::len) itself \<Rightarrow> zfp_type \<Rightarrow> nat \<Rightarrow> rat \<Rightarrow> nat" where
  "rate_bits w type d rate =
    (let n = nat \<lfloor>of_nat (4 ^ d) * rate + 1 / 2\<rfloor>
     in round_up (case type of zfp_type_float \<Rightarrow> max n 9 | zfp_type_double \<Rightarrow> max n 12 | _ \<Rightarrow> n) (LENGTH('w)))"

definition word_sizes :: "('w::len) itself \<Rightarrow> bool" where
  "word_sizes w \<longleftrightarrow> LENGTH('w) \<in> {8, 16, 32, 64}"

lemma rate_bits_min:
  fixes w :: "('w::len) itself"
  assumes "word_sizes w" "type = zfp_type_float \<or> type = zfp_type_double"
  shows "12 \<le> rate_bits w type d rate"
proof -
  let ?n = "nat \<lfloor>of_nat (4 ^ d) * rate + 1 / 2\<rfloor>"
  obtain m where m: "9 \<le> m" "rate_bits w type d rate = round_up m (LENGTH('w))" "type = zfp_type_double \<longrightarrow> 12 \<le> m"
    using assms(2) by (intro that [of "case type of zfp_type_float \<Rightarrow> max ?n 9 | zfp_type_double \<Rightarrow> max ?n 12 | _ \<Rightarrow> ?n"])
      (auto simp: rate_bits_def Let_def)
  note dv = round_up_dvd [of "LENGTH('w)" m] and ge = round_up_ge [of "LENGTH('w)" m]
  obtain k where k: "round_up m (LENGTH('w)) = LENGTH('w) * k" using dv by (elim dvdE)
  have "9 \<le> LENGTH('w) * k" using m(1) ge k by simp
  moreover have "k \<noteq> 0" using calculation by (cases k) simp_all
  ultimately have "12 \<le> LENGTH('w) * k" using assms(1) by (auto simp: word_sizes_def)
  then show ?thesis using m(2) k by simp
qed

lemma sized_set_size:
  assumes "1 \<le> length ns" "length ns \<le> 4" "0 \<notin> set ns"
  shows "sized ns (store_set_size fresh st ns)" "st_codec (store_set_size fresh st ns) = st_codec st"
    "st_index (store_set_size fresh st ns) = index_resize fresh (st_index st) (num_blocks ns)"
  using assms
  by (cases rule: list_1_4_cases; auto simp: sized_def store_set_size_def store1_set_size_def store2_set_size_def store3_set_size_def store4_set_size_def
      store_blocks_def block_counts_def Let_def)+

lemma store_buffer_blocks:
  fixes st :: "('w::len) block_store"
  assumes s: "sized ns st" and f: "zfp_stream_compression_mode (codec_stream (st_codec st)) = zfp_mode_fixed_rate"
  shows "store_buffer_size t st = round_up (num_blocks ns * maxbits (codec_stream (st_codec st))) (LENGTH('w)) div 8"
proof -
  have l: "1 \<le> length ns" "length ns \<le> 4" using s by (simp_all add: sized_def)
  have "zfp_field_blocks (store_field t st) = num_blocks ns"
    "\<not> (nx (store_field t st) = 0 \<and> ny (store_field t st) = 0 \<and> nz (store_field t st) = 0 \<and> nw (store_field t st) = 0)"
    using l s by (cases rule: list_1_4_cases; auto simp: sized_def store_field_def zfp_field_1d_def zfp_field_2d_def zfp_field_3d_def zfp_field_4d_def
        zfp_field_alloc_def zfp_field_blocks_def zfp_field_dimensionality_def block_counts_def Let_def)+
  then show ?thesis using f by (auto simp: store_buffer_size_def codec_buffer_size_def stream_alignment_def)
qed

lemma like_open: "like (codec_stream c) (codec_stream (codec_open c b n))"
  by (simp add: codec_open_def zfp_stream_set_bit_stream_def)

lemma like_free: "like (codec_stream (st_codec st)) (codec_stream (st_codec (store_free st)))"
proof (cases "st_alloc st")
  case True
  then have "codec_stream (st_codec (store_free st)) = (codec_stream (st_codec st))\<lparr>stream := stream_open (\<lambda>_. 0) 0\<rparr>"
    by (simp add: store_free_def codec_close_def zfp_stream_set_bit_stream_def)
  then show ?thesis by simp
qed (simp add: store_free_def)

lemma store_alloc_parts:
  "st_size (store_alloc t buf st zero) = st_size st" "st_blocks (store_alloc t buf st zero) = st_blocks st"
  "st_index (store_alloc t buf st zero) = st_index st"
  by (simp_all add: store_alloc_def store_free_def Let_def)

lemma store_alloc_like: "like (codec_stream (st_codec st)) (codec_stream (st_codec (store_alloc t buf st zero)))"
  by (simp add: store_alloc_def Let_def like_trans [OF like_free like_open])

lemma store_alloc_bytes:
  assumes "sized ns st" "zfp_stream_compression_mode (codec_stream (st_codec st)) = zfp_mode_fixed_rate"
  shows "st_bytes (store_alloc t buf st zero) = store_buffer_size t st"
proof -
  have "sized ns (store_free st)" using assms(1) by (simp add: store_free_def sized_def)
  moreover have "zfp_stream_compression_mode (codec_stream (st_codec (store_free st))) = zfp_mode_fixed_rate"
    using assms(2) like_parts [OF like_free [of st]] by (simp add: compression_mode_params)
  ultimately show ?thesis
    using store_buffer_blocks [OF assms, of t] store_buffer_blocks [of ns "store_free st" t] like_parts(2) [OF like_free [of st]]
    by (simp add: store_alloc_def Let_def)
qed

lemma zero_block:
  fixes z :: "('w::len) zfp_stream" and u :: "('i::len) word unspecified"
  assumes "\<not> REVERSIBLE z" "LENGTH('w) \<le> 64" "\<not> tape (stream z) off"
  shows "block_of (Floating u) d z off = replicate (4 ^ d) 0"
proof -
  let ?s = "stream_rseek (stream z) off"
  have "source_ok ?s" using assms(2) by (simp add: source_ok_def)
  then have "\<not> fst (stream_read_bit ?s)" using assms(3) by (simp add: stream_read_bit_eq source_ok_def)
  then obtain s where "stream_read_bit ?s = (False, s)" by (metis (full_types) prod.collapse)
  then show ?thesis
    using assms(1) by (simp add: block_of_def get_block_def zfp_decode_block_def zfp_decode_block_float_def decode_block_float_def REVERSIBLE_def Let_def split: prod.split)
qed


lemma mem_open: "mem (stream (codec_stream (codec_open c b n))) = b"
  by (simp add: codec_open_def zfp_stream_set_bit_stream_def stream_open_def stream_rewind_def stream_rseek_def Let_def)

lemma alloc_zero:
  fixes st :: "('w::len) block_store"
  assumes w: "word_sizes TYPE('w)" and b: "st_bytes (store_alloc t buf st True) = q * LENGTH('w) div 8" and i: "i < q * LENGTH('w)"
  shows "\<not> tape (stream (codec_stream (st_codec (store_alloc t buf st True)))) i"
proof -
  let ?n = "store_buffer_size t (store_free st)"
  have n: "?n = q * LENGTH('w) div 8" using b by (simp add: store_alloc_def Let_def)
  have "?n div (LENGTH('w) div 8) = q" using w unfolding n by (auto simp: word_sizes_def div_mult2_eq [symmetric])
  moreover have "i div LENGTH('w) < q" using i by (simp add: less_mult_imp_div_less mult.commute)
  ultimately have "mem (stream (codec_stream (st_codec (store_alloc t buf st True)))) (i div LENGTH('w)) = 0"
    by (simp add: store_alloc_def Let_def mem_open)
  then show ?thesis by (simp add: tape_def)
qed

text \<open>A new store of a fixed rate.\<close>

lemma new_store:
  fixes u :: "('i::len) word unspecified" and buf :: "nat \<Rightarrow> ('w::len) word"
  assumes u: "frexp_ok u" "LENGTH('i) = 32 \<or> LENGTH('i) = 64" and w: "word_sizes TYPE('w)"
    and ns: "1 \<le> length ns" "length ns \<le> 4" "0 \<notin> set ns" "num_blocks ns < 2 ^ 31"
    and r: "0 < rate" "rate_bits TYPE('w) (trait_type (Floating u)) (length ns) rate \<le> ZFP_MAX_BITS"
  obtains st where "store_new v (Floating u) fresh buf (Implicit (implicit_new 0)) ns (zfp_config_rate rate True) = Inr st"
    "store_ok (Floating u) (codec_stream (st_codec st)) ns st"
    "maxbits (codec_stream (st_codec st)) = rate_bits TYPE('w) (trait_type (Floating u)) (length ns) rate"
    "st_bytes st = num_blocks ns * maxbits (codec_stream (st_codec st)) div 8"
    "\<And>b. b < num_blocks ns \<Longrightarrow> store_values (Floating u) ns st b = (\<lambda>_. 0)"
proof -
  let ?t = "Floating u" and ?d = "length ns"
  let ?B = "rate_bits TYPE('w) (trait_type (Floating u)) (length ns) rate"
  let ?s0 = "store_set_size fresh (store_default (Implicit (implicit_new 0)) ?d) ns :: 'w block_store"
  note z = sized_set_size [OF ns(1-3), of fresh "store_default (Implicit (implicit_new 0)) ?d :: 'w block_store"]
  let ?z = "(codec_stream (st_codec ?s0))\<lparr>minbits := ?B, maxbits := ?B, maxprec := ZFP_MAX_PREC, minexp := ZFP_MIN_EXP\<rparr>"
  let ?c = "(st_codec ?s0)\<lparr>codec_stream := ?z\<rparr>"
  have tt: "trait_type ?t = zfp_type_float \<or> trait_type ?t = zfp_type_double" by (simp add: trait_type_def)
  have b12: "12 \<le> ?B" by (rule rate_bits_min [OF w tt])
  have len: "length (st_size ?s0) = ?d" using z(1) by (simp add: sized_def)
  have "snd (codec_set_rate (trait_type ?t) ?d (st_codec ?s0) rate True) = ?c"
    using tt by (auto simp: codec_set_rate_def zfp_stream_set_rate_def Let_def rate_bits_def power_mult split: zfp_type.split)
  then obtain rr where sr: "codec_set_rate (trait_type ?t) ?d (st_codec ?s0) rate True = (rr, ?c)" by (metis prod.collapse)
  let ?ix = "Implicit \<lparr>im_blocks = num_blocks ns, im_bits_per_block = of_nat ?B\<rparr>"
  have ix: "index_set_all (st_index ?s0) (of_nat ?B) = Inr ?ix"
    using z(3) by (simp add: store_default_def implicit_resize_def implicit_set_all_def implicit_new_def)
  let ?s1 = "?s0\<lparr>st_codec := ?c, st_index := ?ix\<rparr>"
  let ?st = "store_alloc ?t buf ?s1 True"
  have new: "store_new v ?t fresh buf (Implicit (implicit_new 0)) ns (zfp_config_rate rate True) = Inr ?st"
    using r(1) sr ix by (simp add: store_new_def store_set_config_def zfp_config_rate_def store_set_rate_def len lift_index_def)
  have p: "sized ns ?st" "st_index ?st = ?ix" "like ?z (codec_stream (st_codec ?st))"
    using z(1) store_alloc_parts [where t = ?t and buf = buf and st = ?s1 and zero = True] store_alloc_like [of ?s1 ?t buf True] by (simp_all add: sized_def)
  have m: "maxbits (codec_stream (st_codec ?st)) = ?B" using like_parts(2) [OF p(3)] by simp
  have nr: "\<not> REVERSIBLE ?z" by (simp add: REVERSIBLE_def)
  have f: "fixed_rate ?t ?d ?z"
    using u ns b12 r(2) w nr round_up_dvd by (auto simp: fixed_rate_def codec_ok_def word_sizes_def ZFP_MAX_BITS_def rate_bits_def Let_def)
  have f': "fixed_rate ?t ?d (codec_stream (st_codec ?st))" by (rule fixed_rate_likeD [OF p(3) f])
  have pr: "num_blocks ns * ?B < 2 ^ 64"
  proof -
    have "num_blocks ns * ?B \<le> num_blocks ns * 2 ^ 31" using r(2) by (intro mult_le_mono2) (simp add: ZFP_MAX_BITS_def)
    also have "\<dots> < 2 ^ 64" using ns(4) by simp
    finally show ?thesis .
  qed
  have ok: "store_ok ?t (codec_stream (st_codec ?st)) ns ?st"
    using p(1,2) ns(4) pr f' m by (simp add: store_ok_def like_def)
  have "zfp_stream_compression_mode ?z = zfp_mode_fixed_rate"
    using b12 r(2) by (simp add: zfp_stream_compression_mode_def ZFP_MAX_PREC_def ZFP_MIN_BITS_def)
  moreover have "sized ns ?s1" using z(1) by (simp add: sized_def)
  moreover have "round_up (num_blocks ns * ?B) (LENGTH('w)) = num_blocks ns * ?B"
  proof -
    have "LENGTH('w) dvd num_blocks ns * ?B" using round_up_dvd by (auto simp: rate_bits_def Let_def)
    then show ?thesis by (auto simp: round_up_def Let_def elim!: dvdE)
  qed
  ultimately have "st_bytes ?st = num_blocks ns * ?B div 8"
    by (subst store_alloc_bytes [where ns = ns], simp, simp, subst store_buffer_blocks [where ns = ns]) simp_all
  then have bts: "st_bytes ?st = num_blocks ns * maxbits (codec_stream (st_codec ?st)) div 8" using m by simp
  obtain k where k: "?B = LENGTH('w) * k" using round_up_dvd [of "LENGTH('w)"] by (auto simp: rate_bits_def Let_def elim!: dvdE)
  have "store_values ?t ns ?st b = (\<lambda>_. 0)" if b: "b < num_blocks ns" for b
  proof -
    have "store_offset ?st b = b * ?B" using store_offset_ok [OF ok b] m by simp
    also have "\<dots> < num_blocks ns * ?B" using b b12 by (intro mult_less_mono1) simp_all
    also have "\<dots> = (num_blocks ns * k) * LENGTH('w)" by (simp add: k)
    finally have "\<not> tape (stream (codec_stream (st_codec ?st))) (store_offset ?st b)"
      by (rule alloc_zero [OF w, rotated]) (use bts m k in \<open>simp add: ac_simps\<close>)
    moreover have "\<not> REVERSIBLE (codec_stream (st_codec ?st))" "LENGTH('w) \<le> 64" using f' by (simp_all add: fixed_rate_def)
    ultimately have "codec_block ?t ?d (st_codec ?st) (store_offset ?st b) = replicate (4 ^ ?d) 0" by (intro zero_block)
    moreover have "i < 4 ^ ?d" if "i \<in> block_pos ` set (box (block_extent ns b))" for i
      using that block_pos_less block_extent_sizes [OF b ns(1,2)] by (fastforce simp: block_sizes_def)
    ultimately show ?thesis by (auto simp: store_values_def line_values_def fun_eq_iff)
  qed
  then show thesis by (rule that [OF new ok m bts])
qed

lemma array_new_made:
  fixes u :: "('i::len) word unspecified" and new :: "('i, 'w::len) new_memory"
  assumes "frexp_ok u" "LENGTH('i) = 32 \<or> LENGTH('i) = 64" "word_sizes TYPE('w)"
    and "1 \<le> length ns" "length ns \<le> 4" "0 \<notin> set ns" "num_blocks ns < 2 ^ 31"
    and "0 < rate" "rate_bits TYPE('w) (trait_type (Floating u)) (length ns) rate \<le> ZFP_MAX_BITS"
    and "\<forall>i. length (new_lines new i) = 4 ^ length ns"
  shows "\<exists>c st. array_new v (Floating u) new width ns rate 0 = Inr (Some (c, st)) \<and> empty_cache c \<and>
    array_inv bd (Floating u) (codec_stream (st_codec st)) ns (c, st) \<and>
    maxbits (codec_stream (st_codec st)) = rate_bits TYPE('w) (trait_type (Floating u)) (length ns) rate \<and>
    (\<forall>b < num_blocks ns. LENGTH('w) dvd store_offset st b \<and> store_offset st b + maxbits (codec_stream (st_codec st)) \<le> 8 * st_bytes st) \<and>
    (\<forall>ys. list_all2 (<) ys ns \<longrightarrow> array_value bd (Floating u) ns (c, st) ys = 0)"
proof -
  obtain st where st: "store_new v (Floating u) (new_index new) (new_buffer new) (Implicit (implicit_new 0)) ns (zfp_config_rate rate True) = Inr st"
    and ok: "store_ok (Floating u) (codec_stream (st_codec st)) ns st"
    and m: "maxbits (codec_stream (st_codec st)) = rate_bits TYPE('w) (trait_type (Floating u)) (length ns) rate"
    and bts: "st_bytes st = num_blocks ns * maxbits (codec_stream (st_codec st)) div 8"
    and zero: "\<And>b. b < num_blocks ns \<Longrightarrow> store_values (Floating u) ns st b = (\<lambda>_. 0)"
    using new_store [OF assms(1-9)] by metis
  let ?B = "maxbits (codec_stream (st_codec st))"
  have s: "sized ns st" using ok by (simp add: store_ok_def)
  then have nb: "store_blocks st = num_blocks ns" by (simp add: store_blocks_def sized_def)
  have few: "unat (of_nat (store_blocks st) :: uint64) < 2 ^ 31" using assms(7) by (simp add: nb unat_of_nat)
  obtain n c where c: "cache_lines width 0 (of_nat (store_blocks st)) = Inr (Some n)"
    "cache_new (new_tags new) (new_lines new) n = Some c" "empty_cache c"
    using default_cache_made [OF few, of width "new_tags new" "new_lines new"] by blast
  have new: "array_new v (Floating u) new width ns rate 0 = Inr (Some (c, st))"
    using st c by (simp add: array_new_def)
  have l: "length (cline c i) = 4 ^ length ns" for i using cache_new_lines [OF c(2)] assms(10) by simp
  have inv: "array_inv bd (Floating u) (codec_stream (st_codec st)) ns (c, st)"
    using ok empty_coherent [OF c(3) assms(7)] l by (simp add: array_inv_def)
  have "store_offset st b + ?B \<le> 8 * st_bytes st" if b: "b < num_blocks ns" for b
  proof -
    have "8 dvd ?B" using assms(3) by (auto simp: m rate_bits_def Let_def word_sizes_def intro: dvd_trans [OF _ round_up_dvd])
    then have "8 * st_bytes st = num_blocks ns * ?B" by (auto simp: bts elim!: dvdE)
    moreover have "(b + 1) * ?B \<le> num_blocks ns * ?B" using b by (intro mult_le_mono1) simp
    ultimately show ?thesis using store_offset_ok [OF ok b] by simp
  qed
  moreover have "array_value bd (Floating u) ns (c, st) ys = 0" if y: "list_all2 (<) ys ns" for ys
    using zero empty_not_cached [OF c(3) element(2) [OF inv y] assms(7)] element(2) [OF inv y]
    by (simp add: array_value_def array_block_def current_def)
  ultimately show ?thesis using new c(3) inv m store_offset_dvd [OF ok] by blast
qed

text \<open>C11: A new floating-point array of positive rate, of fewer than 2 ^ 31 blocks, gets a block size of whole words, a buffer that holds
  all blocks, an empty cache, and the value zero for every element; it satisfies the invariant of all operations.\<close>

theorem array_new_correct:
  fixes u :: "('i::len) word unspecified" and new :: "('i, 'w::len) new_memory"
  assumes "frexp_ok u" "LENGTH('i) = 32 \<or> LENGTH('i) = 64" "word_sizes TYPE('w)"
    and "1 \<le> length ns" "length ns \<le> 4" "0 \<notin> set ns" "num_blocks ns < 2 ^ 31"
    and "0 < rate" "rate_bits TYPE('w) (trait_type (Floating u)) (length ns) rate \<le> ZFP_MAX_BITS"
    and "\<forall>i. length (new_lines new i) = 4 ^ length ns"
  shows "\<exists>c st. array_new v (Floating u) new width ns rate 0 = Inr (Some (c, st)) \<and> empty_cache c \<and>
    array_inv bd (Floating u) (codec_stream (st_codec st)) ns (c, st) \<and>
    maxbits (codec_stream (st_codec st)) = rate_bits TYPE('w) (trait_type (Floating u)) (length ns) rate \<and>
    (\<forall>b < num_blocks ns. LENGTH('w) dvd store_offset st b \<and> store_offset st b + maxbits (codec_stream (st_codec st)) \<le> 8 * st_bytes st) \<and>
    (\<forall>ys. list_all2 (<) ys ns \<longrightarrow> array_value bd (Floating u) ns (c, st) ys = 0)"
  by (rule array_new_made [OF assms])

definition sample_memory :: "(32, 64) new_memory" where
  "sample_memory = \<lparr>new_index = \<lparr>fresh_words = \<lambda>_. 0, fresh_chunks = \<lambda>_. \<lparr>c4_hi = 0, c4_lo = \<lambda>_. 0\<rparr>\<rparr>, new_buffer = \<lambda>_. 7, new_tags = \<lambda>_. 3,
    new_lines = \<lambda>_. replicate 16 0\<rparr>"

abbreviation sample_scalar :: "32 word scalar" where
  "sample_scalar \<equiv> Floating (plain_unspecified 0)"

lemma sample_facts:
  "frexp_ok (plain_unspecified 0 :: 32 word unspecified)" "word_sizes TYPE(64)" "num_blocks [5, 6] = 4"
  "rate_bits TYPE(64) (trait_type sample_scalar) (length [5, 6 :: nat]) 8 = 128" "\<forall>i. length (new_lines sample_memory i) = 4 ^ length [5, 6 :: nat]"
proof -
  have "\<lfloor>257 / 2 :: rat\<rfloor> = 128" by (simp add: floor_eq_iff)
  then show "rate_bits TYPE(64) (trait_type sample_scalar) (length [5, 6 :: nat]) 8 = 128"
    by (simp add: rate_bits_def trait_type_def round_up_def Let_def)
qed (simp_all add: frexp_ok_plain word_sizes_def block_counts_def sample_memory_def)

lemma sample_new:
  "\<exists>c st. array_new (plain_unspecified 0) sample_scalar sample_memory 64 [5, 6] 8 0 = Inr (Some (c, st)) \<and> empty_cache c \<and>
    array_inv bd sample_scalar (codec_stream (st_codec st)) [5, 6] (c, st)"
proof -
  note m = array_new_made [OF sample_facts(1) _ sample_facts(2) _ _ _ _ _ _ sample_facts(5), where v = "plain_unspecified 0" and width = 64 and bd = bd and rate = 8]
  show ?thesis by (rule exE [OF m]) (auto simp: sample_facts(3) sample_facts(4) [simplified] ZFP_MAX_BITS_def)
qed

lemma array_new_correct_witness:
  "\<exists>c st. array_new (plain_unspecified 0) sample_scalar sample_memory 64 [5, 6] 8 0 = Inr (Some (c, st)) \<and> empty_cache c \<and>
    array_value \<lparr>twoway = False, fast_hash = False\<rparr> sample_scalar [5, 6] (c, st) [4, 5] = 0"
proof -
  note m = array_new_correct [OF sample_facts(1) _ sample_facts(2) _ _ _ _ _ _ sample_facts(5), where v = "plain_unspecified 0" and width = 64
      and bd = "\<lparr>twoway = False, fast_hash = False\<rparr>" and rate = 8]
  show ?thesis by (rule exE [OF m]) (auto simp: sample_facts(3) sample_facts(4) [simplified] ZFP_MAX_BITS_def)
qed

lemma array_element_witness:
  "\<exists>cs :: (32, 64) cached_array. \<exists>cs2. cache_ref \<lparr>twoway = True, fast_hash = True\<rparr> sample_scalar cs [4, 5] (\<lambda>_. 0x3f800000) = Inr cs2 \<and>
    array_value \<lparr>twoway = True, fast_hash = True\<rparr> sample_scalar [5, 6] cs2 [4, 5] = 0x3f800000"
proof -
  obtain c st where i: "array_inv \<lparr>twoway = True, fast_hash = True\<rparr> sample_scalar (codec_stream (st_codec st)) [5, 6] (c, st :: 64 block_store)"
    using sample_new by blast
  have "list_all2 (<) [4, 5] [5, 6 :: nat]" by simp
  from array_element [OF i this, of "\<lambda>_. 0x3f800000"] show ?thesis by blast
qed

lemma array_get_correct_witness:
  "\<exists>cs :: (32, 64) cached_array. \<exists>a' cs'. array_get \<lparr>twoway = True, fast_hash = True\<rparr> sample_scalar [5, 6] cs (\<lambda>_. 1) 100 = (a', cs') \<and>
    a' 129 = array_value \<lparr>twoway = True, fast_hash = True\<rparr> sample_scalar [5, 6] cs [4, 5] \<and> a' 130 = 1"
proof -
  obtain c st where i: "array_inv \<lparr>twoway = True, fast_hash = True\<rparr> sample_scalar (codec_stream (st_codec st)) [5, 6] (c, st :: 64 block_store)"
    using sample_new by blast
  obtain a' cs' where r: "array_get \<lparr>twoway = True, fast_hash = True\<rparr> sample_scalar [5, 6] (c, st) (\<lambda>_. 1) 100 = (a', cs')"
    "\<forall>ys. list_all2 (<) ys [5, 6] \<longrightarrow> a' (array_address [5, 6] 100 ys) = array_value \<lparr>twoway = True, fast_hash = True\<rparr> sample_scalar [5, 6] (c, st) ys"
    "\<forall>q. q < 100 \<or> 100 + int (prod_list [5, 6]) \<le> q \<longrightarrow> a' q = 1"
    using array_get_correct [OF i, of "\<lambda>_. 1" 100] by blast
  have "a' 129 = array_value \<lparr>twoway = True, fast_hash = True\<rparr> sample_scalar [5, 6] (c, st) [4, 5]"
    using r(2) [THEN spec, of "[4, 5]"] by (simp add: array_address_def)
  moreover have "a' 130 = 1" using r(3) [THEN spec, of 130] by simp
  ultimately show ?thesis using r(1) by blast
qed

lemma array_set_correct_witness:
  "\<exists>cs :: (32, 64) cached_array. \<exists>p cs'. array_set \<lparr>twoway = False, fast_hash = True\<rparr> sample_scalar [5, 6] cs (Some (\<lambda>_. 1, 100)) = Inr cs' \<and>
    array_inv \<lparr>twoway = False, fast_hash = True\<rparr> sample_scalar p [5, 6] cs'"
proof -
  obtain c st where i: "array_inv \<lparr>twoway = False, fast_hash = True\<rparr> sample_scalar (codec_stream (st_codec st)) [5, 6] (c, st :: 64 block_store)"
    using sample_new by blast
  have "\<not> twoway \<lparr>twoway = False, fast_hash = True\<rparr>" by simp
  from array_set_correct [OF i this, of "\<lambda>_. 1" 100] show ?thesis by blast
qed

lemma array_flush_correct_witness:
  "\<exists>cs :: (32, 64) cached_array. \<exists>cs'. array_flush sample_scalar cs = Inr cs' \<and> empty_cache (fst cs')"
proof -
  obtain c st where i: "array_inv \<lparr>twoway = False, fast_hash = True\<rparr> sample_scalar (codec_stream (st_codec st)) [5, 6] (c, st :: 64 block_store)"
    using sample_new by blast
  from array_flush_correct [OF i] show ?thesis by blast
qed

section \<open>Sequences of operations\<close>

datatype 'v array_op =
    Get "nat list"
  | Ref "nat list" "'v \<Rightarrow> 'v"
  | Get_all "'v array" int
  | Set_all "'v array" int
  | Flush_cache
  | Clear_cache
  | Set_cache_size uint64
  | Compressed_data

definition array_step ::
  "cache_build \<Rightarrow> ('i::len) word scalar \<Rightarrow> nat list \<Rightarrow> ('i, 'w::len) new_memory \<Rightarrow> uint64 \<Rightarrow> 'i word array_op \<Rightarrow> ('i, 'w) cached_array \<Rightarrow>
    array_error + ('i, 'w) cached_array option" where
  "array_step bd t ns new width a cs =
    (case a of
       Get xs \<Rightarrow> map_sum Store_error (\<lambda>(v, cs). Some cs) (cache_get bd t cs xs)
     | Ref xs f \<Rightarrow> map_sum Store_error Some (cache_ref bd t cs xs f)
     | Get_all m p \<Rightarrow> Inr (Some (snd (array_get bd t ns cs m p)))
     | Set_all m p \<Rightarrow> map_sum Store_error Some (array_set bd t ns cs (Some (m, p)))
     | Flush_cache \<Rightarrow> map_sum Store_error Some (array_flush t cs)
     | Clear_cache \<Rightarrow> Inr (array_clear_cache cs)
     | Set_cache_size bytes \<Rightarrow> array_set_cache_size t new width cs bytes
     | Compressed_data \<Rightarrow> map_sum Store_error (\<lambda>(m, cs). Some cs) (array_compressed_data t cs))"

fun array_run ::
  "cache_build \<Rightarrow> ('i::len) word scalar \<Rightarrow> nat list \<Rightarrow> ('i, 'w::len) new_memory \<Rightarrow> uint64 \<Rightarrow> 'i word array_op list \<Rightarrow> ('i, 'w) cached_array \<Rightarrow>
    array_error + ('i, 'w) cached_array option" where
  "array_run bd t ns new width [] cs = Inr (Some cs)"
| "array_run bd t ns new width (a # as) cs =
    (case array_step bd t ns new width a cs of
       Inl e \<Rightarrow> Inl e | Inr None \<Rightarrow> Inr None | Inr (Some cs) \<Rightarrow> array_run bd t ns new width as cs)"

text \<open>Elements in range and caches of at most 2 ^ 31 lines.\<close>

definition op_ok :: "nat list \<Rightarrow> uint64 \<Rightarrow> 'i word array_op \<Rightarrow> bool" where
  "op_ok ns width a \<longleftrightarrow>
    (case a of Get xs \<Rightarrow> list_all2 (<) xs ns | Ref xs f \<Rightarrow> list_all2 (<) xs ns
     | Set_cache_size bytes \<Rightarrow> unat (ucast ((bytes + width - 1) div width) :: uint32) \<le> 2 ^ 31 | _ \<Rightarrow> True)"

definition array_ready :: "cache_build \<Rightarrow> ('i::len) word scalar \<Rightarrow> ('w::len) zfp_stream \<Rightarrow> nat list \<Rightarrow> ('i, 'w) cached_array \<Rightarrow> bool" where
  "array_ready bd t p ns cs \<longleftrightarrow> array_inv bd t p ns cs \<and> cmask (fst cs) \<noteq> - 1"

lemma cache_line_mask: "cache_line bd enc dec (c, st) b w = Inr (q, c', st') \<Longrightarrow> cmask c' = cmask c"
proof -
  obtain i u d where a: "cache_access bd c (of_nat b + 1) w = (i, u, d)" by (metis prod.exhaust)
  then have "cmask d = cmask c" by (auto simp: cache_access_def Let_def split: if_splits)
  then show "cache_line bd enc dec (c, st) b w = Inr (q, c', st') \<Longrightarrow> cmask c' = cmask c"
    using a by (auto simp: cache_line_def Let_def split: if_splits sum.splits prod.splits)
qed

lemma clear_ready:
  assumes i: "array_ready bd t p ns (c, st)" and l: "\<forall>i. length (cline c' i) = 4 ^ length ns" and m: "cmask c' \<noteq> - 1" "empty_cache c'"
  shows "array_ready bd t p ns (c', st)"
proof -
  have s: "store_ok t p ns st" using i by (simp add: array_ready_def array_inv_def)
  show ?thesis using s l m empty_coherent [OF m(2) store_okD(2) [OF s]] by (simp add: array_ready_def array_inv_def)
qed

lemma cache_clear_parts: "cache_clear c = Some c' \<Longrightarrow> cmask c' \<noteq> - 1 \<and> cline c' = cline c"
  by (auto simp: cache_clear_eq split: if_splits)

lemma cleared:
  assumes "cmask c \<noteq> - 1"
  obtains c' where "cache_clear c = Some c'" "cmask c' \<noteq> - 1" "empty_cache c'" "cline c' = cline c"
proof -
  obtain c' where "cache_clear c = Some c'" using assms by (simp add: cache_clear_eq)
  then show thesis using that cache_clear_empty cache_clear_parts by blast
qed

lemma resized:
  assumes "unat n \<le> 2 ^ 31"
  obtains c' where "cache_resize tags lines c n = Some c'" "cmask c' \<noteq> - 1" "empty_cache c'" "cline c' = lines"
proof -
  obtain c' where c': "cache_resize tags lines c n = Some c'" "empty_cache c'" using cache_resize_cases(2) [OF assms] by blast
  then have "cmask c' \<noteq> - 1" "cline c' = lines" using cache_clear_parts unfolding cache_resize_def Let_def by fastforce+
  then show thesis using that c' by blast
qed

lemma lines_found:
  assumes few: "unat blocks < 2 ^ 31"
  obtains n where "cache_lines width bytes blocks = Inr (Some n)"
    "bytes \<noteq> 0 \<Longrightarrow> n = max (ucast ((bytes + width - 1) div width)) 1" "bytes = 0 \<Longrightarrow> unat n \<le> 2 ^ 31"
proof -
  have d: "drop_bit 31 blocks = 0" using few unfolding word_unat_eq_iff unat_drop_bit_eq by (simp add: drop_bit_eq_div)
  obtain k where k: "k \<le> 16" "default_lines blocks = Some (2 ^ k)" using default_lines_power [OF few] by metis
  show thesis
  proof (cases "bytes = 0")
    case True
    have "(2 :: nat) ^ k \<le> 2 ^ 31" using k(1) by (intro power_increasing) simp_all
    then have "unat (2 ^ k :: uint32) \<le> 2 ^ 31" using unat_of_nat [of "2 ^ k", where 'a = 32] by simp
    then have "unat (max (2 ^ k) 1 :: uint32) \<le> 2 ^ 31" by (simp add: max_def)
    then show thesis using True d k(2) by (intro that) (simp_all add: cache_lines_def)
  qed (use d in \<open>auto intro!: that simp: cache_lines_def\<close>)
qed

text \<open>In a build with the two-way cache, writing the whole array is left out: it can mark a line that is not in use.\<close>

definition build_ok :: "cache_build \<Rightarrow> 'v array_op \<Rightarrow> bool" where
  "build_ok bd x \<longleftrightarrow> (twoway bd \<longrightarrow> (case x of Set_all a p \<Rightarrow> False | _ \<Rightarrow> True))"

lemma step_ready:
  fixes cs :: "('i::len, 'w::len) cached_array"
  assumes i: "array_ready bd t p ns cs" and o: "op_ok ns width x" and one: "build_ok bd x" and l: "\<forall>i. length (new_lines new i) = 4 ^ length ns"
  shows "\<exists>cs'. array_step bd t ns new width x cs = Inr (Some cs') \<and> array_ready bd t p ns cs'"
proof -
  obtain c st where c: "cs = (c, st)" by fastforce
  have inv: "array_inv bd t p ns (c, st)" and m: "cmask c \<noteq> - 1" using i by (simp_all add: c array_ready_def)
  note d = array_invD [OF inv]
  have fl: "\<exists>cs'. array_flush t cs = Inr cs' \<and> array_ready bd t p ns cs'" if "array_ready bd t p ns cs" for cs :: "('i, 'w) cached_array"
    using array_flush_values [of bd t p ns cs] that by (auto simp: array_ready_def)
  show ?thesis
  proof (cases x)
    case (Get xs)
    then have x: "list_all2 (<) xs ns" using o by (simp add: op_ok_def)
    obtain cs' where g: "cache_get bd t (c, st) xs = Inr (array_value bd t ns (c, st) xs, cs')" "array_inv bd t p ns cs'"
      using get_element [OF inv x] by metis
    have "cmask (fst cs') = cmask c" using g(1) cache_line_mask by (auto simp: cache_get_def array_line_def map_sum_Inr)
    then show ?thesis using g m by (simp add: Get array_step_def c array_ready_def)
  next
    case (Ref xs f)
    then have x: "list_all2 (<) xs ns" using o by (simp add: op_ok_def)
    obtain cs' where g: "cache_ref bd t (c, st) xs f = Inr cs'" "array_inv bd t p ns cs'"
      using ref_element [OF inv x] by metis
    have "cmask (fst cs') = cmask c" using g(1) cache_line_mask by (auto simp: cache_ref_def array_line_def map_sum_Inr Let_def)
    then show ?thesis using g m by (simp add: Ref array_step_def c array_ready_def)
  next
    case (Get_all a q)
    have "\<exists>cs'. snd (array_get bd t ns cs a q) = cs' \<and> array_inv bd t p ns cs' \<and> fst cs' = c"
      using array_get_loop [OF inv order_refl, of q a] array_get_fold [of ns cs bd t a q] d(4) by (auto simp: c)
    then show ?thesis using m by (auto simp: Get_all array_step_def array_ready_def)
  next
    case (Set_all a q)
    then have "\<not> twoway bd" using one by (simp add: build_ok_def)
    then obtain cs' where "array_set bd t ns cs (Some (a, q)) = Inr cs'" "array_inv bd t p ns cs'" "cmask (fst cs') = cmask c"
      using array_set_loop [OF inv _ order_refl, of a q] array_set_fold [of ns cs bd t a q] d(4) by (auto simp: c)
    then show ?thesis using m by (simp add: Set_all array_step_def array_ready_def)
  next
    case Flush_cache
    then show ?thesis using fl [OF i] by (auto simp: array_step_def)
  next
    case Clear_cache
    obtain c' where c': "cache_clear c = Some c'" "cmask c' \<noteq> - 1" "empty_cache c'" "cline c' = cline c" using cleared [OF m] by metis
    have "array_ready bd t p ns (c', st)" by (rule clear_ready [OF i [unfolded c]]) (use c' d(3) in simp_all)
    then show ?thesis using c'(1) by (simp add: Clear_cache array_step_def c array_clear_cache_def)
  next
    case (Set_cache_size bytes)
    obtain cs1 where f1: "array_flush t cs = Inr cs1" "array_ready bd t p ns cs1" using fl [OF i] by blast
    obtain c2 st2 where f2: "array_flush t cs1 = Inr (c2, st2)" "array_ready bd t p ns (c2, st2)" using fl [OF f1(2)] by fastforce
    have s: "store_ok t p ns st2" using f2(2) by (simp add: array_ready_def array_inv_def)
    have few: "unat (of_nat (store_blocks st2) :: uint64) < 2 ^ 31"
      using store_okD(1,2) [OF s] by (simp add: store_blocks_def sized_def unat_of_nat)
    obtain n where n: "cache_lines width bytes (of_nat (store_blocks st2)) = Inr (Some n)" "unat n \<le> 2 ^ 31"
    proof (rule lines_found [OF few, of width bytes])
      fix n
      assume n: "cache_lines width bytes (of_nat (store_blocks st2)) = Inr (Some n)"
        "bytes \<noteq> 0 \<Longrightarrow> n = max (ucast ((bytes + width - 1) div width)) 1" "bytes = 0 \<Longrightarrow> unat n \<le> 2 ^ 31"
      have "unat n \<le> 2 ^ 31"
      proof (cases "bytes = 0")
        case False
        then show ?thesis using n(2) o by (simp add: Set_cache_size op_ok_def max_def)
      qed (use n(3) in simp)
      with n(1) show thesis by (rule that)
    qed
    obtain c3 where c3: "cache_resize (new_tags new) (new_lines new) c2 n = Some c3" "cmask c3 \<noteq> - 1" "empty_cache c3" "cline c3 = new_lines new"
      using resized [OF n(2)] by metis
    have "array_ready bd t p ns (c3, st2)" by (rule clear_ready [OF f2(2)]) (use c3 l in simp_all)
    then show ?thesis using f1(1) f2(1) n(1) c3(1)
      by (simp add: Set_cache_size array_step_def array_set_cache_size_def block_cache_resize_def)
  next
    case Compressed_data
    then show ?thesis using fl [OF i] by (auto simp: array_step_def array_compressed_data_def)
  qed
qed


lemma run_ready:
  assumes "array_ready bd t p ns cs" "list_all (op_ok ns width) xs" "list_all (build_ok bd) xs" "\<forall>i. length (new_lines new i) = 4 ^ length ns"
  shows "\<exists>cs'. array_run bd t ns new width xs cs = Inr (Some cs') \<and> array_ready bd t p ns cs'"
  using assms(1-3)
proof (induction xs arbitrary: cs)
  case (Cons x xs)
  then obtain cs1 where "array_step bd t ns new width x cs = Inr (Some cs1)" "array_ready bd t p ns cs1"
    using step_ready [OF Cons.prems(1) _ _ assms(4), of width x] by auto
  then show ?case using Cons by simp
qed simp

text \<open>C6: On a new array, any sequence of operations ends without an exception and keeps the invariant: reading and writing elements within
  the bounds, reading the whole array, flushing and clearing the cache, changing its size to at most 2 ^ 31 lines, taking the compressed data, and,
  in a build with the direct-mapped cache (the default), writing the whole array. With the two-way cache (\<^verbatim>\<open>ZFP_WITH_CACHE_TWOWAY\<close>) the last one is
  left out (\<open>lookup_secondary_marks_primary\<close>).\<close>

theorem array_operations_safe:
  fixes u :: "('i::len) word unspecified" and new :: "('i, 'w::len) new_memory"
  assumes "frexp_ok u" "LENGTH('i) = 32 \<or> LENGTH('i) = 64" "word_sizes TYPE('w)"
    and "1 \<le> length ns" "length ns \<le> 4" "0 \<notin> set ns" "num_blocks ns < 2 ^ 31"
    and "0 < rate" "rate_bits TYPE('w) (trait_type (Floating u)) (length ns) rate \<le> ZFP_MAX_BITS"
    and "\<forall>i. length (new_lines new i) = 4 ^ length ns" and "list_all (build_ok bd) xs" and "list_all (op_ok ns width) xs"
  shows "\<exists>cs cs' p. array_new v (Floating u) new width ns rate 0 = Inr (Some cs) \<and>
    array_run bd (Floating u) ns new width xs cs = Inr (Some cs') \<and> array_inv bd (Floating u) p ns cs'"
proof -
  obtain c st where n: "array_new v (Floating u) new width ns rate 0 = Inr (Some (c, st))"
    "array_inv bd (Floating u) (codec_stream (st_codec st)) ns (c, st)"
    using array_new_made [OF assms(1-10)] by blast
  then have "cmask c \<noteq> - 1"
    using cache_clear_parts by (fastforce simp: array_new_def cache_new_def cache_resize_def Let_def split: sum.splits option.splits elim!: bind_eq_Some_conv [THEN iffD1, elim_format])
  then have "array_ready bd (Floating u) (codec_stream (st_codec st)) ns (c, st)" using n(2) by (simp add: array_ready_def)
  from run_ready [OF this assms(12,11,10)] show ?thesis using n(1) by (auto simp: array_ready_def)
qed

lemma array_operations_safe_witness:
  "\<exists>cs cs' p. array_new (plain_unspecified 0) sample_scalar sample_memory 64 [5, 6] 8 0 = Inr (Some cs) \<and>
    array_run \<lparr>twoway = False, fast_hash = False\<rparr> sample_scalar [5, 6] sample_memory 64
      [Set_all (\<lambda>_. 0x3f800000) 0, Ref [4, 5] (\<lambda>x. 0), Get [0, 0], Flush_cache, Set_cache_size 1000, Get_all (\<lambda>_. 0) 0, Clear_cache] cs = Inr (Some cs') \<and>
    array_inv \<lparr>twoway = False, fast_hash = False\<rparr> sample_scalar p [5, 6] cs'"
proof -
  let ?xs = "[Set_all (\<lambda>_. 0x3f800000) 0, Ref [4, 5] (\<lambda>x. 0), Get [0, 0], Flush_cache, Set_cache_size 1000, Get_all (\<lambda>_. 0) 0, Clear_cache] ::
    32 word array_op list"
  have "list_all (build_ok \<lparr>twoway = False, fast_hash = False\<rparr>) ?xs" "list_all (op_ok [5, 6] 64) ?xs" by (simp_all add: op_ok_def build_ok_def)
  note m = array_operations_safe [OF sample_facts(1) _ sample_facts(2) _ _ _ _ _ _ sample_facts(5) this, where v = "plain_unspecified 0" and rate = 8]
  show ?thesis by (rule exE [OF m]) (auto simp: sample_facts(3) sample_facts(4) [simplified] ZFP_MAX_BITS_def)
qed

section \<open>Findings\<close>

text \<open>The configuration of an aligned rate is the negated rate, so that rate 0 is not aligned: a block of floats then has 9 bits.\<close>

lemma rate_zero_unaligned:
  fixes u :: "32 word unspecified"
  assumes "1 \<le> length ns" "length ns \<le> 4" "0 \<notin> set ns"
  shows "\<exists>st. store_new v (Floating u) fresh buf (Implicit (implicit_new 0)) ns (zfp_config_rate 0 True) = Inr (st :: 64 block_store) \<and>
    maxbits (codec_stream (st_codec st)) = 9 \<and> store_offset st 1 = 9"
proof -
  let ?d = "length ns" and ?t = "Floating u"
  let ?s0 = "store_set_size fresh (store_default (Implicit (implicit_new 0)) ?d) ns :: 64 block_store"
  note z = sized_set_size [OF assms, of fresh "store_default (Implicit (implicit_new 0)) ?d :: 64 block_store"]
  have len: "length (st_size ?s0) = ?d" using z(1) by (simp add: sized_def)
  obtain rr c where sr: "codec_set_rate (trait_type ?t) ?d (st_codec ?s0) 0 False = (rr, c)" by fastforce
  then have m: "maxbits (codec_stream c) = 9" by (auto simp: codec_set_rate_def zfp_stream_set_rate_def Let_def trait_type_def floor_eq_iff)
  let ?ix = "Implicit \<lparr>im_blocks = num_blocks ns, im_bits_per_block = 9\<rparr>"
  have ix: "index_set_all (st_index ?s0) 9 = Inr ?ix"
    using z(3) by (simp add: store_default_def implicit_resize_def implicit_set_all_def implicit_new_def)
  let ?s1 = "?s0\<lparr>st_codec := c, st_index := ?ix\<rparr>"
  have "store_new v ?t fresh buf (Implicit (implicit_new 0)) ns (zfp_config_rate 0 True) = Inr (store_alloc ?t buf ?s1 True)"
    using sr ix m by (simp add: store_new_def store_set_config_def zfp_config_rate_def store_set_rate_def len lift_index_def)
  moreover have "maxbits (codec_stream (st_codec (store_alloc ?t buf ?s1 True))) = 9"
    using like_parts(2) [OF store_alloc_like [of ?s1 ?t buf True]] m by simp
  ultimately show ?thesis
    using store_alloc_parts(3) [where st = ?s1 and t = ?t and buf = buf and zero = True]
    by (simp add: store_offset_def implicit_block_offset_def)
qed

text \<open>C37: In expert mode with equal smallest and largest block sizes, a store with an implicit index never learns the block size: every
  block has offset 0, so that the blocks overwrite each other.\<close>

theorem expert_fixed_size_no_offsets:
  fixes u :: "('i::len) word unspecified"
  assumes "1 \<le> length ns" "length ns \<le> 4" "0 \<notin> set ns"
  shows "\<exists>st. store_new v (Floating u) fresh buf (Implicit (implicit_new 0)) ns (zfp_config_expert n n pr ex) = Inr (st :: ('w::len) block_store) \<and>
    (\<forall>b. store_offset st b = 0)"
proof -
  let ?t = "Floating u" and ?d = "length ns"
  let ?s0 = "store_set_size fresh (store_default (Implicit (implicit_new 0)) ?d) ns :: 'w block_store"
  note z = sized_set_size [OF assms, of fresh "store_default (Implicit (implicit_new 0)) ?d :: 'w block_store"]
  obtain b c where sp: "codec_set_params (st_codec ?s0) n n pr ex = (b, c)" by fastforce
  let ?st = "store_clear ?t buf (?s0\<lparr>st_codec := c\<rparr>)"
  have "store_new v ?t fresh buf (Implicit (implicit_new 0)) ns (zfp_config_expert n n pr ex) = Inr ?st"
    using sp by (simp add: store_new_def store_set_config_def zfp_config_expert_def store_set_params_def)
  moreover have "st_index ?st = Implicit \<lparr>im_blocks = num_blocks ns, im_bits_per_block = 0\<rparr>"
    using z(3) by (simp add: store_clear_def store_alloc_parts store_default_def implicit_resize_def implicit_new_def)
  ultimately show ?thesis
    by (intro exI [of _ ?st]) (simp add: store_offset_def implicit_block_offset_def)
qed

lemma expert_fixed_size_no_offsets_witness:
  "\<exists>st. store_new (plain_unspecified 0) sample_scalar \<lparr>fresh_words = \<lambda>_. 0, fresh_chunks = \<lambda>_. \<lparr>c4_hi = 0, c4_lo = \<lambda>_. 0\<rparr>\<rparr> (\<lambda>_. 0)
      (Implicit (implicit_new 0)) [5, 6] (zfp_config_expert 128 128 64 (- 1074)) = Inr (st :: 64 block_store) \<and> store_offset st 3 = 0"
  using expert_fixed_size_no_offsets [of "[5, 6]" "plain_unspecified 0" "plain_unspecified 0" "\<lparr>fresh_words = \<lambda>_. 0, fresh_chunks = \<lambda>_. \<lparr>c4_hi = 0, c4_lo = \<lambda>_. 0\<rparr>\<rparr>"
      "\<lambda>_. 0" 128 64 "- 1074"] by auto

section \<open>Blocks of the codec and of the store\<close>

text \<open>C12: In fixed-rate mode with blocks of whole words, the codec writes a block, whole or partial, from any strided memory, to exactly
  the bits of the block: the bits around it are kept, and reading the block again gives the values that compression leaves of it. Whether
  the codec works on a copy of the stream, for the sake of other threads, makes no difference.\<close>

theorem codec_writes_block:
  fixes c :: "('w::len) zfp_codec" and t :: "('i::len) word scalar"
  assumes "fixed_rate t (length ss) (codec_stream c)" and "LENGTH('w) dvd off"
  shows "\<exists>c'. codec_encode_strided t c off shape a p ss = (maxbits (codec_stream c), c') \<and> codec_like c c' \<and>
    codec_block t (length ss) c' off = lossy t (length ss) (codec_stream c) (gather_shape ss shape a p) \<and>
    (\<forall>i. i < off \<or> off + maxbits (codec_stream c) \<le> i \<longrightarrow> tape (stream (codec_stream c')) i = tape (stream (codec_stream c)) i)"
proof -
  have d: "1 \<le> length ss" "length ss \<le> 4" using assms(1) by (simp_all add: fixed_rate_def codec_ok_def)
  let ?B = "gather_shape ss shape a p"
  obtain n c' where e: "on_stream c (\<lambda>z. put_block t (length ss) z off ?B) = (n, c')" by fastforce
  note cp = codec_put [OF assms e]
  obtain z' where z': "put_block t (length ss) (codec_stream c) off ?B = (maxbits (codec_stream c), z')" "like (codec_stream c) z'"
    "\<And>i. tape (stream z') i = (if off \<le> i \<and> i < off + maxbits (codec_stream c) then block_code t (length ss) (codec_stream c) ?B ! (i - off)
        else tape (stream (codec_stream c)) i)"
    using put_block_fixed [OF assms, of ?B] by metis
  note os = on_stream_tape [OF z'(1,2) e]
  have "codec_encode_strided t c off shape a p ss = (maxbits (codec_stream c), c')"
    using e cp(1) by (simp add: codec_encode_strided_put [OF d])
  then show ?thesis using cp(2,3) os(3) z'(3) by (intro exI [of _ c']) auto
qed

lemma codec_writes_block_witness:
  "\<exists>c c'. codec_encode_strided sample_scalar (c :: 64 zfp_codec) 64 7 of_int 0 [1, 5] = (maxbits (codec_stream c), c') \<and> codec_like c c'"
proof -
  obtain c st where i: "array_inv \<lparr>twoway = True, fast_hash = True\<rparr> sample_scalar (codec_stream (st_codec st)) [5, 6] (c, st :: 64 block_store)"
    using sample_new by blast
  have "fixed_rate sample_scalar (length [1, 5 :: int]) (codec_stream (st_codec st))" using store_okD(3) [OF array_invD(1) [OF i]] by simp
  moreover have "LENGTH(64) dvd 64" by simp
  ultimately show ?thesis using codec_writes_block [of sample_scalar "[1, 5]" "st_codec st" 64 7 of_int 0] by blast
qed

text \<open>C13: The branch-free code of a block's shape describes the part of the block that lies in the array: along each axis four elements,
  or as many as are left, in all stores of fewer than 2 ^ 31 blocks.\<close>

theorem block_shape_correct:
  assumes "sized ns st" and "num_blocks ns < 2 ^ 31" and "b < num_blocks ns"
  shows "shape_extent (length ns) (store_block_shape st b) = map2 (\<lambda>n k. min (n - 4 * k) 4) ns (coords (block_counts ns) b)"
  using store_shape [OF assms(1,3,2)] by (simp add: block_extent_def extent_def block_corner_def zip_map2 comp_def split_def)

lemma block_shape_correct_witness:
  "shape_extent (length [5, 6 :: nat]) (store_block_shape (store_set_size \<lparr>fresh_words = \<lambda>_. 0, fresh_chunks = \<lambda>_. \<lparr>c4_hi = 0, c4_lo = \<lambda>_. 0\<rparr>\<rparr>
    (store_default (Implicit (implicit_new 0)) 2 :: 64 block_store) [5, 6]) 3) = [1, 2]"
proof -
  let ?st = "store_set_size \<lparr>fresh_words = \<lambda>_. 0, fresh_chunks = \<lambda>_. \<lparr>c4_hi = 0, c4_lo = \<lambda>_. 0\<rparr>\<rparr>
    (store_default (Implicit (implicit_new 0)) 2 :: 64 block_store) [5, 6]"
  have "sized [5, 6] ?st" by (rule sized_set_size) simp_all
  from block_shape_correct [OF this, of 3] show ?thesis by (simp add: block_counts_def)
qed

end
