(* ===== verification/Array_Iterator.thy ===== *)
theory Array_Iterator
  imports Cached_Array_Proof
begin

text \<open>
  Iterators over the elements of an array or of a view (\<^verbatim>\<open>include/zfp/internal/array/iterator1.hpp\<close> to \<^verbatim>\<open>iterator4.hpp\<close>), which visit the container block
  by block. The classes differ in the number of axes, and have a definition each.
\<close>

section \<open>Iterators\<close>

text \<open>The smallest and the first index beyond the largest one of a container along an axis; for a view, these are indices of the array.
  An iterator holds the index of an element, \<open>x\<close> first. \<open>down4 x\<close> is \<^verbatim>\<open>x & ~3\<close>.\<close>

type_synonym bounds = "nat \<times> nat"

definition down4 :: "nat \<Rightarrow> nat" where
  "down4 x = x - x mod 4"

text \<open>One dimension. The offset passed to \<open>index\<close> is not negative, and a natural number here.\<close>

definition iterator1_offset :: "bounds \<Rightarrow> nat \<Rightarrow> int \<Rightarrow> int" where
  "iterator1_offset = (\<lambda>(xmin, xmax) x d. int (x - xmin) + d)"

definition iterator1_index :: "bounds \<Rightarrow> nat \<Rightarrow> nat" where
  "iterator1_index = (\<lambda>(xmin, xmax) p. xmin + p)"

definition iterator1_increment :: "bounds \<Rightarrow> nat \<Rightarrow> nat" where
  "iterator1_increment = (\<lambda>(xmin, xmax) x. x + 1)"

definition iterator1_decrement :: "bounds \<Rightarrow> nat \<Rightarrow> nat" where
  "iterator1_decrement = (\<lambda>(xmin, xmax) x. x - 1)"

text \<open>Two dimensions.\<close>

definition iterator2_offset :: "bounds \<Rightarrow> bounds \<Rightarrow> nat \<times> nat \<Rightarrow> int \<Rightarrow> int" where
  "iterator2_offset = (\<lambda>(xmin, xmax) (ymin, ymax) (x, y) d.
    let p = d;
        mx = xmax - xmin;
        my = ymax - ymin
    in if y = ymax then p + int (mx * my)
       else
         let bY = max (down4 y) ymin; sy = min (down4 (bY + 4)) ymax - bY; p = p + int ((bY - ymin) * mx);
             bX = max (down4 x) xmin; sx = min (down4 (bX + 4)) xmax - bX; p = p + int ((bX - xmin) * sy);
             p = p + int ((y - bY) * sx);
             p = p + int (x - bX)
         in p)"

definition iterator2_index :: "bounds \<Rightarrow> bounds \<Rightarrow> nat \<Rightarrow> nat \<times> nat" where
  "iterator2_index = (\<lambda>(xmin, xmax) (ymin, ymax) p.
    let mx = xmax - xmin;
        my = ymax - ymin
    in if p = mx * my then (xmin, ymax)
       else
         let bY = max (down4 (ymin + p div mx)) ymin; sy = min (down4 (bY + 4)) ymax - bY;
             p = p - (bY - ymin) * mx;
             bX = max (down4 (xmin + p div sy)) xmin; sx = min (down4 (bX + 4)) xmax - bX;
             p = p - (bX - xmin) * sy;
             y = bY + p div sx; p = p - (y - bY) * sx;
             x = bX + p
         in (x, y))"

definition iterator2_increment :: "bounds \<Rightarrow> bounds \<Rightarrow> nat \<times> nat \<Rightarrow> nat \<times> nat" where
  "iterator2_increment = (\<lambda>(xmin, xmax) (ymin, ymax) (x, y).
    let x = x + 1
    in if x mod 4 = 0 \<or> x = xmax then
      let x = max (down4 (x - 1)) xmin in
        let y = y + 1
        in if y mod 4 = 0 \<or> y = ymax then
          let y = max (down4 (y - 1)) ymin in
            let x = down4 (x + 4)
            in if x \<ge> xmax then
              let x = xmin in
                let y = down4 (y + 4)
                in if y \<ge> ymax then let y = ymax in (x, y) else (x, y)
            else (x, y)
        else (x, y)
    else (x, y))"

definition iterator2_decrement :: "bounds \<Rightarrow> bounds \<Rightarrow> nat \<times> nat \<Rightarrow> nat \<times> nat" where
  "iterator2_decrement = (\<lambda>(xmin, xmax) (ymin, ymax) (x, y).
    if y = ymax then (xmax - 1, ymax - 1)
    else
      let (x, y) =
        (if x mod 4 = 0 \<or> x = xmin then
           let x = min (down4 (x + 4)) xmax in
            let (x, y) =
              (if y mod 4 = 0 \<or> y = ymin then
                 let y = min (down4 (y + 4)) ymax in
                  let x = down4 (x - 1)
                  in if x \<le> xmin then
                    let x = xmax in
                      let y = down4 (y - 1)
                      in if y \<le> ymin then let y = ymin in (x, y) else (x, y)
                  else (x, y)
               else (x, y))
            in (x, y - 1)
         else (x, y))
      in (x - 1, y))"

text \<open>Three dimensions.\<close>

definition iterator3_offset :: "bounds \<Rightarrow> bounds \<Rightarrow> bounds \<Rightarrow> nat \<times> nat \<times> nat \<Rightarrow> int \<Rightarrow> int" where
  "iterator3_offset = (\<lambda>(xmin, xmax) (ymin, ymax) (zmin, zmax) (x, y, z) d.
    let p = d;
        mx = xmax - xmin;
        my = ymax - ymin;
        mz = zmax - zmin
    in if z = zmax then p + int (mx * my * mz)
       else
         let bZ = max (down4 z) zmin; sz = min (down4 (bZ + 4)) zmax - bZ; p = p + int ((bZ - zmin) * mx * my);
             bY = max (down4 y) ymin; sy = min (down4 (bY + 4)) ymax - bY; p = p + int ((bY - ymin) * mx * sz);
             bX = max (down4 x) xmin; sx = min (down4 (bX + 4)) xmax - bX; p = p + int ((bX - xmin) * sy * sz);
             p = p + int ((z - bZ) * sx * sy);
             p = p + int ((y - bY) * sx);
             p = p + int (x - bX)
         in p)"

definition iterator3_index :: "bounds \<Rightarrow> bounds \<Rightarrow> bounds \<Rightarrow> nat \<Rightarrow> nat \<times> nat \<times> nat" where
  "iterator3_index = (\<lambda>(xmin, xmax) (ymin, ymax) (zmin, zmax) p.
    let mx = xmax - xmin;
        my = ymax - ymin;
        mz = zmax - zmin
    in if p = mx * my * mz then (xmin, ymin, zmax)
       else
         let bZ = max (down4 (zmin + p div (mx * my))) zmin; sz = min (down4 (bZ + 4)) zmax - bZ;
             p = p - (bZ - zmin) * (mx * my);
             bY = max (down4 (ymin + p div (mx * sz))) ymin; sy = min (down4 (bY + 4)) ymax - bY;
             p = p - (bY - ymin) * (mx * sz);
             bX = max (down4 (xmin + p div (sy * sz))) xmin; sx = min (down4 (bX + 4)) xmax - bX;
             p = p - (bX - xmin) * (sy * sz);
             z = bZ + p div (sx * sy); p = p - (z - bZ) * (sx * sy);
             y = bY + p div sx; p = p - (y - bY) * sx;
             x = bX + p
         in (x, y, z))"

definition iterator3_increment :: "bounds \<Rightarrow> bounds \<Rightarrow> bounds \<Rightarrow> nat \<times> nat \<times> nat \<Rightarrow> nat \<times> nat \<times> nat" where
  "iterator3_increment = (\<lambda>(xmin, xmax) (ymin, ymax) (zmin, zmax) (x, y, z).
    let x = x + 1
    in if x mod 4 = 0 \<or> x = xmax then
      let x = max (down4 (x - 1)) xmin in
        let y = y + 1
        in if y mod 4 = 0 \<or> y = ymax then
          let y = max (down4 (y - 1)) ymin in
            let z = z + 1
            in if z mod 4 = 0 \<or> z = zmax then
              let z = max (down4 (z - 1)) zmin in
                let x = down4 (x + 4)
                in if x \<ge> xmax then
                  let x = xmin in
                    let y = down4 (y + 4)
                    in if y \<ge> ymax then
                      let y = ymin in
                        let z = down4 (z + 4)
                        in if z \<ge> zmax then let z = zmax in (x, y, z) else (x, y, z)
                    else (x, y, z)
                else (x, y, z)
            else (x, y, z)
        else (x, y, z)
    else (x, y, z))"

definition iterator3_decrement :: "bounds \<Rightarrow> bounds \<Rightarrow> bounds \<Rightarrow> nat \<times> nat \<times> nat \<Rightarrow> nat \<times> nat \<times> nat" where
  "iterator3_decrement = (\<lambda>(xmin, xmax) (ymin, ymax) (zmin, zmax) (x, y, z).
    if z = zmax then (xmax - 1, ymax - 1, zmax - 1)
    else
      let (x, y, z) =
        (if x mod 4 = 0 \<or> x = xmin then
           let x = min (down4 (x + 4)) xmax in
            let (x, y, z) =
              (if y mod 4 = 0 \<or> y = ymin then
                 let y = min (down4 (y + 4)) ymax in
                  let (x, y, z) =
                    (if z mod 4 = 0 \<or> z = zmin then
                       let z = min (down4 (z + 4)) zmax in
                        let x = down4 (x - 1)
                        in if x \<le> xmin then
                          let x = xmax in
                            let y = down4 (y - 1)
                            in if y \<le> ymin then
                              let y = ymax in
                                let z = down4 (z - 1)
                                in if z \<le> zmin then let z = zmin in (x, y, z) else (x, y, z)
                            else (x, y, z)
                        else (x, y, z)
                     else (x, y, z))
                  in (x, y, z - 1)
               else (x, y, z))
            in (x, y - 1, z)
         else (x, y, z))
      in (x - 1, y, z))"

text \<open>Four dimensions.\<close>

definition iterator4_offset :: "bounds \<Rightarrow> bounds \<Rightarrow> bounds \<Rightarrow> bounds \<Rightarrow> nat \<times> nat \<times> nat \<times> nat \<Rightarrow> int \<Rightarrow> int" where
  "iterator4_offset = (\<lambda>(xmin, xmax) (ymin, ymax) (zmin, zmax) (wmin, wmax) (x, y, z, w) d.
    let p = d;
        mx = xmax - xmin;
        my = ymax - ymin;
        mz = zmax - zmin;
        mw = wmax - wmin
    in if w = wmax then p + int (mx * my * mz * mw)
       else
         let bW = max (down4 w) wmin; sw = min (down4 (bW + 4)) wmax - bW; p = p + int ((bW - wmin) * mx * my * mz);
             bZ = max (down4 z) zmin; sz = min (down4 (bZ + 4)) zmax - bZ; p = p + int ((bZ - zmin) * mx * my * sw);
             bY = max (down4 y) ymin; sy = min (down4 (bY + 4)) ymax - bY; p = p + int ((bY - ymin) * mx * sz * sw);
             bX = max (down4 x) xmin; sx = min (down4 (bX + 4)) xmax - bX; p = p + int ((bX - xmin) * sy * sz * sw);
             p = p + int ((w - bW) * sx * sy * sz);
             p = p + int ((z - bZ) * sx * sy);
             p = p + int ((y - bY) * sx);
             p = p + int (x - bX)
         in p)"

definition iterator4_index :: "bounds \<Rightarrow> bounds \<Rightarrow> bounds \<Rightarrow> bounds \<Rightarrow> nat \<Rightarrow> nat \<times> nat \<times> nat \<times> nat" where
  "iterator4_index = (\<lambda>(xmin, xmax) (ymin, ymax) (zmin, zmax) (wmin, wmax) p.
    let mx = xmax - xmin;
        my = ymax - ymin;
        mz = zmax - zmin;
        mw = wmax - wmin
    in if p = mx * my * mz * mw then (xmin, ymin, zmin, wmax)
       else
         let bW = max (down4 (wmin + p div (mx * my * mz))) wmin; sw = min (down4 (bW + 4)) wmax - bW;
             p = p - (bW - wmin) * (mx * my * mz);
             bZ = max (down4 (zmin + p div (mx * my * sw))) zmin; sz = min (down4 (bZ + 4)) zmax - bZ;
             p = p - (bZ - zmin) * (mx * my * sw);
             bY = max (down4 (ymin + p div (mx * sz * sw))) ymin; sy = min (down4 (bY + 4)) ymax - bY;
             p = p - (bY - ymin) * (mx * sz * sw);
             bX = max (down4 (xmin + p div (sy * sz * sw))) xmin; sx = min (down4 (bX + 4)) xmax - bX;
             p = p - (bX - xmin) * (sy * sz * sw);
             w = bW + p div (sx * sy * sz); p = p - (w - bW) * (sx * sy * sz);
             z = bZ + p div (sx * sy); p = p - (z - bZ) * (sx * sy);
             y = bY + p div sx; p = p - (y - bY) * sx;
             x = bX + p
         in (x, y, z, w))"

definition iterator4_increment :: "bounds \<Rightarrow> bounds \<Rightarrow> bounds \<Rightarrow> bounds \<Rightarrow> nat \<times> nat \<times> nat \<times> nat \<Rightarrow> nat \<times> nat \<times> nat \<times> nat" where
  "iterator4_increment = (\<lambda>(xmin, xmax) (ymin, ymax) (zmin, zmax) (wmin, wmax) (x, y, z, w).
    let x = x + 1
    in if x mod 4 = 0 \<or> x = xmax then
      let x = max (down4 (x - 1)) xmin in
        let y = y + 1
        in if y mod 4 = 0 \<or> y = ymax then
          let y = max (down4 (y - 1)) ymin in
            let z = z + 1
            in if z mod 4 = 0 \<or> z = zmax then
              let z = max (down4 (z - 1)) zmin in
                let w = w + 1
                in if w mod 4 = 0 \<or> w = wmax then
                  let w = max (down4 (w - 1)) wmin in
                    let x = down4 (x + 4)
                    in if x \<ge> xmax then
                      let x = xmin in
                        let y = down4 (y + 4)
                        in if y \<ge> ymax then
                          let y = ymin in
                            let z = down4 (z + 4)
                            in if z \<ge> zmax then
                              let z = zmin in
                                let w = down4 (w + 4)
                                in if w \<ge> wmax then let w = wmax in (x, y, z, w) else (x, y, z, w)
                            else (x, y, z, w)
                        else (x, y, z, w)
                    else (x, y, z, w)
                else (x, y, z, w)
            else (x, y, z, w)
        else (x, y, z, w)
    else (x, y, z, w))"

definition iterator4_decrement :: "bounds \<Rightarrow> bounds \<Rightarrow> bounds \<Rightarrow> bounds \<Rightarrow> nat \<times> nat \<times> nat \<times> nat \<Rightarrow> nat \<times> nat \<times> nat \<times> nat" where
  "iterator4_decrement = (\<lambda>(xmin, xmax) (ymin, ymax) (zmin, zmax) (wmin, wmax) (x, y, z, w).
    if w = wmax then (xmax - 1, ymax - 1, zmax - 1, wmax - 1)
    else
      let (x, y, z, w) =
        (if x mod 4 = 0 \<or> x = xmin then
           let x = min (down4 (x + 4)) xmax in
            let (x, y, z, w) =
              (if y mod 4 = 0 \<or> y = ymin then
                 let y = min (down4 (y + 4)) ymax in
                  let (x, y, z, w) =
                    (if z mod 4 = 0 \<or> z = zmin then
                       let z = min (down4 (z + 4)) zmax in
                        let (x, y, z, w) =
                          (if w mod 4 = 0 \<or> w = wmin then
                             let w = min (down4 (w + 4)) wmax in
                              let x = down4 (x - 1)
                              in if x \<le> xmin then
                                let x = xmax in
                                  let y = down4 (y - 1)
                                  in if y \<le> ymin then
                                    let y = ymax in
                                      let z = down4 (z - 1)
                                      in if z \<le> zmin then
                                        let z = zmax in
                                          let w = down4 (w - 1)
                                          in if w \<le> wmin then let w = wmin in (x, y, z, w) else (x, y, z, w)
                                      else (x, y, z, w)
                                  else (x, y, z, w)
                              else (x, y, z, w)
                           else (x, y, z, w))
                        in (x, y, z, w - 1)
                     else (x, y, z, w))
                  in (x, y, z - 1, w)
               else (x, y, z, w))
            in (x, y - 1, z, w)
         else (x, y, z, w))
      in (x - 1, y, z, w))"

text \<open>Any number of dimensions: bounds and indices as lists, \<open>x\<close> first.\<close>

definition iterator_offset :: "bounds list \<Rightarrow> nat list \<Rightarrow> int \<Rightarrow> int" where
  "iterator_offset rs xs d =
    (case (rs, xs) of ([q], [x]) \<Rightarrow> iterator1_offset q x d | ([q, r], [x, y]) \<Rightarrow> iterator2_offset q r (x, y) d
     | ([q, r, s], [x, y, z]) \<Rightarrow> iterator3_offset q r s (x, y, z) d | ([q, r, s, t], [x, y, z, w]) \<Rightarrow> iterator4_offset q r s t (x, y, z, w) d | _ \<Rightarrow> d)"

definition iterator_index :: "bounds list \<Rightarrow> nat \<Rightarrow> nat list" where
  "iterator_index rs p =
    (case rs of [q] \<Rightarrow> [iterator1_index q p] | [q, r] \<Rightarrow> (case iterator2_index q r p of (x, y) \<Rightarrow> [x, y])
     | [q, r, s] \<Rightarrow> (case iterator3_index q r s p of (x, y, z) \<Rightarrow> [x, y, z])
     | [q, r, s, t] \<Rightarrow> (case iterator4_index q r s t p of (x, y, z, w) \<Rightarrow> [x, y, z, w]) | _ \<Rightarrow> [])"

definition iterator_advance_by :: "bounds list \<Rightarrow> nat list \<Rightarrow> int \<Rightarrow> nat list" where
  "iterator_advance_by rs xs d = iterator_index rs (nat (iterator_offset rs xs d))"

definition iterator_increment :: "bounds list \<Rightarrow> nat list \<Rightarrow> nat list" where
  "iterator_increment rs xs =
    (case (rs, xs) of ([q], [x]) \<Rightarrow> [iterator1_increment q x] | ([q, r], [x, y]) \<Rightarrow> (case iterator2_increment q r (x, y) of (x, y) \<Rightarrow> [x, y])
     | ([q, r, s], [x, y, z]) \<Rightarrow> (case iterator3_increment q r s (x, y, z) of (x, y, z) \<Rightarrow> [x, y, z])
     | ([q, r, s, t], [x, y, z, w]) \<Rightarrow> (case iterator4_increment q r s t (x, y, z, w) of (x, y, z, w) \<Rightarrow> [x, y, z, w]) | _ \<Rightarrow> xs)"

definition iterator_decrement :: "bounds list \<Rightarrow> nat list \<Rightarrow> nat list" where
  "iterator_decrement rs xs =
    (case (rs, xs) of ([q], [x]) \<Rightarrow> [iterator1_decrement q x] | ([q, r], [x, y]) \<Rightarrow> (case iterator2_decrement q r (x, y) of (x, y) \<Rightarrow> [x, y])
     | ([q, r, s], [x, y, z]) \<Rightarrow> (case iterator3_decrement q r s (x, y, z) of (x, y, z) \<Rightarrow> [x, y, z])
     | ([q, r, s, t], [x, y, z, w]) \<Rightarrow> (case iterator4_decrement q r s t (x, y, z, w) of (x, y, z, w) \<Rightarrow> [x, y, z, w]) | _ \<Rightarrow> xs)"

definition iterator_begin :: "bounds list \<Rightarrow> nat list" where
  "iterator_begin rs = map fst rs"

definition iterator_end :: "bounds list \<Rightarrow> nat list" where
  "iterator_end rs = map fst (butlast rs) @ [snd (last rs)]"

section \<open>Pointers\<close>

text \<open>
  Pointers to the elements (\<^verbatim>\<open>pointer1.hpp\<close> to \<^verbatim>\<open>pointer4.hpp\<close>) visit the container in the order of a flat array. The size of the container along an axis
  is the difference of its bounds. A pointer that is decremented goes through the largest machine number at index 0; the sum is the same without it.
\<close>

definition pointer1_offset :: "bounds \<Rightarrow> nat \<Rightarrow> int \<Rightarrow> int" where
  "pointer1_offset = (\<lambda>(xmin, xmax) x d. int (x - xmin) + d)"

definition pointer1_index :: "bounds \<Rightarrow> nat \<Rightarrow> nat" where
  "pointer1_index = (\<lambda>(xmin, xmax) p. xmin + p)"

definition pointer1_increment :: "bounds \<Rightarrow> nat \<Rightarrow> nat" where
  "pointer1_increment = (\<lambda>(xmin, xmax) x. x + 1)"

definition pointer1_decrement :: "bounds \<Rightarrow> nat \<Rightarrow> nat" where
  "pointer1_decrement = (\<lambda>(xmin, xmax) x. x - 1)"

definition pointer2_offset :: "bounds \<Rightarrow> bounds \<Rightarrow> nat \<times> nat \<Rightarrow> int \<Rightarrow> int" where
  "pointer2_offset = (\<lambda>(xmin, xmax) (ymin, ymax) (x, y) d.
    let mx = xmax - xmin
    in int (x - xmin + mx * (y - ymin)) + d)"

definition pointer2_index :: "bounds \<Rightarrow> bounds \<Rightarrow> nat \<Rightarrow> nat \<times> nat" where
  "pointer2_index = (\<lambda>(xmin, xmax) (ymin, ymax) p.
    let mx = xmax - xmin;
        x = xmin + p mod mx; p = p div mx;
        y = ymin + p
    in (x, y))"

definition pointer2_increment :: "bounds \<Rightarrow> bounds \<Rightarrow> nat \<times> nat \<Rightarrow> nat \<times> nat" where
  "pointer2_increment = (\<lambda>(xmin, xmax) (ymin, ymax) (x, y).
    let x = x + 1
    in if x = xmax then
      let x = xmin in
        let y = y + 1 in (x, y)
    else (x, y))"

definition pointer2_decrement :: "bounds \<Rightarrow> bounds \<Rightarrow> nat \<times> nat \<Rightarrow> nat \<times> nat" where
  "pointer2_decrement = (\<lambda>(xmin, xmax) (ymin, ymax) (x, y).
    if x = xmin then
      let x = x + (xmax - xmin) - 1 in
        let y = y - 1 in (x, y)
    else let x = x - 1 in (x, y))"

definition pointer3_offset :: "bounds \<Rightarrow> bounds \<Rightarrow> bounds \<Rightarrow> nat \<times> nat \<times> nat \<Rightarrow> int \<Rightarrow> int" where
  "pointer3_offset = (\<lambda>(xmin, xmax) (ymin, ymax) (zmin, zmax) (x, y, z) d.
    let mx = xmax - xmin; my = ymax - ymin
    in int (x - xmin + mx * (y - ymin + my * (z - zmin))) + d)"

definition pointer3_index :: "bounds \<Rightarrow> bounds \<Rightarrow> bounds \<Rightarrow> nat \<Rightarrow> nat \<times> nat \<times> nat" where
  "pointer3_index = (\<lambda>(xmin, xmax) (ymin, ymax) (zmin, zmax) p.
    let mx = xmax - xmin; my = ymax - ymin;
        x = xmin + p mod mx; p = p div mx;
        y = ymin + p mod my; p = p div my;
        z = zmin + p
    in (x, y, z))"

definition pointer3_increment :: "bounds \<Rightarrow> bounds \<Rightarrow> bounds \<Rightarrow> nat \<times> nat \<times> nat \<Rightarrow> nat \<times> nat \<times> nat" where
  "pointer3_increment = (\<lambda>(xmin, xmax) (ymin, ymax) (zmin, zmax) (x, y, z).
    let x = x + 1
    in if x = xmax then
      let x = xmin in
        let y = y + 1
        in if y = ymax then
          let y = ymin in
            let z = z + 1 in (x, y, z)
        else (x, y, z)
    else (x, y, z))"

definition pointer3_decrement :: "bounds \<Rightarrow> bounds \<Rightarrow> bounds \<Rightarrow> nat \<times> nat \<times> nat \<Rightarrow> nat \<times> nat \<times> nat" where
  "pointer3_decrement = (\<lambda>(xmin, xmax) (ymin, ymax) (zmin, zmax) (x, y, z).
    if x = xmin then
      let x = x + (xmax - xmin) - 1 in
        if y = ymin then
          let y = y + (ymax - ymin) - 1 in
            let z = z - 1 in (x, y, z)
        else let y = y - 1 in (x, y, z)
    else let x = x - 1 in (x, y, z))"

definition pointer4_offset :: "bounds \<Rightarrow> bounds \<Rightarrow> bounds \<Rightarrow> bounds \<Rightarrow> nat \<times> nat \<times> nat \<times> nat \<Rightarrow> int \<Rightarrow> int" where
  "pointer4_offset = (\<lambda>(xmin, xmax) (ymin, ymax) (zmin, zmax) (wmin, wmax) (x, y, z, w) d.
    let mx = xmax - xmin; my = ymax - ymin; mz = zmax - zmin
    in int (x - xmin + mx * (y - ymin + my * (z - zmin + mz * (w - wmin)))) + d)"

definition pointer4_index :: "bounds \<Rightarrow> bounds \<Rightarrow> bounds \<Rightarrow> bounds \<Rightarrow> nat \<Rightarrow> nat \<times> nat \<times> nat \<times> nat" where
  "pointer4_index = (\<lambda>(xmin, xmax) (ymin, ymax) (zmin, zmax) (wmin, wmax) p.
    let mx = xmax - xmin; my = ymax - ymin; mz = zmax - zmin;
        x = xmin + p mod mx; p = p div mx;
        y = ymin + p mod my; p = p div my;
        z = zmin + p mod mz; p = p div mz;
        w = wmin + p
    in (x, y, z, w))"

definition pointer4_increment :: "bounds \<Rightarrow> bounds \<Rightarrow> bounds \<Rightarrow> bounds \<Rightarrow> nat \<times> nat \<times> nat \<times> nat \<Rightarrow> nat \<times> nat \<times> nat \<times> nat" where
  "pointer4_increment = (\<lambda>(xmin, xmax) (ymin, ymax) (zmin, zmax) (wmin, wmax) (x, y, z, w).
    let x = x + 1
    in if x = xmax then
      let x = xmin in
        let y = y + 1
        in if y = ymax then
          let y = ymin in
            let z = z + 1
            in if z = zmax then
              let z = zmin in
                let w = w + 1 in (x, y, z, w)
            else (x, y, z, w)
        else (x, y, z, w)
    else (x, y, z, w))"

definition pointer4_decrement :: "bounds \<Rightarrow> bounds \<Rightarrow> bounds \<Rightarrow> bounds \<Rightarrow> nat \<times> nat \<times> nat \<times> nat \<Rightarrow> nat \<times> nat \<times> nat \<times> nat" where
  "pointer4_decrement = (\<lambda>(xmin, xmax) (ymin, ymax) (zmin, zmax) (wmin, wmax) (x, y, z, w).
    if x = xmin then
      let x = x + (xmax - xmin) - 1 in
        if y = ymin then
          let y = y + (ymax - ymin) - 1 in
            if z = zmin then
              let z = z + (zmax - zmin) - 1 in
                let w = w - 1 in (x, y, z, w)
            else let z = z - 1 in (x, y, z, w)
        else let y = y - 1 in (x, y, z, w)
    else let x = x - 1 in (x, y, z, w))"

text \<open>Any number of dimensions.\<close>

definition pointer_offset :: "bounds list \<Rightarrow> nat list \<Rightarrow> int \<Rightarrow> int" where
  "pointer_offset rs xs d =
    (case (rs, xs) of ([q], [x]) \<Rightarrow> pointer1_offset q x d | ([q, r], [x, y]) \<Rightarrow> pointer2_offset q r (x, y) d
     | ([q, r, s], [x, y, z]) \<Rightarrow> pointer3_offset q r s (x, y, z) d | ([q, r, s, t], [x, y, z, w]) \<Rightarrow> pointer4_offset q r s t (x, y, z, w) d | _ \<Rightarrow> d)"

definition pointer_index :: "bounds list \<Rightarrow> nat \<Rightarrow> nat list" where
  "pointer_index rs p =
    (case rs of [q] \<Rightarrow> [pointer1_index q p] | [q, r] \<Rightarrow> (case pointer2_index q r p of (x, y) \<Rightarrow> [x, y])
     | [q, r, s] \<Rightarrow> (case pointer3_index q r s p of (x, y, z) \<Rightarrow> [x, y, z])
     | [q, r, s, t] \<Rightarrow> (case pointer4_index q r s t p of (x, y, z, w) \<Rightarrow> [x, y, z, w]) | _ \<Rightarrow> [])"

definition pointer_advance_by :: "bounds list \<Rightarrow> nat list \<Rightarrow> int \<Rightarrow> nat list" where
  "pointer_advance_by rs xs d = pointer_index rs (nat (pointer_offset rs xs d))"

definition pointer_increment :: "bounds list \<Rightarrow> nat list \<Rightarrow> nat list" where
  "pointer_increment rs xs =
    (case (rs, xs) of ([q], [x]) \<Rightarrow> [pointer1_increment q x] | ([q, r], [x, y]) \<Rightarrow> (case pointer2_increment q r (x, y) of (x, y) \<Rightarrow> [x, y])
     | ([q, r, s], [x, y, z]) \<Rightarrow> (case pointer3_increment q r s (x, y, z) of (x, y, z) \<Rightarrow> [x, y, z])
     | ([q, r, s, t], [x, y, z, w]) \<Rightarrow> (case pointer4_increment q r s t (x, y, z, w) of (x, y, z, w) \<Rightarrow> [x, y, z, w]) | _ \<Rightarrow> xs)"

definition pointer_decrement :: "bounds list \<Rightarrow> nat list \<Rightarrow> nat list" where
  "pointer_decrement rs xs =
    (case (rs, xs) of ([q], [x]) \<Rightarrow> [pointer1_decrement q x] | ([q, r], [x, y]) \<Rightarrow> (case pointer2_decrement q r (x, y) of (x, y) \<Rightarrow> [x, y])
     | ([q, r, s], [x, y, z]) \<Rightarrow> (case pointer3_decrement q r s (x, y, z) of (x, y, z) \<Rightarrow> [x, y, z])
     | ([q, r, s, t], [x, y, z, w]) \<Rightarrow> (case pointer4_decrement q r s t (x, y, z, w) of (x, y, z, w) \<Rightarrow> [x, y, z, w]) | _ \<Rightarrow> xs)"

end
