(* ===== verification/Array_Iterator_Proof.thy ===== *)
theory Array_Iterator_Proof
  imports Array_Iterator
begin

text \<open>
  Correctness of iterators and pointers. The bounds of a container along an axis need not be those of blocks, since a view can start and end
  inside a block. The arithmetic of the classes is brought to functions on lists of axes, the slowest one first (\<open>elem_off\<close>, \<open>elem_at\<close>,
  \<open>step_inc\<close>, \<open>step_dec\<close>), for which the facts are proved by induction. The locale \<open>random_access\<close> states the contract of random-access positions and
  derives the laws from it; it is interpreted on iterators and on pointers. \<open>axes\<close> holds for the indices of the elements of a container.
\<close>

section \<open>Blocks along an axis\<close>

text \<open>First index and first index beyond the block that contains \<open>x\<close>, and its number of indices.\<close>

definition block_min :: "bounds \<Rightarrow> nat \<Rightarrow> nat" where
  "block_min r x = max (down4 x) (fst r)"

definition block_max :: "bounds \<Rightarrow> nat \<Rightarrow> nat" where
  "block_max r x = min (down4 (block_min r x + 4)) (snd r)"

definition block_width :: "bounds \<Rightarrow> nat \<Rightarrow> nat" where
  "block_width r x = block_max r x - block_min r x"

definition inside :: "bounds \<Rightarrow> nat \<Rightarrow> bool" where
  "inside r x \<longleftrightarrow> fst r \<le> x \<and> x < snd r"

lemma down4_div: "down4 x = 4 * (x div 4)"
  by (simp add: down4_def minus_mod_eq_mult_div)

text \<open>The block of \<open>x\<close> consists of the indices inside the bounds with the same quotient.\<close>

lemma block_bounds:
  assumes "inside (lo, hi) x"
  shows "block_min (lo, hi) x = max (4 * (x div 4)) lo" "block_max (lo, hi) x = min (4 * (x div 4) + 4) hi"
proof -
  show m: "block_min (lo, hi) x = max (4 * (x div 4)) lo" by (simp add: block_min_def down4_div)
  have "(max (4 * (x div 4)) lo + 4) div 4 = x div 4 + 1" 
  proof (cases "4 * (x div 4) \<le> lo")
    case True
    then have "x div 4 \<le> lo div 4" by (simp add: less_eq_div_iff_mult_less_eq mult.commute)
    then have "lo div 4 = x div 4" using assms div_le_mono [of lo x 4] by (simp add: inside_def)
    with True show ?thesis by simp
  qed simp
  then show "block_max (lo, hi) x = min (4 * (x div 4) + 4) hi" by (simp add: block_max_def m down4_div)
qed

lemma block_min_max:
  assumes "inside r x"
  shows "fst r \<le> block_min r x" "block_min r x \<le> x" "x < block_max r x" "block_max r x \<le> snd r"
    "block_min r x + block_width r x = block_max r x" "0 < block_width r x"
proof -
  obtain lo hi where r: "r = (lo, hi)" by fastforce
  have x: "4 * (x div 4) \<le> x" "x < 4 * (x div 4) + 4" by presburger+
  show b: "fst r \<le> block_min r x" "block_min r x \<le> x" "x < block_max r x" "block_max r x \<le> snd r"
    using assms x unfolding r by (simp_all add: block_bounds inside_def)
  show "block_min r x + block_width r x = block_max r x" "0 < block_width r x" using b by (simp_all add: block_width_def)
qed

lemma in_block_iff:
  assumes "inside r x"
  shows "block_min r x \<le> y \<and> y < block_max r x \<longleftrightarrow> inside r y \<and> y div 4 = x div 4"
proof -
  obtain lo hi where r: "r = (lo, hi)" by fastforce
  have "4 * q \<le> y \<and> y < 4 * q + 4 \<longleftrightarrow> y div 4 = q" for q :: nat by (auto intro!: div_nat_eqI)
  from this [of "x div 4"] show ?thesis using assms unfolding r by (auto simp: block_bounds inside_def)
qed

lemma same_block:
  assumes "inside r x" "block_min r x \<le> y" "y < block_max r x"
  shows "inside r y" "block_min r y = block_min r x" "block_max r y = block_max r x" "block_width r y = block_width r x"
proof -
  have y: "inside r y" "y div 4 = x div 4" using in_block_iff [OF assms(1)] assms(2,3) by blast+
  then show "inside r y" "block_min r y = block_min r x" "block_max r y = block_max r x"
    using assms(1) by (cases r; simp add: block_bounds)+
  then show "block_width r y = block_width r x" by (simp add: block_width_def)
qed

lemma block_last:
  assumes "inside r x"
  shows "(x + 1) mod 4 = 0 \<or> x + 1 = snd r \<longleftrightarrow> x + 1 = block_max r x"
proof -
  obtain lo hi where r: "r = (lo, hi)" by fastforce
  have x: "(x + 1) mod 4 = 0 \<longleftrightarrow> x + 1 = 4 * (x div 4) + 4" "x + 1 \<le> 4 * (x div 4) + 4" by presburger+
  show ?thesis using assms x(2) unfolding r block_bounds(2) [OF assms [unfolded r]] x(1) by (auto simp: inside_def min_def)
qed

lemma block_first:
  assumes "inside r x"
  shows "x mod 4 = 0 \<or> x = fst r \<longleftrightarrow> x = block_min r x" and "x = block_min r x \<Longrightarrow> min (down4 (x + 4)) (snd r) = block_max r x"
proof -
  obtain lo hi where r: "r = (lo, hi)" by fastforce
  have x: "x mod 4 = 0 \<longleftrightarrow> x = 4 * (x div 4)" "4 * (x div 4) \<le> x" by presburger+
  show "x mod 4 = 0 \<or> x = fst r \<longleftrightarrow> x = block_min r x"
    using assms x(2) unfolding r block_bounds(1) [OF assms [unfolded r]] x(1) by (auto simp: inside_def max_def)
qed (simp add: block_max_def)

lemma next_block:
  assumes "inside r x" "x = block_min r x"
  shows "down4 (x + 4) < snd r \<Longrightarrow> down4 (x + 4) = block_max r x \<and> inside r (block_max r x) \<and> block_min r (block_max r x) = block_max r x"
    and "snd r \<le> down4 (x + 4) \<Longrightarrow> block_max r x = snd r"
proof -
  have m: "block_max r x = min (down4 (x + 4)) (snd r)" using block_first(2) [OF assms] by simp
  then show "snd r \<le> down4 (x + 4) \<Longrightarrow> block_max r x = snd r" by simp
  assume "down4 (x + 4) < snd r"
  then have e: "block_max r x = down4 (x + 4)" using m by simp
  then have "inside r (block_max r x)" using \<open>down4 (x + 4) < snd r\<close> block_min_max [OF assms(1)] by (simp add: inside_def)
  moreover have "block_min r (block_max r x) = block_max r x"
    using calculation unfolding e by (simp add: block_min_def inside_def down4_div)
  ultimately show "down4 (x + 4) = block_max r x \<and> inside r (block_max r x) \<and> block_min r (block_max r x) = block_max r x" using e by simp
qed

lemma previous_block:
  assumes "inside r x" "x = block_min r x"
  shows "down4 (block_max r x - 1) \<le> fst r \<longleftrightarrow> x = fst r" and "x \<noteq> fst r \<Longrightarrow> down4 (block_max r x - 1) = x"
    and "x \<noteq> fst r \<Longrightarrow> inside r (x - 1) \<and> block_max r (x - 1) = x"
proof -
  obtain lo hi where r: "r = (lo, hi)" by fastforce
  note b = block_min_max [OF assms(1)]
  have "block_min r x \<le> block_max r x - 1 \<and> block_max r x - 1 < block_max r x" using b by simp
  then have d: "down4 (block_max r x - 1) = 4 * (x div 4)" using in_block_iff [OF assms(1)] by (simp add: down4_div)
  have x: "x = max (4 * (x div 4)) lo" using assms unfolding r by (simp add: block_bounds(1))
  show "down4 (block_max r x - 1) \<le> fst r \<longleftrightarrow> x = fst r" "x \<noteq> fst r \<Longrightarrow> down4 (block_max r x - 1) = x"
    unfolding d using x by (auto simp: r)
  assume n: "x \<noteq> fst r"
  then have q: "x = 4 * (x div 4)" "lo < x" using x by (auto simp: r max_def split: if_splits)
  have i: "inside r (x - 1)" using assms(1) q(2) by (auto simp: inside_def r)
  have "4 * ((x - 1) div 4) + 4 = x"
  proof -
    have "x - 1 = 3 + 4 * (x div 4 - 1)" using q by (cases "x div 4") simp_all
    then have "(x - 1) div 4 = x div 4 - 1" by simp
    then show ?thesis using q by (cases "x div 4") simp_all
  qed
  then have "block_max r (x - 1) = x" using i assms(1) unfolding r by (simp add: block_bounds(2) inside_def)
  with i show "inside r (x - 1) \<and> block_max r (x - 1) = x" by simp
qed

section \<open>Offsets of lists of indices\<close>

text \<open>
  The arithmetic of the iterators for any number of axes. In this section lists of bounds and indices start with the slowest axis.
  The offset of an element is the number of elements in the blocks before its block and in its block before it;
  \<open>s\<close> is the extent of the block along the axes already treated.
\<close>

abbreviation inside_all :: "bounds list \<Rightarrow> nat list \<Rightarrow> bool" where
  "inside_all \<equiv> list_all2 inside"

fun extents :: "bounds list \<Rightarrow> nat" where
  "extents [] = 1"
| "extents (r # rs) = (snd r - fst r) * extents rs"

fun volume :: "bounds list \<Rightarrow> nat list \<Rightarrow> nat" where
  "volume (r # rs) (x # xs) = block_width r x * volume rs xs"
| "volume _ _ = 1"

fun block_off :: "bounds list \<Rightarrow> nat list \<Rightarrow> nat \<Rightarrow> nat" where
  "block_off (r # rs) (x # xs) s = (block_min r x - fst r) * extents rs * s + block_off rs xs (s * block_width r x)"
| "block_off _ _ s = 0"

fun inner_off :: "bounds list \<Rightarrow> nat list \<Rightarrow> nat" where
  "inner_off (r # rs) (x # xs) = (x - block_min r x) * volume rs xs + inner_off rs xs"
| "inner_off _ _ = 0"

abbreviation block_mins :: "bounds list \<Rightarrow> nat list \<Rightarrow> nat list" where
  "block_mins \<equiv> map2 block_min"

lemma extents_pos: "inside_all rs xs \<Longrightarrow> 0 < extents rs"
  by (induction rs xs rule: list_all2_induct) (auto simp: inside_def)

lemma volume_pos: "inside_all rs xs \<Longrightarrow> 0 < volume rs xs"
  by (induction rs xs rule: list_all2_induct) (simp_all add: block_min_max)

lemma inner_less: "inside_all rs xs \<Longrightarrow> inner_off rs xs < volume rs xs"
proof (induction rs xs rule: list_all2_induct)
  case (Cons r rs x xs)
  have "(x - block_min r x) * volume rs xs + inner_off rs xs < (x - block_min r x) * volume rs xs + volume rs xs" using Cons by simp
  also have "\<dots> = Suc (x - block_min r x) * volume rs xs" by simp
  also have "\<dots> \<le> block_width r x * volume rs xs"
    using block_min_max [OF Cons.hyps(1)] by (intro mult_le_mono1) (simp add: block_width_def)
  finally show ?case by simp
qed simp

lemma block_off_less:
  "inside_all rs xs \<Longrightarrow> t < s * volume rs xs \<Longrightarrow> block_off rs xs s + t < extents rs * s"
proof (induction rs xs arbitrary: s rule: list_all2_induct)
  case (Cons r rs x xs)
  note b = block_min_max [OF Cons.hyps(1)]
  have "block_off rs xs (s * block_width r x) + t < extents rs * (s * block_width r x)" using Cons.IH Cons.prems by (simp add: mult.assoc)
  then have "block_off (r # rs) (x # xs) s + t < (block_min r x - fst r) * extents rs * s + extents rs * (s * block_width r x)" by simp
  also have "\<dots> = (block_min r x - fst r + block_width r x) * (extents rs * s)" by (simp add: algebra_simps)
  also have "\<dots> \<le> (snd r - fst r) * (extents rs * s)" using b by (intro mult_le_mono1) simp
  finally show ?case by simp
qed simp

text \<open>From an offset to the first element of the block, its extents and the remaining offset, and to the element.\<close>

primrec block_at :: "bounds list \<Rightarrow> nat \<Rightarrow> nat \<Rightarrow> nat list \<times> nat list \<times> nat" where
  "block_at [] s p = ([], [], p)"
| "block_at (r # rs) s p =
    (let b = max (down4 (fst r + p div (extents rs * s))) (fst r); w = min (down4 (b + 4)) (snd r) - b;
         (bs, ws, p) = block_at rs (s * w) (p - (b - fst r) * (extents rs * s))
     in (b # bs, w # ws, p))"

fun inner_at :: "nat list \<Rightarrow> nat list \<Rightarrow> nat \<Rightarrow> nat list" where
  "inner_at (b # bs) (w # ws) p = (let x = b + p div prod_list ws in x # inner_at bs ws (p - (x - b) * prod_list ws))"
| "inner_at _ _ p = []"

definition elem_at :: "bounds list \<Rightarrow> nat \<Rightarrow> nat list" where
  "elem_at rs p = (case block_at rs 1 p of (bs, ws, p) \<Rightarrow> inner_at bs ws p)"

lemma block_at_off:
  "inside_all rs xs \<Longrightarrow> t < s * volume rs xs \<Longrightarrow> block_at rs s (block_off rs xs s + t) = (block_mins rs xs, map2 block_width rs xs, t)"
proof (induction rs xs arbitrary: s rule: list_all2_induct)
  case (Cons r rs x xs)
  note b = block_min_max [OF Cons.hyps(1)]
  let ?R = "block_off rs xs (s * block_width r x) + t" and ?n = "extents rs * s" and ?d = "block_min r x - fst r"
  have t: "t < s * block_width r x * volume rs xs" using Cons.prems by (simp add: mult.assoc)
  have n: "0 < ?n" using extents_pos [OF Cons.hyps(2)] Cons.prems by (cases s) simp_all
  have "?R < block_width r x * ?n" using block_off_less [OF Cons.hyps(2) t] by (simp only: ac_simps)
  then have q: "?R div ?n < block_width r x" by (rule less_mult_imp_div_less)
  have p: "block_off (r # rs) (x # xs) s + t = ?d * ?n + ?R" by (simp only: block_off.simps mult.assoc add.assoc)
  have "(?d * ?n + ?R) div ?n = ?d + ?R div ?n" using n by (intro div_mult_self3) simp
  then have e: "fst r + (?d * ?n + ?R) div ?n = block_min r x + ?R div ?n" using b(1) by linarith
  have "block_min r (block_min r x + ?R div ?n) = block_min r x" using q b by (intro same_block(2) [OF Cons.hyps(1)]) linarith+
  then have m: "max (down4 (fst r + (?d * ?n + ?R) div ?n)) (fst r) = block_min r x" unfolding e by (simp only: block_min_def)
  have w: "min (down4 (block_min r x + 4)) (snd r) - block_min r x = block_width r x" by (simp only: block_width_def block_max_def)
  have r: "?d * ?n + ?R - ?d * ?n = ?R" by (rule add_diff_cancel_left')
  show ?case unfolding p block_at.simps Let_def m w r Cons.IH [OF t] by simp
qed simp

lemma block_of_min:
  assumes "inside r x"
  shows "inside r (block_min r x)" "block_min r (block_min r x) = block_min r x" "block_width r (block_min r x) = block_width r x"
  using same_block [OF assms, of "block_min r x"] block_min_max [OF assms] by simp_all

lemma volume_mins: "inside_all rs xs \<Longrightarrow> volume rs (block_mins rs xs) = volume rs xs"
  by (induction rs xs rule: list_all2_induct) (simp_all add: block_of_min)

lemma volume_widths: "length xs = length rs \<Longrightarrow> prod_list (map2 block_width rs xs) = volume rs xs"
  by (induction xs rs rule: list_induct2) simp_all

lemma inner_at_off: "inside_all rs xs \<Longrightarrow> inner_at (block_mins rs xs) (map2 block_width rs xs) (inner_off rs xs) = xs"
proof (induction rs xs rule: list_all2_induct)
  case (Cons r rs x xs)
  have "((x - block_min r x) * volume rs xs + inner_off rs xs) div volume rs xs = x - block_min r x"
    using inner_less [OF Cons.hyps(2)] by simp
  then show ?case using Cons block_min_max [OF Cons.hyps(1)] list_all2_lengthD [OF Cons.hyps(2)] by (simp add: Let_def volume_widths)
qed simp

section \<open>Steps of lists of indices\<close>

text \<open>The next element of the block, or the first one with a carry; the first element of the next block from that of a block.\<close>

fun inner_inc :: "bounds list \<Rightarrow> nat list \<Rightarrow> nat list \<times> bool" where
  "inner_inc (r # rs) (x # xs) =
    (let (ys, c) = inner_inc rs xs
     in if c then let x = x + 1 in if x mod 4 = 0 \<or> x = snd r then (max (down4 (x - 1)) (fst r) # ys, True) else (x # ys, False)
        else (x # ys, False))"
| "inner_inc _ _ = ([], True)"

fun block_inc :: "bounds list \<Rightarrow> nat list \<Rightarrow> nat list \<times> bool" where
  "block_inc (r # rs) (x # xs) =
    (let (ys, c) = block_inc rs xs
     in if c then let x = down4 (x + 4) in if x \<ge> snd r then (fst r # ys, True) else (x # ys, False)
        else (x # ys, False))"
| "block_inc _ _ = ([], True)"

fun last_pos :: "bounds list \<Rightarrow> nat list" where
  "last_pos (r # rs) = snd r # map fst rs"
| "last_pos [] = []"

definition step_inc :: "bounds list \<Rightarrow> nat list \<Rightarrow> nat list" where
  "step_inc rs xs =
    (let (ys, c) = inner_inc rs xs
     in if c then let (zs, c) = block_inc rs ys in if c then last_pos rs else zs else ys)"

definition elem_off :: "bounds list \<Rightarrow> nat list \<Rightarrow> nat" where
  "elem_off rs xs = block_off rs xs 1 + inner_off rs xs"

lemma inner_inc_off:
  "inside_all rs xs \<Longrightarrow> (case inner_inc rs xs of
     (ys, False) \<Rightarrow> inside_all rs ys \<and> block_mins rs ys = block_mins rs xs \<and> volume rs ys = volume rs xs \<and> inner_off rs ys = inner_off rs xs + 1
   | (ys, True) \<Rightarrow> ys = block_mins rs xs \<and> inner_off rs xs + 1 = volume rs xs)"
proof (induction rs xs rule: list_all2_induct)
  case (Cons r rs x xs)
  note b = block_min_max [OF Cons.hyps(1)]
  obtain ys c where i: "inner_inc rs xs = (ys, c)" by fastforce
  show ?case
  proof (cases c)
    case True
    then have y: "ys = block_mins rs xs" "inner_off rs xs + 1 = volume rs xs" using Cons.IH i by simp_all
    show ?thesis
    proof (cases "x + 1 = block_max r x")
      case True
      then have "x + 1 - block_min r x = block_width r x" using b by (simp add: block_width_def)
      then have "(x - block_min r x) * volume rs xs + inner_off rs xs + 1 = block_width r x * volume rs xs"
        using y(2) b by (metis Suc_diff_le Suc_eq_plus1 add.assoc add.commute mult_Suc)
      moreover have "max (down4 (block_max r x - Suc 0)) (fst r) = block_min r x" unfolding True [symmetric] by (simp add: block_min_def)
      ultimately show ?thesis using i \<open>c\<close> y(1) True block_last [OF Cons.hyps(1)] by simp
    next
      case False
      then have l: "block_min r x \<le> x + 1" "x + 1 < block_max r x" using b by simp_all
      note s = same_block [OF Cons.hyps(1) l]
      have in': "inside_all rs ys" "volume rs ys = volume rs xs" "block_mins rs ys = block_mins rs xs"
        using Cons.hyps(2) unfolding y(1)
        by (auto simp: volume_mins list_all2_conv_all_nth block_of_min intro!: nth_equalityI)
      have off: "inner_off rs ys = 0" using Cons.hyps(2) unfolding y(1)
        by (induction rs xs rule: list_all2_induct) (simp_all add: block_of_min)
      have "(x + 1 - block_min r x) * volume rs xs = (x - block_min r x) * volume rs xs + inner_off rs xs + 1"
        using y(2) b by (metis Suc_diff_le Suc_eq_plus1 add.assoc add.commute mult_Suc)
      then show ?thesis using i \<open>c\<close> False block_last [OF Cons.hyps(1)] s in' off by simp
    qed
  qed (use Cons i in simp)
qed simp

lemma block_inc_off:
  "inside_all rs xs \<Longrightarrow> xs = block_mins rs xs \<Longrightarrow> (case block_inc rs xs of
     (ys, False) \<Rightarrow> inside_all rs ys \<and> ys = block_mins rs ys \<and> block_off rs ys s = block_off rs xs s + s * volume rs xs
   | (ys, True) \<Rightarrow> ys = map fst rs \<and> block_off rs xs s + s * volume rs xs = extents rs * s)"
proof (induction rs xs arbitrary: s rule: list_all2_induct)
  case (Cons r rs x xs)
  then have m: "x = block_min r x" "xs = block_mins rs xs" by simp_all
  note b = block_min_max [OF Cons.hyps(1)]
  obtain ys c where i: "block_inc rs xs = (ys, c)" by fastforce
  show ?case
  proof (cases c)
    case True
    then have y: "ys = map fst rs" "block_off rs xs t + t * volume rs xs = extents rs * t" for t
      using Cons.IH [OF m(2)] i by simp_all
    have w: "block_off (r # rs) (x # xs) s + s * volume (r # rs) (x # xs) = (block_max r x - fst r) * (extents rs * s)"
    proof -
      have "block_off (r # rs) (x # xs) s + s * volume (r # rs) (x # xs) =
          (block_min r x - fst r) * (extents rs * s) + (block_off rs xs (s * block_width r x) + s * block_width r x * volume rs xs)" by simp
      also have "\<dots> = (block_min r x - fst r + block_width r x) * (extents rs * s)" unfolding y(2) by (simp add: algebra_simps)
      finally show ?thesis using b by simp
    qed
    show ?thesis
    proof (cases "down4 (x + 4) < snd r")
      case False
      then have "block_max r x = snd r" using next_block(2) [OF Cons.hyps(1) m(1)] by simp
      then show ?thesis using i \<open>c\<close> y(1) w False by (simp add: Let_def)
    next
      case lt: True
      note n = next_block(1) [OF Cons.hyps(1) m(1) lt]
      have r: "list_all2 (\<lambda>r x. inside r x) rs (map fst rs)" "map fst rs = block_mins rs (map fst rs)" "block_off rs (map fst rs) t = 0" for t
        using Cons.hyps(2)
        by (induction rs xs arbitrary: t rule: list_all2_induct) (simp_all add: inside_def block_min_def down4_div)
      show ?thesis using i \<open>c\<close> y(1) w lt n r by (simp add: Let_def)
    qed
  qed (use Cons.IH [OF m(2), of "s * block_width r x"] Cons.hyps m i in \<open>simp add: algebra_simps\<close>)
qed simp

text \<open>An element as the first one of its block.\<close>

lemma mins_elem:
  assumes "inside_all rs xs"
  shows "inside_all rs (block_mins rs xs)" "block_mins rs (block_mins rs xs) = block_mins rs xs" "block_off rs (block_mins rs xs) s = block_off rs xs s"
    "inner_off rs (block_mins rs xs) = 0"
  using assms by (induction rs xs arbitrary: s rule: list_all2_induct) (simp_all add: block_of_min)

lemma block_off_mins: "inside_all rs xs \<Longrightarrow> inside_all rs ys \<Longrightarrow> block_mins rs ys = block_mins rs xs \<Longrightarrow> block_off rs ys s = block_off rs xs s"
  using mins_elem(3) by metis

lemma elem_off_less: "inside_all rs xs \<Longrightarrow> elem_off rs xs < extents rs"
  using block_off_less [of rs xs "inner_off rs xs" 1] inner_less [of rs xs] by (simp add: elem_off_def)

lemma step_inc_off:
  assumes "inside_all rs xs"
  shows "(inside_all rs (step_inc rs xs) \<and> elem_off rs (step_inc rs xs) = elem_off rs xs + 1) \<or>
    (step_inc rs xs = last_pos rs \<and> elem_off rs xs + 1 = extents rs)"
proof -
  obtain ys c where i: "inner_inc rs xs = (ys, c)" by fastforce
  note I = inner_inc_off [OF assms, unfolded i]
  show ?thesis
  proof (cases c)
    case False
    then have y: "inside_all rs ys" "block_mins rs ys = block_mins rs xs" "inner_off rs ys = inner_off rs xs + 1" using I by simp_all
    then show ?thesis using i False block_off_mins [OF assms y(1,2)] by (simp add: step_inc_def elem_off_def)
  next
    case True
    then have y: "ys = block_mins rs xs" "inner_off rs xs + 1 = volume rs xs" using I by simp_all
    note m = mins_elem [OF assms]
    obtain zs d where j: "block_inc rs ys = (zs, d)" by fastforce
    note J = block_inc_off [OF m(1) m(2) [symmetric], of 1, folded y(1), unfolded j]
    have v: "volume rs ys = volume rs xs" "block_off rs ys s = block_off rs xs s" for s
      using m(3) volume_mins [OF assms] by (simp_all add: y(1))
    show ?thesis
    proof (cases d)
      case False
      then have z: "inside_all rs zs" "zs = block_mins rs zs" "block_off rs zs 1 = block_off rs xs 1 + volume rs xs" using J v by simp_all
      then have "inner_off rs zs = 0" using mins_elem(4) [OF z(1)] by simp
      then show ?thesis using i j True False y(2) z by (simp add: step_inc_def elem_off_def)
    next
      case d: True
      then show ?thesis using J v i j True y(2) by (simp add: step_inc_def elem_off_def)
    qed
  qed
qed

text \<open>The previous element: with a borrow along an axis, the index is the one after the wanted element, and is decremented at the end.\<close>

fun inner_dec :: "bounds list \<Rightarrow> nat list \<Rightarrow> nat list \<times> bool" where
  "inner_dec (r # rs) (x # xs) =
    (let (ys, c) = inner_dec rs xs
     in if c then if x mod 4 = 0 \<or> x = fst r then (min (down4 (x + 4)) (snd r) # ys, True) else ((x - 1) # map (\<lambda>y. y - 1) ys, False)
        else (x # ys, False))"
| "inner_dec _ _ = ([], True)"

fun block_dec :: "bounds list \<Rightarrow> nat list \<Rightarrow> nat list \<times> bool" where
  "block_dec (r # rs) (x # xs) =
    (let (ys, c) = block_dec rs xs
     in if c then let x = down4 (x - 1) in if x \<le> fst r then (snd r # ys, True) else (x # ys, False)
        else (x # ys, False))"
| "block_dec _ _ = ([], True)"

definition step_dec :: "bounds list \<Rightarrow> nat list \<Rightarrow> nat list" where
  "step_dec rs xs =
    (let (ys, c) = inner_dec rs xs
     in if c then let (zs, c) = block_dec rs ys in map (\<lambda>x. x - 1) (if c then fst (hd rs) # tl zs else zs) else ys)"

abbreviation block_maxs :: "bounds list \<Rightarrow> nat list \<Rightarrow> nat list" where
  "block_maxs \<equiv> map2 block_max"

text \<open>The last element of a block.\<close>

lemma last_elem:
  assumes "inside_all rs xs"
  defines "ys \<equiv> map (\<lambda>x. x - 1) (block_maxs rs xs)"
  shows "inside_all rs ys" "block_mins rs ys = block_mins rs xs" "volume rs ys = volume rs xs" "inner_off rs ys + 1 = volume rs xs"
proof -
  have l: "inside r (block_max r x - 1)" "block_min r (block_max r x - 1) = block_min r x" "block_width r (block_max r x - 1) = block_width r x"
    "block_max r x - 1 - block_min r x + 1 = block_width r x" if "inside r x" for r x
    using same_block [OF that, of "block_max r x - 1"] block_min_max [OF that] by simp_all
  have "inside_all rs (map (\<lambda>x. x - 1) (block_maxs rs xs)) \<and> block_mins rs (map (\<lambda>x. x - 1) (block_maxs rs xs)) = block_mins rs xs \<and>
    volume rs (map (\<lambda>x. x - 1) (block_maxs rs xs)) = volume rs xs \<and> inner_off rs (map (\<lambda>x. x - 1) (block_maxs rs xs)) + 1 = volume rs xs"
    using assms(1)
  proof (induction rs xs rule: list_all2_induct)
    case (Cons r rs x xs)
    have "(block_max r x - 1 - block_min r x) * volume rs xs + volume rs xs = block_width r x * volume rs xs"
      using l(4) [OF Cons.hyps(1)] by (metis add.commute mult_Suc plus_1_eq_Suc)
    then show ?case using Cons.IH l(1-3) [OF Cons.hyps(1)] by simp
  qed simp
  then show "inside_all rs ys" "block_mins rs ys = block_mins rs xs" "volume rs ys = volume rs xs" "inner_off rs ys + 1 = volume rs xs"
    unfolding ys_def by blast+
qed

lemma inner_dec_off:
  "inside_all rs xs \<Longrightarrow> (case inner_dec rs xs of
     (ys, False) \<Rightarrow> inside_all rs ys \<and> block_mins rs ys = block_mins rs xs \<and> inner_off rs ys + 1 = inner_off rs xs
   | (ys, True) \<Rightarrow> ys = block_maxs rs xs \<and> xs = block_mins rs xs)"
proof (induction rs xs rule: list_all2_induct)
  case (Cons r rs x xs)
  note b = block_min_max [OF Cons.hyps(1)]
  obtain ys c where i: "inner_dec rs xs = (ys, c)" by fastforce
  show ?case
  proof (cases c)
    case True
    then have y: "ys = block_maxs rs xs" "xs = block_mins rs xs" using Cons.IH i by simp_all
    show ?thesis
    proof (cases "x = block_min r x")
      case True
      then show ?thesis using i \<open>c\<close> y block_first [OF Cons.hyps(1)] by simp
    next
      case False
      then have l: "block_min r x \<le> x - 1" "x - 1 < block_max r x" "x - 1 - block_min r x + 1 = x - block_min r x" using b by simp_all
      note s = same_block [OF Cons.hyps(1) l(1,2)] and e = last_elem [OF Cons.hyps(2), folded y(1)]
      have "inner_off rs xs = 0" using mins_elem(4) [OF Cons.hyps(2)] y(2) by simp
      moreover have "(x - 1 - block_min r x) * volume rs xs + volume rs xs = (x - block_min r x) * volume rs xs"
        using l(3) by (metis add.commute mult_Suc plus_1_eq_Suc)
      ultimately show ?thesis using i \<open>c\<close> False block_first(1) [OF Cons.hyps(1)] s e by simp
    qed
  next
    case False
    then have y: "inside_all rs ys" "block_mins rs ys = block_mins rs xs" "inner_off rs ys + 1 = inner_off rs xs" using Cons.IH i by simp_all
    then have "volume rs ys = volume rs xs" using volume_mins [OF y(1)] volume_mins [OF Cons.hyps(2)] by simp
    then show ?thesis using i False y Cons.hyps(1) by simp
  qed
qed simp

lemma top_elem:
  assumes "inside_all rs xs"
  defines "ts \<equiv> map (\<lambda>r. snd r - 1) rs"
  shows "inside_all rs ts" "block_maxs rs ts = map snd rs" "block_off rs ts t + t * volume rs ts = extents rs * t"
proof -
  have "inside r (snd r - 1) \<and> block_max r (snd r - 1) = snd r" if "inside r x" for r x
  proof -
    have i: "inside r (snd r - 1)" using that by (auto simp: inside_def)
    show ?thesis using i block_min_max(3,4) [OF i] by simp
  qed
  with assms(1) have "inside_all rs (map (\<lambda>r. snd r - 1) rs) \<and> block_maxs rs (map (\<lambda>r. snd r - 1) rs) = map snd rs \<and>
    (\<forall>t. block_off rs (map (\<lambda>r. snd r - 1) rs) t + t * volume rs (map (\<lambda>r. snd r - 1) rs) = extents rs * t)"
  proof (induction rs xs rule: list_all2_induct)
    case (Cons r rs x xs)
    have i: "inside r (snd r - 1)" "block_max r (snd r - 1) = snd r" using Cons.hyps(1) Cons.prems by blast+
    note b = block_min_max [OF i(1)]
    have IH: "block_off rs (map (\<lambda>r. snd r - 1) rs) t + t * volume rs (map (\<lambda>r. snd r - 1) rs) = extents rs * t" for t
      using Cons.IH Cons.prems by blast
    let ?m = "block_min r (snd r - 1)" and ?w = "block_width r (snd r - 1)"
    have "(?m - fst r) * extents rs * t + block_off rs (map (\<lambda>r. snd r - 1) rs) (t * ?w) + t * (?w * volume rs (map (\<lambda>r. snd r - 1) rs)) =
      (snd r - fst r) * extents rs * t" for t
    proof -
      have "(?m - fst r) * extents rs * t + block_off rs (map (\<lambda>r. snd r - 1) rs) (t * ?w) + t * (?w * volume rs (map (\<lambda>r. snd r - 1) rs)) =
        (?m - fst r) * extents rs * t + extents rs * (t * ?w)" unfolding IH [symmetric] by simp
      also have "\<dots> = (?m - fst r + ?w) * extents rs * t" by (simp add: algebra_simps)
      finally show ?thesis using b i(2) by simp
    qed
    then show ?case using Cons.IH Cons.prems i by simp
  qed simp
  then show "inside_all rs ts" "block_maxs rs ts = map snd rs" "block_off rs ts t + t * volume rs ts = extents rs * t"
    unfolding ts_def by blast+
qed

lemma first_elem:
  assumes "inside_all rs xs"
  shows "inside_all rs (map fst rs)" "block_off rs (map fst rs) t = 0" "inner_off rs (map fst rs) = 0"
  using assms by (induction rs xs arbitrary: t rule: list_all2_induct) (simp_all add: inside_def block_min_def down4_div)

lemma block_dec_off:
  "inside_all rs xs \<Longrightarrow> xs = block_mins rs xs \<Longrightarrow> (case block_dec rs (block_maxs rs xs) of
     (ys, False) \<Rightarrow> \<exists>zs. inside_all rs zs \<and> ys = block_maxs rs zs \<and> (\<forall>s. block_off rs zs s + s * volume rs zs = block_off rs xs s)
   | (ys, True) \<Rightarrow> ys = map snd rs \<and> xs = map fst rs)"
proof (induction rs xs rule: list_all2_induct)
  case (Cons r rs x xs)
  then have m: "x = block_min r x" "xs = block_mins rs xs" by simp_all
  note b = block_min_max [OF Cons.hyps(1)] and p = previous_block [OF Cons.hyps(1) m(1)]
  obtain ys c where i: "block_dec rs (block_maxs rs xs) = (ys, c)" by fastforce
  show ?case
  proof (cases c)
    case True
    then have y: "ys = map snd rs" "xs = map fst rs" using Cons.IH [OF m(2)] i by simp_all
    show ?thesis
    proof (cases "x = fst r")
      case True
      then show ?thesis using i \<open>c\<close> y p(1) by (simp add: Let_def)
    next
      case False
      let ?z = "x - 1" and ?ts = "map (\<lambda>r. snd r - 1) rs"
      note z = p(3) [OF False] and t = top_elem [OF Cons.hyps(2)]
      have zb: "block_min r ?z + block_width r ?z = x" "fst r \<le> block_min r ?z" using block_min_max [of r ?z] z by simp_all
      have "block_off (r # rs) (?z # ?ts) s + s * volume (r # rs) (?z # ?ts) = block_off (r # rs) (x # xs) s" for s
      proof -
        have "block_off (r # rs) (?z # ?ts) s + s * volume (r # rs) (?z # ?ts) =
          (block_min r ?z - fst r) * extents rs * s + (block_off rs ?ts (s * block_width r ?z) + s * block_width r ?z * volume rs ?ts)" by simp
        also have "\<dots> = (block_min r ?z - fst r + block_width r ?z) * extents rs * s" unfolding t(3) by (simp add: algebra_simps)
        also have "\<dots> = (x - fst r) * extents rs * s" using zb by simp
        finally show ?thesis using first_elem(2) [OF Cons.hyps(2)] m(1) by (simp add: y(2))
      qed
      moreover have "inside_all (r # rs) (?z # ?ts)" "block_maxs (r # rs) (?z # ?ts) = x # ys" using z t(1,2) y(1) by simp_all
      ultimately have "\<exists>zs. inside_all (r # rs) zs \<and> x # ys = block_maxs (r # rs) zs \<and>
        (\<forall>s. block_off (r # rs) zs s + s * volume (r # rs) zs = block_off (r # rs) (x # xs) s)" by metis
      then show ?thesis using i \<open>c\<close> False p(1,2) by (simp add: Let_def)
    qed
  next
    case False
    then obtain zs where z: "inside_all rs zs" "ys = block_maxs rs zs" "\<And>s. block_off rs zs s + s * volume rs zs = block_off rs xs s"
      using Cons.IH [OF m(2)] i by auto
    have "block_off (r # rs) (x # zs) s + s * volume (r # rs) (x # zs) = block_off (r # rs) (x # xs) s" for s
      using z(3) [of "s * block_width r x"] by (simp add: mult.assoc)
    then have "\<exists>ws. inside_all (r # rs) ws \<and> block_max r x # ys = block_maxs (r # rs) ws \<and>
        (\<forall>s. block_off (r # rs) ws s + s * volume (r # rs) ws = block_off (r # rs) (x # xs) s)"
      using z(1,2) Cons.hyps(1) by (intro exI [of _ "x # zs"]) simp
    then show ?thesis using i False by simp
  qed
qed simp

lemma step_dec_off:
  assumes "inside_all rs xs" "xs \<noteq> map fst rs"
  shows "inside_all rs (step_dec rs xs)" "elem_off rs (step_dec rs xs) + 1 = elem_off rs xs"
proof -
  obtain ys c where i: "inner_dec rs xs = (ys, c)" by fastforce
  note I = inner_dec_off [OF assms(1), unfolded i]
  have "inside_all rs (step_dec rs xs) \<and> elem_off rs (step_dec rs xs) + 1 = elem_off rs xs"
  proof (cases c)
    case False
    then have y: "inside_all rs ys" "block_mins rs ys = block_mins rs xs" "inner_off rs ys + 1 = inner_off rs xs" using I by simp_all
    then show ?thesis using i False block_off_mins [OF assms(1) y(1,2)] by (simp add: step_dec_def elem_off_def)
  next
    case True
    then have y: "ys = block_maxs rs xs" "xs = block_mins rs xs" using I by simp_all
    obtain zs d where j: "block_dec rs ys = (zs, d)" by fastforce
    note J = block_dec_off [OF assms(1) y(2), folded y(1), unfolded j]
    have "\<not> d" using J assms(2) by auto
    then obtain ws where w: "inside_all rs ws" "zs = block_maxs rs ws" "\<forall>s. block_off rs ws s + s * volume rs ws = block_off rs xs s"
      using J by auto
    note l = last_elem [OF w(1), folded w(2)]
    have "inner_off rs xs = 0" using mins_elem(4) [OF assms(1)] y(2) by simp
    then show ?thesis using i j True \<open>\<not> d\<close> w(3) [rule_format, of 1] l block_off_mins [OF w(1) l(1,2)] by (simp add: step_dec_def elem_off_def)
  qed
  then show "inside_all rs (step_dec rs xs)" "elem_off rs (step_dec rs xs) + 1 = elem_off rs xs" by simp_all
qed

lemma top_off: "inside_all rs xs \<Longrightarrow> elem_off rs (map (\<lambda>r. snd r - 1) rs) + 1 = extents rs"
proof -
  assume i: "inside_all rs xs"
  note t = top_elem [OF i]
  have e: "map (\<lambda>x. x - 1) (block_maxs rs (map (\<lambda>r. snd r - 1) rs)) = map (\<lambda>r. snd r - 1) rs" unfolding t(2) by simp
  show ?thesis using last_elem(4) [OF t(1)] t(3) [of 1] unfolding e by (simp add: elem_off_def)
qed

section \<open>The iterators\<close>

lemma elem_at_off: "inside_all rs xs \<Longrightarrow> elem_at rs (elem_off rs xs) = xs"
  using block_at_off [of rs xs "inner_off rs xs" 1] inner_less [of rs xs] by (simp add: elem_at_def elem_off_def inner_at_off)

text \<open>One step from an offset to the block along one axis, with the number of elements of a slice of the blocks as \<open>n\<close>.\<close>

lemma block_step:
  assumes "inside_all ((lo, hi) # rs) (x # xs)" "t < s * volume ((lo, hi) # rs) (x # xs)" "n = extents rs * s" "v = s * block_width (lo, hi) x"
  shows "max (down4 (lo + (block_off ((lo, hi) # rs) (x # xs) s + t) div n)) lo = block_min (lo, hi) x"
    "block_off ((lo, hi) # rs) (x # xs) s + t - (block_min (lo, hi) x - lo) * n = block_off rs xs v + t"
    "min (down4 (block_min (lo, hi) x + 4)) hi - block_min (lo, hi) x = block_width (lo, hi) x"
proof -
  note a = block_at_off [OF assms(1,2)]
  show w: "min (down4 (block_min (lo, hi) x + 4)) hi - block_min (lo, hi) x = block_width (lo, hi) x" by (simp add: block_width_def block_max_def)
  show "max (down4 (lo + (block_off ((lo, hi) # rs) (x # xs) s + t) div n)) lo = block_min (lo, hi) x"
    using a unfolding assms(3) by (simp add: Let_def split_def del: block_off.simps)
  show "block_off ((lo, hi) # rs) (x # xs) s + t - (block_min (lo, hi) x - lo) * n = block_off rs xs v + t"
    unfolding assms(3,4) by (simp add: mult.assoc)
qed

lemma inner_step:
  assumes "inside_all ((lo, hi) # rs) (x # xs)" "v = volume rs xs"
  shows "block_min (lo, hi) x + inner_off ((lo, hi) # rs) (x # xs) div v = x"
    "inner_off ((lo, hi) # rs) (x # xs) - (x - block_min (lo, hi) x) * v = inner_off rs xs"
  using inner_less [of rs xs] block_min_max [of "(lo, hi)" x] assms by simp_all

lemma iterator2_index_off:
  assumes i: "inside_all [(ymin, ymax), (xmin, xmax)] [y, x]"
  shows "iterator2_index (xmin, xmax) (ymin, ymax) (elem_off [(ymin, ymax), (xmin, xmax)] [y, x]) = (x, y)"
proof -
  let ?x = "(xmin, xmax)" and ?y = "(ymin, ymax)"
  let ?t = "inner_off [?y, ?x] [y, x]" and ?mx = "xmax - xmin"
  let ?sx = "block_width ?x x" and ?sy = "block_width ?y y"
  have i': "inside_all [?x] [x]" using i by simp_all
  have t: "?t < 1 * volume [?y, ?x] [y, x]" "?t < ?sy * volume [?x] [x]"
    using inner_less [OF i] by (simp_all add: ac_simps)
  have ne: "block_off [?y, ?x] [y, x] 1 + ?t \<noteq> (xmax - xmin) * (ymax - ymin)" using elem_off_less [OF i] by (simp add: elem_off_def ac_simps)
  have n: "?mx = extents [?x] * 1" "?sy = extents [] * ?sy"
    by (simp_all add: ac_simps)
  have v: "?sy = 1 * ?sy" "?sy * ?sx = ?sy * ?sx" by simp_all
  have u: "?sx = volume [?x] [x]" by (simp_all add: ac_simps)
  have z: "block_off [] [] (?sy * ?sx) + ?t = ?t" "block_min ?x x + inner_off [?x] [x] = x" using block_min_max [of ?x x] i by simp_all
  note b = block_step [OF i t(1) n(1) v(1)]
    block_step [OF i' t(2) n(2) v(2)]
  note e = inner_step [OF i u]
  show ?thesis by (simp only: iterator2_index_def prod.case Let_def elem_off_def ne if_False b e z)
qed

lemma iterator3_index_off:
  assumes i: "inside_all [(zmin, zmax), (ymin, ymax), (xmin, xmax)] [z, y, x]"
  shows "iterator3_index (xmin, xmax) (ymin, ymax) (zmin, zmax) (elem_off [(zmin, zmax), (ymin, ymax), (xmin, xmax)] [z, y, x]) = (x, y, z)"
proof -
  let ?x = "(xmin, xmax)" and ?y = "(ymin, ymax)" and ?z = "(zmin, zmax)"
  let ?t = "inner_off [?z, ?y, ?x] [z, y, x]" and ?mx = "xmax - xmin" and ?my = "ymax - ymin"
  let ?sx = "block_width ?x x" and ?sy = "block_width ?y y" and ?sz = "block_width ?z z"
  have i': "inside_all [?y, ?x] [y, x]" "inside_all [?x] [x]" using i by simp_all
  have t: "?t < 1 * volume [?z, ?y, ?x] [z, y, x]" "?t < ?sz * volume [?y, ?x] [y, x]" "?t < (?sz * ?sy) * volume [?x] [x]"
    using inner_less [OF i] by (simp_all add: ac_simps)
  have ne: "block_off [?z, ?y, ?x] [z, y, x] 1 + ?t \<noteq> (xmax - xmin) * (ymax - ymin) * (zmax - zmin)" using elem_off_less [OF i] by (simp add: elem_off_def ac_simps)
  have n: "?mx * ?my = extents [?y, ?x] * 1" "?mx * ?sz = extents [?x] * ?sz" "?sy * ?sz = extents [] * (?sz * ?sy)"
    by (simp_all add: ac_simps)
  have v: "?sz = 1 * ?sz" "?sz * ?sy = ?sz * ?sy" "?sz * ?sy * ?sx = (?sz * ?sy) * ?sx" by simp_all
  have u: "?sx * ?sy = volume [?y, ?x] [y, x]" "?sx = volume [?x] [x]" by (simp_all add: ac_simps)
  have z: "block_off [] [] (?sz * ?sy * ?sx) + ?t = ?t" "block_min ?x x + inner_off [?x] [x] = x" using block_min_max [of ?x x] i by simp_all
  note b = block_step [OF i t(1) n(1) v(1)]
    block_step [OF i'(1) t(2) n(2) v(2)]
    block_step [OF i'(2) t(3) n(3) v(3)]
  note e = inner_step [OF i u(1)] inner_step [OF i'(1) u(2)]
  show ?thesis by (simp only: iterator3_index_def prod.case Let_def elem_off_def ne if_False b e z)
qed

lemma iterator4_index_off:
  assumes i: "inside_all [(wmin, wmax), (zmin, zmax), (ymin, ymax), (xmin, xmax)] [w, z, y, x]"
  shows "iterator4_index (xmin, xmax) (ymin, ymax) (zmin, zmax) (wmin, wmax) (elem_off [(wmin, wmax), (zmin, zmax), (ymin, ymax), (xmin, xmax)] [w, z, y, x]) = (x, y, z, w)"
proof -
  let ?x = "(xmin, xmax)" and ?y = "(ymin, ymax)" and ?z = "(zmin, zmax)" and ?w = "(wmin, wmax)"
  let ?t = "inner_off [?w, ?z, ?y, ?x] [w, z, y, x]" and ?mx = "xmax - xmin" and ?my = "ymax - ymin" and ?mz = "zmax - zmin"
  let ?sx = "block_width ?x x" and ?sy = "block_width ?y y" and ?sz = "block_width ?z z" and ?sw = "block_width ?w w"
  have i': "inside_all [?z, ?y, ?x] [z, y, x]" "inside_all [?y, ?x] [y, x]" "inside_all [?x] [x]" using i by simp_all
  have t: "?t < 1 * volume [?w, ?z, ?y, ?x] [w, z, y, x]" "?t < ?sw * volume [?z, ?y, ?x] [z, y, x]" "?t < (?sw * ?sz) * volume [?y, ?x] [y, x]" "?t < (?sw * ?sz * ?sy) * volume [?x] [x]"
    using inner_less [OF i] by (simp_all add: ac_simps)
  have ne: "block_off [?w, ?z, ?y, ?x] [w, z, y, x] 1 + ?t \<noteq> (xmax - xmin) * (ymax - ymin) * (zmax - zmin) * (wmax - wmin)" using elem_off_less [OF i] by (simp add: elem_off_def ac_simps)
  have n: "?mx * ?my * ?mz = extents [?z, ?y, ?x] * 1" "?mx * ?my * ?sw = extents [?y, ?x] * ?sw" "?mx * ?sz * ?sw = extents [?x] * (?sw * ?sz)" "?sy * ?sz * ?sw = extents [] * (?sw * ?sz * ?sy)"
    by (simp_all add: ac_simps)
  have v: "?sw = 1 * ?sw" "?sw * ?sz = ?sw * ?sz" "?sw * ?sz * ?sy = (?sw * ?sz) * ?sy" "?sw * ?sz * ?sy * ?sx = (?sw * ?sz * ?sy) * ?sx" by simp_all
  have u: "?sx * ?sy * ?sz = volume [?z, ?y, ?x] [z, y, x]" "?sx * ?sy = volume [?y, ?x] [y, x]" "?sx = volume [?x] [x]" by (simp_all add: ac_simps)
  have z: "block_off [] [] (?sw * ?sz * ?sy * ?sx) + ?t = ?t" "block_min ?x x + inner_off [?x] [x] = x" using block_min_max [of ?x x] i by simp_all
  note b = block_step [OF i t(1) n(1) v(1)]
    block_step [OF i'(1) t(2) n(2) v(2)]
    block_step [OF i'(2) t(3) n(3) v(3)]
    block_step [OF i'(3) t(4) n(4) v(4)]
  note e = inner_step [OF i u(1)] inner_step [OF i'(1) u(2)] inner_step [OF i'(2) u(3)]
  show ?thesis by (simp only: iterator4_index_def prod.case Let_def elem_off_def ne if_False b e z)
qed

text \<open>The classes compute what the functions on lists compute.\<close>

lemma block_formulas: "max (down4 x) lo = block_min (lo, hi) x" "min (down4 (block_min (lo, hi) x + 4)) hi - block_min (lo, hi) x = block_width (lo, hi) x"
  by (simp_all add: block_min_def block_width_def block_max_def)

lemmas offset_unfold = prod.case Let_def if_False
lemmas elem_unfold = elem_off_def block_off.simps inner_off.simps volume.simps extents.simps fst_conv snd_conv
lemmas nat_sums = of_nat_add add.assoc add.commute add.left_commute mult.assoc mult.commute mult.left_commute mult_1 mult_1_right add_0 add_0_right

lemma iterator1_offset_elem: "inside_all [q] [x] \<Longrightarrow> iterator1_offset q x d = int (elem_off [q] [x]) + d"
  using block_min_max [of q x] by (cases q) (simp add: iterator1_offset_def elem_off_def inside_def)

lemma iterator2_offset_elem:
  assumes "inside_all [(ymin, ymax), (xmin, xmax)] [y, x]"
  shows "iterator2_offset (xmin, xmax) (ymin, ymax) (x, y) d = int (elem_off [(ymin, ymax), (xmin, xmax)] [y, x]) + d"
proof -
  have "y \<noteq> ymax" using assms by (simp add: inside_def)
  then show ?thesis by (simp only: iterator2_offset_def offset_unfold
      block_formulas(1) [of x xmin xmax] block_formulas(1) [of y ymin ymax] block_formulas(2), simp only: elem_unfold nat_sums)
qed

lemma iterator3_offset_elem:
  assumes "inside_all [(zmin, zmax), (ymin, ymax), (xmin, xmax)] [z, y, x]"
  shows "iterator3_offset (xmin, xmax) (ymin, ymax) (zmin, zmax) (x, y, z) d = int (elem_off [(zmin, zmax), (ymin, ymax), (xmin, xmax)] [z, y, x]) + d"
proof -
  have "z \<noteq> zmax" using assms by (simp add: inside_def)
  then show ?thesis by (simp only: iterator3_offset_def offset_unfold
      block_formulas(1) [of x xmin xmax] block_formulas(1) [of y ymin ymax] block_formulas(1) [of z zmin zmax] block_formulas(2), simp only: elem_unfold nat_sums)
qed

lemma iterator4_offset_elem:
  assumes "inside_all [(wmin, wmax), (zmin, zmax), (ymin, ymax), (xmin, xmax)] [w, z, y, x]"
  shows "iterator4_offset (xmin, xmax) (ymin, ymax) (zmin, zmax) (wmin, wmax) (x, y, z, w) d = int (elem_off [(wmin, wmax), (zmin, zmax), (ymin, ymax), (xmin, xmax)] [w, z, y, x]) + d"
proof -
  have "w \<noteq> wmax" using assms by (simp add: inside_def)
  then show ?thesis by (simp only: iterator4_offset_def offset_unfold
      block_formulas(1) [of x xmin xmax] block_formulas(1) [of y ymin ymax] block_formulas(1) [of z zmin zmax] block_formulas(1) [of w wmin wmax] block_formulas(2), simp only: elem_unfold nat_sums)
qed

lemmas step_unfold = inner_inc.simps block_inc.simps step_inc_def inner_dec.simps block_dec.simps step_dec_def last_pos.simps
  Let_def prod.case fst_conv snd_conv list.map list.sel if_True if_False simp_thms if_cancel

lemma iterator2_increment_step:
  shows "(case iterator2_increment (xmin, xmax) (ymin, ymax) (x, y) of (x, y) \<Rightarrow> [y, x]) =
    step_inc [(ymin, ymax), (xmin, xmax)] [y, x]"
proof -
  consider "\<not> ((x + 1) mod 4 = 0 \<or> x + 1 = xmax)"
    | "(x + 1) mod 4 = 0 \<or> x + 1 = xmax" "\<not> ((y + 1) mod 4 = 0 \<or> y + 1 = ymax)"
    | "(x + 1) mod 4 = 0 \<or> x + 1 = xmax" "(y + 1) mod 4 = 0 \<or> y + 1 = ymax" "\<not> xmax \<le> down4 (max (down4 (x + 1 - 1)) xmin + 4)"
    | "(x + 1) mod 4 = 0 \<or> x + 1 = xmax" "(y + 1) mod 4 = 0 \<or> y + 1 = ymax" "xmax \<le> down4 (max (down4 (x + 1 - 1)) xmin + 4)" "\<not> ymax \<le> down4 (max (down4 (y + 1 - 1)) ymin + 4)"
    | "(x + 1) mod 4 = 0 \<or> x + 1 = xmax" "(y + 1) mod 4 = 0 \<or> y + 1 = ymax" "xmax \<le> down4 (max (down4 (x + 1 - 1)) xmin + 4)" "ymax \<le> down4 (max (down4 (y + 1 - 1)) ymin + 4)"
    by argo
  then show ?thesis by cases (simp_all only: iterator2_increment_def step_unfold)
qed

lemma iterator3_increment_step:
  shows "(case iterator3_increment (xmin, xmax) (ymin, ymax) (zmin, zmax) (x, y, z) of (x, y, z) \<Rightarrow> [z, y, x]) =
    step_inc [(zmin, zmax), (ymin, ymax), (xmin, xmax)] [z, y, x]"
proof -
  consider "\<not> ((x + 1) mod 4 = 0 \<or> x + 1 = xmax)"
    | "(x + 1) mod 4 = 0 \<or> x + 1 = xmax" "\<not> ((y + 1) mod 4 = 0 \<or> y + 1 = ymax)"
    | "(x + 1) mod 4 = 0 \<or> x + 1 = xmax" "(y + 1) mod 4 = 0 \<or> y + 1 = ymax" "\<not> ((z + 1) mod 4 = 0 \<or> z + 1 = zmax)"
    | "(x + 1) mod 4 = 0 \<or> x + 1 = xmax" "(y + 1) mod 4 = 0 \<or> y + 1 = ymax" "(z + 1) mod 4 = 0 \<or> z + 1 = zmax" "\<not> xmax \<le> down4 (max (down4 (x + 1 - 1)) xmin + 4)"
    | "(x + 1) mod 4 = 0 \<or> x + 1 = xmax" "(y + 1) mod 4 = 0 \<or> y + 1 = ymax" "(z + 1) mod 4 = 0 \<or> z + 1 = zmax" "xmax \<le> down4 (max (down4 (x + 1 - 1)) xmin + 4)" "\<not> ymax \<le> down4 (max (down4 (y + 1 - 1)) ymin + 4)"
    | "(x + 1) mod 4 = 0 \<or> x + 1 = xmax" "(y + 1) mod 4 = 0 \<or> y + 1 = ymax" "(z + 1) mod 4 = 0 \<or> z + 1 = zmax" "xmax \<le> down4 (max (down4 (x + 1 - 1)) xmin + 4)" "ymax \<le> down4 (max (down4 (y + 1 - 1)) ymin + 4)" "\<not> zmax \<le> down4 (max (down4 (z + 1 - 1)) zmin + 4)"
    | "(x + 1) mod 4 = 0 \<or> x + 1 = xmax" "(y + 1) mod 4 = 0 \<or> y + 1 = ymax" "(z + 1) mod 4 = 0 \<or> z + 1 = zmax" "xmax \<le> down4 (max (down4 (x + 1 - 1)) xmin + 4)" "ymax \<le> down4 (max (down4 (y + 1 - 1)) ymin + 4)" "zmax \<le> down4 (max (down4 (z + 1 - 1)) zmin + 4)"
    by argo
  then show ?thesis by cases (simp_all only: iterator3_increment_def step_unfold)
qed

lemma iterator4_increment_step:
  shows "(case iterator4_increment (xmin, xmax) (ymin, ymax) (zmin, zmax) (wmin, wmax) (x, y, z, w) of (x, y, z, w) \<Rightarrow> [w, z, y, x]) =
    step_inc [(wmin, wmax), (zmin, zmax), (ymin, ymax), (xmin, xmax)] [w, z, y, x]"
proof -
  consider "\<not> ((x + 1) mod 4 = 0 \<or> x + 1 = xmax)"
    | "(x + 1) mod 4 = 0 \<or> x + 1 = xmax" "\<not> ((y + 1) mod 4 = 0 \<or> y + 1 = ymax)"
    | "(x + 1) mod 4 = 0 \<or> x + 1 = xmax" "(y + 1) mod 4 = 0 \<or> y + 1 = ymax" "\<not> ((z + 1) mod 4 = 0 \<or> z + 1 = zmax)"
    | "(x + 1) mod 4 = 0 \<or> x + 1 = xmax" "(y + 1) mod 4 = 0 \<or> y + 1 = ymax" "(z + 1) mod 4 = 0 \<or> z + 1 = zmax" "\<not> ((w + 1) mod 4 = 0 \<or> w + 1 = wmax)"
    | "(x + 1) mod 4 = 0 \<or> x + 1 = xmax" "(y + 1) mod 4 = 0 \<or> y + 1 = ymax" "(z + 1) mod 4 = 0 \<or> z + 1 = zmax" "(w + 1) mod 4 = 0 \<or> w + 1 = wmax" "\<not> xmax \<le> down4 (max (down4 (x + 1 - 1)) xmin + 4)"
    | "(x + 1) mod 4 = 0 \<or> x + 1 = xmax" "(y + 1) mod 4 = 0 \<or> y + 1 = ymax" "(z + 1) mod 4 = 0 \<or> z + 1 = zmax" "(w + 1) mod 4 = 0 \<or> w + 1 = wmax" "xmax \<le> down4 (max (down4 (x + 1 - 1)) xmin + 4)" "\<not> ymax \<le> down4 (max (down4 (y + 1 - 1)) ymin + 4)"
    | "(x + 1) mod 4 = 0 \<or> x + 1 = xmax" "(y + 1) mod 4 = 0 \<or> y + 1 = ymax" "(z + 1) mod 4 = 0 \<or> z + 1 = zmax" "(w + 1) mod 4 = 0 \<or> w + 1 = wmax" "xmax \<le> down4 (max (down4 (x + 1 - 1)) xmin + 4)" "ymax \<le> down4 (max (down4 (y + 1 - 1)) ymin + 4)" "\<not> zmax \<le> down4 (max (down4 (z + 1 - 1)) zmin + 4)"
    | "(x + 1) mod 4 = 0 \<or> x + 1 = xmax" "(y + 1) mod 4 = 0 \<or> y + 1 = ymax" "(z + 1) mod 4 = 0 \<or> z + 1 = zmax" "(w + 1) mod 4 = 0 \<or> w + 1 = wmax" "xmax \<le> down4 (max (down4 (x + 1 - 1)) xmin + 4)" "ymax \<le> down4 (max (down4 (y + 1 - 1)) ymin + 4)" "zmax \<le> down4 (max (down4 (z + 1 - 1)) zmin + 4)" "\<not> wmax \<le> down4 (max (down4 (w + 1 - 1)) wmin + 4)"
    | "(x + 1) mod 4 = 0 \<or> x + 1 = xmax" "(y + 1) mod 4 = 0 \<or> y + 1 = ymax" "(z + 1) mod 4 = 0 \<or> z + 1 = zmax" "(w + 1) mod 4 = 0 \<or> w + 1 = wmax" "xmax \<le> down4 (max (down4 (x + 1 - 1)) xmin + 4)" "ymax \<le> down4 (max (down4 (y + 1 - 1)) ymin + 4)" "zmax \<le> down4 (max (down4 (z + 1 - 1)) zmin + 4)" "wmax \<le> down4 (max (down4 (w + 1 - 1)) wmin + 4)"
    by argo
  then show ?thesis by cases (simp_all only: iterator4_increment_def step_unfold)
qed

lemma iterator2_decrement_step:
  assumes "y \<noteq> ymax"
  shows "(case iterator2_decrement (xmin, xmax) (ymin, ymax) (x, y) of (x, y) \<Rightarrow> [y, x]) =
    step_dec [(ymin, ymax), (xmin, xmax)] [y, x]"
proof -
  consider "\<not> (x mod 4 = 0 \<or> x = xmin)"
    | "x mod 4 = 0 \<or> x = xmin" "\<not> (y mod 4 = 0 \<or> y = ymin)"
    | "x mod 4 = 0 \<or> x = xmin" "y mod 4 = 0 \<or> y = ymin" "\<not> down4 (min (down4 (x + 4)) xmax - 1) \<le> xmin"
    | "x mod 4 = 0 \<or> x = xmin" "y mod 4 = 0 \<or> y = ymin" "down4 (min (down4 (x + 4)) xmax - 1) \<le> xmin" "\<not> down4 (min (down4 (y + 4)) ymax - 1) \<le> ymin"
    | "x mod 4 = 0 \<or> x = xmin" "y mod 4 = 0 \<or> y = ymin" "down4 (min (down4 (x + 4)) xmax - 1) \<le> xmin" "down4 (min (down4 (y + 4)) ymax - 1) \<le> ymin"
    by argo
  then show ?thesis using assms by cases (simp_all only: iterator2_decrement_def step_unfold)
qed

lemma iterator3_decrement_step:
  assumes "z \<noteq> zmax"
  shows "(case iterator3_decrement (xmin, xmax) (ymin, ymax) (zmin, zmax) (x, y, z) of (x, y, z) \<Rightarrow> [z, y, x]) =
    step_dec [(zmin, zmax), (ymin, ymax), (xmin, xmax)] [z, y, x]"
proof -
  consider "\<not> (x mod 4 = 0 \<or> x = xmin)"
    | "x mod 4 = 0 \<or> x = xmin" "\<not> (y mod 4 = 0 \<or> y = ymin)"
    | "x mod 4 = 0 \<or> x = xmin" "y mod 4 = 0 \<or> y = ymin" "\<not> (z mod 4 = 0 \<or> z = zmin)"
    | "x mod 4 = 0 \<or> x = xmin" "y mod 4 = 0 \<or> y = ymin" "z mod 4 = 0 \<or> z = zmin" "\<not> down4 (min (down4 (x + 4)) xmax - 1) \<le> xmin"
    | "x mod 4 = 0 \<or> x = xmin" "y mod 4 = 0 \<or> y = ymin" "z mod 4 = 0 \<or> z = zmin" "down4 (min (down4 (x + 4)) xmax - 1) \<le> xmin" "\<not> down4 (min (down4 (y + 4)) ymax - 1) \<le> ymin"
    | "x mod 4 = 0 \<or> x = xmin" "y mod 4 = 0 \<or> y = ymin" "z mod 4 = 0 \<or> z = zmin" "down4 (min (down4 (x + 4)) xmax - 1) \<le> xmin" "down4 (min (down4 (y + 4)) ymax - 1) \<le> ymin" "\<not> down4 (min (down4 (z + 4)) zmax - 1) \<le> zmin"
    | "x mod 4 = 0 \<or> x = xmin" "y mod 4 = 0 \<or> y = ymin" "z mod 4 = 0 \<or> z = zmin" "down4 (min (down4 (x + 4)) xmax - 1) \<le> xmin" "down4 (min (down4 (y + 4)) ymax - 1) \<le> ymin" "down4 (min (down4 (z + 4)) zmax - 1) \<le> zmin"
    by argo
  then show ?thesis using assms by cases (simp_all only: iterator3_decrement_def step_unfold)
qed

lemma iterator4_decrement_step:
  assumes "w \<noteq> wmax"
  shows "(case iterator4_decrement (xmin, xmax) (ymin, ymax) (zmin, zmax) (wmin, wmax) (x, y, z, w) of (x, y, z, w) \<Rightarrow> [w, z, y, x]) =
    step_dec [(wmin, wmax), (zmin, zmax), (ymin, ymax), (xmin, xmax)] [w, z, y, x]"
proof -
  consider "\<not> (x mod 4 = 0 \<or> x = xmin)"
    | "x mod 4 = 0 \<or> x = xmin" "\<not> (y mod 4 = 0 \<or> y = ymin)"
    | "x mod 4 = 0 \<or> x = xmin" "y mod 4 = 0 \<or> y = ymin" "\<not> (z mod 4 = 0 \<or> z = zmin)"
    | "x mod 4 = 0 \<or> x = xmin" "y mod 4 = 0 \<or> y = ymin" "z mod 4 = 0 \<or> z = zmin" "\<not> (w mod 4 = 0 \<or> w = wmin)"
    | "x mod 4 = 0 \<or> x = xmin" "y mod 4 = 0 \<or> y = ymin" "z mod 4 = 0 \<or> z = zmin" "w mod 4 = 0 \<or> w = wmin" "\<not> down4 (min (down4 (x + 4)) xmax - 1) \<le> xmin"
    | "x mod 4 = 0 \<or> x = xmin" "y mod 4 = 0 \<or> y = ymin" "z mod 4 = 0 \<or> z = zmin" "w mod 4 = 0 \<or> w = wmin" "down4 (min (down4 (x + 4)) xmax - 1) \<le> xmin" "\<not> down4 (min (down4 (y + 4)) ymax - 1) \<le> ymin"
    | "x mod 4 = 0 \<or> x = xmin" "y mod 4 = 0 \<or> y = ymin" "z mod 4 = 0 \<or> z = zmin" "w mod 4 = 0 \<or> w = wmin" "down4 (min (down4 (x + 4)) xmax - 1) \<le> xmin" "down4 (min (down4 (y + 4)) ymax - 1) \<le> ymin" "\<not> down4 (min (down4 (z + 4)) zmax - 1) \<le> zmin"
    | "x mod 4 = 0 \<or> x = xmin" "y mod 4 = 0 \<or> y = ymin" "z mod 4 = 0 \<or> z = zmin" "w mod 4 = 0 \<or> w = wmin" "down4 (min (down4 (x + 4)) xmax - 1) \<le> xmin" "down4 (min (down4 (y + 4)) ymax - 1) \<le> ymin" "down4 (min (down4 (z + 4)) zmax - 1) \<le> zmin" "\<not> down4 (min (down4 (w + 4)) wmax - 1) \<le> wmin"
    | "x mod 4 = 0 \<or> x = xmin" "y mod 4 = 0 \<or> y = ymin" "z mod 4 = 0 \<or> z = zmin" "w mod 4 = 0 \<or> w = wmin" "down4 (min (down4 (x + 4)) xmax - 1) \<le> xmin" "down4 (min (down4 (y + 4)) ymax - 1) \<le> ymin" "down4 (min (down4 (z + 4)) zmax - 1) \<le> zmin" "down4 (min (down4 (w + 4)) wmax - 1) \<le> wmin"
    by argo
  then show ?thesis using assms by cases (simp_all only: iterator4_decrement_def step_unfold)
qed

section \<open>Random access\<close>

text \<open>
  The contract of random-access positions: what a program relies on of iterators and of pointers. \<open>elems x\<close> are the positions of the \<open>n\<close>
  elements, \<open>fin\<close> is the position beyond the last one. A position has an offset, to which a distance is added; \<open>index\<close> is the position
  of an offset; \<open>inc\<close> and \<open>dec\<close> move to the next and the previous position.
\<close>

locale random_access =
  fixes elems :: "'p \<Rightarrow> bool" and fin :: 'p and n :: nat and offset :: "'p \<Rightarrow> int \<Rightarrow> int" and index :: "nat \<Rightarrow> 'p"
    and inc :: "'p \<Rightarrow> 'p" and dec :: "'p \<Rightarrow> 'p"
  assumes card_elems: "card (Collect elems) = n"
    and offset_elem: "elems x \<Longrightarrow> 0 \<le> offset x 0 \<and> offset x 0 < int n"
    and offset_fin: "elems x \<Longrightarrow> offset fin 0 = int n"
    and offset_add: "elems x \<Longrightarrow> y = x \<or> y = fin \<Longrightarrow> offset y d = offset y 0 + d"
    and index_elem: "elems x \<Longrightarrow> index (nat (offset x 0)) = x"
    and index_fin: "elems x \<Longrightarrow> index n = fin"
    and inc_elem: "elems x \<Longrightarrow> elems (inc x) \<and> offset (inc x) 0 = offset x 0 + 1 \<or> inc x = fin \<and> offset x 0 + 1 = int n"
    and dec_elem: "elems x \<Longrightarrow> offset x 0 \<noteq> 0 \<Longrightarrow> elems (dec x) \<and> offset (dec x) 0 = offset x 0 - 1"
    and dec_fin: "elems x \<Longrightarrow> elems (dec fin) \<and> offset (dec fin) 0 = int n - 1"
begin

definition position :: "'p \<Rightarrow> bool" where
  "position x \<longleftrightarrow> (\<exists>y. elems y) \<and> (elems x \<or> x = fin)"

lemma position_offset: "position x \<Longrightarrow> 0 \<le> offset x 0 \<and> offset x 0 \<le> int n \<and> offset x d = offset x 0 + d \<and> index (nat (offset x 0)) = x"
  unfolding position_def using offset_elem offset_fin offset_add index_elem index_fin by (metis le_less nat_int of_nat_0_le_iff)

lemma index_less: "p < n \<Longrightarrow> elems (index p) \<and> offset (index p) 0 = int p"
proof -
  assume p: "p < n"
  let ?f = "\<lambda>x. nat (offset x 0)"
  have "inj_on ?f (Collect elems)" using index_elem by (intro inj_on_inverseI [where g = index]) simp
  moreover have "?f ` Collect elems \<subseteq> {..<n}" using offset_elem by (auto simp: nat_less_iff)
  ultimately have "?f ` Collect elems = {..<n}" using card_elems by (intro card_subset_eq) (simp_all add: card_image)
  then have "p \<in> ?f ` Collect elems" using p by simp
  then obtain x where x: "elems x" "p = ?f x" by auto
  then have "index p = x" "int p = offset x 0" using index_elem offset_elem by simp_all
  then show ?thesis using x by simp
qed

lemma index_position:
  assumes "elems y" "p \<le> n"
  shows "position (index p)" "offset (index p) 0 = int p"
  using assms index_less [of p] index_fin [OF assms(1)] offset_fin [OF assms(1)] by (cases "p = n"; auto simp: position_def)+

text \<open>Positions move by any distance within the container; to move by the difference of two positions leads from one to the other.\<close>

lemma advance:
  assumes "position x" "0 \<le> offset x 0 + d" "offset x 0 + d \<le> int n"
  shows "position (index (nat (offset x d)))" "offset (index (nat (offset x d))) 0 = offset x 0 + d"
proof -
  obtain y where y: "elems y" using assms(1) by (auto simp: position_def)
  have o: "offset x d = offset x 0 + d" using position_offset [OF assms(1)] by blast
  show "position (index (nat (offset x d)))" "offset (index (nat (offset x d))) 0 = offset x 0 + d"
    using index_position [OF y, of "nat (offset x d)"] assms(2,3) by (simp_all add: o nat_le_iff)
qed

lemma advance_difference:
  assumes "position x" "position y"
  shows "index (nat (offset x (offset y 0 - offset x 0))) = y"
proof -
  have "offset x (offset y 0 - offset x 0) = offset y 0" using position_offset [OF assms(1), of "offset y 0 - offset x 0"] by simp
  then show ?thesis using position_offset [OF assms(2), of 0] by simp
qed

lemma inc_step: "elems x \<Longrightarrow> position (inc x) \<and> offset (inc x) 0 = offset x 0 + 1"
  using inc_elem [of x] offset_fin [of x] by (auto simp: position_def)

lemma dec_step: "position x \<Longrightarrow> 0 < offset x 0 \<Longrightarrow> elems (dec x) \<and> offset (dec x) 0 = offset x 0 - 1"
  unfolding position_def using dec_elem dec_fin offset_fin by (metis less_irrefl)

lemma inc_is_advance: "elems x \<Longrightarrow> inc x = index (nat (offset x 1))"
  using inc_step [of x] position_offset [of "inc x"] position_offset [of x 1] by (auto simp: position_def)

lemma dec_is_advance: "position x \<Longrightarrow> 0 < offset x 0 \<Longrightarrow> dec x = index (nat (offset x (- 1)))"
  using dec_step [of x] index_elem [of "dec x"] position_offset [of x "- 1"] by auto

lemma dec_inc: "elems x \<Longrightarrow> dec (inc x) = x"
  using inc_step [of x] dec_step [of "inc x"] offset_elem [of x] index_elem [of x] index_elem [of "dec (inc x)"] by force

text \<open>A loop from the first to the last element visits each of them once.\<close>

lemma inc_funpow: "k \<le> n \<Longrightarrow> (inc ^^ k) (index 0) = index k"
proof (induction k)
  case (Suc k)
  then have "elems (index k) \<and> offset (index k) 0 = int k" by (intro index_less) simp
  then have e: "elems (index k)" "offset (index k) 0 = int k" by simp_all
  moreover from e(1) have "position (index k)" by (auto simp: position_def)
  ultimately have "offset (index k) 1 = int (Suc k)" using position_offset [of "index k" 1] by simp
  then have "inc (index k) = index (Suc k)" unfolding inc_is_advance [OF e(1)] by (simp only: nat_int)
  then show ?case using Suc by simp
qed simp

lemma visits_all: "distinct (map (\<lambda>k. (inc ^^ k) (index 0)) [0..<n])" "set (map (\<lambda>k. (inc ^^ k) (index 0)) [0..<n]) = Collect elems"
proof -
  have e: "map (\<lambda>k. (inc ^^ k) (index 0)) [0..<n] = map index [0..<n]" by (simp add: inc_funpow)
  show "distinct (map (\<lambda>k. (inc ^^ k) (index 0)) [0..<n])"
    unfolding e distinct_map using index_less by (auto intro!: inj_on_inverseI [where g = "\<lambda>x. nat (offset x 0)"])
  have "x \<in> index ` {0..<n}" if "elems x" for x
    using index_elem [OF that] offset_elem [OF that] by (intro image_eqI [of _ _ "nat (offset x 0)"]) (auto simp: nat_less_iff)
  then show "set (map (\<lambda>k. (inc ^^ k) (index 0)) [0..<n]) = Collect elems" unfolding e using index_less by auto
qed

end

section \<open>Iterators have random access\<close>

definition axes :: "bounds list \<Rightarrow> nat list \<Rightarrow> bool" where
  "axes rs xs \<longleftrightarrow> 1 \<le> length rs \<and> length rs \<le> 4 \<and> list_all2 inside rs xs"

lemma card_inside: "card {xs. list_all2 inside rs xs} = extents rs"
proof (induction rs)
  case (Cons r rs)
  have e: "{xs. list_all2 inside (r # rs) xs} = (\<lambda>(x, xs). x # xs) ` ({fst r..<snd r} \<times> {xs. list_all2 inside rs xs})"
    by (auto simp: list_all2_Cons1 inside_def image_iff)
  show ?case unfolding e using Cons by (subst card_image) (auto simp: inj_on_def card_cartesian_product)
qed simp

lemma extents_prod: "extents rs = prod_list (map (\<lambda>r. snd r - fst r) rs)"
  by (induction rs) simp_all

lemma extents_rev: "extents (rev rs) = extents rs"
  unfolding extents_prod rev_map [symmetric] by (rule prod_list.rev)

lemma axes_cases:
  assumes "axes rs xs"
  obtains q x where "rs = [q]" "xs = [x]" | q r x y where "rs = [q, r]" "xs = [x, y]"
    | q r s x y z where "rs = [q, r, s]" "xs = [x, y, z]" | q r s t x y z w where "rs = [q, r, s, t]" "xs = [x, y, z, w]"
proof -
  have l: "length xs = length rs" "1 \<le> length rs" "length rs \<le> 4" using assms list_all2_lengthD by (fastforce simp: axes_def)+
  from dims_cases [OF l(2,3)] show thesis
    using that l(1) by (elim disjE) (auto simp: length_Suc_conv numeral_eq_Suc)
qed

lemma axes_rev: "axes rs xs \<Longrightarrow> inside_all (rev rs) (rev xs)"
  by (simp add: axes_def)

lemma iterator_offset_elem:
  assumes a: "axes rs xs"
  shows "iterator_offset rs xs d = int (elem_off (rev rs) (rev xs)) + d"
  using a
proof (cases rule: axes_cases)
  case (1 q x)
  then show ?thesis using axes_rev [OF a] by (simp add: iterator_offset_def iterator1_offset_elem del: list.rel_inject)
next
  case (2 q r x y)
  then show ?thesis using axes_rev [OF a] by (cases q; cases r) (simp add: iterator_offset_def iterator2_offset_elem del: list.rel_inject)
next
  case (3 q r s x y z)
  then show ?thesis using axes_rev [OF a] by (cases q; cases r; cases s) (simp add: iterator_offset_def iterator3_offset_elem del: list.rel_inject)
next
  case (4 q r s t x y z w)
  then show ?thesis using axes_rev [OF a] by (cases q; cases r; cases s; cases t) (simp add: iterator_offset_def iterator4_offset_elem del: list.rel_inject)
qed

lemma iterator_index_elem:
  assumes a: "axes rs xs"
  shows "iterator_index rs (elem_off (rev rs) (rev xs)) = xs"
  using a
proof (cases rule: axes_cases)
  case (1 q x)
  then have "inside q x" using axes_rev [OF a] by simp
  then show ?thesis using block_min_max [of q x] 1 by (cases q) (simp add: iterator_index_def iterator1_index_def elem_off_def)
next
  case (2 q r x y)
  then show ?thesis using axes_rev [OF a] by (cases q; cases r) (simp add: iterator_index_def iterator2_index_off del: list.rel_inject)
next
  case (3 q r s x y z)
  then show ?thesis using axes_rev [OF a] by (cases q; cases r; cases s) (simp add: iterator_index_def iterator3_index_off del: list.rel_inject)
next
  case (4 q r s t x y z w)
  then show ?thesis using axes_rev [OF a] by (cases q; cases r; cases s; cases t) (simp add: iterator_index_def iterator4_index_off del: list.rel_inject)
qed

lemma elem_off_1: "inside q x \<Longrightarrow> elem_off [q] [x] = x - fst q"
  using block_min_max [of q x] by (simp add: elem_off_def)

lemma iterator_increment_step:
  assumes a: "axes rs xs"
  shows "iterator_increment rs xs = rev (step_inc (rev rs) (rev xs))"
  using a
proof (cases rule: axes_cases)
  case (1 q x)
  then have q: "inside_all [q] [x]" using axes_rev [OF a] by simp
  have "step_inc [q] [x] = [x + 1]"
    using step_inc_off [OF q] elem_off_1 [of q x] q
  proof (elim disjE conjE)
    assume "inside_all [q] (step_inc [q] [x])" "elem_off [q] (step_inc [q] [x]) = elem_off [q] [x] + 1"
    moreover then obtain y where "step_inc [q] [x] = [y]" "inside q y" by (auto simp: list_all2_Cons1)
    ultimately show ?thesis using elem_off_1 [of q x] elem_off_1 [of q y] q by (auto simp: inside_def)
  qed (auto simp: inside_def)
  then show ?thesis using 1 by (cases q) (simp add: iterator_increment_def iterator1_increment_def)
next
  case (2 q r x y)
  then show ?thesis using iterator2_increment_step [of "fst q" "snd q" "fst r" "snd r" x y, symmetric] by (auto simp: iterator_increment_def split: prod.splits)
next
  case (3 q r s x y z)
  then show ?thesis using iterator3_increment_step [of "fst q" "snd q" "fst r" "snd r" "fst s" "snd s" x y z, symmetric]
    by (auto simp: iterator_increment_def split: prod.splits)
next
  case (4 q r s t x y z w)
  then show ?thesis using iterator4_increment_step [of "fst q" "snd q" "fst r" "snd r" "fst s" "snd s" "fst t" "snd t" x y z w, symmetric]
    by (auto simp: iterator_increment_def split: prod.splits)
qed

lemma iterator_decrement_step:
  assumes a: "axes rs xs" and "xs \<noteq> map fst rs"
  shows "iterator_decrement rs xs = rev (step_dec (rev rs) (rev xs))"
  using a
proof (cases rule: axes_cases)
  case (1 q x)
  then have q: "inside_all [q] [x]" "[x] \<noteq> map fst [q]" using axes_rev [OF a] assms(2) by simp_all
  then have "inside q x" "fst q < x" by (auto simp: inside_def)
  moreover obtain y where y: "step_dec [q] [x] = [y]" "inside q y" using step_dec_off(1) [OF q] by (auto simp: list_all2_Cons1)
  moreover have "elem_off [q] [y] + 1 = elem_off [q] [x]" using step_dec_off(2) [OF q] by (simp add: y)
  ultimately have "y = x - 1" using elem_off_1 [of q x] elem_off_1 [of q y] by (auto simp: inside_def)
  then show ?thesis using 1 y by (cases q) (simp add: iterator_decrement_def iterator1_decrement_def)
next
  case (2 q r x y)
  then have "y \<noteq> snd r" using a by (auto simp: axes_def inside_def)
  then show ?thesis using 2 iterator2_decrement_step [of y "snd r" "fst q" "snd q" "fst r" x, symmetric] by (auto simp: iterator_decrement_def split: prod.splits)
next
  case (3 q r s x y z)
  then have "z \<noteq> snd s" using a by (auto simp: axes_def inside_def)
  then show ?thesis using 3 iterator3_decrement_step [of z "snd s" "fst q" "snd q" "fst r" "snd r" "fst s" x y, symmetric]
    by (auto simp: iterator_decrement_def split: prod.splits)
next
  case (4 q r s t x y z w)
  then have "w \<noteq> snd t" using a by (auto simp: axes_def inside_def)
  then show ?thesis using 4 iterator4_decrement_step [of w "snd t" "fst q" "snd q" "fst r" "snd r" "fst s" "snd s" "fst t" x y z, symmetric]
    by (auto simp: iterator_decrement_def split: prod.splits)
qed

text \<open>The end position.\<close>

lemma last_pos_rev: "rs \<noteq> [] \<Longrightarrow> rev (last_pos (rev rs)) = iterator_end rs"
  by (cases rs rule: rev_cases) (simp_all add: iterator_end_def rev_map)

lemma iterator_end_parts:
  assumes "axes rs xs"
  shows "iterator_offset rs (iterator_end rs) d = int (extents rs) + d" "iterator_index rs (extents rs) = iterator_end rs"
    "iterator_decrement rs (iterator_end rs) = map (\<lambda>r. snd r - 1) rs"
proof -
  have "iterator_offset rs (iterator_end rs) d = int (extents rs) + d \<and> iterator_index rs (extents rs) = iterator_end rs \<and>
    iterator_decrement rs (iterator_end rs) = map (\<lambda>r. snd r - 1) rs"
    using assms
  proof (cases rule: axes_cases)
    case (1 q x)
    then show ?thesis using assms by (cases q) (auto simp: axes_def inside_def iterator_end_def iterator_offset_def iterator1_offset_def
      iterator_index_def iterator1_index_def iterator_decrement_def iterator1_decrement_def)
  next
    case (2 q r x y)
    then show ?thesis by (cases q; cases r) (simp add: iterator_end_def iterator_offset_def iterator2_offset_def
      iterator_index_def iterator2_index_def iterator_decrement_def iterator2_decrement_def)
  next
    case (3 q r s x y z)
    then show ?thesis by (cases q; cases r; cases s) (simp add: iterator_end_def iterator_offset_def iterator3_offset_def
      iterator_index_def iterator3_index_def iterator_decrement_def iterator3_decrement_def mult.assoc)
  next
    case (4 q r s t x y z w)
    then show ?thesis by (cases q; cases r; cases s; cases t) (simp add: iterator_end_def iterator_offset_def iterator4_offset_def
      iterator_index_def iterator4_index_def iterator_decrement_def iterator4_decrement_def mult.assoc)
  qed
  then show "iterator_offset rs (iterator_end rs) d = int (extents rs) + d" "iterator_index rs (extents rs) = iterator_end rs"
    "iterator_decrement rs (iterator_end rs) = map (\<lambda>r. snd r - 1) rs" by blast+
qed

lemma rev_axes: "axes rs xs \<Longrightarrow> inside_all (rev rs) ys \<Longrightarrow> axes rs (rev ys)"
  using list_all2_rev [of inside rs "rev ys"] by (simp add: axes_def)

definition num_elems :: "bounds list \<Rightarrow> nat" where
  "num_elems rs = (if 1 \<le> length rs \<and> length rs \<le> 4 then extents rs else 0)"

lemma card_axes: "card (Collect (axes rs)) = num_elems rs"
proof (cases "1 \<le> length rs \<and> length rs \<le> 4")
  case True
  then have "Collect (axes rs) = {xs. list_all2 inside rs xs}" by (auto simp: axes_def)
  then show ?thesis using True by (simp add: num_elems_def card_inside)
next
  case False
  then have "Collect (axes rs) = {}" by (auto simp: axes_def)
  moreover have "num_elems rs = 0" using False by (auto simp: num_elems_def)
  ultimately show ?thesis by (simp only: card.empty)
qed

lemma num_elems_axes: "axes rs xs \<Longrightarrow> num_elems rs = extents rs"
  by (simp add: num_elems_def axes_def)

interpretation iterator: random_access "axes rs" "iterator_end rs" "num_elems rs" "iterator_offset rs" "iterator_index rs"
    "iterator_increment rs" "iterator_decrement rs" for rs
proof
  show "card (Collect (axes rs)) = num_elems rs" by (rule card_axes)
next
  fix xs assume a: "axes rs xs"
  note i = axes_rev [OF a] and n = num_elems_axes [OF a] and o = iterator_offset_elem [OF a] and e = iterator_end_parts [OF a]
  have ne: "rs \<noteq> []" using a by (auto simp: axes_def)
  show "0 \<le> iterator_offset rs xs 0 \<and> iterator_offset rs xs 0 < int (num_elems rs)"
    using elem_off_less [OF i] by (simp add: o n extents_rev)
  show "iterator_offset rs (iterator_end rs) 0 = int (num_elems rs)" by (simp add: e n)
  show "iterator_index rs (nat (iterator_offset rs xs 0)) = xs" using iterator_index_elem [OF a] by (simp add: o)
  show "iterator_index rs (num_elems rs) = iterator_end rs" by (simp add: e n)
  show "axes rs (iterator_increment rs xs) \<and> iterator_offset rs (iterator_increment rs xs) 0 = iterator_offset rs xs 0 + 1 \<or>
      iterator_increment rs xs = iterator_end rs \<and> iterator_offset rs xs 0 + 1 = int (num_elems rs)"
    using step_inc_off [OF i]
  proof (elim disjE conjE)
    assume s: "inside_all (rev rs) (step_inc (rev rs) (rev xs))" "elem_off (rev rs) (step_inc (rev rs) (rev xs)) = elem_off (rev rs) (rev xs) + 1"
    have "axes rs (iterator_increment rs xs)" using rev_axes [OF a s(1)] by (simp add: iterator_increment_step [OF a])
    then show ?thesis using s(2) by (simp add: iterator_offset_elem o) (simp add: iterator_increment_step [OF a])
  next
    assume "step_inc (rev rs) (rev xs) = last_pos (rev rs)" "elem_off (rev rs) (rev xs) + 1 = extents (rev rs)"
    then show ?thesis by (simp add: iterator_increment_step [OF a] last_pos_rev [OF ne] o n extents_rev)
  qed
  show "axes rs (iterator_decrement rs xs) \<and> iterator_offset rs (iterator_decrement rs xs) 0 = iterator_offset rs xs 0 - 1"
    if "iterator_offset rs xs 0 \<noteq> 0"
  proof -
    have b: "rev xs \<noteq> map fst (rev rs)"
    proof
      assume "rev xs = map fst (rev rs)"
      then show False using that first_elem(2,3) [OF i] by (simp add: o elem_off_def)
    qed
    then have "xs \<noteq> map fst rs" by (auto simp: rev_map)
    note s = step_dec_off [OF i b] and d = iterator_decrement_step [OF a this]
    have "axes rs (iterator_decrement rs xs)" using rev_axes [OF a s(1)] by (simp add: d)
    then show ?thesis using s(2) by (simp add: iterator_offset_elem o) (simp add: d)
  qed
  have t: "axes rs (map (\<lambda>r. snd r - 1) rs)" using top_elem(1) [OF i] rev_axes [OF a] by (fastforce simp: rev_map)
  show "axes rs (iterator_decrement rs (iterator_end rs)) \<and> iterator_offset rs (iterator_decrement rs (iterator_end rs)) 0 = int (num_elems rs) - 1"
    using t top_off [OF i] by (simp add: e(3) iterator_offset_elem n extents_rev rev_map [symmetric])
next
  fix xs ys d assume a: "axes rs xs" and y: "ys = xs \<or> ys = iterator_end rs"
  show "iterator_offset rs ys d = iterator_offset rs ys 0 + d"
    using y iterator_offset_elem [OF a] iterator_end_parts(1) [OF a] by auto
qed

section \<open>Pointers have random access\<close>

text \<open>The arithmetic of the pointers for any number of axes, the fastest axis first.\<close>

fun ptr_off :: "bounds list \<Rightarrow> nat list \<Rightarrow> nat" where
  "ptr_off (r # rs) (x # xs) = x - fst r + (snd r - fst r) * ptr_off rs xs"
| "ptr_off _ _ = 0"

fun ptr_at :: "bounds list \<Rightarrow> nat \<Rightarrow> nat list" where
  "ptr_at (r # q # rs) p = (fst r + p mod (snd r - fst r)) # ptr_at (q # rs) (p div (snd r - fst r))"
| "ptr_at [r] p = [fst r + p]"
| "ptr_at [] p = []"

fun ptr_inc :: "bounds list \<Rightarrow> nat list \<Rightarrow> nat list" where
  "ptr_inc (r # q # rs) (x # xs) = (if x + 1 = snd r then fst r # ptr_inc (q # rs) xs else (x + 1) # xs)"
| "ptr_inc [r] [x] = [x + 1]"
| "ptr_inc _ xs = xs"

fun ptr_dec :: "bounds list \<Rightarrow> nat list \<Rightarrow> nat list" where
  "ptr_dec (r # q # rs) (x # xs) = (if x = fst r then (x + (snd r - fst r) - 1) # ptr_dec (q # rs) xs else (x - 1) # xs)"
| "ptr_dec [r] [x] = [x - 1]"
| "ptr_dec _ xs = xs"

lemma ptr_off_less: "inside_all rs xs \<Longrightarrow> ptr_off rs xs < extents rs"
proof (induction rs xs rule: list_all2_induct)
  case (Cons r rs x xs)
  let ?m = "snd r - fst r"
  have "x - fst r < ?m" using Cons.hyps(1) by (auto simp: inside_def)
  then have "x - fst r + ?m * ptr_off rs xs < ?m * Suc (ptr_off rs xs)" by simp
  also have "\<dots> \<le> ?m * extents rs" using Cons.IH by (intro mult_le_mono2) simp
  finally show ?case by simp
qed simp

lemma inside_parts:
  assumes "inside r x"
  obtains f m a where "r = (f, f + m)" "x = f + a" "a < m"
proof -
  have "r = (fst r, fst r + (snd r - fst r))" "x = fst r + (x - fst r)" "x - fst r < snd r - fst r"
    using assms by (auto simp: inside_def prod_eq_iff)
  then show ?thesis by (rule that)
qed

lemma ptr_at_off: "inside_all rs xs \<Longrightarrow> ptr_at rs (ptr_off rs xs) = xs"
proof (induction rs xs rule: list_all2_induct)
  case (Cons r rs x xs)
  obtain f m a where r: "r = (f, f + m)" "x = f + a" "a < m" by (rule inside_parts [OF Cons.hyps(1)])
  then have "(a + m * k) mod m = a" "(a + m * k) div m = k" for k by simp_all
  then show ?case using Cons r by (cases rs) simp_all
qed simp

lemma iterator_end_Cons: "iterator_end (r # q # rs) = fst r # iterator_end (q # rs)"
  by (simp add: iterator_end_def)

lemma ptr_end:
  "rs \<noteq> [] \<Longrightarrow> inside_all rs xs \<Longrightarrow> ptr_off rs (iterator_end rs) = extents rs \<and> ptr_at rs (extents rs) = iterator_end rs"
proof (induction rs arbitrary: xs)
  case (Cons r rs)
  then obtain x ys where x: "inside r x" "inside_all rs ys" by (auto simp: list_all2_Cons1)
  obtain f m a where r: "r = (f, f + m)" "x = f + a" "a < m" by (rule inside_parts [OF x(1)])
  show ?case
  proof (cases rs)
    case (Cons q qs)
    then show ?thesis using Cons.IH [OF _ x(2)] r by (simp add: iterator_end_Cons)
  qed (use r in \<open>simp add: iterator_end_def\<close>)
qed simp

lemma ptr_inc_off:
  "rs \<noteq> [] \<Longrightarrow> inside_all rs xs \<Longrightarrow>
    inside_all rs (ptr_inc rs xs) \<and> ptr_off rs (ptr_inc rs xs) = ptr_off rs xs + 1 \<or> ptr_inc rs xs = iterator_end rs \<and> ptr_off rs xs + 1 = extents rs"
proof (induction rs xs rule: ptr_inc.induct)
  case (1 r q rs x xs)
  then have i: "inside r x" "inside_all (q # rs) xs" by simp_all
  obtain f m a where r: "r = (f, f + m)" "x = f + a" "a < m" by (rule inside_parts [OF i(1)])
  show ?case
  proof (cases "x + 1 = snd r")
    case True
    then have m: "m = a + 1" using r by simp
    have s: "a + m * k + 1 = m * (k + 1)" for k by (simp add: m)
    show ?thesis using "1.IH" [OF True list.distinct(2) i(2)]
    proof (elim disjE conjE)
      assume "inside_all (q # rs) (ptr_inc (q # rs) xs)" "ptr_off (q # rs) (ptr_inc (q # rs) xs) = ptr_off (q # rs) xs + 1"
      moreover have "inside r f" using r by (simp add: inside_def)
      ultimately show ?thesis using True r s [of "ptr_off (q # rs) xs"] by simp
    next
      assume "ptr_inc (q # rs) xs = iterator_end (q # rs)" "ptr_off (q # rs) xs + 1 = extents (q # rs)"
      then show ?thesis using True r s [of "ptr_off (q # rs) xs"] by (simp add: iterator_end_Cons)
    qed
  next
    case False
    then have "inside r (x + 1)" using r by (simp add: inside_def)
    then show ?thesis using False i r by simp
  qed
next
  case (2 r x)
  then show ?case by (auto simp: inside_def iterator_end_def)
qed auto

lemma ptr_dec_off:
  "inside_all rs xs \<Longrightarrow> ptr_off rs xs \<noteq> 0 \<Longrightarrow> inside_all rs (ptr_dec rs xs) \<and> ptr_off rs (ptr_dec rs xs) + 1 = ptr_off rs xs"
proof (induction rs xs rule: ptr_dec.induct)
  case (1 r q rs x xs)
  then have i: "inside r x" "inside_all (q # rs) xs" by simp_all
  obtain f m a where r: "r = (f, f + m)" "x = f + a" "a < m" by (rule inside_parts [OF i(1)])
  show ?case
  proof (cases "x = fst r")
    case True
    then have a: "a = 0" using r by simp
    then have "ptr_off (q # rs) xs \<noteq> 0" using "1.prems"(2) r by simp
    then have p: "inside_all (q # rs) (ptr_dec (q # rs) xs)" "ptr_off (q # rs) xs = ptr_off (q # rs) (ptr_dec (q # rs) xs) + 1"
      using "1.IH" [OF True i(2)] by simp_all
    obtain l where l: "m = Suc l" using r by (cases m) auto
    have "inside r (f + l)" using r l by (simp add: inside_def)
    then show ?thesis using p r a l by simp
  next
    case False
    then obtain b where b: "a = Suc b" using r by (cases a) auto
    then have "inside r (f + b)" using r by (simp add: inside_def)
    then show ?thesis using False i r b by simp
  qed
next
  case (2 r x)
  then show ?case by (auto simp: inside_def)
qed auto

lemma ptr_dec_end:
  "rs \<noteq> [] \<Longrightarrow> inside_all rs xs \<Longrightarrow> inside_all rs (ptr_dec rs (iterator_end rs)) \<and> ptr_off rs (ptr_dec rs (iterator_end rs)) + 1 = extents rs"
proof (induction rs arbitrary: xs)
  case (Cons r rs)
  then obtain x ys where x: "inside r x" "inside_all rs ys" by (auto simp: list_all2_Cons1)
  obtain f m a where r: "r = (f, f + m)" "x = f + a" "a < m" by (rule inside_parts [OF x(1)])
  then obtain l where l: "m = Suc l" by (cases m) auto
  show ?case
  proof (cases rs)
    case Nil
    then show ?thesis using r l by (simp add: iterator_end_def inside_def)
  next
    case (Cons q qs)
    let ?p = "ptr_off rs (ptr_dec rs (iterator_end rs))"
    have p: "inside_all rs (ptr_dec rs (iterator_end rs))" and e: "extents rs = Suc ?p" using Cons.IH [OF _ x(2)] Cons by simp_all
    have d: "ptr_dec (r # rs) (iterator_end (r # rs)) = (f + l) # ptr_dec rs (iterator_end rs)"
      using Cons r l by (simp add: iterator_end_Cons)
    have "inside r (f + l)" using r l by (simp add: inside_def)
    then have "inside_all (r # rs) (ptr_dec (r # rs) (iterator_end (r # rs)))" using p by (simp only: d list_all2_Cons)
    moreover have "ptr_off (r # rs) (ptr_dec (r # rs) (iterator_end (r # rs))) + 1 = extents (r # rs)"
      unfolding d ptr_off.simps(1) extents.simps e using r l by simp
    ultimately show ?thesis by blast
  qed
qed simp

text \<open>The classes compute the same.\<close>

lemma pointer_classes:
  assumes "length xs = length rs" "1 \<le> length rs" "length rs \<le> 4"
  shows "pointer_offset rs xs d = int (ptr_off rs xs) + d \<and> pointer_index rs p = ptr_at rs p \<and>
    pointer_increment rs xs = ptr_inc rs xs \<and> pointer_decrement rs xs = ptr_dec rs xs"
proof -
  consider a q b where "rs = [(a, q)]" "xs = [b]" | a q b r x y where "rs = [(a, q), (b, r)]" "xs = [x, y]"
    | a q b r c s x y z where "rs = [(a, q), (b, r), (c, s)]" "xs = [x, y, z]"
    | a q b r c s e t x y z w where "rs = [(a, q), (b, r), (c, s), (e, t)]" "xs = [x, y, z, w]"
    using dims_cases [OF assms(2,3)] assms(1) by (elim disjE) (auto simp: length_Suc_conv numeral_eq_Suc)
  then show ?thesis
  proof cases
    case 1
    then show ?thesis by (simp add: pointer_offset_def pointer1_offset_def pointer_index_def pointer1_index_def pointer_increment_def pointer1_increment_def
      pointer_decrement_def pointer1_decrement_def)
  next
    case 2
    then show ?thesis by (simp add: pointer_offset_def pointer2_offset_def pointer_index_def pointer2_index_def pointer_increment_def pointer2_increment_def
      pointer_decrement_def pointer2_decrement_def Let_def)
  next
    case 3
    then show ?thesis by (simp add: pointer_offset_def pointer3_offset_def pointer_index_def pointer3_index_def pointer_increment_def pointer3_increment_def
      pointer_decrement_def pointer3_decrement_def Let_def)
  next
    case 4
    then show ?thesis by (simp add: pointer_offset_def pointer4_offset_def pointer_index_def pointer4_index_def pointer_increment_def pointer4_increment_def
      pointer_decrement_def pointer4_decrement_def Let_def)
  qed
qed

lemma pointer_axes:
  assumes "axes rs xs" "ys = xs \<or> ys = iterator_end rs"
  shows "pointer_offset rs ys d = int (ptr_off rs ys) + d" "pointer_index rs p = ptr_at rs p"
    "pointer_increment rs ys = ptr_inc rs ys" "pointer_decrement rs ys = ptr_dec rs ys"
proof -
  have l: "1 \<le> length rs" "length rs \<le> 4" "length xs = length rs" using assms(1) list_all2_lengthD [of inside rs xs] by (auto simp: axes_def)
  then have "length ys = length rs" using assms(2) by (auto simp: iterator_end_def)
  note c = pointer_classes [OF this l(1,2)]
  show "pointer_offset rs ys d = int (ptr_off rs ys) + d" "pointer_index rs p = ptr_at rs p"
    "pointer_increment rs ys = ptr_inc rs ys" "pointer_decrement rs ys = ptr_dec rs ys" using c by blast+
qed

interpretation pointer: random_access "axes rs" "iterator_end rs" "num_elems rs" "pointer_offset rs" "pointer_index rs"
    "pointer_increment rs" "pointer_decrement rs" for rs
proof
  show "card (Collect (axes rs)) = num_elems rs" by (rule card_axes)
next
  fix xs assume a: "axes rs xs"
  note n = num_elems_axes [OF a] and x = pointer_axes [OF a disjI1 [OF refl]] and e = pointer_axes [OF a disjI2 [OF refl]]
  have i: "rs \<noteq> []" "inside_all rs xs" and up: "inside_all rs ys \<Longrightarrow> axes rs ys" for ys using a by (auto simp: axes_def)
  note f = ptr_end [OF i]
  show "0 \<le> pointer_offset rs xs 0 \<and> pointer_offset rs xs 0 < int (num_elems rs)" using ptr_off_less [OF i(2)] by (simp add: x n)
  show "pointer_offset rs (iterator_end rs) 0 = int (num_elems rs)" using f by (simp add: e n)
  show "pointer_index rs (nat (pointer_offset rs xs 0)) = xs" using ptr_at_off [OF i(2)] by (simp add: x)
  show "pointer_index rs (num_elems rs) = iterator_end rs" using f by (simp add: e n)
  show "axes rs (pointer_increment rs xs) \<and> pointer_offset rs (pointer_increment rs xs) 0 = pointer_offset rs xs 0 + 1 \<or>
      pointer_increment rs xs = iterator_end rs \<and> pointer_offset rs xs 0 + 1 = int (num_elems rs)"
    using ptr_inc_off [OF i] up pointer_axes(1) [OF up disjI1 [OF refl]] by (auto simp: x n)
  show "axes rs (pointer_decrement rs xs) \<and> pointer_offset rs (pointer_decrement rs xs) 0 = pointer_offset rs xs 0 - 1"
    if "pointer_offset rs xs 0 \<noteq> 0"
    using ptr_dec_off [OF i(2)] that up pointer_axes(1) [OF up disjI1 [OF refl]] by (auto simp: x)
  show "axes rs (pointer_decrement rs (iterator_end rs)) \<and> pointer_offset rs (pointer_decrement rs (iterator_end rs)) 0 = int (num_elems rs) - 1"
    using ptr_dec_end [OF i] up pointer_axes(1) [OF up disjI1 [OF refl]] by (auto simp: e n)
next
  fix xs ys d assume a: "axes rs xs" and y: "ys = xs \<or> ys = iterator_end rs"
  show "pointer_offset rs ys d = pointer_offset rs ys 0 + d" using pointer_axes(1) [OF a y] by simp
qed

section \<open>The laws of iterators and pointers\<close>

lemma axes_begin:
  assumes "axes rs xs"
  shows "axes rs (iterator_begin rs)" "iterator_offset rs (iterator_begin rs) 0 = 0" "pointer_offset rs (iterator_begin rs) 0 = 0"
    "iterator_index rs 0 = iterator_begin rs" "pointer_index rs 0 = iterator_begin rs"
proof -
  have b: "rev (iterator_begin rs) = map fst (rev rs)" by (simp add: iterator_begin_def rev_map)
  note f = first_elem [OF axes_rev [OF assms]]
  show a: "axes rs (iterator_begin rs)" using rev_axes [OF assms f(1)] unfolding b [symmetric] by simp
  show o: "iterator_offset rs (iterator_begin rs) 0 = 0" unfolding iterator_offset_elem [OF a] b elem_off_def using f by simp
  have "ptr_off rs (map fst rs) = 0" for rs by (induction rs) simp_all
  then show p: "pointer_offset rs (iterator_begin rs) 0 = 0" using pointer_axes(1) [OF a disjI1 [OF refl]] by (simp add: iterator_begin_def)
  show "iterator_index rs 0 = iterator_begin rs" using iterator.index_elem [OF a] by (simp add: o)
  show "pointer_index rs 0 = iterator_begin rs" using pointer.index_elem [OF a] by (simp add: p)
qed

text \<open>The elements of a block have consecutive offsets.\<close>

definition blocks_of :: "nat list \<Rightarrow> nat list" where
  "blocks_of xs = map (\<lambda>x. x div 4) xs"

lemma block_mins_eq:
  "inside_all rs xs \<Longrightarrow> inside_all rs ys \<Longrightarrow> block_mins rs xs = block_mins rs ys \<longleftrightarrow> blocks_of xs = blocks_of ys"
proof (induction rs xs arbitrary: ys rule: list_all2_induct)
  case (Cons r rs x xs)
  then obtain y zs where y: "ys = y # zs" "inside r y" "inside_all rs zs" by (auto simp: list_all2_Cons1)
  have "block_min r x = block_min r y \<longleftrightarrow> x div 4 = y div 4"
    using in_block_iff [OF Cons.hyps(1), of y] in_block_iff [OF y(2), of x] block_min_max [OF Cons.hyps(1)] block_min_max [OF y(2)]
      same_block(2) [OF Cons.hyps(1), of y] y(2) block_max_def by metis
  then show ?case using Cons.IH [OF y(3)] by (simp add: y(1) blocks_of_def)
qed (simp add: blocks_of_def)

lemma elem_off_between:
  assumes "inside_all rs xs" "inside_all rs ys" "inside_all rs zs" "blocks_of xs = blocks_of zs"
    and "elem_off rs xs \<le> elem_off rs ys" "elem_off rs ys \<le> elem_off rs zs"
  shows "blocks_of ys = blocks_of xs"
proof -
  have m: "block_mins rs zs = block_mins rs xs" using block_mins_eq [OF assms(1,3)] assms(4) by simp
  have z: "elem_off rs zs < block_off rs xs 1 + volume rs xs"
    using inner_less [OF assms(3)] block_off_mins [OF assms(1,3) m] volume_mins [OF assms(1)] volume_mins [OF assms(3)] m by (simp add: elem_off_def)
  define t where "t = elem_off rs ys - block_off rs xs 1"
  have t: "elem_off rs ys = block_off rs xs 1 + t" "t < 1 * volume rs xs" using assms(5,6) z by (simp_all add: t_def elem_off_def)
  have "block_at rs 1 (elem_off rs ys) = (block_mins rs xs, map2 block_width rs xs, t)" unfolding t(1) by (rule block_at_off [OF assms(1) t(2)])
  moreover have "block_at rs 1 (elem_off rs ys) = (block_mins rs ys, map2 block_width rs ys, inner_off rs ys)"
    using block_at_off [OF assms(2), of "inner_off rs ys" 1] inner_less [OF assms(2)] by (simp add: elem_off_def)
  ultimately have "block_mins rs ys = block_mins rs xs" by simp
  then show ?thesis using block_mins_eq [OF assms(2,1)] by simp
qed

lemma iterator_steps:
  assumes "axes rs xs" "k < extents rs"
  shows "axes rs ((iterator_increment rs ^^ k) (iterator_begin rs))" "iterator_offset rs ((iterator_increment rs ^^ k) (iterator_begin rs)) 0 = int k"
  using iterator.inc_funpow [of k rs] iterator.index_less [of k rs] assms(2) axes_begin(4) [OF assms(1)] num_elems_axes [OF assms(1)] by simp_all

lemma rev_blocks_of: "blocks_of (rev xs) = rev (blocks_of xs)"
  by (simp add: blocks_of_def rev_map)

text \<open>C14: A loop from \<^verbatim>\<open>begin()\<close> to \<^verbatim>\<open>end()\<close> with \<^verbatim>\<open>++\<close> over a container that is not empty visits every element of it exactly once
  and then is at \<^verbatim>\<open>end()\<close>, for arrays and views of one to four dimensions whose bounds need not be aligned to blocks.\<close>

theorem iterator_visits_all:
  assumes "axes rs xs"
  shows "distinct (map (\<lambda>k. (iterator_increment rs ^^ k) (iterator_begin rs)) [0..<extents rs]) \<and>
    set (map (\<lambda>k. (iterator_increment rs ^^ k) (iterator_begin rs)) [0..<extents rs]) = Collect (axes rs) \<and>
    (iterator_increment rs ^^ extents rs) (iterator_begin rs) = iterator_end rs"
proof -
  note b = axes_begin(4) [OF assms] and n = num_elems_axes [OF assms]
  have "(iterator_increment rs ^^ extents rs) (iterator_begin rs) = iterator_end rs"
    using iterator.inc_funpow [of "extents rs" rs] iterator.index_fin [OF assms] by (simp add: b n)
  then show ?thesis using iterator.visits_all [of rs] unfolding b n by blast
qed

theorem iterator_visits_all_witness:
  "card (set (map (\<lambda>k. (iterator_increment [(2, 7), (3, 6)] ^^ k) (iterator_begin [(2, 7), (3, 6)])) [0..<extents [(2, 7), (3, 6)]])) = 15"
proof -
  have "axes [(2, 7), (3, 6)] [2, 3]" by (simp add: axes_def inside_def)
  note distinct_card [OF conjunct1 [OF iterator_visits_all [OF this]]]
  then show ?thesis unfolding length_map by simp
qed

text \<open>C18: The loop finishes a block before it goes to the next one: when the elements of two steps are in the same block of the array,
  so are those of all steps between them.\<close>

theorem iterator_visits_blocks:
  assumes "axes rs xs" "i \<le> j" "j \<le> k" "k < extents rs"
    and "blocks_of ((iterator_increment rs ^^ i) (iterator_begin rs)) = blocks_of ((iterator_increment rs ^^ k) (iterator_begin rs))"
  shows "blocks_of ((iterator_increment rs ^^ j) (iterator_begin rs)) = blocks_of ((iterator_increment rs ^^ i) (iterator_begin rs))"
proof -
  let ?e = "\<lambda>k. rev ((iterator_increment rs ^^ k) (iterator_begin rs))"
  have e: "inside_all (rev rs) (?e l)" "elem_off (rev rs) (?e l) = l" if "l \<le> k" for l
  proof -
    have l: "l < extents rs" using assms(4) that by simp
    note a = iterator_steps [OF assms(1) l]
    show "inside_all (rev rs) (?e l)" by (rule axes_rev [OF a(1)])
    show "elem_off (rev rs) (?e l) = l" using iterator_offset_elem [OF a(1), of 0] a(2) by simp
  qed
  have "i \<le> k" using assms(2,3) by simp
  note e(1) [OF this] e(1) [OF assms(3)] e(1) [OF order_refl]
  moreover have "blocks_of (?e i) = blocks_of (?e k)" unfolding rev_blocks_of assms(5) ..
  moreover have "elem_off (rev rs) (?e i) \<le> elem_off (rev rs) (?e j)" "elem_off (rev rs) (?e j) \<le> elem_off (rev rs) (?e k)"
    unfolding e(2) [OF \<open>i \<le> k\<close>] e(2) [OF assms(3)] e(2) [OF order_refl] by (fact assms(2,3))+
  ultimately have "blocks_of (?e j) = blocks_of (?e i)" by (rule elem_off_between)
  then show ?thesis unfolding rev_blocks_of by simp
qed

theorem iterator_visits_blocks_witness:
  "blocks_of ((iterator_increment [(2, 7), (3, 6)] ^^ 6) (iterator_begin [(2, 7), (3, 6)])) =
    blocks_of ((iterator_increment [(2, 7), (3, 6)] ^^ 5) (iterator_begin [(2, 7), (3, 6)]))"
  by (rule iterator_visits_blocks [of "[(2, 7), (3, 6)]" "[2, 3]" 5 6 8]; code_simp)

text \<open>C17: Iterators have the arithmetic of random access: from any position \<open>xs\<close> of the container, \<^verbatim>\<open>it + d\<close> is the position whose distance from \<open>xs\<close>
  is \<open>d\<close>, as long as that is inside or the end; \<^verbatim>\<open>it + (jt - it)\<close> is \<^verbatim>\<open>jt\<close>; \<^verbatim>\<open>++it\<close> is \<^verbatim>\<open>it + 1\<close>, and \<^verbatim>\<open>--it\<close> undoes it.\<close>

theorem iterator_random_access:
  assumes "axes rs xs" "axes rs ys \<or> ys = iterator_end rs"
    and "0 \<le> iterator_offset rs xs d" "iterator_offset rs xs d \<le> int (extents rs)"
  shows "iterator_offset rs (iterator_advance_by rs xs d) 0 - iterator_offset rs xs 0 = d \<and>
    iterator_advance_by rs xs (iterator_offset rs ys 0 - iterator_offset rs xs 0) = ys \<and>
    iterator_increment rs xs = iterator_advance_by rs xs 1 \<and> iterator_decrement rs (iterator_increment rs xs) = xs"
proof -
  have p: "iterator.position rs xs" "iterator.position rs ys" using assms(1,2) by (auto simp: iterator.position_def)
  have d: "iterator_offset rs xs d = iterator_offset rs xs 0 + d" by (rule iterator.offset_add [OF assms(1) disjI1 [OF refl]])
  show ?thesis using iterator.advance(2) [OF p(1), of d] iterator.advance_difference [OF p] iterator.inc_is_advance [OF assms(1)] iterator.dec_inc [OF assms(1)]
    assms(3,4) num_elems_axes [OF assms(1)] by (simp add: d iterator_advance_by_def)
qed

theorem iterator_random_access_witness:
  "iterator_offset [(2, 7), (3, 6)] (iterator_advance_by [(2, 7), (3, 6)] [5, 3] 7) 0 - iterator_offset [(2, 7), (3, 6)] [5, 3] 0 = 7 \<and>
    iterator_advance_by [(2, 7), (3, 6)] [5, 3] (iterator_offset [(2, 7), (3, 6)] [2, 6] 0 - iterator_offset [(2, 7), (3, 6)] [5, 3] 0) = [2, 6]"
proof -
  let ?r = "[(2, 7), (3, 6)]"
  have "axes ?r [5, 3]" "[2, 6] = iterator_end ?r" by (simp_all add: axes_def inside_def iterator_end_def)
  moreover have "0 \<le> iterator_offset ?r [5, 3] 7" "iterator_offset ?r [5, 3] 7 \<le> int (extents ?r)" by code_simp+
  ultimately show ?thesis using iterator_random_access [of ?r "[5, 3]" "[2, 6]" 7] by blast
qed

text \<open>Pointers have the same arithmetic, and visit the container in the order of a flat array.\<close>

theorem pointer_visits_all:
  assumes "axes rs xs"
  shows "distinct (map (\<lambda>k. (pointer_increment rs ^^ k) (iterator_begin rs)) [0..<extents rs])"
    "set (map (\<lambda>k. (pointer_increment rs ^^ k) (iterator_begin rs)) [0..<extents rs]) = Collect (axes rs)"
  using pointer.visits_all [of rs] by (simp_all only: axes_begin(5) [OF assms] num_elems_axes [OF assms])

theorem pointer_random_access:
  assumes "axes rs xs" "axes rs ys \<or> ys = iterator_end rs"
    and "0 \<le> pointer_offset rs xs d" "pointer_offset rs xs d \<le> int (extents rs)"
  shows "pointer_offset rs (pointer_advance_by rs xs d) 0 - pointer_offset rs xs 0 = d"
    "pointer_advance_by rs xs (pointer_offset rs ys 0 - pointer_offset rs xs 0) = ys"
    "pointer_increment rs xs = pointer_advance_by rs xs 1" "pointer_decrement rs (pointer_increment rs xs) = xs"
proof -
  have p: "pointer.position rs xs" "pointer.position rs ys" using assms(1,2) by (auto simp: pointer.position_def)
  have d: "pointer_offset rs xs d = pointer_offset rs xs 0 + d" by (rule pointer.offset_add [OF assms(1) disjI1 [OF refl]])
  show "pointer_offset rs (pointer_advance_by rs xs d) 0 - pointer_offset rs xs 0 = d"
    using pointer.advance(2) [OF p(1), of d] assms(3,4) num_elems_axes [OF assms(1)] by (simp add: d pointer_advance_by_def)
  show "pointer_advance_by rs xs (pointer_offset rs ys 0 - pointer_offset rs xs 0) = ys"
    "pointer_increment rs xs = pointer_advance_by rs xs 1" "pointer_decrement rs (pointer_increment rs xs) = xs"
    using pointer.advance_difference [OF p] pointer.inc_is_advance [OF assms(1)] pointer.dec_inc [OF assms(1)]
    by (simp_all add: pointer_advance_by_def)
qed

end
