(* ===== verification/Array_View.thy ===== *)
theory Array_View
  imports Array_Iterator_Proof
begin

text \<open>
  Views and their partition for several threads (\<^verbatim>\<open>include/zfp/internal/array/view1.hpp\<close> to \<^verbatim>\<open>view4.hpp\<close>). The pieces of a private view cover it,
  and no block of the array lies in two of them (\<open>view_partition_covers\<close>, \<open>view_partition_blocks\<close>).
\<close>

section \<open>Views\<close>

text \<open>
  A view along an axis is the pair of its offset in the array and its size (the members \<^verbatim>\<open>x\<close> and \<^verbatim>\<open>nx\<close> of the class \<^verbatim>\<open>preview\<close>, and those of the other axes),
  64-bit numbers whose arithmetic wraps around. \<open>partition_axis\<close> is the static function \<^verbatim>\<open>partition\<close>; the others are \<^verbatim>\<open>private_view::partition\<close>.
\<close>

type_synonym view_axis = "uint64 \<times> uint64"

definition partition_axis :: "view_axis \<Rightarrow> uint64 \<Rightarrow> uint64 \<Rightarrow> view_axis" where
  "partition_axis = (\<lambda>(offset, sz) index count.
    let bmin = offset div 4;
        bmax = (offset + sz + 3) div 4;
        xmin = max (offset + 0) (4 * (bmin + (bmax - bmin) * (index + 0) div count));
        xmax = min (offset + sz) (4 * (bmin + (bmax - bmin) * (index + 1) div count))
    in (xmin, xmax - xmin))"

definition view1_partition :: "view_axis \<Rightarrow> uint64 \<Rightarrow> uint64 \<Rightarrow> view_axis" where
  "view1_partition x index count = partition_axis x index count"

definition view2_partition :: "view_axis \<times> view_axis \<Rightarrow> uint64 \<Rightarrow> uint64 \<Rightarrow> view_axis \<times> view_axis" where
  "view2_partition = (\<lambda>(x, y) index count.
    if snd x > snd y then (partition_axis x index count, y)
    else (x, partition_axis y index count))"

definition view3_partition :: "view_axis \<times> view_axis \<times> view_axis \<Rightarrow> uint64 \<Rightarrow> uint64 \<Rightarrow> view_axis \<times> view_axis \<times> view_axis" where
  "view3_partition = (\<lambda>(x, y, z) index count.
    if snd x > max (snd y) (snd z) then (partition_axis x index count, y, z)
    else if snd y > max (snd x) (snd z) then (x, partition_axis y index count, z)
    else (x, y, partition_axis z index count))"

definition view4_partition ::
  "view_axis \<times> view_axis \<times> view_axis \<times> view_axis \<Rightarrow> uint64 \<Rightarrow> uint64 \<Rightarrow> view_axis \<times> view_axis \<times> view_axis \<times> view_axis" where
  "view4_partition = (\<lambda>(x, y, z, w) index count.
    if max (snd x) (snd y) > max (snd z) (snd w) then
      if snd x > snd y then (partition_axis x index count, y, z, w)
      else (x, partition_axis y index count, z, w)
    else
      if snd z > snd w then (x, y, partition_axis z index count, w)
      else (x, y, z, partition_axis w index count))"

text \<open>Any number of dimensions, and the bounds for the iterators of a view (\<^verbatim>\<open>min_x\<close>, \<^verbatim>\<open>max_x\<close> and those of the other axes).\<close>

definition view_partition :: "view_axis list \<Rightarrow> uint64 \<Rightarrow> uint64 \<Rightarrow> view_axis list" where
  "view_partition v index count =
    (case v of [x] \<Rightarrow> [view1_partition x index count]
     | [x, y] \<Rightarrow> (case view2_partition (x, y) index count of (x, y) \<Rightarrow> [x, y])
     | [x, y, z] \<Rightarrow> (case view3_partition (x, y, z) index count of (x, y, z) \<Rightarrow> [x, y, z])
     | [x, y, z, w] \<Rightarrow> (case view4_partition (x, y, z, w) index count of (x, y, z, w) \<Rightarrow> [x, y, z, w]) | _ \<Rightarrow> v)"

definition view_bounds :: "view_axis list \<Rightarrow> bounds list" where
  "view_bounds v = map (\<lambda>(x, sz). (unat x, unat (x + sz))) v"

section \<open>The pieces of a view\<close>

definition axis_blocks :: "view_axis \<Rightarrow> nat" where
  "axis_blocks a = (unat (fst a) + unat (snd a) + 3) div 4 - unat (fst a) div 4"

text \<open>No product or sum of the partition wraps around.\<close>

definition no_wrap :: "view_axis \<Rightarrow> uint64 \<Rightarrow> bool" where
  "no_wrap a count \<longleftrightarrow> 0 < count \<and> unat (fst a) + unat (snd a) + 3 < 2 ^ 64 \<and> axis_blocks a * unat count < 2 ^ 64"

text \<open>The view starts at a block or has a block for every piece.\<close>

definition can_partition :: "view_axis \<Rightarrow> uint64 \<Rightarrow> bool" where
  "can_partition a count \<longleftrightarrow> no_wrap a count \<and> (unat (fst a) mod 4 = 0 \<or> unat count \<le> axis_blocks a)"

lemma no_wrap_facts:
  assumes "no_wrap a count"
  shows "unat (fst a + snd a) = unat (fst a) + unat (snd a)" "unat (fst a + snd a + 3) = unat (fst a) + unat (snd a) + 3" "0 < unat count"
  using assms by (simp_all add: no_wrap_def unat_word_ariths word_gt_0 unat_gt_0)

text \<open>The cuts as numbers.\<close>

definition cut :: "view_axis \<Rightarrow> nat \<Rightarrow> nat \<Rightarrow> nat" where
  "cut a n i = 4 * (unat (fst a) div 4 + axis_blocks a * i div n)"

lemma axis_blocks_end: "unat (fst a) div 4 + axis_blocks a = (unat (fst a) + unat (snd a) + 3) div 4"
  by (simp add: axis_blocks_def div_le_mono)

lemma unat_cut:
  assumes "no_wrap a count" "unat i \<le> unat count"
  shows "unat (4 * (fst a div 4 + ((fst a + snd a + 3) div 4 - fst a div 4) * i div count)) = cut a (unat count) (unat i)"
proof -
  define x n where "x = unat (fst a)" and "n = unat (snd a)"
  have b: "x + n + 3 < 2 ^ 64" "axis_blocks a * unat count < 2 ^ 64" "0 < unat count"
    using assms(1) no_wrap_facts(3) [OF assms(1)] by (simp_all add: no_wrap_def x_def n_def)
  have s: "unat (fst a + snd a + 3) = x + n + 3" using no_wrap_facts(2) [OF assms(1)] by (simp add: x_def n_def)
  have "fst a div 4 \<le> (fst a + snd a + 3) div 4" using s by (simp add: word_le_nat_alt unat_div x_def n_def div_le_mono)
  then have w: "unat ((fst a + snd a + 3) div 4 - fst a div 4) = axis_blocks a"
    by (simp add: unat_sub unat_div s axis_blocks_def x_def n_def)
  have le: "axis_blocks a * unat i \<le> axis_blocks a * unat count" using assms(2) by (rule mult_le_mono2)
  then have "axis_blocks a * unat i < 2 ^ 64" using b(2) by (rule order.strict_trans1)
  then have m: "unat (((fst a + snd a + 3) div 4 - fst a div 4) * i) = axis_blocks a * unat i" using w by (simp add: unat_word_ariths)
  have "axis_blocks a * unat i div unat count \<le> axis_blocks a" using le b(3)
    by (metis div_le_mono nonzero_mult_div_cancel_right less_irrefl)
  then have "4 * (x div 4 + axis_blocks a * unat i div unat count) \<le> 4 * ((x + n + 3) div 4)"
    unfolding x_def n_def axis_blocks_end [symmetric] by simp
  also have "\<dots> \<le> x + n + 3" by simp
  finally have c: "4 * (x div 4 + axis_blocks a * unat i div unat count) < 2 ^ 64" using b(1) by simp
  define q where "q = ((fst a + snd a + 3) div 4 - fst a div 4) * i div count"
  have "unat q = axis_blocks a * unat i div unat count" unfolding q_def unat_div m ..
  then have "unat (4 * (fst a div 4 + q)) = 4 * (x div 4 + axis_blocks a * unat i div unat count)"
    using c by (simp add: unat_word_ariths unat_div x_def)
  then show ?thesis by (simp add: q_def cut_def x_def)
qed


lemma cut_mono: "i \<le> j \<Longrightarrow> cut a n i \<le> cut a n j"
  by (simp add: cut_def div_le_mono)

lemma cut_ends:
  assumes "0 < n"
  shows "cut a n 0 \<le> unat (fst a)" "unat (fst a) + unat (snd a) \<le> cut a n n"
proof -
  show "cut a n 0 \<le> unat (fst a)" by (simp add: cut_def)
  show "unat (fst a) + unat (snd a) \<le> cut a n n" using assms by (simp add: cut_def axis_blocks_end)
qed

text \<open>The pieces are not of negative size.\<close>

lemma cut_last:
  assumes "can_partition a count" "i < unat count"
  shows "max (unat (fst a)) (cut a (unat count) i) \<le> min (unat (fst a) + unat (snd a)) (cut a (unat count) (i + 1))"
proof -
  define x n c where "x = unat (fst a)" and "n = unat (snd a)" and "c = unat count"
  have i: "i < c" and al: "x mod 4 = 0 \<or> c \<le> axis_blocks a" using assms by (simp_all add: can_partition_def c_def x_def)
  have first: "x \<le> cut a c (i + 1)"
    using al
  proof
    assume "x mod 4 = 0"
    then have "x = 4 * (x div 4)" by presburger
    then show ?thesis by (simp add: cut_def x_def)
  next
    assume c: "c \<le> axis_blocks a"
    have "c \<le> axis_blocks a * (i + 1)" using c mult_le_mono [OF c, of 1 "i + 1"] by simp
    then have "1 \<le> axis_blocks a * (i + 1) div c" using i by (simp add: Suc_le_eq div_greater_zero_iff)
    moreover have "x \<le> 4 * (x div 4 + 1)" by presburger
    ultimately show ?thesis by (simp add: cut_def x_def [symmetric])
  qed
  have last: "cut a c i \<le> x + n"
  proof (cases "axis_blocks a = 0")
    case True
    then show ?thesis by (simp add: cut_def x_def)
  next
    case False
    then have "axis_blocks a * i < axis_blocks a * c" using i by simp
    then have "axis_blocks a * i div c < axis_blocks a" by (simp add: less_mult_imp_div_less)
    then have "x div 4 + axis_blocks a * i div c + 1 \<le> (x + n + 3) div 4" unfolding x_def n_def axis_blocks_end [symmetric] by simp
    moreover have "4 * ((x + n + 3) div 4) \<le> x + n + 3" by simp
    ultimately show ?thesis by (simp add: cut_def x_def [symmetric])
  qed
  show ?thesis using first last cut_mono [of i "i + 1" a c] by (simp add: x_def n_def c_def)
qed

lemma unat_max_min: "unat (max v w) = max (unat v) (unat w)" "unat (min v w) = min (unat v) (unat w)" for v w :: uint64
  by (simp_all add: max_def min_def word_le_nat_alt)

lemma partition_axis_cuts:
  assumes "no_wrap a count" "index < count"
  obtains lo hi where "partition_axis a index count = (lo, hi - lo)" "unat lo = max (unat (fst a)) (cut a (unat count) (unat index))"
    "unat hi = min (unat (fst a) + unat (snd a)) (cut a (unat count) (unat index + 1))"
proof -
  have i: "unat index < unat count" using assms(2) by (simp add: word_less_nat_alt)
  have "unat count < 2 ^ 64" using unsigned_less [of count] by simp
  then have i1: "unat (index + 1) = unat index + 1" using i by (simp add: unat_word_ariths)
  define lo hi where "lo = max (fst a) (4 * (fst a div 4 + ((fst a + snd a + 3) div 4 - fst a div 4) * index div count))"
    and "hi = min (fst a + snd a) (4 * (fst a div 4 + ((fst a + snd a + 3) div 4 - fst a div 4) * (index + 1) div count))"
  have "partition_axis a index count = (lo, hi - lo)" by (simp add: partition_axis_def Let_def split_beta lo_def hi_def)
  moreover have "unat lo = max (unat (fst a)) (cut a (unat count) (unat index))"
    unfolding lo_def unat_max_min using unat_cut [OF assms(1), of index] i by simp
  moreover have "unat hi = min (unat (fst a) + unat (snd a)) (cut a (unat count) (unat index + 1))"
    unfolding hi_def unat_max_min no_wrap_facts(1) [OF assms(1)] using unat_cut [OF assms(1), of "index + 1"] i i1 by simp
  ultimately show thesis by (rule that)
qed

definition axis_bounds :: "view_axis \<Rightarrow> bounds" where
  "axis_bounds = (\<lambda>(x, sz). (unat x, unat (x + sz)))"

lemma partition_inside:
  assumes "can_partition a count" "index < count"
  shows "inside (axis_bounds (partition_axis a index count)) p \<longleftrightarrow>
    inside (axis_bounds a) p \<and> cut a (unat count) (unat index) \<le> p \<and> p < cut a (unat count) (unat index + 1)"
proof -
  have w: "no_wrap a count" using assms(1) by (simp add: can_partition_def)
  obtain lo hi where l: "partition_axis a index count = (lo, hi - lo)" "unat lo = max (unat (fst a)) (cut a (unat count) (unat index))"
    "unat hi = min (unat (fst a) + unat (snd a)) (cut a (unat count) (unat index + 1))"
    by (rule partition_axis_cuts [OF w assms(2)])
  then show ?thesis using no_wrap_facts(1) [OF w] by (auto simp: inside_def axis_bounds_def split_beta)
qed

text \<open>Every index of the axis is in one piece, and every block in one piece only.\<close>

lemma inside_some_piece:
  assumes "can_partition a count" "inside (axis_bounds a) p"
  shows "\<exists>index < count. inside (axis_bounds (partition_axis a index count)) p"
proof -
  let ?cut = "cut a (unat count)"
  have "no_wrap a count" using assms(1) by (simp add: can_partition_def)
  note s = no_wrap_facts(1) [OF this] and c = no_wrap_facts(3) [OF this]
  have p: "?cut 0 \<le> p" "p < ?cut (unat count)"
    using cut_ends [OF c, of a] assms(2) by (auto simp: inside_def axis_bounds_def split_beta s)
  obtain i where i: "i < unat count" "?cut i \<le> p" "p < ?cut (i + 1)"
    using ex_least_nat_less [of "\<lambda>i. p < ?cut i" "unat count"] p by (auto simp: not_less)
  have w: "unat (of_nat i :: uint64) = i" using i(1) unsigned_less [of count, where ?'a = nat] by (simp add: unat_of_nat)
  have l: "(of_nat i :: uint64) < count" using i(1) by (simp add: word_less_nat_alt w)
  then have "inside (axis_bounds (partition_axis a (of_nat i) count)) p"
    using assms(2) i(2,3) unfolding partition_inside [OF assms(1) l] w by blast
  then show ?thesis using l by blast
qed

lemma pieces_share_no_block:
  assumes "can_partition a count" "i < count" "j < count" "i \<noteq> j"
    and "inside (axis_bounds (partition_axis a i count)) p" "inside (axis_bounds (partition_axis a j count)) q"
  shows "p div 4 \<noteq> q div 4"
proof -
  have "q div 4 < r div 4" if "q < 4 * c" "4 * c \<le> r" for q r c :: nat 
    using less_mult_imp_div_less [of q c 4] div_le_mono [OF that(2), of 4] that(1) by (simp add: mult.commute)
  then have less: "q div 4 < r div 4" if "q < cut a (unat count) k" "k \<le> l" "cut a (unat count) l \<le> r" for q r k l
    using that(1) order_trans [OF cut_mono [OF that(2)] that(3)] unfolding cut_def by blast
  have p: "cut a (unat count) (unat i) \<le> p" "p < cut a (unat count) (unat i + 1)"
    and q: "cut a (unat count) (unat j) \<le> q" "q < cut a (unat count) (unat j + 1)"
    using assms(5,6) unfolding partition_inside [OF assms(1,2)] partition_inside [OF assms(1,3)] by blast+
  have "unat i \<noteq> unat j" using assms(4) by (simp add: word_unat_eq_iff)
  then consider "unat i + 1 \<le> unat j" | "unat j + 1 \<le> unat i" by linarith
  then show ?thesis using less [OF p(2) _ q(1)] less [OF q(2) _ p(1)] by cases simp_all
qed

section \<open>Partitions of views\<close>

text \<open>The axis along which a view is cut.\<close>

definition partition_dim :: "view_axis list \<Rightarrow> nat" where
  "partition_dim v =
    (case map snd v of [mx, my] \<Rightarrow> if mx > my then 0 else 1
     | [mx, my, mz] \<Rightarrow> if mx > max my mz then 0 else if my > max mx mz then 1 else 2
     | [mx, my, mz, mw] \<Rightarrow> if max mx my > max mz mw then if mx > my then 0 else 1 else if mz > mw then 2 else 3 | _ \<Rightarrow> 0)"

lemma view_partition_update:
  assumes "1 \<le> length v" "length v \<le> 4"
  shows "partition_dim v < length v \<and> view_partition v i n = v[partition_dim v := partition_axis (v ! partition_dim v) i n]"
proof -
  consider x where "v = [x]" | x y where "v = [x, y]" | x y z where "v = [x, y, z]" | x y z w where "v = [x, y, z, w]"
    using dims_cases [OF assms] by (elim disjE) (auto simp: length_Suc_conv numeral_eq_Suc)
  then show ?thesis
    by cases (simp_all add: partition_dim_def view_partition_def view1_partition_def view2_partition_def view3_partition_def view4_partition_def
      numeral_2_eq_2 numeral_3_eq_3)
qed

lemma axes_view: "axes (view_bounds v) xs \<longleftrightarrow>
    1 \<le> length v \<and> length v \<le> 4 \<and> length xs = length v \<and> (\<forall>i < length v. inside (axis_bounds (v ! i)) (xs ! i))"
  by (auto simp: axes_def view_bounds_def list_all2_conv_all_nth axis_bounds_def split_beta)

lemma axes_update:
  assumes "k < length v"
  shows "axes (view_bounds (v[k := a])) xs \<longleftrightarrow> 1 \<le> length v \<and> length v \<le> 4 \<and> length xs = length v \<and> inside (axis_bounds a) (xs ! k) \<and>
    (\<forall>i < length v. i \<noteq> k \<longrightarrow> inside (axis_bounds (v ! i)) (xs ! i))"
  using assms by (auto simp: axes_view nth_list_update)

text \<open>C16: \<^verbatim>\<open>partition(index, count)\<close> cuts a private view into pieces that cover it: an element of the array is in the view if and only if it is in the
  piece of some \<open>index < count\<close>. The view starts at a block along the axis that is cut or has at least as many blocks along it as there are pieces,
  and no number of the computation reaches \<open>2 ^ 64\<close>.\<close>

theorem view_partition_covers:
  assumes "1 \<le> length v" "length v \<le> 4" "can_partition (v ! partition_dim v) count"
  shows "Collect (axes (view_bounds v)) = (\<Union>index \<in> {index. index < count}. Collect (axes (view_bounds (view_partition v index count))))"
proof -
  let ?k = "partition_dim v"
  have k: "?k < length v" and p: "view_partition v i n = v[?k := partition_axis (v ! ?k) i n]" for i n
    using view_partition_update [OF assms(1,2)] by auto
  have "axes (view_bounds v) xs \<longleftrightarrow> (\<exists>index < count. axes (view_bounds (view_partition v index count)) xs)" for xs
    using inside_some_piece [OF assms(3)] partition_inside [OF assms(3)] axes_update [OF k, of "v ! ?k" xs]
    unfolding p axes_update [OF k] list_update_id by blast
  then show ?thesis by auto
qed

theorem view_partition_covers_witness:
  "Collect (axes (view_bounds [(2, 10), (3, 6)])) =
    (\<Union>index \<in> {index. index < 2}. Collect (axes (view_bounds (view_partition [(2, 10), (3, 6)] index 2))))"
  by (rule view_partition_covers) (simp_all add: partition_dim_def can_partition_def no_wrap_def axis_blocks_def)

text \<open>C15: When the view starts at a block along the axis that is cut or has at least as many blocks along it as there are pieces, and no number of
  the computation reaches \<open>2 ^ 64\<close>, then two pieces of the view have no block of the array in common: the threads that work on them do not write the same block.\<close>

theorem view_partition_blocks:
  assumes "1 \<le> length v" "length v \<le> 4" "can_partition (v ! partition_dim v) count" "i < count" "j < count" "i \<noteq> j"
    and "axes (view_bounds (view_partition v i count)) xs" "axes (view_bounds (view_partition v j count)) ys"
  shows "blocks_of xs \<noteq> blocks_of ys"
proof
  let ?k = "partition_dim v"
  have k: "?k < length v" and p: "view_partition v i n = v[?k := partition_axis (v ! ?k) i n]" for i n
    using view_partition_update [OF assms(1,2)] by auto
  assume b: "blocks_of xs = blocks_of ys"
  have "?k < length xs" "?k < length ys" using assms(7,8) k unfolding p axes_update [OF k] by simp_all
  then have "xs ! ?k div 4 = ys ! ?k div 4" using arg_cong [OF b, of "\<lambda>bs. bs ! ?k"] by (simp add: blocks_of_def)
  then show False
    using pieces_share_no_block [OF assms(3-6)] assms(7,8) unfolding p axes_update [OF k] by blast
qed

theorem view_partition_blocks_witness:
  "blocks_of [3, 4] \<noteq> blocks_of [4, 4]"
proof (rule view_partition_blocks [of "[(2, 10), (3, 6)]" 2 0 1])
  let ?v = "[(2, 10), (3, 6)] :: view_axis list"
  show "can_partition (?v ! partition_dim ?v) 2" by (simp add: partition_dim_def can_partition_def no_wrap_def axis_blocks_def)
  have "view_partition ?v 0 2 = [(2, 2), (3, 6)]" "view_partition ?v 1 2 = [(4, 8), (3, 6)]" by code_simp+
  then show "axes (view_bounds (view_partition ?v 0 2)) [3, 4]" "axes (view_bounds (view_partition ?v 1 2)) [4, 4]"
    by (simp_all add: axes_def view_bounds_def inside_def)
qed simp_all

text \<open>C40: A view that does not start at a block, cut into more pieces than it has blocks, gets first pieces that end before they start: the
  subtraction wraps around, and the size of the piece is just below \<open>2 ^ 64\<close> rather than zero.\<close>

theorem partition_unaligned_wraps:
  assumes "no_wrap a count" "unat (fst a) mod 4 \<noteq> 0" "index < count" "axis_blocks a * (unat index + 1) < unat count"
  shows "unat (snd (view1_partition a index count)) = 2 ^ 64 - unat (fst a) mod 4"
proof -
  let ?x = "unat (fst a)"
  obtain lo hi where l: "partition_axis a index count = (lo, hi - lo)" "unat lo = max ?x (cut a (unat count) (unat index))"
    "unat hi = min (?x + unat (snd a)) (cut a (unat count) (unat index + 1))"
    by (rule partition_axis_cuts [OF assms(1,3)])
  have "axis_blocks a * unat index < unat count" using assms(4) by simp
  then have "cut a (unat count) (unat index) = 4 * (?x div 4)" "cut a (unat count) (unat index + 1) = 4 * (?x div 4)"
    using assms(4) by (simp_all add: cut_def)
  moreover have "4 * (?x div 4) + ?x mod 4 = ?x" by simp
  ultimately have "unat lo = ?x" "unat hi + ?x mod 4 = ?x" using l(2,3) by simp_all
  then show ?thesis using assms(2) by (simp add: view1_partition_def l(1) unat_sub_if_size word_size)
qed

theorem partition_unaligned_wraps_witness:
  "unat (snd (view1_partition (1, 3) 0 2)) = 2 ^ 64 - 1"
  using partition_unaligned_wraps [of "(1, 3)" 2 0] by (simp add: no_wrap_def axis_blocks_def)

text \<open>When the two larger sizes of a three-dimensional view are equal, the first two comparisons fail and the view is cut along its
  shortest axis.\<close>

lemma view3_partition_shortest:
  assumes "snd x = snd y" "snd z < snd y"
  shows "view3_partition (x, y, z) index count = (x, y, partition_axis z index count)"
  using assms by (simp add: view3_partition_def)

end
