(* ===== verification/Spec2Isabelle.thy ===== *)
theory Spec2Isabelle
  imports Array_Props
    Array_View
begin

text \<open>
  Verification of zfp, a library for compressed arrays of integers and floating-point numbers: the compressor written in C
  (\<^verbatim>\<open>src/\<close>, \<^verbatim>\<open>include/\<close>) and the compressed-array classes written in C++ (\<^verbatim>\<open>include/zfp/\<close>). Paths are relative to the root of the repository.

  \<^bold>\<open>The program.\<close> An array of one to four dimensions is divided into blocks of \<open>4 ^ d\<close> values. Every block is compressed on its own:
  its values are converted to integers (floating-point blocks to a common exponent, or, in reversible mode, bit patterns), decorrelated
  by a transform, sorted by frequency, converted to negabinary, and written bit plane by bit plane to a bit stream. The four
  parameters of a stream, the smallest and largest number of bits of a block, the number of bit planes and the smallest exponent,
  give the modes: fixed rate, fixed precision, fixed accuracy, reversible, expert. A compressed array object holds the blocks
  at a fixed rate in a buffer, finds them by an index of bit offsets, and keeps decompressed blocks in a write-back cache.

  \<^bold>\<open>Theories\<close>, in the order in which the components call each other:
  \<^item> \<open>Zfp_Prelude\<close>: names of the C integer types, \<open>for_loop\<close>, rounding, generic facts about words and lists.
  \<^item> \<open>Bitstream\<close>: \<^verbatim>\<open>include/zfp/bitstream.inl\<close>. The record \<open>bitstream\<close> is the C struct (buffer, buffered bits, pointer, memory as a
    function of the position). The words of the stream have any length that the build can choose. Two abstractions, \<open>pending\<close> bits of a
    writer and the \<open>tape\<close> of a reader, give each operation its meaning on lists of bits.
  \<^item> \<open>Coder\<close>: the embedded coder of bit planes (\<^verbatim>\<open>src/template/encode.c\<close>, \<^verbatim>\<open>decode.c\<close>), its four variants each way. They are proved
    equivalent to an abstract code of a list of planes: the encoder writes a prefix of it, the decoder reads the prefix back.
  \<^item> \<open>Transform\<close>, \<open>Reorder\<close>, \<open>Block\<close>: the transforms (\<^verbatim>\<open>src/template/encode1.c\<close> to \<^verbatim>\<open>revencode4.c\<close>), the coefficient order and
    negabinary, and the codec of integer blocks; inverse of the reversible transform, error of the lossy one, round trip.
  \<^item> \<open>Zfp_Stream\<close>, \<open>Floats\<close>, \<open>Float_Block\<close>: the compressed stream and the codecs of floating-point blocks (\<^verbatim>\<open>encodef.c\<close>, \<^verbatim>\<open>revencodef.c\<close>
    and their decoders).
  \<^item> \<open>Strided\<close>: blocks in the user's memory, whole and partial, for all strides (\<^verbatim>\<open>encode1.c\<close> to \<^verbatim>\<open>encode4.c\<close>).
  \<^item> \<open>Zfp_Field\<close>, \<open>Zfp_Api\<close>: \<^verbatim>\<open>src/zfp.c\<close>: fields, metadata, modes and parameters, execution policy, header, promotion of small integers.
  \<^item> \<open>Compress\<close>, \<open>Codec\<close>, \<open>Whole_Array\<close>: the serial drivers (\<^verbatim>\<open>compress.c\<close>, \<^verbatim>\<open>decompress.c\<close>). The locale \<open>block_codec\<close> is the contract between
    them and the block codec; it is interpreted on the code's reversible codecs and on the codecs in any mode.
  \<^item> \<open>Omp\<close>, \<open>Omp_Proof\<close>: compression by several threads (\<^verbatim>\<open>src/share/omp.c\<close>, \<^verbatim>\<open>parallel.c\<close>, \<^verbatim>\<open>ompcompress.c\<close>).
  \<^item> \<open>Compress_Props\<close>: the properties of \<^verbatim>\<open>zfp_compress\<close> and \<^verbatim>\<open>zfp_decompress\<close> on whole arrays.
  \<^item> \<open>Index\<close>, \<open>Index_Packed\<close>, \<open>Index_Props\<close>: the four block indices (\<^verbatim>\<open>include/zfp/index.hpp\<close>); the locale \<open>block_index\<close> is their contract,
    interpreted on the three indices of variable rate.
  \<^item> \<open>Locality\<close>: every decoder is a function of the bits it reads and looks at no others, on any stream.
  \<^item> \<open>Array_Codec\<close>: the codec object of an array (\<^verbatim>\<open>include/zfp/codec/zfpcodec.hpp\<close>): single blocks at bit offsets.
  \<^item> \<open>Block_Store\<close>, \<open>Block_Store_Proof\<close>: the buffer of compressed blocks with its index and codec (\<^verbatim>\<open>internal/array/store.hpp\<close>,
    \<^verbatim>\<open>store1.hpp\<close> to \<^verbatim>\<open>store4.hpp\<close>).
  \<^item> \<open>Block_Cache\<close>, \<open>Block_Cache_Proof\<close>: the cache (\<^verbatim>\<open>internal/array/cache.hpp\<close>), direct mapped or two-way. The locale \<open>cached_store\<close>
    states what it relies on of the store behind it; \<open>Block_Store_Proof\<close> interprets it on the block store.
  \<^item> \<open>Cached_Array\<close>, \<open>Cached_Array_Proof\<close>, \<open>Array_Props\<close>: the array classes (\<^verbatim>\<open>array1.hpp\<close> to \<^verbatim>\<open>array4.hpp\<close>, \<^verbatim>\<open>cache1.hpp\<close> to \<^verbatim>\<open>cache4.hpp\<close>).
  \<^item> \<open>Array_Iterator\<close>, \<open>Array_Iterator_Proof\<close>: iterators, which visit an array or view block by block, and pointers, which visit it as a flat array
    (\<^verbatim>\<open>iterator1.hpp\<close> to \<^verbatim>\<open>iterator4.hpp\<close>, \<^verbatim>\<open>pointer1.hpp\<close> to \<^verbatim>\<open>pointer4.hpp\<close>). The locale \<open>random_access\<close> is the contract of both.
  \<^item> \<open>Array_View\<close>: the partition of views for several threads (\<^verbatim>\<open>view1.hpp\<close> to \<^verbatim>\<open>view4.hpp\<close>).

  \<^bold>\<open>What is proved.\<close> Bit stream: each operation is the bitwise one, nothing is written beyond the words of the bits. Coder: all variants
  write a prefix of one code and read it back; on any input they end within their bit budget. Blocks: reversible coding is exact; the error of
  fixed precision is bounded; encoder and decoder stay in step. Arrays: reversible compression of whole arrays is lossless, for all strides;
  parallel compression equals serial compression bit for bit; the announced maximal size suffices; unsupported combinations
  are errors that change nothing. Headers, parameters and metadata survive their encoding. Compressed-array objects: the abstraction
  \<open>array_value\<close> maps an array to the values of its elements, wherever they are kept, and \<open>array_inv\<close> is the invariant; element access,
  bulk copies, flushing and resizing of the cache are described by their effect on the values, and no sequence of operations fails (in the two-way build of the cache,
  sequences without bulk writes, which that build can lose). Iterators visit every element once and a block at a time; the
  pieces of a partitioned view cover it and share no block.
  The places where the code does not do what it means to are theorems too (\<open>metadata_1d_truncated\<close>, \<open>rev_zero_block_out_of_sync\<close>,
  \<open>contiguous_1d_overflow\<close>, \<open>parallel_append_invalid_free\<close>, \<open>index_rejects\<close>, \<open>lookup_secondary_marks_primary\<close>,
  \<open>expert_fixed_size_no_offsets\<close>, \<open>cache_resize_ends\<close>, \<open>partition_unaligned_wraps\<close>, \<open>view3_partition_shortest\<close>).

  \<^bold>\<open>Conventions and bounds.\<close> Machine integers are words of their width where overflow can happen or bits matter; sizes, counters of bounded
  loops and addresses are \<open>nat\<close> or \<open>int\<close>. Floating-point values are words with their bit fields; the rates of the user interface are
  rational numbers. The only functions of the C library that matter, \<^verbatim>\<open>frexp\<close> and the conversions between floating-point numbers and
  integers out of range, are parameters with their documented behaviour as hypothesis (\<open>frexp_ok\<close>). Memory is a total function from addresses; a
  theorem states which addresses an operation reads and writes. What freshly allocated memory holds is an argument, and allocation
  succeeds. Loops are structural or have a measure; the loops of the cache that may not end are \<open>partial_function\<close>s with \<open>None\<close> for not ending, and
  the theorems prove \<open>Some\<close>. No fuel is used. Arrays have fewer than \<open>2 ^ 31\<close> blocks, the limit that the cache checks.

  \<^bold>\<open>Not modelled.\<close> Build options other than the default rounding, strided streams and denormal handling; the GPU back end, which needs the CUDA
  runtime; the bindings for C, Fortran and Python, which forward calls; the command line tool, examples and tests; memory management; the
  serialization of C++ arrays and read-only arrays; the generic codec; references, and the element access of views, which add offsets and forward
  to the arrays.
\<close>

end
